(* ===== verification/Go_Prelude.thy ===== *)
theory Go_Prelude
  imports Main "HOL-Library.Word" "HOL-Library.AList" "HOL-Library.Char_ord"
    "HOL-Library.List_Lexorder" "HOL-Library.Multiset"
begin

unbundle bit_operations_syntax

section \<open>Types and lemmas shared by the components\<close>

text \<open>
  Go values as they are used in the whole development.  Unsigned integers are words, so that
  arithmetic on them wraps as it does in Go.  Signed quantities (durations and instants in
  nanoseconds, sizes) are \<open>int\<close>; where a computation can leave the 64-bit range the wrap-around is
  written out with \<open>wrap_i64\<close>.  A Go string is a byte string and is modelled by \<open>string\<close>, whose
  characters are bytes; \<open>[]byte\<close> is modelled by the same type.

  A Go map that the program iterates over is an association list with distinct keys.  The order of
  the list is the (unspecified) iteration order, so a statement about all association lists is a
  statement about every iteration order.
\<close>

type_synonym u8 = "8 word"
type_synonym u32 = "32 word"
type_synonym u64 = "64 word"
type_synonym duration = int
type_synonym instant = int
type_synonym ('k, 'v) gomap = "('k \<times> 'v) list"

datatype go_panic = NilDeref | IndexOutOfRange | DivideByZero | BugPanic string

definition wrap_i64 :: "int \<Rightarrow> int" where
  "wrap_i64 x = signed_take_bit 63 x"

text \<open>Go's integer division and remainder truncate towards zero.\<close>

definition go_quot :: "int \<Rightarrow> int \<Rightarrow> int" where
  "go_quot a b = sgn a * sgn b * (\<bar>a\<bar> div \<bar>b\<bar>)"

definition go_rem :: "int \<Rightarrow> int \<Rightarrow> int" where
  "go_rem a b = a - b * go_quot a b"

text \<open>
  \<^verbatim>\<open>make\<close> of a slice of \<open>n\<close> elements of \<open>elem\<close> bytes panics when \<open>n\<close> is negative or the slice is larger than the
  address space, \<^verbatim>\<open>2^48\<close> bytes on the 64-bit platforms the program is built for.  (That the machine has the memory is
  not modelled: Go ends a program that runs out of it with a fatal error, not with a panic.)
\<close>

definition slice_fits :: "int \<Rightarrow> int \<Rightarrow> bool" where
  "slice_fits elem n \<longleftrightarrow> 0 \<le> n \<and> elem * n \<le> 2 ^ 48"

abbreviation map_keys :: "('k, 'v) gomap \<Rightarrow> 'k set" where
  "map_keys m \<equiv> fst ` set m"

definition map_ok :: "('k, 'v) gomap \<Rightarrow> bool" where
  "map_ok m \<longleftrightarrow> distinct (map fst m)"

named_theorems map_simps \<open>lookup and key-set laws of association lists\<close>

text \<open>
  A loop whose body may panic or return an error: the first failure ends it.
\<close>

fun fold_err :: "('s \<Rightarrow> 'x \<Rightarrow> 'e + 's) \<Rightarrow> 's \<Rightarrow> 'x list \<Rightarrow> 'e + 's" where
  "fold_err f s [] = Inr s"
| "fold_err f s (x # xs) = (case f s x of Inl e \<Rightarrow> Inl e | Inr s' \<Rightarrow> fold_err f s' xs)"

lemma fold_err_pure: "fold_err (\<lambda>s x. Inr (f s x)) s xs = Inr (foldl f s xs)"
  by (induction xs arbitrary: s) auto

text \<open>Reading a missing key of a map of strings yields the zero value.\<close>

definition str_index :: "('k, string) gomap \<Rightarrow> 'k \<Rightarrow> string" where
  "str_index m k = (case map_of m k of None \<Rightarrow> [] | Some v \<Rightarrow> v)"

subsection \<open>Accumulation\<close>

text \<open>
  Much of the program folds inputs into a keyed store: series into an estimator, snapshots into a
  selector node, fingerprints into a filter.  What such a store owes its client is that a step never
  fails on a valid input, keeps the store valid, and adds to every key exactly what the input
  contributes to it.  Then a run over a list yields the union of all contributions, in whatever order
  the list is visited.
\<close>

locale accumulator =
  fixes ok :: "'s \<Rightarrow> bool"
    and valid :: "'x \<Rightarrow> bool"
    and get :: "'s \<Rightarrow> 'k \<Rightarrow> 'v set"
    and contrib :: "'x \<Rightarrow> 'k \<Rightarrow> 'v set"
    and step :: "'s \<Rightarrow> 'x \<Rightarrow> 'e + 's"
  assumes step_ok: "ok s \<Longrightarrow> valid x \<Longrightarrow> \<exists>s'. step s x = Inr s' \<and> ok s' \<and> (\<forall>k. get s' k = get s k \<union> contrib x k)"
begin

lemma run_ok:
  "ok s \<Longrightarrow> \<forall>x \<in> set xs. valid x
   \<Longrightarrow> \<exists>s'. fold_err step s xs = Inr s' \<and> ok s' \<and> (\<forall>k. get s' k = get s k \<union> (\<Union>x \<in> set xs. contrib x k))"
proof (induction xs arbitrary: s)
  case (Cons x xs)
  then obtain s1 where s1: "step s x = Inr s1" "ok s1" "\<forall>k. get s1 k = get s k \<union> contrib x k"
    using step_ok [of s x] by auto
  then show ?case using Cons.IH [OF s1(2)] Cons.prems(2) by fastforce
qed simp

lemma run_order:
  assumes "ok s" and "\<forall>x \<in> set xs. valid x" and "set ys = set xs"
  shows "\<exists>s1 s2. fold_err step s xs = Inr s1 \<and> fold_err step s ys = Inr s2 \<and> get s1 = get s2"
  using run_ok [OF assms(1,2)] run_ok [OF assms(1), of ys] assms(2,3) by fastforce

lemma run_again:
  assumes "ok s" and "\<forall>x \<in> set xs. valid x"
  shows "\<exists>s1 s2. fold_err step s xs = Inr s1 \<and> fold_err step s1 xs = Inr s2 \<and> get s2 = get s1"
proof -
  obtain s1 where s1: "fold_err step s xs = Inr s1" "ok s1"
    "\<forall>k. get s1 k = get s k \<union> (\<Union>x \<in> set xs. contrib x k)"
    using run_ok [OF assms] by blast
  with run_ok [OF s1(2) assms(2)] show ?thesis by fastforce
qed

end

subsection \<open>Go maps\<close>

lemma map_ok_Nil [simp]: "map_ok []"
  by (simp add: map_ok_def)

lemma map_ok_update [intro]: "map_ok m \<Longrightarrow> map_ok (AList.update k v m)"
  by (simp add: map_ok_def distinct_update)

lemma map_ok_delete [intro]: "map_ok m \<Longrightarrow> map_ok (AList.delete k m)"
  by (simp add: map_ok_def distinct_delete)

lemma map_keys_update [map_simps]: "map_keys (AList.update k v m) = insert k (map_keys m)"
  by (induction m) auto

lemma map_keys_delete [map_simps]: "map_keys (AList.delete k m) = map_keys m - {k}"
  by (induction m) auto

lemma map_of_update [map_simps]:
  "map_of (AList.update k v m) j = (if j = k then Some v else map_of m j)"
  by (simp add: update_conv)

lemma map_of_in_keys: "map_of m k = Some v \<Longrightarrow> k \<in> map_keys m"
  using map_of_SomeD by force

lemma map_of_not_in_keys: "map_of m k = None \<longleftrightarrow> k \<notin> map_keys m"
  by (simp add: map_of_eq_None_iff)

lemma card_map_keys: "map_ok m \<Longrightarrow> card (map_keys m) = length m"
  unfolding map_ok_def by (metis distinct_card length_map list.set_map)

subsection \<open>Words\<close>

lemma wrap_i64_id: "- (2 ^ 63) \<le> x \<Longrightarrow> x < 2 ^ 63 \<Longrightarrow> wrap_i64 x = x"
  by (simp add: wrap_i64_def signed_take_bit_int_eq_self)

lemma go_quot_nonneg: "0 \<le> a \<Longrightarrow> 0 < b \<Longrightarrow> go_quot a b = a div b"
  by (cases "a = 0") (simp_all add: go_quot_def)

lemma go_rem_nonneg: "0 \<le> a \<Longrightarrow> 0 < b \<Longrightarrow> go_rem a b = a mod b"
  by (simp add: go_rem_def go_quot_nonneg minus_mult_div_eq_mod)

lemma unat_mod_less: "0 < n \<Longrightarrow> unat (x mod n) < unat n" for x n :: "'a::len word"
  by (simp add: unat_mod word_gt_0 unat_gt_0)

subsection \<open>Lists updated by index\<close>

lemma ball_list_update: "\<forall>x \<in> set xs. P x \<Longrightarrow> P v \<Longrightarrow> \<forall>x \<in> set (xs[i := v]). P x"
  using set_update_subset_insert [of xs i v] by blast

lemma sum_list_update_int:
  "i < length xs \<Longrightarrow> sum_list (xs[i := v]) = sum_list xs - xs ! i + v" for xs :: "int list"
proof (induction xs arbitrary: i)
  case (Cons a xs)
  then show ?case by (cases i) auto
qed simp

end
