(* ===== verification/Hll_Encoding.thy ===== *)
theory Hll_Encoding
  imports Go_Prelude
begin

section \<open>HyperLogLog: bit extraction, hash encoding and the compressed key list\<close>

text \<open>
  The part of the vendored package \<^verbatim>\<open>axiomhq/hyperloglog\<close> on which every estimate of the program
  rests: \<^verbatim>\<open>utils.go\<close> (bit extraction, register index and rank of a hash), \<^verbatim>\<open>sparse.go\<close> (the 32-bit
  encoding of a hash used while a sketch is sparse) and \<^verbatim>\<open>compressed.go\<close> (the list of such keys, kept as
  variable-length deltas).  The main results: decoding an encoded hash gives exactly the register
  index and rank that the dense representation computes, and a compressed list yields back the keys
  that were appended to it.
\<close>

subsection \<open>Bits\<close>

fun bit_len :: "nat \<Rightarrow> nat" where
  "bit_len n = (if n = 0 then 0 else Suc (bit_len (n div 2)))"

declare bit_len.simps [simp del]

definition leading_zeros64 :: "u64 \<Rightarrow> nat" where
  "leading_zeros64 x = 64 - bit_len (unat x)"

definition bextr :: "u64 \<Rightarrow> nat \<Rightarrow> nat \<Rightarrow> u64" where
  "bextr v start len = drop_bit start v AND (push_bit len 1 - 1)"

definition bextr32 :: "u32 \<Rightarrow> nat \<Rightarrow> nat \<Rightarrow> u32" where
  "bextr32 v start len = drop_bit start v AND (push_bit len 1 - 1)"

definition pp :: nat where
  "pp = 25"

text \<open>Register index and rank of a hash in the dense representation (\<^verbatim>\<open>getPosVal\<close>).\<close>

definition get_pos_val :: "u64 \<Rightarrow> nat \<Rightarrow> nat \<times> nat" where
  "get_pos_val x p =
     (let i = bextr x (64 - p) p;
          w = push_bit p x OR push_bit (p - 1) 1;
          rho = leading_zeros64 w + 1
      in (unat i, rho))"

subsection \<open>The sparse encoding of a hash\<close>

definition get_index :: "u32 \<Rightarrow> nat \<Rightarrow> u32" where
  "get_index k p = (if k AND 1 = 1 then bextr32 k (32 - p) p else bextr32 k (pp - p + 1) p)"

definition encode_hash :: "u64 \<Rightarrow> nat \<Rightarrow> u32" where
  "encode_hash x p =
     (let idx = ucast (bextr x (64 - pp) pp) :: u32 in
      if bextr x (64 - pp) (pp - p) = 0
      then (let zeros = leading_zeros64 (push_bit pp (bextr x 0 (64 - pp)) OR (push_bit pp 1 - 1)) + 1
            in push_bit 7 idx OR push_bit 1 (of_nat zeros) OR 1)
      else push_bit 1 idx)"

definition decode_hash :: "u32 \<Rightarrow> nat \<Rightarrow> nat \<times> nat" where
  "decode_hash k p =
     (unat (get_index k p),
      if k AND 1 = 1 then unat (bextr32 k 1 6) + pp - p
      else leading_zeros64 (ucast (push_bit (32 - pp + p - 1) k)) - 31)"

subsection \<open>Facts about bit lengths\<close>

lemma bit_len_0 [simp]: "bit_len 0 = 0"
  by (simp add: bit_len.simps)

lemma bit_len_pos: "0 < n \<Longrightarrow> bit_len n = Suc (bit_len (n div 2))"
  by (simp add: bit_len.simps [of n])

lemma bit_len_shift: "0 < a \<Longrightarrow> r < 2 ^ k \<Longrightarrow> bit_len (a * 2 ^ k + r) = bit_len a + k"
proof (induction k arbitrary: r)
  case 0
  then show ?case by simp
next
  case (Suc k)
  have "(a * 2 ^ Suc k + r) div 2 = a * 2 ^ k + r div 2" by simp
  moreover have "r div 2 < 2 ^ k" using Suc.prems(2) by simp
  moreover have "0 < a * 2 ^ Suc k + r" using Suc.prems(1) by simp
  ultimately show ?case using Suc.IH [of "r div 2"] Suc.prems(1)
    by (simp only: bit_len_pos)
qed

lemma bit_len_le: "n < 2 ^ k \<Longrightarrow> bit_len n \<le> k"
proof (induction k arbitrary: n)
  case 0
  then show ?case by simp
next
  case (Suc k)
  show ?case
  proof (cases "n = 0")
    case False
    moreover have "n div 2 < 2 ^ k" using Suc.prems by simp
    ultimately show ?thesis using Suc.IH [of "n div 2"] by (simp add: bit_len_pos)
  qed simp
qed

lemma bit_len_pow: "bit_len (2 ^ k) = Suc k"
  using bit_len_shift [of 1 0 k] by (simp add: bit_len_pos)

lemma bit_len_mask: "bit_len (2 ^ k - 1) = k"
proof (induction k)
  case (Suc k)
  have "(2 ^ Suc k - 1) div 2 = (2 ^ k - 1 :: nat)"
    by (simp add: div_nat_eqI)
  moreover have "(1 :: nat) < 2 ^ Suc k" by (rule one_less_power) simp_all
  then have "0 < (2 ^ Suc k - 1 :: nat)" by (rule zero_less_diff [THEN iffD2])
  ultimately show ?case using Suc by (simp only: bit_len_pos)
qed simp

subsection \<open>Words read as numbers\<close>

lemma unat_drop: "unat (drop_bit n x) = unat x div 2 ^ n" for x :: "'a::len word"
  unfolding unat_drop_bit_eq by (rule drop_bit_eq_div)

lemma mask_word: "push_bit n 1 - 1 = (mask n :: 'a::len word)"
  by (simp add: mask_eq_decr_exp push_bit_eq_mult)

lemma unat_drop_mask: "unat (drop_bit s v AND (push_bit n 1 - 1)) = (unat v div 2 ^ s) mod 2 ^ n"
  for v :: "'a::len word"
  unfolding mask_word take_bit_eq_mask [symmetric]
  unfolding unsigned_take_bit_eq unat_drop by (rule take_bit_eq_mod)

lemma unat_bextr: "unat (bextr v s n) = (unat v div 2 ^ s) mod 2 ^ n"
  unfolding bextr_def by (rule unat_drop_mask)

lemma unat_bextr32: "unat (bextr32 v s n) = (unat v div 2 ^ s) mod 2 ^ n"
  unfolding bextr32_def by (rule unat_drop_mask)

lemma unat_push: "unat (push_bit n x) = (unat x * 2 ^ n) mod 2 ^ LENGTH('a)" for x :: "'a::len word"
  unfolding unsigned_push_bit_eq by (simp only: push_bit_eq_mult take_bit_eq_mod)

lemma unat_or_disjoint:
  fixes a b :: "'a::len word"
  assumes "unat a mod 2 ^ n = 0" and "unat b < 2 ^ n"
  shows "unat (a OR b) = unat a + unat b"
proof -
  obtain c where c: "unat a = c * 2 ^ n" using assms(1) by (metis mod_0_imp_dvd dvd_def mult.commute)
  have "unat a AND unat b = 0"
  proof (rule bit_eqI)
    fix m
    show "bit (unat a AND unat b) m = bit (0 :: nat) m"
    proof (cases "m < n")
      case True
      then have "\<not> bit (unat a) m" unfolding c by (simp add: bit_iff_odd div_exp_mod_exp_eq flip: push_bit_eq_mult) (metis bit_iff_odd bit_push_bit_iff_nat linorder_not_less)
      then show ?thesis by (simp add: bit_and_iff)
    next
      case False
      then have "unat b < 2 ^ m" using assms(2) by (meson leI order_less_le_trans power_increasing one_le_numeral)
      then have "\<not> bit (unat b) m" by (simp add: bit_iff_odd)
      then show ?thesis by (simp add: bit_and_iff)
    qed
  qed
  then show ?thesis by (simp only: unsigned_or_eq disjunctive_add_eq_or)
qed

lemma and_one_iff_odd: "k AND 1 = 1 \<longleftrightarrow> odd (unat k)" for k :: u32
proof -
  have "k AND 1 = 1 \<longleftrightarrow> unat (k AND 1) = 1" by (metis unat_1 unsigned_word_eqI)
  also have "unat (k AND 1) = unat k mod 2"
    using unat_drop_mask [of 0 k 1] by (simp add: push_bit_eq_mult)
  finally show ?thesis by (simp add: odd_iff_mod_2_eq_one)
qed

lemma mod_pow_split: "X mod 2 ^ (a + b) = (X div 2 ^ b) mod 2 ^ a * 2 ^ b + X mod 2 ^ b" for X :: nat
  using mod_mult2_eq [of X "2 ^ b" "2 ^ a"] by (simp add: power_add mult.commute)

lemma div_div_pow: "X div 2 ^ a div 2 ^ b = X div 2 ^ (a + b)" for X :: nat
  by (simp add: div_mult2_eq power_add)

subsection \<open>Decoding an encoded hash\<close>

lemma get_pos_val_nat:
  assumes "1 \<le> p" and "p \<le> 25"
  shows "get_pos_val x p
    = (unat x div 2 ^ (64 - p), 65 - p - bit_len (unat x mod 2 ^ (64 - p)))"
proof -
  define a where "a = unat x mod 2 ^ (64 - p)"
  have X: "unat x < 2 ^ 64" using unsigned_less [of x] by simp
  have pw: "(2 :: nat) ^ 64 = 2 ^ (64 - p) * 2 ^ p" using assms by (simp flip: power_add)
  have i: "unat (bextr x (64 - p) p) = unat x div 2 ^ (64 - p)"
    using X pw by (simp add: unat_bextr less_mult_imp_div_less mult.commute)
  have sh: "unat (push_bit p x) = a * 2 ^ p"
    unfolding unat_push a_def mult_mod_left pw [symmetric] by simp
  have "(2 :: nat) ^ (p - 1) < 2 ^ 64" using assms by (intro power_strict_increasing) simp_all
  then have one: "unat (push_bit (p - 1) 1 :: u64) = 2 ^ (p - 1)"
    unfolding unat_push by simp
  have lt: "(2 :: nat) ^ (p - 1) < 2 ^ p" using assms by (simp add: power_strict_increasing)
  have w: "unat (push_bit p x OR push_bit (p - 1) 1) = a * 2 ^ p + 2 ^ (p - 1)"
    using unat_or_disjoint [of "push_bit p x" p "push_bit (p - 1) 1"] sh one lt by simp
  have "bit_len (a * 2 ^ p + 2 ^ (p - 1)) = bit_len a + p"
  proof (cases "a = 0")
    case True
    then show ?thesis using assms by (simp add: bit_len_pow)
  next
    case False
    then show ?thesis using bit_len_shift [of a "2 ^ (p - 1)" p] lt by simp
  qed
  moreover have "bit_len a \<le> 64 - p"
    by (rule bit_len_le) (simp add: a_def)
  ultimately show ?thesis
    using assms by (simp add: get_pos_val_def Let_def i w [simplified] leading_zeros64_def a_def)
qed

text \<open>The two forms of an encoded hash, read as numbers.\<close>

lemma encode_hash_small:
  assumes "p \<le> 25" and "(unat x div 2 ^ 39) mod 2 ^ (25 - p) = 0"
  shows "unat (encode_hash x p)
    = (unat x div 2 ^ 39) * 2 ^ 7 + 2 * (40 - bit_len (unat x mod 2 ^ 39)) + 1"
proof -
  define I where "I = unat x div 2 ^ 39"
  define L where "L = unat x mod 2 ^ 39"
  define z where "z = 40 - bit_len L"
  have X: "unat x < 2 ^ 64" using unsigned_less [of x] by simp
  then have I: "I < 2 ^ 25" by (simp add: I_def less_mult_imp_div_less)
  have bl: "bit_len L \<le> 39" by (rule bit_len_le) (simp add: L_def)
  have idx: "unat (ucast (bextr x 39 25) :: u32) = I"
    using I unfolding unsigned_ucast_eq unat_bextr
    by (simp add: I_def take_bit_eq_mod)
  have low: "unat (bextr x 0 39) = L" by (simp add: unat_bextr L_def)
  have "L < 2 ^ 39" by (simp add: L_def)
  then have sh: "unat (push_bit 25 (bextr x 0 39)) = L * 2 ^ 25" by (simp add: unat_push low)
  have mk: "unat (push_bit 25 1 - 1 :: u64) = 2 ^ 25 - 1" by simp
  have "unat (push_bit 25 (bextr x 0 39) OR (push_bit 25 1 - 1)) = L * 2 ^ 25 + (2 ^ 25 - 1)"
    using unat_or_disjoint [of "push_bit 25 (bextr x 0 39)" 25 "push_bit 25 1 - 1"] sh mk by simp
  moreover have "bit_len (L * 2 ^ 25 + (2 ^ 25 - 1)) = bit_len L + 25"
  proof (cases "L = 0")
    case True
    then show ?thesis using bit_len_mask [of 25] by simp
  next
    case False
    then show ?thesis using bit_len_shift [of L "2 ^ 25 - 1" 25] by simp
  qed
  ultimately have lz:
    "leading_zeros64 (push_bit 25 (bextr x 0 39) OR (push_bit 25 1 - 1)) + 1 = z"
    using bl by (simp only: leading_zeros64_def z_def)
  have enc: "encode_hash x p = push_bit 7 (ucast (bextr x 39 25)) OR push_bit 1 (of_nat z) OR 1"
  proof -
    have "bextr x 39 (25 - p) = 0"
      using assms(2) by (simp add: unat_bextr unat_eq_0 [symmetric])
    then show ?thesis using lz by (simp only: encode_hash_def pp_def Let_def) simp
  qed
  have h: "unat (push_bit 7 (ucast (bextr x 39 25)) :: u32) = I * 2 ^ 7"
    unfolding unat_push idx using I by simp
  have z: "z \<le> 40" by (simp add: z_def)
  then have m: "unat (push_bit 1 (of_nat z) :: u32) = 2 * z"
    unfolding unat_push by (simp add: unat_of_nat)
  have "unat (push_bit 7 (ucast (bextr x 39 25)) OR push_bit 1 (of_nat z) :: u32) = I * 2 ^ 7 + 2 * z"
    using unat_or_disjoint [of "push_bit 7 (ucast (bextr x 39 25)) :: u32" 7 "push_bit 1 (of_nat z)"]
      h m z by simp
  moreover from this have "unat ((push_bit 7 (ucast (bextr x 39 25)) OR push_bit 1 (of_nat z)) OR 1 :: u32)
      = (I * 2 ^ 7 + 2 * z) + 1"
    using unat_or_disjoint [of "push_bit 7 (ucast (bextr x 39 25)) OR push_bit 1 (of_nat z) :: u32" 1 1]
    by (simp add: mod_add_eq [symmetric])
  ultimately show ?thesis unfolding enc I_def z_def L_def by (simp only: or.assoc)
qed

lemma encode_hash_large:
  assumes "p \<le> 25" and "(unat x div 2 ^ 39) mod 2 ^ (25 - p) \<noteq> 0"
  shows "unat (encode_hash x p) = (unat x div 2 ^ 39) * 2"
proof -
  have "unat x < 2 ^ 64" using unsigned_less [of x] by simp
  then have I: "unat x div 2 ^ 39 < 2 ^ 25" by (simp add: less_mult_imp_div_less)
  have idx: "unat (ucast (bextr x 39 25) :: u32) = unat x div 2 ^ 39"
    using I unfolding unsigned_ucast_eq unat_bextr
    by (simp add: take_bit_eq_mod)
  have "bextr x 39 (25 - p) \<noteq> 0"
    using assms(2) by (simp add: unat_bextr unat_eq_0 [symmetric])
  then have "encode_hash x p = push_bit 1 (ucast (bextr x 39 25))"
    by (simp only: encode_hash_def pp_def Let_def) simp
  then have "unat (encode_hash x p) = (unat x div 2 ^ 39 * 2 ^ 1) mod 2 ^ LENGTH(32)"
    by (simp only: unat_push idx)
  then show ?thesis using I by simp
qed

text \<open>
  The index and the rank a decoded key yields, for both forms.  Together they give the main fact:
  a sketch that keeps encoded hashes loses nothing the registers would have held.
\<close>

lemma decode_small:
  assumes "1 \<le> p" "p \<le> 25" and "unat k = I * 2 ^ 7 + 2 * z + 1" and "I < 2 ^ 25" and "z < 64"
  shows "decode_hash k p = (I div 2 ^ (25 - p), z + 25 - p)"
proof -
  have odd: "k AND 1 = 1" unfolding and_one_iff_odd assms(3) by simp
  have "32 - p = 7 + (25 - p)" using assms(2) by simp
  then have pw: "(2 :: nat) ^ (32 - p) = 2 ^ 7 * 2 ^ (25 - p)" by (simp only: power_add)
  have "unat k div 2 ^ 7 = I" unfolding assms(3) using assms(5) by (simp add: div_nat_eqI)
  then have d: "unat k div 2 ^ (32 - p) = I div 2 ^ (25 - p)" unfolding pw div_mult2_eq by simp
  have "25 = (25 - p) + p" using assms(2) by simp
  then have "(2 :: nat) ^ 25 = 2 ^ (25 - p) * 2 ^ p" by (metis power_add)
  then have "I div 2 ^ (25 - p) < 2 ^ p" using assms(4) by (simp add: less_mult_imp_div_less mult.commute)
  then have ix: "unat (get_index k p) = I div 2 ^ (25 - p)"
    by (simp add: get_index_def odd unat_bextr32 d)
  have "unat k div 2 = I * 64 + z" unfolding assms(3) by simp
  then have "unat (bextr32 k 1 6) = z" using assms(5) by (simp add: unat_bextr32)
  then show ?thesis by (simp add: decode_hash_def ix odd pp_def)
qed

lemma decode_large:
  assumes "1 \<le> p" "p \<le> 25" and "unat k = I * 2" and "I < 2 ^ 25" and "I mod 2 ^ (25 - p) \<noteq> 0"
  shows "decode_hash k p = (I div 2 ^ (25 - p), 26 - p - bit_len (I mod 2 ^ (25 - p)))"
proof -
  define mid where "mid = I mod 2 ^ (25 - p)"
  have even: "k AND 1 \<noteq> 1" unfolding and_one_iff_odd assms(3) by simp
  have "26 - p = Suc (25 - p)" using assms(2) by simp
  then have pw: "(2 :: nat) ^ (26 - p) = 2 * 2 ^ (25 - p)" by (simp only: power_Suc)
  have d: "unat k div 2 ^ (26 - p) = I div 2 ^ (25 - p)"
    unfolding assms(3) pw div_mult2_eq by simp
  have "25 = (25 - p) + p" using assms(2) by simp
  then have "(2 :: nat) ^ 25 = 2 ^ (25 - p) * 2 ^ p" by (metis power_add)
  then have "I div 2 ^ (25 - p) < 2 ^ p" using assms(4) by (simp add: less_mult_imp_div_less mult.commute)
  moreover have "25 - p + 1 = 26 - p" using assms(2) by simp
  ultimately have ix: "unat (get_index k p) = I div 2 ^ (25 - p)"
    using d by (simp only: get_index_def even unat_bextr32 pp_def if_False) simp
  have "LENGTH(32) = (25 - p) + (7 + p)" using assms(2) by simp
  then have p32: "(2 :: nat) ^ LENGTH(32) = 2 ^ (25 - p) * 2 ^ (7 + p)" by (metis power_add)
  have "I * 2 * 2 ^ (6 + p) = I * 2 ^ (7 + p)" by (simp add: power_add)
  then have sh: "unat (push_bit (6 + p) k) = mid * 2 ^ (7 + p)"
    unfolding unat_push assms(3) p32 mid_def mult_mod_left by (rule arg_cong)
  have up: "unat (ucast (push_bit (6 + p) k) :: u64) = unat (push_bit (6 + p) k)"
    unfolding unsigned_ucast_eq
    by (rule take_bit_nat_eq_self) (use unsigned_less [of "push_bit (6 + p) k", where 'a = nat] in simp)
  have "bit_len (mid * 2 ^ (7 + p)) = bit_len mid + (7 + p)"
    using bit_len_shift [of mid 0 "7 + p"] assms(5) by (simp add: mid_def)
  then have "leading_zeros64 (ucast (push_bit (6 + p) k)) - 31 = 26 - p - bit_len mid"
    unfolding leading_zeros64_def up sh by simp
  moreover have "32 - pp + p - 1 = 6 + p" by (simp add: pp_def)
  ultimately show ?thesis by (simp only: decode_hash_def ix even if_False mid_def)
qed

theorem decode_encode_hash:
  assumes "4 \<le> p" and "p \<le> 18"
  shows "decode_hash (encode_hash x p) p = get_pos_val x p"
proof -
  define I where "I = unat x div 2 ^ 39"
  define L where "L = unat x mod 2 ^ 39"
  define mid where "mid = I mod 2 ^ (25 - p)"
  have p: "1 \<le> p" "p \<le> 25" using assms by auto
  have "unat x < 2 ^ 64" using unsigned_less [of x] by simp
  then have I: "I < 2 ^ 25" by (simp add: I_def less_mult_imp_div_less)
  have s: "64 - p = (25 - p) + 39" using assms by simp
  have div: "unat x div 2 ^ (64 - p) = I div 2 ^ (25 - p)"
    unfolding I_def div_div_pow s by (simp only: add.commute)
  have md: "unat x mod 2 ^ (64 - p) = mid * 2 ^ 39 + L"
    unfolding s mid_def I_def L_def by (rule mod_pow_split)
  have bl: "bit_len L \<le> 39" by (rule bit_len_le) (simp add: L_def)
  show ?thesis
  proof (cases "mid = 0")
    case True
    have k: "unat (encode_hash x p) = I * 2 ^ 7 + 2 * (40 - bit_len L) + 1"
      using encode_hash_small [OF p(2)] True by (simp add: I_def L_def mid_def)
    show ?thesis unfolding get_pos_val_nat [OF p] div md
      using decode_small [OF p k I] True bl assms by simp
  next
    case False
    have k: "unat (encode_hash x p) = I * 2"
      using encode_hash_large [OF p(2)] False by (simp add: I_def mid_def)
    have "bit_len (mid * 2 ^ 39 + L) = bit_len mid + 39"
      using bit_len_shift [of mid L 39] False by (simp add: L_def)
    then show ?thesis unfolding get_pos_val_nat [OF p] div md
      using decode_large [OF p k I] False by (simp add: mid_def)
  qed
qed

subsection \<open>The compressed list of keys\<close>

text \<open>
  \<^verbatim>\<open>variableLengthList\<close> holds 32-bit values as groups of seven bits, least significant first; the top
  bit of a byte says that more follow.  \<^verbatim>\<open>decode\<close> reads one value at an index; here it takes the
  bytes from that index on and returns the rest, \<open>None\<close> where the Go code would index past the end.
\<close>

function vll_append :: "u8 list \<Rightarrow> u32 \<Rightarrow> u8 list" where
  "vll_append v x =
     (if x AND 0xffffff80 \<noteq> 0
      then vll_append (v @ [ucast ((x AND 0x7f) OR 0x80)]) (drop_bit 7 x)
      else v @ [ucast (x AND 0x7f)])"
  by pat_completeness auto
termination
proof (relation "measure (\<lambda>(v, x). unat x)")
  fix v :: "u8 list" and x :: u32
  assume "x AND 0xffffff80 \<noteq> 0"
  then have "x \<noteq> 0" by auto
  then have "0 < unat x" by (simp add: unat_gt_0)
  then show "((v @ [ucast ((x AND 0x7f) OR 0x80)], drop_bit 7 x), (v, x)) \<in> measure (\<lambda>(v, x). unat x)"
    by (simp add: unat_drop)
qed simp

declare vll_append.simps [simp del]

fun vll_decode :: "u8 list \<Rightarrow> nat \<Rightarrow> u32 \<Rightarrow> (u32 \<times> u8 list) option" where
  "vll_decode [] sh x = None"
| "vll_decode (b # bs) sh x =
     (if b AND 0x80 \<noteq> 0
      then vll_decode bs (sh + 7) (x OR push_bit sh (ucast (b AND 0x7f)))
      else Some (x OR push_bit sh (ucast b), bs))"

record compressed_list =
  cl_count :: u32
  cl_last :: u32
  cl_b :: "u8 list"

definition new_compressed_list :: compressed_list where
  "new_compressed_list = \<lparr>cl_count = 0, cl_last = 0, cl_b = []\<rparr>"

definition cl_append :: "compressed_list \<Rightarrow> u32 \<Rightarrow> compressed_list" where
  "cl_append v x =
     v\<lparr>cl_count := cl_count v + 1, cl_b := vll_append (cl_b v) (x - cl_last v), cl_last := x\<rparr>"

lemma vll_decode_shorter: "vll_decode bs sh x = Some (y, rest) \<Longrightarrow> length rest < length bs"
  by (induction bs sh x rule: vll_decode.induct) (auto split: if_splits)

function cl_iter :: "u32 \<Rightarrow> u8 list \<Rightarrow> u32 list option" where
  "cl_iter prev [] = Some []"
| "cl_iter prev (b # bs) =
     (case vll_decode (b # bs) 0 0 of
        None \<Rightarrow> None
      | Some (n, rest) \<Rightarrow> map_option (Cons (n + prev)) (cl_iter (n + prev) rest))"
  by pat_completeness auto
termination
  by (relation "measure (\<lambda>(l, bs). length bs)") (auto dest: vll_decode_shorter simp del: vll_decode.simps)

declare cl_iter.simps [simp del]

definition cl_of :: "u32 list \<Rightarrow> compressed_list" where
  "cl_of xs = foldl cl_append new_compressed_list xs"

lemma drop7_less: "x AND 0xffffff80 \<noteq> 0 \<Longrightarrow> unat (drop_bit 7 x) < unat x" for x :: u32
  by (metis (no_types, lifting) and.left_neutral and_zero_eq div_less_dividend linorder_neqE_nat
      numeral_less_iff one_less_numeral_iff one_less_power semiring_norm(76) unat_0_iff unat_drop
      less_numeral_extra(3) not_less_zero zero_and_eq zero_less_numeral)

lemma vll_append_app: "vll_append v x = v @ vll_append [] x"
proof (induction x arbitrary: v rule: measure_induct_rule [of unat])
  case (less x)
  show ?case
  proof (cases "x AND 0xffffff80 \<noteq> 0")
    case True
    note IH = less.IH [OF drop7_less [OF True]]
    show ?thesis
      using IH [of "v @ [ucast ((x AND 0x7f) OR 0x80)]"] IH [of "[ucast ((x AND 0x7f) OR 0x80)]"] True
      by (simp add: vll_append.simps [of v x] vll_append.simps [of "[]" x])
  next
    case False
    then show ?thesis by (simp add: vll_append.simps)
  qed
qed

lemma seven_bits: "(0x7f :: u32) = mask 7" "(0x7f :: u8) = mask 7" "(0xffffff80 :: u32) = NOT (mask 7)"
  by (simp_all add: mask_eq_decr_exp)

lemma bit_0x80: "bit (0x80 :: u8) n \<longleftrightarrow> n = 7" "bit (0x80 :: u32) n \<longleftrightarrow> n = 7"
  "bit (0x80 :: int) n \<longleftrightarrow> n = 7"
  using bit_exp_iff [of 7 n, where 'a = "8 word"] bit_exp_iff [of 7 n, where 'a = "32 word"]
    bit_exp_iff [of 7 n, where 'a = int] by auto

lemma vll_byte_more:
  "ucast ((x AND 0x7f) OR 0x80) AND (0x80 :: u8) \<noteq> 0"
  "ucast (ucast ((x AND 0x7f) OR 0x80) AND (0x7f :: u8)) = x AND 0x7f" for x :: u32
proof -
  have "bit (ucast ((x AND 0x7f) OR 0x80) AND (0x80 :: u8)) 7" by (simp add: bit_simps bit_0x80)
  then show "ucast ((x AND 0x7f) OR 0x80) AND (0x80 :: u8) \<noteq> 0" by (metis bit_0_eq bot_apply bot_bool_def)
  show "ucast (ucast ((x AND 0x7f) OR 0x80) AND (0x7f :: u8)) = x AND 0x7f"
    unfolding seven_bits by (rule bit_word_eqI) (auto simp: bit_simps bit_0x80)
qed

lemma vll_byte_last:
  fixes x :: u32
  assumes "x AND 0xffffff80 = 0"
  shows "ucast (x AND 0x7f) AND (0x80 :: u8) = 0" and "ucast (ucast (x AND 0x7f) :: u8) = x"
proof -
  show "ucast (x AND 0x7f) AND (0x80 :: u8) = 0"
    unfolding seven_bits by (rule bit_word_eqI) (auto simp: bit_simps bit_0x80)
  have hi: "\<not> bit x n" if "7 \<le> n" for n
  proof (cases "n < 32")
    case True
    have "\<not> bit (x AND 0xffffff80) n" using assms by simp
    then show ?thesis unfolding seven_bits using that True by (simp add: bit_simps)
  qed (auto dest: bit_imp_le_length)
  have lt7: "n < 7" if "bit x n" for n
    using hi [of n] that by (cases "7 \<le> n") auto
  show "ucast (ucast (x AND 0x7f) :: u8) = x"
    unfolding seven_bits by (rule bit_word_eqI) (auto simp: bit_simps intro: lt7 less_le_trans [OF lt7])
qed

lemma vll_join: "(acc OR push_bit sh (x AND 0x7f)) OR push_bit (sh + 7) (drop_bit 7 x) = acc OR push_bit sh x"
  for x :: u32
proof (rule bit_word_eqI)
  fix n assume "n < LENGTH(32)"
  show "bit ((acc OR push_bit sh (x AND 0x7f)) OR push_bit (sh + 7) (drop_bit 7 x)) n
    = bit (acc OR push_bit sh x) n"
  proof (cases "sh + 7 \<le> n")
    case True
    then have "7 + (n - (sh + 7)) = n - sh" by simp
    with True show ?thesis unfolding seven_bits by (auto simp: bit_simps)
  qed (unfold seven_bits, auto simp: bit_simps)
qed

lemma vll_decode_append: "vll_decode (vll_append [] x @ rest) sh acc = Some (acc OR push_bit sh x, rest)"
proof (induction x arbitrary: sh acc rule: measure_induct_rule [of unat])
  case (less x)
  show ?case
  proof (cases "x AND 0xffffff80 \<noteq> 0")
    case True
    have "vll_append [] x = ucast ((x AND 0x7f) OR 0x80) # vll_append [] (drop_bit 7 x)"
      using True vll_append_app [of "[ucast ((x AND 0x7f) OR 0x80)]"] by (simp add: vll_append.simps [of "[]" x])
    then show ?thesis
      using less.IH [OF drop7_less [OF True]] by (simp add: vll_byte_more vll_join del: push_bit_and)
  next
    case False
    then have "vll_append [] x = [ucast (x AND 0x7f)]" by (simp add: vll_append.simps [of "[]" x])
    then show ?thesis using vll_byte_last [of x] False by simp
  qed
qed

lemma cl_iter_append:
  "cl_iter prev bs = Some xs \<Longrightarrow>
   cl_iter prev (vll_append bs (x - (if xs = [] then prev else last xs))) = Some (xs @ [x])"
proof (induction prev bs arbitrary: xs rule: cl_iter.induct)
  case (1 prev)
  obtain b bs where v: "vll_append [] (x - prev) = b # bs"
    using vll_decode_append [of "x - prev" "[]" 0 0] by (cases "vll_append [] (x - prev)") auto
  have "vll_decode (b # bs) 0 0 = Some (x - prev, [])"
    using vll_decode_append [of "x - prev" "[]" 0 0] v by simp
  with 1 v show ?case by (simp add: cl_iter.simps del: vll_decode.simps)
next
  case (2 prev b bs)
  from "2.prems" obtain n rest ys where d: "vll_decode (b # bs) 0 0 = Some (n, rest)"
    and r: "cl_iter (n + prev) rest = Some ys" and xs: "xs = (n + prev) # ys"
    by (auto simp: cl_iter.simps(2) split: option.splits simp del: vll_decode.simps)
  have app: "vll_decode (bs' @ cs) sh acc = Some (m, rest' @ cs)"
    if "vll_decode bs' sh acc = Some (m, rest')" for bs' cs sh acc m rest'
    using that by (induction bs' sh acc rule: vll_decode.induct) (auto split: if_splits)
  let ?d = "x - (if ys = [] then n + prev else last ys)"
  have "cl_iter (n + prev) (vll_append rest ?d) = Some (ys @ [x])"
    using "2.IH" [OF d refl r] .
  moreover have "vll_decode (b # bs @ vll_append [] ?d) 0 0 = Some (n, vll_append rest ?d)"
    using app [OF d, of "vll_append [] ?d"] vll_append_app [of rest ?d] by simp
  moreover have "vll_append (b # bs) ?d = b # bs @ vll_append [] ?d"
    using vll_append_app [of "b # bs" ?d] by simp
  ultimately show ?case using xs by (simp add: cl_iter.simps(2) del: vll_decode.simps)
qed

lemma cl_of_snoc: "cl_of (xs @ [x]) = cl_append (cl_of xs) x"
  by (simp add: cl_of_def)

lemma cl_last_of: "cl_last (cl_of xs) = (if xs = [] then 0 else last xs)"
  by (induction xs rule: rev_induct) (auto simp: cl_of_def new_compressed_list_def cl_append_def)

lemma cl_count_of: "cl_count (cl_of xs) = of_nat (length xs)"
  by (induction xs rule: rev_induct) (auto simp: cl_of_def new_compressed_list_def cl_append_def)

text \<open>The compressed list yields back, in order, exactly the keys that were appended to it, whatever
  they are: the variable-length deltas wrap in 32 bits and unwrap the same way.\<close>

theorem compressed_list_roundtrip: "cl_iter 0 (cl_b (cl_of xs)) = Some xs"
proof (induction xs rule: rev_induct)
  case Nil
  show ?case by (simp add: cl_of_def new_compressed_list_def cl_iter.simps)
next
  case (snoc x xs)
  have "cl_b (cl_of (xs @ [x])) = vll_append (cl_b (cl_of xs)) (x - (if xs = [] then 0 else last xs))"
    by (simp add: cl_of_snoc cl_append_def cl_last_of)
  then show ?case using cl_iter_append [OF snoc.IH, of x] by simp
qed

text \<open>C18: Encoding a hash for the sparse representation loses nothing: decoding it gives exactly the register index
  and the rank the dense representation computes from the hash itself, and both are in range.\<close>

theorem sparse_encoding_faithful:
  assumes "4 \<le> p" and "p \<le> 18"
  shows "decode_hash (encode_hash x p) p = get_pos_val x p
    \<and> fst (get_pos_val x p) < 2 ^ p \<and> 1 \<le> snd (get_pos_val x p) \<and> snd (get_pos_val x p) \<le> 65 - p"
proof -
  have p: "1 \<le> p" "p \<le> 25" using assms by auto
  have "unat x < 2 ^ 64" using unsigned_less [of x] by simp
  moreover have "(2 :: nat) ^ 64 = 2 ^ (64 - p) * 2 ^ p" using assms by (simp flip: power_add)
  ultimately have "unat x div 2 ^ (64 - p) < 2 ^ p" by (simp add: less_mult_imp_div_less mult.commute)
  moreover have "bit_len (unat x mod 2 ^ (64 - p)) \<le> 64 - p" by (rule bit_len_le) simp
  ultimately show ?thesis
    unfolding decode_encode_hash [OF assms] get_pos_val_nat [OF p] using assms by (simp; linarith)
qed

theorem sparse_encoding_faithful_witness:
  "decode_hash (encode_hash 0xdeadbeef 14) 14 = get_pos_val 0xdeadbeef 14"
  using sparse_encoding_faithful [of 14 "0xdeadbeef"] by simp

end
