(* ===== verification/Hyperloglog.thy ===== *)
theory Hyperloglog
  imports Hll_Encoding
begin

section \<open>HyperLogLog sketches\<close>

text \<open>
  The sketch type of the vendored package \<^verbatim>\<open>axiomhq/hyperloglog\<close> (\<^verbatim>\<open>hyperloglog.go\<close>), as far as the
  program uses it: creation, insertion of a 64-bit hash, merging, reset, and the two representations
  with the promotion from sparse to dense.  \<open>sk_tmp\<close> is \<^verbatim>\<open>tmpSet\<close> (a set, listed in insertion order; the
  code never depends on its iteration order because it sorts the keys or takes maxima), \<open>sk_list\<close> is the
  content of \<^verbatim>\<open>sparseList\<close> (\<open>None\<close> for nil), read through the iterator whose round trip is
  \<open>compressed_list_roundtrip\<close>; \<open>cl_len\<close> is the length of its byte buffer.  A Go sketch is a pointer to
  mutable state: an operation that mutates returns the new sketch.

  What a sketch knows is the set \<open>sk_hits\<close> of pairs (register, rank) its registers dominate.
  Every operation is a set operation on it, whatever the representation: this is the interface
  \<open>sketch_store\<close> that the estimator components rely on.

  The floating-point formulas behind \<^verbatim>\<open>Estimate\<close> use \<^verbatim>\<open>math.Log\<close> and fitted polynomials; they are
  the parameters of type \<open>hll_float\<close>.
\<close>

record sketch =
  sk_p :: nat
  sk_created_sparse :: bool
  sk_tmp :: "u32 list"
  sk_list :: "u32 list option"
  sk_regs :: "nat list"

datatype hll_error = BadPrecision | PrecisionMismatch

record hll_float =
  linear_count :: "u32 \<Rightarrow> u64"
  beta_count :: "nat \<Rightarrow> nat list \<Rightarrow> u64"

definition cl_len :: "u32 list \<Rightarrow> nat" where
  "cl_len xs = length (cl_b (cl_of xs))"

definition sk_m :: "sketch \<Rightarrow> u32" where
  "sk_m sk = push_bit (sk_p sk) 1"

definition new_sketch :: "nat \<Rightarrow> bool \<Rightarrow> hll_error + sketch" where
  "new_sketch precision sparse =
     (if precision < 4 \<or> precision > 18 then Inl BadPrecision
      else if sparse
      then Inr \<lparr>sk_p = precision, sk_created_sparse = True, sk_tmp = [], sk_list = Some [], sk_regs = []\<rparr>
      else Inr \<lparr>sk_p = precision, sk_created_sparse = False, sk_tmp = [], sk_list = None,
                sk_regs = replicate (2 ^ precision) 0\<rparr>)"

definition sk_sparse :: "sketch \<Rightarrow> bool" where
  "sk_sparse sk = (sk_list sk \<noteq> None)"

definition set_add :: "u32 list \<Rightarrow> u32 \<Rightarrow> u32 list" where
  "set_add s k = (if k \<in> set s then s else s @ [k])"

fun merge_keys :: "u32 list \<Rightarrow> u32 list \<Rightarrow> u32 list" where
  "merge_keys [] ks = ks"
| "merge_keys xs [] = xs"
| "merge_keys (x # xs) (k # ks) =
     (if x = k then x # merge_keys xs ks
      else if x > k then k # merge_keys (x # xs) ks
      else x # merge_keys xs (k # ks))"

text \<open>\<^verbatim>\<open>mergeSparse\<close>: the new \<^verbatim>\<open>sparseList\<close>; the caller also empties \<^verbatim>\<open>tmpSet\<close>.\<close>

definition merge_sparse :: "u32 list \<Rightarrow> u32 list \<Rightarrow> u32 list" where
  "merge_sparse tmp l = (if tmp = [] then l else merge_keys l (sort tmp))"

definition reg_insert :: "nat \<times> nat \<Rightarrow> nat list \<Rightarrow> nat list" where
  "reg_insert ir regs = regs[fst ir := max (snd ir) (regs ! fst ir)]"

definition to_normal :: "sketch \<Rightarrow> u32 list \<Rightarrow> sketch" where
  "to_normal sk l =
     (let l' = merge_sparse (sk_tmp sk) l;
          regs = fold (\<lambda>k. reg_insert (decode_hash k (sk_p sk))) l' (replicate (unat (sk_m sk)) 0)
      in sk\<lparr>sk_regs := regs, sk_tmp := [], sk_list := None\<rparr>)"

definition maybe_to_normal :: "sketch \<Rightarrow> u32 list \<Rightarrow> sketch" where
  "maybe_to_normal sk l =
     (if of_nat (length (sk_tmp sk)) * 100 > sk_m sk
      then (let l' = merge_sparse (sk_tmp sk) l;
                sk' = sk\<lparr>sk_tmp := [], sk_list := Some l'\<rparr>
            in if of_nat (cl_len l') > sk_m sk then to_normal sk' l' else sk')
      else sk\<lparr>sk_list := Some l\<rparr>)"

definition sk_insert_hash :: "sketch \<Rightarrow> u64 \<Rightarrow> sketch" where
  "sk_insert_hash sk x =
     (case sk_list sk of
        Some l \<Rightarrow>
          (let k = encode_hash x (sk_p sk) in
           if k \<in> set (sk_tmp sk) then sk
           else maybe_to_normal (sk\<lparr>sk_tmp := set_add (sk_tmp sk) k\<rparr>) l)
      | None \<Rightarrow> sk\<lparr>sk_regs := reg_insert (get_pos_val x (sk_p sk)) (sk_regs sk)\<rparr>)"

definition merge_sparse_sketch :: "sketch \<Rightarrow> u32 list \<Rightarrow> sketch \<Rightarrow> u32 list \<Rightarrow> sketch" where
  "merge_sparse_sketch sk l other lo =
     (let tmp = foldl set_add (foldl set_add (sk_tmp sk) (sk_tmp other)) lo
      in maybe_to_normal (sk\<lparr>sk_tmp := tmp\<rparr>) l)"

definition merge_regs :: "nat list \<Rightarrow> nat list \<Rightarrow> nat list" where
  "merge_regs os regs =
     fold (\<lambda>(i, v) rs. if v > rs ! i then rs[i := v] else rs) (List.enumerate 0 os) regs"

definition merge_dense_sketch :: "sketch \<Rightarrow> sketch \<Rightarrow> sketch" where
  "merge_dense_sketch sk other =
     (let sk1 = (case sk_list sk of Some l \<Rightarrow> to_normal sk l | None \<Rightarrow> sk) in
      case sk_list other of
        Some lo \<Rightarrow>
          sk1\<lparr>sk_regs := fold (\<lambda>k. reg_insert (decode_hash k (sk_p other))) (sk_tmp other @ lo) (sk_regs sk1)\<rparr>
      | None \<Rightarrow> sk1\<lparr>sk_regs := merge_regs (sk_regs other) (sk_regs sk1)\<rparr>)"

definition sk_merge :: "sketch \<Rightarrow> sketch option \<Rightarrow> hll_error + sketch" where
  "sk_merge sk other =
     (case other of
        None \<Rightarrow> Inr sk
      | Some ot \<Rightarrow>
          if sk_p sk \<noteq> sk_p ot then Inl PrecisionMismatch
          else (case (sk_list sk, sk_list ot) of
                  (Some l, Some lo) \<Rightarrow> Inr (merge_sparse_sketch sk l ot lo)
                | _ \<Rightarrow> Inr (merge_dense_sketch sk ot)))"

definition sk_reset :: "sketch \<Rightarrow> sketch" where
  "sk_reset sk =
     (if sk_sparse sk then sk\<lparr>sk_tmp := [], sk_list := Some []\<rparr>
      else if sk_created_sparse sk then sk\<lparr>sk_tmp := [], sk_list := Some [], sk_regs := []\<rparr>
      else sk\<lparr>sk_regs := replicate (length (sk_regs sk)) 0\<rparr>)"

text \<open>\<^verbatim>\<open>Estimate\<close> also folds \<^verbatim>\<open>tmpSet\<close> into \<^verbatim>\<open>sparseList\<close>, so it returns the sketch too.\<close>

definition sk_estimate :: "hll_float \<Rightarrow> sketch \<Rightarrow> u64 \<times> sketch" where
  "sk_estimate fl sk =
     (case sk_list sk of
        Some l \<Rightarrow>
          (let l' = merge_sparse (sk_tmp sk) l
           in (linear_count fl (of_nat (length l')), sk\<lparr>sk_tmp := [], sk_list := Some l'\<rparr>))
      | None \<Rightarrow> (beta_count fl (sk_p sk) (sk_regs sk), sk))"

subsection \<open>What a sketch knows\<close>

definition rank_hits :: "nat \<times> nat \<Rightarrow> (nat \<times> nat) set" where
  "rank_hits ir = {fst ir} \<times> {1..snd ir}"

definition fp_hits :: "nat \<Rightarrow> u64 \<Rightarrow> (nat \<times> nat) set" where
  "fp_hits p x = rank_hits (get_pos_val x p)"

definition key_hits :: "nat \<Rightarrow> u32 \<Rightarrow> (nat \<times> nat) set" where
  "key_hits p k = rank_hits (decode_hash k p)"

definition reg_hits :: "nat list \<Rightarrow> (nat \<times> nat) set" where
  "reg_hits regs = (\<Union>i < length regs. rank_hits (i, regs ! i))"

definition sk_hits :: "sketch \<Rightarrow> (nat \<times> nat) set" where
  "sk_hits sk =
     (case sk_list sk of
        Some l \<Rightarrow> \<Union> (key_hits (sk_p sk) ` (set (sk_tmp sk) \<union> set l))
      | None \<Rightarrow> reg_hits (sk_regs sk))"

definition sketch_ok :: "nat \<Rightarrow> sketch \<Rightarrow> bool" where
  "sketch_ok p sk \<longleftrightarrow>
     sk_p sk = p \<and> 4 \<le> p \<and> p \<le> 18 \<and>
     (case sk_list sk of
        Some l \<Rightarrow> sorted l \<and> distinct l \<and> distinct (sk_tmp sk) \<and> sk_regs sk = [] \<and> sk_created_sparse sk
      | None \<Rightarrow> sk_tmp sk = [] \<and> length (sk_regs sk) = 2 ^ p)"

subsection \<open>Lists of keys\<close>

lemma set_merge_keys [simp]: "set (merge_keys xs ks) = set xs \<union> set ks"
  by (induction xs ks rule: merge_keys.induct) auto

lemma merge_keys_sorted:
  "sorted xs \<Longrightarrow> distinct xs \<Longrightarrow> sorted ks \<Longrightarrow> distinct ks
   \<Longrightarrow> sorted (merge_keys xs ks) \<and> distinct (merge_keys xs ks)"
  by (induction xs ks rule: merge_keys.induct) (auto simp: less_le)

lemma set_merge_sparse [simp]: "set (merge_sparse tmp l) = set tmp \<union> set l"
  by (auto simp: merge_sparse_def)

lemma merge_sparse_sorted:
  "sorted l \<Longrightarrow> distinct l \<Longrightarrow> distinct tmp
   \<Longrightarrow> sorted (merge_sparse tmp l) \<and> distinct (merge_sparse tmp l)"
  using merge_keys_sorted [of l "sort tmp"] by (simp add: merge_sparse_def)

lemma set_add_simps [simp]: "set (set_add s k) = insert k (set s)" "distinct (set_add s k) = distinct s"
  by (auto simp: set_add_def)

lemma set_foldl_add [simp]: "set (foldl set_add s ks) = set s \<union> set ks"
  by (induction ks arbitrary: s) auto

lemma distinct_foldl_add [simp]: "distinct (foldl set_add s ks) = distinct s"
  by (induction ks arbitrary: s) auto

subsection \<open>Registers\<close>

lemma rank_hits_iff: "(i, r) \<in> rank_hits (j, q) \<longleftrightarrow> i = j \<and> 1 \<le> r \<and> r \<le> q"
  by (auto simp: rank_hits_def)

lemma reg_hits_iff: "(i, r) \<in> reg_hits regs \<longleftrightarrow> i < length regs \<and> 1 \<le> r \<and> r \<le> regs ! i"
  by (auto simp: reg_hits_def rank_hits_def)

lemma reg_hits_replicate [simp]: "reg_hits (replicate n 0) = {}"
  by (auto simp: reg_hits_def rank_hits_def)

lemma length_reg_insert [simp]: "length (reg_insert ir regs) = length regs"
  by (simp add: reg_insert_def)

lemma reg_hits_insert:
  assumes "fst ir < length regs"
  shows "reg_hits (reg_insert ir regs) = reg_hits regs \<union> rank_hits ir"
proof (rule set_eqI)
  fix x :: "nat \<times> nat"
  obtain i r j q where x: "x = (i, r)" and ir: "ir = (j, q)" by (cases x, cases ir)
  show "x \<in> reg_hits (reg_insert ir regs) \<longleftrightarrow> x \<in> reg_hits regs \<union> rank_hits ir"
    using assms by (cases "i = j") (auto simp: x ir reg_hits_iff rank_hits_iff reg_insert_def)
qed

lemma length_fold_reg [simp]: "length (fold (\<lambda>k. reg_insert (f k)) ks regs) = length regs"
  by (induction ks arbitrary: regs) auto

lemma reg_hits_fold:
  "\<forall>k \<in> set ks. fst (f k) < length regs
   \<Longrightarrow> reg_hits (fold (\<lambda>k. reg_insert (f k)) ks regs) = reg_hits regs \<union> (\<Union>k \<in> set ks. rank_hits (f k))"
  by (induction ks arbitrary: regs) (auto simp: reg_hits_insert)

lemma length_merge_regs_aux:
  "length (fold (\<lambda>(i, v) rs. if v > rs ! i then rs[i := v] else rs) xs regs) = length regs"
  by (induction xs arbitrary: regs) (auto split: prod.splits)

lemma length_merge_regs [simp]: "length (merge_regs os regs) = length regs"
  by (simp add: merge_regs_def length_merge_regs_aux)

lemma merge_regs_nth_aux:
  fixes os regs :: "nat list"
  shows "n + length os \<le> length regs \<Longrightarrow> j < length regs
   \<Longrightarrow> fold (\<lambda>(i, v) rs. if v > rs ! i then rs[i := v] else rs) (List.enumerate n os) regs ! j
     = (if n \<le> j \<and> j < n + length os then max (os ! (j - n)) (regs ! j) else regs ! j)"
proof (induction os arbitrary: n regs)
  case (Cons v os)
  let ?regs = "if v > regs ! n then regs[n := v] else regs"
  have "length ?regs = length regs" by simp
  then have IH: "fold (\<lambda>(i, v) rs. if v > rs ! i then rs[i := v] else rs) (List.enumerate (Suc n) os) ?regs ! j
     = (if Suc n \<le> j \<and> j < Suc n + length os then max (os ! (j - Suc n)) (?regs ! j) else ?regs ! j)"
    using Cons.IH [of "Suc n" ?regs] Cons.prems by simp
  have "?regs ! j = (if j = n then max v (regs ! j) else regs ! j)"
    using Cons.prems by (auto simp: max_def)
  with IH show ?case using Cons.prems by (auto simp: nth_Cons' not_less_eq_eq Suc_diff_Suc max_def)
qed simp

lemma merge_regs_nth:
  "length os = length regs \<Longrightarrow> j < length regs \<Longrightarrow> merge_regs os regs ! j = max (os ! j) (regs ! j)"
  unfolding merge_regs_def by (subst merge_regs_nth_aux) auto

lemma reg_hits_merge: "length os = length regs \<Longrightarrow> reg_hits (merge_regs os regs) = reg_hits os \<union> reg_hits regs"
  by (auto simp: reg_hits_iff merge_regs_nth)

lemma decode_index_less: "p \<le> 25 \<Longrightarrow> fst (decode_hash k p) < 2 ^ p"
  by (simp add: decode_hash_def get_index_def unat_bextr32)

lemma pos_index_less: "4 \<le> p \<Longrightarrow> p \<le> 18 \<Longrightarrow> fst (get_pos_val x p) < 2 ^ p"
  using decode_index_less [of p "encode_hash x p"] decode_encode_hash [of p x] by simp

lemma key_hits_encode: "4 \<le> p \<Longrightarrow> p \<le> 18 \<Longrightarrow> key_hits p (encode_hash x p) = fp_hits p x"
  by (simp add: key_hits_def fp_hits_def decode_encode_hash)

subsection \<open>Operations on a well-formed sketch\<close>

lemma unat_sk_m: "sketch_ok p sk \<Longrightarrow> unat (sk_m sk) = 2 ^ p"
proof -
  assume "sketch_ok p sk"
  then have "sk_p sk = p" "p \<le> 18" by (auto simp: sketch_ok_def)
  moreover have "(2 :: nat) ^ p < 2 ^ 32" using \<open>p \<le> 18\<close> by (intro power_strict_increasing) auto
  ultimately show ?thesis unfolding sk_m_def unat_push by simp
qed

lemma to_normal_ok:
  assumes "sketch_ok p sk" and "sk_list sk = Some l0" and "sorted l" and "distinct l"
  shows "sketch_ok p (to_normal sk l)"
    and "sk_hits (to_normal sk l) = (\<Union>k \<in> set (sk_tmp sk) \<union> set l. key_hits p k)"
proof -
  have p: "sk_p sk = p" "4 \<le> p" "p \<le> 18" using assms(1) by (auto simp: sketch_ok_def)
  have m: "unat (sk_m sk) = 2 ^ p" using assms(1) by (rule unat_sk_m)
  show "sketch_ok p (to_normal sk l)"
    using p by (simp add: to_normal_def Let_def sketch_ok_def m)
  have "fst (decode_hash k p) < 2 ^ p" for k using decode_index_less [of p k] p by simp
  then show "sk_hits (to_normal sk l) = (\<Union>k \<in> set (sk_tmp sk) \<union> set l. key_hits p k)"
    using p by (simp add: to_normal_def Let_def sk_hits_def m reg_hits_fold key_hits_def)
qed

lemma maybe_to_normal_ok:
  assumes "sketch_ok p sk" and "sk_list sk = Some l" and "distinct tmp"
  defines "r \<equiv> maybe_to_normal (sk\<lparr>sk_tmp := tmp\<rparr>) l"
  shows "sketch_ok p r" and "sk_hits r = (\<Union>k \<in> set tmp \<union> set l. key_hits p k)"
proof -
  define sk1 where "sk1 = sk\<lparr>sk_tmp := tmp\<rparr>"
  define l' where "l' = merge_sparse tmp l"
  define sk2 where "sk2 = sk1\<lparr>sk_tmp := [], sk_list := Some l'\<rparr>"
  have l: "sorted l" "distinct l" and p: "sk_p sk = p"
    using assms(1,2) by (auto simp: sketch_ok_def)
  have l': "sorted l'" "distinct l'"
    using merge_sparse_sorted [OF l assms(3)] by (auto simp: l'_def)
  have ok1: "sketch_ok p sk1" using assms(1,2,3) by (simp add: sk1_def sketch_ok_def)
  have ok2: "sketch_ok p sk2" using assms(1,2) l' by (simp add: sk1_def sk2_def sketch_ok_def)
  have r: "r = (if of_nat (length tmp) * 100 > sk_m sk1
      then (if of_nat (cl_len l') > sk_m sk1 then to_normal sk2 l' else sk2)
      else sk1\<lparr>sk_list := Some l\<rparr>)"
    by (simp add: r_def maybe_to_normal_def Let_def sk1_def sk2_def l'_def)
  have keep: "sk1\<lparr>sk_list := Some l\<rparr> = sk1" using assms(2) by (simp add: sk1_def)
  have sl: "sk_list sk2 = Some l'" by (simp add: sk2_def)
  note tn = to_normal_ok [OF ok2 sl l']
  have h: "sk_hits (to_normal sk2 l') = (\<Union>k \<in> set tmp \<union> set l. key_hits p k)"
    unfolding tn(2) by (simp add: sk2_def l'_def)
  show "sketch_ok p r" unfolding r keep using ok1 ok2 tn(1) by simp
  have h1: "sk_hits sk1 = (\<Union>k \<in> set tmp \<union> set l. key_hits p k)"
    and h2: "sk_hits sk2 = (\<Union>k \<in> set tmp \<union> set l. key_hits p k)"
    using p assms(2) by (simp_all add: sk_hits_def sk1_def sk2_def l'_def)
  show "sk_hits r = (\<Union>k \<in> set tmp \<union> set l. key_hits p k)"
    unfolding r keep by (simp add: h h1 h2)
qed

theorem sk_insert_refines:
  assumes "sketch_ok p sk"
  shows "sketch_ok p (sk_insert_hash sk x) \<and> sk_hits (sk_insert_hash sk x) = sk_hits sk \<union> fp_hits p x"
proof (cases "sk_list sk")
  case None
  have p: "sk_p sk = p" "4 \<le> p" "p \<le> 18" "length (sk_regs sk) = 2 ^ p"
    using assms None by (auto simp: sketch_ok_def)
  then have "sketch_ok p (sk_insert_hash sk x)"
    using assms None by (simp add: sk_insert_hash_def sketch_ok_def)
  moreover have "sk_hits (sk_insert_hash sk x) = sk_hits sk \<union> fp_hits p x"
    using None p pos_index_less [of p x]
    by (simp add: sk_insert_hash_def sk_hits_def fp_hits_def reg_hits_insert)
  ultimately show ?thesis by blast
next
  case (Some l)
  have p: "sk_p sk = p" "4 \<le> p" "p \<le> 18" and d: "distinct (sk_tmp sk)"
    using assms Some by (auto simp: sketch_ok_def)
  define k where "k = encode_hash x p"
  note kh = key_hits_encode [OF p(2,3), of x, folded k_def]
  show ?thesis
  proof (cases "k \<in> set (sk_tmp sk)")
    case True
    then have "key_hits p k \<subseteq> sk_hits sk" using Some p by (auto simp: sk_hits_def)
    then show ?thesis
      using assms True Some kh p by (auto simp: sk_insert_hash_def Let_def k_def)
  next
    case False
    have "distinct (set_add (sk_tmp sk) k)" using d by simp
    from maybe_to_normal_ok [OF assms Some this] show ?thesis
      using False Some kh p by (auto simp: sk_insert_hash_def Let_def k_def sk_hits_def)
  qed
qed

lemma merge_sparse_sketch_ok:
  assumes "sketch_ok p sk" "sk_list sk = Some l" and "sketch_ok p ot" "sk_list ot = Some lo"
  shows "sketch_ok p (merge_sparse_sketch sk l ot lo)"
    and "sk_hits (merge_sparse_sketch sk l ot lo) = sk_hits sk \<union> sk_hits ot"
proof -
  have p: "sk_p sk = p" "sk_p ot = p" and d: "distinct (sk_tmp sk)"
    using assms by (auto simp: sketch_ok_def)
  have "distinct (foldl set_add (foldl set_add (sk_tmp sk) (sk_tmp ot)) lo)" using d by simp
  from maybe_to_normal_ok [OF assms(1,2) this]
  show "sketch_ok p (merge_sparse_sketch sk l ot lo)"
    and "sk_hits (merge_sparse_sketch sk l ot lo) = sk_hits sk \<union> sk_hits ot"
    using p assms(2,4) by (auto simp: merge_sparse_sketch_def Let_def sk_hits_def)
qed

lemma merge_dense_sketch_ok:
  assumes sk: "sketch_ok p sk" and ot: "sketch_ok p ot"
  shows "sketch_ok p (merge_dense_sketch sk ot)"
    and "sk_hits (merge_dense_sketch sk ot) = sk_hits sk \<union> sk_hits ot"
proof -
  have p: "sk_p sk = p" "sk_p ot = p" "4 \<le> p" "p \<le> 18"
    using assms by (auto simp: sketch_ok_def)
  define sk1 where "sk1 = (case sk_list sk of Some l \<Rightarrow> to_normal sk l | None \<Rightarrow> sk)"
  have "sketch_ok p sk1 \<and> sk_list sk1 = None \<and> sk_hits sk1 = sk_hits sk"
  proof (cases "sk_list sk")
    case None
    then show ?thesis using sk by (simp add: sk1_def)
  next
    case (Some l)
    then have "sorted l" "distinct l" using sk by (auto simp: sketch_ok_def)
    note tn = to_normal_ok [OF sk Some this]
    have "sk_list (to_normal sk l) = None" by (simp add: to_normal_def Let_def)
    then show ?thesis using tn Some p by (simp add: sk1_def sk_hits_def)
  qed
  then have ok1: "sketch_ok p sk1" and n1: "sk_list sk1 = None" and h1: "sk_hits sk1 = sk_hits sk"
    by auto
  have len: "length (sk_regs sk1) = 2 ^ p" and p1: "sk_p sk1 = p"
    using ok1 n1 by (auto simp: sketch_ok_def)
  have ix: "fst (decode_hash k p) < 2 ^ p" for k using decode_index_less [of p k] p by simp
  have hr: "reg_hits (sk_regs sk1) = sk_hits sk" using h1 n1 by (simp add: sk_hits_def)
  have md: "merge_dense_sketch sk ot =
      (case sk_list ot of
        Some lo \<Rightarrow>
          sk1\<lparr>sk_regs := fold (\<lambda>k. reg_insert (decode_hash k p)) (sk_tmp ot @ lo) (sk_regs sk1)\<rparr>
      | None \<Rightarrow> sk1\<lparr>sk_regs := merge_regs (sk_regs ot) (sk_regs sk1)\<rparr>)"
    unfolding merge_dense_sketch_def Let_def sk1_def p(2) by (rule refl)
  have "sketch_ok p (merge_dense_sketch sk ot)
    \<and> sk_hits (merge_dense_sketch sk ot) = sk_hits sk \<union> sk_hits ot"
  proof (cases "sk_list ot")
    case None
    then have "length (sk_regs ot) = length (sk_regs sk1)" using ot len by (simp add: sketch_ok_def)
    then show ?thesis unfolding md
      using None ok1 n1 hr by (auto simp: sketch_ok_def sk_hits_def reg_hits_merge)
  next
    case (Some lo)
    have "reg_hits (fold (\<lambda>k. reg_insert (decode_hash k p)) (sk_tmp ot @ lo) (sk_regs sk1))
      = reg_hits (sk_regs sk1) \<union> (\<Union>k \<in> set (sk_tmp ot @ lo). rank_hits (decode_hash k p))"
      by (rule reg_hits_fold) (use ix len in simp)
    then show ?thesis unfolding md
      using Some ok1 n1 hr p by (auto simp: sketch_ok_def sk_hits_def key_hits_def)
  qed
  then show "sketch_ok p (merge_dense_sketch sk ot)"
    and "sk_hits (merge_dense_sketch sk ot) = sk_hits sk \<union> sk_hits ot" by auto
qed

theorem sk_merge_refines:
  assumes "sketch_ok p sk" and "sketch_ok p ot"
  shows "\<exists>r. sk_merge sk (Some ot) = Inr r \<and> sketch_ok p r \<and> sk_hits r = sk_hits sk \<union> sk_hits ot"
proof -
  have "sk_p sk = sk_p ot" using assms by (simp add: sketch_ok_def)
  then show ?thesis
    using merge_sparse_sketch_ok [OF assms(1) _ assms(2)] merge_dense_sketch_ok [OF assms]
    by (cases "sk_list sk"; cases "sk_list ot") (auto simp: sk_merge_def)
qed

lemma sk_merge_nil [simp]: "sk_merge sk None = Inr sk"
  by (simp add: sk_merge_def)

lemma new_sketch_ok:
  assumes "4 \<le> p" "p \<le> 18"
  shows "\<exists>sk. new_sketch p sparse = Inr sk \<and> sketch_ok p sk \<and> sk_hits sk = {} \<and> sk_sparse sk = sparse"
  using assms by (auto simp: new_sketch_def sketch_ok_def sk_hits_def sk_sparse_def)

lemma new_sketch_error: "new_sketch p sparse = Inl e \<longleftrightarrow> e = BadPrecision \<and> (p < 4 \<or> 18 < p)"
  by (auto simp: new_sketch_def)

lemma sk_reset_ok:
  assumes "sketch_ok p sk"
  shows "sketch_ok p (sk_reset sk)" and "sk_hits (sk_reset sk) = {}"
    and "sk_created_sparse sk \<Longrightarrow> new_sketch p True = Inr (sk_reset sk)"
    and "\<not> sk_created_sparse sk \<Longrightarrow> new_sketch p False = Inr (sk_reset sk)"
  using assms
  by (auto simp: sk_reset_def sketch_ok_def sk_hits_def sk_sparse_def new_sketch_def split: option.splits)

lemma sk_estimate_ok:
  assumes "sketch_ok p sk"
  shows "sketch_ok p (snd (sk_estimate fl sk))" and "sk_hits (snd (sk_estimate fl sk)) = sk_hits sk"
proof -
  show "sketch_ok p (snd (sk_estimate fl sk))"
    using assms merge_sparse_sorted
    by (auto simp: sk_estimate_def sketch_ok_def Let_def split: option.splits)
  show "sk_hits (snd (sk_estimate fl sk)) = sk_hits sk"
    using assms by (auto simp: sk_estimate_def sk_hits_def Let_def split: option.splits)
qed

subsection \<open>The interface the estimators use\<close>

text \<open>
  A sketch, seen by its clients: a state with a set of hits, to which an insertion adds the hits of a
  hash and a merge the hits of the other sketch.  \<open>ok p\<close> is the provider's invariant at precision
  \<open>p\<close>.  The clients' lemmas (inserting a list, merging shards) are proved here once.
\<close>

locale sketch_store =
  fixes ok :: "nat \<Rightarrow> 's \<Rightarrow> bool"
    and hits :: "'s \<Rightarrow> 'h set"
    and hash_hits :: "nat \<Rightarrow> 'x \<Rightarrow> 'h set"
    and ins :: "'s \<Rightarrow> 'x \<Rightarrow> 's"
    and mrg :: "'s \<Rightarrow> 's option \<Rightarrow> 'e + 's"
  assumes ins_ok: "ok p s \<Longrightarrow> ok p (ins s x)"
    and ins_hits: "ok p s \<Longrightarrow> hits (ins s x) = hits s \<union> hash_hits p x"
    and mrg_ok: "ok p s \<Longrightarrow> ok p t \<Longrightarrow> \<exists>r. mrg s (Some t) = Inr r \<and> ok p r \<and> hits r = hits s \<union> hits t"
    and mrg_nil: "mrg s None = Inr s"
begin

lemma foldl_ins: "ok p s \<Longrightarrow> ok p (foldl ins s xs) \<and> hits (foldl ins s xs) = hits s \<union> (\<Union>x \<in> set xs. hash_hits p x)"
  by (induction xs arbitrary: s) (auto simp: ins_ok ins_hits)

lemma foldl_ins_set_cong:
  "ok p s \<Longrightarrow> set xs = set ys \<Longrightarrow> hits (foldl ins s xs) = hits (foldl ins s ys)"
  using foldl_ins by metis

lemma ins_known: "ok p s \<Longrightarrow> hash_hits p x \<subseteq> hits s \<Longrightarrow> hits (ins s x) = hits s"
  using ins_hits by fastforce

lemma mrg_hits: "ok p s \<Longrightarrow> (\<forall>t. ot = Some t \<longrightarrow> ok p t)
  \<Longrightarrow> \<exists>r. mrg s ot = Inr r \<and> ok p r \<and> hits r = hits s \<union> (case ot of None \<Rightarrow> {} | Some t \<Rightarrow> hits t)"
  using mrg_ok [of p s] mrg_nil by (cases ot) auto

lemma mrg_idem: "ok p s \<Longrightarrow> \<exists>r. mrg s (Some s) = Inr r \<and> hits r = hits s"
  using mrg_ok by fastforce

lemma mrg_commute: "ok p s \<Longrightarrow> ok p t \<Longrightarrow> mrg s (Some t) = Inr a \<Longrightarrow> mrg t (Some s) = Inr b \<Longrightarrow> hits a = hits b"
  using mrg_ok [of p s t] mrg_ok [of p t s] by auto

end

interpretation hll: sketch_store sketch_ok sk_hits fp_hits sk_insert_hash sk_merge
  by unfold_locales (use sk_insert_refines sk_merge_refines in auto)

subsection \<open>Streams of hashes\<close>

lemma new_sketch_result:
  "new_sketch p sparse = Inr sk \<Longrightarrow> sketch_ok p sk \<and> sk_hits sk = {}"
  using new_sketch_ok [of p sparse] by (auto simp: new_sketch_def split: if_splits)

lemma dense_register:
  assumes "sketch_ok p sk" and "sk_list sk = None" and "sk_hits sk = (\<Union>x \<in> set xs. fp_hits p x)" and "i < 2 ^ p"
  shows "sk_regs sk ! i = Max (insert 0 {snd (get_pos_val x p) | x. x \<in> set xs \<and> fst (get_pos_val x p) = i})"
proof -
  let ?R = "{snd (get_pos_val x p) | x. x \<in> set xs \<and> fst (get_pos_val x p) = i}"
  have fin: "finite ?R" by simp
  have len: "length (sk_regs sk) = 2 ^ p" using assms(1,2) by (simp add: sketch_ok_def)
  have iff: "1 \<le> r \<and> r \<le> sk_regs sk ! i \<longleftrightarrow> 1 \<le> r \<and> (\<exists>q \<in> ?R. r \<le> q)" for r
  proof -
    have "(i, r) \<in> sk_hits sk \<longleftrightarrow> 1 \<le> r \<and> r \<le> sk_regs sk ! i"
      using assms(2,4) len by (simp add: sk_hits_def reg_hits_iff)
    moreover have "(i, r) \<in> (\<Union>x \<in> set xs. fp_hits p x) \<longleftrightarrow> 1 \<le> r \<and> (\<exists>q \<in> ?R. r \<le> q)"
      by (auto simp: fp_hits_def rank_hits_def)
    ultimately show ?thesis using assms(3) by simp
  qed
  show ?thesis
  proof (rule sym, rule Max_eqI)
    show "finite (insert 0 ?R)" using fin by simp
    show "y \<le> sk_regs sk ! i" if "y \<in> insert 0 ?R" for y
      using iff [of y] that by (cases "y = 0") auto
    show "sk_regs sk ! i \<in> insert 0 ?R"
    proof (cases "sk_regs sk ! i = 0")
      case False
      then obtain q where q: "q \<in> ?R" "sk_regs sk ! i \<le> q" using iff [of "sk_regs sk ! i"] by auto
      then have "q \<le> sk_regs sk ! i" using iff [of q] False by auto
      with q show ?thesis by simp
    qed simp
  qed
qed

text \<open>C16: Whichever representation a sketch starts in and whenever it turns dense, after inserting a stream of
  hashes it knows exactly the (register, rank) pairs of the stream, and a dense register holds the
  largest rank of the hashes with its index.\<close>

theorem sketch_stream_exact:
  fixes xs :: "u64 list"
  assumes "new_sketch p sparse = Inr sk0"
  defines "sk \<equiv> foldl sk_insert_hash sk0 xs"
  shows "sketch_ok p sk \<and> sk_hits sk = (\<Union>x \<in> set xs. fp_hits p x)
    \<and> (sk_list sk = None \<longrightarrow> (\<forall>i < 2 ^ p. sk_regs sk ! i
        = Max (insert 0 {snd (get_pos_val x p) | x. x \<in> set xs \<and> fst (get_pos_val x p) = i})))"
proof -
  have "sketch_ok p sk" "sk_hits sk = (\<Union>x \<in> set xs. fp_hits p x)"
    using hll.foldl_ins [of p sk0 xs] new_sketch_result [OF assms(1)] by (simp_all add: sk_def)
  with dense_register show ?thesis by blast
qed

theorem sketch_stream_exact_witness:
  "\<exists>sk0. new_sketch 4 True = Inr sk0 \<and> sketch_ok 4 (foldl sk_insert_hash sk0 [7, 9])
     \<and> sk_hits (foldl sk_insert_hash sk0 [7, 9]) = fp_hits 4 7 \<union> fp_hits 4 9"
proof -
  obtain sk0 where "new_sketch 4 True = Inr sk0" using new_sketch_ok [of 4 True] by auto
  with sketch_stream_exact [OF this, of "[7, 9]"] show ?thesis by auto
qed

text \<open>C17: Merging two sketches gives what one sketch that saw both streams would know, for every combination of
  sparse and dense; it fails exactly when the precisions differ.\<close>

theorem sketch_merge_exact:
  assumes "new_sketch p sp1 = Inr s1" and "new_sketch q sp2 = Inr s2"
  shows "if p = q
    then \<exists>r. sk_merge (foldl sk_insert_hash s1 xs) (Some (foldl sk_insert_hash s2 ys)) = Inr r \<and> sketch_ok p r
           \<and> sk_hits r = sk_hits (foldl sk_insert_hash s1 (xs @ ys))
    else sk_merge (foldl sk_insert_hash s1 xs) (Some (foldl sk_insert_hash s2 ys)) = Inl PrecisionMismatch"
proof -
  have 1: "sketch_ok p (foldl sk_insert_hash s1 zs)" "sk_hits (foldl sk_insert_hash s1 zs) = (\<Union>x \<in> set zs. fp_hits p x)" for zs
    using hll.foldl_ins [of p s1 zs] new_sketch_result [OF assms(1)] by auto
  have 2: "sketch_ok q (foldl sk_insert_hash s2 ys)" "sk_hits (foldl sk_insert_hash s2 ys) = (\<Union>x \<in> set ys. fp_hits q x)"
    using hll.foldl_ins [of q s2 ys] new_sketch_result [OF assms(2)] by auto
  show ?thesis
  proof (cases "p = q")
    case True
    then show ?thesis using sk_merge_refines [OF 1(1) 2(1) [folded True], of xs] True
      by (auto simp: 1(2) 2(2) simp del: foldl_append)
  next
    case False
    then have "sk_p (foldl sk_insert_hash s1 xs) \<noteq> sk_p (foldl sk_insert_hash s2 ys)"
      using 1(1) [of xs] 2(1) by (simp add: sketch_ok_def)
    with False show ?thesis by (simp add: sk_merge_def)
  qed
qed

theorem sketch_merge_exact_witness:
  "\<exists>s1 s2 r. new_sketch 4 True = Inr s1 \<and> new_sketch 4 False = Inr s2
     \<and> sk_merge (foldl sk_insert_hash s1 [7]) (Some (foldl sk_insert_hash s2 [9])) = Inr r
     \<and> sk_hits r = sk_hits (foldl sk_insert_hash s1 [7, 9])"
proof -
  obtain s1 s2 where s: "new_sketch 4 True = Inr s1" "new_sketch 4 False = Inr s2"
    using new_sketch_ok [of 4 True] new_sketch_ok [of 4 False] by auto
  from sketch_merge_exact [OF s, of "[7]" "[9]"] s show ?thesis by auto
qed

end
