(* ===== verification/Go_Float.thy ===== *)
theory Go_Float
  imports Complex_Main Hll_Encoding
begin

section \<open>Double-precision arithmetic\<close>

text \<open>
  A finite Go \<^verbatim>\<open>float64\<close> is a rational number.  An operation computes the exact result and rounds it
  to 53 significant bits, ties to even (\<open>f64\<close>).  The program only meets magnitudes between
  \<open>2 ^ -70\<close> and \<open>2 ^ 65\<close>, far from overflow and from subnormal numbers, so the exponent
  range is not modelled.
\<close>

definition pow2 :: "int \<Rightarrow> rat" where
  "pow2 e = (if 0 \<le> e then Fract (2 ^ nat e) 1 else Fract 1 (2 ^ nat (- e)))"

text \<open>The exponent of a positive rational: \<open>pow2 (ilog2 x) \<le> x < pow2 (ilog2 x + 1)\<close>.\<close>

definition ilog2 :: "rat \<Rightarrow> int" where
  "ilog2 x =
     (let (n, d) = quotient_of x;
          e = int (bit_len (nat n)) - int (bit_len (nat d))
      in if pow2 e \<le> x then e else e - 1)"

definition round_even :: "rat \<Rightarrow> int" where
  "round_even x =
     (let f = \<lfloor>x\<rfloor>; r = x - of_int f
      in if r < 1 / 2 then f else if r > 1 / 2 then f + 1 else if even f then f else f + 1)"

definition f64 :: "rat \<Rightarrow> rat" where
  "f64 x =
     (if x = 0 then 0
      else (let u = pow2 (ilog2 \<bar>x\<bar> - 52) in sgn x * of_int (round_even (\<bar>x\<bar> / u)) * u))"

text \<open>The conversion \<^verbatim>\<open>int64(f)\<close> truncates towards zero.\<close>

definition f64_trunc :: "rat \<Rightarrow> int" where
  "f64_trunc x = (if 0 \<le> x then \<lfloor>x\<rfloor> else \<lceil>x\<rceil>)"

lemma round_even_int [simp]: "round_even (of_int n) = n"
  by (simp add: round_even_def Let_def)

lemma round_even_bounds: "x - 1 / 2 \<le> of_int (round_even x) \<and> of_int (round_even x) \<le> x + 1 / 2"
  unfolding round_even_def Let_def by (auto simp: not_less) linarith+

lemma round_even_mono: "x \<le> y \<Longrightarrow> round_even x \<le> round_even y"
proof -
  assume le: "x \<le> y"
  then have f: "\<lfloor>x\<rfloor> \<le> \<lfloor>y\<rfloor>" by (rule floor_mono)
  show ?thesis
  proof (cases "\<lfloor>x\<rfloor> = \<lfloor>y\<rfloor>")
    case True
    then show ?thesis using le by (auto simp: round_even_def Let_def)
  next
    case False
    then have "\<lfloor>x\<rfloor> + 1 \<le> \<lfloor>y\<rfloor>" using f by simp
    moreover have "round_even x \<le> \<lfloor>x\<rfloor> + 1" and "\<lfloor>y\<rfloor> \<le> round_even y"
      by (auto simp: round_even_def Let_def)
    ultimately show ?thesis by linarith
  qed
qed

lemma f64_zero [simp]: "f64 0 = 0"
  by (simp add: f64_def)

lemma pow2_pos: "0 < pow2 e"
  by (simp add: pow2_def zero_less_Fract_iff)

lemma f64_sign: "0 \<le> x \<Longrightarrow> 0 \<le> f64 x" "x \<le> 0 \<Longrightarrow> f64 x \<le> 0"
proof -
  have r: "0 \<le> round_even (\<bar>x\<bar> / u)" if "0 < u" for u
    using round_even_mono [of 0 "\<bar>x\<bar> / u"] round_even_int [of 0] that by simp
  show "0 \<le> x \<Longrightarrow> 0 \<le> f64 x"
    using r [OF pow2_pos] by (auto simp: f64_def Let_def sgn_if pow2_pos less_imp_le)
  show "x \<le> 0 \<Longrightarrow> f64 x \<le> 0"
    using r [OF pow2_pos] by (auto simp: f64_def Let_def sgn_if pow2_pos less_imp_le)
qed

text \<open>The constant \<^verbatim>\<open>0.8\<close> is not representable: its rounding is slightly larger.\<close>

lemma f64_four_fifths: "f64 (4 / 5) = 3602879701896397 / 4503599627370496"
  by code_simp

text \<open>Integers of at most 53 bits are represented exactly.\<close>

lemma ilog2_int_le:
  assumes "0 < n" and "n < 2 ^ 53" shows "ilog2 (of_int n) \<le> 52"
proof -
  have q: "quotient_of (of_int n) = (n, 1)"
    by (metis quotient_of_int Rat.of_int_def)
  have "nat n < 2 ^ 53" using assms by (simp add: nat_less_iff)
  then have "bit_len (nat n) \<le> 53" by (rule bit_len_le)
  moreover have "bit_len 1 = 1" by (simp add: bit_len_pos)
  ultimately show ?thesis by (simp add: ilog2_def q Let_def)
qed

lemma f64_int:
  assumes "\<bar>n\<bar> < 2 ^ 53" shows "f64 (of_int n) = of_int n"
proof (cases "n = 0")
  case False
  let ?e = "ilog2 \<bar>of_int n :: rat\<bar> - 52"
  have e: "?e \<le> 0" using ilog2_int_le [of "\<bar>n\<bar>"] assms False by simp
  have p: "pow2 ?e = 1 / of_int (2 ^ nat (- ?e))"
    using e by (cases "?e = 0") (simp_all add: pow2_def Fract_of_int_quotient)
  have "\<bar>of_int n :: rat\<bar> / pow2 ?e = of_int (\<bar>n\<bar> * 2 ^ nat (- ?e))" by (simp add: p)
  then have "round_even (\<bar>of_int n :: rat\<bar> / pow2 ?e) = \<bar>n\<bar> * 2 ^ nat (- ?e)" by (simp only: round_even_int)
  then have "f64 (of_int n) = sgn (of_int n) * of_int (\<bar>n\<bar> * 2 ^ nat (- ?e)) * pow2 ?e"
    using False by (simp add: f64_def Let_def)
  also have "\<dots> = sgn (of_int n) * \<bar>of_int n\<bar>" by (simp add: p)
  finally show ?thesis by (simp add: abs_mult_sgn mult.commute)
qed simp

end
