(* ===== verification/Group_Size.thy ===== *)
theory Group_Size
  imports Hyperloglog Go_Float
begin

section \<open>The group limit of an estimator (\<^verbatim>\<open>groupSize\<close>)\<close>

text \<open>
  All buckets of an estimator share one \<^verbatim>\<open>groupSize\<close>: the limit, the number of groups tracked in total
  and per bucket, and per bucket a sketch of the group keys that were turned away.  The operations
  are called under the lock of the bucket whose index they get.  An index out of range is a panic in
  Go and \<open>Inl IndexOutOfRange\<close> here.
\<close>

record group_size =
  gs_limit :: int
  gs_size :: int
  gs_bucket_sizes :: "int list"
  gs_reject_sketches :: "sketch option list"

definition must_new_sketch :: "nat \<Rightarrow> bool \<Rightarrow> go_panic + sketch" where
  "must_new_sketch precision sparse =
     (case new_sketch precision sparse of
        Inl _ \<Rightarrow> Inl (BugPanic ''cannot create HLL sketch'')
      | Inr sk \<Rightarrow> Inr sk)"

definition must_new_group_reject_sketch :: "go_panic + sketch" where
  "must_new_group_reject_sketch = must_new_sketch 10 True"

definition allow_insert_locked :: "group_size \<Rightarrow> nat \<Rightarrow> u64 \<Rightarrow> go_panic + bool \<times> group_size" where
  "allow_insert_locked gs idx key =
     (if gs_size gs \<ge> gs_limit gs
      then (if idx < length (gs_reject_sketches gs)
            then (case (case gs_reject_sketches gs ! idx of
                          None \<Rightarrow> must_new_group_reject_sketch
                        | Some sk \<Rightarrow> Inr sk) of
                    Inl p \<Rightarrow> Inl p
                  | Inr sk \<Rightarrow>
                      Inr (False, gs\<lparr>gs_reject_sketches :=
                             (gs_reject_sketches gs)[idx := Some (sk_insert_hash sk key)]\<rparr>))
            else Inl IndexOutOfRange)
      else (if idx < length (gs_bucket_sizes gs)
            then Inr (True, gs\<lparr>gs_bucket_sizes :=
                                 (gs_bucket_sizes gs)[idx := gs_bucket_sizes gs ! idx + 1],
                               gs_size := gs_size gs + 1\<rparr>)
            else Inl IndexOutOfRange))"

definition rotate_locked :: "group_size \<Rightarrow> nat \<Rightarrow> int \<Rightarrow> go_panic + group_size" where
  "rotate_locked gs idx sz =
     (if idx < length (gs_bucket_sizes gs)
      then (let diff = gs_bucket_sizes gs ! idx - sz;
                gs1 = (if diff > 0
                       then gs\<lparr>gs_bucket_sizes :=
                                  (gs_bucket_sizes gs)[idx := gs_bucket_sizes gs ! idx - diff],
                               gs_size := gs_size gs - diff\<rparr>
                       else gs)
            in if idx < length (gs_reject_sketches gs1)
               then Inr (gs1\<lparr>gs_reject_sketches := (gs_reject_sketches gs1)[idx := None]\<rparr>)
               else Inl IndexOutOfRange)
      else Inl IndexOutOfRange)"

text \<open>
  \<^verbatim>\<open>totalRejected\<close> sums the estimates of the reject sketches in \<^verbatim>\<open>uint64\<close>.  \<^verbatim>\<open>Estimate\<close> compacts the
  sketches it reads, so the new list of sketches is returned too.
\<close>

fun sum_estimates :: "hll_float \<Rightarrow> sketch option list \<Rightarrow> u64 \<times> sketch option list" where
  "sum_estimates fl [] = (0, [])"
| "sum_estimates fl (None # sks) =
     (case sum_estimates fl sks of (n, sks') \<Rightarrow> (n, None # sks'))"
| "sum_estimates fl (Some sk # sks) =
     (case sk_estimate fl sk of (e, sk') \<Rightarrow>
      case sum_estimates fl sks of (n, sks') \<Rightarrow> (e + n, Some sk' # sks'))"

definition total_rejected :: "hll_float \<Rightarrow> group_size \<Rightarrow> u64 \<times> group_size" where
  "total_rejected fl gs =
     (case sum_estimates fl (gs_reject_sketches gs) of
        (n, sks) \<Rightarrow> (n, gs\<lparr>gs_reject_sketches := sks\<rparr>))"

text \<open>\<^verbatim>\<open>int64(float64(gs.limit) * 0.8)\<close>.\<close>

definition size_threshold :: "int \<Rightarrow> int" where
  "size_threshold limit = f64_trunc (f64 (f64 (of_int limit) * f64 (4 / 5)))"

definition total_size :: "hll_float \<Rightarrow> group_size \<Rightarrow> int \<times> group_size" where
  "total_size fl gs =
     (if gs_size gs \<ge> size_threshold (gs_limit gs)
      then (case total_rejected fl gs of
              (n, gs') \<Rightarrow> (wrap_i64 (gs_size gs + sint n), gs'))
      else (gs_size gs, gs))"

definition avg_bucket_size :: "group_size \<Rightarrow> go_panic + int" where
  "avg_bucket_size gs =
     (if gs_bucket_sizes gs = [] then Inl DivideByZero
      else Inr (go_quot (gs_size gs) (int (length (gs_bucket_sizes gs)))))"

definition new_group_size :: "int \<Rightarrow> nat \<Rightarrow> group_size" where
  "new_group_size limit buckets =
     \<lparr>gs_limit = limit, gs_size = 0, gs_bucket_sizes = replicate buckets 0,
      gs_reject_sketches = replicate buckets None\<rparr>"

subsection \<open>Invariant\<close>

text \<open>
  The counters agree, no counter is negative, the total is within the limit, and the reject sketches
  have precision 10.
\<close>

definition group_size_ok :: "group_size \<Rightarrow> bool" where
  "group_size_ok gs \<longleftrightarrow>
     gs_size gs = sum_list (gs_bucket_sizes gs) \<and>
     (\<forall>n \<in> set (gs_bucket_sizes gs). 0 \<le> n) \<and>
     gs_size gs \<le> gs_limit gs \<and>
     length (gs_reject_sketches gs) = length (gs_bucket_sizes gs) \<and>
     (\<forall>o_sk \<in> set (gs_reject_sketches gs). \<forall>sk. o_sk = Some sk \<longrightarrow> sketch_ok 10 sk)"

lemma must_new_sketch_ok:
  "4 \<le> p \<Longrightarrow> p \<le> 18
   \<Longrightarrow> \<exists>sk. must_new_sketch p sparse = Inr sk \<and> sketch_ok p sk \<and> sk_hits sk = {} \<and> sk_sparse sk = sparse"
  using new_sketch_ok [of p sparse] by (auto simp: must_new_sketch_def)

lemma new_group_size_ok: "0 \<le> limit \<Longrightarrow> group_size_ok (new_group_size limit n)"
  by (simp add: group_size_ok_def new_group_size_def sum_list_replicate)

lemma allow_insert_full:
  assumes "group_size_ok gs" and "idx < length (gs_bucket_sizes gs)" and "gs_limit gs \<le> gs_size gs"
  shows "\<exists>sk. allow_insert_locked gs idx key
      = Inr (False, gs\<lparr>gs_reject_sketches := (gs_reject_sketches gs)[idx := Some sk]\<rparr>)
    \<and> sketch_ok 10 sk \<and> fp_hits 10 key \<subseteq> sk_hits sk
    \<and> (\<forall>old. gs_reject_sketches gs ! idx = Some old \<longrightarrow> sk_hits old \<subseteq> sk_hits sk)"
proof -
  have len: "idx < length (gs_reject_sketches gs)" using assms by (simp add: group_size_ok_def)
  obtain sk where sk: "(case gs_reject_sketches gs ! idx of None \<Rightarrow> must_new_group_reject_sketch
      | Some sk \<Rightarrow> Inr sk) = Inr sk" and ok: "sketch_ok 10 sk"
    and old: "\<forall>old. gs_reject_sketches gs ! idx = Some old \<longrightarrow> old = sk"
  proof (cases "gs_reject_sketches gs ! idx")
    case None
    then show ?thesis using that must_new_sketch_ok [of 10 True]
      by (auto simp: must_new_group_reject_sketch_def)
  next
    case (Some sk)
    then have "sketch_ok 10 sk" using assms(1) len by (metis group_size_ok_def nth_mem)
    with Some show ?thesis using that by simp
  qed
  have "allow_insert_locked gs idx key = Inr (False, gs\<lparr>gs_reject_sketches :=
      (gs_reject_sketches gs)[idx := Some (sk_insert_hash sk key)]\<rparr>)"
    using assms(3) len sk by (simp add: allow_insert_locked_def)
  then show ?thesis
    using hll.ins_ok [OF ok] hll.ins_hits [OF ok] old by blast
qed

lemma allow_insert_room:
  assumes "idx < length (gs_bucket_sizes gs)" and "gs_size gs < gs_limit gs"
  shows "allow_insert_locked gs idx key
    = Inr (True, gs\<lparr>gs_bucket_sizes := (gs_bucket_sizes gs)[idx := gs_bucket_sizes gs ! idx + 1],
                    gs_size := gs_size gs + 1\<rparr>)"
  using assms by (simp add: allow_insert_locked_def)

lemma group_size_okD:
  assumes "group_size_ok gs"
  shows "gs_size gs = sum_list (gs_bucket_sizes gs)" "\<forall>n \<in> set (gs_bucket_sizes gs). 0 \<le> n"
    "gs_size gs \<le> gs_limit gs" "length (gs_reject_sketches gs) = length (gs_bucket_sizes gs)"
    "\<forall>o_sk \<in> set (gs_reject_sketches gs). \<forall>sk. o_sk = Some sk \<longrightarrow> sketch_ok 10 sk"
  using assms by (simp_all add: group_size_ok_def)

lemma group_size_ok_reject:
  assumes "group_size_ok gs" and "\<forall>sk. o_sk = Some sk \<longrightarrow> sketch_ok 10 sk"
  shows "group_size_ok (gs\<lparr>gs_reject_sketches := (gs_reject_sketches gs)[idx := o_sk]\<rparr>)"
  using assms(1) ball_list_update [of "gs_reject_sketches gs" "\<lambda>x. \<forall>sk. x = Some sk \<longrightarrow> sketch_ok 10 sk"]
    assms(2) unfolding group_size_ok_def by simp

lemma group_size_ok_resize:
  assumes "group_size_ok gs" and "idx < length (gs_bucket_sizes gs)" and "0 \<le> n"
    and "gs_size gs - gs_bucket_sizes gs ! idx + n \<le> gs_limit gs"
  shows "group_size_ok (gs\<lparr>gs_bucket_sizes := (gs_bucket_sizes gs)[idx := n],
                           gs_size := gs_size gs - gs_bucket_sizes gs ! idx + n\<rparr>)"
  using assms ball_list_update [of "gs_bucket_sizes gs" "\<lambda>x. 0 \<le> x" n idx]
  unfolding group_size_ok_def by (simp add: sum_list_update_int)

theorem allow_insert_locked_ok:
  assumes "group_size_ok gs" and "idx < length (gs_bucket_sizes gs)"
  shows "\<exists>ok gs'. allow_insert_locked gs idx key = Inr (ok, gs') \<and> group_size_ok gs'
    \<and> ok = (gs_size gs < gs_limit gs)
    \<and> gs_bucket_sizes gs' = (if ok then (gs_bucket_sizes gs)[idx := gs_bucket_sizes gs ! idx + 1]
                             else gs_bucket_sizes gs)
    \<and> gs_limit gs' = gs_limit gs"
proof (cases "gs_size gs < gs_limit gs")
  case True
  have "gs_bucket_sizes gs ! idx \<in> set (gs_bucket_sizes gs)" using assms(2) by simp
  then have "0 \<le> gs_bucket_sizes gs ! idx" using group_size_okD(2) [OF assms(1)] by blast
  then have "group_size_ok (gs\<lparr>gs_bucket_sizes := (gs_bucket_sizes gs)[idx := gs_bucket_sizes gs ! idx + 1],
                    gs_size := gs_size gs + 1\<rparr>)"
    using group_size_ok_resize [OF assms, of "gs_bucket_sizes gs ! idx + 1"] True by simp
  then show ?thesis using allow_insert_room [OF assms(2) True, of key] True by auto
next
  case False
  then obtain sk where "allow_insert_locked gs idx key
      = Inr (False, gs\<lparr>gs_reject_sketches := (gs_reject_sketches gs)[idx := Some sk]\<rparr>)" "sketch_ok 10 sk"
    using allow_insert_full [OF assms, of key] by auto
  then show ?thesis using group_size_ok_reject [OF assms(1)] False by auto
qed

theorem rotate_locked_ok:
  assumes "group_size_ok gs" and "idx < length (gs_bucket_sizes gs)"
    and "0 \<le> sz" and "sz \<le> gs_bucket_sizes gs ! idx"
  shows "\<exists>gs'. rotate_locked gs idx sz = Inr gs' \<and> group_size_ok gs'
    \<and> gs_bucket_sizes gs' = (gs_bucket_sizes gs)[idx := sz]
    \<and> gs_reject_sketches gs' = (gs_reject_sketches gs)[idx := None]
    \<and> gs_limit gs' = gs_limit gs"
proof -
  define gs1 where "gs1 = gs\<lparr>gs_bucket_sizes := (gs_bucket_sizes gs)[idx := sz],
                           gs_size := gs_size gs - gs_bucket_sizes gs ! idx + sz\<rparr>"
  have len: "idx < length (gs_reject_sketches gs1)"
    using assms(2) group_size_okD(4) [OF assms(1)] by (simp add: gs1_def)
  have ok: "group_size_ok gs1"
    unfolding gs1_def
    by (rule group_size_ok_resize [OF assms(1,2,3)]) (use assms(4) group_size_okD(3) [OF assms(1)] in simp)
  have "rotate_locked gs idx sz = Inr (gs1\<lparr>gs_reject_sketches := (gs_reject_sketches gs1)[idx := None]\<rparr>)"
  proof (cases "sz = gs_bucket_sizes gs ! idx")
    case True
    then have "gs1 = gs" by (simp add: gs1_def)
    then show ?thesis using True assms(2) len by (simp add: rotate_locked_def)
  next
    case False
    then have "0 < gs_bucket_sizes gs ! idx - sz" using assms(4) by simp
    then show ?thesis using assms(2) len by (simp add: rotate_locked_def Let_def gs1_def algebra_simps)
  qed
  then show ?thesis
    using group_size_ok_reject [OF ok, of None idx] by (simp add: gs1_def)
qed

end
