(* ===== verification/Bucket.thy ===== *)
theory Bucket
  imports Group_Size
begin

section \<open>Estimator buckets (\<^verbatim>\<open>estimatorBucket\<close>)\<close>

text \<open>
  A bucket is one shard of an estimator.  Without grouping it holds a current and a previous sketch;
  with grouping it holds a current and a previous map from group key to the sketch and the label
  values of the group.  \<^verbatim>\<open>rotate\<close> moves current to previous, so what a bucket shows is always the
  union of two generations.  The pointer to the shared \<^verbatim>\<open>groupSize\<close> is an explicit argument and result
  of the operations.  A missing sketch (\<^verbatim>\<open>nil\<close>) is \<open>None\<close>; calling a method that reads a field on it
  is a nil dereference.
\<close>

record group_sketch =
  gsk_sketch :: sketch
  gsk_values :: "string list"

record bucket =
  eb_idx :: nat
  eb_group_by :: "string list"
  eb_interval :: duration
  eb_calculate_churn :: bool
  eb_filter :: string
  eb_precision :: nat
  eb_sparse :: bool
  eb_labels :: "(string, string) gomap"
  eb_has_label_keyword :: bool
  eb_sketch :: "sketch option"
  eb_prev_sketch :: "sketch option"
  eb_groups :: "(u64, group_sketch) gomap"
  eb_prev_groups :: "(u64, group_sketch) gomap"

definition eb_new_sketch :: "bucket \<Rightarrow> go_panic + sketch" where
  "eb_new_sketch eb = must_new_sketch (eb_precision eb) (eb_sparse eb)"

text \<open>
  \<^verbatim>\<open>reset\<close>.  For a bucket without grouping the code calls \<^verbatim>\<open>Reset\<close> on both sketches, the previous one
  first; \<^verbatim>\<open>Reset\<close> reads a field of its receiver, so a nil sketch panics.
\<close>

definition eb_reset :: "bucket \<Rightarrow> group_size \<Rightarrow> go_panic + bucket \<times> group_size" where
  "eb_reset eb gs =
     (if eb_group_by eb = []
      then (case eb_prev_sketch eb of
              None \<Rightarrow> Inl NilDeref
            | Some prev \<Rightarrow>
                (case eb_sketch eb of
                   None \<Rightarrow> Inl NilDeref
                 | Some sk \<Rightarrow>
                     Inr (eb\<lparr>eb_prev_sketch := Some (sk_reset prev), eb_sketch := Some (sk_reset sk)\<rparr>, gs)))
      else (case rotate_locked gs (eb_idx eb) 0 of
              Inl p \<Rightarrow> Inl p
            | Inr gs' \<Rightarrow> Inr (eb\<lparr>eb_groups := [], eb_prev_groups := []\<rparr>, gs')))"

definition eb_rotate :: "bucket \<Rightarrow> group_size \<Rightarrow> go_panic + bucket \<times> group_size" where
  "eb_rotate eb gs =
     (if eb_group_by eb = []
      then (case eb_new_sketch eb of
              Inl p \<Rightarrow> Inl p
            | Inr sk \<Rightarrow> Inr (eb\<lparr>eb_prev_sketch := eb_sketch eb, eb_sketch := Some sk\<rparr>, gs))
      else (case rotate_locked gs (eb_idx eb) (int (length (eb_groups eb))) of
              Inl p \<Rightarrow> Inl p
            | Inr gs' \<Rightarrow> Inr (eb\<lparr>eb_prev_groups := eb_groups eb, eb_groups := []\<rparr>, gs')))"

definition eb_store :: "bucket \<Rightarrow> u64 \<Rightarrow> u64 \<Rightarrow> group_sketch \<Rightarrow> bucket" where
  "eb_store eb key fp gsk =
     eb\<lparr>eb_groups := AList.update key
          (gsk\<lparr>gsk_sketch := sk_insert_hash (gsk_sketch gsk) fp\<rparr>) (eb_groups eb)\<rparr>"

definition eb_create :: "bucket \<Rightarrow> u64 \<Rightarrow> u64 \<Rightarrow> string list \<Rightarrow> go_panic + bucket" where
  "eb_create eb key fp vals =
     (case eb_new_sketch eb of
        Inl p \<Rightarrow> Inl p
      | Inr sk \<Rightarrow> Inr (eb_store eb key fp \<lparr>gsk_sketch = sk, gsk_values = vals\<rparr>))"

definition eb_insert ::
  "bucket \<Rightarrow> group_size \<Rightarrow> u64 \<Rightarrow> u64 \<Rightarrow> string list \<Rightarrow> go_panic + bucket \<times> group_size" where
  "eb_insert eb gs fp key vals =
     (if eb_group_by eb = []
      then (case eb_sketch eb of
              None \<Rightarrow> Inl NilDeref
            | Some sk \<Rightarrow> Inr (eb\<lparr>eb_sketch := Some (sk_insert_hash sk fp)\<rparr>, gs))
      else (case map_of (eb_groups eb) key of
              Some gsk \<Rightarrow> Inr (eb_store eb key fp gsk, gs)
            | None \<Rightarrow>
                (case map_of (eb_prev_groups eb) key of
                   Some prev \<Rightarrow> map_sum id (\<lambda>eb'. (eb', gs)) (eb_create eb key fp (gsk_values prev))
                 | None \<Rightarrow>
                     (case allow_insert_locked gs (eb_idx eb) key of
                        Inl p \<Rightarrow> Inl p
                      | Inr (False, gs') \<Rightarrow> Inr (eb, gs')
                      | Inr (True, gs') \<Rightarrow>
                          map_sum id (\<lambda>eb'. (eb', gs')) (eb_create eb key fp vals)))))"

text \<open>\<^verbatim>\<open>mergeSketches\<close>: a failed merge is a panic.\<close>

definition merge_sketches :: "sketch option \<Rightarrow> sketch option \<Rightarrow> sketch \<Rightarrow> go_panic + sketch" where
  "merge_sketches cur prev res =
     (case sk_merge res cur of
        Inl _ \<Rightarrow> Inl (BugPanic ''precisions must be equal'')
      | Inr res1 \<Rightarrow>
          (case prev of
             None \<Rightarrow> Inr res1
           | Some _ \<Rightarrow>
               (case sk_merge res1 prev of
                  Inl _ \<Rightarrow> Inl (BugPanic ''precisions must be equal'')
                | Inr res2 \<Rightarrow> Inr res2)))"

subsection \<open>Invariant\<close>

definition groups_ok :: "nat \<Rightarrow> (u64, group_sketch) gomap \<Rightarrow> bool" where
  "groups_ok p m \<longleftrightarrow> map_ok m \<and> (\<forall>gsk \<in> snd ` set m. sketch_ok p (gsk_sketch gsk))"

definition opt_hits :: "sketch option \<Rightarrow> (nat \<times> nat) set" where
  "opt_hits o_sk = (case o_sk of None \<Rightarrow> {} | Some sk \<Rightarrow> sk_hits sk)"

definition opt_ok :: "nat \<Rightarrow> sketch option \<Rightarrow> bool" where
  "opt_ok p o_sk = (case o_sk of None \<Rightarrow> True | Some sk \<Rightarrow> sketch_ok p sk)"

lemma opt_ok_simps [simp]: "opt_ok p None" "opt_ok p (Some sk) = sketch_ok p sk"
  by (simp_all add: opt_ok_def)

lemma opt_hits_simps [simp]: "opt_hits None = {}" "opt_hits (Some sk) = sk_hits sk"
  by (simp_all add: opt_hits_def)

definition tracked :: "bucket \<Rightarrow> u64 set" where
  "tracked eb = map_keys (eb_groups eb) \<union> map_keys (eb_prev_groups eb)"

text \<open>
  A bucket in a valid state: exactly the fields of its mode are in use, all sketches have the
  bucket's precision, and the bucket's counter in \<^verbatim>\<open>groupSize\<close> is the number of keys tracked in the
  two generations together.
\<close>

definition bucket_ok :: "bucket \<Rightarrow> group_size \<Rightarrow> bool" where
  "bucket_ok eb gs \<longleftrightarrow>
     4 \<le> eb_precision eb \<and> eb_precision eb \<le> 18 \<and>
     (if eb_group_by eb = []
      then eb_sketch eb \<noteq> None \<and> eb_groups eb = [] \<and> eb_prev_groups eb = []
      else eb_sketch eb = None \<and> eb_prev_sketch eb = None) \<and>
     opt_ok (eb_precision eb) (eb_sketch eb) \<and> opt_ok (eb_precision eb) (eb_prev_sketch eb) \<and>
     groups_ok (eb_precision eb) (eb_groups eb) \<and> groups_ok (eb_precision eb) (eb_prev_groups eb) \<and>
     eb_idx eb < length (gs_bucket_sizes gs) \<and>
     gs_bucket_sizes gs ! eb_idx eb = int (card (tracked eb))"

text \<open>What a bucket currently shows: for the whole bucket, and for one group key.\<close>

definition global_hits :: "bucket \<Rightarrow> (nat \<times> nat) set" where
  "global_hits eb = opt_hits (eb_sketch eb) \<union> opt_hits (eb_prev_sketch eb)"

definition key_group_hits :: "(u64, group_sketch) gomap \<Rightarrow> u64 \<Rightarrow> (nat \<times> nat) set" where
  "key_group_hits m key = opt_hits (map_option gsk_sketch (map_of m key))"

definition group_hits :: "bucket \<Rightarrow> u64 \<Rightarrow> (nat \<times> nat) set" where
  "group_hits eb key = key_group_hits (eb_groups eb) key \<union> key_group_hits (eb_prev_groups eb) key"

text \<open>The fields of a bucket that no operation changes.\<close>

definition eb_shell where
  "eb_shell eb = (eb_idx eb, eb_group_by eb, eb_interval eb, eb_calculate_churn eb, eb_filter eb,
     eb_precision eb, eb_sparse eb, eb_labels eb, eb_has_label_keyword eb)"

lemma eb_shellD:
  assumes "eb_shell eb' = eb_shell eb"
  shows "eb_idx eb' = eb_idx eb" "eb_group_by eb' = eb_group_by eb" "eb_precision eb' = eb_precision eb"
  using assms by (auto simp: eb_shell_def)

subsection \<open>Maps of groups\<close>

lemma groups_ok_Nil [simp]: "groups_ok p []"
  by (simp add: groups_ok_def)

lemma set_snd_update: "snd ` set (AList.update k v m) \<subseteq> insert v (snd ` set m)"
  by (induction m) auto

lemma groups_ok_update:
  "groups_ok p m \<Longrightarrow> sketch_ok p (gsk_sketch gsk) \<Longrightarrow> groups_ok p (AList.update k gsk m)"
  using set_snd_update [of k gsk m] unfolding groups_ok_def by (blast intro: map_ok_update)

lemma groups_ok_lookup: "groups_ok p m \<Longrightarrow> map_of m k = Some gsk \<Longrightarrow> sketch_ok p (gsk_sketch gsk)"
  unfolding groups_ok_def using map_of_SomeD by fastforce

lemma key_group_hits_update:
  "key_group_hits (AList.update k gsk m) j
     = (if j = k then sk_hits (gsk_sketch gsk) else key_group_hits m j)"
  by (simp add: key_group_hits_def map_of_update opt_hits_def)

lemma key_group_hits_None: "map_of m k = None \<Longrightarrow> key_group_hits m k = {}"
  by (simp add: key_group_hits_def opt_hits_def)

lemma key_group_hits_Some: "map_of m k = Some gsk \<Longrightarrow> key_group_hits m k = sk_hits (gsk_sketch gsk)"
  by (simp add: key_group_hits_def opt_hits_def)

lemma card_groups: "groups_ok p m \<Longrightarrow> card (map_keys m) = length m"
  by (simp add: groups_ok_def card_map_keys)

subsection \<open>Storing into a group\<close>

lemma eb_store_simps [simp]:
  "eb_shell (eb_store eb key fp gsk) = eb_shell eb"
  "eb_prev_groups (eb_store eb key fp gsk) = eb_prev_groups eb"
  "eb_sketch (eb_store eb key fp gsk) = eb_sketch eb"
  "eb_prev_sketch (eb_store eb key fp gsk) = eb_prev_sketch eb"
  "tracked (eb_store eb key fp gsk) = insert key (tracked eb)"
  "map_keys (eb_groups (eb_store eb key fp gsk)) = insert key (map_keys (eb_groups eb))"
  by (auto simp: eb_store_def eb_shell_def tracked_def map_keys_update)

lemma eb_store_ok:
  assumes "bucket_ok eb gs" and "eb_group_by eb \<noteq> []" and "sketch_ok (eb_precision eb) (gsk_sketch gsk)"
    and "eb_idx eb < length (gs_bucket_sizes gs')"
    and "gs_bucket_sizes gs' ! eb_idx eb = int (card (insert key (tracked eb)))"
  shows "bucket_ok (eb_store eb key fp gsk) gs'"
proof -
  have sh: "eb_precision (eb_store eb key fp gsk) = eb_precision eb"
    "eb_group_by (eb_store eb key fp gsk) = eb_group_by eb" "eb_idx (eb_store eb key fp gsk) = eb_idx eb"
    by (simp_all add: eb_store_def)
  have "groups_ok (eb_precision eb) (eb_groups (eb_store eb key fp gsk))"
    using assms(1,3) unfolding bucket_ok_def
    by (auto simp: eb_store_def intro!: groups_ok_update hll.ins_ok)
  then show ?thesis using assms unfolding bucket_ok_def sh by simp
qed

text \<open>
  \<open>gains eb key fp eb'\<close>: in \<open>eb'\<close> the current generation of group \<open>key\<close> knows the fingerprint too, and
  nothing else changed.
\<close>

definition gains :: "bucket \<Rightarrow> u64 \<Rightarrow> u64 \<Rightarrow> bucket \<Rightarrow> bool" where
  "gains eb key fp eb' \<longleftrightarrow>
     eb_prev_groups eb' = eb_prev_groups eb \<and>
     (\<forall>k. key_group_hits (eb_groups eb') k
        = key_group_hits (eb_groups eb) k \<union> (if k = key then fp_hits (eb_precision eb) fp else {}))"

lemma gains_group_hits:
  "gains eb key fp eb' \<Longrightarrow>
   group_hits eb' k = group_hits eb k \<union> (if k = key then fp_hits (eb_precision eb) fp else {})"
  by (auto simp: gains_def group_hits_def)

lemma eb_store_gains:
  assumes "sketch_ok (eb_precision eb) (gsk_sketch gsk)"
    and "sk_hits (gsk_sketch gsk) = key_group_hits (eb_groups eb) key"
  shows "gains eb key fp (eb_store eb key fp gsk)"
  using assms hll.ins_hits [OF assms(1)]
  by (auto simp: gains_def eb_store_def key_group_hits_update)

text \<open>A new group starts empty, so creating it is a store into a fresh sketch.\<close>

lemma eb_create_ok:
  assumes "bucket_ok eb gs"
  shows "\<exists>sk. eb_create eb key fp vals = Inr (eb_store eb key fp \<lparr>gsk_sketch = sk, gsk_values = vals\<rparr>)
    \<and> sketch_ok (eb_precision eb) sk \<and> sk_hits sk = {}"
  using assms must_new_sketch_ok [of "eb_precision eb" "eb_sparse eb"]
  by (auto simp: eb_create_def eb_new_sketch_def bucket_ok_def)

subsection \<open>Insertion\<close>

lemma bucket_okD:
  assumes "bucket_ok eb gs"
  shows "4 \<le> eb_precision eb" "eb_precision eb \<le> 18"
    "groups_ok (eb_precision eb) (eb_groups eb)" "groups_ok (eb_precision eb) (eb_prev_groups eb)"
    "eb_idx eb < length (gs_bucket_sizes gs)" "gs_bucket_sizes gs ! eb_idx eb = int (card (tracked eb))"
  using assms by (simp_all add: bucket_ok_def)

lemma finite_tracked [simp]: "finite (tracked eb)"
  by (simp add: tracked_def)

theorem eb_insert_global:
  assumes "bucket_ok eb gs" and "eb_group_by eb = []"
  shows "\<exists>eb'. eb_insert eb gs fp key vals = Inr (eb', gs) \<and> bucket_ok eb' gs \<and> eb_shell eb' = eb_shell eb
    \<and> opt_hits (eb_sketch eb') = opt_hits (eb_sketch eb) \<union> fp_hits (eb_precision eb) fp
    \<and> eb_prev_sketch eb' = eb_prev_sketch eb"
proof -
  obtain sk where sk: "eb_sketch eb = Some sk" and ok: "sketch_ok (eb_precision eb) sk"
    using assms by (auto simp: bucket_ok_def)
  define eb' where "eb' = eb\<lparr>eb_sketch := Some (sk_insert_hash sk fp)\<rparr>"
  have "eb_insert eb gs fp key vals = Inr (eb', gs)"
    using assms(2) sk by (simp add: eb_insert_def eb'_def)
  moreover have "bucket_ok eb' gs"
    using assms hll.ins_ok [OF ok] by (simp add: bucket_ok_def eb'_def tracked_def)
  moreover have "opt_hits (eb_sketch eb') = opt_hits (eb_sketch eb) \<union> fp_hits (eb_precision eb) fp"
    using sk hll.ins_hits [OF ok] by (auto simp: eb'_def)
  ultimately show ?thesis by (simp add: eb'_def eb_shell_def)
qed

text \<open>
  A key that is tracked already is always accepted and does not change the counters; an untracked key
  is accepted exactly when the estimator is below its limit.  An accepted key's group gains the
  fingerprint, no other group changes.
\<close>

lemma eb_insert_tracked:
  assumes "bucket_ok eb gs" and "eb_group_by eb \<noteq> []" and "key \<in> tracked eb"
  shows "\<exists>eb'. eb_insert eb gs fp key vals = Inr (eb', gs) \<and> bucket_ok eb' gs \<and> eb_shell eb' = eb_shell eb
    \<and> tracked eb' = tracked eb \<and> key \<in> map_keys (eb_groups eb')
    \<and> gains eb key fp eb'"
proof -
  note ok = bucket_okD [OF assms(1)]
  have ins: "insert key (tracked eb) = tracked eb" using assms(3) by blast
  have *: ?thesis if r: "eb_insert eb gs fp key vals = Inr (eb_store eb key fp gsk, gs)"
    and s: "sketch_ok (eb_precision eb) (gsk_sketch gsk)"
    and h: "sk_hits (gsk_sketch gsk) = key_group_hits (eb_groups eb) key" for gsk
    using r eb_store_ok [OF assms(1,2) s, of gs key fp] eb_store_gains [OF s h, of fp] ok ins
    by (intro exI [of _ "eb_store eb key fp gsk"]) auto
  show ?thesis
  proof (cases "map_of (eb_groups eb) key")
    case (Some gsk)
    show ?thesis
      by (rule * [of gsk]) (use Some assms(2) groups_ok_lookup [OF ok(3) Some] in
          \<open>simp_all add: eb_insert_def key_group_hits_Some\<close>)
  next
    case None
    then obtain prev where prev: "map_of (eb_prev_groups eb) key = Some prev"
      using assms(3) by (auto simp: tracked_def map_of_not_in_keys [symmetric] dest: map_of_is_SomeI)
        (metis map_of_not_in_keys image_eqI fst_conv not_None_eq)+
    from eb_create_ok [OF assms(1), of key fp "gsk_values prev"] obtain sk
      where c: "eb_create eb key fp (gsk_values prev)
        = Inr (eb_store eb key fp \<lparr>gsk_sketch = sk, gsk_values = gsk_values prev\<rparr>)"
        and s: "sketch_ok (eb_precision eb) sk" "sk_hits sk = {}" by blast
    show ?thesis
      by (rule * [of "\<lparr>gsk_sketch = sk, gsk_values = gsk_values prev\<rparr>"])
        (use None prev assms(2) c s in \<open>simp_all add: eb_insert_def key_group_hits_None\<close>)
  qed
qed

lemma eb_insert_new_room:
  assumes "bucket_ok eb gs" and "group_size_ok gs" and "eb_group_by eb \<noteq> []" and "key \<notin> tracked eb"
    and "gs_size gs < gs_limit gs"
  shows "\<exists>eb' gs'. eb_insert eb gs fp key vals = Inr (eb', gs') \<and> bucket_ok eb' gs' \<and> group_size_ok gs'
    \<and> eb_shell eb' = eb_shell eb \<and> tracked eb' = insert key (tracked eb)
    \<and> key \<in> map_keys (eb_groups eb')
    \<and> gains eb key fp eb'
    \<and> gs_bucket_sizes gs' = (gs_bucket_sizes gs)[eb_idx eb := int (card (tracked eb')) ]
    \<and> gs_limit gs' = gs_limit gs"
proof -
  note ok = bucket_okD [OF assms(1)]
  have none: "map_of (eb_groups eb) key = None" "map_of (eb_prev_groups eb) key = None"
    using assms(4) by (auto simp: tracked_def map_of_not_in_keys)
  obtain gs' where a: "allow_insert_locked gs (eb_idx eb) key = Inr (True, gs')" and g: "group_size_ok gs'"
    and bs: "gs_bucket_sizes gs' = (gs_bucket_sizes gs)[eb_idx eb := gs_bucket_sizes gs ! eb_idx eb + 1]"
    and lim: "gs_limit gs' = gs_limit gs"
    using allow_insert_locked_ok [OF assms(2) ok(5), of key] assms(5) by auto
  from eb_create_ok [OF assms(1), of key fp vals] obtain sk
    where c: "eb_create eb key fp vals = Inr (eb_store eb key fp \<lparr>gsk_sketch = sk, gsk_values = vals\<rparr>)"
      and s: "sketch_ok (eb_precision eb) sk" "sk_hits sk = {}" by blast
  define eb' where "eb' = eb_store eb key fp \<lparr>gsk_sketch = sk, gsk_values = vals\<rparr>"
  have card: "card (insert key (tracked eb)) = card (tracked eb) + 1" using assms(4) by simp
  have "eb_insert eb gs fp key vals = Inr (eb', gs')"
    using assms(3) none a c by (simp add: eb_insert_def eb'_def)
  moreover have "bucket_ok eb' gs'"
    unfolding eb'_def by (rule eb_store_ok [OF assms(1,3)]) (use s bs ok card in simp_all)
  moreover have "gains eb key fp eb'"
    unfolding eb'_def by (rule eb_store_gains) (use s key_group_hits_None [OF none(1)] in simp_all)
  moreover have "gs_bucket_sizes gs' = (gs_bucket_sizes gs)[eb_idx eb := int (card (tracked eb'))]"
    using bs ok card by (simp add: eb'_def add.commute)
  moreover have "key \<in> map_keys (eb_groups eb')" by (simp add: eb'_def)
  ultimately show ?thesis using g lim by (auto simp: eb'_def)
qed

lemma eb_insert_new_full:
  assumes "bucket_ok eb gs" and "group_size_ok gs" and "eb_group_by eb \<noteq> []" and "key \<notin> tracked eb"
    and "gs_limit gs \<le> gs_size gs"
  shows "\<exists>sk gs'. eb_insert eb gs fp key vals = Inr (eb, gs') \<and> bucket_ok eb gs' \<and> group_size_ok gs'
    \<and> gs' = gs\<lparr>gs_reject_sketches := (gs_reject_sketches gs)[eb_idx eb := Some sk]\<rparr>
    \<and> sketch_ok 10 sk \<and> fp_hits 10 key \<subseteq> sk_hits sk"
proof -
  note ok = bucket_okD [OF assms(1)]
  have none: "map_of (eb_groups eb) key = None" "map_of (eb_prev_groups eb) key = None"
    using assms(4) by (auto simp: tracked_def map_of_not_in_keys)
  obtain sk where a: "allow_insert_locked gs (eb_idx eb) key
      = Inr (False, gs\<lparr>gs_reject_sketches := (gs_reject_sketches gs)[eb_idx eb := Some sk]\<rparr>)"
    and s: "sketch_ok 10 sk" "fp_hits 10 key \<subseteq> sk_hits sk"
    using allow_insert_full [OF assms(2) ok(5) assms(5), of key] by blast
  show ?thesis
    using assms(1,3) none a s group_size_ok_reject [OF assms(2), of "Some sk"]
    by (auto simp: eb_insert_def bucket_ok_def tracked_def)
qed

subsection \<open>Rotation and reset\<close>

theorem eb_rotate_ok:
  assumes "bucket_ok eb gs" and "group_size_ok gs"
  shows "\<exists>eb' gs'. eb_rotate eb gs = Inr (eb', gs') \<and> bucket_ok eb' gs' \<and> group_size_ok gs'
    \<and> eb_shell eb' = eb_shell eb \<and> tracked eb' = map_keys (eb_groups eb)
    \<and> eb_prev_groups eb' = eb_groups eb \<and> eb_groups eb' = []
    \<and> opt_hits (eb_prev_sketch eb') = opt_hits (eb_sketch eb) \<and> opt_hits (eb_sketch eb') = {}
    \<and> gs_bucket_sizes gs' = (gs_bucket_sizes gs)[eb_idx eb := int (card (tracked eb'))]
    \<and> gs_limit gs' = gs_limit gs"
proof (cases "eb_group_by eb = []")
  case True
  obtain sk where sk: "eb_new_sketch eb = Inr sk" and s: "sketch_ok (eb_precision eb) sk" "sk_hits sk = {}"
    using must_new_sketch_ok [of "eb_precision eb" "eb_sparse eb"] bucket_okD(1,2) [OF assms(1)]
    by (auto simp: eb_new_sketch_def)
  define eb' where "eb' = eb\<lparr>eb_prev_sketch := eb_sketch eb, eb_sketch := Some sk\<rparr>"
  have g: "eb_groups eb = []" "eb_prev_groups eb = []" using assms(1) True by (simp_all add: bucket_ok_def)
  have "eb_rotate eb gs = Inr (eb', gs)" using True sk by (simp add: eb_rotate_def eb'_def)
  moreover have "bucket_ok eb' gs" using assms(1) True s by (simp add: bucket_ok_def eb'_def tracked_def)
  moreover have "gs_bucket_sizes gs = (gs_bucket_sizes gs)[eb_idx eb := int (card (tracked eb'))]"
    using bucket_okD(6) [OF assms(1)] g list_update_id [of "gs_bucket_sizes gs" "eb_idx eb"]
    by (simp add: eb'_def tracked_def)
  ultimately show ?thesis using assms(2) s g
    by (auto simp: eb'_def eb_shell_def tracked_def global_hits_def group_hits_def key_group_hits_def)
next
  case False
  note ok = bucket_okD [OF assms(1)]
  have "int (length (eb_groups eb)) \<le> gs_bucket_sizes gs ! eb_idx eb"
    unfolding ok(6) card_groups [OF ok(3), symmetric]
    by (simp add: card_mono tracked_def)
  then obtain gs' where r: "rotate_locked gs (eb_idx eb) (int (length (eb_groups eb))) = Inr gs'"
    and g: "group_size_ok gs'" and lim: "gs_limit gs' = gs_limit gs"
    and bs: "gs_bucket_sizes gs' = (gs_bucket_sizes gs)[eb_idx eb := int (length (eb_groups eb))]"
    using rotate_locked_ok [OF assms(2) ok(5), of "int (length (eb_groups eb))"] by auto
  define eb' where "eb' = eb\<lparr>eb_prev_groups := eb_groups eb, eb_groups := []\<rparr>"
  have "eb_rotate eb gs = Inr (eb', gs')" using False r by (simp add: eb_rotate_def eb'_def)
  moreover have "bucket_ok eb' gs'" using assms(1) False bs card_groups [OF ok(3)]
    by (simp add: bucket_ok_def eb'_def tracked_def)
  moreover have "eb_sketch eb = None" "eb_prev_sketch eb = None" using assms(1) False by (simp_all add: bucket_ok_def)
  ultimately show ?thesis using g lim bs card_groups [OF ok(3)]
    by (auto simp: eb'_def eb_shell_def tracked_def global_hits_def group_hits_def key_group_hits_def)
qed

theorem eb_reset_groups:
  assumes "bucket_ok eb gs" and "group_size_ok gs" and "eb_group_by eb \<noteq> []"
  shows "\<exists>eb' gs'. eb_reset eb gs = Inr (eb', gs') \<and> bucket_ok eb' gs' \<and> group_size_ok gs'
    \<and> eb_shell eb' = eb_shell eb \<and> tracked eb' = {}
    \<and> gs_bucket_sizes gs' = (gs_bucket_sizes gs)[eb_idx eb := 0] \<and> gs_limit gs' = gs_limit gs"
proof -
  note ok = bucket_okD [OF assms(1)]
  have "0 \<le> gs_bucket_sizes gs ! eb_idx eb" unfolding ok(6) by simp
  then obtain gs' where r: "rotate_locked gs (eb_idx eb) 0 = Inr gs'"
    and g: "group_size_ok gs'" and lim: "gs_limit gs' = gs_limit gs"
    and bs: "gs_bucket_sizes gs' = (gs_bucket_sizes gs)[eb_idx eb := 0]"
    using rotate_locked_ok [OF assms(2) ok(5), of 0] by auto
  define eb' where "eb' = eb\<lparr>eb_groups := [], eb_prev_groups := []\<rparr>"
  have "eb_reset eb gs = Inr (eb', gs')" using assms(3) r by (simp add: eb_reset_def eb'_def)
  moreover have "bucket_ok eb' gs'" using assms(1,3) bs by (simp add: bucket_ok_def eb'_def tracked_def)
  ultimately show ?thesis using g lim bs by (auto simp: eb'_def eb_shell_def tracked_def)
qed

theorem eb_reset_global:
  assumes "bucket_ok eb gs" and "eb_group_by eb = []"
  shows "(eb_prev_sketch eb = None \<longrightarrow> eb_reset eb gs = Inl NilDeref)
    \<and> (eb_prev_sketch eb \<noteq> None \<longrightarrow> (\<exists>eb'. eb_reset eb gs = Inr (eb', gs) \<and> bucket_ok eb' gs
        \<and> eb_shell eb' = eb_shell eb \<and> global_hits eb' = {}))"
proof -
  obtain sk where sk: "eb_sketch eb = Some sk" and ok: "sketch_ok (eb_precision eb) sk"
    using assms by (auto simp: bucket_ok_def)
  show ?thesis
  proof (cases "eb_prev_sketch eb")
    case None
    then show ?thesis using assms(2) by (simp add: eb_reset_def)
  next
    case (Some prev)
    then have okp: "sketch_ok (eb_precision eb) prev" using assms(1) by (simp add: bucket_ok_def)
    define eb' where "eb' = eb\<lparr>eb_prev_sketch := Some (sk_reset prev), eb_sketch := Some (sk_reset sk)\<rparr>"
    have "eb_reset eb gs = Inr (eb', gs)" using Some sk assms(2) by (simp add: eb_reset_def eb'_def)
    moreover have "bucket_ok eb' gs" using assms sk_reset_ok(1) [OF ok] sk_reset_ok(1) [OF okp]
      by (simp add: bucket_ok_def eb'_def tracked_def)
    moreover have "global_hits eb' = {}" using sk_reset_ok(2) [OF ok] sk_reset_ok(2) [OF okp]
      by (simp add: global_hits_def eb'_def)
    ultimately show ?thesis using Some by (simp add: eb'_def eb_shell_def)
  qed
qed

lemma merge_sketches_ok:
  assumes "opt_ok p cur" and "opt_ok p prev" and "sketch_ok p res"
  shows "\<exists>r. merge_sketches cur prev res = Inr r \<and> sketch_ok p r
    \<and> sk_hits r = sk_hits res \<union> opt_hits cur \<union> opt_hits prev"
proof -
  obtain r1 where r1: "sk_merge res cur = Inr r1" "sketch_ok p r1" "sk_hits r1 = sk_hits res \<union> opt_hits cur"
    using hll.mrg_hits [OF assms(3), of cur] assms(1) by (auto simp: opt_ok_def opt_hits_def split: option.splits)
  obtain r2 where "sk_merge r1 prev = Inr r2" "sketch_ok p r2" "sk_hits r2 = sk_hits r1 \<union> opt_hits prev"
    using hll.mrg_hits [OF r1(2), of prev] assms(2) by (auto simp: opt_ok_def opt_hits_def split: option.splits)
  then show ?thesis using r1 by (cases prev) (auto simp: merge_sketches_def)
qed

subsection \<open>The two-generation window\<close>

text \<open>
  The contract of a bucket, stated on an abstract machine: it shows what was inserted in the current
  and in the previous generation, and a rotation ends a generation.  The bucket implements it
  (\<open>global_bucket_refines\<close>, \<open>group_bucket_refines\<close>); that a fingerprint stays visible for one rotation and
  is gone after two is then a fact about the abstract machine.
\<close>

datatype bucket_event = Ins u64 u64 "string list" | Rotate

fun eb_step :: "bucket \<times> group_size \<Rightarrow> bucket_event \<Rightarrow> go_panic + bucket \<times> group_size" where
  "eb_step (eb, gs) (Ins fp key vals) = eb_insert eb gs fp key vals"
| "eb_step (eb, gs) Rotate = eb_rotate eb gs"

fun eb_run :: "bucket \<times> group_size \<Rightarrow> bucket_event list \<Rightarrow> go_panic + bucket \<times> group_size" where
  "eb_run st [] = Inr st"
| "eb_run st (e # es) = (case eb_step st e of Inl p \<Rightarrow> Inl p | Inr st' \<Rightarrow> eb_run st' es)"

type_synonym generations = "(nat \<times> nat) set \<times> (nat \<times> nat) set"

text \<open>The machine for one key; \<open>matters\<close> says which insertions concern it.\<close>

fun gen_step :: "nat \<Rightarrow> (u64 \<Rightarrow> bool) \<Rightarrow> generations \<Rightarrow> bucket_event \<Rightarrow> generations" where
  "gen_step p matters (cur, prev) (Ins fp key vals) = (if matters key then cur \<union> fp_hits p fp else cur, prev)"
| "gen_step p matters (cur, prev) Rotate = ({}, cur)"

definition global_gens :: "bucket \<Rightarrow> generations" where
  "global_gens eb = (opt_hits (eb_sketch eb), opt_hits (eb_prev_sketch eb))"

definition group_gens :: "bucket \<Rightarrow> u64 \<Rightarrow> generations" where
  "group_gens eb k = (key_group_hits (eb_groups eb) k, key_group_hits (eb_prev_groups eb) k)"

definition gens_le :: "generations \<Rightarrow> generations \<Rightarrow> bool" where
  "gens_le a b \<longleftrightarrow> fst a \<subseteq> fst b \<and> snd a \<subseteq> snd b"

theorem global_bucket_refines:
  assumes "bucket_ok eb gs" and "group_size_ok gs" and "eb_group_by eb = []"
  shows "\<exists>eb' gs'. eb_step (eb, gs) e = Inr (eb', gs') \<and> bucket_ok eb' gs' \<and> group_size_ok gs'
    \<and> eb_shell eb' = eb_shell eb
    \<and> global_gens eb' = gen_step (eb_precision eb) (\<lambda>_. True) (global_gens eb) e"
proof (cases e)
  case (Ins fp key vals)
  then show ?thesis using eb_insert_global [OF assms(1,3), of fp key vals] assms(2)
    by (auto simp: global_gens_def)
next
  case Rotate
  then show ?thesis using eb_rotate_ok [OF assms(1,2)] by (auto simp: global_gens_def)
qed

text \<open>
  With grouping, an insertion may be refused when the limit is reached, so the bucket shows at most
  what the machine shows; a key that is tracked, or that arrives below the limit, gets exactly it.
\<close>

theorem group_bucket_refines:
  assumes "bucket_ok eb gs" and "group_size_ok gs" and "eb_group_by eb \<noteq> []"
  shows "\<exists>eb' gs'. eb_step (eb, gs) e = Inr (eb', gs') \<and> bucket_ok eb' gs' \<and> group_size_ok gs'
    \<and> eb_shell eb' = eb_shell eb \<and> gs_limit gs' = gs_limit gs
    \<and> (\<forall>k. gens_le (group_gens eb' k) (gen_step (eb_precision eb) (\<lambda>j. j = k) (group_gens eb k) e))
    \<and> ((\<forall>fp key vals. e = Ins fp key vals \<longrightarrow> key \<in> tracked eb \<or> gs_size gs < gs_limit gs)
        \<longrightarrow> (\<forall>k. group_gens eb' k = gen_step (eb_precision eb) (\<lambda>j. j = k) (group_gens eb k) e))"
proof (cases e)
  case e: (Ins fp key vals)
  have *: ?thesis if "eb_insert eb gs fp key vals = Inr (eb', gs')" "bucket_ok eb' gs'" "group_size_ok gs'"
    "eb_shell eb' = eb_shell eb" "gs_limit gs' = gs_limit gs" "gains eb key fp eb'" for eb' gs'
    using that e by (auto simp: gains_def group_gens_def gens_le_def)
  consider (known) "key \<in> tracked eb" | (room) "key \<notin> tracked eb" "gs_size gs < gs_limit gs"
    | (full) "key \<notin> tracked eb" "gs_limit gs \<le> gs_size gs" by linarith
  then show ?thesis
  proof cases
    case known
    then show ?thesis using eb_insert_tracked [OF assms(1,3), of key fp vals] * assms(2) by blast
  next
    case room
    then show ?thesis using eb_insert_new_room [OF assms room, of fp vals] * by blast
  next
    case full
    then show ?thesis using eb_insert_new_full [OF assms full, of fp vals] e
      by (auto simp: group_gens_def gens_le_def)
  qed
next
  case Rotate
  then show ?thesis using eb_rotate_ok [OF assms(1,2)]
    by (auto simp: group_gens_def gens_le_def key_group_hits_def)
qed

lemma global_run_refines:
  assumes "bucket_ok eb gs" and "group_size_ok gs" and "eb_group_by eb = []"
  shows "\<exists>eb' gs'. eb_run (eb, gs) es = Inr (eb', gs') \<and> bucket_ok eb' gs' \<and> group_size_ok gs'
    \<and> eb_shell eb' = eb_shell eb
    \<and> global_gens eb' = foldl (gen_step (eb_precision eb) (\<lambda>_. True)) (global_gens eb) es"
  using assms
proof (induction es arbitrary: eb gs)
  case (Cons e es)
  then obtain eb1 gs1 where st: "eb_step (eb, gs) e = Inr (eb1, gs1)" "bucket_ok eb1 gs1" "group_size_ok gs1"
    and sh: "eb_shell eb1 = eb_shell eb"
    and g: "global_gens eb1 = gen_step (eb_precision eb) (\<lambda>_. True) (global_gens eb) e"
    using global_bucket_refines [OF Cons.prems, of e] by blast
  then show ?case using Cons.IH [OF st(2,3)] Cons.prems(3) eb_shellD [OF sh] by auto
qed simp

lemma gens_le_step: "gens_le a b \<Longrightarrow> gens_le (gen_step p m a e) (gen_step p m b e)"
  by (cases a; cases b; cases e) (auto simp: gens_le_def)

lemma gens_le_foldl: "gens_le a b \<Longrightarrow> gens_le (foldl (gen_step p m) a es) (foldl (gen_step p m) b es)"
  by (induction es arbitrary: a b) (auto simp: gens_le_step)

lemma gens_le_trans: "gens_le a b \<Longrightarrow> gens_le b c \<Longrightarrow> gens_le a c"
  by (auto simp: gens_le_def)

lemma group_run_refines:
  assumes "bucket_ok eb gs" and "group_size_ok gs" and "eb_group_by eb \<noteq> []"
  shows "\<exists>eb' gs'. eb_run (eb, gs) es = Inr (eb', gs') \<and> bucket_ok eb' gs' \<and> group_size_ok gs'
    \<and> eb_shell eb' = eb_shell eb
    \<and> (\<forall>k. gens_le (group_gens eb' k) (foldl (gen_step (eb_precision eb) (\<lambda>j. j = k)) (group_gens eb k) es))"
  using assms
proof (induction es arbitrary: eb gs)
  case Nil
  then show ?case by (simp add: gens_le_def)
next
  case (Cons e es)
  then obtain eb1 gs1 where st: "eb_step (eb, gs) e = Inr (eb1, gs1)" "bucket_ok eb1 gs1" "group_size_ok gs1"
    and sh: "eb_shell eb1 = eb_shell eb"
    and g: "\<forall>k. gens_le (group_gens eb1 k) (gen_step (eb_precision eb) (\<lambda>j. j = k) (group_gens eb k) e)"
    using group_bucket_refines [OF Cons.prems, of e] by blast
  have nb: "eb_group_by eb1 \<noteq> []" "eb_precision eb1 = eb_precision eb" using Cons.prems(3) eb_shellD [OF sh] by auto
  from Cons.IH [OF st(2,3) nb(1)] obtain eb' gs' where r: "eb_run (eb1, gs1) es = Inr (eb', gs')"
    "bucket_ok eb' gs'" "group_size_ok gs'" "eb_shell eb' = eb_shell eb1"
    and g': "\<forall>k. gens_le (group_gens eb' k) (foldl (gen_step (eb_precision eb) (\<lambda>j. j = k)) (group_gens eb1 k) es)"
    unfolding nb by blast
  have "gens_le (group_gens eb' k) (foldl (gen_step (eb_precision eb) (\<lambda>j. j = k)) (group_gens eb k) (e # es))" for k
    using g' [THEN spec, of k] gens_le_foldl [OF g [THEN spec, of k]] by (auto intro: gens_le_trans)
  with r st(1) sh show ?case by simp
qed

definition inserted :: "nat \<Rightarrow> (u64 \<Rightarrow> bool) \<Rightarrow> bucket_event list \<Rightarrow> (nat \<times> nat) set" where
  "inserted p matters es = (\<Union>e \<in> set es. case e of Ins fp key vals \<Rightarrow> if matters key then fp_hits p fp else {} | Rotate \<Rightarrow> {})"

lemma gen_run_no_rotate:
  "Rotate \<notin> set es \<Longrightarrow> foldl (gen_step p m) (cur, prev) es = (cur \<union> inserted p m es, prev)"
proof (induction es arbitrary: cur)
  case (Cons e es)
  then show ?case by (cases e) (auto simp: inserted_def)
qed (simp add: inserted_def)

lemma gen_run_window:
  assumes "Rotate \<notin> set mid" and "Rotate \<notin> set post"
  shows "foldl (gen_step p m) g (pre @ Rotate # mid @ Rotate # post) = (inserted p m post, inserted p m mid)"
  using assms by (cases "foldl (gen_step p m) g pre") (simp add: gen_run_no_rotate)

text \<open>A global bucket shows exactly the fingerprints inserted since the rotation before the last one: what was
  inserted in the current or the previous generation is visible, everything older is gone.\<close>

theorem global_window:
  assumes "bucket_ok eb gs" and "group_size_ok gs" and "eb_group_by eb = []"
    and "Rotate \<notin> set mid" and "Rotate \<notin> set post"
  shows "\<exists>eb' gs'. eb_run (eb, gs) (pre @ Rotate # mid @ Rotate # post) = Inr (eb', gs')
    \<and> global_hits eb' = inserted (eb_precision eb) (\<lambda>_. True) (mid @ post)"
  using global_run_refines [OF assms(1-3), of "pre @ Rotate # mid @ Rotate # post"]
  unfolding gen_run_window [OF assms(4,5)]
  by (auto simp: global_gens_def global_hits_def inserted_def)

text \<open>A group of a bucket never shows a fingerprint older than the rotation before the last one, nor one inserted
  for another group.\<close>

theorem group_window:
  assumes "bucket_ok eb gs" and "group_size_ok gs" and "eb_group_by eb \<noteq> []"
    and "Rotate \<notin> set mid" and "Rotate \<notin> set post"
  shows "\<exists>eb' gs'. eb_run (eb, gs) (pre @ Rotate # mid @ Rotate # post) = Inr (eb', gs')
    \<and> (\<forall>k. group_hits eb' k \<subseteq> inserted (eb_precision eb) (\<lambda>j. j = k) (mid @ post))"
proof -
  let ?es = "pre @ Rotate # mid @ Rotate # post"
  obtain eb' gs' where r: "eb_run (eb, gs) ?es = Inr (eb', gs')"
    and g: "\<forall>k. gens_le (group_gens eb' k) (foldl (gen_step (eb_precision eb) (\<lambda>j. j = k)) (group_gens eb k) ?es)"
    using group_run_refines [OF assms(1-3), of ?es] by blast
  have "group_hits eb' k \<subseteq> inserted (eb_precision eb) (\<lambda>j. j = k) (mid @ post)" for k
    using g [THEN spec, of k] unfolding gen_run_window [OF assms(4,5)]
    by (auto simp: gens_le_def group_gens_def group_hits_def inserted_def)
  with r show ?thesis by blast
qed

subsection \<open>Fresh buckets and runs from them\<close>

text \<open>The bucket the loop of \<^verbatim>\<open>newEstimator\<close> builds.\<close>

definition new_bucket ::
  "nat \<Rightarrow> string list \<Rightarrow> duration \<Rightarrow> bool \<Rightarrow> (string, string) gomap \<Rightarrow> string \<Rightarrow> nat \<Rightarrow> bool \<Rightarrow> bool \<Rightarrow> go_panic + bucket" where
  "new_bucket idx group_by interval calculate_churn labels flt precision sparse has_label_keyword =
     (let eb = \<lparr>eb_idx = idx, eb_group_by = group_by, eb_interval = interval,
                eb_calculate_churn = calculate_churn, eb_filter = flt, eb_precision = precision,
                eb_sparse = sparse, eb_labels = labels, eb_has_label_keyword = has_label_keyword,
                eb_sketch = None, eb_prev_sketch = None, eb_groups = [], eb_prev_groups = []\<rparr>
      in if group_by = []
         then (case eb_new_sketch eb of
                 Inl p \<Rightarrow> Inl p
               | Inr sk \<Rightarrow> Inr (eb\<lparr>eb_sketch := Some sk\<rparr>))
         else Inr eb)"

lemma new_bucket_ok:
  assumes "4 \<le> p" and "p \<le> 18" and "idx < n"
  shows "\<exists>eb. new_bucket idx gb iv ch ls flt p sp hl = Inr eb \<and> bucket_ok eb (new_group_size limit n)
    \<and> eb_shell eb = (idx, gb, iv, ch, flt, p, sp, ls, hl)
    \<and> eb_groups eb = [] \<and> eb_prev_groups eb = [] \<and> eb_prev_sketch eb = None \<and> global_hits eb = {}"
proof -
  obtain sk where sk: "must_new_sketch p sp = Inr sk" "sketch_ok p sk" "sk_hits sk = {}"
    using must_new_sketch_ok [OF assms(1,2)] by blast
  define eb where "eb = \<lparr>eb_idx = idx, eb_group_by = gb, eb_interval = iv, eb_calculate_churn = ch,
    eb_filter = flt, eb_precision = p, eb_sparse = sp, eb_labels = ls, eb_has_label_keyword = hl,
    eb_sketch = (if gb = [] then Some sk else None), eb_prev_sketch = None, eb_groups = [],
    eb_prev_groups = []\<rparr>"
  have "new_bucket idx gb iv ch ls flt p sp hl = Inr eb"
    using sk by (simp add: new_bucket_def eb_new_sketch_def eb_def)
  then show ?thesis using assms sk
    by (intro exI [of _ eb]) (simp add: eb_def bucket_ok_def eb_shell_def new_group_size_def
        tracked_def global_hits_def)
qed

lemma group_run_counts:
  assumes "bucket_ok eb gs" and "group_size_ok gs" and "eb_group_by eb \<noteq> []"
  shows "\<exists>eb' gs'. eb_run (eb, gs) es = Inr (eb', gs') \<and> bucket_ok eb' gs' \<and> group_size_ok gs'
    \<and> gs_limit gs' = gs_limit gs \<and> eb_idx eb' = eb_idx eb"
  using assms
proof (induction es arbitrary: eb gs)
  case (Cons e es)
  obtain eb1 gs1 where st: "eb_step (eb, gs) e = Inr (eb1, gs1)" "bucket_ok eb1 gs1" "group_size_ok gs1"
    "eb_shell eb1 = eb_shell eb" "gs_limit gs1 = gs_limit gs"
    using group_bucket_refines [OF Cons.prems, of e] by blast
  then show ?case using Cons.IH [OF st(2,3)] Cons.prems(3) eb_shellD [OF st(4)] by auto
qed simp

text \<open>C14: However insertions and rotations follow each other, a bucket never panics, its counter in
  \<^verbatim>\<open>groupSize\<close> is exactly the number of distinct group keys its two generations track, and the estimator's
  total never exceeds the group limit.\<close>

theorem bucket_counts_exact:
  assumes "bucket_ok eb gs" and "group_size_ok gs" and "eb_group_by eb \<noteq> []"
  shows "\<exists>eb' gs'. eb_run (eb, gs) es = Inr (eb', gs')
    \<and> gs_bucket_sizes gs' ! eb_idx eb = int (card (tracked eb'))
    \<and> gs_size gs' = sum_list (gs_bucket_sizes gs') \<and> gs_size gs' \<le> gs_limit gs"
proof -
  obtain eb' gs' where r: "eb_run (eb, gs) es = Inr (eb', gs')" "bucket_ok eb' gs'" "group_size_ok gs'"
    "gs_limit gs' = gs_limit gs" "eb_idx eb' = eb_idx eb"
    using group_run_counts [OF assms] by blast
  from bucket_okD(6) [OF r(2)] group_size_okD(1,3) [OF r(3)] r show ?thesis by simp
qed

theorem bucket_counts_exact_witness:
  "\<exists>eb eb' gs'. new_bucket 0 [''job''] 0 False [] [] 4 True False = Inr eb
     \<and> eb_run (eb, new_group_size 2 4) [Ins 5 8 [''a''], Rotate, Ins 6 12 [''b''], Ins 7 16 [''c'']] = Inr (eb', gs')
     \<and> gs_size gs' \<le> 2"
proof -
  obtain eb where eb: "new_bucket 0 [''job''] 0 False [] [] 4 True False = Inr eb"
    "bucket_ok eb (new_group_size 2 4)" "eb_shell eb = (0, [''job''], 0, False, [], 4, True, [], False)"
    using new_bucket_ok [of 4 0 4] by force
  have "eb_group_by eb \<noteq> []" using eb(3) by (simp add: eb_shell_def)
  from bucket_counts_exact [OF eb(2) new_group_size_ok this,
      of "[Ins 5 8 [''a''], Rotate, Ins 6 12 [''b''], Ins 7 16 [''c'']]"] eb(1)
  show ?thesis by (auto simp: new_group_size_def)
qed

theorem global_window_witness:
  "\<exists>eb eb' gs'. new_bucket 0 [] 0 False [] [] 4 True False = Inr eb
     \<and> eb_run (eb, new_group_size 2 4) [Ins 1 0 [], Rotate, Ins 2 0 [], Rotate, Ins 3 0 []] = Inr (eb', gs')
     \<and> global_hits eb' = fp_hits 4 2 \<union> fp_hits 4 3"
proof -
  obtain eb where eb: "new_bucket 0 [] 0 False [] [] 4 True False = Inr eb"
    "bucket_ok eb (new_group_size 2 4)" "eb_shell eb = (0, [], 0, False, [], 4, True, [], False)"
    using new_bucket_ok [of 4 0 4] by force
  have "eb_group_by eb = []" "eb_precision eb = 4" using eb(3) by (simp_all add: eb_shell_def)
  from global_window [OF eb(2) new_group_size_ok this(1), of "[Ins 2 0 []]" "[Ins 3 0 []]" "[Ins 1 0 []]"]
    eb(1) this(2) show ?thesis by (simp add: inserted_def)
qed

theorem group_window_witness:
  "\<exists>eb eb' gs'. new_bucket 0 [''job''] 0 False [] [] 4 True False = Inr eb
     \<and> eb_run (eb, new_group_size 2 4) [Ins 1 8 [''a''], Rotate, Rotate] = Inr (eb', gs')
     \<and> group_hits eb' 8 = {}"
proof -
  obtain eb where eb: "new_bucket 0 [''job''] 0 False [] [] 4 True False = Inr eb"
    "bucket_ok eb (new_group_size 2 4)" "eb_shell eb = (0, [''job''], 0, False, [], 4, True, [], False)"
    using new_bucket_ok [of 4 0 4] by force
  have "eb_group_by eb \<noteq> []" using eb(3) by (simp add: eb_shell_def)
  from group_window [OF eb(2) new_group_size_ok this, of "[]" "[]" "[Ins 1 8 [''a'']]"] eb(1)
  show ?thesis by (fastforce simp: inserted_def)
qed

subsection \<open>One statement for every operation\<close>

text \<open>
  What an estimator needs from any operation on one of its buckets: it succeeds, keeps the invariants,
  and touches no other bucket's counter.
\<close>

definition bucket_step_ok :: "bucket \<Rightarrow> group_size \<Rightarrow> bucket \<Rightarrow> group_size \<Rightarrow> bool" where
  "bucket_step_ok eb gs eb' gs' \<longleftrightarrow>
     bucket_ok eb' gs' \<and> group_size_ok gs' \<and> eb_shell eb' = eb_shell eb \<and> gs_limit gs' = gs_limit gs \<and>
     (\<exists>n. gs_bucket_sizes gs' = (gs_bucket_sizes gs)[eb_idx eb := n])"

lemma bucket_step_okI:
  assumes "bucket_ok eb' gs'" and "group_size_ok gs'" and "eb_shell eb' = eb_shell eb"
    and "gs_limit gs' = gs_limit gs" and "gs_bucket_sizes gs' = (gs_bucket_sizes gs)[eb_idx eb := n]"
  shows "bucket_step_ok eb gs eb' gs'"
  using assms by (auto simp: bucket_step_ok_def)

lemma same_sizes: "gs_bucket_sizes gs = (gs_bucket_sizes gs)[eb_idx eb := gs_bucket_sizes gs ! eb_idx eb]"
  by simp

lemma sizes_of_sum:
  "group_size_ok gs \<Longrightarrow> group_size_ok gs' \<Longrightarrow> i < length (gs_bucket_sizes gs)
   \<Longrightarrow> gs_bucket_sizes gs' = (gs_bucket_sizes gs)[i := n]
   \<Longrightarrow> gs_size gs' = gs_size gs - gs_bucket_sizes gs ! i + n"
  by (simp add: group_size_ok_def sum_list_update_int)

lemma eb_insert_any:
  assumes "bucket_ok eb gs" and "group_size_ok gs"
  shows "\<exists>eb' gs'. eb_insert eb gs fp key vals = Inr (eb', gs') \<and> bucket_step_ok eb gs eb' gs'
    \<and> gs_size gs' \<le> gs_size gs + 1
    \<and> tracked eb' \<subseteq> (if eb_group_by eb = [] then {} else insert key (tracked eb))
    \<and> (eb_group_by eb = [] \<longrightarrow> global_hits eb' = global_hits eb \<union> fp_hits (eb_precision eb) fp)
    \<and> (eb_group_by eb \<noteq> [] \<longrightarrow> (\<forall>k. group_hits eb' k = group_hits eb k
          \<union> (if k = key \<and> (key \<in> tracked eb \<or> gs_size gs < gs_limit gs)
             then fp_hits (eb_precision eb) fp else {})))"
proof -
  have size: "gs_size gs' \<le> gs_size gs + 1" if "group_size_ok gs'"
    "gs_bucket_sizes gs' = (gs_bucket_sizes gs)[eb_idx eb := int (card (insert key (tracked eb)))]" for gs'
    using sizes_of_sum [OF assms(2) that(1) bucket_okD(5) [OF assms(1)] that(2)] bucket_okD(6) [OF assms(1)]
    by (simp add: card_insert_if)
  consider (global) "eb_group_by eb = []"
    | (known) "eb_group_by eb \<noteq> []" "key \<in> tracked eb"
    | (room) "eb_group_by eb \<noteq> []" "key \<notin> tracked eb" "gs_size gs < gs_limit gs"
    | (full) "eb_group_by eb \<noteq> []" "key \<notin> tracked eb" "gs_limit gs \<le> gs_size gs" by linarith
  then show ?thesis
  proof cases
    case global
    obtain eb' where r: "eb_insert eb gs fp key vals = Inr (eb', gs)" "bucket_ok eb' gs" "eb_shell eb' = eb_shell eb"
      "opt_hits (eb_sketch eb') = opt_hits (eb_sketch eb) \<union> fp_hits (eb_precision eb) fp"
      "eb_prev_sketch eb' = eb_prev_sketch eb"
      using eb_insert_global [OF assms(1) global, of fp key vals] by blast
    have "tracked eb' = {}" using r(2) global eb_shellD(2) [OF r(3)] by (simp add: bucket_ok_def tracked_def)
    then show ?thesis using r global bucket_step_okI [OF r(2) assms(2) r(3) refl same_sizes]
      by (auto simp: global_hits_def)
  next
    case known
    obtain eb' where r: "eb_insert eb gs fp key vals = Inr (eb', gs)" "bucket_ok eb' gs" "eb_shell eb' = eb_shell eb"
      "tracked eb' = tracked eb" "gains eb key fp eb'"
      using eb_insert_tracked [OF assms(1) known, of fp vals] by blast
    then show ?thesis
      using known bucket_step_okI [OF r(2) assms(2) r(3) refl same_sizes] gains_group_hits [OF r(5)] by auto
  next
    case room
    obtain eb' gs' where r: "eb_insert eb gs fp key vals = Inr (eb', gs')" "bucket_ok eb' gs'" "group_size_ok gs'"
      "eb_shell eb' = eb_shell eb" "tracked eb' = insert key (tracked eb)" "gains eb key fp eb'"
      "gs_bucket_sizes gs' = (gs_bucket_sizes gs)[eb_idx eb := int (card (tracked eb'))]"
      "gs_limit gs' = gs_limit gs"
      using eb_insert_new_room [OF assms room, of fp vals] by blast
    then show ?thesis
      using room bucket_step_okI [OF r(2,3,4,8,7)] gains_group_hits [OF r(6)] size [of gs'] by auto
  next
    case full
    obtain sk gs' where r: "eb_insert eb gs fp key vals = Inr (eb, gs')" "bucket_ok eb gs'" "group_size_ok gs'"
      and gs': "gs' = gs\<lparr>gs_reject_sketches := (gs_reject_sketches gs)[eb_idx eb := Some sk]\<rparr>"
      using eb_insert_new_full [OF assms full, of fp vals] by blast
    have "bucket_step_ok eb gs eb gs'"
      by (rule bucket_step_okI [OF r(2,3) refl _ trans [OF _ same_sizes]]) (simp_all add: gs')
    then show ?thesis using r(1) gs' full by auto
  qed
qed

lemma tracked_global: "bucket_ok eb gs \<Longrightarrow> eb_group_by eb = [] \<Longrightarrow> tracked eb = {}"
  by (simp add: bucket_ok_def tracked_def)

lemma eb_rotate_any:
  assumes "bucket_ok eb gs" and "group_size_ok gs"
  shows "\<exists>eb' gs'. eb_rotate eb gs = Inr (eb', gs') \<and> bucket_step_ok eb gs eb' gs'
    \<and> tracked eb' \<subseteq> tracked eb
    \<and> global_gens eb' = ({}, fst (global_gens eb)) \<and> (\<forall>k. group_gens eb' k = ({}, fst (group_gens eb k)))"
proof -
  obtain eb' gs' where r: "eb_rotate eb gs = Inr (eb', gs')" "bucket_ok eb' gs'" "group_size_ok gs'"
    "eb_shell eb' = eb_shell eb" "tracked eb' = map_keys (eb_groups eb)"
    "eb_prev_groups eb' = eb_groups eb" "eb_groups eb' = []"
    "opt_hits (eb_prev_sketch eb') = opt_hits (eb_sketch eb)" "opt_hits (eb_sketch eb') = {}"
    "gs_bucket_sizes gs' = (gs_bucket_sizes gs)[eb_idx eb := int (card (tracked eb'))]"
    "gs_limit gs' = gs_limit gs"
    using eb_rotate_ok [OF assms] by blast
  then show ?thesis
    using bucket_step_okI [OF r(2,3,4,11,10)]
    by (auto simp: tracked_def global_gens_def group_gens_def key_group_hits_def)
qed

lemma eb_reset_any:
  assumes "bucket_ok eb gs" and "group_size_ok gs" and "eb_group_by eb \<noteq> [] \<or> eb_prev_sketch eb \<noteq> None"
  shows "\<exists>eb' gs'. eb_reset eb gs = Inr (eb', gs') \<and> bucket_step_ok eb gs eb' gs'
    \<and> tracked eb' = {} \<and> global_hits eb' = {} \<and> (\<forall>k. group_hits eb' k = {})"
proof (cases "eb_group_by eb = []")
  case True
  obtain eb' where r: "eb_reset eb gs = Inr (eb', gs)" "bucket_ok eb' gs" "eb_shell eb' = eb_shell eb"
    "global_hits eb' = {}"
    using eb_reset_global [OF assms(1) True] True assms(3) by blast
  have "eb_groups eb' = []" "eb_prev_groups eb' = []"
    using r(2) True eb_shellD(2) [OF r(3)] by (simp_all add: bucket_ok_def)
  then show ?thesis using r bucket_step_okI [OF r(2) assms(2) r(3) refl same_sizes]
    by (auto simp: tracked_def group_hits_def key_group_hits_def)
next
  case False
  obtain eb' gs' where r: "eb_reset eb gs = Inr (eb', gs')" "bucket_ok eb' gs'" "group_size_ok gs'"
    "eb_shell eb' = eb_shell eb" "tracked eb' = {}"
    "gs_bucket_sizes gs' = (gs_bucket_sizes gs)[eb_idx eb := 0]" "gs_limit gs' = gs_limit gs"
    using eb_reset_groups [OF assms(1,2) False] by blast
  have "eb_groups eb' = []" "eb_prev_groups eb' = []" using r(5) by (simp_all add: tracked_def)
  moreover have "eb_sketch eb' = None" "eb_prev_sketch eb' = None"
    using r(2) False eb_shellD(2) [OF r(4)] by (simp_all add: bucket_ok_def)
  ultimately show ?thesis using r bucket_step_okI [OF r(2,3,4,7,6)]
    by (auto simp: global_hits_def group_hits_def key_group_hits_def)
qed

end
