(* ===== verification/Go_Strconv.thy ===== *)
theory Go_Strconv
  imports Go_Prelude Go_Float
begin

section \<open>Go's text formatting\<close>

text \<open>
  What the program uses of \<^verbatim>\<open>strconv\<close>, \<^verbatim>\<open>strings\<close>, \<^verbatim>\<open>sort\<close> and \<^verbatim>\<open>time.Duration.String\<close>, written over
  byte strings.  \<^verbatim>\<open>strconv.Quote\<close> asks a Unicode table whether a rune above \<open>0xFF\<close> is printable; that
  table is the parameter \<open>ip\<close> of the definitions that need it.  The main result is that quoting loses
  nothing and never lets a raw quote or line break through, whatever the table says.
\<close>

subsection \<open>Numbers\<close>

definition digit :: "nat \<Rightarrow> char" where
  "digit n = char_of (48 + n)"

fun format_uint :: "nat \<Rightarrow> string" where
  "format_uint n = (if n < 10 then [digit n] else format_uint (n div 10) @ [digit (n mod 10)])"

declare format_uint.simps [simp del]

definition format_int :: "int \<Rightarrow> string" where
  "format_int i = (if i < 0 then ''-'' @ format_uint (nat (- i)) else format_uint (nat i))"

definition parse_uint :: "string \<Rightarrow> nat" where
  "parse_uint s = foldl (\<lambda>n c. n * 10 + (of_char c - 48)) 0 s"

text \<open>\<^verbatim>\<open>strconv.AppendFloat(buf, x, 'f', 4, 64)\<close> for a non-negative \<open>x\<close>.\<close>

fun pad_digits :: "nat \<Rightarrow> nat \<Rightarrow> string" where
  "pad_digits 0 n = []"
| "pad_digits (Suc k) n = pad_digits k (n div 10) @ [digit (n mod 10)]"

definition format_float4 :: "rat \<Rightarrow> string" where
  "format_float4 x =
     (let n = nat (round_even (x * 10000))
      in format_uint (n div 10000) @ ''.'' @ pad_digits 4 (n mod 10000))"

subsection \<open>Durations\<close>

text \<open>\<^verbatim>\<open>fmtFrac\<close>: the fraction is printed right to left without trailing zeros.\<close>

fun fmt_frac :: "nat \<Rightarrow> nat \<Rightarrow> bool \<Rightarrow> string \<Rightarrow> nat \<times> string" where
  "fmt_frac 0 v pr acc = (v, if pr then CHR ''.'' # acc else acc)"
| "fmt_frac (Suc prec) v pr acc =
     (let d = v mod 10; pr' = pr \<or> d \<noteq> 0
      in fmt_frac prec (v div 10) pr' (if pr' then digit d # acc else acc))"

definition micro_sign :: string where
  "micro_sign = [char_of (0xC2 :: nat), char_of (0xB5 :: nat)]"

definition fmt_small :: "nat \<Rightarrow> nat \<Rightarrow> string \<Rightarrow> string" where
  "fmt_small u prec unit = (case fmt_frac prec u False unit of (v, s) \<Rightarrow> format_uint v @ s)"

definition duration_string :: "duration \<Rightarrow> string" where
  "duration_string d =
     (let u = nat \<bar>d\<bar>;
          body =
            (if u = 0 then ''0s''
             else if u < 1000 then fmt_small u 0 ''ns''
             else if u < 1000000 then fmt_small u 3 (micro_sign @ ''s'')
             else if u < 1000000000 then fmt_small u 6 ''ms''
             else (case fmt_frac 9 u False ''s'' of (v, s) \<Rightarrow>
                     (let sec = format_uint (v mod 60) @ s; mins = v div 60 in
                      if mins = 0 then sec
                      else (let ms = format_uint (mins mod 60) @ ''m'' @ sec; hours = mins div 60 in
                            if hours = 0 then ms else format_uint hours @ ''h'' @ ms))))
      in if d < 0 then CHR ''-'' # body else body)"

subsection \<open>Joining and sorting\<close>

fun join :: "string \<Rightarrow> string list \<Rightarrow> string" where
  "join sep [] = []"
| "join sep [s] = s"
| "join sep (s # ss) = s @ sep @ join sep ss"

subsection \<open>UTF-8\<close>

text \<open>
  \<^verbatim>\<open>utf8.DecodeRuneInString\<close> on bytes: the rune and its width; an invalid or truncated sequence is
  \<^verbatim>\<open>(RuneError, 1)\<close>.
\<close>

definition rune_error :: nat where
  "rune_error = 0xFFFD"

definition in_range :: "nat \<Rightarrow> nat \<Rightarrow> nat \<Rightarrow> bool" where
  "in_range lo hi b \<longleftrightarrow> lo \<le> b \<and> b \<le> hi"

definition decode_rune :: "nat list \<Rightarrow> nat \<times> nat" where
  "decode_rune s =
     (case s of
        [] \<Rightarrow> (rune_error, 0)
      | b0 # t \<Rightarrow>
         if b0 < 0x80 then (b0, 1)
         else if in_range 0xC2 0xDF b0 then
           (case t of
              b1 # _ \<Rightarrow> if in_range 0x80 0xBF b1 then ((b0 - 0xC0) * 64 + (b1 - 0x80), 2) else (rune_error, 1)
            | _ \<Rightarrow> (rune_error, 1))
         else if in_range 0xE0 0xEF b0 then
           (case t of
              b1 # b2 # _ \<Rightarrow>
                if in_range (if b0 = 0xE0 then 0xA0 else 0x80) (if b0 = 0xED then 0x9F else 0xBF) b1
                   \<and> in_range 0x80 0xBF b2
                then ((b0 - 0xE0) * 4096 + (b1 - 0x80) * 64 + (b2 - 0x80), 3) else (rune_error, 1)
            | _ \<Rightarrow> (rune_error, 1))
         else if in_range 0xF0 0xF4 b0 then
           (case t of
              b1 # b2 # b3 # _ \<Rightarrow>
                if in_range (if b0 = 0xF0 then 0x90 else 0x80) (if b0 = 0xF4 then 0x8F else 0xBF) b1
                   \<and> in_range 0x80 0xBF b2 \<and> in_range 0x80 0xBF b3
                then ((b0 - 0xF0) * 262144 + (b1 - 0x80) * 4096 + (b2 - 0x80) * 64 + (b3 - 0x80), 4)
                else (rune_error, 1)
            | _ \<Rightarrow> (rune_error, 1))
         else (rune_error, 1))"

definition encode_rune :: "nat \<Rightarrow> nat list" where
  "encode_rune r =
     (if r < 0x80 then [r]
      else if r < 0x800 then [0xC0 + r div 64, 0x80 + r mod 64]
      else if r < 0x10000 then [0xE0 + r div 4096, 0x80 + r div 64 mod 64, 0x80 + r mod 64]
      else [0xF0 + r div 262144, 0x80 + r div 4096 mod 64, 0x80 + r div 64 mod 64, 0x80 + r mod 64])"

subsection \<open>Quoting\<close>

definition hex_digit :: "nat \<Rightarrow> nat" where
  "hex_digit n = (if n < 10 then 48 + n else 87 + n)"

definition is_print :: "(nat \<Rightarrow> bool) \<Rightarrow> nat \<Rightarrow> bool" where
  "is_print ip r =
     (if r \<le> 0xFF then (0x20 \<le> r \<and> r < 0x7F) \<or> (0xA1 \<le> r \<and> r \<noteq> 0xAD) else ip r)"

text \<open>\<^verbatim>\<open>appendEscapedRune\<close> for the quote character \<open>"\<close>.  34 is the quote, 92 the backslash.\<close>

definition escape_rune :: "(nat \<Rightarrow> bool) \<Rightarrow> nat \<Rightarrow> nat list" where
  "escape_rune ip r =
     (if r = 34 \<or> r = 92 then [92, r]
      else if is_print ip r then encode_rune r
      else if r = 7 then [92, 97] else if r = 8 then [92, 98] else if r = 12 then [92, 102]
      else if r = 10 then [92, 110] else if r = 13 then [92, 114] else if r = 9 then [92, 116]
      else if r = 11 then [92, 118]
      else if r < 32 \<or> r = 127 then [92, 120, hex_digit (r div 16), hex_digit (r mod 16)]
      else if r < 0x10000
      then [92, 117] @ map (\<lambda>d. hex_digit (r div d mod 16)) [4096, 256, 16, 1]
      else [92, 85] @ map (\<lambda>d. hex_digit (r div d mod 16)) [268435456, 16777216, 1048576, 65536, 4096, 256, 16, 1])"

function quote_body :: "(nat \<Rightarrow> bool) \<Rightarrow> nat list \<Rightarrow> nat list" where
  "quote_body ip [] = []"
| "quote_body ip (b # s) =
     (case decode_rune (b # s) of (r, width) \<Rightarrow>
        if width = 1 \<and> r = rune_error
        then [92, 120, hex_digit (b div 16), hex_digit (b mod 16)] @ quote_body ip s
        else escape_rune ip r @ quote_body ip (drop (width - 1) s))"
  by pat_completeness auto
termination
  by (relation "measure (\<lambda>(ip, s). length s)") auto

declare quote_body.simps [simp del]

definition quote :: "(nat \<Rightarrow> bool) \<Rightarrow> string \<Rightarrow> string" where
  "quote ip s = map char_of ([34] @ quote_body ip (map of_char s) @ [34])"

subsection \<open>Decimal numbers read back\<close>

lemma digit_val: "n < 10 \<Longrightarrow> of_char (digit n) = (48 + n :: nat)"
  by (simp add: digit_def)

lemma parse_uint_snoc: "n < 10 \<Longrightarrow> parse_uint (s @ [digit n]) = parse_uint s * 10 + n"
  by (simp add: parse_uint_def digit_val)

lemma parse_format_uint: "parse_uint (format_uint n) = n"
proof (induction n rule: format_uint.induct)
  case (1 n)
  show ?case
  proof (cases "n < 10")
    case True
    then show ?thesis using parse_uint_snoc [of n "[]"]
      by (simp add: format_uint.simps) (simp add: parse_uint_def)
  next
    case False
    then show ?thesis using 1 by (simp add: format_uint.simps [of n] parse_uint_snoc)
  qed
qed

lemma set_format_uint: "set (format_uint n) \<subseteq> digit ` {0..<10}"
proof (induction n rule: format_uint.induct)
  case (1 n)
  show ?case
  proof (cases "n < 10")
    case True
    then show ?thesis by (simp add: format_uint.simps)
  next
    case False
    then show ?thesis using 1 by (auto simp: format_uint.simps [of n])
  qed
qed

lemma char_of_newline: "n < 256 \<Longrightarrow> n \<noteq> 10 \<Longrightarrow> char_of n \<noteq> CHR 0x0A" for n :: nat
proof
  assume n: "n < 256" "n \<noteq> 10" and "char_of n = CHR 0x0A"
  then have "of_char (char_of n) = (of_char (CHR 0x0A) :: nat)" by simp
  then show False using n by simp
qed

lemma digit_not_newline: "n < 10 \<Longrightarrow> digit n \<noteq> CHR 0x0A"
  unfolding digit_def by (rule char_of_newline) simp_all

subsection \<open>Quoted text read back\<close>

text \<open>
  The inverse of quoting, as a reader of the exposition format sees it: the bytes after the opening
  quote up to the closing one.  A raw line break inside the quotes is an error.
\<close>

definition hex_val :: "nat \<Rightarrow> nat" where
  "hex_val c = (if c < 58 then c - 48 else c - 87)"

definition hex_number :: "nat list \<Rightarrow> nat" where
  "hex_number cs = foldl (\<lambda>n c. n * 16 + hex_val c) 0 cs"

fun unquote_body :: "nat list \<Rightarrow> nat list option" where
  "unquote_body [] = None"
| "unquote_body (b # s) =
     (if b = 34 then (if s = [] then Some [] else None)
      else if b = 10 then None
      else if b = 92
      then (case s of
              [] \<Rightarrow> None
            | c # t \<Rightarrow>
                if c = 34 \<or> c = 92 then map_option (Cons c) (unquote_body t)
                else if c = 97 then map_option (Cons 7) (unquote_body t)
                else if c = 98 then map_option (Cons 8) (unquote_body t)
                else if c = 102 then map_option (Cons 12) (unquote_body t)
                else if c = 110 then map_option (Cons 10) (unquote_body t)
                else if c = 114 then map_option (Cons 13) (unquote_body t)
                else if c = 116 then map_option (Cons 9) (unquote_body t)
                else if c = 118 then map_option (Cons 11) (unquote_body t)
                else if c = 120 then map_option (Cons (hex_number (take 2 t))) (unquote_body (drop 2 t))
                else if c = 117
                then map_option ((@) (encode_rune (hex_number (take 4 t)))) (unquote_body (drop 4 t))
                else if c = 85
                then map_option ((@) (encode_rune (hex_number (take 8 t)))) (unquote_body (drop 8 t))
                else None)
      else map_option (Cons b) (unquote_body s))"

declare unquote_body.simps [simp del]

definition unquote :: "string \<Rightarrow> string option" where
  "unquote s = (case map of_char s of
      q # t \<Rightarrow> if q = 34 then map_option (map char_of) (unquote_body t) else None
    | [] \<Rightarrow> None)"

lemma hex_val_digit [simp]: "n < 16 \<Longrightarrow> hex_val (hex_digit n) = n"
  by (simp add: hex_val_def hex_digit_def)

lemma unquote_plain:
  "\<forall>b \<in> set bs. b \<noteq> 34 \<and> b \<noteq> 10 \<and> b \<noteq> 92
   \<Longrightarrow> unquote_body (bs @ s) = map_option ((@) bs) (unquote_body s)"
proof (induction bs)
  case Nil
  show ?case by (cases "unquote_body s") simp_all
next
  case (Cons b bs)
  then show ?case by (simp add: unquote_body.simps(2) option.map_comp comp_def)
qed

lemma map_option_single [simp]: "map_option ((@) [r]) x = map_option ((#) r) x"
  by (cases x) simp_all

lemma unquote_escapes:
  "unquote_body (92 # 34 # t) = map_option (Cons 34) (unquote_body t)"
  "unquote_body (92 # 92 # t) = map_option (Cons 92) (unquote_body t)"
  "unquote_body (92 # 97 # t) = map_option (Cons 7) (unquote_body t)"
  "unquote_body (92 # 98 # t) = map_option (Cons 8) (unquote_body t)"
  "unquote_body (92 # 102 # t) = map_option (Cons 12) (unquote_body t)"
  "unquote_body (92 # 110 # t) = map_option (Cons 10) (unquote_body t)"
  "unquote_body (92 # 114 # t) = map_option (Cons 13) (unquote_body t)"
  "unquote_body (92 # 116 # t) = map_option (Cons 9) (unquote_body t)"
  "unquote_body (92 # 118 # t) = map_option (Cons 11) (unquote_body t)"
  "unquote_body (92 # 120 # a # b # t) = map_option (Cons (hex_number [a, b])) (unquote_body t)"
  "unquote_body (92 # 117 # t) = map_option ((@) (encode_rune (hex_number (take 4 t)))) (unquote_body (drop 4 t))"
  "unquote_body (92 # 85 # t) = map_option ((@) (encode_rune (hex_number (take 8 t)))) (unquote_body (drop 8 t))"
  "unquote_body [34] = Some []"
  by (simp_all add: unquote_body.simps(2))

lemma encode_rune_high: "0x80 \<le> r \<Longrightarrow> \<forall>b \<in> set (encode_rune r). 0x80 \<le> b"
  by (auto simp: encode_rune_def)

lemma hex_number_4:
  "r < 0x10000 \<Longrightarrow> hex_number (map (\<lambda>d. hex_digit (r div d mod 16)) [4096, 256, 16, 1]) = r"
proof -
  assume r: "r < 0x10000"
  have s: "r div (16 * d) * 16 + r div d mod 16 = r div d" for d :: nat
    by (metis div_mult2_eq mult.commute div_mult_mod_eq)
  have top: "r div 4096 mod 16 = r div 4096" using r by simp
  have "hex_number (map (\<lambda>d. hex_digit (r div d mod 16)) [4096, 256, 16, 1])
    = (((r div 4096 mod 16) * 16 + r div 256 mod 16) * 16 + r div 16 mod 16) * 16 + r div 1 mod 16"
    unfolding hex_number_def by simp
  also have "\<dots> = r" unfolding top using s [of 256] s [of 16] s [of 1] by simp
  finally show ?thesis .
qed

lemma hex_number_8:
  "r < 0x100000000
   \<Longrightarrow> hex_number (map (\<lambda>d. hex_digit (r div d mod 16))
        [268435456, 16777216, 1048576, 65536, 4096, 256, 16, 1]) = r"
proof -
  assume r: "r < 0x100000000"
  have s: "r div (16 * d) * 16 + r div d mod 16 = r div d" for d :: nat
    by (metis div_mult2_eq mult.commute div_mult_mod_eq)
  have top: "r div 268435456 mod 16 = r div 268435456" using r by simp
  have "hex_number (map (\<lambda>d. hex_digit (r div d mod 16))
      [268435456, 16777216, 1048576, 65536, 4096, 256, 16, 1])
    = (((((((r div 268435456 mod 16) * 16 + r div 16777216 mod 16) * 16 + r div 1048576 mod 16) * 16
        + r div 65536 mod 16) * 16 + r div 4096 mod 16) * 16 + r div 256 mod 16) * 16
        + r div 16 mod 16) * 16 + r div 1 mod 16"
    unfolding hex_number_def by simp
  also have "\<dots> = r"
    unfolding top using s [of 16777216] s [of 1048576] s [of 65536] s [of 4096] s [of 256] s [of 16] s [of 1]
    by simp
  finally show ?thesis .
qed

lemma unquote_escape:
  assumes "r < 0x110000"
  shows "unquote_body (escape_rune ip r @ s) = map_option ((@) (encode_rune r)) (unquote_body s)"
proof -
  have x: ?thesis if "r < 32 \<or> r = 127"
    "escape_rune ip r = [92, 120, hex_digit (r div 16), hex_digit (r mod 16)]"
  proof -
    have "hex_number [hex_digit (r div 16), hex_digit (r mod 16)] = r"
      using that(1) by (auto simp: hex_number_def)
    moreover have "encode_rune r = [r]" using that(1) by (auto simp: encode_rune_def)
    ultimately show ?thesis unfolding that(2) by (simp add: unquote_escapes)
  qed
  have p: ?thesis if "is_print ip r" "r \<noteq> 34" "r \<noteq> 92" "escape_rune ip r = encode_rune r"
  proof -
    have "\<forall>b \<in> set (encode_rune r). b \<noteq> 34 \<and> b \<noteq> 10 \<and> b \<noteq> 92"
      using that encode_rune_high [of r]
      by (cases "r < 0x80") (auto simp: is_print_def encode_rune_def split: if_splits)
    then show ?thesis unfolding that(4) by (rule unquote_plain)
  qed
  have u: ?thesis if r: "r < 0x10000" and "escape_rune ip r
      = [92, 117] @ map (\<lambda>d. hex_digit (r div d mod 16)) [4096, 256, 16, 1]"
    unfolding that(2) using hex_number_4 [OF r] by (simp add: unquote_escapes del: list.map)
  have U: ?thesis if "escape_rune ip r = [92, 85] @ map (\<lambda>d. hex_digit (r div d mod 16))
      [268435456, 16777216, 1048576, 65536, 4096, 256, 16, 1]"
    unfolding that using hex_number_8 [of r] assms by (simp add: unquote_escapes del: list.map)
  have e: "encode_rune r = [r]" if "r < 128" using that by (simp add: encode_rune_def)
  consider "r = 34 \<or> r = 92" | "is_print ip r" "r \<noteq> 34" "r \<noteq> 92"
    | "r = 7 \<or> r = 8 \<or> r = 12 \<or> r = 10 \<or> r = 13 \<or> r = 9 \<or> r = 11"
    | "\<not> is_print ip r" "r \<noteq> 34" "r \<noteq> 92"
      "\<not> (r = 7 \<or> r = 8 \<or> r = 12 \<or> r = 10 \<or> r = 13 \<or> r = 9 \<or> r = 11)" by blast
  then show ?thesis
  proof cases
    case 1
    then have "escape_rune ip r = [92, r]" by (simp add: escape_rune_def)
    then show ?thesis using 1 e by (elim disjE) (simp_all add: unquote_escapes)
  next
    case 2
    then have "escape_rune ip r = encode_rune r" by (simp add: escape_rune_def)
    with 2 show ?thesis by (rule p)
  next
    case 3
    then show ?thesis
      by (elim disjE) (simp_all add: escape_rune_def is_print_def encode_rune_def unquote_escapes)
  next
    case 4
    show ?thesis
    proof (cases "r < 32 \<or> r = 127")
      case True
      then show ?thesis by (rule x) (use 4 True in \<open>simp add: escape_rune_def\<close>)
    next
      case False
      note * = 4 False
      show ?thesis
      proof (cases "r < 0x10000")
        case True
        then show ?thesis by (rule u) (use * True in \<open>simp add: escape_rune_def\<close>)
      next
        case False
        show ?thesis by (rule U) (use * False in \<open>simp add: escape_rune_def\<close>)
      qed
    qed
  qed
qed

text \<open>A decoded rune encodes to the bytes it was read from.\<close>

lemma encode_2: "2 \<le> a \<Longrightarrow> a < 32 \<Longrightarrow> b < 64 \<Longrightarrow> encode_rune (a * 64 + b) = [0xC0 + a, 0x80 + b]"
  by (simp add: encode_rune_def)

lemma encode_3:
  assumes "a < 16" "b < 64" "c < 64" "a = 0 \<Longrightarrow> 32 \<le> b"
  shows "encode_rune (a * 4096 + b * 64 + c) = [0xE0 + a, 0x80 + b, 0x80 + c]"
proof -
  have "a * 4096 + b * 64 + c = (a * 64 + b) * 64 + c" by simp
  then have d: "(a * 4096 + b * 64 + c) div 64 = a * 64 + b" using assms(3) by simp
  then have "(a * 4096 + b * 64 + c) div 4096 = a"
    using assms(2) div_mult2_eq [of "a * 4096 + b * 64 + c" 64 64] by simp
  moreover have "(a * 4096 + b * 64 + c) mod 64 = c" using assms(3) by (simp add: mod_add_eq [symmetric])
  moreover have "\<not> a * 4096 + b * 64 + c < 0x800" using assms(4) by (cases "a = 0") simp_all
  ultimately show ?thesis using assms d by (simp add: encode_rune_def)
qed

lemma encode_4:
  assumes "a < 8" "b < 64" "c < 64" "d < 64" "a = 0 \<Longrightarrow> 16 \<le> b"
  shows "encode_rune (a * 262144 + b * 4096 + c * 64 + d) = [0xF0 + a, 0x80 + b, 0x80 + c, 0x80 + d]"
proof -
  let ?r = "a * 262144 + b * 4096 + c * 64 + d"
  have "?r = (a * 4096 + b * 64 + c) * 64 + d" by simp
  then have d1: "?r div 64 = a * 4096 + b * 64 + c" using assms(4) by simp
  have "a * 4096 + b * 64 + c = (a * 64 + b) * 64 + c" by simp
  then have "(a * 4096 + b * 64 + c) div 64 = a * 64 + b" using assms(3) by simp
  then have d2: "?r div 4096 = a * 64 + b" using d1 div_mult2_eq [of ?r 64 64] by simp
  then have d3: "?r div 262144 = a" using assms(2) div_mult2_eq [of ?r 4096 64] by simp
  have m: "?r mod 64 = d" "(a * 4096 + b * 64 + c) mod 64 = c" "(a * 64 + b) mod 64 = b"
    using assms by (simp_all add: mod_add_eq [symmetric])
  have "\<not> ?r < 0x10000" using assms(5) by (cases "a = 0") simp_all
  then show ?thesis unfolding encode_rune_def using d1 d2 d3 m by simp
qed

lemma in_range_apart:
  "in_range 0xC2 0xDF b \<Longrightarrow> \<not> b < 0x80"
  "in_range 0xE0 0xEF b \<Longrightarrow> \<not> b < 0x80" "in_range 0xE0 0xEF b \<Longrightarrow> \<not> in_range 0xC2 0xDF b"
  "in_range 0xF0 0xF4 b \<Longrightarrow> \<not> b < 0x80" "in_range 0xF0 0xF4 b \<Longrightarrow> \<not> in_range 0xC2 0xDF b"
  "in_range 0xF0 0xF4 b \<Longrightarrow> \<not> in_range 0xE0 0xEF b"
  by (simp_all add: in_range_def)

lemma decode_rune_cases:
  "b < 0x80 \<Longrightarrow> decode_rune (b # t) = (b, 1)"
  "in_range 0xC2 0xDF b \<Longrightarrow> decode_rune (b # t) =
     (case t of b1 # _ \<Rightarrow> if in_range 0x80 0xBF b1 then ((b - 0xC0) * 64 + (b1 - 0x80), 2) else (rune_error, 1)
      | _ \<Rightarrow> (rune_error, 1))"
  "in_range 0xE0 0xEF b \<Longrightarrow> decode_rune (b # t) =
     (case t of
        b1 # b2 # _ \<Rightarrow>
          if in_range (if b = 0xE0 then 0xA0 else 0x80) (if b = 0xED then 0x9F else 0xBF) b1
             \<and> in_range 0x80 0xBF b2
          then ((b - 0xE0) * 4096 + (b1 - 0x80) * 64 + (b2 - 0x80), 3) else (rune_error, 1)
      | _ \<Rightarrow> (rune_error, 1))"
  "in_range 0xF0 0xF4 b \<Longrightarrow> decode_rune (b # t) =
     (case t of
        b1 # b2 # b3 # _ \<Rightarrow>
          if in_range (if b = 0xF0 then 0x90 else 0x80) (if b = 0xF4 then 0x8F else 0xBF) b1
             \<and> in_range 0x80 0xBF b2 \<and> in_range 0x80 0xBF b3
          then ((b - 0xF0) * 262144 + (b1 - 0x80) * 4096 + (b2 - 0x80) * 64 + (b3 - 0x80), 4)
          else (rune_error, 1)
      | _ \<Rightarrow> (rune_error, 1))"
  "\<not> b < 0x80 \<Longrightarrow> \<not> in_range 0xC2 0xDF b \<Longrightarrow> \<not> in_range 0xE0 0xEF b \<Longrightarrow> \<not> in_range 0xF0 0xF4 b
    \<Longrightarrow> decode_rune (b # t) = (rune_error, 1)"
  by (simp_all only: decode_rune_def list.case in_range_apart if_True if_False simp_thms)

lemma in_range_offset: "in_range lo hi b \<Longrightarrow> \<exists>x. b = lo + x \<and> lo + x \<le> hi"
  by (auto simp: in_range_def intro: exI [of _ "b - lo"])

lemma encode_decode_2:
  assumes "in_range 0xC2 0xDF b" and "decode_rune (b # s) = (r, w)" and "\<not> (w = 1 \<and> r = rune_error)"
  shows "w = 2 \<and> w \<le> length (b # s) \<and> r < 0x110000 \<and> encode_rune r = take w (b # s)"
proof -
  obtain b1 t where s: "s = b1 # t" "in_range 0x80 0xBF b1" "r = (b - 0xC0) * 64 + (b1 - 0x80)" "w = 2"
    using assms(2,3) unfolding decode_rune_cases(2) [OF assms(1)] by (auto split: list.splits if_splits)
  obtain x y where b: "b = 0xC2 + x" "0xC2 + x \<le> 0xDF" and b1: "b1 = 0x80 + y" "0x80 + y \<le> 0xBF"
    using in_range_offset [OF assms(1)] in_range_offset [OF s(2)] by blast
  have "r = (2 + x) * 64 + y" unfolding s(3) b(1) b1(1) by simp
  moreover have "encode_rune ((2 + x) * 64 + y) = [0xC0 + (2 + x), 0x80 + y]"
    by (rule encode_2) (use b(2) b1(2) in simp_all)
  ultimately show ?thesis using b b1 s by simp
qed

lemma encode_decode_3:
  assumes "in_range 0xE0 0xEF b" and "decode_rune (b # s) = (r, w)" and "\<not> (w = 1 \<and> r = rune_error)"
  shows "w = 3 \<and> w \<le> length (b # s) \<and> r < 0x110000 \<and> encode_rune r = take w (b # s)"
proof -
  obtain b1 b2 t where s: "s = b1 # b2 # t" "r = (b - 0xE0) * 4096 + (b1 - 0x80) * 64 + (b2 - 0x80)" "w = 3"
    and r1: "in_range (if b = 0xE0 then 0xA0 else 0x80) (if b = 0xED then 0x9F else 0xBF) b1"
    and r2: "in_range 0x80 0xBF b2"
    using assms(2,3) unfolding decode_rune_cases(3) [OF assms(1)] by (auto split: list.splits if_splits)
  have r1': "in_range 0x80 0xBF b1" and lo: "b = 0xE0 \<Longrightarrow> 0xA0 \<le> b1"
    using r1 by (auto simp: in_range_def split: if_splits)
  obtain x y z where b: "b = 0xE0 + x" "0xE0 + x \<le> 0xEF" and b1: "b1 = 0x80 + y" "0x80 + y \<le> 0xBF"
    and b2: "b2 = 0x80 + z" "0x80 + z \<le> 0xBF"
    using in_range_offset [OF assms(1)] in_range_offset [OF r1'] in_range_offset [OF r2] by blast
  have r: "r = x * 4096 + y * 64 + z" unfolding s(2) b(1) b1(1) b2(1) by simp
  have "encode_rune (x * 4096 + y * 64 + z) = [0xE0 + x, 0x80 + y, 0x80 + z]"
    by (rule encode_3) (use b b1 b2 lo in simp_all)
  then show ?thesis using b b1 b2 s(1,3) r by simp
qed

lemma encode_decode_4:
  assumes "in_range 0xF0 0xF4 b" and "decode_rune (b # s) = (r, w)" and "\<not> (w = 1 \<and> r = rune_error)"
  shows "w = 4 \<and> w \<le> length (b # s) \<and> r < 0x110000 \<and> encode_rune r = take w (b # s)"
proof -
  obtain b1 b2 b3 t where s: "s = b1 # b2 # b3 # t"
    "r = (b - 0xF0) * 262144 + (b1 - 0x80) * 4096 + (b2 - 0x80) * 64 + (b3 - 0x80)" "w = 4"
    and r1: "in_range (if b = 0xF0 then 0x90 else 0x80) (if b = 0xF4 then 0x8F else 0xBF) b1"
    and r2: "in_range 0x80 0xBF b2" and r3: "in_range 0x80 0xBF b3"
    using assms(2,3) unfolding decode_rune_cases(4) [OF assms(1)] by (auto split: list.splits if_splits)
  have r1': "in_range 0x80 0xBF b1" and lo: "b = 0xF0 \<Longrightarrow> 0x90 \<le> b1" and hi: "b = 0xF4 \<Longrightarrow> b1 \<le> 0x8F"
    using r1 by (auto simp: in_range_def split: if_splits)
  obtain x y z u where b: "b = 0xF0 + x" "0xF0 + x \<le> 0xF4" and b1: "b1 = 0x80 + y" "0x80 + y \<le> 0xBF"
    and b2: "b2 = 0x80 + z" "0x80 + z \<le> 0xBF" and b3: "b3 = 0x80 + u" "0x80 + u \<le> 0xBF"
    using in_range_offset [OF assms(1)] in_range_offset [OF r1'] in_range_offset [OF r2]
      in_range_offset [OF r3] by blast
  have r: "r = x * 262144 + y * 4096 + z * 64 + u" unfolding s(2) b(1) b1(1) b2(1) b3(1) by simp
  have "encode_rune (x * 262144 + y * 4096 + z * 64 + u) = [0xF0 + x, 0x80 + y, 0x80 + z, 0x80 + u]"
    by (rule encode_4) (use b b1 b2 b3 lo in simp_all)
  moreover have "x = 4 \<Longrightarrow> y \<le> 15" using b b1 hi by simp
  then have "r < 0x110000" using b b1 b2 b3 unfolding r by (cases "x = 4") simp_all
  ultimately show ?thesis using b b1 b2 b3 s(1,3) r by simp
qed

lemma encode_decode_rune:
  assumes "decode_rune (b # s) = (r, w)" and "\<not> (w = 1 \<and> r = rune_error)"
  shows "1 \<le> w \<and> w \<le> length (b # s) \<and> r < 0x110000 \<and> encode_rune r = take w (b # s)"
proof -
  consider "b < 0x80" | "in_range 0xC2 0xDF b" | "in_range 0xE0 0xEF b" | "in_range 0xF0 0xF4 b"
    | "\<not> b < 0x80" "\<not> in_range 0xC2 0xDF b" "\<not> in_range 0xE0 0xEF b" "\<not> in_range 0xF0 0xF4 b" by blast
  then show ?thesis
  proof cases
    case 1
    then have "r = b" "w = 1" using assms(1) by (simp_all add: decode_rune_cases(1))
    then show ?thesis using 1 by (simp add: encode_rune_def)
  next
    case 2
    from encode_decode_2 [OF 2 assms] show ?thesis by simp
  next
    case 3
    from encode_decode_3 [OF 3 assms] show ?thesis by simp
  next
    case 4
    from encode_decode_4 [OF 4 assms] show ?thesis by simp
  next
    case 5
    then show ?thesis using assms by (simp add: decode_rune_cases(5))
  qed
qed

lemma unquote_quote_body:
  "\<forall>b \<in> set s. b < 256 \<Longrightarrow> unquote_body (quote_body ip s @ [34]) = Some s"
proof (induction ip s rule: quote_body.induct)
  case (1 ip)
  show ?case by (simp add: quote_body.simps unquote_escapes)
next
  case (2 ip b s)
  obtain r w where d: "decode_rune (b # s) = (r, w)" by (cases "decode_rune (b # s)")
  show ?case
  proof (cases "w = 1 \<and> r = rune_error")
    case True
    have "unquote_body (quote_body ip s @ [34]) = Some s"
      using "2.IH"(1) d True "2.prems" by simp
    moreover have "b div 16 < 16" using "2.prems" by (simp add: less_mult_imp_div_less)
    then have "hex_number [hex_digit (b div 16), hex_digit (b mod 16)] = b" by (simp add: hex_number_def)
    ultimately show ?thesis using d True by (simp add: quote_body.simps(2) unquote_escapes)
  next
    case False
    note e = encode_decode_rune [OF d False]
    have "unquote_body (quote_body ip (drop (w - 1) s) @ [34]) = Some (drop (w - 1) s)"
      using "2.IH"(2) d False "2.prems" by (auto dest: in_set_dropD)
    moreover have "take w (b # s) @ drop (w - 1) s = b # s"
      using e by (cases w) auto
    moreover have "quote_body ip (b # s) = escape_rune ip r @ quote_body ip (drop (w - 1) s)"
      unfolding quote_body.simps(2) d prod.case if_not_P [OF False] by (rule refl)
    ultimately show ?thesis using e unquote_escape [of r ip "quote_body ip (drop (w - 1) s) @ [34]"] by simp
  qed
qed

lemma escape_bytes: "r < 0x110000 \<Longrightarrow> \<forall>b \<in> set (escape_rune ip r). b < 256 \<and> b \<noteq> 10"
proof -
  assume r: "r < 0x110000"
  have h: "hex_digit n < 256" "hex_digit n \<noteq> 10" if "n < 16" for n using that by (auto simp: hex_digit_def)
  have e: "\<forall>b \<in> set (encode_rune r). b < 256"
    using r less_mult_imp_div_less [of r 5 262144] less_mult_imp_div_less [of r 16 4096]
      less_mult_imp_div_less [of r 32 64] by (auto simp: encode_rune_def)
  show ?thesis
  proof (cases "is_print ip r")
    case True
    then have "10 \<notin> set (encode_rune r)"
      using encode_rune_high [of r] by (cases "r < 0x80") (auto simp: is_print_def encode_rune_def)
    then show ?thesis using True e by (auto simp: escape_rune_def)
  next
    case False
    then show ?thesis using r by (auto simp: escape_rune_def h)
  qed
qed

lemma quote_body_bytes: "\<forall>b \<in> set s. b < 256 \<Longrightarrow> \<forall>b \<in> set (quote_body ip s). b < 256 \<and> b \<noteq> 10"
proof (induction ip s rule: quote_body.induct)
  case (2 ip b s)
  obtain r w where d: "decode_rune (b # s) = (r, w)" by (cases "decode_rune (b # s)")
  have h: "hex_digit (b div 16) < 256 \<and> hex_digit (b div 16) \<noteq> 10"
    "hex_digit (b mod 16) < 256 \<and> hex_digit (b mod 16) \<noteq> 10"
    using "2.prems" by (auto simp: hex_digit_def)
  show ?case
  proof (cases "w = 1 \<and> r = rune_error")
    case True
    then show ?thesis using "2.IH"(1) d "2.prems" h by (simp add: quote_body.simps(2))
  next
    case False
    then have "\<forall>b \<in> set (quote_body ip (drop (w - 1) s)). b < 256 \<and> b \<noteq> 10"
      using "2.IH"(2) d "2.prems" by (auto dest: in_set_dropD)
    moreover have "quote_body ip (b # s) = escape_rune ip r @ quote_body ip (drop (w - 1) s)"
      unfolding quote_body.simps(2) d prod.case if_not_P [OF False] by (rule refl)
    moreover have "r < 0x110000" using encode_decode_rune [OF d False] by simp
    ultimately show ?thesis using escape_bytes [of r ip] by auto
  qed
qed (simp add: quote_body.simps)

lemma of_char_bytes: "\<forall>b \<in> set (map of_char s :: nat list). b < 256"
  by auto

lemma char_list_id: "\<forall>b \<in> set bs. b < 256 \<Longrightarrow> map (of_char :: char \<Rightarrow> nat) (map char_of bs) = bs"
  by (induction bs) auto

lemma unquote_quote: "unquote (quote ip s) = Some s"
proof -
  let ?b = "[34] @ quote_body ip (map of_char s) @ [34 :: nat]"
  have "map of_char (quote ip s) = ?b"
    unfolding quote_def
    by (rule char_list_id) (use quote_body_bytes [OF of_char_bytes, of ip s] in auto)
  then show ?thesis
    using unquote_quote_body [OF of_char_bytes, of ip s] by (simp add: unquote_def comp_def)
qed

lemma quote_no_newline: "CHR 0x0A \<notin> set (quote ip s)"
proof -
  let ?b = "[34] @ quote_body ip (map of_char s) @ [34 :: nat]"
  have b: "\<forall>b \<in> set ?b. b < 256 \<and> b \<noteq> 10" using quote_body_bytes [OF of_char_bytes, of ip s] by auto
  then have "\<forall>b \<in> set ?b. char_of b \<noteq> CHR 0x0A" using char_of_newline by blast
  then show ?thesis unfolding quote_def set_map by (metis imageE)
qed

end
