(* ===== verification/Snapshot.thy ===== *)
theory Snapshot
  imports Bucket Go_Strconv
begin

section \<open>Snapshots and their merging (\<^verbatim>\<open>snapshot.go\<close>)\<close>

text \<open>
  A snapshot is what an estimator shows at one moment: its settings and, per group key (key 0 without
  grouping), the label values and a sketch.  Snapshots of the same estimator taken on several nodes
  carry the same id and are merged by a selector node (\<^verbatim>\<open>snapshots.add\<close>).  \<^verbatim>\<open>decodeSnapshots\<close> reuses one
  snapshot for a whole gob stream, and \<^verbatim>\<open>sketchesPool\<close> recycles the sketches \<^verbatim>\<open>toSnapshot\<close> merges into.
\<close>

record snapshot_sketch =
  ss_values :: "string list"
  ss_sketch :: sketch

record snapshot =
  sn_id :: string
  sn_interval :: duration
  sn_calculate_churn :: bool
  sn_labels :: "(string, string) gomap"
  sn_filter :: string
  sn_group_by :: "string list"
  sn_group_limit :: int
  sn_group_reject_size :: int
  sn_min_cardinality :: int
  sn_sketches :: "(u64, snapshot_sketch) gomap"

definition new_snapshot :: snapshot where
  "new_snapshot =
     \<lparr>sn_id = [], sn_interval = 0, sn_calculate_churn = False, sn_labels = [], sn_filter = [],
      sn_group_by = [], sn_group_limit = 0, sn_group_reject_size = 0, sn_min_cardinality = 0,
      sn_sketches = []\<rparr>"

definition sn_reset :: "snapshot \<Rightarrow> snapshot" where
  "sn_reset s =
     s\<lparr>sn_id := [], sn_group_limit := 0, sn_group_reject_size := 0, sn_interval := 0,
       sn_calculate_churn := False, sn_filter := [], sn_group_by := [], sn_min_cardinality := 0,
       sn_labels := [], sn_sketches := []\<rparr>"

subsection \<open>The id of an estimator\<close>

definition labels_key :: "(string, string) gomap \<Rightarrow> string" where
  "labels_key labels =
     concat (map (\<lambda>k. k @ ''='' @ str_index labels k @ [CHR 0x00]) (sort (map fst labels)))"

definition estimator_id :: "(string, string) gomap \<Rightarrow> string list \<Rightarrow> duration \<Rightarrow> string \<Rightarrow> string" where
  "estimator_id labels group_by interval flt =
     (let group_by_key = (if group_by = [] then ''__global__'' else join '','' group_by)
      in CHR 0x00 # ''labels='' @ labels_key labels
         @ CHR 0x00 # ''group_by='' @ group_by_key
         @ CHR 0x00 # ''interval='' @ duration_string interval
         @ CHR 0x00 # ''filter='' @ flt)"

subsection \<open>Merging\<close>

text \<open>
  One round of the loop over \<^verbatim>\<open>other.Sketches\<close>.  The error of \<^verbatim>\<open>Merge\<close> is ignored; the existing sketch
  is then left as it is.  A new key gets a clone of the sketch, which as a value is the sketch itself.
\<close>

definition merge_entry ::
  "(u64, snapshot_sketch) gomap \<Rightarrow> u64 \<times> snapshot_sketch \<Rightarrow> (u64, snapshot_sketch) gomap" where
  "merge_entry m kv =
     (case map_of m (fst kv) of
        Some existing \<Rightarrow>
          (case sk_merge (ss_sketch existing) (Some (ss_sketch (snd kv))) of
             Inl _ \<Rightarrow> m
           | Inr sk \<Rightarrow> AList.update (fst kv) (existing\<lparr>ss_sketch := sk\<rparr>) m)
      | None \<Rightarrow>
          AList.update (fst kv)
            \<lparr>ss_values = ss_values (snd kv), ss_sketch = ss_sketch (snd kv)\<rparr> m)"

definition merge_min_cardinality :: "int \<Rightarrow> int \<Rightarrow> int" where
  "merge_min_cardinality a b = (if a < 0 \<or> b < 0 then - 1 else max a b)"

definition sn_merge :: "snapshot \<Rightarrow> snapshot \<Rightarrow> go_panic + snapshot" where
  "sn_merge s other =
     (if sn_id s \<noteq> [] \<and> sn_id s \<noteq> sn_id other
      then Inl (BugPanic ''merge snapshots must have the same id'')
      else Inr (s\<lparr>
        sn_sketches := foldl merge_entry (sn_sketches s) (sn_sketches other),
        sn_min_cardinality := merge_min_cardinality (sn_min_cardinality s) (sn_min_cardinality other),
        sn_id := sn_id other,
        sn_interval := sn_interval other,
        sn_calculate_churn := sn_calculate_churn s \<or> sn_calculate_churn other,
        sn_filter := sn_filter other,
        sn_labels := foldl (\<lambda>m kv. AList.update (fst kv) (snd kv) m) (sn_labels s) (sn_labels other),
        sn_group_by := sn_group_by other,
        sn_group_limit := sn_group_limit other,
        sn_group_reject_size := wrap_i64 (sn_group_reject_size s + sn_group_reject_size other)\<rparr>))"

text \<open>\<^verbatim>\<open>snapshots.add\<close> on the map \<^verbatim>\<open>m\<close>; a snapshot without id gets one.\<close>

type_synonym snapshots = "(string, snapshot) gomap"

definition sn_with_id :: "snapshot \<Rightarrow> snapshot" where
  "sn_with_id s =
     (if sn_id s = []
      then s\<lparr>sn_id := estimator_id (sn_labels s) (sn_group_by s) (sn_interval s) (sn_filter s)\<rparr>
      else s)"

definition snapshots_add :: "snapshots \<Rightarrow> snapshot \<Rightarrow> go_panic + snapshots" where
  "snapshots_add m new_s0 =
     (let new_s = sn_with_id new_s0 in
      case map_of m (sn_id new_s) of
        Some s \<Rightarrow> (case sn_merge s new_s of
                     Inl p \<Rightarrow> Inl p
                   | Inr s' \<Rightarrow> Inr (AList.update (sn_id new_s) s' m))
      | None \<Rightarrow> (case sn_merge new_snapshot new_s of
                   Inl p \<Rightarrow> Inl p
                 | Inr s' \<Rightarrow> Inr (AList.update (sn_id s') s' m)))"

subsection \<open>Decoding a stream\<close>

text \<open>
  \<^verbatim>\<open>gob\<close> leaves a field of the target as it is when the sent value is the zero value, replaces a slice,
  and adds the entries of a map to the target's map.  A stream is a list of messages, ended by EOF or
  by an error.
\<close>

definition gob_decode :: "snapshot \<Rightarrow> snapshot \<Rightarrow> snapshot" where
  "gob_decode msg s =
     \<lparr>sn_id = (if sn_id msg = [] then sn_id s else sn_id msg),
      sn_interval = (if sn_interval msg = 0 then sn_interval s else sn_interval msg),
      sn_calculate_churn = (if sn_calculate_churn msg then True else sn_calculate_churn s),
      sn_labels = foldl (\<lambda>m kv. AList.update (fst kv) (snd kv) m) (sn_labels s) (sn_labels msg),
      sn_filter = (if sn_filter msg = [] then sn_filter s else sn_filter msg),
      sn_group_by = (if sn_group_by msg = [] then sn_group_by s else sn_group_by msg),
      sn_group_limit = (if sn_group_limit msg = 0 then sn_group_limit s else sn_group_limit msg),
      sn_group_reject_size =
        (if sn_group_reject_size msg = 0 then sn_group_reject_size s else sn_group_reject_size msg),
      sn_min_cardinality =
        (if sn_min_cardinality msg = 0 then sn_min_cardinality s else sn_min_cardinality msg),
      sn_sketches = foldl (\<lambda>m kv. AList.update (fst kv) (snd kv) m) (sn_sketches s) (sn_sketches msg)\<rparr>"

datatype 'e gob_item = GobMessage snapshot | GobEof | GobError 'e

fun decode_loop :: "('s \<Rightarrow> snapshot \<Rightarrow> 's) \<Rightarrow> 'e gob_item list \<Rightarrow> snapshot \<Rightarrow> 's \<Rightarrow> 's \<times> 'e option" where
  "decode_loop cb [] s st = (st, None)"
| "decode_loop cb (GobEof # _) s st = (st, None)"
| "decode_loop cb (GobError e # _) s st = (st, Some e)"
| "decode_loop cb (GobMessage msg # rest) s st =
     (let s' = gob_decode msg (sn_reset s) in decode_loop cb rest s' (cb st s'))"

definition decode_snapshots :: "('s \<Rightarrow> snapshot \<Rightarrow> 's) \<Rightarrow> 'e gob_item list \<Rightarrow> 's \<Rightarrow> 's \<times> 'e option" where
  "decode_snapshots cb items st = decode_loop cb items new_snapshot st"

subsection \<open>The sketch pool\<close>

record sketches_pool =
  skp_precision :: nat
  skp_sparse :: "sketch list"
  skp_dense :: "sketch list"

definition must_new_sketches :: "nat \<Rightarrow> nat \<Rightarrow> go_panic + sketch list" where
  "must_new_sketches n precision =
     fold_err (\<lambda>sks _. map_sum id (\<lambda>sk. sks @ [sk]) (must_new_sketch precision True)) [] [0..<n]"

definition new_sketches_pool :: "nat \<Rightarrow> int \<Rightarrow> go_panic + sketches_pool" where
  "new_sketches_pool precision sz =
     (if sz < 0 then Inl (BugPanic ''makeslice: cap out of range'')
      else map_sum id (\<lambda>sks. \<lparr>skp_precision = precision, skp_sparse = sks, skp_dense = []\<rparr>)
             (must_new_sketches (nat sz) precision))"

definition get_sparse :: "sketches_pool \<Rightarrow> go_panic + sketch \<times> sketches_pool" where
  "get_sparse p =
     (if skp_sparse p = [] then map_sum id (\<lambda>sk. (sk, p)) (must_new_sketch (skp_precision p) True)
      else Inr (last (skp_sparse p), p\<lparr>skp_sparse := butlast (skp_sparse p)\<rparr>))"

definition get_dense :: "sketches_pool \<Rightarrow> go_panic + sketch \<times> sketches_pool" where
  "get_dense p =
     (if skp_dense p = [] then map_sum id (\<lambda>sk. (sk, p)) (must_new_sketch (skp_precision p) False)
      else Inr (last (skp_dense p), p\<lparr>skp_dense := butlast (skp_dense p)\<rparr>))"

definition get_for_merge :: "sketches_pool \<Rightarrow> sketch \<Rightarrow> go_panic + sketch \<times> sketches_pool" where
  "get_for_merge p other = (if sk_sparse other then get_sparse p else get_dense p)"

definition pool_put :: "sketches_pool \<Rightarrow> sketch \<Rightarrow> sketches_pool" where
  "pool_put p sk0 =
     (let sk = sk_reset sk0 in
      if sk_sparse sk then p\<lparr>skp_sparse := skp_sparse p @ [sk]\<rparr>
      else p\<lparr>skp_dense := skp_dense p @ [sk]\<rparr>)"

subsection \<open>What a snapshot shows\<close>

definition ss_hits :: "(u64, snapshot_sketch) gomap \<Rightarrow> u64 \<Rightarrow> (nat \<times> nat) set" where
  "ss_hits m k = opt_hits (map_option ss_sketch (map_of m k))"

definition sketches_ok :: "nat \<Rightarrow> (u64, snapshot_sketch) gomap \<Rightarrow> bool" where
  "sketches_ok p m \<longleftrightarrow> map_ok m \<and> (\<forall>ss \<in> snd ` set m. sketch_ok p (ss_sketch ss))"

definition snapshot_ok :: "nat \<Rightarrow> snapshot \<Rightarrow> bool" where
  "snapshot_ok p s \<longleftrightarrow> sketches_ok p (sn_sketches s) \<and> map_ok (sn_labels s)"

lemma ss_hits_Nil [simp]: "ss_hits [] k = {}"
  by (simp add: ss_hits_def)

lemma ss_hits_Some: "map_of m k = Some ss \<Longrightarrow> ss_hits m k = sk_hits (ss_sketch ss)"
  by (simp add: ss_hits_def)

lemma ss_hits_None: "map_of m k = None \<Longrightarrow> ss_hits m k = {}"
  by (simp add: ss_hits_def)

lemma ss_hits_update:
  "ss_hits (AList.update k ss m) j = (if j = k then sk_hits (ss_sketch ss) else ss_hits m j)"
  by (simp add: ss_hits_def map_of_update)

lemma sketches_ok_Nil [simp]: "sketches_ok p []"
  by (simp add: sketches_ok_def)

lemma set_snd_alist_update: "snd ` set (AList.update k v m) \<subseteq> insert v (snd ` set m)"
  by (induction m) auto

lemma sketches_ok_update:
  "sketches_ok p m \<Longrightarrow> sketch_ok p (ss_sketch ss) \<Longrightarrow> sketches_ok p (AList.update k ss m)"
  using set_snd_alist_update [of k ss m] unfolding sketches_ok_def by (blast intro: map_ok_update)

lemma sketches_ok_lookup: "sketches_ok p m \<Longrightarrow> map_of m k = Some ss \<Longrightarrow> sketch_ok p (ss_sketch ss)"
  unfolding sketches_ok_def using map_of_SomeD by fastforce

definition entry_hits :: "u64 \<times> snapshot_sketch \<Rightarrow> u64 \<Rightarrow> (nat \<times> nat) set" where
  "entry_hits kv k = (if k = fst kv then sk_hits (ss_sketch (snd kv)) else {})"

lemma merge_entry_ok:
  assumes "sketches_ok p m" and "sketch_ok p (ss_sketch (snd kv))"
  shows "sketches_ok p (merge_entry m kv) \<and> (\<forall>k. ss_hits (merge_entry m kv) k = ss_hits m k \<union> entry_hits kv k)"
proof (cases "map_of m (fst kv)")
  case None
  then show ?thesis using assms
    by (auto simp: merge_entry_def ss_hits_update entry_hits_def ss_hits_None intro!: sketches_ok_update)
next
  case (Some ex)
  have ok: "sketch_ok p (ss_sketch ex)" by (rule sketches_ok_lookup [OF assms(1) Some])
  obtain r where r: "sk_merge (ss_sketch ex) (Some (ss_sketch (snd kv))) = Inr r" "sketch_ok p r"
    "sk_hits r = sk_hits (ss_sketch ex) \<union> sk_hits (ss_sketch (snd kv))"
    using sk_merge_refines [OF ok assms(2)] by blast
  then show ?thesis using Some assms(1) ss_hits_Some [OF Some]
    by (auto simp: merge_entry_def ss_hits_update entry_hits_def intro!: sketches_ok_update)
qed

interpretation entries: accumulator "sketches_ok p" "\<lambda>kv. sketch_ok p (ss_sketch (snd kv))"
  ss_hits entry_hits "\<lambda>m kv. Inr (merge_entry m kv) :: go_panic + _" for p
  by unfold_locales (use merge_entry_ok in blast)

lemma map_keys_merge_entry: "map_keys (merge_entry m kv) = insert (fst kv) (map_keys m)"
proof (cases "map_of m (fst kv)")
  case (Some ex)
  then have "fst kv \<in> map_keys m" by (rule map_of_in_keys)
  then show ?thesis using Some
    by (auto simp: merge_entry_def map_keys_update insert_absorb split: sum.splits)
qed (simp add: merge_entry_def map_keys_update)

lemma map_keys_merge: "map_keys (foldl merge_entry m kvs) = map_keys m \<union> map_keys kvs"
  by (induction kvs arbitrary: m) (auto simp: map_keys_merge_entry)

lemma Union_entry_hits: "map_ok m \<Longrightarrow> (\<Union>kv \<in> set m. entry_hits kv k) = ss_hits m k"
proof (induction m)
  case (Cons kv m)
  have "map_ok m" using Cons.prems by (simp add: map_ok_def)
  moreover have "k = fst kv \<Longrightarrow> map_of m k = None" using Cons.prems by (simp add: map_ok_def map_of_eq_None_iff)
  ultimately show ?case using Cons.IH by (cases kv) (auto simp: ss_hits_def entry_hits_def)
qed simp

lemma merge_entries_ok:
  assumes "sketches_ok p m" and "sketches_ok p kvs"
  shows "sketches_ok p (foldl merge_entry m kvs) \<and> (\<forall>k. ss_hits (foldl merge_entry m kvs) k = ss_hits m k \<union> ss_hits kvs k)"
  using entries.run_ok [OF assms(1), of kvs] assms(2)
  by (auto simp: fold_err_pure Union_entry_hits sketches_ok_def)

lemma map_ok_fold_update: "map_ok m \<Longrightarrow> map_ok (foldl (\<lambda>m kv. AList.update (fst kv) (snd kv) m) m kvs)"
  by (induction kvs arbitrary: m) (auto intro: map_ok_update)

lemma map_of_fold_update:
  "map_ok kvs \<Longrightarrow> map_of (foldl (\<lambda>m kv. AList.update (fst kv) (snd kv) m) m kvs) = map_of m ++ map_of kvs"
proof (induction kvs arbitrary: m)
  case (Cons kv kvs)
  have "map_ok kvs" and "map_of kvs (fst kv) = None"
    using Cons.prems by (simp_all add: map_ok_def map_of_eq_None_iff)
  then show ?case using Cons.IH [of "AList.update (fst kv) (snd kv) m"]
    by (cases kv) (auto simp: fun_eq_iff map_add_def map_of_update split: option.splits)
qed simp

lemma sn_merge_ok:
  assumes "snapshot_ok p s" and "snapshot_ok p x" and "sn_id s = [] \<or> sn_id s = sn_id x"
  shows "\<exists>s'. sn_merge s x = Inr s' \<and> snapshot_ok p s' \<and> sn_id s' = sn_id x
    \<and> (\<forall>k. ss_hits (sn_sketches s') k = ss_hits (sn_sketches s) k \<union> ss_hits (sn_sketches x) k)"
  using assms merge_entries_ok [of p "sn_sketches s" "sn_sketches x"]
  by (auto simp: sn_merge_def snapshot_ok_def intro: map_ok_fold_update)

lemma snapshot_ok_new [simp]: "snapshot_ok p new_snapshot" "sn_sketches new_snapshot = []" "sn_id new_snapshot = []"
  by (simp_all add: snapshot_ok_def new_snapshot_def)

subsection \<open>The store of a selector node\<close>

text \<open>
  \<open>P\<close> gives the precision that the sketches under an id have.
\<close>

definition snapshots_ok :: "(string \<Rightarrow> nat) \<Rightarrow> snapshots \<Rightarrow> bool" where
  "snapshots_ok P m \<longleftrightarrow>
     map_ok m \<and> (\<forall>(i, s) \<in> set m. sn_id s = i \<and> i \<noteq> [] \<and> snapshot_ok (P i) s)"

definition snapshots_hits :: "snapshots \<Rightarrow> string \<times> u64 \<Rightarrow> (nat \<times> nat) set" where
  "snapshots_hits m ik =
     (case map_of m (fst ik) of None \<Rightarrow> {} | Some s \<Rightarrow> ss_hits (sn_sketches s) (snd ik))"

definition snapshot_valid :: "(string \<Rightarrow> nat) \<Rightarrow> snapshot \<Rightarrow> bool" where
  "snapshot_valid P s = snapshot_ok (P (sn_id (sn_with_id s))) s"

definition snapshot_hits :: "snapshot \<Rightarrow> string \<times> u64 \<Rightarrow> (nat \<times> nat) set" where
  "snapshot_hits s ik = (if fst ik = sn_id (sn_with_id s) then ss_hits (sn_sketches s) (snd ik) else {})"

lemma sn_with_id_simps [simp]:
  "sn_id (sn_with_id s) \<noteq> []" "sn_sketches (sn_with_id s) = sn_sketches s"
  "snapshot_ok p (sn_with_id s) = snapshot_ok p s"
  by (auto simp: sn_with_id_def estimator_id_def Let_def snapshot_ok_def)

lemma snapshots_ok_lookup:
  "snapshots_ok P m \<Longrightarrow> map_of m i = Some s \<Longrightarrow> sn_id s = i \<and> snapshot_ok (P i) s"
  unfolding snapshots_ok_def by (blast dest: map_of_SomeD)

lemma snapshots_ok_update:
  assumes "snapshots_ok P m" and "snapshot_ok (P (sn_id s)) s" and "sn_id s \<noteq> []"
  shows "snapshots_ok P (AList.update (sn_id s) s m)"
proof -
  have sub: "set (AList.update i s m) \<subseteq> insert (i, s) (set m)" for i
    by (induction m) auto
  have "sn_id s' = i \<and> i \<noteq> [] \<and> snapshot_ok (P i) s'" if "(i, s') \<in> set (AList.update (sn_id s) s m)" for i s'
    using subsetD [OF sub that] assms by (auto simp: snapshots_ok_def)
  moreover have "map_ok (AList.update (sn_id s) s m)"
    using assms(1) by (auto simp: snapshots_ok_def intro: map_ok_update)
  ultimately show ?thesis unfolding snapshots_ok_def by blast
qed

lemma snapshots_add_ok:
  assumes "snapshots_ok P m" and "snapshot_valid P x"
  shows "\<exists>m'. snapshots_add m x = Inr m' \<and> snapshots_ok P m'
    \<and> (\<forall>ik. snapshots_hits m' ik = snapshots_hits m ik \<union> snapshot_hits x ik)"
proof -
  let ?x = "sn_with_id x"
  have ok: "snapshot_ok (P (sn_id ?x)) ?x" using assms(2) by (simp add: snapshot_valid_def)
  have *: ?thesis if s: "sn_merge old ?x = Inr s'" "snapshot_ok (P (sn_id ?x)) s'" "sn_id s' = sn_id ?x"
    "\<forall>k. ss_hits (sn_sketches s') k = ss_hits (sn_sketches old) k \<union> ss_hits (sn_sketches x) k"
    and m: "snapshots_add m x = Inr (AList.update (sn_id ?x) s' m)"
    and old: "\<forall>k. ss_hits (sn_sketches old) k = snapshots_hits m (sn_id ?x, k)" for old s'
  proof -
    have "snapshots_ok P (AList.update (sn_id s') s' m)"
      by (rule snapshots_ok_update [OF assms(1)]) (use s in simp_all)
    then show ?thesis using m s old
      by (auto simp: snapshots_hits_def snapshot_hits_def map_of_update)
  qed
  show ?thesis
  proof (cases "map_of m (sn_id ?x)")
    case None
    obtain s' where s': "sn_merge new_snapshot ?x = Inr s'" "snapshot_ok (P (sn_id ?x)) s'" "sn_id s' = sn_id ?x"
      "\<forall>k. ss_hits (sn_sketches s') k = ss_hits (sn_sketches new_snapshot) k \<union> ss_hits (sn_sketches x) k"
      using sn_merge_ok [of "P (sn_id ?x)" new_snapshot ?x] ok by auto
    from s' show ?thesis
      by (rule *) (use None s' in \<open>simp_all add: snapshots_add_def snapshots_hits_def Let_def\<close>)
  next
    case (Some s)
    obtain s' where s': "sn_merge s ?x = Inr s'" "snapshot_ok (P (sn_id ?x)) s'" "sn_id s' = sn_id ?x"
      "\<forall>k. ss_hits (sn_sketches s') k = ss_hits (sn_sketches s) k \<union> ss_hits (sn_sketches x) k"
      using sn_merge_ok [of "P (sn_id ?x)" s ?x] ok snapshots_ok_lookup [OF assms(1) Some] by auto
    from s' show ?thesis
      by (rule *) (use Some s' in \<open>simp_all add: snapshots_add_def snapshots_hits_def Let_def\<close>)
  qed
qed

interpretation snaps: accumulator "snapshots_ok P" "snapshot_valid P" snapshots_hits snapshot_hits snapshots_add
  for P
  by unfold_locales (use snapshots_add_ok in blast)

lemma snapshots_add_all:
  assumes "\<forall>s \<in> set xs. snapshot_valid P s"
  shows "\<exists>m. fold_err snapshots_add [] xs = Inr m \<and> snapshots_ok P m
    \<and> (\<forall>i k. snapshots_hits m (i, k) = (\<Union>s \<in> set xs. snapshot_hits s (i, k)))"
proof -
  have "snapshots_ok P []" by (simp add: snapshots_ok_def)
  from snaps.run_ok [OF this assms] show ?thesis by (simp add: snapshots_hits_def)
qed

subsection \<open>Sketches of different precisions\<close>

text \<open>
  The id of an estimator says nothing about the precision of its sketches, so nodes that run the same stream with
  different precisions send sketches that do not merge.  What happens to the sketch under one id and key does not
  depend on the others: each sketch that arrives is merged into the one that is there, or ignored.
\<close>

definition absorb :: "sketch option \<Rightarrow> sketch \<Rightarrow> sketch option" where
  "absorb old sk =
     (case old of
        None \<Rightarrow> Some sk
      | Some ex \<Rightarrow> Some (case sk_merge ex (Some sk) of Inl _ \<Rightarrow> ex | Inr r \<Rightarrow> r))"

definition sketch_at :: "(u64, snapshot_sketch) gomap \<Rightarrow> u64 \<Rightarrow> sketch option" where
  "sketch_at m k = map_option ss_sketch (map_of m k)"

definition stored :: "snapshots \<Rightarrow> string \<times> u64 \<Rightarrow> sketch option" where
  "stored m ik = (case map_of m (fst ik) of None \<Rightarrow> None | Some s \<Rightarrow> sketch_at (sn_sketches s) (snd ik))"

text \<open>The sketches a snapshot, or a list of them, brings for an id and a key.\<close>

definition brings :: "snapshot \<Rightarrow> string \<times> u64 \<Rightarrow> sketch option" where
  "brings s ik = (if sn_id (sn_with_id s) = fst ik then sketch_at (sn_sketches s) (snd ik) else None)"

definition received :: "snapshot list \<Rightarrow> string \<times> u64 \<Rightarrow> sketch list" where
  "received xs ik = List.map_filter (\<lambda>s. brings s ik) xs"

lemma received_simps [simp]: "received [] ik = []"
  "received (s # xs) ik = (case brings s ik of None \<Rightarrow> received xs ik | Some sk \<Rightarrow> sk # received xs ik)"
  by (simp_all add: received_def map_filter_simps split: option.splits)

lemma received_set: "sk \<in> set (received xs ik) \<longleftrightarrow> (\<exists>s \<in> set xs. brings s ik = Some sk)"
  by (induction xs) (auto split: option.splits)

lemma sketch_at_merge_entry:
  "sketch_at (merge_entry m kv) k = (if k = fst kv then absorb (sketch_at m k) (ss_sketch (snd kv)) else sketch_at m k)"
  by (auto simp: sketch_at_def merge_entry_def absorb_def map_of_update split: option.splits sum.splits)

lemma sketch_at_merge:
  "map_ok kvs \<Longrightarrow> sketch_at (foldl merge_entry m kvs) k
     = (case sketch_at kvs k of None \<Rightarrow> sketch_at m k | Some sk \<Rightarrow> absorb (sketch_at m k) sk)"
proof (induction kvs arbitrary: m)
  case Nil
  then show ?case by (simp add: sketch_at_def)
next
  case (Cons kv kvs)
  have kvs: "map_ok kvs" "sketch_at kvs (fst kv) = None" using Cons.prems by (simp_all add: map_ok_def map_of_eq_None_iff sketch_at_def)
  have c: "sketch_at (kv # kvs) k = (if k = fst kv then Some (ss_sketch (snd kv)) else sketch_at kvs k)"
    by (cases kv) (simp add: sketch_at_def)
  show ?case using Cons.IH [OF kvs(1), of "merge_entry m kv"] kvs(2) by (auto simp: sketch_at_merge_entry c split: option.splits)
qed

text \<open>The store is keyed by the ids of its snapshots.\<close>

definition ids_ok :: "snapshots \<Rightarrow> bool" where
  "ids_ok m \<longleftrightarrow> (\<forall>i s. map_of m i = Some s \<longrightarrow> sn_id s = i \<and> i \<noteq> [])"

lemma snapshots_add_stored:
  assumes "ids_ok m" and "map_ok (sn_sketches x)"
  shows "\<exists>m'. snapshots_add m x = Inr m' \<and> ids_ok m'
    \<and> (\<forall>ik. stored m' ik = (case brings x ik of None \<Rightarrow> stored m ik | Some sk \<Rightarrow> absorb (stored m ik) sk))"
proof -
  let ?x = "sn_with_id x"
  have *: ?thesis if s: "sn_merge old ?x = Inr s'" and m: "snapshots_add m x = Inr (AList.update (sn_id ?x) s' m)"
    and old: "\<forall>k. sketch_at (sn_sketches old) k = stored m (sn_id ?x, k)" for old s'
  proof -
    have s': "sn_id s' = sn_id ?x" "sn_sketches s' = foldl merge_entry (sn_sketches old) (sn_sketches x)"
      using s by (auto simp: sn_merge_def split: if_splits)
    have "ids_ok (AList.update (sn_id ?x) s' m)" using assms(1) s'(1) by (auto simp: ids_ok_def map_of_update)
    moreover have "stored (AList.update (sn_id ?x) s' m) ik
        = (case brings x ik of None \<Rightarrow> stored m ik | Some sk \<Rightarrow> absorb (stored m ik) sk)" for ik
      using old sketch_at_merge [OF assms(2), of "sn_sketches old"] s'(2)
      by (cases ik) (auto simp: stored_def brings_def map_of_update split: option.splits)
    ultimately show ?thesis using m by blast
  qed
  show ?thesis
  proof (cases "map_of m (sn_id ?x)")
    case None
    obtain s' where s': "sn_merge new_snapshot ?x = Inr s'" "sn_id s' = sn_id ?x" by (auto simp: sn_merge_def)
    show ?thesis by (rule * [OF s'(1)]) (use None s' in \<open>simp_all add: snapshots_add_def stored_def Let_def sketch_at_def\<close>)
  next
    case (Some s)
    then have "sn_id s = sn_id ?x" using assms(1) by (simp add: ids_ok_def)
    then obtain s' where s': "sn_merge s ?x = Inr s'" by (auto simp: sn_merge_def)
    show ?thesis by (rule * [OF s']) (use Some s' in \<open>simp_all add: snapshots_add_def stored_def Let_def\<close>)
  qed
qed

lemma snapshots_add_received:
  assumes "ids_ok m" and "\<forall>s \<in> set xs. map_ok (sn_sketches s)"
  shows "\<exists>m'. fold_err snapshots_add m xs = Inr m' \<and> (\<forall>ik. stored m' ik = foldl absorb (stored m ik) (received xs ik))"
  using assms
proof (induction xs arbitrary: m)
  case (Cons x xs)
  obtain m1 where m1: "snapshots_add m x = Inr m1" "ids_ok m1"
    "\<forall>ik. stored m1 ik = (case brings x ik of None \<Rightarrow> stored m ik | Some sk \<Rightarrow> absorb (stored m ik) sk)"
    using snapshots_add_stored [of m x] Cons.prems by auto
  obtain m' where m': "fold_err snapshots_add m1 xs = Inr m'" "\<forall>ik. stored m' ik = foldl absorb (stored m1 ik) (received xs ik)"
    using Cons.IH [OF m1(2)] Cons.prems(2) by auto
  then show ?case using m1(1,3) by (auto split: option.splits)
qed simp

text \<open>Of the sketches received, those count that have the precision of the first one.\<close>

definition first_union :: "sketch list \<Rightarrow> (nat \<times> nat) set" where
  "first_union sks = \<Union> (sk_hits ` {sk \<in> set sks. sk_p sk = sk_p (hd sks)})"

definition well_made :: "sketch \<Rightarrow> bool" where
  "well_made sk \<longleftrightarrow> sketch_ok (sk_p sk) sk"

lemma well_madeI:
  assumes "sketch_ok p sk"
  shows "well_made sk"
proof -
  have "sk_p sk = p" using assms by (simp add: sketch_ok_def)
  then show ?thesis using assms by (simp add: well_made_def)
qed

lemma absorb_hits:
  assumes "well_made ex" and "well_made sk"
  shows "\<exists>r. absorb (Some ex) sk = Some r \<and> well_made r \<and> sk_p r = sk_p ex
    \<and> sk_hits r = sk_hits ex \<union> (if sk_p sk = sk_p ex then sk_hits sk else {})"
proof (cases "sk_p sk = sk_p ex")
  case True
  have ok: "sketch_ok (sk_p ex) ex" "sketch_ok (sk_p ex) sk" using assms True by (simp_all add: well_made_def)
  from sk_merge_refines [OF this] obtain r where "sk_merge ex (Some sk) = Inr r" "sketch_ok (sk_p ex) r"
    "sk_hits r = sk_hits ex \<union> sk_hits sk" by blast
  moreover have "sk_p r = sk_p ex" using \<open>sketch_ok (sk_p ex) r\<close> by (simp add: sketch_ok_def)
  ultimately show ?thesis using True by (simp add: absorb_def well_made_def)
next
  case False
  then show ?thesis using assms(1) by (simp add: absorb_def sk_merge_def)
qed

lemma absorb_all_hits:
  assumes "well_made ex" and "\<forall>sk \<in> set sks. well_made sk"
  shows "\<exists>r. foldl absorb (Some ex) sks = Some r \<and> well_made r \<and> sk_hits r = first_union (ex # sks)"
proof -
  have "\<exists>r. foldl absorb (Some ex) sks = Some r \<and> well_made r \<and> sk_p r = sk_p ex
      \<and> sk_hits r = sk_hits ex \<union> \<Union> (sk_hits ` {sk \<in> set sks. sk_p sk = sk_p ex})"
    using assms
  proof (induction sks arbitrary: ex)
    case (Cons sk sks)
    obtain r where r: "absorb (Some ex) sk = Some r" "well_made r" "sk_p r = sk_p ex"
      "sk_hits r = sk_hits ex \<union> (if sk_p sk = sk_p ex then sk_hits sk else {})"
      using absorb_hits [of ex sk] Cons.prems by auto
    have "{t \<in> set (sk # sks). sk_p t = sk_p ex} = (if sk_p sk = sk_p ex then {sk} else {}) \<union> {t \<in> set sks. sk_p t = sk_p ex}"
      by auto
    then show ?case using Cons.IH [OF r(2)] Cons.prems(2) r by (auto simp: Un_assoc)
  qed simp
  then show ?thesis by (auto simp: first_union_def)
qed

lemma stored_hits: "snapshots_hits m ik = opt_hits (stored m ik)"
  by (auto simp: snapshots_hits_def stored_def ss_hits_def sketch_at_def split: option.splits)

definition snapshot_wf :: "snapshot \<Rightarrow> bool" where
  "snapshot_wf s \<longleftrightarrow> map_ok (sn_sketches s) \<and> (\<forall>ss \<in> snd ` set (sn_sketches s). well_made (ss_sketch ss))"

lemma received_well_made:
  assumes "\<forall>s \<in> set xs. snapshot_wf s" and "sk \<in> set (received xs ik)"
  shows "well_made sk"
proof -
  obtain s ss where "s \<in> set xs" "map_of (sn_sketches s) (snd ik) = Some ss" "sk = ss_sketch ss"
    using assms(2) by (auto simp: received_set brings_def sketch_at_def split: if_splits)
  then show ?thesis using assms(1) map_of_SomeD unfolding snapshot_wf_def by fastforce
qed

lemma snapshots_add_first:
  assumes "\<forall>s \<in> set xs. snapshot_wf s"
  shows "\<exists>m. fold_err snapshots_add [] xs = Inr m \<and> (\<forall>ik. snapshots_hits m ik = first_union (received xs ik))"
proof -
  have "ids_ok []" "\<forall>s \<in> set xs. map_ok (sn_sketches s)" using assms by (simp_all add: ids_ok_def snapshot_wf_def)
  from snapshots_add_received [OF this] obtain m where m: "fold_err snapshots_add [] xs = Inr m"
    "\<And>ik. stored m ik = foldl absorb None (received xs ik)" by (auto simp: stored_def)
  have "snapshots_hits m ik = first_union (received xs ik)" for ik
  proof (cases "received xs ik")
    case Nil
    then show ?thesis using m(2) [of ik] by (simp add: stored_hits first_union_def)
  next
    case (Cons sk sks)
    have "\<forall>t \<in> set (sk # sks). well_made t" using received_well_made [OF assms] Cons by metis
    then obtain r where "foldl absorb (Some sk) sks = Some r" "sk_hits r = first_union (sk # sks)"
      using absorb_all_hits [of sk sks] by auto
    then show ?thesis using m(2) [of ik] Cons by (simp add: stored_hits absorb_def)
  qed
  then show ?thesis using m(1) by blast
qed

lemma snapshot_hits_brings: "snapshot_hits s ik = opt_hits (brings s ik)"
  by (auto simp: snapshot_hits_def brings_def ss_hits_def sketch_at_def)

text \<open>A snapshot that is valid for a choice of precisions is one in particular.\<close>

lemma snapshot_valid_wf: "snapshot_valid P s \<Longrightarrow> snapshot_wf s"
  unfolding snapshot_valid_def snapshot_ok_def sketches_ok_def snapshot_wf_def by (blast intro: well_madeI)

lemma brings_precision:
  assumes "snapshot_valid P s" and "brings s ik = Some sk"
  shows "sn_id (sn_with_id s) = fst ik" "sk_p sk = P (fst ik)" "snapshot_hits s ik = sk_hits sk"
proof -
  show i: "sn_id (sn_with_id s) = fst ik" using assms(2) by (simp add: brings_def split: if_splits)
  then obtain ss where ss: "map_of (sn_sketches s) (snd ik) = Some ss" "sk = ss_sketch ss"
    using assms(2) by (auto simp: brings_def sketch_at_def)
  have "sketches_ok (P (fst ik)) (sn_sketches s)" using assms(1) i by (simp add: snapshot_valid_def snapshot_ok_def)
  from sketches_ok_lookup [OF this ss(1)] show "sk_p sk = P (fst ik)" using ss(2) by (simp add: sketch_ok_def)
  show "snapshot_hits s ik = sk_hits sk" using assms(2) by (simp add: snapshot_hits_brings)
qed

text \<open>C15: A selector node that adds snapshots, in any order and with repetitions, never panics.  For every estimator id and every
  group key it ends with exactly the union of those of the received sketches that have the precision of the one received
  first; sketches of another precision are ignored.  So when the nodes run every id with one precision, it is the
  union of all that was received.\<close>

theorem selector_store_union:
  assumes "\<forall>s \<in> set xs. snapshot_wf s"
  shows "\<exists>m. fold_err snapshots_add [] xs = Inr m
    \<and> (\<forall>i k. snapshots_hits m (i, k) = first_union (received xs (i, k)))
    \<and> (\<forall>P. (\<forall>s \<in> set xs. snapshot_valid P s) \<longrightarrow>
          snapshots_ok P m \<and> (\<forall>i k. snapshots_hits m (i, k) = (\<Union>s \<in> set xs. snapshot_hits s (i, k))))"
  using snapshots_add_first [OF assms] snapshots_add_all [of xs] by (metis Inr_inject)

text \<open>Two nodes with the same precision and one with another: the second sketch is merged, the third is ignored.\<close>

theorem selector_store_union_witness:
  "\<exists>a b c m. new_sketch 4 True = Inr a \<and> new_sketch 4 False = Inr b \<and> new_sketch 5 True = Inr c
     \<and> fold_err snapshots_add [] (map (\<lambda>sk. new_snapshot\<lparr>sn_id := ''a'', sn_sketches := [(1, \<lparr>ss_values = [], ss_sketch = sk\<rparr>)]\<rparr>)
          [sk_insert_hash a 7, sk_insert_hash b 9, sk_insert_hash c 11]) = Inr m
     \<and> snapshots_hits m (''a'', 1) = fp_hits 4 7 \<union> fp_hits 4 9"
proof -
  obtain a b c where sk: "new_sketch 4 True = Inr a" "sketch_ok 4 a" "sk_hits a = {}" "new_sketch 4 False = Inr b" "sketch_ok 4 b"
    "sk_hits b = {}" "new_sketch 5 True = Inr c" "sketch_ok 5 c" "sk_hits c = {}"
    using new_sketch_ok [of 4 True] new_sketch_ok [of 4 False] new_sketch_ok [of 5 True] by auto
  let ?snap = "\<lambda>sk. new_snapshot\<lparr>sn_id := ''a'', sn_sketches := [(1, \<lparr>ss_values = [], ss_sketch = sk\<rparr>)]\<rparr>"
  define x y z where "x = sk_insert_hash a 7" and "y = sk_insert_hash b 9" and "z = sk_insert_hash c 11"
  have ok: "sketch_ok 4 x" "sketch_ok 4 y" "sketch_ok 5 z" and h: "sk_hits x = fp_hits 4 7" "sk_hits y = fp_hits 4 9"
    using hll.ins_ok [OF sk(2), of 7] hll.ins_ok [OF sk(5), of 9] hll.ins_ok [OF sk(8), of 11]
      hll.ins_hits [OF sk(2), of 7] hll.ins_hits [OF sk(5), of 9] sk(3,6)
    by (auto simp: x_def y_def z_def)
  then have p: "sk_p x = 4" "sk_p y = 4" "sk_p z = 5" by (simp_all add: sketch_ok_def)
  then have wf: "\<forall>s \<in> set (map ?snap [x, y, z]). snapshot_wf s"
    using ok by (simp add: snapshot_wf_def well_made_def map_ok_def)
  have r: "received (map ?snap [x, y, z]) (''a'', 1) = [x, y, z]"
    by (simp add: brings_def sn_with_id_def sketch_at_def)
  have f: "first_union [x, y, z] = fp_hits 4 7 \<union> fp_hits 4 9" by (auto simp: first_union_def p h)
  from selector_store_union [OF wf] obtain m where "fold_err snapshots_add [] (map ?snap [x, y, z]) = Inr m"
    "snapshots_hits m (''a'', 1) = fp_hits 4 7 \<union> fp_hits 4 9" using r f by metis
  then show ?thesis using sk unfolding x_def y_def z_def by blast
qed

subsection \<open>Decoding reuses one snapshot\<close>

lemma fold_update_id:
  "map_ok (m @ kvs) \<Longrightarrow> foldl (\<lambda>m kv. AList.update (fst kv) (snd kv) m) m kvs = m @ kvs"
proof (induction kvs arbitrary: m)
  case (Cons kv kvs)
  have "fst kv \<notin> fst ` set m" using Cons.prems by (auto simp: map_ok_def)
  then have "AList.update (fst kv) (snd kv) m = m @ [kv]"
    by (induction m) (auto simp: prod.collapse)
  then show ?case using Cons.IH [of "m @ [kv]"] Cons.prems by simp
qed simp

lemma gob_decode_reset:
  "map_ok (sn_labels msg) \<Longrightarrow> map_ok (sn_sketches msg) \<Longrightarrow> gob_decode msg (sn_reset s) = msg"
  using fold_update_id [of "[]" "sn_labels msg"] fold_update_id [of "[]" "sn_sketches msg"]
  by (simp add: gob_decode_def sn_reset_def)

lemma decode_loop_messages:
  "\<forall>msg \<in> set msgs. map_ok (sn_labels msg) \<and> map_ok (sn_sketches msg)
   \<Longrightarrow> decode_loop cb (map GobMessage msgs @ rest) s st
       = decode_loop cb rest (if msgs = [] then s else last msgs) (foldl cb st msgs)"
  by (induction msgs arbitrary: s st) (auto simp: gob_decode_reset Let_def)

text \<open>C19: Although one snapshot object is reused for the whole stream, the callback sees every sent snapshot
  exactly as it was sent: nothing of an earlier message leaks into a later one.  The stream's error,
  if any, is returned after the messages before it were delivered.\<close>

theorem decode_snapshots_exact:
  fixes e :: 'e
  assumes "\<forall>msg \<in> set msgs. map_ok (sn_labels msg) \<and> map_ok (sn_sketches msg)"
  shows "decode_snapshots cb (map GobMessage msgs @ [GobEof]) st = (foldl cb st msgs, None :: 'e option)
    \<and> decode_snapshots cb (map GobMessage msgs @ [GobError e]) st = (foldl cb st msgs, Some e)"
  unfolding decode_snapshots_def by (simp_all add: decode_loop_messages [OF assms])

theorem decode_snapshots_exact_witness:
  "decode_snapshots (\<lambda>st s. st @ [sn_min_cardinality s])
     (map GobMessage [new_snapshot\<lparr>sn_min_cardinality := 7\<rparr>, new_snapshot] @ [GobEof]) [] = ([7, 0], None :: string option)"
  using decode_snapshots_exact [of "[new_snapshot\<lparr>sn_min_cardinality := 7\<rparr>, new_snapshot]"
      "\<lambda>st s. st @ [sn_min_cardinality s]" "[]" "''e''"]
  by (simp add: new_snapshot_def)

subsection \<open>Merged settings\<close>

lemma new_snapshot_settings: "sn_min_cardinality new_snapshot = 0" "\<not> sn_calculate_churn new_snapshot"
  by (simp_all add: new_snapshot_def)

lemma sn_merge_settings:
  assumes "sn_merge s x = Inr s'"
  shows "sn_min_cardinality s' = merge_min_cardinality (sn_min_cardinality s) (sn_min_cardinality x)"
    "sn_calculate_churn s' = (sn_calculate_churn s \<or> sn_calculate_churn x)" "sn_id s' = sn_id x"
    "sn_group_reject_size s' = wrap_i64 (sn_group_reject_size s + sn_group_reject_size x)"
  using assms by (auto simp: sn_merge_def split: if_splits)

lemma sn_merge_same_id: "sn_id s = [] \<or> sn_id s = sn_id x \<Longrightarrow> \<exists>s'. sn_merge s x = Inr s'"
  by (auto simp: sn_merge_def)

lemma merge_all_settings:
  assumes "\<forall>x \<in> set xs. sn_id x = i" and "sn_id s = [] \<or> sn_id s = i" and "- 1 \<le> sn_min_cardinality s"
  shows "\<exists>s'. fold_err sn_merge s xs = Inr s'
    \<and> sn_calculate_churn s' = (sn_calculate_churn s \<or> (\<exists>x \<in> set xs. sn_calculate_churn x))
    \<and> sn_min_cardinality s' =
        (if sn_min_cardinality s < 0 \<or> (\<exists>x \<in> set xs. sn_min_cardinality x < 0) then - 1
         else foldl max (sn_min_cardinality s) (map sn_min_cardinality xs))"
  using assms
proof (induction xs arbitrary: s)
  case Nil
  then show ?case by simp
next
  case (Cons x xs)
  obtain s1 where s1: "sn_merge s x = Inr s1" using sn_merge_same_id [of s x] Cons.prems by auto
  note set1 = sn_merge_settings [OF s1]
  have "- 1 \<le> sn_min_cardinality s1" using set1(1) Cons.prems(3) by (auto simp: merge_min_cardinality_def)
  moreover have "\<forall>x \<in> set xs. sn_id x = i" "sn_id s1 = i" using Cons.prems(1) set1(3) by auto
  ultimately obtain s' where s': "fold_err sn_merge s1 xs = Inr s'"
    "sn_calculate_churn s' = (sn_calculate_churn s1 \<or> (\<exists>x \<in> set xs. sn_calculate_churn x))"
    "sn_min_cardinality s' =
        (if sn_min_cardinality s1 < 0 \<or> (\<exists>x \<in> set xs. sn_min_cardinality x < 0) then - 1
         else foldl max (sn_min_cardinality s1) (map sn_min_cardinality xs))"
    using Cons.IH [of s1] by blast
  show ?case
  proof (cases "sn_min_cardinality s < 0 \<or> sn_min_cardinality x < 0")
    case True
    then show ?thesis using s1 s' set1 by (auto simp: merge_min_cardinality_def)
  next
    case False
    then have "sn_min_cardinality s1 = max (sn_min_cardinality s) (sn_min_cardinality x)" "0 \<le> sn_min_cardinality s1"
      using set1(1) by (auto simp: merge_min_cardinality_def)
    then show ?thesis using s1 s' set1(2) False by (simp add: disj_assoc)
  qed
qed

text \<open>Merging the snapshots of one estimator taken on several nodes: churn is calculated if any node asks for
  it, and the cardinality threshold is disabled (\<open>-1\<close>) if any node disables it, otherwise the largest one.\<close>

theorem merged_settings:
  assumes "\<forall>x \<in> set xs. sn_id x = i"
  shows "\<exists>s. fold_err sn_merge new_snapshot xs = Inr s
    \<and> sn_calculate_churn s = (\<exists>x \<in> set xs. sn_calculate_churn x)
    \<and> sn_min_cardinality s =
        (if \<exists>x \<in> set xs. sn_min_cardinality x < 0 then - 1
         else foldl max 0 (map sn_min_cardinality xs))"
  using merge_all_settings [OF assms, of new_snapshot] unfolding new_snapshot_settings by (auto simp: new_snapshot_settings)

theorem merged_settings_witness:
  "\<exists>s. fold_err sn_merge new_snapshot [new_snapshot\<lparr>sn_min_cardinality := 3\<rparr>, new_snapshot\<lparr>sn_min_cardinality := 9\<rparr>] = Inr s
     \<and> sn_min_cardinality s = 9"
  using merged_settings [of "[new_snapshot\<lparr>sn_min_cardinality := 3\<rparr>, new_snapshot\<lparr>sn_min_cardinality := 9\<rparr>]" "[]"]
  by (auto simp: new_snapshot_def)

text \<open>A snapshot whose sketch has another precision than the one already stored is dropped for that key
  without an error: the stored sketch stays as it is.\<close>

theorem merge_precision_mismatch_dropped:
  assumes "sn_id s = sn_id x" and "map_of (sn_sketches s) k = Some old" and "sn_sketches x = [(k, new)]"
    and "sk_p (ss_sketch old) \<noteq> sk_p (ss_sketch new)"
  shows "\<exists>s'. sn_merge s x = Inr s' \<and> sn_sketches s' = sn_sketches s"
  using assms by (simp add: sn_merge_def merge_entry_def sk_merge_def)

theorem merge_precision_mismatch_dropped_witness:
  "\<exists>sk1 sk2 s s'. new_sketch 4 True = Inr sk1 \<and> new_sketch 5 True = Inr sk2
     \<and> s = new_snapshot\<lparr>sn_sketches := [(1, \<lparr>ss_values = [], ss_sketch = sk1\<rparr>)]\<rparr>
     \<and> sn_merge s (new_snapshot\<lparr>sn_sketches := [(1, \<lparr>ss_values = [], ss_sketch = sk_insert_hash sk2 7\<rparr>)]\<rparr>) = Inr s'
     \<and> sn_sketches s' = sn_sketches s"
proof -
  obtain sk1 sk2 where sk: "new_sketch 4 True = Inr sk1" "sketch_ok 4 sk1" "new_sketch 5 True = Inr sk2" "sketch_ok 5 sk2"
    using new_sketch_ok [of 4 True] new_sketch_ok [of 5 True] by auto
  then have "sk_p sk1 = 4" "sk_p (sk_insert_hash sk2 7) = 5"
    using hll.ins_ok [OF sk(4), of 7] by (simp_all add: sketch_ok_def)
  then show ?thesis using sk merge_precision_mismatch_dropped
      [of "new_snapshot\<lparr>sn_sketches := [(1, \<lparr>ss_values = [], ss_sketch = sk1\<rparr>)]\<rparr>"
          "new_snapshot\<lparr>sn_sketches := [(1, \<lparr>ss_values = [], ss_sketch = sk_insert_hash sk2 7\<rparr>)]\<rparr>" 1
          "\<lparr>ss_values = [], ss_sketch = sk1\<rparr>" "\<lparr>ss_values = [], ss_sketch = sk_insert_hash sk2 7\<rparr>"]
    by auto
qed

subsection \<open>The id does not depend on the map's iteration order\<close>

lemma sort_keys_unique: "map_ok m1 \<Longrightarrow> map_ok m2 \<Longrightarrow> map_of m1 = map_of m2 \<Longrightarrow> sort (map fst m1) = sort (map fst m2)"
  for m1 m2 :: "(string, 'v) gomap"
proof -
  assume m: "map_ok m1" "map_ok m2" "map_of m1 = map_of m2"
  then have "fst ` set m1 = fst ` set m2" by (metis dom_map_of_conv_image_fst)
  then have "mset (map fst m1) = mset (map fst m2)"
    using m unfolding map_ok_def by (metis list.set_map set_eq_iff_mset_eq_distinct)
  then show ?thesis by (simp add: properties_for_sort)
qed

text \<open>The id an estimator gets is a function of its settings: two label maps with the same entries give the
  same id, whatever order Go iterates them in.\<close>

theorem estimator_id_deterministic:
  assumes "map_ok l1" and "map_ok l2" and "map_of l1 = map_of l2"
  shows "estimator_id l1 gb iv flt = estimator_id l2 gb iv flt"
proof -
  have "str_index l1 = str_index l2" using assms(3) by (simp add: str_index_def fun_eq_iff)
  then show ?thesis using sort_keys_unique [OF assms] by (simp add: estimator_id_def labels_key_def Let_def)
qed

theorem estimator_id_deterministic_witness:
  "estimator_id [(''b'', ''2''), (''a'', ''1'')] [] 0 [] = estimator_id [(''a'', ''1''), (''b'', ''2'')] [] 0 []"
  by (rule estimator_id_deterministic) (auto simp: map_ok_def fun_eq_iff)

subsection \<open>The pool only hands out empty sketches\<close>

definition pool_sketch_ok :: "nat \<Rightarrow> bool \<Rightarrow> sketch \<Rightarrow> bool" where
  "pool_sketch_ok p sparse sk \<longleftrightarrow> sketch_ok p sk \<and> sk_hits sk = {} \<and> sk_sparse sk = sparse"

definition pool_ok :: "nat \<Rightarrow> sketches_pool \<Rightarrow> bool" where
  "pool_ok p sp \<longleftrightarrow> skp_precision sp = p \<and> 4 \<le> p \<and> p \<le> 18 \<and>
     (\<forall>sk \<in> set (skp_sparse sp). pool_sketch_ok p True sk) \<and>
     (\<forall>sk \<in> set (skp_dense sp). pool_sketch_ok p False sk)"

lemma must_new_sketch_pool:
  "4 \<le> p \<Longrightarrow> p \<le> 18 \<Longrightarrow> \<exists>sk. must_new_sketch p sparse = Inr sk \<and> pool_sketch_ok p sparse sk"
  using must_new_sketch_ok [of p sparse] by (auto simp: pool_sketch_ok_def)

lemma new_sketches_pool_ok:
  assumes "4 \<le> p" and "p \<le> 18" and "0 \<le> sz"
  shows "\<exists>sp. new_sketches_pool p sz = Inr sp \<and> pool_ok p sp"
proof -
  have "\<exists>sks. fold_err (\<lambda>sks _. map_sum id (\<lambda>sk. sks @ [sk]) (must_new_sketch p True)) acc xs = Inr sks
      \<and> (\<forall>sk \<in> set sks. pool_sketch_ok p True sk)"
    if "\<forall>sk \<in> set acc. pool_sketch_ok p True sk" for acc and xs :: "nat list"
    using that
  proof (induction xs arbitrary: acc)
    case (Cons x xs)
    then show ?case using must_new_sketch_pool [OF assms(1,2), of True] by auto
  qed simp
  from this [of "[]" "[0..<nat sz]"] show ?thesis
    using assms by (auto simp: new_sketches_pool_def must_new_sketches_def pool_ok_def)
qed

lemma get_sparse_ok:
  assumes "pool_ok p sp"
  shows "\<exists>sk sp'. get_sparse sp = Inr (sk, sp') \<and> pool_sketch_ok p True sk \<and> pool_ok p sp'"
  using assms must_new_sketch_pool [of p True]
  by (auto simp: get_sparse_def pool_ok_def dest: in_set_butlastD)

lemma get_dense_ok:
  assumes "pool_ok p sp"
  shows "\<exists>sk sp'. get_dense sp = Inr (sk, sp') \<and> pool_sketch_ok p False sk \<and> pool_ok p sp'"
  using assms must_new_sketch_pool [of p False]
  by (auto simp: get_dense_def pool_ok_def dest: in_set_butlastD)

lemma get_for_merge_ok:
  assumes "pool_ok p sp"
  shows "\<exists>sk sp'. get_for_merge sp other = Inr (sk, sp') \<and> pool_sketch_ok p (sk_sparse other) sk \<and> pool_ok p sp'"
  using get_sparse_ok [OF assms] get_dense_ok [OF assms] by (auto simp: get_for_merge_def)

lemma pool_put_ok: "pool_ok p sp \<Longrightarrow> sketch_ok p sk \<Longrightarrow> pool_ok p (pool_put sp sk)"
  using sk_reset_ok [of p sk] by (auto simp: pool_put_def pool_ok_def pool_sketch_ok_def Let_def)

text \<open>Whatever is returned to the pool, \<^verbatim>\<open>getForMerge\<close> only hands out empty sketches of the pool's precision, in
  the representation (sparse or dense) of the sketch about to be merged.\<close>

theorem pool_never_dirty:
  assumes "4 \<le> p" and "p \<le> 18" and "0 \<le> sz" and "\<forall>sk \<in> set sks. sketch_ok p sk"
  shows "\<exists>sp sk sp'. new_sketches_pool p sz = Inr sp
    \<and> get_for_merge (foldl pool_put sp sks) other = Inr (sk, sp')
    \<and> sketch_ok p sk \<and> sk_hits sk = {} \<and> sk_sparse sk = sk_sparse other \<and> pool_ok p sp'"
proof -
  obtain sp where sp: "new_sketches_pool p sz = Inr sp" "pool_ok p sp"
    using new_sketches_pool_ok [OF assms(1-3)] by blast
  have "pool_ok p (foldl pool_put sp sks)"
    using sp(2) assms(4) by (induction sks arbitrary: sp) (auto simp: pool_put_ok)
  from get_for_merge_ok [OF this, of other] sp(1) show ?thesis by (auto simp: pool_sketch_ok_def)
qed

theorem pool_never_dirty_witness:
  "\<exists>sk0 sp sk sp'. new_sketch 4 False = Inr sk0 \<and> new_sketches_pool 4 1 = Inr sp
     \<and> get_for_merge (foldl pool_put sp [sk_insert_hash sk0 5]) sk0 = Inr (sk, sp') \<and> sk_hits sk = {}"
proof -
  obtain sk0 where sk0: "new_sketch 4 False = Inr sk0" "sketch_ok 4 sk0" using new_sketch_ok [of 4 False] by auto
  show ?thesis
    using pool_never_dirty [of 4 1 "[sk_insert_hash sk0 5]" sk0] hll.ins_ok [OF sk0(2), of 5] sk0(1) by auto
qed

end
