(* ===== verification/Filters.thy ===== *)
theory Filters
  imports Go_Prelude
begin

section \<open>Time series and label filters\<close>

text \<open>
  The parsed series of \<^verbatim>\<open>protoparser\<close> (\<^verbatim>\<open>TimeSerie\<close>, \<^verbatim>\<open>Label\<close>) and the filters of \<^verbatim>\<open>config.go\<close>: an
  estimator's \<^verbatim>\<open>filter\<close> is compiled once and then matched against the labels of every series.  Parsing
  the selector (\<^verbatim>\<open>metricsql.Parse\<close>) and compiling a regular expression are parameters; a compiled
  regular expression is the predicate it decides.
\<close>

record label =
  lb_name :: string
  lb_value :: string
  lb_fingerprint :: u64

record time_serie =
  ts_labels :: "label list"
  ts_fingerprint :: u64

record label_filter =
  lf_label :: string
  lf_value :: string
  lf_is_negative :: bool
  lf_is_regexp :: bool
  lf_re :: "(string \<Rightarrow> bool) option"

type_synonym compiled_filter = "label_filter list"

text \<open>What the parser returns for a selector: its groups of filters, or another kind of expression.\<close>

record parsed_filter =
  pf_label :: string
  pf_value :: string
  pf_is_negative :: bool
  pf_is_regexp :: bool

datatype parsed_expr = MetricExpr "parsed_filter list list" | OtherExpr

datatype filter_error = CannotParse string | NotASelector | OrGroups nat | CannotCompile string

type_synonym selector_parser = "string \<Rightarrow> string + parsed_expr"
type_synonym regexp_compiler = "string \<Rightarrow> string + (string \<Rightarrow> bool)"

fun compile_group :: "regexp_compiler \<Rightarrow> parsed_filter list \<Rightarrow> filter_error + compiled_filter" where
  "compile_group compile_re [] = Inr []"
| "compile_group compile_re (lf # lfs) =
     (let f = \<lparr>lf_label = pf_label lf, lf_value = pf_value lf, lf_is_negative = pf_is_negative lf,
               lf_is_regexp = pf_is_regexp lf, lf_re = None\<rparr>;
          rest = compile_group compile_re lfs
      in if pf_is_regexp lf
         then (case compile_re (pf_value lf) of
                 Inl _ \<Rightarrow> Inl (CannotCompile (pf_value lf))
               | Inr re \<Rightarrow> map_sum id (Cons (f\<lparr>lf_re := Some re\<rparr>)) rest)
         else map_sum id (Cons f) rest)"

definition compile_filters ::
  "selector_parser \<Rightarrow> regexp_compiler \<Rightarrow> string \<Rightarrow> filter_error + compiled_filter" where
  "compile_filters parse compile_re flt =
     (if flt = [] then Inr []
      else (case parse flt of
              Inl err \<Rightarrow> Inl (CannotParse err)
            | Inr OtherExpr \<Rightarrow> Inl NotASelector
            | Inr (MetricExpr []) \<Rightarrow> Inr []
            | Inr (MetricExpr [lfs]) \<Rightarrow> compile_group compile_re lfs
            | Inr (MetricExpr lfss) \<Rightarrow> Inl (OrGroups (length lfss))))"

text \<open>The value of the first label with the name, empty if there is none.\<close>

definition label_value :: "label list \<Rightarrow> string \<Rightarrow> string" where
  "label_value labels name =
     (case find (\<lambda>l. lb_name l = name) labels of None \<Rightarrow> [] | Some l \<Rightarrow> lb_value l)"

definition filter_matches :: "label_filter \<Rightarrow> label list \<Rightarrow> go_panic + bool" where
  "filter_matches f labels =
     (let val = label_value labels (lf_label f) in
      map_sum id (\<lambda>matched. if lf_is_negative f then \<not> matched else matched)
        (if lf_is_regexp f
         then (case lf_re f of None \<Rightarrow> Inl NilDeref | Some re \<Rightarrow> Inr (re val))
         else Inr (val = lf_value f)))"

fun filters_match :: "compiled_filter \<Rightarrow> label list \<Rightarrow> go_panic + bool" where
  "filters_match [] labels = Inr True"
| "filters_match (f # fs) labels =
     (case filter_matches f labels of
        Inl p \<Rightarrow> Inl p
      | Inr matched \<Rightarrow> if matched then filters_match fs labels else Inr False)"

subsection \<open>Meaning of a selector\<close>

definition selects :: "regexp_compiler \<Rightarrow> label list \<Rightarrow> parsed_filter \<Rightarrow> bool" where
  "selects compile_re labels lf =
     (let val = label_value labels (pf_label lf) in
      (if pf_is_regexp lf
       then (\<exists>re. compile_re (pf_value lf) = Inr re \<and> re val)
       else val = pf_value lf) \<noteq> pf_is_negative lf)"

definition filter_wf :: "label_filter \<Rightarrow> bool" where
  "filter_wf f \<longleftrightarrow> (lf_is_regexp f \<longrightarrow> lf_re f \<noteq> None)"

lemma compile_group_ok:
  "compile_group compile_re lfs = Inr cf
   \<Longrightarrow> (\<forall>f \<in> set cf. filter_wf f) \<and> filters_match cf labels = Inr (\<forall>lf \<in> set lfs. selects compile_re labels lf)"
proof (induction lfs arbitrary: cf)
  case (Cons lf lfs)
  then obtain rest where rest: "compile_group compile_re lfs = Inr rest"
    by (cases "compile_group compile_re lfs") (auto simp: Let_def split: if_splits sum.splits)
  note IH = Cons.IH [OF rest]
  obtain f where cf: "cf = f # rest" and wf: "filter_wf f"
    and f: "filter_matches f labels = Inr (selects compile_re labels lf)"
  proof (cases "pf_is_regexp lf")
    case True
    then obtain re where re: "compile_re (pf_value lf) = Inr re"
      using Cons.prems by (cases "compile_re (pf_value lf)") (auto simp: Let_def)
    show ?thesis
      by (rule that) (use Cons.prems True rest re in
          \<open>auto simp: Let_def filter_wf_def filter_matches_def selects_def\<close>)
  next
    case False
    show ?thesis
      by (rule that) (use Cons.prems False rest in
          \<open>auto simp: Let_def filter_wf_def filter_matches_def selects_def\<close>)
  qed
  show ?case unfolding cf using wf f IH by simp
qed simp

lemma compile_filters_wf: "compile_filters parse compile_re flt = Inr cf \<Longrightarrow> \<forall>f \<in> set cf. filter_wf f"
  using compile_group_ok
  by (fastforce simp: compile_filters_def split: if_splits sum.splits parsed_expr.splits list.splits)

lemma filters_match_total: "\<forall>f \<in> set cf. filter_wf f \<Longrightarrow> \<exists>b. filters_match cf labels = Inr b"
  by (induction cf) (auto simp: filter_matches_def filter_wf_def Let_def)

text \<open>Matching a compiled filter never panics and decides the selector: a series passes exactly when every
  label filter of the single group holds for the first label of that name, a missing label counting as the empty
  value and a negative filter negating the result.\<close>

theorem compiled_filter_decides:
  assumes "flt \<noteq> []" and "parse flt = Inr (MetricExpr [lfs])"
    and "compile_filters parse compile_re flt = Inr cf"
  shows "filters_match cf labels = Inr (\<forall>lf \<in> set lfs. selects compile_re labels lf)"
  using compile_group_ok [of compile_re lfs cf] assms by (simp add: compile_filters_def)

theorem compiled_filter_decides_witness:
  "\<exists>cf. compile_filters (\<lambda>_. Inr (MetricExpr [[\<lparr>pf_label = ''job'', pf_value = ''a'', pf_is_negative = True, pf_is_regexp = False\<rparr>]]))
         (\<lambda>_. Inl []) ''f'' = Inr cf
     \<and> filters_match cf [\<lparr>lb_name = ''job'', lb_value = ''b'', lb_fingerprint = 0\<rparr>] = Inr True"
  (is "\<exists>cf. compile_filters ?parse ?re ?f = Inr cf \<and> filters_match cf ?ls = Inr True")
proof -
  obtain cf where cf: "compile_filters ?parse ?re ?f = Inr cf" by (simp add: compile_filters_def Let_def)
  have "?f \<noteq> []" by simp
  from compiled_filter_decides [OF this refl cf, of ?ls] show ?thesis
    using cf by (simp add: selects_def label_value_def)
qed

end
