(* ===== verification/Estimator.thy ===== *)
theory Estimator
  imports Snapshot Filters
begin

section \<open>Estimators (\<^verbatim>\<open>estimator.go\<close>)\<close>

text \<open>
  An estimator is made from one configured stream: a compiled filter, the group-by labels, a shared
  group limit and a number of buckets.  \<^verbatim>\<open>insertMany\<close> distributes the fingerprints of a request over the
  buckets, \<^verbatim>\<open>toSnapshot\<close> shows the state in batches, \<^verbatim>\<open>reset\<close> clears it and \<^verbatim>\<open>runRotation\<close> rotates one
  bucket at a time.  Parameters: the number of CPUs, the selector parser and the regexp compiler of the
  filters, \<open>sum64\<close> for the xxhash digest of what was written to it, and the random start index of
  \<^verbatim>\<open>insertMany\<close>.  The metrics the estimator registers about itself are not modelled, except the insert
  counter.
\<close>

subsection \<open>Configuration\<close>

record estimator_config =
  ec_filter :: string
  ec_group_by :: "string list"
  ec_group_limit :: int
  ec_labels :: "(string, string) gomap"
  ec_interval :: duration
  ec_calculate_churn :: bool
  ec_buckets :: int
  ec_hll_precision :: nat
  ec_hll_sparse :: "bool option"
  ec_min_cardinality :: int

definition label_keyword :: string where
  "label_keyword = ''__label__''"

definition apply_defaults :: "int \<Rightarrow> estimator_config \<Rightarrow> estimator_config" where
  "apply_defaults cpus ec =
     ec\<lparr>ec_interval := (if ec_interval ec = 0 then 300000000000 else ec_interval ec),
        ec_group_limit := (if ec_group_limit ec \<le> 0 then 10000 else ec_group_limit ec),
        ec_buckets := (if ec_buckets ec \<le> 0 then max 4 (min 64 (2 * cpus)) else ec_buckets ec),
        ec_hll_precision := (if ec_hll_precision ec = 0 then 14 else ec_hll_precision ec),
        ec_hll_sparse := (case ec_hll_sparse ec of None \<Rightarrow> Some True | Some b \<Rightarrow> Some b)\<rparr>"

subsection \<open>Construction\<close>

record estimator =
  es_id :: string
  es_cfg :: estimator_config
  es_group_by :: "string list"
  es_group_size :: group_size
  es_filter :: compiled_filter
  es_has_label_keyword :: bool
  es_min_cardinality :: int
  es_buckets :: "bucket list"
  es_insert_total :: int

datatype estimator_error = GroupByTooLong nat | ReservedGroupBy string | BadFilter filter_error

text \<open>A function that can return an error and can also panic.\<close>

datatype 'e failure = Panicked go_panic | Failed 'e

definition bucket_of_config :: "estimator_config \<Rightarrow> bool \<Rightarrow> nat \<Rightarrow> go_panic + bucket" where
  "bucket_of_config cfg has_kw i =
     (case ec_hll_sparse cfg of
        None \<Rightarrow> Inl NilDeref
      | Some sparse \<Rightarrow>
          new_bucket i (ec_group_by cfg) (ec_interval cfg) (ec_calculate_churn cfg) (ec_labels cfg)
            (ec_filter cfg) (ec_hll_precision cfg) sparse has_kw)"

definition new_buckets :: "estimator_config \<Rightarrow> bool \<Rightarrow> go_panic + bucket list" where
  "new_buckets cfg has_kw =
     fold_err (\<lambda>ebs i. map_sum id (\<lambda>eb. ebs @ [eb]) (bucket_of_config cfg has_kw i)) [] [0..<nat (ec_buckets cfg)]"

definition new_estimator ::
  "int \<Rightarrow> selector_parser \<Rightarrow> regexp_compiler \<Rightarrow> estimator_config \<Rightarrow> estimator_error failure + estimator" where
  "new_estimator cpus parse compile_re cfg0 =
     (let cfg = apply_defaults cpus cfg0; gb = ec_group_by cfg in
      if 5 < length gb then Inl (Failed (GroupByTooLong (length gb)))
      else case find (\<lambda>k. k = ''__global__'' \<or> k = ''__group__'') gb of
             Some k \<Rightarrow> Inl (Failed (ReservedGroupBy k))
           | None \<Rightarrow>
      case compile_filters parse compile_re (ec_filter cfg) of
        Inl err \<Rightarrow> Inl (Failed (BadFilter err))
      | Inr cf \<Rightarrow>
          if label_keyword \<in> set (butlast gb)
          then Inl (Panicked (BugPanic ''__label__ must be the last element of groupBy''))
          else if \<not> slice_fits 8 (ec_buckets cfg) then Inl (Panicked (BugPanic ''makeslice: len out of range''))
          else
            let has_kw = (gb \<noteq> [] \<and> last gb = label_keyword) in
            case new_buckets cfg has_kw of
              Inl p \<Rightarrow> Inl (Panicked p)
            | Inr ebs \<Rightarrow>
                Inr \<lparr>es_id = estimator_id (ec_labels cfg) gb (ec_interval cfg) (ec_filter cfg),
                     es_cfg = cfg, es_group_by = gb,
                     es_group_size = new_group_size (ec_group_limit cfg) (nat (ec_buckets cfg)),
                     es_filter = cf, es_has_label_keyword = has_kw,
                     es_min_cardinality = ec_min_cardinality cfg,
                     es_buckets = ebs, es_insert_total = 0\<rparr>)"

subsection \<open>Insertion\<close>

text \<open>One call of a bucket's \<^verbatim>\<open>insert\<close> through \<^verbatim>\<open>e.buckets[bi]\<close>.\<close>

record insertion =
  in_bucket_key :: u64
  in_fp :: u64
  in_key :: u64
  in_values :: "string list"

definition bucket_index :: "estimator \<Rightarrow> u64 \<Rightarrow> go_panic + nat" where
  "bucket_index e x =
     (if es_buckets e = [] then Inl DivideByZero
      else Inr (unat (x mod of_nat (length (es_buckets e)))))"

definition with_bucket ::
  "estimator \<Rightarrow> nat \<Rightarrow> (bucket \<Rightarrow> group_size \<Rightarrow> go_panic + bucket \<times> group_size) \<Rightarrow> go_panic + estimator" where
  "with_bucket e bi f =
     (if bi < length (es_buckets e)
      then (case f (es_buckets e ! bi) (es_group_size e) of
              Inl p \<Rightarrow> Inl p
            | Inr (eb, gs) \<Rightarrow> Inr (e\<lparr>es_buckets := (es_buckets e)[bi := eb], es_group_size := gs\<rparr>))
      else Inl IndexOutOfRange)"

definition es_insert :: "estimator \<Rightarrow> insertion \<Rightarrow> go_panic + estimator" where
  "es_insert e ins =
     (case bucket_index e (in_bucket_key ins) of
        Inl p \<Rightarrow> Inl p
      | Inr bi \<Rightarrow> with_bucket e bi (\<lambda>eb gs. eb_insert eb gs (in_fp ins) (in_key ins) (in_values ins)))"

text \<open>The order in which \<^verbatim>\<open>insertMany\<close> visits the series, in 32-bit arithmetic.\<close>

definition visit_index :: "u32 \<Rightarrow> u32 \<Rightarrow> u32 \<Rightarrow> u32" where
  "visit_index start n j = (start + j) mod n"

definition visit_order :: "u32 \<Rightarrow> 'a list \<Rightarrow> 'a list" where
  "visit_order start xs =
     map (\<lambda>j. xs ! unat (visit_index start (of_nat (length xs)) (of_nat j))) [0..<length xs]"

text \<open>
  The scan of a series' labels for the group-by keys: \<open>i\<close> is the index of the key, the state is
  whether a key was found, what was written to the digest, and the group values.
\<close>

fun scan_keys :: "label list \<Rightarrow> nat \<Rightarrow> string list \<Rightarrow> bool \<times> string \<times> string list \<Rightarrow> bool \<times> string \<times> string list" where
  "scan_keys labels i [] st = st"
| "scan_keys labels i (name # names) (has_names, d, vals) =
     scan_keys labels (Suc i) names
       (case find (\<lambda>l. lb_name l = name) labels of
          None \<Rightarrow> (has_names, d, vals)
        | Some l \<Rightarrow> (True, d @ CHR 0x00 # lb_value l, vals[i := lb_value l]))"

definition explicit_keys :: "estimator \<Rightarrow> string list" where
  "explicit_keys e = (if es_has_label_keyword e then butlast (es_group_by e) else es_group_by e)"

definition count_insert :: "estimator \<Rightarrow> insertion \<Rightarrow> go_panic + estimator" where
  "count_insert e ins =
     (case es_insert e ins of
        Inl p \<Rightarrow> Inl p
      | Inr e' \<Rightarrow> Inr (e'\<lparr>es_insert_total := es_insert_total e' + 1\<rparr>))"

text \<open>
  The body of the loop for one series.  The global case inserts the fingerprint; the grouped case
  inserts it under the digest of the found values; with \<^verbatim>\<open>__label__\<close> every label of the series is an
  insertion of its own.  (The counter is added to \<^verbatim>\<open>insertTotal\<close> once after the loop in Go; here it is
  counted along.)
\<close>

definition insert_label ::
  "(string \<Rightarrow> u64) \<Rightarrow> string \<Rightarrow> string list \<Rightarrow> estimator \<Rightarrow> label \<Rightarrow> go_panic + estimator" where
  "insert_label sum64 d vals e l =
     (let ld = (if explicit_keys e \<noteq> [] then d @ [CHR 0x00] else d) in
      if lb_fingerprint l = 0 then Inr e
      else let key = sum64 (ld @ lb_name l);
               vals' = vals[length (es_group_by e) - 1 := lb_name l]
           in count_insert e \<lparr>in_bucket_key = key, in_fp = lb_fingerprint l, in_key = key, in_values = vals'\<rparr>)"

definition insert_serie :: "(string \<Rightarrow> u64) \<Rightarrow> estimator \<Rightarrow> time_serie \<Rightarrow> go_panic + estimator" where
  "insert_serie sum64 e ts =
     (case filters_match (es_filter e) (ts_labels ts) of
        Inl p \<Rightarrow> Inl p
      | Inr matched \<Rightarrow>
          if \<not> matched then Inr e
          else if es_group_by e = []
          then count_insert e
                 \<lparr>in_bucket_key = ts_fingerprint ts, in_fp = ts_fingerprint ts, in_key = 0, in_values = []\<rparr>
          else
            case scan_keys (ts_labels ts) 0 (explicit_keys e)
                   (explicit_keys e = [], [], replicate (length (es_group_by e)) []) of
              (has_names, d, vals) \<Rightarrow>
                if \<not> has_names then Inr e
                else if \<not> es_has_label_keyword e
                then (let key = sum64 d in
                      count_insert e
                        \<lparr>in_bucket_key = key, in_fp = ts_fingerprint ts, in_key = key, in_values = vals\<rparr>)
                else fold_err (insert_label sum64 d vals) e (ts_labels ts))"

definition insert_many :: "(string \<Rightarrow> u64) \<Rightarrow> u32 \<Rightarrow> estimator \<Rightarrow> time_serie list \<Rightarrow> go_panic + estimator" where
  "insert_many sum64 start e tss = fold_err (insert_serie sum64) e (visit_order start tss)"

subsection \<open>Reset and rotation\<close>

definition es_reset :: "estimator \<Rightarrow> go_panic + estimator" where
  "es_reset e = fold_err (\<lambda>e bi. with_bucket e bi eb_reset) e [0..<length (es_buckets e)]"

text \<open>\<^verbatim>\<open>runRotation\<close>: the period in nanoseconds, the wait until the next tick, and one tick.\<close>

definition rotation_period :: "duration \<Rightarrow> nat \<Rightarrow> go_panic + int" where
  "rotation_period interval n =
     (if n = 0 then Inl DivideByZero else Inr (go_quot (go_quot interval 2) (int n)))"

definition rotation_wait :: "int \<Rightarrow> int \<Rightarrow> go_panic + int" where
  "rotation_wait period now =
     (if period = 0 then Inl DivideByZero
      else let w = period - go_rem now period in Inr (if w = period then 0 else w))"

definition rotate_tick :: "estimator \<times> nat \<Rightarrow> go_panic + estimator \<times> nat" where
  "rotate_tick st =
     (case st of (e, i) \<Rightarrow>
        map_sum id (\<lambda>e'. (e', (i + 1) mod length (es_buckets e'))) (with_bucket e i eb_rotate))"

subsection \<open>Invariant\<close>

text \<open>
  The buckets of an estimator are numbered, agree on their settings, are valid against the shared
  group limit, and track only keys that belong to them.
\<close>

definition own_index :: "estimator \<Rightarrow> u64 \<Rightarrow> nat" where
  "own_index e x = unat (x mod of_nat (length (es_buckets e)))"

definition estimator_ok :: "nat \<Rightarrow> estimator \<Rightarrow> bool" where
  "estimator_ok p e \<longleftrightarrow>
     es_buckets e \<noteq> [] \<and> length (es_buckets e) < 2 ^ 63 \<and>
     group_size_ok (es_group_size e) \<and>
     length (gs_bucket_sizes (es_group_size e)) = length (es_buckets e) \<and>
     (\<forall>i < length (es_buckets e).
        bucket_ok (es_buckets e ! i) (es_group_size e) \<and> eb_idx (es_buckets e ! i) = i \<and>
        eb_group_by (es_buckets e ! i) = es_group_by e \<and> eb_precision (es_buckets e ! i) = p \<and>
        (\<forall>k \<in> tracked (es_buckets e ! i). own_index e k = i)) \<and>
     (\<forall>f \<in> set (es_filter e). filter_wf f)"

text \<open>What an estimator shows: as a whole, and for one group key (looked up in the key's own bucket).\<close>

definition es_global_hits :: "estimator \<Rightarrow> (nat \<times> nat) set" where
  "es_global_hits e = (\<Union>eb \<in> set (es_buckets e). global_hits eb)"

definition es_group_hits :: "estimator \<Rightarrow> u64 \<Rightarrow> (nat \<times> nat) set" where
  "es_group_hits e k = group_hits (es_buckets e ! own_index e k) k"

lemma estimator_okD:
  assumes "estimator_ok p e"
  shows "es_buckets e \<noteq> []" "length (es_buckets e) < 2 ^ 63" "group_size_ok (es_group_size e)"
    "length (gs_bucket_sizes (es_group_size e)) = length (es_buckets e)"
    "\<forall>f \<in> set (es_filter e). filter_wf f"
  using assms unfolding estimator_ok_def by blast+

lemma estimator_ok_bucket:
  assumes "estimator_ok p e" and "i < length (es_buckets e)"
  shows "bucket_ok (es_buckets e ! i) (es_group_size e)" "eb_idx (es_buckets e ! i) = i"
    "eb_group_by (es_buckets e ! i) = es_group_by e" "eb_precision (es_buckets e ! i) = p"
    "\<forall>k \<in> tracked (es_buckets e ! i). own_index e k = i"
  using assms unfolding estimator_ok_def by blast+

lemma unat_of_nat_len: "n < 2 ^ 63 \<Longrightarrow> unat (of_nat n :: u64) = n"
  by (simp add: unat_of_nat)

lemma own_index_less: "estimator_ok p e \<Longrightarrow> own_index e x < length (es_buckets e)"
  using unat_mod_less [of "of_nat (length (es_buckets e)) :: u64" x] estimator_okD(1,2) [of p e]
    unat_of_nat_len [of "length (es_buckets e)"]
  by (simp add: own_index_def word_gt_0 unat_gt_0 [symmetric])

lemma bucket_index_own: "estimator_ok p e \<Longrightarrow> bucket_index e x = Inr (own_index e x)"
  using estimator_okD(1) [of p e] by (simp add: bucket_index_def own_index_def)

lemma bucket_ok_other:
  "bucket_ok eb gs \<Longrightarrow> gs_bucket_sizes gs' = (gs_bucket_sizes gs)[i := n] \<Longrightarrow> eb_idx eb \<noteq> i \<Longrightarrow> bucket_ok eb gs'"
  by (simp add: bucket_ok_def)

text \<open>The fields an operation on the buckets leaves alone.\<close>

definition es_shell where
  "es_shell e = (es_id e, es_cfg e, es_group_by e, es_filter e, es_has_label_keyword e,
     es_min_cardinality e, length (es_buckets e), gs_limit (es_group_size e))"

lemma with_bucket_ok:
  assumes "estimator_ok p e" and "i < length (es_buckets e)"
    and "f (es_buckets e ! i) (es_group_size e) = Inr (eb', gs')"
    and "bucket_step_ok (es_buckets e ! i) (es_group_size e) eb' gs'"
    and "\<forall>k \<in> tracked eb'. own_index e k = i"
  defines "e' \<equiv> e\<lparr>es_buckets := (es_buckets e)[i := eb'], es_group_size := gs'\<rparr>"
  shows "with_bucket e i f = Inr e' \<and> estimator_ok p e' \<and> es_shell e' = es_shell e"
proof -
  note bk = estimator_ok_bucket [OF assms(1)]
  obtain n where n: "gs_bucket_sizes gs' = (gs_bucket_sizes (es_group_size e))[i := n]"
    using assms(4) bk(2) [OF assms(2)] by (auto simp: bucket_step_ok_def)
  have b': "bucket_ok eb' gs'" "group_size_ok gs'" "eb_shell eb' = eb_shell (es_buckets e ! i)"
    "gs_limit gs' = gs_limit (es_group_size e)" using assms(4) by (auto simp: bucket_step_ok_def)
  note sh = eb_shellD [OF b'(3)]
  have own: "own_index e' k = own_index e k" for k by (simp add: own_index_def e'_def)
  have "bucket_ok (es_buckets e' ! j) gs' \<and> eb_idx (es_buckets e' ! j) = j
      \<and> eb_group_by (es_buckets e' ! j) = es_group_by e \<and> eb_precision (es_buckets e' ! j) = p
      \<and> (\<forall>k \<in> tracked (es_buckets e' ! j). own_index e k = j)" if "j < length (es_buckets e)" for j
  proof (cases "j = i")
    case True
    then show ?thesis using assms(2,5) b'(1) sh bk(2-4) [OF assms(2)] by (simp add: e'_def)
  next
    case False
    then show ?thesis using bk [OF that] bucket_ok_other [OF bk(1) [OF that] n] by (simp add: e'_def)
  qed
  then have "estimator_ok p e'"
    using estimator_okD [OF assms(1)] b'(2) n unfolding estimator_ok_def own by (simp add: e'_def)
  then show ?thesis using assms(2,3) b'(4) by (simp add: with_bucket_def e'_def es_shell_def)
qed

lemma es_group_hits_update:
  assumes "estimator_ok p e" and "i < length (es_buckets e)"
  shows "es_group_hits (e\<lparr>es_buckets := (es_buckets e)[i := eb'], es_group_size := gs'\<rparr>) k
    = (if own_index e k = i then group_hits eb' k else es_group_hits e k)"
  using own_index_less [OF assms(1), of k] by (simp add: es_group_hits_def own_index_def nth_list_update)

lemma es_global_hits_update:
  assumes "i < length (es_buckets e)" and "global_hits eb' = global_hits (es_buckets e ! i) \<union> X"
  shows "es_global_hits (e\<lparr>es_buckets := (es_buckets e)[i := eb'], es_group_size := gs'\<rparr>) = es_global_hits e \<union> X"
proof -
  have "set (es_buckets e) = (\<lambda>j. es_buckets e ! j) ` {..<length (es_buckets e)}"
    by (auto simp: in_set_conv_nth)
  moreover have "set ((es_buckets e)[i := eb']) = (\<lambda>j. (es_buckets e)[i := eb'] ! j) ` {..<length (es_buckets e)}"
    by (auto simp: in_set_conv_nth)
  ultimately show ?thesis using assms
    by (auto simp: es_global_hits_def nth_list_update split: if_splits)
qed

subsection \<open>One insertion\<close>

text \<open>
  \<open>admits e k\<close>: an insertion for group \<open>k\<close> is not turned away.  For a global estimator every insertion
  is accepted.
\<close>

definition admits :: "estimator \<Rightarrow> u64 \<Rightarrow> bool" where
  "admits e k \<longleftrightarrow> k \<in> tracked (es_buckets e ! own_index e k) \<or> gs_size (es_group_size e) < gs_limit (es_group_size e)"

definition insertion_for :: "estimator \<Rightarrow> insertion \<Rightarrow> bool" where
  "insertion_for e ins \<longleftrightarrow> es_group_by e \<noteq> [] \<longrightarrow> in_bucket_key ins = in_key ins"

lemma es_insert_ok:
  assumes "estimator_ok p e" and "insertion_for e ins"
  shows "\<exists>e'. es_insert e ins = Inr e' \<and> estimator_ok p e' \<and> es_shell e' = es_shell e
    \<and> es_insert_total e' = es_insert_total e
    \<and> gs_size (es_group_size e') \<le> gs_size (es_group_size e) + 1
    \<and> (es_group_by e = [] \<longrightarrow> es_global_hits e' = es_global_hits e \<union> fp_hits p (in_fp ins))
    \<and> (es_group_by e \<noteq> [] \<longrightarrow> (\<forall>k. es_group_hits e' k = es_group_hits e k
          \<union> (if k = in_key ins \<and> admits e k then fp_hits p (in_fp ins) else {})))"
proof -
  let ?i = "own_index e (in_bucket_key ins)"
  let ?eb = "es_buckets e ! ?i"
  have i: "?i < length (es_buckets e)" using own_index_less [OF assms(1)] .
  note bk = estimator_ok_bucket [OF assms(1) i]
  obtain eb' gs' where r: "eb_insert ?eb (es_group_size e) (in_fp ins) (in_key ins) (in_values ins) = Inr (eb', gs')"
    "bucket_step_ok ?eb (es_group_size e) eb' gs'" "gs_size gs' \<le> gs_size (es_group_size e) + 1"
    "tracked eb' \<subseteq> (if eb_group_by ?eb = [] then {} else insert (in_key ins) (tracked ?eb))"
    and gl: "eb_group_by ?eb = [] \<longrightarrow> global_hits eb' = global_hits ?eb \<union> fp_hits (eb_precision ?eb) (in_fp ins)"
    and gr: "eb_group_by ?eb \<noteq> [] \<longrightarrow> (\<forall>k. group_hits eb' k = group_hits ?eb k
          \<union> (if k = in_key ins \<and> (in_key ins \<in> tracked ?eb \<or> gs_size (es_group_size e) < gs_limit (es_group_size e))
             then fp_hits (eb_precision ?eb) (in_fp ins) else {}))"
    using eb_insert_any [OF bk(1) estimator_okD(3) [OF assms(1)], of "in_fp ins" "in_key ins" "in_values ins"] by blast
  have own: "\<forall>k \<in> tracked eb'. own_index e k = ?i"
    using r(4) bk(3,5) assms(2) by (auto simp: insertion_for_def split: if_splits)
  let ?f = "\<lambda>eb gs. eb_insert eb gs (in_fp ins) (in_key ins) (in_values ins)"
  note w = with_bucket_ok [where f = ?f, OF assms(1) i r(1,2) own]
  let ?e' = "e\<lparr>es_buckets := (es_buckets e)[?i := eb'], es_group_size := gs'\<rparr>"
  have "es_global_hits ?e' = es_global_hits e \<union> fp_hits p (in_fp ins)" if "es_group_by e = []"
    by (rule es_global_hits_update [OF i]) (use gl bk that in simp)
  moreover have "es_group_hits ?e' k = es_group_hits e k
      \<union> (if k = in_key ins \<and> admits e k then fp_hits p (in_fp ins) else {})" if g: "es_group_by e \<noteq> []" for k
  proof (cases "own_index e k = ?i")
    case True
    then have "es_group_hits ?e' k = group_hits eb' k"
      by (simp add: es_group_hits_update [OF assms(1) i])
    moreover have "es_group_hits e k = group_hits ?eb k" using True by (simp add: es_group_hits_def)
    ultimately show ?thesis using gr g bk(3,4) True by (auto simp: admits_def)
  next
    case False
    then have "k \<noteq> in_key ins" using g assms(2) by (auto simp: insertion_for_def)
    then show ?thesis using False by (simp add: es_group_hits_update [OF assms(1) i])
  qed
  ultimately show ?thesis
    using w r(3) by (simp add: es_insert_def bucket_index_own [OF assms(1)])
qed

subsection \<open>What a series contributes\<close>

text \<open>
  The insertions a series leads to, as a list computed from the series alone.  This is the
  specification of the loop body: the settings of the estimator it reads never change while it runs.
\<close>

definition group_scan :: "estimator \<Rightarrow> time_serie \<Rightarrow> bool \<times> string \<times> string list" where
  "group_scan e ts =
     scan_keys (ts_labels ts) 0 (explicit_keys e)
       (explicit_keys e = [], [], replicate (length (es_group_by e)) [])"

definition label_insertion :: "(string \<Rightarrow> u64) \<Rightarrow> estimator \<Rightarrow> string \<Rightarrow> string list \<Rightarrow> label \<Rightarrow> insertion" where
  "label_insertion sum64 e d vals l =
     (let ld = (if explicit_keys e \<noteq> [] then d @ [CHR 0x00] else d); key = sum64 (ld @ lb_name l)
      in \<lparr>in_bucket_key = key, in_fp = lb_fingerprint l, in_key = key,
          in_values = vals[length (es_group_by e) - 1 := lb_name l]\<rparr>)"

definition serie_insertions :: "(string \<Rightarrow> u64) \<Rightarrow> estimator \<Rightarrow> time_serie \<Rightarrow> insertion list" where
  "serie_insertions sum64 e ts =
     (if filters_match (es_filter e) (ts_labels ts) \<noteq> Inr True then []
      else if es_group_by e = []
      then [\<lparr>in_bucket_key = ts_fingerprint ts, in_fp = ts_fingerprint ts, in_key = 0, in_values = []\<rparr>]
      else (case group_scan e ts of (has_names, d, vals) \<Rightarrow>
              if \<not> has_names then []
              else if es_has_label_keyword e
              then map (label_insertion sum64 e d vals) (List.filter (\<lambda>l. lb_fingerprint l \<noteq> 0) (ts_labels ts))
              else [\<lparr>in_bucket_key = sum64 d, in_fp = ts_fingerprint ts, in_key = sum64 d, in_values = vals\<rparr>]))"

definition same_settings :: "estimator \<Rightarrow> estimator \<Rightarrow> bool" where
  "same_settings e e' \<longleftrightarrow> es_filter e' = es_filter e \<and> es_group_by e' = es_group_by e
     \<and> es_has_label_keyword e' = es_has_label_keyword e"

lemma same_settings_refl [simp]: "same_settings e e"
  by (simp add: same_settings_def)

lemma same_settings_insertions:
  assumes "same_settings e e'"
  shows "serie_insertions sum64 e' ts = serie_insertions sum64 e ts"
    "label_insertion sum64 e' d vals l = label_insertion sum64 e d vals l"
    "insertion_for e' ins = insertion_for e ins"
proof -
  have k: "explicit_keys e' = explicit_keys e" using assms by (simp add: same_settings_def explicit_keys_def)
  have l: "label_insertion sum64 e' = label_insertion sum64 e"
    using assms k by (simp add: fun_eq_iff label_insertion_def same_settings_def)
  then show "label_insertion sum64 e' d vals l = label_insertion sum64 e d vals l" by simp
  have g: "group_scan e' ts = group_scan e ts" using assms k by (simp add: group_scan_def same_settings_def)
  have f: "es_filter e' = es_filter e" "es_group_by e' = es_group_by e"
    "es_has_label_keyword e' = es_has_label_keyword e" using assms by (simp_all add: same_settings_def)
  show "serie_insertions sum64 e' ts = serie_insertions sum64 e ts"
    unfolding serie_insertions_def l g f by (rule refl)
  show "insertion_for e' ins = insertion_for e ins" using assms by (simp add: insertion_for_def same_settings_def)
qed

lemma same_settings_shell: "es_shell e' = es_shell e \<Longrightarrow> same_settings e e'"
  by (simp add: es_shell_def same_settings_def)

lemma es_insert_settings: "es_insert e ins = Inr e' \<Longrightarrow> same_settings e e'"
  by (auto simp: es_insert_def with_bucket_def same_settings_def split: sum.splits if_splits prod.splits)

lemma count_insert_settings: "count_insert e ins = Inr e' \<Longrightarrow> same_settings e e'"
  by (auto simp: count_insert_def same_settings_def dest!: es_insert_settings split: sum.splits)

lemma same_settings_trans: "same_settings a b \<Longrightarrow> same_settings b c \<Longrightarrow> same_settings a c"
  by (simp add: same_settings_def)

lemma fold_count_settings: "fold_err count_insert e inss = Inr e' \<Longrightarrow> same_settings e e'"
  by (induction inss arbitrary: e) (auto split: sum.splits dest: count_insert_settings intro: same_settings_trans)

lemma fold_err_append:
  "fold_err f s (xs @ ys) = (case fold_err f s xs of Inl e \<Rightarrow> Inl e | Inr s' \<Rightarrow> fold_err f s' ys)"
  by (induction xs arbitrary: s) (auto split: sum.splits)

lemma insert_labels_spec:
  assumes "same_settings e0 e"
  shows "fold_err (insert_label sum64 d vals) e ls
    = fold_err count_insert e (map (label_insertion sum64 e0 d vals) (List.filter (\<lambda>l. lb_fingerprint l \<noteq> 0) ls))"
  using assms
proof (induction ls arbitrary: e)
  case (Cons l ls)
  have *: "insert_label sum64 d vals e l
    = (if lb_fingerprint l = 0 then Inr e else count_insert e (label_insertion sum64 e0 d vals l))"
    using same_settings_insertions(2) [OF Cons.prems, of sum64 d vals l]
    by (simp add: insert_label_def label_insertion_def Let_def)
  show ?case
  proof (cases "lb_fingerprint l = 0")
    case True
    then show ?thesis using Cons by (simp add: *)
  next
    case False
    show ?thesis
    proof (cases "count_insert e (label_insertion sum64 e0 d vals l)")
      case (Inr e1)
      then have "same_settings e0 e1" using Cons.prems count_insert_settings same_settings_trans by blast
      then show ?thesis using Cons.IH False Inr by (simp add: *)
    qed (use False in \<open>simp add: *\<close>)
  qed
qed simp

lemma insert_serie_spec:
  assumes "\<forall>f \<in> set (es_filter e). filter_wf f"
  shows "insert_serie sum64 e ts = fold_err count_insert e (serie_insertions sum64 e ts)"
proof -
  obtain b where b: "filters_match (es_filter e) (ts_labels ts) = Inr b"
    using filters_match_total [OF assms] by blast
  obtain hn d vals where s: "group_scan e ts = (hn, d, vals)" by (cases "group_scan e ts")
  have one: "fold_err count_insert e [ins] = count_insert e ins" for ins
    by (simp split: sum.splits)
  show ?thesis
    using b s insert_labels_spec [OF same_settings_refl, of sum64 d vals e "ts_labels ts"]
    by (auto simp: insert_serie_def serie_insertions_def group_scan_def one Let_def simp del: fold_err.simps
        intro: arg_cong [where f = "fold_err _ _"])
      (simp_all)
qed

subsection \<open>The visit order\<close>

lemma visit_order_rotate:
  assumes "unat start < length xs" and "length xs \<le> 2 ^ 31"
  shows "visit_order start xs = rotate (unat start) xs"
proof (rule nth_equalityI)
  show "length (visit_order start xs) = length (rotate (unat start) xs)" by (simp add: visit_order_def)
  fix j assume "j < length (visit_order start xs)"
  then have j: "j < length xs" by (simp add: visit_order_def)
  have n: "unat (of_nat (length xs) :: u32) = length xs" using assms(2) by (simp add: unat_of_nat)
  have "unat (of_nat j :: u32) = j" using j assms(2) by (simp add: unat_of_nat)
  then have "unat (start + of_nat j) = unat start + j"
    using assms j by (subst unat_add_lem [THEN iffD1]) simp_all
  then have "unat (visit_index start (of_nat (length xs)) (of_nat j)) = (unat start + j) mod length xs"
    unfolding visit_index_def unat_mod n by simp
  then show "visit_order start xs ! j = rotate (unat start) xs ! j"
    using j by (simp add: visit_order_def nth_rotate)
qed

lemma mset_rotate: "mset (rotate n xs) = mset xs"
proof (induction n)
  case (Suc n)
  have "mset (rotate1 ys) = mset ys" for ys :: "'a list" by (cases ys) simp_all
  then show ?case using Suc by (simp add: rotate_Suc)
qed simp

text \<open>The start index \<^verbatim>\<open>fastrand.Uint32n\<close> can return for a request of this size.\<close>

definition start_ok :: "u32 \<Rightarrow> 'a list \<Rightarrow> bool" where
  "start_ok start xs \<longleftrightarrow> (xs \<noteq> [] \<longrightarrow> unat start < length xs) \<and> length xs \<le> 2 ^ 31"

lemma visit_order_set: "start_ok start xs \<Longrightarrow> set (visit_order start xs) = set xs"
  using visit_order_rotate [of start xs] by (cases "xs = []") (auto simp: start_ok_def visit_order_def)

lemma visit_order_mset:
  assumes "start_ok start xs" shows "mset (visit_order start xs) = mset xs"
proof (cases "xs = []")
  case False
  then have "visit_order start xs = rotate (unat start) xs"
    using assms by (intro visit_order_rotate) (simp_all add: start_ok_def)
  then show ?thesis by (simp add: mset_rotate)
qed (simp add: visit_order_def)

text \<open>Whatever random start index \<^verbatim>\<open>insertMany\<close> draws, it visits every series of the request exactly once, in
  cyclic order: the 32-bit index arithmetic neither skips nor repeats one.\<close>

theorem insert_order_is_rotation:
  assumes "unat start < length tss" and "length tss \<le> 2 ^ 31"
  shows "visit_order start tss = rotate (unat start) tss \<and> mset (visit_order start tss) = mset tss"
  using visit_order_rotate [OF assms] by (simp add: mset_rotate)

theorem insert_order_is_rotation_witness:
  "visit_order 2 [10, 11, 12 :: nat] = [12, 10, 11]"
proof -
  have "rotate 2 [10, 11, 12 :: nat] = [12, 10, 11]" by (simp add: rotate_def numeral_2_eq_2)
  then show ?thesis using insert_order_is_rotation [of 2 "[10, 11, 12 :: nat]"] by simp
qed

subsection \<open>Whole requests\<close>

lemma fold_insert_serie:
  assumes "same_settings e0 e" and "\<forall>f \<in> set (es_filter e0). filter_wf f"
  shows "fold_err (insert_serie sum64) e tss = fold_err count_insert e (concat (map (serie_insertions sum64 e0) tss))"
  using assms(1)
proof (induction tss arbitrary: e)
  case (Cons ts tss)
  have "\<forall>f \<in> set (es_filter e). filter_wf f" using assms(2) Cons.prems by (simp add: same_settings_def)
  then have s: "insert_serie sum64 e ts = fold_err count_insert e (serie_insertions sum64 e0 ts)"
    using insert_serie_spec same_settings_insertions(1) [OF Cons.prems] by simp
  show ?case
  proof (cases "insert_serie sum64 e ts")
    case (Inl p)
    then show ?thesis using s by (simp add: fold_err_append)
  next
    case (Inr e1)
    then have "same_settings e0 e1"
      using s Cons.prems fold_count_settings same_settings_trans by metis
    then show ?thesis using Inr s Cons.IH by (simp add: fold_err_append)
  qed
qed simp

lemma count_insert_ok:
  assumes "estimator_ok p e" and "insertion_for e ins"
  shows "\<exists>e'. count_insert e ins = Inr e' \<and> estimator_ok p e' \<and> es_shell e' = es_shell e
    \<and> es_insert_total e' = es_insert_total e + 1
    \<and> gs_size (es_group_size e') \<le> gs_size (es_group_size e) + 1
    \<and> (es_group_by e = [] \<longrightarrow> es_global_hits e' = es_global_hits e \<union> fp_hits p (in_fp ins))
    \<and> (es_group_by e \<noteq> [] \<longrightarrow> (\<forall>k. es_group_hits e' k = es_group_hits e k
          \<union> (if k = in_key ins \<and> admits e k then fp_hits p (in_fp ins) else {})))"
proof -
  obtain e1 where e1: "es_insert e ins = Inr e1" "estimator_ok p e1" "es_shell e1 = es_shell e"
    "es_insert_total e1 = es_insert_total e" "gs_size (es_group_size e1) \<le> gs_size (es_group_size e) + 1"
    "es_group_by e = [] \<longrightarrow> es_global_hits e1 = es_global_hits e \<union> fp_hits p (in_fp ins)"
    "es_group_by e \<noteq> [] \<longrightarrow> (\<forall>k. es_group_hits e1 k = es_group_hits e k
          \<union> (if k = in_key ins \<and> admits e k then fp_hits p (in_fp ins) else {}))"
    using es_insert_ok [OF assms] by blast
  let ?e' = "e1\<lparr>es_insert_total := es_insert_total e1 + 1\<rparr>"
  have "estimator_ok p ?e'" using e1(2) by (simp add: estimator_ok_def own_index_def)
  moreover have "es_shell ?e' = es_shell e" using e1(3) by (simp add: es_shell_def)
  moreover have "es_global_hits ?e' = es_global_hits e1" "es_group_hits ?e' k = es_group_hits e1 k" for k
    by (simp_all add: es_global_hits_def es_group_hits_def own_index_def)
  moreover have "count_insert e ins = Inr ?e'" using e1(1) by (simp add: count_insert_def)
  moreover have "es_insert_total ?e' = es_insert_total e + 1" "es_group_size ?e' = es_group_size e1"
    using e1(4) by simp_all
  ultimately show ?thesis using e1(5-7) by metis
qed

lemma es_shell_group_by: "es_shell e' = es_shell e \<Longrightarrow> es_group_by e' = es_group_by e"
  by (simp add: es_shell_def)

interpretation global: accumulator "\<lambda>e. estimator_ok p e \<and> es_group_by e = []" "\<lambda>_. True"
  "\<lambda>e (u :: unit). es_global_hits e" "\<lambda>ins u. fp_hits p (in_fp ins)" count_insert for p
proof
  fix e ins assume "estimator_ok p e \<and> es_group_by e = []"
  then have e: "estimator_ok p e" "es_group_by e = []" "insertion_for e ins" by (simp_all add: insertion_for_def)
  from count_insert_ok [OF e(1,3)] e(2) obtain e' where "count_insert e ins = Inr e'" "estimator_ok p e'"
    "es_shell e' = es_shell e" "es_global_hits e' = es_global_hits e \<union> fp_hits p (in_fp ins)" by blast
  then show "\<exists>e'. count_insert e ins = Inr e' \<and> (estimator_ok p e' \<and> es_group_by e' = [])
      \<and> (\<forall>u :: unit. es_global_hits e' = es_global_hits e \<union> fp_hits p (in_fp ins))"
    using es_shell_group_by [of e' e] e(2) by (intro exI [of _ e']) simp
qed

lemma count_inserts_groups:
  assumes "estimator_ok p e" and "es_group_by e \<noteq> []" and "\<forall>ins \<in> set inss. in_bucket_key ins = in_key ins"
  shows "\<exists>e'. fold_err count_insert e inss = Inr e' \<and> estimator_ok p e' \<and> es_shell e' = es_shell e
    \<and> es_insert_total e' = es_insert_total e + int (length inss)
    \<and> (\<forall>k. es_group_hits e' k \<subseteq> es_group_hits e k \<union> (\<Union>ins \<in> {ins \<in> set inss. in_key ins = k}. fp_hits p (in_fp ins)))
    \<and> (gs_size (es_group_size e) + int (length inss) \<le> gs_limit (es_group_size e) \<longrightarrow>
        (\<forall>k. es_group_hits e' k = es_group_hits e k \<union> (\<Union>ins \<in> {ins \<in> set inss. in_key ins = k}. fp_hits p (in_fp ins))))"
  using assms
proof (induction inss arbitrary: e)
  case Nil
  then show ?case by simp
next
  case (Cons ins inss)
  have "insertion_for e ins" using Cons.prems by (simp add: insertion_for_def)
  from count_insert_ok [OF Cons.prems(1) this] obtain e1
    where e1: "count_insert e ins = Inr e1" "estimator_ok p e1" "es_shell e1 = es_shell e"
    "es_insert_total e1 = es_insert_total e + 1" "gs_size (es_group_size e1) \<le> gs_size (es_group_size e) + 1"
    and h: "\<forall>k. es_group_hits e1 k = es_group_hits e k
          \<union> (if k = in_key ins \<and> admits e k then fp_hits p (in_fp ins) else {})"
    using Cons.prems(2) by blast
  have lim: "gs_limit (es_group_size e1) = gs_limit (es_group_size e)" using e1(3) by (simp add: es_shell_def)
  have gb: "es_group_by e1 \<noteq> []" using es_shell_group_by [OF e1(3)] Cons.prems(2) by simp
  have keys: "\<forall>ins \<in> set inss. in_bucket_key ins = in_key ins" using Cons.prems(3) by simp
  from Cons.IH [OF e1(2) gb keys] obtain e'
    where e': "fold_err count_insert e1 inss = Inr e'" "estimator_ok p e'" "es_shell e' = es_shell e1"
    "es_insert_total e' = es_insert_total e1 + int (length inss)"
    and sub: "\<forall>k. es_group_hits e' k \<subseteq> es_group_hits e1 k \<union> (\<Union>ins \<in> {ins \<in> set inss. in_key ins = k}. fp_hits p (in_fp ins))"
    and eq: "gs_size (es_group_size e1) + int (length inss) \<le> gs_limit (es_group_size e1) \<longrightarrow>
        (\<forall>k. es_group_hits e' k = es_group_hits e1 k \<union> (\<Union>ins \<in> {ins \<in> set inss. in_key ins = k}. fp_hits p (in_fp ins)))"
    by blast
  have split: "(\<Union>i \<in> {i \<in> set (ins # inss). in_key i = k}. fp_hits p (in_fp i))
    = (if k = in_key ins then fp_hits p (in_fp ins) else {}) \<union> (\<Union>i \<in> {i \<in> set inss. in_key i = k}. fp_hits p (in_fp i))" for k
    by auto
  have "es_group_hits e' k \<subseteq> es_group_hits e k \<union> (\<Union>i \<in> {i \<in> set (ins # inss). in_key i = k}. fp_hits p (in_fp i))" for k
    unfolding split using sub [THEN spec, of k] h [THEN spec, of k] by (auto split: if_splits)
  moreover have "es_group_hits e' k = es_group_hits e k \<union> (\<Union>i \<in> {i \<in> set (ins # inss). in_key i = k}. fp_hits p (in_fp i))"
    if room: "gs_size (es_group_size e) + int (length (ins # inss)) \<le> gs_limit (es_group_size e)" for k
  proof -
    have "admits e j" for j using room by (simp add: admits_def)
    moreover have "gs_size (es_group_size e1) + int (length inss) \<le> gs_limit (es_group_size e1)"
      using room e1(5) lim by simp
    ultimately show ?thesis unfolding split using eq [THEN mp, THEN spec, of k] h [THEN spec, of k] by auto
  qed
  ultimately show ?case using e1 e' by simp
qed

lemma serie_insertions_keys:
  "es_group_by e \<noteq> [] \<Longrightarrow> ins \<in> set (serie_insertions sum64 e ts) \<Longrightarrow> in_bucket_key ins = in_key ins"
  by (auto simp: serie_insertions_def label_insertion_def Let_def split: if_splits prod.splits)

text \<open>All insertions a request leads to.\<close>

definition request_insertions :: "(string \<Rightarrow> u64) \<Rightarrow> estimator \<Rightarrow> time_serie list \<Rightarrow> insertion list" where
  "request_insertions sum64 e tss = concat (map (serie_insertions sum64 e) tss)"

lemma request_insertions_order:
  assumes "start_ok start tss"
  shows "set (request_insertions sum64 e (visit_order start tss)) = set (request_insertions sum64 e tss)"
    and "length (request_insertions sum64 e (visit_order start tss)) = length (request_insertions sum64 e tss)"
proof -
  show "set (request_insertions sum64 e (visit_order start tss)) = set (request_insertions sum64 e tss)"
    using visit_order_set [OF assms] by (simp add: request_insertions_def)
  have "length (request_insertions sum64 e xs) = sum_mset (image_mset (\<lambda>ts. length (serie_insertions sum64 e ts)) (mset xs))" for xs
    by (induction xs) (simp_all add: request_insertions_def)
  then show "length (request_insertions sum64 e (visit_order start tss)) = length (request_insertions sum64 e tss)"
    using visit_order_mset [OF assms] by simp
qed

lemma insert_many_flat:
  "estimator_ok p e \<Longrightarrow>
   insert_many sum64 start e tss = fold_err count_insert e (request_insertions sum64 e (visit_order start tss))"
  unfolding insert_many_def request_insertions_def
  by (rule fold_insert_serie) (simp_all add: estimator_okD(5))

lemma insert_many_global_ok:
  assumes "estimator_ok p e" and "es_group_by e = []" and "start_ok start tss"
  shows "\<exists>e'. insert_many sum64 start e tss = Inr e' \<and> estimator_ok p e'
    \<and> es_global_hits e' = es_global_hits e \<union>
        (\<Union>ts \<in> {ts \<in> set tss. filters_match (es_filter e) (ts_labels ts) = Inr True}. fp_hits p (ts_fingerprint ts))"
proof -
  obtain e' where e': "insert_many sum64 start e tss = Inr e'" "estimator_ok p e'"
    "es_global_hits e' = es_global_hits e \<union>
      (\<Union>ins \<in> set (request_insertions sum64 e tss). fp_hits p (in_fp ins))"
    using global.run_ok [of p e "request_insertions sum64 e (visit_order start tss)"] assms
      insert_many_flat [OF assms(1)] request_insertions_order(1) [OF assms(3)] by auto
  have "(\<Union>ins \<in> set (request_insertions sum64 e tss). fp_hits p (in_fp ins))
    = (\<Union>ts \<in> {ts \<in> set tss. filters_match (es_filter e) (ts_labels ts) = Inr True}. fp_hits p (ts_fingerprint ts))"
    using assms(2) by (auto simp: request_insertions_def serie_insertions_def split: if_splits)
  with e' show ?thesis by auto
qed

text \<open>C10: A request inserted into a global estimator adds exactly the fingerprints of the series its filter selects,
  whatever the start index; distributing them over the buckets loses and duplicates nothing.\<close>

theorem insert_many_global:
  assumes "estimator_ok p e" and "es_group_by e = []" and "start_ok start tss"
  shows "\<exists>e'. insert_many sum64 start e tss = Inr e' \<and> estimator_ok p e'
    \<and> es_global_hits e' = es_global_hits e \<union>
        (\<Union>ts \<in> {ts \<in> set tss. filters_match (es_filter e) (ts_labels ts) = Inr True}. fp_hits p (ts_fingerprint ts))"
  using assms by (rule insert_many_global_ok)

lemma insert_many_groups_ok:
  assumes "estimator_ok p e" and "es_group_by e \<noteq> []" and "start_ok start tss"
  shows "\<exists>e'. insert_many sum64 start e tss = Inr e' \<and> estimator_ok p e'
    \<and> es_insert_total e' = es_insert_total e + int (length (request_insertions sum64 e tss))
    \<and> (\<forall>k. es_group_hits e' k \<subseteq> es_group_hits e k \<union>
        (\<Union>ins \<in> {ins \<in> set (request_insertions sum64 e tss). in_key ins = k}. fp_hits p (in_fp ins)))
    \<and> (gs_size (es_group_size e) + int (length (request_insertions sum64 e tss)) \<le> gs_limit (es_group_size e) \<longrightarrow>
        (\<forall>k. es_group_hits e' k = es_group_hits e k \<union>
          (\<Union>ins \<in> {ins \<in> set (request_insertions sum64 e tss). in_key ins = k}. fp_hits p (in_fp ins))))"
proof -
  have "\<forall>ins \<in> set (request_insertions sum64 e (visit_order start tss)). in_bucket_key ins = in_key ins"
    using serie_insertions_keys [OF assms(2)] by (auto simp: request_insertions_def)
  from count_inserts_groups [OF assms(1,2) this] show ?thesis
    unfolding insert_many_flat [OF assms(1)] request_insertions_order [OF assms(3)] by blast
qed

text \<open>C11: A request inserted into a grouping estimator never panics; every group gains at most the fingerprints of
  the insertions with its key, and exactly those when the request fits under the group limit.  The insert
  counter counts every insertion, those turned away included.\<close>

theorem insert_many_groups:
  assumes "estimator_ok p e" and "es_group_by e \<noteq> []" and "start_ok start tss"
  shows "\<exists>e'. insert_many sum64 start e tss = Inr e' \<and> estimator_ok p e'
    \<and> es_insert_total e' = es_insert_total e + int (length (request_insertions sum64 e tss))
    \<and> (\<forall>k. es_group_hits e' k \<subseteq> es_group_hits e k \<union>
        (\<Union>ins \<in> {ins \<in> set (request_insertions sum64 e tss). in_key ins = k}. fp_hits p (in_fp ins)))
    \<and> (gs_size (es_group_size e) + int (length (request_insertions sum64 e tss)) \<le> gs_limit (es_group_size e) \<longrightarrow>
        (\<forall>k. es_group_hits e' k = es_group_hits e k \<union>
          (\<Union>ins \<in> {ins \<in> set (request_insertions sum64 e tss). in_key ins = k}. fp_hits p (in_fp ins))))"
  using assms by (rule insert_many_groups_ok)

subsection \<open>The key of a group\<close>

definition has_label :: "label list \<Rightarrow> string \<Rightarrow> bool" where
  "has_label labels name \<longleftrightarrow> find (\<lambda>l. lb_name l = name) labels \<noteq> None"

definition present_values :: "label list \<Rightarrow> string list \<Rightarrow> string list" where
  "present_values labels names =
     map (label_value labels) (List.filter (has_label labels) names)"

lemma scan_keys_spec:
  "length vals \<ge> i + length names \<Longrightarrow>
   scan_keys labels i names (hn, d, vals) =
     (hn \<or> list_ex (has_label labels) names,
      d @ concat (map (\<lambda>v. CHR 0x00 # v) (present_values labels names)),
      take i vals @ map (\<lambda>(n, old). case find (\<lambda>l. lb_name l = n) labels of None \<Rightarrow> old | Some l \<Rightarrow> lb_value l)
                      (zip names (drop i vals)) @ drop (i + length names) vals)"
proof (induction names arbitrary: i hn d vals)
  case Nil
  then show ?case by (simp add: present_values_def has_label_def)
next
  case (Cons n names)
  have len: "i < length vals" using Cons.prems by simp
  then have dr: "drop i vals = vals ! i # drop (Suc i) vals" by (rule Cons_nth_drop_Suc [symmetric])
  show ?case
  proof (cases "find (\<lambda>l. lb_name l = n) labels")
    case None
    then show ?thesis using Cons.IH [of "Suc i" vals] Cons.prems len dr
      by (simp add: present_values_def has_label_def take_Suc_conv_app_nth)
  next
    case (Some l)
    have "take (Suc i) (vals[i := lb_value l]) = take i vals @ [lb_value l]"
      using len by (simp add: take_Suc_conv_app_nth)
    then show ?thesis using Some Cons.IH [of "Suc i" "vals[i := lb_value l]"] Cons.prems dr
      by (simp add: present_values_def has_label_def label_value_def)
  qed
qed

text \<open>The group of a series is keyed by the digest of the values of those group-by labels the series has, each
  after a zero byte; a series with none of the explicit labels is not counted.  The recorded group
  values are the values of all group-by labels, empty where the label is missing.\<close>

theorem group_scan_spec:
  "group_scan e ts =
     (explicit_keys e = [] \<or> list_ex (has_label (ts_labels ts)) (explicit_keys e),
      concat (map (\<lambda>v. CHR 0x00 # v) (present_values (ts_labels ts) (explicit_keys e))),
      map (label_value (ts_labels ts)) (explicit_keys e)
        @ replicate (length (es_group_by e) - length (explicit_keys e)) [])"
proof -
  have "length (explicit_keys e) \<le> length (es_group_by e)" by (simp add: explicit_keys_def)
  moreover have "map (\<lambda>(n, old). case find (\<lambda>l. lb_name l = n) ls of None \<Rightarrow> old | Some l \<Rightarrow> lb_value l)
      (zip names (replicate m [])) = map (label_value ls) names" if "length names \<le> m" for names m ls
    using that by (intro nth_equalityI) (auto simp: label_value_def split: option.splits)
  ultimately show ?thesis by (simp add: group_scan_def scan_keys_spec)
qed

text \<open>Because absent labels are left out of the digest, a value is not tied to its label: with
  \<^verbatim>\<open>group_by: [a, b]\<close> the series \<^verbatim>\<open>{a="x"}\<close> and \<^verbatim>\<open>{b="x"}\<close> fall into the same group, whatever the hash
  function, although their group values differ.\<close>

theorem group_key_ignores_label:
  assumes "es_group_by e = [''a'', ''b'']" and "\<not> es_has_label_keyword e" and "es_filter e = []"
    and "ts1 = \<lparr>ts_labels = [\<lparr>lb_name = ''a'', lb_value = v, lb_fingerprint = 0\<rparr>], ts_fingerprint = f1\<rparr>"
    and "ts2 = \<lparr>ts_labels = [\<lparr>lb_name = ''b'', lb_value = v, lb_fingerprint = 0\<rparr>], ts_fingerprint = f2\<rparr>"
  shows "\<exists>i1 i2. serie_insertions sum64 e ts1 = [i1] \<and> serie_insertions sum64 e ts2 = [i2]
    \<and> in_key i1 = in_key i2 \<and> in_values i1 = [v, []] \<and> in_values i2 = [[], v]"
  using assms by (simp add: serie_insertions_def group_scan_def explicit_keys_def)

subsection \<open>Construction\<close>

lemma new_buckets_ok:
  assumes "ec_hll_sparse cfg = Some sp" and "4 \<le> ec_hll_precision cfg" and "ec_hll_precision cfg \<le> 18"
  shows "\<exists>ebs. new_buckets cfg kw = Inr ebs \<and> length ebs = nat (ec_buckets cfg)
    \<and> (\<forall>i < length ebs. bucket_ok (ebs ! i) (new_group_size limit (nat (ec_buckets cfg)))
        \<and> eb_shell (ebs ! i) = (i, ec_group_by cfg, ec_interval cfg, ec_calculate_churn cfg, ec_filter cfg,
              ec_hll_precision cfg, sp, ec_labels cfg, kw)
        \<and> tracked (ebs ! i) = {} \<and> global_hits (ebs ! i) = {} \<and> (\<forall>k. group_hits (ebs ! i) k = {})
        \<and> eb_prev_sketch (ebs ! i) = None)"
proof -
  let ?N = "nat (ec_buckets cfg)"
  let ?P = "\<lambda>eb i. bucket_ok eb (new_group_size limit ?N)
        \<and> eb_shell eb = (i, ec_group_by cfg, ec_interval cfg, ec_calculate_churn cfg, ec_filter cfg,
              ec_hll_precision cfg, sp, ec_labels cfg, kw)
        \<and> tracked eb = {} \<and> global_hits eb = {} \<and> (\<forall>k. group_hits eb k = {}) \<and> eb_prev_sketch eb = None"
  have "\<exists>ebs. fold_err (\<lambda>ebs i. map_sum id (\<lambda>eb. ebs @ [eb]) (bucket_of_config cfg kw i)) [] [0..<n] = Inr ebs
      \<and> length ebs = n \<and> (\<forall>i < n. ?P (ebs ! i) i)" if "n \<le> ?N" for n
    using that
  proof (induction n)
    case (Suc n)
    then have "n \<le> ?N" by simp
    from Suc.IH [OF this] obtain ebs where ebs: "fold_err (\<lambda>ebs i. map_sum id (\<lambda>eb. ebs @ [eb]) (bucket_of_config cfg kw i)) [] [0..<n] = Inr ebs"
      "length ebs = n" "\<forall>i < n. ?P (ebs ! i) i" by blast
    obtain eb where eb: "bucket_of_config cfg kw n = Inr eb" "?P eb n"
      using new_bucket_ok [OF assms(2,3), of n ?N "ec_group_by cfg" "ec_interval cfg" "ec_calculate_churn cfg"
          "ec_labels cfg" "ec_filter cfg" sp kw limit] Suc.prems assms(1)
      by (auto simp: bucket_of_config_def tracked_def group_hits_def key_group_hits_def)
    have "\<forall>i < Suc n. ?P ((ebs @ [eb]) ! i) i"
      using ebs(2,3) eb(2) by (simp add: nth_append less_Suc_eq)
    moreover have "fold_err (\<lambda>ebs i. map_sum id (\<lambda>eb. ebs @ [eb]) (bucket_of_config cfg kw i)) [] [0..<Suc n]
        = Inr (ebs @ [eb])"
      unfolding upt_Suc_append [OF le0] fold_err_append ebs(1) by (simp add: eb(1))
    ultimately show ?case using ebs(2) by (intro exI [of _ "ebs @ [eb]"]) (simp add: id_def)
  qed simp
  from this [of ?N] show ?thesis by (auto simp: new_buckets_def)
qed

text \<open>
  A configuration as \<^verbatim>\<open>prepare\<close> leaves it, as far as construction depends on it, with a number of buckets for
  which slices of pointers can be made.
\<close>

definition max_buckets :: int where "max_buckets = 2 ^ 45"

lemma slice_fits_buckets: "0 \<le> n \<Longrightarrow> slice_fits 8 n \<longleftrightarrow> n \<le> max_buckets"
  by (simp add: slice_fits_def max_buckets_def)

lemma max_buckets_nonneg [simp]: "0 \<le> max_buckets"
  by (simp add: max_buckets_def)

definition config_ok :: "estimator_config \<Rightarrow> bool" where
  "config_ok cfg \<longleftrightarrow>
     (ec_hll_precision cfg = 0 \<or> 4 \<le> ec_hll_precision cfg \<and> ec_hll_precision cfg \<le> 18) \<and>
     label_keyword \<notin> set (butlast (ec_group_by cfg)) \<and> ec_buckets cfg \<le> max_buckets"

definition effective_precision :: "estimator_config \<Rightarrow> nat" where
  "effective_precision cfg = (if ec_hll_precision cfg = 0 then 14 else ec_hll_precision cfg)"

definition rejected_config :: "selector_parser \<Rightarrow> regexp_compiler \<Rightarrow> estimator_config \<Rightarrow> bool" where
  "rejected_config parse compile_re cfg \<longleftrightarrow>
     5 < length (ec_group_by cfg) \<or> ''__global__'' \<in> set (ec_group_by cfg) \<or> ''__group__'' \<in> set (ec_group_by cfg) \<or>
     (\<exists>err. compile_filters parse compile_re (ec_filter cfg) = Inl err)"

text \<open>A freshly made estimator.\<close>

definition fresh_estimator :: "estimator_config \<Rightarrow> estimator \<Rightarrow> bool" where
  "fresh_estimator cfg e \<longleftrightarrow>
     estimator_ok (effective_precision cfg) e \<and> es_group_by e = ec_group_by cfg \<and>
     es_global_hits e = {} \<and> (\<forall>k. es_group_hits e k = {}) \<and> es_insert_total e = 0 \<and>
     gs_size (es_group_size e) = 0 \<and>
     gs_limit (es_group_size e) = (if ec_group_limit cfg \<le> 0 then 10000 else ec_group_limit cfg) \<and>
     (\<forall>eb \<in> set (es_buckets e). eb_prev_sketch eb = None)"

lemma apply_defaults_simps:
  "ec_group_by (apply_defaults cpus cfg) = ec_group_by cfg" "ec_filter (apply_defaults cpus cfg) = ec_filter cfg"
  "ec_labels (apply_defaults cpus cfg) = ec_labels cfg"
  "ec_hll_precision (apply_defaults cpus cfg) = effective_precision cfg"
  "ec_group_limit (apply_defaults cpus cfg) = (if ec_group_limit cfg \<le> 0 then 10000 else ec_group_limit cfg)"
  "ec_min_cardinality (apply_defaults cpus cfg) = ec_min_cardinality cfg"
  "\<exists>sp. ec_hll_sparse (apply_defaults cpus cfg) = Some sp"
  "0 < ec_buckets (apply_defaults cpus cfg)"
  "ec_buckets (apply_defaults cpus cfg) \<le> max_buckets \<longleftrightarrow> ec_buckets cfg \<le> max_buckets"
  by (auto simp: apply_defaults_def effective_precision_def max_buckets_def split: option.splits)

lemma find_reserved:
  "find (\<lambda>k. k = ''__global__'' \<or> k = ''__group__'') gb = None
   \<longleftrightarrow> ''__global__'' \<notin> set gb \<and> ''__group__'' \<notin> set gb"
  by (auto simp: find_None_iff)

lemma new_estimator_fresh:
  assumes "config_ok cfg" and "\<not> rejected_config parse compile_re cfg"
  shows "\<exists>e. new_estimator cpus parse compile_re cfg = Inr e \<and> fresh_estimator cfg e \<and> es_cfg e = apply_defaults cpus cfg
    \<and> es_id e = estimator_id (ec_labels cfg) (ec_group_by cfg) (ec_interval (apply_defaults cpus cfg)) (ec_filter cfg)"
proof -
  let ?c = "apply_defaults cpus cfg"
  note ad = apply_defaults_simps [where cpus = cpus and cfg = cfg]
  define kw where "kw = (ec_group_by cfg \<noteq> [] \<and> last (ec_group_by cfg) = label_keyword)"
  let ?N = "nat (ec_buckets ?c)"
  obtain sp where sp: "ec_hll_sparse ?c = Some sp" using ad(7) by blast
  have p: "4 \<le> effective_precision cfg" "effective_precision cfg \<le> 18"
    using assms(1) by (auto simp: config_ok_def effective_precision_def)
  obtain cf where cf: "compile_filters parse compile_re (ec_filter cfg) = Inr cf"
    using assms(2) by (cases "compile_filters parse compile_re (ec_filter cfg)") (auto simp: rejected_config_def)
  obtain ebs where ebs: "new_buckets ?c kw = Inr ebs" "length ebs = ?N"
    and bk: "\<forall>i < length ebs. bucket_ok (ebs ! i) (new_group_size (ec_group_limit ?c) ?N)
        \<and> eb_shell (ebs ! i) = (i, ec_group_by ?c, ec_interval ?c, ec_calculate_churn ?c, ec_filter ?c,
              ec_hll_precision ?c, sp, ec_labels ?c, kw)
        \<and> tracked (ebs ! i) = {} \<and> global_hits (ebs ! i) = {} \<and> (\<forall>k. group_hits (ebs ! i) k = {})
        \<and> eb_prev_sketch (ebs ! i) = None"
    using new_buckets_ok [OF sp, of kw "ec_group_limit ?c"] p ad(4) by auto
  define e where "e = \<lparr>es_id = estimator_id (ec_labels ?c) (ec_group_by ?c) (ec_interval ?c) (ec_filter ?c),
                     es_cfg = ?c, es_group_by = ec_group_by ?c,
                     es_group_size = new_group_size (ec_group_limit ?c) ?N,
                     es_filter = cf, es_has_label_keyword = kw,
                     es_min_cardinality = ec_min_cardinality ?c,
                     es_buckets = ebs, es_insert_total = 0\<rparr>"
  have "slice_fits 8 (ec_buckets ?c)" using slice_fits_buckets [of "ec_buckets ?c"] ad(8,9) assms(1) by (simp add: config_ok_def)
  then have new: "new_estimator cpus parse compile_re cfg = Inr e"
    using assms cf ebs(1) find_reserved [of "ec_group_by cfg"]
    by (simp add: new_estimator_def Let_def ad config_ok_def rejected_config_def e_def kw_def)
  have "ebs \<noteq> []" "length ebs < 2 ^ 63"
    using ebs(2) ad(8,9) assms(1) by (auto simp: config_ok_def max_buckets_def simp flip: length_greater_0_conv)
  moreover have "0 \<le> ec_group_limit ?c" using ad(5) by simp
  ultimately have ok: "estimator_ok (effective_precision cfg) e"
    unfolding estimator_ok_def using ebs(2) bk new_group_size_ok [of "ec_group_limit ?c" ?N]
      compile_filters_wf [OF cf] ad(4)
    by (simp add: e_def new_group_size_def eb_shell_def)
  have "es_global_hits e = {}" using bk by (auto simp: es_global_hits_def e_def in_set_conv_nth)
  moreover have "es_group_hits e k = {}" for k
    using bk own_index_less [OF ok, of k] by (simp add: es_group_hits_def e_def own_index_def)
  moreover have "\<forall>eb \<in> set (es_buckets e). eb_prev_sketch eb = None"
    using bk by (auto simp: e_def in_set_conv_nth)
  ultimately have "fresh_estimator cfg e"
    using ok ad by (simp add: fresh_estimator_def e_def new_group_size_def)
  then show ?thesis using new ad by (auto simp: e_def)
qed

lemma new_estimator_failed:
  "config_ok cfg \<Longrightarrow> rejected_config parse compile_re cfg
   \<Longrightarrow> \<exists>err. new_estimator cpus parse compile_re cfg = Inl (Failed err)"
  by (auto simp: new_estimator_def Let_def rejected_config_def apply_defaults_simps find_None_iff
      split: option.splits sum.splits)

text \<open>More buckets than that are a panic, unless the configuration is rejected before.\<close>

lemma new_estimator_too_many_buckets:
  assumes "label_keyword \<notin> set (butlast (ec_group_by cfg))" and "\<not> rejected_config parse compile_re cfg"
    and "max_buckets < ec_buckets cfg"
  shows "new_estimator cpus parse compile_re cfg = Inl (Panicked (BugPanic ''makeslice: len out of range''))"
proof -
  let ?c = "apply_defaults cpus cfg"
  note ad = apply_defaults_simps [where cpus = cpus and cfg = cfg]
  obtain cf where cf: "compile_filters parse compile_re (ec_filter cfg) = Inr cf"
    using assms(2) by (cases "compile_filters parse compile_re (ec_filter cfg)") (auto simp: rejected_config_def)
  have "\<not> slice_fits 8 (ec_buckets ?c)" using slice_fits_buckets [of "ec_buckets ?c"] ad(8,9) assms(3) by simp
  then show ?thesis using assms cf find_reserved [of "ec_group_by cfg"]
    by (simp add: new_estimator_def Let_def ad rejected_config_def)
qed

text \<open>Constructing an estimator from a prepared configuration never panics: it returns an error exactly when
  there are more than five group-by labels, a reserved one among them, or a filter that does not
  compile, and otherwise an estimator in a valid, empty state with the defaults applied.\<close>

theorem new_estimator_total:
  assumes "config_ok cfg"
  shows "if rejected_config parse compile_re cfg
    then \<exists>err. new_estimator cpus parse compile_re cfg = Inl (Failed err)
    else \<exists>e. new_estimator cpus parse compile_re cfg = Inr e \<and> fresh_estimator cfg e
           \<and> es_cfg e = apply_defaults cpus cfg"
  using new_estimator_failed [OF assms, of parse compile_re cpus] new_estimator_fresh [OF assms, of parse compile_re cpus]
  by auto

subsection \<open>An operation on each of several buckets\<close>

lemma for_each_bucket:
  assumes f: "\<And>eb gs. bucket_ok eb gs \<Longrightarrow> group_size_ok gs \<Longrightarrow> pre eb \<Longrightarrow>
      \<exists>eb' gs'. f eb gs = Inr (eb', gs') \<and> bucket_step_ok eb gs eb' gs' \<and> tracked eb' \<subseteq> tracked eb \<and> post eb eb'"
    and "estimator_ok p e" and "distinct is" and "\<forall>i \<in> set is. i < length (es_buckets e) \<and> pre (es_buckets e ! i)"
  shows "\<exists>e'. fold_err (\<lambda>e i. with_bucket e i f) e is = Inr e' \<and> estimator_ok p e' \<and> es_shell e' = es_shell e
    \<and> es_insert_total e' = es_insert_total e
    \<and> (\<forall>j < length (es_buckets e).
          if j \<in> set is then post (es_buckets e ! j) (es_buckets e' ! j) else es_buckets e' ! j = es_buckets e ! j)"
  using assms(2-4)
proof (induction "is" arbitrary: e)
  case Nil
  then show ?case by simp
next
  case (Cons i "is")
  have i: "i < length (es_buckets e)" and pre: "pre (es_buckets e ! i)" and ni: "i \<notin> set is" "distinct is"
    using Cons.prems by auto
  obtain eb' gs' where r: "f (es_buckets e ! i) (es_group_size e) = Inr (eb', gs')"
    "bucket_step_ok (es_buckets e ! i) (es_group_size e) eb' gs'" "tracked eb' \<subseteq> tracked (es_buckets e ! i)"
    "post (es_buckets e ! i) eb'"
    using f [OF estimator_ok_bucket(1) [OF Cons.prems(1) i] estimator_okD(3) [OF Cons.prems(1)] pre] by blast
  have own: "\<forall>k \<in> tracked eb'. own_index e k = i" using r(3) estimator_ok_bucket(5) [OF Cons.prems(1) i] by blast
  define e1 where "e1 = e\<lparr>es_buckets := (es_buckets e)[i := eb'], es_group_size := gs'\<rparr>"
  note w = with_bucket_ok [where f = f, OF Cons.prems(1) i r(1,2) own, folded e1_def]
  have bk: "es_buckets e1 ! j = (if j = i then eb' else es_buckets e ! j)" if "j < length (es_buckets e)" for j
    using that i by (simp add: e1_def)
  have len: "length (es_buckets e1) = length (es_buckets e)" by (simp add: e1_def)
  have "\<forall>j \<in> set is. j < length (es_buckets e1) \<and> pre (es_buckets e1 ! j)"
    using Cons.prems(3) ni(1) bk len by auto
  from Cons.IH [OF w [THEN conjunct2, THEN conjunct1] ni(2) this] obtain e'
    where e': "fold_err (\<lambda>e i. with_bucket e i f) e1 is = Inr e'" "estimator_ok p e'" "es_shell e' = es_shell e1"
      "es_insert_total e' = es_insert_total e1"
    and post: "\<forall>j < length (es_buckets e1).
          if j \<in> set is then post (es_buckets e1 ! j) (es_buckets e' ! j) else es_buckets e' ! j = es_buckets e1 ! j"
    by blast
  have "if j \<in> set (i # is) then post (es_buckets e ! j) (es_buckets e' ! j) else es_buckets e' ! j = es_buckets e ! j"
    if "j < length (es_buckets e)" for j
    using post [THEN spec, of j] bk [OF that] that len r(4) ni(1) by (cases "j = i") auto
  moreover have "es_insert_total e1 = es_insert_total e" by (simp add: e1_def)
  ultimately show ?case using w e' by auto
qed

lemma Union_buckets: "(\<Union>eb \<in> set (es_buckets e). g eb) = (\<Union>i < length (es_buckets e). g (es_buckets e ! i))"
proof -
  have "set (es_buckets e) = (\<lambda>i. es_buckets e ! i) ` {..<length (es_buckets e)}" by (auto simp: in_set_conv_nth)
  then show ?thesis by simp
qed

lemma es_shell_length: "es_shell e' = es_shell e \<Longrightarrow> length (es_buckets e') = length (es_buckets e)"
  by (simp add: es_shell_def)

subsection \<open>Reset\<close>

lemma estimator_reset_ok:
  assumes "estimator_ok p e" and "es_group_by e \<noteq> [] \<or> (\<forall>eb \<in> set (es_buckets e). eb_prev_sketch eb \<noteq> None)"
  shows "\<exists>e'. es_reset e = Inr e' \<and> estimator_ok p e' \<and> es_global_hits e' = {} \<and> (\<forall>k. es_group_hits e' k = {})
    \<and> gs_size (es_group_size e') = 0 \<and> es_shell e' = es_shell e"
proof -
  let ?n = "length (es_buckets e)"
  have "\<forall>i \<in> set [0..<?n]. i < ?n \<and> (eb_group_by (es_buckets e ! i) \<noteq> [] \<or> eb_prev_sketch (es_buckets e ! i) \<noteq> None)"
    using assms(2) estimator_ok_bucket(3) [OF assms(1)] by (metis atLeastLessThan_iff nth_mem set_upt)
  note bound = this
  have reset: "\<exists>eb' gs'. eb_reset eb gs = Inr (eb', gs') \<and> bucket_step_ok eb gs eb' gs' \<and> tracked eb' \<subseteq> tracked eb
      \<and> tracked eb' = {} \<and> global_hits eb' = {} \<and> (\<forall>k. group_hits eb' k = {})"
    if "bucket_ok eb gs" "group_size_ok gs" "eb_group_by eb \<noteq> [] \<or> eb_prev_sketch eb \<noteq> None" for eb gs
    using eb_reset_any [OF that] by auto
  note * = for_each_bucket [where f = eb_reset and pre = "\<lambda>eb. eb_group_by eb \<noteq> [] \<or> eb_prev_sketch eb \<noteq> None"
      and post = "\<lambda>eb eb'. tracked eb' = {} \<and> global_hits eb' = {} \<and> (\<forall>k. group_hits eb' k = {})",
      OF _ assms(1) distinct_upt bound]
  have "\<exists>e'. es_reset e = Inr e' \<and> estimator_ok p e' \<and> es_shell e' = es_shell e
        \<and> (\<forall>j < ?n. tracked (es_buckets e' ! j) = {} \<and> global_hits (es_buckets e' ! j) = {}
            \<and> (\<forall>k. group_hits (es_buckets e' ! j) k = {}))"
    using * [OF reset] unfolding es_reset_def by auto
  then obtain e' where e': "es_reset e = Inr e'" "estimator_ok p e'" "es_shell e' = es_shell e"
    and h: "\<forall>j < ?n. tracked (es_buckets e' ! j) = {} \<and> global_hits (es_buckets e' ! j) = {}
      \<and> (\<forall>k. group_hits (es_buckets e' ! j) k = {})" by blast
  note len = es_shell_length [OF e'(3)]
  have "es_global_hits e' = {}" using h len by (simp add: es_global_hits_def Union_buckets)
  moreover have "es_group_hits e' k = {}" for k
    using own_index_less [OF e'(2), of k] h len by (simp add: es_group_hits_def)
  moreover have "gs_bucket_sizes (es_group_size e') = replicate ?n 0"
    using h len estimator_okD(4) [OF e'(2)] bucket_okD(6) [OF estimator_ok_bucket(1) [OF e'(2)]]
      estimator_ok_bucket(2) [OF e'(2)] by (intro nth_equalityI) auto
  then have "gs_size (es_group_size e') = 0"
    using group_size_okD(1) [OF estimator_okD(3) [OF e'(2)]] by (simp add: sum_list_replicate)
  ultimately show ?thesis using e' by blast
qed

text \<open>The reset endpoint empties a grouping estimator, and a global one whose buckets have all rotated at least
  once: afterwards nothing is shown, no group is tracked and the counters are zero.\<close>

theorem estimator_reset_empties:
  assumes "estimator_ok p e" and "es_group_by e \<noteq> [] \<or> (\<forall>eb \<in> set (es_buckets e). eb_prev_sketch eb \<noteq> None)"
  shows "\<exists>e'. es_reset e = Inr e' \<and> estimator_ok p e' \<and> es_global_hits e' = {} \<and> (\<forall>k. es_group_hits e' k = {})
    \<and> gs_size (es_group_size e') = 0 \<and> es_shell e' = es_shell e"
  using assms by (rule estimator_reset_ok)

text \<open>Resetting a global estimator before its first rotation is a nil dereference: the previous sketch of its
  first bucket is still nil and \<^verbatim>\<open>Reset\<close> is called on it.\<close>

theorem reset_before_rotation_panics:
  assumes "fresh_estimator cfg e" and "ec_group_by cfg = []"
  shows "es_reset e = Inl NilDeref"
proof -
  have ok: "estimator_ok (effective_precision cfg) e" and gb: "es_group_by e = []"
    and prev: "\<forall>eb \<in> set (es_buckets e). eb_prev_sketch eb = None"
    using assms by (auto simp: fresh_estimator_def)
  have i: "0 < length (es_buckets e)" using estimator_okD(1) [OF ok] by simp
  then have "eb_reset (es_buckets e ! 0) (es_group_size e) = Inl NilDeref"
    using estimator_ok_bucket(3) [OF ok i] gb prev by (simp add: eb_reset_def)
  then have "with_bucket e 0 eb_reset = Inl NilDeref" using i by (simp add: with_bucket_def)
  moreover have "[0..<length (es_buckets e)] = 0 # [1..<length (es_buckets e)]" using i upt_conv_Cons by simp
  ultimately show ?thesis by (simp add: es_reset_def)
qed

subsection \<open>Rotation\<close>

fun ticks :: "nat \<Rightarrow> estimator \<times> nat \<Rightarrow> go_panic + estimator \<times> nat" where
  "ticks 0 st = Inr st"
| "ticks (Suc n) st = (case rotate_tick st of Inl p \<Rightarrow> Inl p | Inr st' \<Rightarrow> ticks n st')"

lemma with_bucket_length: "with_bucket e i f = Inr e' \<Longrightarrow> length (es_buckets e') = length (es_buckets e)"
  by (auto simp: with_bucket_def split: sum.splits if_splits prod.splits)

lemma ticks_fold:
  "i < length (es_buckets e) \<Longrightarrow>
   ticks m (e, i) = map_sum id (\<lambda>e'. (e', (i + m) mod length (es_buckets e)))
     (fold_err (\<lambda>e i. with_bucket e i eb_rotate) e (map (\<lambda>j. (i + j) mod length (es_buckets e)) [0..<m]))"
proof (induction m arbitrary: e i)
  case (Suc m)
  let ?n = "length (es_buckets e)"
  have up: "[0..<Suc m] = 0 # map Suc [0..<m]" by (simp add: upt_conv_Cons map_Suc_upt del: upt_Suc)
  show ?case
  proof (cases "with_bucket e i eb_rotate")
    case (Inl p)
    then show ?thesis using Suc.prems by (simp add: rotate_tick_def up del: upt_Suc)
  next
    case (Inr e1)
    have n: "length (es_buckets e1) = ?n" using with_bucket_length [OF Inr] .
    have "0 < ?n" using Suc.prems by linarith
    then have "(i + 1) mod ?n < ?n" by (rule mod_less_divisor)
    then have "ticks m (e1, (i + 1) mod ?n) = map_sum id (\<lambda>e'. (e', (i + Suc m) mod ?n))
     (fold_err (\<lambda>e i. with_bucket e i eb_rotate) e1 (map (\<lambda>j. (i + Suc j) mod ?n) [0..<m]))"
      using Suc.IH [of "(i + 1) mod ?n" e1] n by (simp add: mod_add_left_eq id_def)
    moreover have "ticks (Suc m) (e, i) = ticks m (e1, (i + 1) mod ?n)"
      using Inr n by (simp add: rotate_tick_def)
    moreover have "map (\<lambda>j. (i + j) mod ?n) [0..<Suc m] = i # map (\<lambda>j. (i + Suc j) mod ?n) [0..<m]"
      using Suc.prems by (simp add: up comp_def del: upt_Suc)
    ultimately show ?thesis using Inr by (simp only: fold_err.simps sum.case)
  qed
qed simp

lemma rotate_upt: "i < n \<Longrightarrow> map (\<lambda>j. (i + j) mod n) [0..<n] = rotate i [0..<n]"
  by (rule nth_equalityI) (simp_all add: nth_rotate)

lemma full_cycle:
  assumes "estimator_ok p e" and "i < length (es_buckets e)"
  shows "\<exists>e'. ticks (length (es_buckets e)) (e, i) = Inr (e', i) \<and> estimator_ok p e' \<and> es_shell e' = es_shell e
    \<and> (\<forall>j < length (es_buckets e). global_gens (es_buckets e' ! j) = ({}, fst (global_gens (es_buckets e ! j)))
        \<and> (\<forall>k. group_gens (es_buckets e' ! j) k = ({}, fst (group_gens (es_buckets e ! j) k))))"
proof -
  let ?n = "length (es_buckets e)"
  have d: "distinct (rotate i [0..<?n])" by simp
  have m: "\<forall>j \<in> set (rotate i [0..<?n]). j < ?n \<and> True" by simp
  from for_each_bucket [where f = eb_rotate and pre = "\<lambda>_. True"
      and post = "\<lambda>eb eb'. global_gens eb' = ({}, fst (global_gens eb)) \<and> (\<forall>k. group_gens eb' k = ({}, fst (group_gens eb k)))",
      OF _ assms(1) d m] eb_rotate_any
  obtain e' where e': "fold_err (\<lambda>e i. with_bucket e i eb_rotate) e (rotate i [0..<?n]) = Inr e'"
      "estimator_ok p e'" "es_shell e' = es_shell e"
    and g: "\<forall>j < ?n. global_gens (es_buckets e' ! j) = ({}, fst (global_gens (es_buckets e ! j)))
        \<and> (\<forall>k. group_gens (es_buckets e' ! j) k = ({}, fst (group_gens (es_buckets e ! j) k)))"
    by auto
  have "ticks ?n (e, i) = Inr (e', i)"
    unfolding ticks_fold [OF assms(2)] rotate_upt [OF assms(2)] e'(1) using assms(2) by simp
  with e' g show ?thesis by blast
qed

lemma es_hits_gens:
  "global_hits eb = fst (global_gens eb) \<union> snd (global_gens eb)"
  "group_hits eb k = fst (group_gens eb k) \<union> snd (group_gens eb k)"
  by (simp_all add: global_hits_def global_gens_def group_hits_def group_gens_def)

text \<open>One full cycle of the rotation (as many ticks as there are buckets, half the configured interval) rotates
  every bucket exactly once wherever it starts, and two cycles without insertions empty the estimator:
  nothing outlives the configured interval.\<close>

theorem rotation_two_cycles_empty:
  assumes "estimator_ok p e" and "i < length (es_buckets e)"
  shows "\<exists>e1 e2. ticks (length (es_buckets e)) (e, i) = Inr (e1, i)
    \<and> es_global_hits e1 \<subseteq> es_global_hits e
    \<and> ticks (length (es_buckets e)) (e1, i) = Inr (e2, i)
    \<and> estimator_ok p e2 \<and> es_global_hits e2 = {} \<and> (\<forall>k. es_group_hits e2 k = {})"
proof -
  let ?n = "length (es_buckets e)"
  from full_cycle [OF assms] obtain e1 where e1: "ticks ?n (e, i) = Inr (e1, i)" "estimator_ok p e1" "es_shell e1 = es_shell e"
    and g1: "\<forall>j < ?n. global_gens (es_buckets e1 ! j) = ({}, fst (global_gens (es_buckets e ! j)))
        \<and> (\<forall>k. group_gens (es_buckets e1 ! j) k = ({}, fst (group_gens (es_buckets e ! j) k)))" by blast
  note l1 = es_shell_length [OF e1(3)]
  have i1: "i < length (es_buckets e1)" using assms(2) l1 by simp
  from full_cycle [OF e1(2) i1] obtain e2 where e2: "ticks ?n (e1, i) = Inr (e2, i)" "estimator_ok p e2" "es_shell e2 = es_shell e1"
    and g2: "\<forall>j < ?n. global_gens (es_buckets e2 ! j) = ({}, fst (global_gens (es_buckets e1 ! j)))
        \<and> (\<forall>k. group_gens (es_buckets e2 ! j) k = ({}, fst (group_gens (es_buckets e1 ! j) k)))" unfolding l1 by blast
  note l2 = es_shell_length [OF e2(3)]
  have "es_global_hits e1 \<subseteq> es_global_hits e"
    using g1 l1 by (auto simp: es_global_hits_def Union_buckets es_hits_gens)
  moreover have "es_global_hits e2 = {}"
    using g1 g2 l1 l2 by (auto simp: es_global_hits_def Union_buckets es_hits_gens)
  moreover have "es_group_hits e2 k = {}" for k
    using g1 g2 own_index_less [OF e2(2), of k] l1 l2 by (simp add: es_group_hits_def es_hits_gens)
  ultimately show ?thesis using e1(1) e2(1,2) by blast
qed

subsection \<open>Concrete instances\<close>

text \<open>The configuration of a stream with only \<^verbatim>\<open>group_by\<close> set, and a series of one label.\<close>

definition plain_config :: "string list \<Rightarrow> estimator_config" where
  "plain_config gb =
     \<lparr>ec_filter = [], ec_group_by = gb, ec_group_limit = 0, ec_labels = [], ec_interval = 0,
      ec_calculate_churn = False, ec_buckets = 0, ec_hll_precision = 4, ec_hll_sparse = None,
      ec_min_cardinality = 0\<rparr>"

definition serie1 :: "string \<Rightarrow> string \<Rightarrow> u64 \<Rightarrow> time_serie" where
  "serie1 name v fp = \<lparr>ts_labels = [\<lparr>lb_name = name, lb_value = v, lb_fingerprint = 0\<rparr>], ts_fingerprint = fp\<rparr>"

lemma plain_estimator:
  assumes "length gb \<le> 5" and "''__global__'' \<notin> set gb" and "''__group__'' \<notin> set gb" and "label_keyword \<notin> set gb"
  shows "\<exists>e. new_estimator 2 (\<lambda>_. Inl []) (\<lambda>_. Inl []) (plain_config gb) = Inr e
    \<and> fresh_estimator (plain_config gb) e \<and> estimator_ok 4 e \<and> es_group_by e = gb
    \<and> es_global_hits e = {} \<and> (\<forall>k. es_group_hits e k = {}) \<and> gs_size (es_group_size e) = 0
    \<and> gs_limit (es_group_size e) = 10000 \<and> es_filter e = [] \<and> \<not> es_has_label_keyword e \<and> length (es_buckets e) = 4"
proof -
  have ok: "config_ok (plain_config gb)"
    using assms(4) by (auto simp: config_ok_def plain_config_def dest: in_set_butlastD)
  have nr: "\<not> rejected_config (\<lambda>_. Inl []) (\<lambda>_. Inl []) (plain_config gb)"
    using assms by (simp add: rejected_config_def plain_config_def compile_filters_def)
  obtain e where e: "new_estimator 2 (\<lambda>_. Inl []) (\<lambda>_. Inl []) (plain_config gb) = Inr e"
    "fresh_estimator (plain_config gb) e" using new_estimator_fresh [OF ok nr, of 2] by blast
  have "gb \<noteq> [] \<Longrightarrow> last gb \<noteq> label_keyword" using assms(4) last_in_set by metis
  then have "es_filter e = [] \<and> \<not> es_has_label_keyword e" using e(1) assms
    by (auto simp: new_estimator_def Let_def plain_config_def apply_defaults_def compile_filters_def
        find_reserved label_keyword_def split: sum.splits option.splits if_splits)
  moreover obtain ebs where "new_buckets (apply_defaults 2 (plain_config gb)) (es_has_label_keyword e) = Inr ebs"
    "es_buckets e = ebs" using e(1) assms
    by (auto simp: new_estimator_def Let_def plain_config_def apply_defaults_def compile_filters_def
        find_reserved label_keyword_def split: sum.splits option.splits if_splits)
  then have "length (es_buckets e) = 4"
    using new_buckets_ok [of "apply_defaults 2 (plain_config gb)" True "es_has_label_keyword e"]
    by (auto simp: plain_config_def apply_defaults_def)
  ultimately show ?thesis using e
    by (auto simp: fresh_estimator_def effective_precision_def plain_config_def)
qed

lemmas plain_global = plain_estimator [of "[]", simplified]

theorem insert_many_global_witness:
  "\<exists>e e'. new_estimator 2 (\<lambda>_. Inl []) (\<lambda>_. Inl []) (plain_config []) = Inr e
    \<and> insert_many (\<lambda>_. 0) 1 e [serie1 ''job'' ''a'' 5, serie1 ''job'' ''b'' 9] = Inr e'
    \<and> es_global_hits e' = fp_hits 4 5 \<union> fp_hits 4 9"
proof -
  obtain e where e: "new_estimator 2 (\<lambda>_. Inl []) (\<lambda>_. Inl []) (plain_config []) = Inr e" "estimator_ok 4 e"
    "es_group_by e = []" "es_global_hits e = {}" "es_filter e = []" using plain_global by blast
  have "start_ok 1 [serie1 ''job'' ''a'' 5, serie1 ''job'' ''b'' 9]" by (simp add: start_ok_def)
  from insert_many_global [OF e(2,3) this, of "\<lambda>_. 0"]
  obtain e' where e': "insert_many (\<lambda>_. 0) 1 e [serie1 ''job'' ''a'' 5, serie1 ''job'' ''b'' 9] = Inr e'"
    "es_global_hits e' = (\<Union>ts \<in> set [serie1 ''job'' ''a'' 5, serie1 ''job'' ''b'' 9]. fp_hits 4 (ts_fingerprint ts))"
    using e(4,5) by auto
  then have "es_global_hits e' = fp_hits 4 5 \<union> fp_hits 4 9" by (simp add: serie1_def)
  with e(1) e'(1) show ?thesis by blast
qed

theorem insert_many_groups_witness:
  "\<exists>e e'. new_estimator 2 (\<lambda>_. Inl []) (\<lambda>_. Inl []) (plain_config [''job'']) = Inr e
    \<and> insert_many (\<lambda>d. of_nat (length d)) 1 e [serie1 ''job'' ''a'' 5, serie1 ''job'' ''bc'' 9] = Inr e'
    \<and> es_group_hits e' 2 = fp_hits 4 5 \<and> es_group_hits e' 3 = fp_hits 4 9 \<and> es_group_hits e' 4 = {}"
proof -
  obtain e where e: "new_estimator 2 (\<lambda>_. Inl []) (\<lambda>_. Inl []) (plain_config [''job'']) = Inr e" "estimator_ok 4 e"
    "es_group_by e = [''job'']" "\<forall>k. es_group_hits e k = {}" "es_filter e = []" "\<not> es_has_label_keyword e"
    "gs_size (es_group_size e) = 0" "gs_limit (es_group_size e) = 10000"
    using plain_estimator [of "[''job'']"] by (auto simp: label_keyword_def)
  let ?tss = "[serie1 ''job'' ''a'' 5, serie1 ''job'' ''bc'' 9]"
  have ins: "request_insertions (\<lambda>d. of_nat (length d)) e ?tss =
      [\<lparr>in_bucket_key = 2, in_fp = 5, in_key = 2, in_values = [''a'']\<rparr>,
       \<lparr>in_bucket_key = 3, in_fp = 9, in_key = 3, in_values = [''bc'']\<rparr>]"
    using e by (simp add: request_insertions_def serie_insertions_def group_scan_def explicit_keys_def serie1_def)
  have st: "start_ok 1 ?tss" by (simp add: start_ok_def)
  have gb: "es_group_by e \<noteq> []" using e(3) by simp
  from insert_many_groups [OF e(2) gb st, of "\<lambda>d. of_nat (length d)"] obtain e'
    where e': "insert_many (\<lambda>d. of_nat (length d)) 1 e ?tss = Inr e'"
      "\<forall>k. es_group_hits e' k = es_group_hits e k \<union>
        (\<Union>i \<in> {i \<in> set (request_insertions (\<lambda>d. of_nat (length d)) e ?tss). in_key i = k}. fp_hits 4 (in_fp i))"
    using e(7,8) unfolding ins by auto
  have "es_group_hits e' 2 = fp_hits 4 5" "es_group_hits e' 3 = fp_hits 4 9" "es_group_hits e' 4 = {}"
    using e'(2) [THEN spec, of 2] e'(2) [THEN spec, of 3] e'(2) [THEN spec, of 4] e(4)
    unfolding ins set_filter [symmetric] by simp_all
  with e(1) e'(1) show ?thesis by blast
qed

theorem group_key_ignores_label_witness:
  "\<exists>e i1 i2. new_estimator 2 (\<lambda>_. Inl []) (\<lambda>_. Inl []) (plain_config [''a'', ''b'']) = Inr e
    \<and> serie_insertions (\<lambda>_. 7) e (serie1 ''a'' ''x'' 1) = [i1] \<and> serie_insertions (\<lambda>_. 7) e (serie1 ''b'' ''x'' 2) = [i2]
    \<and> in_key i1 = in_key i2"
proof -
  obtain e where e: "new_estimator 2 (\<lambda>_. Inl []) (\<lambda>_. Inl []) (plain_config [''a'', ''b'']) = Inr e"
    "es_group_by e = [''a'', ''b'']" "es_filter e = []" "\<not> es_has_label_keyword e"
    using plain_estimator [of "[''a'', ''b'']"] by (auto simp: label_keyword_def)
  from group_key_ignores_label [OF e(2,4,3) serie1_def serie1_def, of "\<lambda>_. 7" "''x''" 1 2] e(1)
  show ?thesis by blast
qed

theorem new_estimator_total_witness:
  "\<exists>e. new_estimator 2 (\<lambda>_. Inl []) (\<lambda>_. Inl []) (plain_config []) = Inr e \<and> fresh_estimator (plain_config []) e"
proof -
  have "config_ok (plain_config [])" by (simp add: config_ok_def plain_config_def)
  from new_estimator_total [OF this, of "\<lambda>_. Inl []" "\<lambda>_. Inl []" 2] show ?thesis
    by (auto simp: rejected_config_def plain_config_def compile_filters_def)
qed

theorem estimator_reset_empties_witness:
  "\<exists>e e'. new_estimator 2 (\<lambda>_. Inl []) (\<lambda>_. Inl []) (plain_config [''job'']) = Inr e
    \<and> es_reset e = Inr e' \<and> gs_size (es_group_size e') = 0"
proof -
  obtain e where e: "new_estimator 2 (\<lambda>_. Inl []) (\<lambda>_. Inl []) (plain_config [''job'']) = Inr e" "estimator_ok 4 e"
    "es_group_by e = [''job'']" using plain_estimator [of "[''job'']"] by (auto simp: label_keyword_def)
  then show ?thesis using estimator_reset_empties [OF e(2)] by auto
qed

theorem reset_before_rotation_panics_witness:
  "\<exists>e. new_estimator 2 (\<lambda>_. Inl []) (\<lambda>_. Inl []) (plain_config []) = Inr e \<and> es_reset e = Inl NilDeref"
proof -
  obtain e where e: "new_estimator 2 (\<lambda>_. Inl []) (\<lambda>_. Inl []) (plain_config []) = Inr e"
    "fresh_estimator (plain_config []) e" using plain_global by blast
  then show ?thesis using reset_before_rotation_panics [OF e(2)] by (auto simp: plain_config_def)
qed

theorem rotation_two_cycles_empty_witness:
  "\<exists>e e1 e2. new_estimator 2 (\<lambda>_. Inl []) (\<lambda>_. Inl []) (plain_config []) = Inr e
    \<and> ticks 4 (e, 3) = Inr (e1, 3) \<and> ticks 4 (e1, 3) = Inr (e2, 3) \<and> es_global_hits e2 = {}"
proof -
  obtain e where e: "new_estimator 2 (\<lambda>_. Inl []) (\<lambda>_. Inl []) (plain_config []) = Inr e" "estimator_ok 4 e"
    "length (es_buckets e) = 4" using plain_global by blast
  have "3 < length (es_buckets e)" using e(3) by simp
  from rotation_two_cycles_empty [OF e(2) this] e show ?thesis by auto
qed

end
