(* ===== verification/Metrics_Text.thy ===== *)
theory Metrics_Text
  imports Snapshot
begin

section \<open>Metrics in text form (\<^verbatim>\<open>snapshot.go\<close>)\<close>

text \<open>
  The exposition text: one line per group that reaches the cardinality threshold, the number of groups
  that do not, the size of the group set and its limit.  An \<^verbatim>\<open>io.Writer\<close> is a function on its own state
  that may return an error; \<open>ip\<close> is the table of printable runes above \<open>0xFF\<close> and \<open>fl\<close> the
  floating-point part of \<^verbatim>\<open>Estimate\<close>.  Estimating compacts the sketch that is read
  (\<open>sk_estimate_ok\<close>: what it knows stays the same); the snapshots written here are not read again, so
  the compacted sketch is dropped.
\<close>

type_synonym 'w writer = "'w \<Rightarrow> string \<Rightarrow> 'w \<times> string option"

definition nl :: string where
  "nl = [CHR 0x0A]"

subsection \<open>Labels\<close>

definition append_group_by_keys_label ::
  "(nat \<Rightarrow> bool) \<Rightarrow> string \<Rightarrow> string \<Rightarrow> string list \<Rightarrow> string" where
  "append_group_by_keys_label ip buf label_name keys =
     buf @ label_name @ ''='' @ quote ip (join '','' keys)"

definition static_labels :: "(nat \<Rightarrow> bool) \<Rightarrow> (string, string) gomap \<Rightarrow> string" where
  "static_labels ip labels =
     concat (map (\<lambda>k. '','' @ k @ ''='' @ quote ip (str_index labels k)) (sort (map fst labels)))"

definition append_metric_prefix ::
  "(nat \<Rightarrow> bool) \<Rightarrow> string \<Rightarrow> (string, string) gomap \<Rightarrow> duration \<Rightarrow> string \<Rightarrow> string" where
  "append_metric_prefix ip buf labels interval flt =
     buf @ ''cardinality_estimate{interval='' @ quote ip (duration_string interval)
         @ '',filter='' @ quote ip flt @ static_labels ip labels"

definition global_keys_label :: string where
  "global_keys_label = '',group_by_keys='' @ [CHR 0x22] @ ''__global__'' @ [CHR 0x22] @ ''} ''"

definition group_keys_label :: string where
  "group_keys_label = '',group_by_keys='' @ [CHR 0x22] @ ''__group__'' @ [CHR 0x22] @ '',''"

definition append_global_metric :: "string \<Rightarrow> string \<Rightarrow> string" where
  "append_global_metric buf metric_prefix = buf @ metric_prefix @ global_keys_label"

definition append_group_size_metric :: "(nat \<Rightarrow> bool) \<Rightarrow> string \<Rightarrow> string \<Rightarrow> string list \<Rightarrow> string" where
  "append_group_size_metric ip buf metric_prefix keys =
     append_group_by_keys_label ip (buf @ metric_prefix @ group_keys_label) ''group_by_values'' keys @ ''} ''"

text \<open>\<^verbatim>\<open>appendGroupLimitMetric\<close> starts by truncating the buffer it is given.\<close>

definition append_group_limit_metric :: "(nat \<Rightarrow> bool) \<Rightarrow> string list \<Rightarrow> duration \<Rightarrow> string \<Rightarrow> string" where
  "append_group_limit_metric ip keys interval flt =
     append_group_by_keys_label ip
       (''vmestimator_estimator_group_limit{interval='' @ quote ip (duration_string interval)
        @ '',filter='' @ quote ip flt @ group_keys_label) ''group_by_values'' keys @ ''} ''"

definition value_label_name :: "string \<Rightarrow> string" where
  "value_label_name key =
     (if key = ''__name__'' then ''by__name__''
      else if key = ''__label__'' then ''by__label__''
      else ''by_'' @ key)"

fun append_values :: "(nat \<Rightarrow> bool) \<Rightarrow> string list \<Rightarrow> string list \<Rightarrow> string \<Rightarrow> go_panic + string" where
  "append_values ip keys [] buf = Inr buf"
| "append_values ip [] (v # vs) buf = Inl IndexOutOfRange"
| "append_values ip (k # ks) (v # vs) buf =
     append_values ip ks vs (buf @ '','' @ value_label_name k @ ''='' @ quote ip v)"

definition append_group_metrics ::
  "(nat \<Rightarrow> bool) \<Rightarrow> string \<Rightarrow> string \<Rightarrow> string \<Rightarrow> string list \<Rightarrow> string list \<Rightarrow> go_panic + string" where
  "append_group_metrics ip buf metric_prefix keys_label keys values =
     map_sum id (\<lambda>b. b @ ''} '')
       (append_values ip keys values
          (buf @ metric_prefix @ '','' @ keys_label @ '','' @ ''group_by_values='' @ quote ip (join '','' values)))"

subsection \<open>Writing\<close>

text \<open>\<^verbatim>\<open>threshold\<close>: a positive setting of the stream overrides the flag, a negative one disables it.\<close>

definition cardinality_threshold :: "u64 \<Rightarrow> int \<Rightarrow> u64" where
  "cardinality_threshold flag min_cardinality =
     (if min_cardinality > 0 then word_of_int min_cardinality
      else if min_cardinality < 0 then 0 else flag)"

definition estimate_of :: "hll_float \<Rightarrow> snapshot_sketch \<Rightarrow> u64" where
  "estimate_of fl ss = fst (sk_estimate fl (ss_sketch ss))"

definition group_line ::
  "(nat \<Rightarrow> bool) \<Rightarrow> hll_float \<Rightarrow> snapshot \<Rightarrow> snapshot_sketch \<Rightarrow> go_panic + string" where
  "group_line ip fl s ss =
     map_sum id (\<lambda>b. b @ format_uint (unat (estimate_of fl ss)) @ nl)
       (append_group_metrics ip []
          (append_metric_prefix ip [] (sn_labels s) (sn_interval s) (sn_filter s))
          (append_group_by_keys_label ip [] ''group_by_keys'' (sn_group_by s))
          (sn_group_by s) (ss_values ss))"

fun write_groups ::
  "(nat \<Rightarrow> bool) \<Rightarrow> hll_float \<Rightarrow> 'w writer \<Rightarrow> u64 \<Rightarrow> snapshot \<Rightarrow> snapshot_sketch list \<Rightarrow> 'w \<Rightarrow> u64
   \<Rightarrow> go_panic + 'w \<times> u64 \<times> string option" where
  "write_groups ip fl wr threshold s [] w dropped = Inr (w, dropped, None)"
| "write_groups ip fl wr threshold s (ss # sss) w dropped =
     (if estimate_of fl ss < threshold
      then write_groups ip fl wr threshold s sss w (dropped + 1)
      else (case group_line ip fl s ss of
              Inl p \<Rightarrow> Inl p
            | Inr line \<Rightarrow>
                (case wr w line of
                   (w', Some err) \<Rightarrow> Inr (w', 0, Some err)
                 | (w', None) \<Rightarrow> write_groups ip fl wr threshold s sss w' dropped)))"

definition write_cardinality_estimates ::
  "(nat \<Rightarrow> bool) \<Rightarrow> hll_float \<Rightarrow> u64 \<Rightarrow> 'w writer \<Rightarrow> snapshot \<Rightarrow> 'w \<Rightarrow> go_panic + 'w \<times> u64 \<times> string option" where
  "write_cardinality_estimates ip fl flag wr s w =
     (if sn_group_by s = []
      then (case map_of (sn_sketches s) 0 of
              None \<Rightarrow> Inl NilDeref
            | Some ss \<Rightarrow>
                (case wr w (append_global_metric []
                              (append_metric_prefix ip [] (sn_labels s) (sn_interval s) (sn_filter s))
                            @ format_uint (unat (estimate_of fl ss)) @ nl) of
                   (w', err) \<Rightarrow> Inr (w', 0, err)))
      else write_groups ip fl wr (cardinality_threshold flag (sn_min_cardinality s)) s
             (map snd (sn_sketches s)) w 0)"

definition wrapped :: "string option \<Rightarrow> string option" where
  "wrapped err = map_option (\<lambda>e. ''write: '' @ e) err"

definition write_group_size_and_limit ::
  "(nat \<Rightarrow> bool) \<Rightarrow> 'w writer \<Rightarrow> snapshot \<Rightarrow> int \<Rightarrow> 'w \<Rightarrow> 'w \<times> string option" where
  "write_group_size_and_limit ip wr s sz w =
     (case wr w (append_group_size_metric ip []
                   (append_metric_prefix ip [] (sn_labels s) (sn_interval s) (sn_filter s)) (sn_group_by s)
                 @ format_int sz @ nl) of
        (w1, Some err) \<Rightarrow> (w1, wrapped (Some err))
      | (w1, None) \<Rightarrow>
          (case wr w1 (append_group_limit_metric ip (sn_group_by s) (sn_interval s) (sn_filter s)
                       @ format_int (sn_group_limit s) @ nl) of
             (w2, err) \<Rightarrow> (w2, wrapped err)))"

definition dropped_line :: "(nat \<Rightarrow> bool) \<Rightarrow> snapshot \<Rightarrow> u64 \<Rightarrow> string" where
  "dropped_line ip s dropped =
     append_group_by_keys_label ip
       (''vmestimator_cardinality_estimates_dropped{interval='' @ quote ip (duration_string (sn_interval s))
        @ '',filter='' @ quote ip (sn_filter s) @ '','') ''group_by_keys'' (sn_group_by s)
     @ ''} '' @ format_uint (unat dropped) @ nl"

definition write_dropped_metric ::
  "(nat \<Rightarrow> bool) \<Rightarrow> 'w writer \<Rightarrow> snapshot \<Rightarrow> u64 \<Rightarrow> 'w \<Rightarrow> go_panic + 'w \<times> string option" where
  "write_dropped_metric ip wr s dropped w =
     (if sn_group_by s = [] then Inl (BugPanic ''writeDroppedMetric called for global snapshot'')
      else (case wr w (dropped_line ip s dropped) of (w', err) \<Rightarrow> Inr (w', wrapped err)))"

definition sn_write_metrics ::
  "(nat \<Rightarrow> bool) \<Rightarrow> hll_float \<Rightarrow> u64 \<Rightarrow> 'w writer \<Rightarrow> snapshot \<Rightarrow> 'w \<Rightarrow> go_panic + 'w \<times> string option" where
  "sn_write_metrics ip fl flag wr s w =
     (case write_cardinality_estimates ip fl flag wr s w of
        Inl p \<Rightarrow> Inl p
      | Inr (w1, dropped, Some err) \<Rightarrow> Inr (w1, Some err)
      | Inr (w1, dropped, None) \<Rightarrow>
          if sn_group_by s = [] then Inr (w1, None)
          else (case (if dropped > 0 then write_dropped_metric ip wr s dropped w1 else Inr (w1, None)) of
                  Inl p \<Rightarrow> Inl p
                | Inr (w2, Some err) \<Rightarrow> Inr (w2, Some err)
                | Inr (w2, None) \<Rightarrow>
                    Inr (write_group_size_and_limit ip wr s
                           (wrap_i64 (int (length (sn_sketches s)) + sn_group_reject_size s)) w2)))"

fun ss_write_metrics ::
  "(nat \<Rightarrow> bool) \<Rightarrow> hll_float \<Rightarrow> u64 \<Rightarrow> 'w writer \<Rightarrow> snapshots \<Rightarrow> 'w \<Rightarrow> go_panic + 'w \<times> string option" where
  "ss_write_metrics ip fl flag wr [] w = Inr (w, None)"
| "ss_write_metrics ip fl flag wr ((i, s) # ss) w =
     (case sn_write_metrics ip fl flag wr s w of
        Inl p \<Rightarrow> Inl p
      | Inr (w', Some err) \<Rightarrow> Inr (w', Some err)
      | Inr (w', None) \<Rightarrow> ss_write_metrics ip fl flag wr ss w')"

subsection \<open>Lines\<close>

text \<open>A well-formed line contains exactly one line break, at its end.\<close>

definition one_line :: "string \<Rightarrow> bool" where
  "one_line l \<longleftrightarrow> (\<exists>b. l = b @ nl \<and> CHR 0x0A \<notin> set b)"

lemma one_line_nl [simp]: "one_line (b @ nl) \<longleftrightarrow> CHR 0x0A \<notin> set b"
  by (auto simp: one_line_def)

text \<open>
  Values are quoted, but label names are written as they are: those of the static labels in every line but
  that of the limit, and as many \<^verbatim>\<open>group_by\<close> keys as there are values in the line of a group.
\<close>

definition printed_names :: "hll_float \<Rightarrow> u64 \<Rightarrow> snapshot \<Rightarrow> string set" where
  "printed_names fl flag s = map_keys (sn_labels s)
     \<union> (\<Union>ss \<in> {ss \<in> snd ` set (sn_sketches s). cardinality_threshold flag (sn_min_cardinality s) \<le> estimate_of fl ss}.
          set (take (length (ss_values ss)) (sn_group_by s)))"

definition names_ok :: "snapshot \<Rightarrow> bool" where
  "names_ok s \<longleftrightarrow> (\<forall>k \<in> map_keys (sn_labels s). CHR 0x0A \<notin> set k) \<and> (\<forall>k \<in> set (sn_group_by s). CHR 0x0A \<notin> set k)"

lemma names_ok_printed: "names_ok s \<Longrightarrow> \<forall>k \<in> printed_names fl flag s. CHR 0x0A \<notin> set k"
  by (auto simp: names_ok_def printed_names_def dest: in_set_takeD)

lemma format_uint_no_newline: "CHR 0x0A \<notin> set (format_uint n)"
  using set_format_uint [of n] digit_not_newline by force

lemma format_int_no_newline: "CHR 0x0A \<notin> set (format_int i)"
  by (simp add: format_int_def format_uint_no_newline)

lemma static_labels_newline:
  "CHR 0x0A \<in> set (static_labels ip labels) \<longleftrightarrow> (\<exists>k \<in> map_keys labels. CHR 0x0A \<in> set k)"
  by (auto simp: static_labels_def quote_no_newline)

lemma prefix_newline:
  "CHR 0x0A \<in> set (append_metric_prefix ip [] labels interval flt) \<longleftrightarrow> (\<exists>k \<in> map_keys labels. CHR 0x0A \<in> set k)"
  by (simp add: append_metric_prefix_def quote_no_newline static_labels_newline)

lemma append_values_newline:
  "append_values ip keys vals buf = Inr b \<Longrightarrow>
   CHR 0x0A \<in> set b \<longleftrightarrow> CHR 0x0A \<in> set buf \<or> (\<exists>k \<in> set (take (length vals) keys). CHR 0x0A \<in> set k)"
  by (induction ip keys vals buf rule: append_values.induct)
    (auto simp: quote_no_newline value_label_name_def split: if_splits)

lemma static_labels_no_newline:
  "\<forall>k \<in> map_keys labels. CHR 0x0A \<notin> set k \<Longrightarrow> CHR 0x0A \<notin> set (static_labels ip labels)"
  by (simp add: static_labels_newline)

lemma append_values_no_newline:
  "append_values ip keys vals buf = Inr b \<Longrightarrow> CHR 0x0A \<notin> set buf \<Longrightarrow> \<forall>k \<in> set keys. CHR 0x0A \<notin> set k
   \<Longrightarrow> CHR 0x0A \<notin> set b"
  using append_values_newline by (blast dest: in_set_takeD)

lemma append_values_total: "length vals \<le> length keys \<Longrightarrow> \<exists>b. append_values ip keys vals buf = Inr b"
  by (induction ip keys vals buf rule: append_values.induct) auto

lemma group_line_total: "length (ss_values ss) \<le> length (sn_group_by s) \<Longrightarrow> \<exists>l. group_line ip fl s ss = Inr l"
proof -
  assume "length (ss_values ss) \<le> length (sn_group_by s)"
  then have "\<exists>b. append_values ip (sn_group_by s) (ss_values ss) buf = Inr b" for buf
    by (rule append_values_total)
  then show ?thesis unfolding group_line_def append_group_metrics_def by (metis map_sum.simps(2))
qed

lemma group_line_one_line:
  assumes "group_line ip fl s ss = Inr l"
  shows "one_line l \<longleftrightarrow> (\<forall>k \<in> map_keys (sn_labels s) \<union> set (take (length (ss_values ss)) (sn_group_by s)). CHR 0x0A \<notin> set k)"
proof -
  let ?buf = "append_metric_prefix ip [] (sn_labels s) (sn_interval s) (sn_filter s) @ '',''
         @ append_group_by_keys_label ip [] ''group_by_keys'' (sn_group_by s) @ '',''
         @ ''group_by_values='' @ quote ip (join '','' (ss_values ss))"
  obtain b where b: "append_values ip (sn_group_by s) (ss_values ss) ?buf = Inr b"
    and l: "l = (b @ ''} '' @ format_uint (unat (estimate_of fl ss))) @ nl"
    using assms by (cases "append_values ip (sn_group_by s) (ss_values ss) ?buf") (auto simp: group_line_def append_group_metrics_def)
  have "CHR 0x0A \<in> set ?buf \<longleftrightarrow> (\<exists>k \<in> map_keys (sn_labels s). CHR 0x0A \<in> set k)"
    by (simp add: prefix_newline append_group_by_keys_label_def quote_no_newline)
  then show ?thesis unfolding l one_line_nl using append_values_newline [OF b] format_uint_no_newline by auto
qed

subsection \<open>What is written\<close>

text \<open>A writer that never fails and keeps everything.\<close>

definition collect :: "string list writer" where
  "collect w l = (w @ [l], None)"

definition the_line :: "(nat \<Rightarrow> bool) \<Rightarrow> hll_float \<Rightarrow> snapshot \<Rightarrow> snapshot_sketch \<Rightarrow> string" where
  "the_line ip fl s ss = (case group_line ip fl s ss of Inl _ \<Rightarrow> [] | Inr l \<Rightarrow> l)"

definition values_ok :: "snapshot \<Rightarrow> bool" where
  "values_ok s \<longleftrightarrow> (\<forall>ss \<in> snd ` set (sn_sketches s). length (ss_values ss) \<le> length (sn_group_by s))"

lemma the_line:
  "length (ss_values ss) \<le> length (sn_group_by s) \<Longrightarrow> group_line ip fl s ss = Inr (the_line ip fl s ss)"
  using group_line_total [of ss s ip fl] by (auto simp: the_line_def)

lemma write_groups_collect:
  assumes "\<forall>ss \<in> set sss. length (ss_values ss) \<le> length (sn_group_by s)"
  shows "write_groups ip fl collect thr s sss w d
    = Inr (w @ map (the_line ip fl s) (List.filter (\<lambda>ss. thr \<le> estimate_of fl ss) sss),
           d + of_nat (length (List.filter (\<lambda>ss. estimate_of fl ss < thr) sss)), None)"
  using assms
proof (induction sss arbitrary: w d)
  case (Cons ss sss)
  then show ?case
    by (simp add: the_line collect_def not_less [symmetric] algebra_simps)
qed simp

text \<open>C21: For a group snapshot exactly the groups whose estimate reaches the threshold are written, in order, one
  line each, and the returned count is the number of the others: written and dropped together are all
  groups.  A negative \<^verbatim>\<open>min_cardinality\<close> writes all of them.\<close>

theorem estimates_written_or_dropped:
  fixes flag :: u64
  assumes "sn_group_by s \<noteq> []" and "values_ok s"
  defines "thr \<equiv> cardinality_threshold flag (sn_min_cardinality s)"
  shows "\<exists>lines. write_cardinality_estimates ip fl flag collect s [] =
      Inr (lines, of_nat (length (sn_sketches s) - length lines), None)
    \<and> lines = map (the_line ip fl s) (List.filter (\<lambda>ss. thr \<le> estimate_of fl ss) (map snd (sn_sketches s)))
    \<and> (sn_min_cardinality s < 0 \<longrightarrow> length lines = length (sn_sketches s))"
proof -
  let ?sss = "map snd (sn_sketches s)"
  have "length (List.filter (\<lambda>ss. thr \<le> estimate_of fl ss) ?sss)
      + length (List.filter (\<lambda>ss. estimate_of fl ss < thr) ?sss) = length ?sss"
    using sum_length_filter_compl [of "\<lambda>ss. thr \<le> estimate_of fl ss" ?sss] by (simp add: not_le)
  then have c: "length (List.filter (\<lambda>ss. estimate_of fl ss < thr) ?sss)
      = length (sn_sketches s) - length (List.filter (\<lambda>ss. thr \<le> estimate_of fl ss) ?sss)" by simp
  have "\<forall>ss \<in> set ?sss. length (ss_values ss) \<le> length (sn_group_by s)"
    using assms(2) by (auto simp: values_ok_def)
  from write_groups_collect [OF this, of ip fl thr "[]" 0] assms(1) c
  show ?thesis by (simp add: write_cardinality_estimates_def thr_def cardinality_threshold_def)
qed

theorem estimates_written_or_dropped_witness:
  "\<exists>lines. write_cardinality_estimates (\<lambda>_. True) \<lparr>linear_count = (\<lambda>_. 3), beta_count = (\<lambda>_ _. 0)\<rparr> 9 collect
       (new_snapshot\<lparr>sn_group_by := [''job''], sn_min_cardinality := - 1,
          sn_sketches := [(1, \<lparr>ss_values = [''a''], ss_sketch = \<lparr>sk_p = 4, sk_created_sparse = True, sk_tmp = [],
             sk_list = Some [], sk_regs = []\<rparr>\<rparr>)]\<rparr>) [] = Inr (lines, 0, None) \<and> length lines = 1"
proof -
  let ?s = "new_snapshot\<lparr>sn_group_by := [''job''], sn_min_cardinality := - 1,
          sn_sketches := [(1 :: u64, \<lparr>ss_values = [''a''], ss_sketch = \<lparr>sk_p = 4, sk_created_sparse = True, sk_tmp = [],
             sk_list = Some [], sk_regs = []\<rparr>\<rparr>)]\<rparr>"
  have "sn_group_by ?s \<noteq> []" "values_ok ?s" by (simp_all add: values_ok_def)
  from estimates_written_or_dropped [OF this, of "\<lambda>_. True" "\<lparr>linear_count = (\<lambda>_. 3), beta_count = (\<lambda>_ _. 0)\<rparr>" 9]
  show ?thesis by force
qed

lemma size_and_limit_exact:
  "\<exists>size_line limit_line. write_group_size_and_limit ip collect s sz w = (w @ [size_line, limit_line], None)
     \<and> (one_line size_line \<longleftrightarrow> (\<forall>k \<in> map_keys (sn_labels s). CHR 0x0A \<notin> set k)) \<and> one_line limit_line"
proof -
  let ?size = "append_group_size_metric ip [] (append_metric_prefix ip [] (sn_labels s) (sn_interval s) (sn_filter s)) (sn_group_by s) @ format_int sz"
  let ?limit = "append_group_limit_metric ip (sn_group_by s) (sn_interval s) (sn_filter s) @ format_int (sn_group_limit s)"
  have "CHR 0x0A \<in> set ?size \<longleftrightarrow> (\<exists>k \<in> map_keys (sn_labels s). CHR 0x0A \<in> set k)"
    by (simp add: append_group_size_metric_def append_group_by_keys_label_def quote_no_newline
        prefix_newline format_int_no_newline group_keys_label_def)
  then have "one_line (?size @ nl) \<longleftrightarrow> (\<forall>k \<in> map_keys (sn_labels s). CHR 0x0A \<notin> set k)" unfolding one_line_nl by blast
  moreover have "one_line (?limit @ nl)" unfolding one_line_nl
    by (simp add: append_group_limit_metric_def append_group_by_keys_label_def quote_no_newline
        format_int_no_newline group_keys_label_def)
  moreover have "write_group_size_and_limit ip collect s sz w = (w @ [?size @ nl, ?limit @ nl], None)"
    by (simp add: write_group_size_and_limit_def collect_def wrapped_def)
  ultimately show ?thesis by blast
qed

lemma size_and_limit_lines:
  assumes "names_ok s"
  shows "\<exists>lines. fst (write_group_size_and_limit ip collect s sz w) = w @ lines \<and> (\<forall>l \<in> set lines. one_line l)"
proof -
  obtain l1 l2 where l: "write_group_size_and_limit ip collect s sz w = (w @ [l1, l2], None)"
    "one_line l1 \<longleftrightarrow> (\<forall>k \<in> map_keys (sn_labels s). CHR 0x0A \<notin> set k)" "one_line l2"
    using size_and_limit_exact [of ip s sz w] by (elim exE conjE) (rule that; assumption)
  show ?thesis using l assms by (intro exI [of _ "[l1, l2]"]) (simp add: names_ok_def)
qed

lemma dropped_line_one_line: "one_line (dropped_line ip s d)"
  unfolding one_line_def
  by (rule exI [of _ "append_group_by_keys_label ip
       (''vmestimator_cardinality_estimates_dropped{interval='' @ quote ip (duration_string (sn_interval s))
        @ '',filter='' @ quote ip (sn_filter s) @ '','') ''group_by_keys'' (sn_group_by s)
     @ ''} '' @ format_uint (unat d)"])
    (simp add: dropped_line_def append_group_by_keys_label_def quote_no_newline format_uint_no_newline)

lemma global_line:
  assumes "sn_group_by s = []" and "0 \<in> map_keys (sn_sketches s)"
  shows "\<exists>l. write_cardinality_estimates ip fl flag collect s w = Inr (w @ [l], 0, None)
    \<and> (one_line l \<longleftrightarrow> (\<forall>k \<in> map_keys (sn_labels s). CHR 0x0A \<notin> set k))"
proof -
  obtain ss where ss: "map_of (sn_sketches s) 0 = Some ss" using assms(2) by (metis map_of_not_in_keys option.exhaust)
  let ?l = "append_global_metric [] (append_metric_prefix ip [] (sn_labels s) (sn_interval s) (sn_filter s))
                            @ format_uint (unat (estimate_of fl ss))"
  have "CHR 0x0A \<in> set ?l \<longleftrightarrow> (\<exists>k \<in> map_keys (sn_labels s). CHR 0x0A \<in> set k)"
    by (simp add: append_global_metric_def prefix_newline format_uint_no_newline global_keys_label_def)
  then have "one_line (?l @ nl) \<longleftrightarrow> (\<forall>k \<in> map_keys (sn_labels s). CHR 0x0A \<notin> set k)" unfolding one_line_nl by blast
  then show ?thesis using assms(1) ss by (intro exI [of _ "?l @ nl"]) (simp add: write_cardinality_estimates_def collect_def)
qed

lemma group_lines:
  assumes "sn_group_by s \<noteq> []" and "values_ok s"
  shows "\<exists>lines d. write_cardinality_estimates ip fl flag collect s w = Inr (w @ lines, d, None)
    \<and> ((\<forall>k \<in> map_keys (sn_labels s). CHR 0x0A \<notin> set k) \<longrightarrow>
        ((\<forall>l \<in> set lines. one_line l) \<longleftrightarrow> (\<forall>k \<in> printed_names fl flag s. CHR 0x0A \<notin> set k)))"
proof -
  let ?thr = "cardinality_threshold flag (sn_min_cardinality s)" and ?sss = "map snd (sn_sketches s)"
  let ?written = "List.filter (\<lambda>ss. ?thr \<le> estimate_of fl ss) ?sss"
  have len: "\<forall>ss \<in> set ?sss. length (ss_values ss) \<le> length (sn_group_by s)"
    using assms(2) by (auto simp: values_ok_def)
  have one: "one_line (the_line ip fl s ss) \<longleftrightarrow>
      (\<forall>k \<in> map_keys (sn_labels s) \<union> set (take (length (ss_values ss)) (sn_group_by s)). CHR 0x0A \<notin> set k)" if "ss \<in> set ?sss" for ss
    using group_line_one_line [OF the_line] len that by blast
  let ?W = "{ss \<in> snd ` set (sn_sketches s). ?thr \<le> estimate_of fl ss}"
  have W: "set ?written = ?W" by auto
  have "(\<forall>l \<in> set (map (the_line ip fl s) ?written). one_line l) \<longleftrightarrow> (\<forall>k \<in> printed_names fl flag s. CHR 0x0A \<notin> set k)"
    if names: "\<forall>k \<in> map_keys (sn_labels s). CHR 0x0A \<notin> set k"
  proof -
    have "(\<forall>l \<in> set (map (the_line ip fl s) ?written). one_line l) \<longleftrightarrow> (\<forall>ss \<in> ?W. one_line (the_line ip fl s ss))"
      unfolding set_map W by blast
    also have "\<dots> \<longleftrightarrow> (\<forall>ss \<in> ?W. \<forall>k \<in> set (take (length (ss_values ss)) (sn_group_by s)). CHR 0x0A \<notin> set k)"
    proof (rule ball_cong [OF refl])
      fix ss assume "ss \<in> ?W"
      then have "ss \<in> set ?sss" by auto
      from one [OF this] show "one_line (the_line ip fl s ss) \<longleftrightarrow>
          (\<forall>k \<in> set (take (length (ss_values ss)) (sn_group_by s)). CHR 0x0A \<notin> set k)" using names by blast
    qed
    also have "\<dots> \<longleftrightarrow> (\<forall>k \<in> printed_names fl flag s. CHR 0x0A \<notin> set k)"
      using names unfolding printed_names_def by blast
    finally show ?thesis .
  qed
  then show ?thesis using write_groups_collect [OF len, of ip fl ?thr w 0] assms(1)
    by (auto simp: write_cardinality_estimates_def)
qed

lemma estimates_lines:
  assumes "names_ok s" and "values_ok s" and "sn_group_by s = [] \<longrightarrow> 0 \<in> map_keys (sn_sketches s)"
  shows "\<exists>lines d. write_cardinality_estimates ip fl flag collect s w = Inr (w @ lines, d, None) \<and> (\<forall>l \<in> set lines. one_line l)"
proof (cases "sn_group_by s = []")
  case True
  have "0 \<in> map_keys (sn_sketches s)" using True assms(3) by blast
  from global_line [OF True this, of ip fl flag w] obtain l where "write_cardinality_estimates ip fl flag collect s w = Inr (w @ [l], 0, None)"
    "one_line l \<longleftrightarrow> (\<forall>k \<in> map_keys (sn_labels s). CHR 0x0A \<notin> set k)" by (elim exE conjE) (rule that; assumption)
  then show ?thesis using assms(1) by (intro exI [of _ "[l]"]) (simp add: names_ok_def)
next
  case False
  from group_lines [OF False assms(2), of ip fl flag w]
  obtain lines d where "write_cardinality_estimates ip fl flag collect s w = Inr (w @ lines, d, None)"
    "(\<forall>k \<in> map_keys (sn_labels s). CHR 0x0A \<notin> set k) \<longrightarrow>
        ((\<forall>l \<in> set lines. one_line l) \<longleftrightarrow> (\<forall>k \<in> printed_names fl flag s. CHR 0x0A \<notin> set k))"
    by (elim exE conjE) (rule that; assumption)
  then show ?thesis using names_ok_printed [OF assms(1), of fl flag] assms(1) by (intro exI [of _ lines] exI [of _ d]) (simp add: names_ok_def)
qed

lemma sn_write_lines_exact:
  assumes "values_ok s" and "sn_group_by s = [] \<longrightarrow> 0 \<in> map_keys (sn_sketches s)"
  shows "\<exists>lines. sn_write_metrics ip fl flag collect s w0 = Inr (w0 @ lines, None)
    \<and> ((\<forall>l \<in> set lines. one_line l) \<longleftrightarrow> (\<forall>k \<in> printed_names fl flag s. CHR 0x0A \<notin> set k))"
proof (cases "sn_group_by s = []")
  case True
  then have p: "printed_names fl flag s = map_keys (sn_labels s)" by (simp add: printed_names_def)
  have "0 \<in> map_keys (sn_sketches s)" using True assms(2) by blast
  from global_line [OF True this, of ip fl flag w0] obtain l where "write_cardinality_estimates ip fl flag collect s w0 = Inr (w0 @ [l], 0, None)"
    "one_line l \<longleftrightarrow> (\<forall>k \<in> map_keys (sn_labels s). CHR 0x0A \<notin> set k)" by (elim exE conjE) (rule that; assumption)
  then show ?thesis using True by (intro exI [of _ "[l]"]) (simp add: sn_write_metrics_def p)
next
  case False
  obtain lines d where w: "write_cardinality_estimates ip fl flag collect s w0 = Inr (w0 @ lines, d, None)"
    and lines: "(\<forall>k \<in> map_keys (sn_labels s). CHR 0x0A \<notin> set k) \<longrightarrow>
        ((\<forall>l \<in> set lines. one_line l) \<longleftrightarrow> (\<forall>k \<in> printed_names fl flag s. CHR 0x0A \<notin> set k))"
    using group_lines [OF False assms(1), of ip fl flag w0] by (elim exE conjE) (rule that; assumption)
  define w2 where "w2 = (if d > 0 then [dropped_line ip s d] else [])"
  have w2: "\<forall>l \<in> set w2. one_line l" using dropped_line_one_line by (auto simp: w2_def)
  let ?sz = "wrap_i64 (int (length (sn_sketches s)) + sn_group_reject_size s)"
  obtain l1 l2 where w3: "write_group_size_and_limit ip collect s ?sz (w0 @ lines @ w2) = ((w0 @ lines @ w2) @ [l1, l2], None)"
    "one_line l1 \<longleftrightarrow> (\<forall>k \<in> map_keys (sn_labels s). CHR 0x0A \<notin> set k)" "one_line l2"
    using size_and_limit_exact [of ip s ?sz "w0 @ lines @ w2"] by (elim exE conjE) (rule that; assumption)
  have "sn_write_metrics ip fl flag collect s w0 = Inr (w0 @ (lines @ w2 @ [l1, l2]), None)"
    using w False w3(1) by (cases "d > 0") (simp_all add: sn_write_metrics_def write_dropped_metric_def w2_def collect_def wrapped_def)
  moreover have "(\<forall>l \<in> set (lines @ w2 @ [l1, l2]). one_line l) \<longleftrightarrow> (\<forall>k \<in> printed_names fl flag s. CHR 0x0A \<notin> set k)"
  proof (cases "\<forall>k \<in> map_keys (sn_labels s). CHR 0x0A \<notin> set k")
    case True
    have "(\<forall>l \<in> set (lines @ w2 @ [l1, l2]). one_line l) \<longleftrightarrow> (\<forall>l \<in> set lines. one_line l)" using w2 w3(2,3) True by auto
    then show ?thesis using lines True by blast
  next
    case False
    then have "\<not> one_line l1" using w3(2) by blast
    moreover have "\<exists>k \<in> printed_names fl flag s. CHR 0x0A \<in> set k" using False by (auto simp: printed_names_def)
    ultimately show ?thesis by auto
  qed
  ultimately show ?thesis by blast
qed

lemma sn_write_lines:
  assumes "names_ok s" and "values_ok s" and "sn_group_by s = [] \<longrightarrow> 0 \<in> map_keys (sn_sketches s)"
  shows "\<exists>lines. sn_write_metrics ip fl flag collect s w0 = Inr (w0 @ lines, None) \<and> (\<forall>l \<in> set lines. one_line l)"
  using sn_write_lines_exact [OF assms(2,3), of ip fl flag w0] names_ok_printed [OF assms(1), of fl flag] by metis




text \<open>The label text of a group-by list, and of any quoted value, is read back exactly: the quoted part of
  \<^verbatim>\<open>group_by_keys=...\<close> unquotes to the comma-joined keys, for arbitrary bytes.\<close>

theorem group_by_label_roundtrip:
  "\<exists>q. append_group_by_keys_label ip buf name keys = buf @ name @ ''='' @ q \<and> unquote q = Some (join '','' keys)
    \<and> CHR 0x0A \<notin> set q"
  by (simp add: append_group_by_keys_label_def unquote_quote quote_no_newline)

text \<open>A write error ends the estimates at once: the error is returned and no line after the failing one is
  written.\<close>

theorem write_error_stops:
  assumes "sn_group_by s \<noteq> []" and "values_ok s"
    and "map snd (sn_sketches s) = pre @ ss # post"
    and "\<forall>x \<in> set pre. estimate_of fl x < cardinality_threshold flag (sn_min_cardinality s)"
    and "\<not> estimate_of fl ss < cardinality_threshold flag (sn_min_cardinality s)"
    and "wr w (the_line ip fl s ss) = (w', Some err)"
  shows "write_cardinality_estimates ip fl flag wr s w = Inr (w', 0, Some err)"
proof -
  have skip: "write_groups ip fl wr thr s (pre @ rest) w d = write_groups ip fl wr thr s rest w (d + of_nat (length pre))"
    if "\<forall>x \<in> set pre. estimate_of fl x < thr" for thr rest d
    using that by (induction pre arbitrary: d) (auto simp: algebra_simps)
  have "ss \<in> snd ` set (sn_sketches s)" using assms(3) by (metis in_set_conv_decomp list.set_map)
  then have "group_line ip fl s ss = Inr (the_line ip fl s ss)"
    using assms(2) by (intro the_line) (auto simp: values_ok_def)
  then show ?thesis using assms(1,3,5,6) skip [OF assms(4)] by (simp add: write_cardinality_estimates_def)
qed

theorem write_error_stops_witness:
  "write_cardinality_estimates (\<lambda>_. True) \<lparr>linear_count = (\<lambda>_. 3), beta_count = (\<lambda>_ _. 0)\<rparr> 0
     (\<lambda>n l. (n + 1, Some ''disk full''))
     (new_snapshot\<lparr>sn_group_by := [''job''],
        sn_sketches := [(1, \<lparr>ss_values = [], ss_sketch = \<lparr>sk_p = 4, sk_created_sparse = True, sk_tmp = [],
             sk_list = Some [], sk_regs = []\<rparr>\<rparr>), (2, \<lparr>ss_values = [], ss_sketch = \<lparr>sk_p = 4, sk_created_sparse = True,
             sk_tmp = [], sk_list = Some [], sk_regs = []\<rparr>\<rparr>)]\<rparr>) (0 :: nat) = Inr (1, 0, Some ''disk full'')"
  by (rule write_error_stops [where pre = "[]" and post = "[\<lparr>ss_values = [], ss_sketch = \<lparr>sk_p = 4, sk_created_sparse = True,
             sk_tmp = [], sk_list = Some [], sk_regs = []\<rparr>\<rparr>]"])
    (simp_all add: values_ok_def cardinality_threshold_def new_snapshot_def)

end
