(* ===== verification/Estimator_Snapshot.thy ===== *)
theory Estimator_Snapshot
  imports Estimator Metrics_Text
begin

section \<open>Snapshots of an estimator (\<^verbatim>\<open>toSnapshot\<close>, \<^verbatim>\<open>writeMetrics\<close>)\<close>

text \<open>
  \<^verbatim>\<open>toSnapshot\<close> shows the state of an estimator to a callback: one snapshot for a global estimator, batches of
  at most 1000 groups for a grouping one, followed by a snapshot without groups that carries the number
  of rejected groups.  Sketches are merged into recycled ones from a pool and taken back after each
  callback.  The callback acts on its own state and may return an error, which ends the run, or panic.
  The sketches it gets are returned to the pool and emptied afterwards, so what the callback does to them
  is not carried on.  Nothing else happens during a run here; theory \<open>Concurrent_Snapshot\<close> lets other requests
  change a bucket between two batches.
\<close>

definition batch_size :: nat where
  "batch_size = 1000"

function batches :: "'a list \<Rightarrow> 'a list list" where
  "batches xs = (if xs = [] then [] else take batch_size xs # batches (drop batch_size xs))"
  by pat_completeness auto
termination
  by (relation "measure length") (auto simp: batch_size_def)

declare batches.simps [simp del]

text \<open>The keys of a bucket: those of the current generation, then those only in the previous one.\<close>

definition bucket_keys :: "bucket \<Rightarrow> u64 list" where
  "bucket_keys eb =
     map fst (eb_groups eb) @ List.filter (\<lambda>k. map_of (eb_groups eb) k = None) (map fst (eb_prev_groups eb))"

text \<open>
  One key of a batch.  A key that is in neither generation would leave a nil sketch in the snapshot, which
  panics when the sketch is put back; keys come from the two maps, so this does not happen.
\<close>

type_synonym batch_state = "sketches_pool \<times> (u64, snapshot_sketch) gomap"

definition snapshot_key :: "bucket \<Rightarrow> batch_state \<Rightarrow> u64 \<Rightarrow> go_panic + batch_state" where
  "snapshot_key eb st key =
     (let cur = map_of (eb_groups eb) key; prev = map_of (eb_prev_groups eb) key in
      case (case cur of Some g \<Rightarrow> Some g | None \<Rightarrow> prev) of
        None \<Rightarrow> Inl NilDeref
      | Some src \<Rightarrow>
          (case get_for_merge (fst st) (gsk_sketch src) of
             Inl p \<Rightarrow> Inl p
           | Inr (sk, pool) \<Rightarrow>
               (case merge_sketches (map_option gsk_sketch cur) (map_option gsk_sketch prev) sk of
                  Inl p \<Rightarrow> Inl p
                | Inr sk' \<Rightarrow>
                    Inr (pool, AList.update key \<lparr>ss_values = gsk_values src, ss_sketch = sk'\<rparr> (snd st)))))"

type_synonym ('s, 'e) snapshot_cb = "snapshot \<Rightarrow> 's \<Rightarrow> go_panic + 's \<times> 'e option"

definition put_all :: "sketches_pool \<Rightarrow> (u64, snapshot_sketch) gomap \<Rightarrow> sketches_pool" where
  "put_all pool m = foldl (\<lambda>pl kv. pool_put pl (ss_sketch (snd kv))) pool m"

fun batch_loop ::
  "('s, 'e) snapshot_cb \<Rightarrow> snapshot \<Rightarrow> bucket \<Rightarrow> u64 list list \<Rightarrow> sketches_pool \<Rightarrow> 's
   \<Rightarrow> go_panic + sketches_pool \<times> 's \<times> 'e option" where
  "batch_loop cb s eb [] pool st = Inr (pool, st, None)"
| "batch_loop cb s eb (batch # rest) pool st =
     (case fold_err (snapshot_key eb) (pool, []) batch of
        Inl p \<Rightarrow> Inl p
      | Inr (pool1, sketches) \<Rightarrow>
          (case cb (s\<lparr>sn_sketches := sketches\<rparr>) st of
             Inl p \<Rightarrow> Inl p
           | Inr (st1, Some err) \<Rightarrow> Inr (pool1, st1, Some err)
           | Inr (st1, None) \<Rightarrow> batch_loop cb s eb rest (put_all pool1 sketches) st1))"

fun bucket_loop ::
  "('s, 'e) snapshot_cb \<Rightarrow> snapshot \<Rightarrow> bucket list \<Rightarrow> sketches_pool \<Rightarrow> 's \<Rightarrow> go_panic + 's \<times> 'e option" where
  "bucket_loop cb s [] pool st = Inr (st, None)"
| "bucket_loop cb s (eb # ebs) pool st =
     (case batch_loop cb s eb (batches (bucket_keys eb)) pool st of
        Inl p \<Rightarrow> Inl p
      | Inr (pool1, st1, Some err) \<Rightarrow> Inr (st1, Some err)
      | Inr (pool1, st1, None) \<Rightarrow> bucket_loop cb s ebs pool1 st1)"

definition global_sketch :: "estimator \<Rightarrow> bucket \<Rightarrow> go_panic + sketch" where
  "global_sketch e eb0 =
     (case eb_new_sketch eb0 of
        Inl p \<Rightarrow> Inl p
      | Inr sk \<Rightarrow> fold_err (\<lambda>sk eb. merge_sketches (eb_sketch eb) (eb_prev_sketch eb) sk) sk (es_buckets e))"

definition snapshot_base :: "estimator \<Rightarrow> bucket \<Rightarrow> snapshot" where
  "snapshot_base e eb0 =
     new_snapshot\<lparr>sn_id := es_id e, sn_interval := eb_interval eb0, sn_calculate_churn := eb_calculate_churn eb0,
       sn_filter := eb_filter eb0, sn_labels := eb_labels eb0, sn_min_cardinality := es_min_cardinality e\<rparr>"

definition to_snapshot ::
  "hll_float \<Rightarrow> ('s, 'e) snapshot_cb \<Rightarrow> estimator \<Rightarrow> 's \<Rightarrow> go_panic + estimator \<times> 's \<times> 'e option" where
  "to_snapshot fl cb e st =
     (case es_buckets e of
        [] \<Rightarrow> Inl IndexOutOfRange
      | eb0 # _ \<Rightarrow>
          if es_group_by e = []
          then (case global_sketch e eb0 of
                  Inl p \<Rightarrow> Inl p
                | Inr sk \<Rightarrow>
                    map_sum id (\<lambda>r. (e, r))
                      (cb (snapshot_base e eb0\<lparr>sn_sketches := [(0, \<lparr>ss_values = [], ss_sketch = sk\<rparr>)]\<rparr>) st))
          else
            let s = snapshot_base e eb0\<lparr>sn_group_limit := gs_limit (es_group_size e), sn_group_by := eb_group_by eb0\<rparr>
            in case avg_bucket_size (es_group_size e) of
                 Inl p \<Rightarrow> Inl p
               | Inr avg \<Rightarrow>
            case new_sketches_pool (eb_precision eb0) (min (int batch_size) avg) of
              Inl p \<Rightarrow> Inl p
            | Inr pool \<Rightarrow>
                (case bucket_loop cb s (es_buckets e) pool st of
                   Inl p \<Rightarrow> Inl p
                 | Inr (st1, Some err) \<Rightarrow> Inr (e, st1, Some err)
                 | Inr (st1, None) \<Rightarrow>
                     (case total_rejected fl (es_group_size e) of
                        (n, gs) \<Rightarrow>
                          map_sum id (\<lambda>r. (e\<lparr>es_group_size := gs\<rparr>, r))
                            (cb (s\<lparr>sn_group_reject_size := sint n\<rparr>) st1))))"

text \<open>
  \<^verbatim>\<open>writeMetrics\<close>: every error is only logged.  The callback's state is the writer and the number of
  dropped estimates.
\<close>

definition estimates_cb ::
  "(nat \<Rightarrow> bool) \<Rightarrow> hll_float \<Rightarrow> u64 \<Rightarrow> 'w writer \<Rightarrow> ('w \<times> u64, string) snapshot_cb" where
  "estimates_cb ip fl flag wr s st =
     (case write_cardinality_estimates ip fl flag wr s (fst st) of
        Inl p \<Rightarrow> Inl p
      | Inr (w, d, err) \<Rightarrow> Inr ((w, snd st + d), err))"

definition es_write_metrics ::
  "(nat \<Rightarrow> bool) \<Rightarrow> hll_float \<Rightarrow> u64 \<Rightarrow> 'w writer \<Rightarrow> estimator \<Rightarrow> 'w \<Rightarrow> go_panic + estimator \<times> 'w" where
  "es_write_metrics ip fl flag wr e w =
     (case to_snapshot fl (estimates_cb ip fl flag wr) e (w, 0) of
        Inl p \<Rightarrow> Inl p
      | Inr (e1, (w1, dropped), _) \<Rightarrow>
          if es_group_by e1 = [] then Inr (e1, w1)
          else
            (case es_buckets e1 of
               [] \<Rightarrow> Inl IndexOutOfRange
             | eb0 # _ \<Rightarrow>
                 let s = new_snapshot\<lparr>sn_group_by := eb_group_by eb0, sn_interval := eb_interval eb0,
                           sn_filter := eb_filter eb0, sn_labels := eb_labels eb0,
                           sn_group_limit := gs_limit (es_group_size e1),
                           sn_min_cardinality := es_min_cardinality e1\<rparr>
                 in case (if dropped > 0 then map_sum id fst (write_dropped_metric ip wr s dropped w1) else Inr w1) of
                      Inl p \<Rightarrow> Inl p
                    | Inr w2 \<Rightarrow>
                        (case total_size fl (es_group_size e1) of
                           (sz, gs) \<Rightarrow>
                             Inr (e1\<lparr>es_group_size := gs\<rparr>, fst (write_group_size_and_limit ip wr s sz w2)))))"

subsection \<open>Batches\<close>

lemma concat_batches: "concat (batches xs) = xs"
proof (induction xs rule: batches.induct)
  case (1 xs)
  have nil: "batches [] = []" by (simp add: batches.simps)
  show ?case using 1 by (cases "xs = []") (simp_all add: nil batches.simps [of xs])
qed

lemma batches_bounds: "b \<in> set (batches xs) \<Longrightarrow> b \<noteq> [] \<and> length b \<le> batch_size"
proof (induction xs rule: batches.induct)
  case (1 xs)
  show ?case
  proof (cases "xs = []")
    case True
    then show ?thesis using "1.prems" by (simp add: batches.simps)
  next
    case False
    have "batches xs = take batch_size xs # batches (drop batch_size xs)" using False by (simp add: batches.simps [of xs])
    then show ?thesis using "1.prems" "1.IH" [OF False] False by (auto simp: batch_size_def)
  qed
qed

lemma set_bucket_keys: "set (bucket_keys eb) = tracked eb"
  by (auto simp: bucket_keys_def tracked_def map_of_not_in_keys image_iff)

lemma distinct_bucket_keys:
  assumes "bucket_ok eb gs" shows "distinct (bucket_keys eb)"
  using bucket_okD(3,4) [OF assms]
  by (auto simp: bucket_keys_def groups_ok_def map_ok_def map_of_not_in_keys)

lemma snapshot_key_ok:
  assumes "bucket_ok eb gs" and "key \<in> tracked eb" and "pool_ok (eb_precision eb) pool"
    and "key \<notin> map_keys m"
  shows "\<exists>pool' ss. snapshot_key eb (pool, m) key = Inr (pool', m @ [(key, ss)])
    \<and> pool_ok (eb_precision eb) pool' \<and> sketch_ok (eb_precision eb) (ss_sketch ss)
    \<and> sk_hits (ss_sketch ss) = group_hits eb key"
proof -
  let ?p = "eb_precision eb"
  define cur where "cur = map_of (eb_groups eb) key"
  define prev where "prev = map_of (eb_prev_groups eb) key"
  have cur_ok: "opt_ok ?p (map_option gsk_sketch cur)"
    using groups_ok_lookup [OF bucket_okD(3) [OF assms(1)]] by (cases cur) (simp_all add: cur_def)
  have prev_ok: "opt_ok ?p (map_option gsk_sketch prev)"
    using groups_ok_lookup [OF bucket_okD(4) [OF assms(1)]] by (cases prev) (simp_all add: prev_def)
  obtain src where src: "(case cur of Some g \<Rightarrow> Some g | None \<Rightarrow> prev) = Some src"
  proof (cases cur)
    case None
    then have "key \<in> map_keys (eb_prev_groups eb)"
      using assms(2) by (auto simp: tracked_def cur_def map_of_not_in_keys)
    then have "prev \<noteq> None" by (simp add: prev_def map_of_not_in_keys)
    then show ?thesis using that None by auto
  qed (use that in simp)
  obtain sk pool' where g: "get_for_merge pool (gsk_sketch src) = Inr (sk, pool')"
    "sketch_ok ?p sk" "sk_hits sk = {}" "pool_ok ?p pool'"
    using get_for_merge_ok [OF assms(3), of "gsk_sketch src"] by (auto simp: pool_sketch_ok_def)
  obtain r where r: "merge_sketches (map_option gsk_sketch cur) (map_option gsk_sketch prev) sk = Inr r"
    "sketch_ok ?p r" "sk_hits r = opt_hits (map_option gsk_sketch cur) \<union> opt_hits (map_option gsk_sketch prev)"
    using merge_sketches_ok [OF cur_ok prev_ok g(2)] g(3) by auto
  have up: "AList.update key v m = m @ [(key, v)]" for v
    using assms(4) by (induction m) (auto)
  show ?thesis
    using src g r by (simp add: snapshot_key_def cur_def [symmetric] prev_def [symmetric] up group_hits_def
        key_group_hits_def Let_def)
qed

text \<open>What a snapshot of a bucket must contain for a list of keys.\<close>

definition shows_groups :: "nat \<Rightarrow> (u64 \<Rightarrow> (nat \<times> nat) set) \<Rightarrow> (u64, snapshot_sketch) gomap \<Rightarrow> bool" where
  "shows_groups p h m \<longleftrightarrow> (\<forall>(k, ss) \<in> set m. sketch_ok p (ss_sketch ss) \<and> sk_hits (ss_sketch ss) = h k)"

lemma snapshot_batch_ok:
  assumes "bucket_ok eb gs" and "set keys \<subseteq> tracked eb" and "distinct (map fst m @ keys)"
    and "pool_ok (eb_precision eb) pool" and "shows_groups (eb_precision eb) (group_hits eb) m"
  shows "\<exists>pool' m'. fold_err (snapshot_key eb) (pool, m) keys = Inr (pool', m')
    \<and> pool_ok (eb_precision eb) pool' \<and> map fst m' = map fst m @ keys
    \<and> shows_groups (eb_precision eb) (group_hits eb) m'"
  using assms(2-5)
proof (induction keys arbitrary: pool m)
  case (Cons k keys)
  have "k \<notin> map_keys m" "k \<in> tracked eb" using Cons.prems by auto
  then obtain pool1 ss where s: "snapshot_key eb (pool, m) k = Inr (pool1, m @ [(k, ss)])"
    "pool_ok (eb_precision eb) pool1" "sketch_ok (eb_precision eb) (ss_sketch ss)"
    "sk_hits (ss_sketch ss) = group_hits eb k"
    using snapshot_key_ok [OF assms(1) _ Cons.prems(3)] by blast
  have "shows_groups (eb_precision eb) (group_hits eb) (m @ [(k, ss)])"
    using Cons.prems(4) s(3,4) by (auto simp: shows_groups_def)
  moreover have "set keys \<subseteq> tracked eb" "distinct (map fst (m @ [(k, ss)]) @ keys)" using Cons.prems by auto
  ultimately show ?case using Cons.IH [of "m @ [(k, ss)]" pool1] s(1,2) by auto
qed simp

lemma put_all_ok:
  "pool_ok p pool \<Longrightarrow> shows_groups p h m \<Longrightarrow> pool_ok p (put_all pool m)"
  unfolding put_all_def shows_groups_def by (induction m arbitrary: pool) (auto simp: pool_put_ok)

text \<open>The callback that records what it is shown.\<close>

definition record_cb :: "(snapshot list, string) snapshot_cb" where
  "record_cb s st = Inr (st @ [s], None)"

lemma record_cb_apply: "record_cb s st = Inr (st @ [s], None)"
  by (simp add: record_cb_def)

lemma batch_loop_record:
  assumes "bucket_ok eb gs" and "set (concat bs) \<subseteq> tracked eb" and "distinct (concat bs)"
    and "pool_ok (eb_precision eb) pool"
  shows "\<exists>pool' ms. batch_loop record_cb s eb bs pool st
      = Inr (pool', st @ map (\<lambda>m. s\<lparr>sn_sketches := m\<rparr>) ms, None)
    \<and> pool_ok (eb_precision eb) pool' \<and> map (map fst) ms = bs
    \<and> (\<forall>m \<in> set ms. shows_groups (eb_precision eb) (group_hits eb) m)"
  using assms(2-4)
proof (induction bs arbitrary: pool st)
  case Nil
  then show ?case by simp
next
  case (Cons b bs)
  have "set b \<subseteq> tracked eb" "distinct (map fst [] @ b)" using Cons.prems by auto
  from snapshot_batch_ok [OF assms(1) this Cons.prems(3)] obtain pool1 m
    where m: "fold_err (snapshot_key eb) (pool, []) b = Inr (pool1, m)" "pool_ok (eb_precision eb) pool1"
      "map fst m = b" "shows_groups (eb_precision eb) (group_hits eb) m"
    by (auto simp: shows_groups_def)
  have "pool_ok (eb_precision eb) (put_all pool1 m)" using put_all_ok [OF m(2,4)] .
  moreover have "set (concat bs) \<subseteq> tracked eb" "distinct (concat bs)" using Cons.prems by auto
  ultimately obtain pool' ms where ms: "batch_loop record_cb s eb bs (put_all pool1 m) (st @ [s\<lparr>sn_sketches := m\<rparr>])
      = Inr (pool', (st @ [s\<lparr>sn_sketches := m\<rparr>]) @ map (\<lambda>m. s\<lparr>sn_sketches := m\<rparr>) ms, None)"
    "pool_ok (eb_precision eb) pool'" "map (map fst) ms = bs"
    "\<forall>m \<in> set ms. shows_groups (eb_precision eb) (group_hits eb) m"
    using Cons.IH [of "put_all pool1 m" "st @ [s\<lparr>sn_sketches := m\<rparr>]"] by auto
  moreover have "record_cb (s\<lparr>sn_sketches := m\<rparr>) st = Inr (st @ [s\<lparr>sn_sketches := m\<rparr>], None)"
    by (rule record_cb_apply)
  ultimately show ?case using m by (intro exI [of _ pool'] exI [of _ "m # ms"]) simp
qed

lemma bucket_loop_record:
  assumes "\<forall>eb \<in> set ebs. bucket_ok eb gs \<and> eb_precision eb = p" and "pool_ok p pool"
  shows "\<exists>mss. bucket_loop record_cb s ebs pool st
      = Inr (st @ map (\<lambda>m. s\<lparr>sn_sketches := m\<rparr>) (concat mss), None)
    \<and> list_all2 (\<lambda>eb ms. concat (map (map fst) ms) = bucket_keys eb
          \<and> (\<forall>m \<in> set ms. m \<noteq> [] \<and> length m \<le> batch_size \<and> shows_groups p (group_hits eb) m)) ebs mss"
  using assms
proof (induction ebs arbitrary: pool st)
  case Nil
  then show ?case by (intro exI [of _ "[]"]) simp
next
  case (Cons eb ebs)
  have eb: "bucket_ok eb gs" "eb_precision eb = p" using Cons.prems(1) by auto
  have "set (concat (batches (bucket_keys eb))) \<subseteq> tracked eb" "distinct (concat (batches (bucket_keys eb)))"
    by (simp_all only: concat_batches set_bucket_keys distinct_bucket_keys [OF eb(1)] order_refl)
  from batch_loop_record [OF eb(1) this, unfolded eb(2), OF Cons.prems(2), of s st] obtain pool1 ms
    where ms: "batch_loop record_cb s eb (batches (bucket_keys eb)) pool st
        = Inr (pool1, st @ map (\<lambda>m. s\<lparr>sn_sketches := m\<rparr>) ms, None)" "pool_ok p pool1"
      "map (map fst) ms = batches (bucket_keys eb)" "\<forall>m \<in> set ms. shows_groups p (group_hits eb) m" by blast
  have b: "m \<noteq> [] \<and> length m \<le> batch_size" if "m \<in> set ms" for m
  proof -
    have "map fst m \<in> set (batches (bucket_keys eb))" using that ms(3) by (metis image_eqI list.set_map)
    from batches_bounds [OF this] show ?thesis by simp
  qed
  have rest: "\<forall>eb \<in> set ebs. bucket_ok eb gs \<and> eb_precision eb = p" using Cons.prems(1) by simp
  obtain mss where mss: "bucket_loop record_cb s ebs pool1 (st @ map (\<lambda>m. s\<lparr>sn_sketches := m\<rparr>) ms)
      = Inr ((st @ map (\<lambda>m. s\<lparr>sn_sketches := m\<rparr>) ms) @ map (\<lambda>m. s\<lparr>sn_sketches := m\<rparr>) (concat mss), None)"
    "list_all2 (\<lambda>eb ms. concat (map (map fst) ms) = bucket_keys eb
          \<and> (\<forall>m \<in> set ms. m \<noteq> [] \<and> length m \<le> batch_size \<and> shows_groups p (group_hits eb) m)) ebs mss"
    using Cons.IH [OF rest ms(2), of "st @ map (\<lambda>m. s\<lparr>sn_sketches := m\<rparr>) ms"] by blast
  show ?case
    using ms mss b by (intro exI [of _ "ms # mss"]) (simp add: concat_batches)
qed

subsection \<open>What an estimator shows\<close>

definition tracked_keys :: "estimator \<Rightarrow> u64 set" where
  "tracked_keys e = (\<Union>eb \<in> set (es_buckets e). tracked eb)"

lemma distinct_concat_keys:
  assumes "estimator_ok p e" shows "distinct (concat (map bucket_keys (es_buckets e)))"
proof -
  have "distinct (concat (map (\<lambda>i. bucket_keys (es_buckets e ! i)) [0..<n]))"
    if "n \<le> length (es_buckets e)" for n
    using that
  proof (induction n)
    case (Suc n)
    then have n: "n < length (es_buckets e)" by simp
    have "own_index e k = n" if "k \<in> set (bucket_keys (es_buckets e ! n))" for k
      using estimator_ok_bucket(5) [OF assms n] that by (simp add: set_bucket_keys)
    moreover have "own_index e k < n" if "k \<in> set (concat (map (\<lambda>i. bucket_keys (es_buckets e ! i)) [0..<n]))" for k
    proof -
      note k = that
      obtain i where "i < n" "k \<in> tracked (es_buckets e ! i)" using k by (auto simp: set_bucket_keys)
      then show ?thesis using estimator_ok_bucket(5) [OF assms, of i] n by auto
    qed
    ultimately show ?case
      using Suc distinct_bucket_keys [OF estimator_ok_bucket(1) [OF assms n]] by fastforce
  qed simp
  from this [of "length (es_buckets e)"]
  show ?thesis by (metis (no_types, lifting) map_nth map_map comp_def order_refl map_cong)
qed

lemma avg_bucket_size_ok:
  assumes "estimator_ok p e" shows "\<exists>n. avg_bucket_size (es_group_size e) = Inr n \<and> 0 \<le> n"
proof -
  note ok = estimator_okD [OF assms]
  have "gs_bucket_sizes (es_group_size e) \<noteq> []" using ok(1,4) by auto
  moreover have "0 \<le> gs_size (es_group_size e)"
    using group_size_okD(1,2) [OF ok(3)] by (simp add: sum_list_nonneg)
  ultimately show ?thesis by (simp add: avg_bucket_size_def go_quot_nonneg pos_imp_zdiv_nonneg_iff)
qed

lemma to_snapshot_groups:
  assumes "estimator_ok p e" and "es_group_by e \<noteq> []"
  defines "base \<equiv> snapshot_base e (hd (es_buckets e))
      \<lparr>sn_group_limit := gs_limit (es_group_size e), sn_group_by := es_group_by e\<rparr>"
  shows "\<exists>ms. to_snapshot fl record_cb e [] =
      Inr (e\<lparr>es_group_size := snd (total_rejected fl (es_group_size e))\<rparr>,
           map (\<lambda>m. base\<lparr>sn_sketches := m\<rparr>) ms
             @ [base\<lparr>sn_group_reject_size := sint (fst (total_rejected fl (es_group_size e)))\<rparr>], None)
    \<and> distinct (concat (map (map fst) ms)) \<and> set (concat (map (map fst) ms)) = tracked_keys e
    \<and> (\<forall>m \<in> set ms. m \<noteq> [] \<and> length m \<le> batch_size \<and> shows_groups p (es_group_hits e) m)"
proof -
  note ok = estimator_okD [OF assms(1)]
  obtain eb0 ebs where ebs: "es_buckets e = eb0 # ebs" using ok(1) by (cases "es_buckets e") auto
  have eb0: "eb_group_by eb0 = es_group_by e" "eb_precision eb0 = p"
    using estimator_ok_bucket(3,4) [OF assms(1), of 0] ebs by auto
  have p: "4 \<le> p" "p \<le> 18"
    using bucket_okD(1,2) [OF estimator_ok_bucket(1) [OF assms(1), of 0]] eb0(2) ebs by auto
  obtain avg where avg: "avg_bucket_size (es_group_size e) = Inr avg" "0 \<le> avg"
    using avg_bucket_size_ok [OF assms(1)] by blast
  then have "0 \<le> min (int batch_size) avg" by simp
  from new_sketches_pool_ok [OF p this] obtain pool
    where pool: "new_sketches_pool p (min (int batch_size) avg) = Inr pool" "pool_ok p pool" by blast
  have "\<forall>eb \<in> set (es_buckets e). bucket_ok eb (es_group_size e) \<and> eb_precision eb = p"
    using estimator_ok_bucket(1,4) [OF assms(1)] by (auto simp: in_set_conv_nth)
  from bucket_loop_record [OF this pool(2), of base "[]"] obtain mss
    where l: "bucket_loop record_cb base (es_buckets e) pool [] = Inr (map (\<lambda>m. base\<lparr>sn_sketches := m\<rparr>) (concat mss), None)"
      and a: "list_all2 (\<lambda>eb ms. concat (map (map fst) ms) = bucket_keys eb
          \<and> (\<forall>m \<in> set ms. m \<noteq> [] \<and> length m \<le> batch_size \<and> shows_groups p (group_hits eb) m)) (es_buckets e) mss"
    by auto
  have keys: "concat (map (map fst) (concat mss)) = concat (map bucket_keys (es_buckets e))"
    using a by (induction rule: list_all2_induct) (auto simp: concat_append [symmetric])
  have "shows_groups p (es_group_hits e) m \<and> m \<noteq> [] \<and> length m \<le> batch_size" if "m \<in> set (concat mss)" for m
  proof -
    note m = that
    obtain ms where "ms \<in> set mss" "m \<in> set ms" using m by auto
    then obtain i where i: "i < length mss" "m \<in> set (mss ! i)" by (metis in_set_conv_nth)
    have i': "i < length (es_buckets e)" using i(1) list_all2_lengthD [OF a] by simp
    have c: "concat (map (map fst) (mss ! i)) = bucket_keys (es_buckets e ! i)"
      and s: "shows_groups p (group_hits (es_buckets e ! i)) m" "m \<noteq> []" "length m \<le> batch_size"
      using list_all2_nthD2 [OF a i(1)] i(2) by auto
    have "own_index e k = i" if "(k, ss) \<in> set m" for k ss
    proof -
      have "k \<in> set (concat (map (map fst) (mss ! i)))" using that i(2) by force
      then have "k \<in> tracked (es_buckets e ! i)" unfolding c set_bucket_keys .
      then show ?thesis using estimator_ok_bucket(5) [OF assms(1) i'] by blast
    qed
    then show ?thesis using s by (auto simp: shows_groups_def es_group_hits_def)
  qed
  moreover have "to_snapshot fl record_cb e [] =
      Inr (e\<lparr>es_group_size := snd (total_rejected fl (es_group_size e))\<rparr>,
           map (\<lambda>m. base\<lparr>sn_sketches := m\<rparr>) (concat mss)
             @ [base\<lparr>sn_group_reject_size := sint (fst (total_rejected fl (es_group_size e)))\<rparr>], None)"
  proof -
    have base: "base = snapshot_base e eb0\<lparr>sn_group_limit := gs_limit (es_group_size e), sn_group_by := eb_group_by eb0\<rparr>"
      unfolding base_def ebs list.sel eb0 ..
    have rec: "record_cb (base\<lparr>sn_group_reject_size := n\<rparr>) st = Inr (st @ [base\<lparr>sn_group_reject_size := n\<rparr>], None)" for n st
      by (rule record_cb_apply)
    show ?thesis
      using assms(2) avg(1) pool(1) l rec
      by (cases "total_rejected fl (es_group_size e)")
        (simp add: to_snapshot_def ebs eb0(2) base [symmetric] Let_def)
  qed
  moreover have "set (concat (map bucket_keys (es_buckets e))) = tracked_keys e"
    by (auto simp: set_bucket_keys tracked_keys_def)
  ultimately show ?thesis
    using distinct_concat_keys [OF assms(1)] keys by (intro exI [of _ "concat mss"]) simp
qed

lemma merge_buckets_ok:
  assumes "\<forall>eb \<in> set ebs. bucket_ok eb gs \<and> eb_precision eb = p" and "sketch_ok p sk"
  shows "\<exists>r. fold_err (\<lambda>sk eb. merge_sketches (eb_sketch eb) (eb_prev_sketch eb) sk) sk ebs = Inr r
    \<and> sketch_ok p r \<and> sk_hits r = sk_hits sk \<union> (\<Union>eb \<in> set ebs. global_hits eb)"
  using assms
proof (induction ebs arbitrary: sk)
  case (Cons eb ebs)
  have "opt_ok p (eb_sketch eb)" "opt_ok p (eb_prev_sketch eb)"
    using Cons.prems(1) by (auto simp: bucket_ok_def)
  from merge_sketches_ok [OF this Cons.prems(2)] obtain r
    where r: "merge_sketches (eb_sketch eb) (eb_prev_sketch eb) sk = Inr r" "sketch_ok p r"
      "sk_hits r = sk_hits sk \<union> opt_hits (eb_sketch eb) \<union> opt_hits (eb_prev_sketch eb)" by blast
  have "\<forall>eb \<in> set ebs. bucket_ok eb gs \<and> eb_precision eb = p" using Cons.prems(1) by simp
  from Cons.IH [OF this r(2)] r(1,3) show ?case by (auto simp: global_hits_def)
qed simp

lemma to_snapshot_global:
  assumes "estimator_ok p e" and "es_group_by e = []"
  shows "\<exists>sk. to_snapshot fl record_cb e [] =
      Inr (e, [snapshot_base e (hd (es_buckets e))\<lparr>sn_sketches := [(0, \<lparr>ss_values = [], ss_sketch = sk\<rparr>)]\<rparr>], None)
    \<and> sketch_ok p sk \<and> sk_hits sk = es_global_hits e"
proof -
  note ok = estimator_okD [OF assms(1)]
  obtain eb0 ebs where ebs: "es_buckets e = eb0 # ebs" using ok(1) by (cases "es_buckets e") auto
  have bk: "\<forall>eb \<in> set (es_buckets e). bucket_ok eb (es_group_size e) \<and> eb_precision eb = p"
    using estimator_ok_bucket(1,4) [OF assms(1)] by (auto simp: in_set_conv_nth)
  then have p: "4 \<le> p" "p \<le> 18" "eb_precision eb0 = p" using bucket_okD(1,2) [of eb0] ebs by auto
  obtain sk0 where sk0: "eb_new_sketch eb0 = Inr sk0" "sketch_ok p sk0" "sk_hits sk0 = {}"
    using must_new_sketch_ok [OF p(1,2), of "eb_sparse eb0"] p(3) by (auto simp: eb_new_sketch_def)
  obtain sk where sk: "global_sketch e eb0 = Inr sk" "sketch_ok p sk" "sk_hits sk = es_global_hits e"
    using merge_buckets_ok [OF bk sk0(2)] sk0(1,3) by (auto simp: global_sketch_def es_global_hits_def)
  have rec: "record_cb s [] = Inr ([s], None)" for s using record_cb_apply [of s "[]"] by simp
  show ?thesis using sk assms(2) ebs rec
    by (intro exI [of _ sk]) (simp add: to_snapshot_def)
qed

lemma plain_labels:
  assumes "new_estimator 2 (\<lambda>_. Inl []) (\<lambda>_. Inl []) (plain_config gb) = Inr e"
  shows "es_id e \<noteq> [] \<and> (\<forall>eb \<in> set (es_buckets e). eb_labels eb = [])"
proof -
  obtain kw where nb: "new_buckets (apply_defaults 2 (plain_config gb)) kw = Inr (es_buckets e)"
    and id: "es_id e \<noteq> []" using assms
    by (auto simp: new_estimator_def Let_def estimator_id_def split: sum.splits option.splits if_splits)
  have ad: "ec_hll_sparse (apply_defaults 2 (plain_config gb)) = Some True"
    "ec_hll_precision (apply_defaults 2 (plain_config gb)) = 4" "ec_labels (apply_defaults 2 (plain_config gb)) = []"
    by (simp_all add: apply_defaults_def plain_config_def)
  from new_buckets_ok [OF ad(1), of kw] nb id ad(2,3) show ?thesis by (fastforce simp: in_set_conv_nth eb_shell_def)
qed

text \<open>C20: A snapshot of a grouping estimator shows every tracked group exactly once, with a sketch that knows exactly
  what the group's two generations know, in batches of at most 1000 groups, followed by exactly one snapshot
  without groups that carries the rejected count; the per-batch snapshots carry none.\<close>

theorem snapshot_shows_groups:
  assumes "estimator_ok p e" and "es_group_by e \<noteq> []"
  shows "\<exists>e' ss final. to_snapshot fl record_cb e [] = Inr (e', ss @ [final], None)
    \<and> distinct (concat (map (\<lambda>s. map fst (sn_sketches s)) ss))
    \<and> set (concat (map (\<lambda>s. map fst (sn_sketches s)) ss)) = tracked_keys e
    \<and> (\<forall>s \<in> set ss. sn_id s = es_id e \<and> sn_group_reject_size s = 0 \<and> length (sn_sketches s) \<le> 1000
          \<and> (\<forall>(k, g) \<in> set (sn_sketches s). sketch_ok p (ss_sketch g) \<and> sk_hits (ss_sketch g) = es_group_hits e k))
    \<and> sn_sketches final = [] \<and> sn_id final = es_id e
    \<and> sn_group_reject_size final = sint (fst (total_rejected fl (es_group_size e)))"
proof -
  define base where "base = snapshot_base e (hd (es_buckets e))
      \<lparr>sn_group_limit := gs_limit (es_group_size e), sn_group_by := es_group_by e\<rparr>"
  have b: "sn_id base = es_id e" "sn_group_reject_size base = 0" "sn_sketches base = []"
    by (simp_all add: base_def snapshot_base_def new_snapshot_def)
  obtain ms e' where ms: "to_snapshot fl record_cb e [] = Inr (e', map (\<lambda>m. base\<lparr>sn_sketches := m\<rparr>) ms
             @ [base\<lparr>sn_group_reject_size := sint (fst (total_rejected fl (es_group_size e)))\<rparr>], None)"
    "distinct (concat (map (map fst) ms))" "set (concat (map (map fst) ms)) = tracked_keys e"
    "\<forall>m \<in> set ms. m \<noteq> [] \<and> length m \<le> batch_size \<and> shows_groups p (es_group_hits e) m"
    using to_snapshot_groups [OF assms, of fl, folded base_def] by blast
  have "concat (map (\<lambda>s. map fst (sn_sketches s)) (map (\<lambda>m. base\<lparr>sn_sketches := m\<rparr>) ms)) = concat (map (map fst) ms)"
    by (simp add: comp_def)
  then show ?thesis using ms b
    by (intro exI [of _ e'] exI [of _ "map (\<lambda>m. base\<lparr>sn_sketches := m\<rparr>) ms"]
        exI [of _ "base\<lparr>sn_group_reject_size := sint (fst (total_rejected fl (es_group_size e)))\<rparr>"])
      (simp add: batch_size_def shows_groups_def)
qed

theorem snapshot_shows_groups_witness:
  "\<exists>e e' ss final. new_estimator 2 (\<lambda>_. Inl []) (\<lambda>_. Inl []) (plain_config [''job'']) = Inr e
    \<and> to_snapshot \<lparr>linear_count = (\<lambda>_. 0), beta_count = (\<lambda>_ _. 0)\<rparr> record_cb e [] = Inr (e', ss @ [final], None)
    \<and> sn_sketches final = []"
proof -
  obtain e where e: "new_estimator 2 (\<lambda>_. Inl []) (\<lambda>_. Inl []) (plain_config [''job'']) = Inr e" "estimator_ok 4 e"
    "es_group_by e \<noteq> []" using plain_estimator [of "[''job'']"] by (auto simp: label_keyword_def)
  from snapshot_shows_groups [OF e(2,3), of "\<lparr>linear_count = (\<lambda>_. 0), beta_count = (\<lambda>_ _. 0)\<rparr>"] e(1)
  show ?thesis by blast
qed

text \<open>A snapshot of a global estimator is a single one, whose sketch under key 0 knows exactly what all buckets
  together know, current and previous generation.\<close>

theorem snapshot_shows_global:
  assumes "estimator_ok p e" and "es_group_by e = []"
  shows "\<exists>s g. to_snapshot fl record_cb e [] = Inr (e, [s], None) \<and> sn_sketches s = [(0, g)] \<and> sn_id s = es_id e
    \<and> sketch_ok p (ss_sketch g) \<and> sk_hits (ss_sketch g) = es_global_hits e"
  using to_snapshot_global [OF assms, of fl] by (auto simp: snapshot_base_def new_snapshot_def)

theorem snapshot_shows_global_witness:
  "\<exists>e s. new_estimator 2 (\<lambda>_. Inl []) (\<lambda>_. Inl []) (plain_config []) = Inr e
    \<and> to_snapshot \<lparr>linear_count = (\<lambda>_. 0), beta_count = (\<lambda>_ _. 0)\<rparr> record_cb e [] = Inr (e, [s], None)"
proof -
  obtain e where e: "new_estimator 2 (\<lambda>_. Inl []) (\<lambda>_. Inl []) (plain_config []) = Inr e" "estimator_ok 4 e"
    "es_group_by e = []" using plain_global by blast
  from snapshot_shows_global [OF e(2,3), of "\<lparr>linear_count = (\<lambda>_. 0), beta_count = (\<lambda>_ _. 0)\<rparr>"] e(1)
  show ?thesis by blast
qed

subsection \<open>A cluster\<close>

text \<open>
  Storage nodes stream their snapshots, a selector node adds them all.  \<open>view e k\<close> is what one estimator
  shows under a key.
\<close>

definition view :: "estimator \<Rightarrow> u64 \<Rightarrow> (nat \<times> nat) set" where
  "view e k = (if es_group_by e = [] then (if k = 0 then es_global_hits e else {}) else es_group_hits e k)"

definition node_stream :: "hll_float \<Rightarrow> estimator \<Rightarrow> snapshot list" where
  "node_stream fl e = (case to_snapshot fl record_cb e [] of Inl _ \<Rightarrow> [] | Inr (_, ss, _) \<Rightarrow> ss)"

definition node_ok :: "(string \<Rightarrow> nat) \<Rightarrow> estimator \<Rightarrow> bool" where
  "node_ok P e \<longleftrightarrow> estimator_ok (P (es_id e)) e \<and> es_id e \<noteq> [] \<and> (\<forall>eb \<in> set (es_buckets e). map_ok (eb_labels eb))"

lemma untracked_hits: "estimator_ok p e \<Longrightarrow> k \<notin> tracked_keys e \<Longrightarrow> es_group_hits e k = {}"
proof -
  assume e: "estimator_ok p e" and k: "k \<notin> tracked_keys e"
  have "k \<notin> tracked (es_buckets e ! own_index e k)"
    using k own_index_less [OF e, of k] by (auto simp: tracked_keys_def)
  then show ?thesis
    by (auto simp: es_group_hits_def group_hits_def tracked_def key_group_hits_None map_of_not_in_keys)
qed

lemma node_stream_ok:
  assumes "node_ok P e"
  shows "(\<forall>s \<in> set (node_stream fl e). snapshot_valid P s \<and> sn_id (sn_with_id s) = es_id e)
    \<and> (\<Union>s \<in> set (node_stream fl e). snapshot_hits s (i, k)) = (if i = es_id e then view e k else {})"
proof -
  have e: "estimator_ok (P (es_id e)) e" "es_id e \<noteq> []" "\<forall>eb \<in> set (es_buckets e). map_ok (eb_labels eb)"
    using assms by (auto simp: node_ok_def)
  have lab: "map_ok (eb_labels (hd (es_buckets e)))" using e(3) estimator_okD(1) [OF e(1)] by simp
  show ?thesis
  proof (cases "es_group_by e = []")
    case True
    then obtain sk where sk: "to_snapshot fl record_cb e [] =
      Inr (e, [snapshot_base e (hd (es_buckets e))\<lparr>sn_sketches := [(0, \<lparr>ss_values = [], ss_sketch = sk\<rparr>)]\<rparr>], None)"
      "sketch_ok (P (es_id e)) sk" "sk_hits sk = es_global_hits e"
      using to_snapshot_global [OF e(1), of fl] by blast
    then show ?thesis using True e(2) lab
      by (simp add: node_stream_def snapshot_valid_def snapshot_ok_def sketches_ok_def map_ok_def sn_with_id_def
          snapshot_base_def snapshot_hits_def view_def ss_hits_def)
  next
    case False
    define base where "base = snapshot_base e (hd (es_buckets e))
      \<lparr>sn_group_limit := gs_limit (es_group_size e), sn_group_by := es_group_by e\<rparr>"
    have b: "sn_id base = es_id e" "sn_sketches base = []" "map_ok (sn_labels base)"
      using lab by (simp_all add: base_def snapshot_base_def new_snapshot_def)
    obtain ms f where ms: "node_stream fl e = map (\<lambda>m. base\<lparr>sn_sketches := m\<rparr>) ms @ [base\<lparr>sn_group_reject_size := f\<rparr>]"
      "distinct (concat (map (map fst) ms))" "set (concat (map (map fst) ms)) = tracked_keys e"
      "\<forall>m \<in> set ms. m \<noteq> [] \<and> length m \<le> batch_size \<and> shows_groups (P (es_id e)) (es_group_hits e) m"
      using to_snapshot_groups [OF e(1) False, of fl, folded base_def] by (auto simp: node_stream_def)
    have wid: "sn_with_id (base\<lparr>sn_sketches := m\<rparr>) = base\<lparr>sn_sketches := m\<rparr>"
      "sn_with_id (base\<lparr>sn_group_reject_size := f\<rparr>) = base\<lparr>sn_group_reject_size := f\<rparr>" for m
      using b(1) e(2) by (simp_all add: sn_with_id_def)
    have m_ok: "sketches_ok (P (es_id e)) m" if "m \<in> set ms" for m
    proof -
      have sh: "shows_groups (P (es_id e)) (es_group_hits e) m" using that ms(4) by blast
      have di: "distinct (map fst m)" using that ms(2) by (auto simp: distinct_concat_iff)
      show ?thesis using sh di unfolding sketches_ok_def map_ok_def shows_groups_def by fastforce
    qed
    have hits: "ss_hits m k = (if k \<in> map_keys m then es_group_hits e k else {})" if m: "m \<in> set ms" for m
    proof (cases "map_of m k")
      case None
      then show ?thesis by (simp add: ss_hits_None map_of_not_in_keys)
    next
      case (Some g)
      have "shows_groups (P (es_id e)) (es_group_hits e) m" using ms(4) m by blast
      then have "sk_hits (ss_sketch g) = es_group_hits e k"
        using map_of_SomeD [OF Some] unfolding shows_groups_def by fastforce
      then show ?thesis using ss_hits_Some [OF Some] map_of_in_keys [OF Some] by simp
    qed
    have keys: "tracked_keys e = (\<Union>m \<in> set ms. map_keys m)" using ms(3) by simp
    have "(\<Union>m \<in> set ms. ss_hits m k) = es_group_hits e k"
    proof (cases "k \<in> tracked_keys e")
      case True
      then show ?thesis using hits keys by auto
    next
      case no: False
      then show ?thesis using hits keys untracked_hits [OF e(1) no] by auto
    qed
    moreover have "\<forall>s \<in> set (node_stream fl e). snapshot_valid P s \<and> sn_id (sn_with_id s) = es_id e"
      using m_ok b e(2) unfolding ms(1) by (auto simp: snapshot_valid_def wid snapshot_ok_def)
    moreover have "(\<Union>s \<in> set (node_stream fl e). snapshot_hits s (i, k))
        = (if i = es_id e then (\<Union>m \<in> set ms. ss_hits m k) else {})"
      using b e(2) unfolding ms(1) by (auto simp: snapshot_hits_def wid)
    ultimately show ?thesis using False by (simp add: view_def)
  qed
qed

text \<open>A selector node that adds the streams of any storage nodes shows, for every estimator id and group, exactly
  the union of what the estimators with this id show on the nodes, and it never panics.\<close>

theorem cluster_shows_union:
  assumes "\<forall>e \<in> set es. node_ok P e"
  shows "\<exists>m. fold_err snapshots_add [] (concat (map (node_stream fl) es)) = Inr m
    \<and> (\<forall>i k. snapshots_hits m (i, k) = (\<Union>e \<in> {e \<in> set es. es_id e = i}. view e k))"
proof -
  note ns = node_stream_ok [OF assms [rule_format], of _ fl]
  have "\<forall>s \<in> set (concat (map (node_stream fl) es)). snapshot_valid P s" using ns by auto
  moreover have "snapshots_ok P []" by (simp add: snapshots_ok_def)
  ultimately obtain m where m: "fold_err snapshots_add [] (concat (map (node_stream fl) es)) = Inr m"
    "\<forall>ik. snapshots_hits m ik = snapshots_hits [] ik \<union> (\<Union>s \<in> set (concat (map (node_stream fl) es)). snapshot_hits s ik)"
    using snaps.run_ok [of P "[]"] by blast
  have "snapshots_hits m (i, k) = (\<Union>e \<in> {e \<in> set es. es_id e = i}. view e k)" for i k
  proof -
    have "(\<Union>s \<in> set (concat (map (node_stream fl) es)). snapshot_hits s (i, k))
        = (\<Union>e \<in> set es. \<Union>s \<in> set (node_stream fl e). snapshot_hits s (i, k))" by auto
    also have "\<dots> = (\<Union>e \<in> set es. if i = es_id e then view e k else {})" using ns by auto
    also have "\<dots> = (\<Union>e \<in> {e \<in> set es. es_id e = i}. view e k)" by auto
    finally show ?thesis using m(2) by (simp add: snapshots_hits_def)
  qed
  with m(1) show ?thesis by blast
qed


theorem cluster_shows_union_witness:
  "\<exists>e. new_estimator 2 (\<lambda>_. Inl []) (\<lambda>_. Inl []) (plain_config [''job'']) = Inr e
    \<and> (\<exists>m. fold_err snapshots_add []
          (concat (map (node_stream \<lparr>linear_count = (\<lambda>_. 0), beta_count = (\<lambda>_ _. 0)\<rparr>) [e, e])) = Inr m)"
proof -
  obtain e where e: "new_estimator 2 (\<lambda>_. Inl []) (\<lambda>_. Inl []) (plain_config [''job'']) = Inr e" "estimator_ok 4 e"
    "es_id e \<noteq> []" "\<forall>eb \<in> set (es_buckets e). map_ok (eb_labels eb)"
    using plain_estimator [of "[''job'']"] plain_labels [of "[''job'']"] by (auto simp: label_keyword_def map_ok_def)
  then have "\<forall>x \<in> set [e, e]. node_ok (\<lambda>_. 4) x" by (simp add: node_ok_def)
  from cluster_shows_union [OF this, of "\<lparr>linear_count = (\<lambda>_. 0), beta_count = (\<lambda>_ _. 0)\<rparr>"] e(1)
  show ?thesis by blast
qed

subsection \<open>Aborting\<close>

text \<open>A callback that records what it is shown and fails at its call number \<open>k\<close>, counted from 0.\<close>

definition failing_cb :: "nat \<Rightarrow> string \<Rightarrow> (snapshot list, string) snapshot_cb" where
  "failing_cb k err s st = Inr (st @ [s], if length st = k then Some err else None)"

lemma batch_loop_prefix:
  "batch_loop record_cb s eb bs pool st = Inr (pool', st', None) \<Longrightarrow> \<exists>rest. st' = st @ rest"
proof (induction bs arbitrary: pool st)
  case (Cons b bs)
  obtain pool1 m where m: "fold_err (snapshot_key eb) (pool, []) b = Inr (pool1, m)"
    using Cons.prems by (auto split: sum.splits)
  have "batch_loop record_cb s eb bs (put_all pool1 m) (st @ [s\<lparr>sn_sketches := m\<rparr>]) = Inr (pool', st', None)"
    using Cons.prems m record_cb_apply [of "s\<lparr>sn_sketches := m\<rparr>" st] by simp
  from Cons.IH [OF this] show ?case by auto
qed simp

lemma bucket_loop_prefix:
  "bucket_loop record_cb s ebs pool st = Inr (st', None) \<Longrightarrow> \<exists>rest. st' = st @ rest"
proof (induction ebs arbitrary: pool st)
  case (Cons eb ebs)
  obtain pool1 st1 where b: "batch_loop record_cb s eb (batches (bucket_keys eb)) pool st = Inr (pool1, st1, None)"
    and run: "bucket_loop record_cb s ebs pool1 st1 = Inr (st', None)"
    using Cons.prems by (auto split: sum.splits option.splits)
  from Cons.IH [OF run] batch_loop_prefix [OF b] show ?case by auto
qed simp

lemma batch_loop_failing:
  assumes "batch_loop record_cb s eb bs pool st = Inr (pool', st', None)" and "length st \<le> k"
  shows "\<exists>rest. st' = st @ rest
    \<and> (if length st' \<le> k then batch_loop (failing_cb k err) s eb bs pool st = Inr (pool', st', None)
       else \<exists>pool''. batch_loop (failing_cb k err) s eb bs pool st = Inr (pool'', take (Suc k) st', Some err))"
  using assms
proof (induction bs arbitrary: pool st)
  case (Cons b bs)
  obtain pool1 m where m: "fold_err (snapshot_key eb) (pool, []) b = Inr (pool1, m)"
    using Cons.prems(1) by (auto split: sum.splits)
  let ?s = "s\<lparr>sn_sketches := m\<rparr>"
  have run: "batch_loop record_cb s eb bs (put_all pool1 m) (st @ [?s]) = Inr (pool', st', None)"
    using Cons.prems(1) m record_cb_apply [of ?s st] by simp
  have fail: "failing_cb k err ?s st = Inr (st @ [?s], if length st = k then Some err else None)"
    by (simp add: failing_cb_def)
  show ?case
  proof (cases "length st = k")
    case True
    have "\<exists>rest. st' = (st @ [?s]) @ rest" using batch_loop_prefix [OF run] .
    then obtain rest where rest: "st' = (st @ [?s]) @ rest" ..
    have "batch_loop (failing_cb k err) s eb (b # bs) pool st = Inr (pool1, take (Suc k) st', Some err)"
      using m fail True rest by simp
    then show ?thesis using rest True by simp
  next
    case False
    then have "length (st @ [?s]) \<le> k" using Cons.prems(2) by simp
    from Cons.IH [OF run this] obtain rest where rest: "st' = (st @ [?s]) @ rest"
      "if length st' \<le> k then batch_loop (failing_cb k err) s eb bs (put_all pool1 m) (st @ [?s]) = Inr (pool', st', None)
       else \<exists>pool''. batch_loop (failing_cb k err) s eb bs (put_all pool1 m) (st @ [?s]) = Inr (pool'', take (Suc k) st', Some err)"
      by blast
    have "batch_loop (failing_cb k err) s eb (b # bs) pool st
        = batch_loop (failing_cb k err) s eb bs (put_all pool1 m) (st @ [?s])"
      using m fail False by simp
    then show ?thesis using rest by auto
  qed
qed simp

lemma bucket_loop_failing:
  assumes "bucket_loop record_cb s ebs pool st = Inr (st', None)" and "length st \<le> k"
  shows "\<exists>rest. st' = st @ rest
    \<and> bucket_loop (failing_cb k err) s ebs pool st
       = (if length st' \<le> k then Inr (st', None) else Inr (take (Suc k) st', Some err))"
  using assms
proof (induction ebs arbitrary: pool st)
  case (Cons eb ebs)
  obtain pool1 st1 where b: "batch_loop record_cb s eb (batches (bucket_keys eb)) pool st = Inr (pool1, st1, None)"
    and run: "bucket_loop record_cb s ebs pool1 st1 = Inr (st', None)"
    using Cons.prems(1) by (auto split: sum.splits option.splits)
  from batch_loop_failing [OF b Cons.prems(2), of err] obtain rest1 where r1: "st1 = st @ rest1"
    "if length st1 \<le> k then batch_loop (failing_cb k err) s eb (batches (bucket_keys eb)) pool st = Inr (pool1, st1, None)
     else \<exists>pool''. batch_loop (failing_cb k err) s eb (batches (bucket_keys eb)) pool st
        = Inr (pool'', take (Suc k) st1, Some err)" by blast
  have pre: "\<exists>rest. st' = st1 @ rest"
    using bucket_loop_prefix [OF run] .
  show ?case
  proof (cases "length st1 \<le> k")
    case True
    from Cons.IH [OF run True] r1 True show ?thesis by auto
  next
    case False
    then obtain pool'' where "batch_loop (failing_cb k err) s eb (batches (bucket_keys eb)) pool st
        = Inr (pool'', take (Suc k) st1, Some err)" using r1(2) by auto
    moreover obtain rest where "st' = st1 @ rest" using pre ..
    ultimately show ?thesis using False r1(1) by simp
  qed
qed simp

text \<open>If the callback returns an error at its call number k, toSnapshot stops there and returns this error: the
  callback has seen exactly the first k + 1 of the snapshots a callback without errors sees.\<close>

theorem snapshot_aborts_at_error:
  assumes "to_snapshot fl record_cb e [] = Inr (e1, ss, None)" and "k < length ss"
  shows "\<exists>e2. to_snapshot fl (failing_cb k err) e [] = Inr (e2, take (Suc k) ss, Some err)"
proof -
  obtain eb0 ebs where ebs: "es_buckets e = eb0 # ebs"
    using assms(1) by (auto simp: to_snapshot_def split: list.splits)
  have fail: "failing_cb k err s st = Inr (st @ [s], if length st = k then Some err else None)" for s st
    by (simp add: failing_cb_def)
  have rec: "record_cb s st = Inr (st @ [s], None)" for s st by (rule record_cb_apply)
  show ?thesis
  proof (cases "es_group_by e = []")
    case True
    then show ?thesis using assms ebs fail
      by (auto simp: to_snapshot_def record_cb_apply split: sum.splits)
  next
    case False
    define s where "s = snapshot_base e eb0\<lparr>sn_group_limit := gs_limit (es_group_size e), sn_group_by := eb_group_by eb0\<rparr>"
    obtain avg pool st1 where a: "avg_bucket_size (es_group_size e) = Inr avg"
      "new_sketches_pool (eb_precision eb0) (min (int batch_size) avg) = Inr pool"
      "bucket_loop record_cb s (es_buckets e) pool [] = Inr (st1, None)"
      using assms(1) False ebs
      by (auto simp: to_snapshot_def Let_def s_def split: sum.splits option.splits)
    obtain n gs where n: "total_rejected fl (es_group_size e) = (n, gs)" by force
    have ss: "ss = st1 @ [s\<lparr>sn_group_reject_size := sint n\<rparr>]"
      using assms(1) False ebs a n
      by (simp add: to_snapshot_def Let_def s_def [symmetric] record_cb_apply)
    from bucket_loop_failing [OF a(3), of k err] have
      "bucket_loop (failing_cb k err) s (es_buckets e) pool []
       = (if length st1 \<le> k then Inr (st1, None) else Inr (take (Suc k) st1, Some err))" by simp
    then show ?thesis using False ebs a n ss assms(2) fail
      by (cases "length st1 \<le> k") (auto simp: to_snapshot_def Let_def s_def [symmetric])
  qed
qed

theorem snapshot_aborts_at_error_witness:
  "\<exists>e s e2. new_estimator 2 (\<lambda>_. Inl []) (\<lambda>_. Inl []) (plain_config []) = Inr e
    \<and> to_snapshot \<lparr>linear_count = (\<lambda>_. 0), beta_count = (\<lambda>_ _. 0)\<rparr> (failing_cb 0 ''eof'') e [] = Inr (e2, [s], Some ''eof'')"
proof -
  obtain e where e: "new_estimator 2 (\<lambda>_. Inl []) (\<lambda>_. Inl []) (plain_config []) = Inr e" "estimator_ok 4 e"
    "es_group_by e = []" using plain_global by blast
  obtain s where "to_snapshot \<lparr>linear_count = (\<lambda>_. 0), beta_count = (\<lambda>_ _. 0)\<rparr> record_cb e [] = Inr (e, [s], None)"
    using to_snapshot_global [OF e(2,3)] by blast
  from snapshot_aborts_at_error [OF this, of 0 "''eof''"] e(1) show ?thesis by auto
qed

end
