(* ===== verification/Estimator_Run.thy ===== *)
theory Estimator_Run
  imports Estimator_Snapshot
begin

section \<open>The life of an estimator\<close>

text \<open>
  What holds of an estimator in every state the program can bring it to: an inductive step relation with
  the operations the handlers, the rotation and the scrapes perform on it, an invariant, and the
  consequences for writing its metrics.  A run of \<^verbatim>\<open>toSnapshot\<close> with any callback is reduced to the list
  of snapshots it shows.  An operation is one step; theory \<open>Concurrent_Limit\<close> splits it at the accesses to
  the counters all buckets share.
\<close>

subsection \<open>Callbacks\<close>

text \<open>Calling a callback for one snapshot after the other, until it fails.\<close>

fun run_cb :: "('s, 'e) snapshot_cb \<Rightarrow> snapshot list \<Rightarrow> 's \<Rightarrow> go_panic + 's \<times> 'e option" where
  "run_cb cb [] st = Inr (st, None)"
| "run_cb cb (s # ss) st =
     (case cb s st of
        Inl p \<Rightarrow> Inl p
      | Inr (st', Some err) \<Rightarrow> Inr (st', Some err)
      | Inr (st', None) \<Rightarrow> run_cb cb ss st')"

lemma run_cb_append:
  "run_cb cb (xs @ ys) st =
     (case run_cb cb xs st of
        Inl p \<Rightarrow> Inl p | Inr (st', Some err) \<Rightarrow> Inr (st', Some err) | Inr (st', None) \<Rightarrow> run_cb cb ys st')"
  by (induction xs arbitrary: st) (auto split: sum.splits option.splits)

lemma run_cb_pure:
  "\<forall>s \<in> set ss. \<forall>st. I st \<longrightarrow> (\<exists>st'. cb s st = Inr (st', None) \<and> I st') \<Longrightarrow> I st
   \<Longrightarrow> \<exists>st'. run_cb cb ss st = Inr (st', None) \<and> I st'"
proof (induction ss arbitrary: st)
  case (Cons s ss)
  then obtain st1 where "cb s st = Inr (st1, None)" "I st1" by auto
  then show ?case using Cons.IH [of st1] Cons.prems(1) by auto
qed simp

lemma batch_loop_run_cb:
  assumes "batch_loop record_cb s eb bs pool st0 = Inr (pool', st0 @ rest, None)"
  shows "(case run_cb cb rest st of
      Inl p \<Rightarrow> batch_loop cb s eb bs pool st = Inl p
    | Inr (st', None) \<Rightarrow> batch_loop cb s eb bs pool st = Inr (pool', st', None)
    | Inr (st', Some err) \<Rightarrow> \<exists>pl. batch_loop cb s eb bs pool st = Inr (pl, st', Some err))"
  using assms
proof (induction bs arbitrary: pool st0 st rest)
  case (Cons b bs)
  obtain pool1 m where m: "fold_err (snapshot_key eb) (pool, []) b = Inr (pool1, m)"
    using Cons.prems(1) by (auto split: sum.splits)
  let ?s = "s\<lparr>sn_sketches := m\<rparr>"
  have run: "batch_loop record_cb s eb bs (put_all pool1 m) (st0 @ [?s]) = Inr (pool', st0 @ rest, None)"
    using Cons.prems m record_cb_apply [of ?s st0] by simp
  then obtain rest1 where rest: "rest = ?s # rest1" using batch_loop_prefix [OF run] by auto
  then have run': "batch_loop record_cb s eb bs (put_all pool1 m) (st0 @ [?s]) = Inr (pool', (st0 @ [?s]) @ rest1, None)"
    using run by simp
  show ?case
  proof (cases "cb ?s st")
    case (Inl p)
    then show ?thesis using m rest by simp
  next
    case (Inr r)
    obtain st1 err where r: "r = (st1, err)" by force
    show ?thesis
    proof (cases err)
      case None
      then have eq: "batch_loop cb s eb (b # bs) pool st = batch_loop cb s eb bs (put_all pool1 m) st1"
        "run_cb cb rest st = run_cb cb rest1 st1" using m rest Inr r by simp_all
      show ?thesis unfolding eq by (rule Cons.IH [OF run'])
    qed (use m rest Inr r in simp)
  qed
qed simp

lemma bucket_loop_run_cb:
  assumes "bucket_loop record_cb s ebs pool st0 = Inr (st0 @ rest, None)"
  shows "bucket_loop cb s ebs pool st = run_cb cb rest st"
  using assms
proof (induction ebs arbitrary: pool st0 st rest)
  case (Cons eb ebs)
  obtain pool1 st1 where b: "batch_loop record_cb s eb (batches (bucket_keys eb)) pool st0 = Inr (pool1, st1, None)"
    and run: "bucket_loop record_cb s ebs pool1 st1 = Inr (st0 @ rest, None)"
    using Cons.prems by (auto split: sum.splits option.splits)
  obtain r1 where r1: "st1 = st0 @ r1" using batch_loop_prefix [OF b] ..
  obtain r2 where r2: "st0 @ rest = st1 @ r2" using bucket_loop_prefix [OF run] ..
  have rest: "rest = r1 @ r2" using r1 r2 by simp
  note B = batch_loop_run_cb [OF b [unfolded r1], of cb st]
  note R = Cons.IH [OF run [unfolded r2]]
  show ?case
  proof (cases "run_cb cb r1 st")
    case (Inl p)
    then show ?thesis using B by (simp add: rest run_cb_append)
  next
    case (Inr r)
    obtain st' err where r: "r = (st', err)" by force
    then show ?thesis using B R [of st'] Inr by (cases err) (auto simp: rest run_cb_append)
  qed
qed simp

text \<open>Any callback sees the snapshots the recording one sees, up to its first failure.\<close>

lemma to_snapshot_run_cb:
  assumes "to_snapshot fl record_cb e [] = Inr (e1, ss, None)"
  shows "(case run_cb cb ss st of
      Inl p \<Rightarrow> to_snapshot fl cb e st = Inl p
    | Inr (st', None) \<Rightarrow> to_snapshot fl cb e st = Inr (e1, st', None)
    | Inr (st', Some err) \<Rightarrow> \<exists>e2. to_snapshot fl cb e st = Inr (e2, st', Some err))"
proof -
  obtain eb0 ebs where ebs: "es_buckets e = eb0 # ebs"
    using assms by (auto simp: to_snapshot_def split: list.splits)
  show ?thesis
  proof (cases "es_group_by e = []")
    case True
    obtain sk where sk: "global_sketch e eb0 = Inr sk" "e1 = e"
      "ss = [snapshot_base e eb0\<lparr>sn_sketches := [(0, \<lparr>ss_values = [], ss_sketch = sk\<rparr>)]\<rparr>]"
      using assms True ebs by (auto simp: to_snapshot_def record_cb_apply split: sum.splits)
    show ?thesis
    proof (cases "cb (hd ss) st")
      case (Inr r)
      then show ?thesis using sk True ebs by (cases "snd r") (auto simp: to_snapshot_def split: prod.splits)
    qed (use sk True ebs in \<open>simp add: to_snapshot_def\<close>)
  next
    case False
    define s where "s = snapshot_base e eb0\<lparr>sn_group_limit := gs_limit (es_group_size e), sn_group_by := eb_group_by eb0\<rparr>"
    obtain avg pool st1 where a: "avg_bucket_size (es_group_size e) = Inr avg"
      "new_sketches_pool (eb_precision eb0) (min (int batch_size) avg) = Inr pool"
      "bucket_loop record_cb s (es_buckets e) pool [] = Inr (st1, None)"
      using assms False ebs by (auto simp: to_snapshot_def Let_def s_def split: sum.splits option.splits)
    obtain n gs where n: "total_rejected fl (es_group_size e) = (n, gs)" by force
    let ?f = "s\<lparr>sn_group_reject_size := sint n\<rparr>"
    have ss: "ss = st1 @ [?f]" "e1 = e\<lparr>es_group_size := gs\<rparr>"
      using assms False ebs a n by (simp_all add: to_snapshot_def Let_def s_def [symmetric] record_cb_apply)
    have B: "bucket_loop cb s (es_buckets e) pool st = run_cb cb st1 st"
      using bucket_loop_run_cb [of s "es_buckets e" pool "[]" st1 cb st] a(3) by simp
    have T: "to_snapshot fl cb e st = (case run_cb cb st1 st of Inl p \<Rightarrow> Inl p | Inr (st2, Some err) \<Rightarrow> Inr (e, st2, Some err)
        | Inr (st2, None) \<Rightarrow> map_sum id (\<lambda>r. (e\<lparr>es_group_size := gs\<rparr>, r)) (cb ?f st2))"
    proof -
      have "to_snapshot fl cb e st = (case bucket_loop cb s (es_buckets e) pool st of Inl p \<Rightarrow> Inl p
        | Inr (st2, Some err) \<Rightarrow> Inr (e, st2, Some err)
        | Inr (st2, None) \<Rightarrow> (case total_rejected fl (es_group_size e) of
            (n, gs) \<Rightarrow> map_sum id (\<lambda>r. (e\<lparr>es_group_size := gs\<rparr>, r)) (cb (s\<lparr>sn_group_reject_size := sint n\<rparr>) st2)))"
        using False ebs a(1,2) by (simp add: to_snapshot_def Let_def s_def [symmetric])
      then show ?thesis unfolding B n by (simp only: prod.case)
    qed
    show ?thesis
    proof (cases "run_cb cb st1 st")
      case (Inr r)
      obtain st2 err where r: "r = (st2, err)" by force
      show ?thesis
      proof (cases err)
        case None
        show ?thesis
        proof (cases "cb ?f st2")
          case (Inr q)
          then show ?thesis using T \<open>run_cb cb st1 st = Inr r\<close> r None ss
            by (cases "snd q") (auto simp: run_cb_append split: prod.splits)
        qed (use T Inr r None ss in \<open>simp add: run_cb_append\<close>)
      qed (use T Inr r ss in \<open>simp add: run_cb_append\<close>)
    qed (use T ss in \<open>simp add: run_cb_append\<close>)
  qed
qed

subsection \<open>The values of a group\<close>

text \<open>Every group holds one value per group-by label; writing its line reads a label per value.\<close>

definition values_len :: "nat \<Rightarrow> (u64, group_sketch) gomap \<Rightarrow> bool" where
  "values_len n m \<longleftrightarrow> (\<forall>g \<in> snd ` set m. length (gsk_values g) = n)"

definition bucket_values_ok :: "bucket \<Rightarrow> bool" where
  "bucket_values_ok eb \<longleftrightarrow>
     values_len (length (eb_group_by eb)) (eb_groups eb) \<and> values_len (length (eb_group_by eb)) (eb_prev_groups eb)"

text \<open>The settings of the buckets, which no operation changes.\<close>

definition es_frame where
  "es_frame e = map eb_shell (es_buckets e)"

lemma values_len_Nil [simp]: "values_len n []"
  by (simp add: values_len_def)

lemma values_len_update: "values_len n m \<Longrightarrow> length (gsk_values g) = n \<Longrightarrow> values_len n (AList.update k g m)"
  using set_snd_update [of k g m] unfolding values_len_def by blast

lemma values_len_lookup: "values_len n m \<Longrightarrow> map_of m k = Some g \<Longrightarrow> length (gsk_values g) = n"
  by (force simp: values_len_def dest: map_of_SomeD)

definition es_values_ok :: "estimator \<Rightarrow> bool" where
  "es_values_ok e \<longleftrightarrow> (\<forall>eb \<in> set (es_buckets e). bucket_values_ok eb \<and> eb_group_by eb = es_group_by e)"

lemma eb_store_values:
  "bucket_values_ok eb \<Longrightarrow> length (gsk_values g) = length (eb_group_by eb)
   \<Longrightarrow> bucket_values_ok (eb_store eb k fp g) \<and> eb_shell (eb_store eb k fp g) = eb_shell eb"
  by (simp add: bucket_values_ok_def eb_store_def eb_shell_def values_len_update)

lemma eb_insert_values:
  assumes "eb_insert eb gs fp k vals = Inr (eb', gs')" and "bucket_values_ok eb" and "length vals = length (eb_group_by eb)"
  shows "bucket_values_ok eb' \<and> eb_shell eb' = eb_shell eb"
proof -
  have create: "eb_create eb k fp vs = Inr eb1 \<Longrightarrow> length vs = length (eb_group_by eb)
      \<Longrightarrow> bucket_values_ok eb1 \<and> eb_shell eb1 = eb_shell eb" for vs eb1
  proof -
    assume c: "eb_create eb k fp vs = Inr eb1" and l: "length vs = length (eb_group_by eb)"
    then obtain sk where "eb1 = eb_store eb k fp \<lparr>gsk_sketch = sk, gsk_values = vs\<rparr>"
      by (auto simp: eb_create_def split: sum.splits)
    then show ?thesis using eb_store_values [OF assms(2)] l by simp
  qed
  have v: "values_len (length (eb_group_by eb)) (eb_groups eb)" "values_len (length (eb_group_by eb)) (eb_prev_groups eb)"
    using assms(2) by (simp_all add: bucket_values_ok_def)
  consider (global) "eb_group_by eb = []"
    | (cur) g where "eb_group_by eb \<noteq> []" "map_of (eb_groups eb) k = Some g"
    | (prev) g where "eb_group_by eb \<noteq> []" "map_of (eb_groups eb) k = None" "map_of (eb_prev_groups eb) k = Some g"
    | (new) "eb_group_by eb \<noteq> []" "map_of (eb_groups eb) k = None" "map_of (eb_prev_groups eb) k = None" by fastforce
  then show ?thesis
  proof cases
    case global
    then show ?thesis using assms(1,2) by (auto simp: eb_insert_def bucket_values_ok_def eb_shell_def split: option.splits)
  next
    case cur
    then have "eb' = eb_store eb k fp g" using assms(1) by (simp add: eb_insert_def)
    then show ?thesis using eb_store_values [OF assms(2)] values_len_lookup [OF v(1) cur(2)] by simp
  next
    case prev
    then have "eb_create eb k fp (gsk_values g) = Inr eb'" using assms(1)
      by (cases "eb_create eb k fp (gsk_values g)") (auto simp: eb_insert_def)
    then show ?thesis using create values_len_lookup [OF v(2) prev(3)] by simp
  next
    case new
    then have "eb' = eb \<or> eb_create eb k fp vals = Inr eb'"
      using assms(1) by (cases "eb_create eb k fp vals") (auto simp: eb_insert_def split: sum.splits prod.splits bool.splits)
    then show ?thesis using create assms(2,3) by blast
  qed
qed

lemma eb_rotate_values:
  "eb_rotate eb gs = Inr (eb', gs') \<Longrightarrow> bucket_values_ok eb \<Longrightarrow> bucket_values_ok eb' \<and> eb_shell eb' = eb_shell eb"
  by (auto simp: eb_rotate_def bucket_values_ok_def eb_shell_def split: sum.splits if_splits)

lemma eb_reset_values:
  "eb_reset eb gs = Inr (eb', gs') \<Longrightarrow> bucket_values_ok eb \<Longrightarrow> bucket_values_ok eb' \<and> eb_shell eb' = eb_shell eb"
proof -
  assume r: "eb_reset eb gs = Inr (eb', gs')" and v: "bucket_values_ok eb"
  have "(\<exists>a b. eb' = eb\<lparr>eb_prev_sketch := a, eb_sketch := b\<rparr>) \<or> eb' = eb\<lparr>eb_groups := [], eb_prev_groups := []\<rparr>"
    using r unfolding eb_reset_def by (auto split: if_splits option.splits sum.splits)
  then show ?thesis using v by (auto simp: bucket_values_ok_def eb_shell_def)
qed

lemma with_bucket_values:
  assumes "with_bucket e i f = Inr e'" and "es_values_ok e"
    and "\<And>eb eb' gs gs'. f eb gs = Inr (eb', gs') \<Longrightarrow> bucket_values_ok eb \<Longrightarrow> eb_group_by eb = es_group_by e
      \<Longrightarrow> bucket_values_ok eb' \<and> eb_shell eb' = eb_shell eb"
  shows "es_values_ok e' \<and> es_group_by e' = es_group_by e \<and> es_frame e' = es_frame e"
proof -
  obtain eb' gs' where i: "i < length (es_buckets e)" "f (es_buckets e ! i) (es_group_size e) = Inr (eb', gs')"
    "e' = e\<lparr>es_buckets := (es_buckets e)[i := eb'], es_group_size := gs'\<rparr>"
    using assms(1) by (auto simp: with_bucket_def split: if_splits sum.splits)
  have "bucket_values_ok (es_buckets e ! i)" "eb_group_by (es_buckets e ! i) = es_group_by e"
    using assms(2) nth_mem [OF i(1)] unfolding es_values_ok_def by blast+
  note old = this
  from assms(3) [OF i(2) old] have new: "bucket_values_ok eb'" and sh: "eb_shell eb' = eb_shell (es_buckets e ! i)" by blast+
  have "bucket_values_ok eb' \<and> eb_group_by eb' = es_group_by e" using new eb_shellD(2) [OF sh] old(2) by simp
  then have "\<forall>eb \<in> set ((es_buckets e)[i := eb']). bucket_values_ok eb \<and> eb_group_by eb = es_group_by e"
    by (intro ball_list_update assms(2) [unfolded es_values_ok_def])
  moreover have "map eb_shell ((es_buckets e)[i := eb']) = map eb_shell (es_buckets e)"
    using i(1) sh by (simp add: map_update list_update_same_conv)
  ultimately show ?thesis unfolding i(3) es_values_ok_def es_frame_def by simp
qed

lemma count_insert_values:
  assumes "count_insert e ins = Inr e'" and "es_values_ok e" and "length (in_values ins) = length (es_group_by e)"
  shows "es_values_ok e' \<and> es_group_by e' = es_group_by e \<and> es_frame e' = es_frame e"
proof -
  obtain bi e1 where e1: "with_bucket e bi (\<lambda>eb gs. eb_insert eb gs (in_fp ins) (in_key ins) (in_values ins)) = Inr e1"
    "e' = e1\<lparr>es_insert_total := es_insert_total e1 + 1\<rparr>"
    using assms(1) by (auto simp: count_insert_def es_insert_def split: sum.splits)
  have "es_values_ok e1 \<and> es_group_by e1 = es_group_by e \<and> es_frame e1 = es_frame e"
    using eb_insert_values assms(3) by (intro with_bucket_values [OF e1(1) assms(2)]) auto
  then show ?thesis using e1(2) by (simp add: es_values_ok_def es_frame_def)
qed

lemma fold_err_inv:
  assumes "fold_err f s xs = Inr s'" and "P s"
    and "\<And>s x s1. x \<in> set xs \<Longrightarrow> f s x = Inr s1 \<Longrightarrow> P s \<Longrightarrow> P s1"
  shows "P s'"
  using assms
proof (induction xs arbitrary: s)
  case (Cons x xs)
  obtain s1 where s1: "f s x = Inr s1" "fold_err f s1 xs = Inr s'" using Cons.prems(1) by (auto split: sum.splits)
  have P1: "P s1" using Cons.prems(3) [OF _ s1(1) Cons.prems(2)] by simp
  show ?case by (rule Cons.IH [OF s1(2) P1]) (use Cons.prems(3) in auto)
qed simp

lemma scan_keys_length:
  "length (snd (snd (scan_keys labels i names (b, d, vals)))) = length vals"
  by (induction labels i names "(b, d, vals)" arbitrary: b d vals rule: scan_keys.induct) (auto split: option.splits)

lemma insert_serie_values:
  assumes "insert_serie sum64 e ts = Inr e'" and "es_values_ok e"
  shows "es_values_ok e' \<and> es_group_by e' = es_group_by e \<and> es_frame e' = es_frame e"
proof -
  obtain h d vals where sc: "scan_keys (ts_labels ts) 0 (explicit_keys e)
      (explicit_keys e = [], [], replicate (length (es_group_by e)) []) = (h, d, vals)" by (metis prod_cases3)
  have len: "length vals = length (es_group_by e)"
    using scan_keys_length [of "ts_labels ts" 0 "explicit_keys e" "explicit_keys e = []" "[]"
        "replicate (length (es_group_by e)) []"] sc by simp
  have lab: "es_values_ok e2 \<and> es_group_by e2 = es_group_by e \<and> es_frame e2 = es_frame e"
    if "fold_err (insert_label sum64 d vals) e (ts_labels ts) = Inr e2" for e2
    using that
  proof (rule fold_err_inv [where P = "\<lambda>e1. es_values_ok e1 \<and> es_group_by e1 = es_group_by e \<and> es_frame e1 = es_frame e"])
    show "es_values_ok e \<and> es_group_by e = es_group_by e \<and> es_frame e = es_frame e" using assms(2) by simp
    fix s x s1
    assume "insert_label sum64 d vals s x = Inr s1" "es_values_ok s \<and> es_group_by s = es_group_by e \<and> es_frame s = es_frame e"
    then show "es_values_ok s1 \<and> es_group_by s1 = es_group_by e \<and> es_frame s1 = es_frame e"
      using count_insert_values [of s _ s1] len by (auto simp: insert_label_def Let_def split: if_splits)
  qed
  show ?thesis
    using assms(1) assms(2) sc len lab count_insert_values [OF _ assms(2)]
    by (auto simp: insert_serie_def Let_def split: sum.splits if_splits)
qed

lemma insert_many_values:
  "insert_many sum64 start e tss = Inr e' \<Longrightarrow> es_values_ok e \<Longrightarrow> es_values_ok e' \<and> es_group_by e' = es_group_by e \<and> es_frame e' = es_frame e"
  unfolding insert_many_def
  by (rule fold_err_inv [where P = "\<lambda>e1. es_values_ok e1 \<and> es_group_by e1 = es_group_by e \<and> es_frame e1 = es_frame e"])
    (use insert_serie_values in fastforce)+

subsection \<open>The snapshots an estimator shows\<close>

text \<open>What the writers rely on: values fit the labels, and the settings are those of the estimator.\<close>

definition shown_ok :: "estimator \<Rightarrow> snapshot \<Rightarrow> bool" where
  "shown_ok e s \<longleftrightarrow> values_ok s \<and> sn_group_by s = es_group_by e \<and> sn_labels s = eb_labels (hd (es_buckets e))
     \<and> sn_interval s = eb_interval (hd (es_buckets e)) \<and> sn_calculate_churn s = eb_calculate_churn (hd (es_buckets e))
     \<and> sn_id s = es_id e"

definition snapshot_values_len :: "nat \<Rightarrow> (u64, snapshot_sketch) gomap \<Rightarrow> bool" where
  "snapshot_values_len n m \<longleftrightarrow> (\<forall>ss \<in> snd ` set m. length (ss_values ss) = n)"

lemma snapshot_key_values:
  assumes "snapshot_key eb (pool, m) k = Inr (pool', m')" and "bucket_values_ok eb"
    and "snapshot_values_len (length (eb_group_by eb)) m"
  shows "snapshot_values_len (length (eb_group_by eb)) m'"
proof -
  obtain src sk where src: "map_of (eb_groups eb) k = Some src \<or> map_of (eb_prev_groups eb) k = Some src"
    and m': "m' = AList.update k \<lparr>ss_values = gsk_values src, ss_sketch = sk\<rparr> m"
    using assms(1) by (auto simp: snapshot_key_def Let_def split: option.splits sum.splits prod.splits)
  have "length (gsk_values src) = length (eb_group_by eb)"
    using src assms(2) values_len_lookup by (auto simp: bucket_values_ok_def)
  moreover have "snd ` set m' \<subseteq> insert \<lparr>ss_values = gsk_values src, ss_sketch = sk\<rparr> (snd ` set m)"
    unfolding m' by (rule set_snd_update)
  ultimately show ?thesis using assms(3) unfolding snapshot_values_len_def by fastforce
qed

lemma snapshot_batch_values:
  assumes "fold_err (snapshot_key eb) (pool, []) keys = Inr (pool', m)" and "bucket_values_ok eb"
  shows "snapshot_values_len (length (eb_group_by eb)) m"
proof -
  have "snapshot_values_len (length (eb_group_by eb)) (snd (pool', m))"
    using assms(1)
  proof (rule fold_err_inv [where P = "\<lambda>st. snapshot_values_len (length (eb_group_by eb)) (snd st)"])
    show "snapshot_values_len (length (eb_group_by eb)) (snd (pool, []))" by (simp add: snapshot_values_len_def)
    fix st k st1
    assume "snapshot_key eb st k = Inr st1" "snapshot_values_len (length (eb_group_by eb)) (snd st)"
    then show "snapshot_values_len (length (eb_group_by eb)) (snd st1)"
      using snapshot_key_values [of eb "fst st" "snd st" k "fst st1" "snd st1"] assms(2) by simp
  qed
  then show ?thesis by simp
qed

lemma batch_loop_shown:
  assumes "batch_loop record_cb s eb bs pool st = Inr (pool', st', None)" and "bucket_values_ok eb"
    and "\<forall>x \<in> set st. P x" and "\<And>m. snapshot_values_len (length (eb_group_by eb)) m \<Longrightarrow> P (s\<lparr>sn_sketches := m\<rparr>)"
  shows "\<forall>x \<in> set st'. P x"
  using assms(1,3)
proof (induction bs arbitrary: pool st)
  case (Cons b bs)
  obtain pool1 m where m: "fold_err (snapshot_key eb) (pool, []) b = Inr (pool1, m)"
    using Cons.prems(1) by (auto split: sum.splits)
  have run: "batch_loop record_cb s eb bs (put_all pool1 m) (st @ [s\<lparr>sn_sketches := m\<rparr>]) = Inr (pool', st', None)"
    using Cons.prems(1) m record_cb_apply [of "s\<lparr>sn_sketches := m\<rparr>" st] by simp
  have "\<forall>x \<in> set (st @ [s\<lparr>sn_sketches := m\<rparr>]). P x"
    using Cons.prems(2) assms(4) [OF snapshot_batch_values [OF m assms(2)]] by auto
  from Cons.IH [OF run this] show ?case .
qed simp

lemma bucket_loop_shown:
  assumes "bucket_loop record_cb s ebs pool st = Inr (st', None)"
    and "\<forall>eb \<in> set ebs. bucket_values_ok eb \<and> length (eb_group_by eb) = n"
    and "\<forall>x \<in> set st. P x" and "\<And>m. snapshot_values_len n m \<Longrightarrow> P (s\<lparr>sn_sketches := m\<rparr>)"
  shows "\<forall>x \<in> set st'. P x"
  using assms(1-3)
proof (induction ebs arbitrary: pool st)
  case (Cons eb ebs)
  obtain pool1 st1 where b: "batch_loop record_cb s eb (batches (bucket_keys eb)) pool st = Inr (pool1, st1, None)"
    and run: "bucket_loop record_cb s ebs pool1 st1 = Inr (st', None)"
    using Cons.prems(1) by (auto split: sum.splits option.splits)
  have eb: "bucket_values_ok eb" "length (eb_group_by eb) = n" using Cons.prems(2) by auto
  have "\<forall>x \<in> set st1. P x"
    using batch_loop_shown [OF b eb(1) Cons.prems(3)] assms(4) eb(2) by blast
  then show ?case using Cons.IH [OF run] Cons.prems(2) by simp
qed simp

lemma sum_estimates_ok:
  assumes "\<forall>o_sk \<in> set sks. \<forall>sk. o_sk = Some sk \<longrightarrow> sketch_ok p sk" and "sum_estimates fl sks = (n, sks')"
  shows "length sks' = length sks \<and> (\<forall>o_sk \<in> set sks'. \<forall>sk. o_sk = Some sk \<longrightarrow> sketch_ok p sk)"
  using assms
proof (induction fl sks arbitrary: n sks' rule: sum_estimates.induct)
  case (2 fl sks)
  then show ?case by (auto split: prod.splits)
next
  case (3 fl sk sks)
  obtain e sk1 where e: "sk_estimate fl sk = (e, sk1)" by force
  obtain n1 sks1 where r: "sum_estimates fl sks = (n1, sks1)" by force
  have "sketch_ok p sk1" using sk_estimate_ok(1) [of p sk fl] "3.prems"(1) e by auto
  then show ?case using "3.IH" [OF e [symmetric]] "3.prems" e r by auto
qed simp

lemma total_rejected_ok:
  assumes "group_size_ok gs"
  shows "group_size_ok (snd (total_rejected fl gs)) \<and> gs_bucket_sizes (snd (total_rejected fl gs)) = gs_bucket_sizes gs
    \<and> gs_limit (snd (total_rejected fl gs)) = gs_limit gs \<and> gs_size (snd (total_rejected fl gs)) = gs_size gs"
proof -
  obtain n sks where s: "sum_estimates fl (gs_reject_sketches gs) = (n, sks)" by force
  from sum_estimates_ok [OF group_size_okD(5) [OF assms] s] show ?thesis
    using assms s by (simp add: total_rejected_def group_size_ok_def)
qed

lemma estimator_ok_group_size:
  assumes "estimator_ok p e" and "group_size_ok gs" and "gs_bucket_sizes gs = gs_bucket_sizes (es_group_size e)"
  shows "estimator_ok p (e\<lparr>es_group_size := gs\<rparr>)"
proof -
  have "own_index (e\<lparr>es_group_size := gs\<rparr>) = own_index e" by (simp add: own_index_def fun_eq_iff)
  moreover have "bucket_ok eb gs = bucket_ok eb (es_group_size e)" for eb
    using assms(3) by (simp add: bucket_ok_def)
  ultimately show ?thesis using assms unfolding estimator_ok_def by simp
qed

text \<open>One step of an estimator's shown list: nothing but the reject sketches of the group limit is touched.\<close>

lemma to_snapshot_ok:
  assumes "estimator_ok p e" and "es_values_ok e"
  shows "\<exists>e1 ss. to_snapshot fl record_cb e [] = Inr (e1, ss, None) \<and> (\<forall>s \<in> set ss. shown_ok e s)
    \<and> (\<exists>gs. e1 = e\<lparr>es_group_size := gs\<rparr> \<and> gs_limit gs = gs_limit (es_group_size e) \<and> gs_size gs = gs_size (es_group_size e))
    \<and> estimator_ok p e1
    \<and> (es_group_by e = [] \<longrightarrow> (\<forall>s \<in> set ss. 0 \<in> map_keys (sn_sketches s)))
    \<and> (\<forall>s \<in> set ss. snapshot_ok p s \<or> \<not> map_ok (sn_labels s))"
proof (cases "es_group_by e = []")
  case True
  obtain sk where sk: "to_snapshot fl record_cb e [] =
      Inr (e, [snapshot_base e (hd (es_buckets e))\<lparr>sn_sketches := [(0, \<lparr>ss_values = [], ss_sketch = sk\<rparr>)]\<rparr>], None)"
    "sketch_ok p sk" using to_snapshot_global [OF assms(1) True, of fl] by blast
  have "e = e\<lparr>es_group_size := es_group_size e\<rparr>" by simp
  then show ?thesis using sk assms(1) True
    by (intro exI [of _ e] exI conjI)
      (auto simp: shown_ok_def values_ok_def snapshot_base_def new_snapshot_def snapshot_ok_def sketches_ok_def map_ok_def)
next
  case False
  note ok = estimator_okD [OF assms(1)]
  define base where "base = snapshot_base e (hd (es_buckets e))
      \<lparr>sn_group_limit := gs_limit (es_group_size e), sn_group_by := es_group_by e\<rparr>"
  have b: "sn_group_by base = es_group_by e" "sn_labels base = eb_labels (hd (es_buckets e))" "sn_sketches base = []"
    "sn_interval base = eb_interval (hd (es_buckets e))" "sn_calculate_churn base = eb_calculate_churn (hd (es_buckets e))"
    "sn_id base = es_id e"
    by (simp_all add: base_def snapshot_base_def new_snapshot_def)
  let ?e1 = "e\<lparr>es_group_size := snd (total_rejected fl (es_group_size e))\<rparr>"
  obtain ms f where ms: "to_snapshot fl record_cb e [] = Inr (?e1, map (\<lambda>m. base\<lparr>sn_sketches := m\<rparr>) ms
       @ [base\<lparr>sn_group_reject_size := f\<rparr>], None)"
    "distinct (concat (map (map fst) ms))"
    "\<forall>m \<in> set ms. m \<noteq> [] \<and> length m \<le> batch_size \<and> shows_groups p (es_group_hits e) m"
    using to_snapshot_groups [OF assms(1) False, of fl, folded base_def] by blast
  let ?ss = "map (\<lambda>m. base\<lparr>sn_sketches := m\<rparr>) ms @ [base\<lparr>sn_group_reject_size := f\<rparr>]"
  have "\<forall>s \<in> set ?ss. shown_ok e s"
  proof -
    obtain eb0 ebs where ebs: "es_buckets e = eb0 # ebs" using ok(1) by (cases "es_buckets e") auto
    have gb: "eb_group_by eb0 = es_group_by e" using assms(2) ebs by (simp add: es_values_ok_def)
    have base: "base = snapshot_base e eb0\<lparr>sn_group_limit := gs_limit (es_group_size e), sn_group_by := eb_group_by eb0\<rparr>"
      unfolding base_def ebs list.sel gb ..
    obtain avg pool st1 where a: "avg_bucket_size (es_group_size e) = Inr avg"
      "new_sketches_pool (eb_precision eb0) (min (int batch_size) avg) = Inr pool"
      "bucket_loop record_cb base (es_buckets e) pool [] = Inr (st1, None)"
      using ms(1) False ebs unfolding base
      by (auto simp: to_snapshot_def Let_def split: sum.splits option.splits)
    obtain n gs where n: "total_rejected fl (es_group_size e) = (n, gs)" by force
    have "st1 @ [base\<lparr>sn_group_reject_size := sint n\<rparr>] = ?ss"
      using ms(1) False ebs a n by (simp add: to_snapshot_def Let_def record_cb_apply flip: base)
    then have run: "bucket_loop record_cb base (es_buckets e) pool [] = Inr (map (\<lambda>m. base\<lparr>sn_sketches := m\<rparr>) ms, None)"
      using a(3) by simp
    have v: "\<forall>eb \<in> set (es_buckets e). bucket_values_ok eb \<and> length (eb_group_by eb) = length (es_group_by e)"
      using assms(2) by (simp add: es_values_ok_def)
    have P: "snapshot_values_len (length (es_group_by e)) m \<Longrightarrow> shown_ok e (base\<lparr>sn_sketches := m\<rparr>)" for m
      using b by (simp add: shown_ok_def values_ok_def snapshot_values_len_def)
    have "shown_ok e (base\<lparr>sn_group_reject_size := f\<rparr>)" using b by (simp add: shown_ok_def values_ok_def)
    moreover have "\<forall>x \<in> set (map (\<lambda>m. base\<lparr>sn_sketches := m\<rparr>) ms). shown_ok e x"
      using bucket_loop_shown [OF run v, of "shown_ok e"] P by simp
    ultimately show ?thesis by simp
  qed
  moreover have "snapshot_ok p s \<or> \<not> map_ok (sn_labels s)" if "s \<in> set ?ss" for s
  proof -
    have "sketches_ok p m" if m: "m \<in> set ms" for m
    proof -
      have sh: "shows_groups p (es_group_hits e) m" using m ms(3) by blast
      have di: "distinct (map fst m)" using m ms(2) by (auto simp: distinct_concat_iff)
      show ?thesis using sh di unfolding sketches_ok_def map_ok_def shows_groups_def by fastforce
    qed
    moreover have "sketches_ok p []" by (simp add: sketches_ok_def)
    ultimately show ?thesis using that b(3) by (auto simp: snapshot_ok_def)
  qed
  moreover note tr = total_rejected_ok [OF ok(3), of fl]
  moreover have "estimator_ok p ?e1" using tr by (intro estimator_ok_group_size [OF assms(1)]) auto
  ultimately show ?thesis using ms(1) False
    by (intro exI [of _ ?e1] exI [of _ ?ss]) blast
qed

subsection \<open>Scrapes\<close>

lemma fresh_values_ok:
  assumes "new_estimator cpus parse re cfg = Inr e"
  shows "es_values_ok e \<and> (\<forall>eb \<in> set (es_buckets e). eb_labels eb = ec_labels cfg
      \<and> eb_interval eb = ec_interval (apply_defaults cpus cfg)) \<and> es_group_by e = ec_group_by cfg"
proof -
  let ?c = "apply_defaults cpus cfg"
  obtain kw where nb: "new_buckets ?c kw = Inr (es_buckets e)" and gb: "es_group_by e = ec_group_by ?c"
    using assms by (auto simp: new_estimator_def Let_def split: sum.splits option.splits if_splits)
  have "\<forall>eb \<in> set ebs. bucket_values_ok eb \<and> eb_group_by eb = ec_group_by ?c \<and> eb_labels eb = ec_labels ?c \<and> eb_interval eb = ec_interval ?c"
    if "fold_err (\<lambda>ebs i. map_sum id (\<lambda>eb. ebs @ [eb]) (bucket_of_config ?c kw i)) [] xs = Inr ebs" for xs ebs
    using that
  proof (rule fold_err_inv [where P = "\<lambda>ebs. \<forall>eb \<in> set ebs. bucket_values_ok eb \<and> eb_group_by eb = ec_group_by ?c \<and> eb_labels eb = ec_labels ?c \<and> eb_interval eb = ec_interval ?c"])
    fix ebs i ebs1
    assume i: "map_sum id (\<lambda>eb. ebs @ [eb]) (bucket_of_config ?c kw i) = Inr ebs1"
      and ebs: "\<forall>eb \<in> set ebs. bucket_values_ok eb \<and> eb_group_by eb = ec_group_by ?c \<and> eb_labels eb = ec_labels ?c \<and> eb_interval eb = ec_interval ?c"
    then obtain eb where eb: "bucket_of_config ?c kw i = Inr eb" "ebs1 = ebs @ [eb]"
      by (cases "bucket_of_config ?c kw i") auto
    have "bucket_values_ok eb \<and> eb_group_by eb = ec_group_by ?c \<and> eb_labels eb = ec_labels ?c \<and> eb_interval eb = ec_interval ?c"
      using eb(1) by (auto simp: bucket_of_config_def new_bucket_def bucket_values_ok_def Let_def
          split: option.splits sum.splits if_splits)
    then show "\<forall>eb \<in> set ebs1. bucket_values_ok eb \<and> eb_group_by eb = ec_group_by ?c \<and> eb_labels eb = ec_labels ?c \<and> eb_interval eb = ec_interval ?c" using ebs eb(2) by simp
  qed simp
  then show ?thesis using nb gb by (auto simp: new_buckets_def es_values_ok_def apply_defaults_simps)
qed

lemma total_size_ok:
  assumes "group_size_ok gs"
  shows "group_size_ok (snd (total_size fl gs)) \<and> gs_bucket_sizes (snd (total_size fl gs)) = gs_bucket_sizes gs
    \<and> gs_limit (snd (total_size fl gs)) = gs_limit gs \<and> gs_size (snd (total_size fl gs)) = gs_size gs"
  using total_rejected_ok [OF assms, of fl] assms by (auto simp: total_size_def split: prod.splits)

text \<open>Names that can be written raw.\<close>

definition es_names_ok :: "estimator \<Rightarrow> bool" where
  "es_names_ok e \<longleftrightarrow> (\<forall>eb \<in> set (es_buckets e). \<forall>k \<in> map_keys (eb_labels eb). CHR 0x0A \<notin> set k)
     \<and> (\<forall>k \<in> set (es_group_by e). CHR 0x0A \<notin> set k)"

lemma es_write_metrics_ok:
  assumes "estimator_ok p e" and "es_values_ok e" and "es_names_ok e"
  shows "\<exists>e' lines. es_write_metrics ip fl flag collect e w = Inr (e', w @ lines) \<and> (\<forall>l \<in> set lines. one_line l)
    \<and> estimator_ok p e' \<and> es_buckets e' = es_buckets e \<and> es_shell e' = es_shell e
    \<and> gs_size (es_group_size e') = gs_size (es_group_size e)"
proof -
  obtain e1 ss gs where t: "to_snapshot fl record_cb e [] = Inr (e1, ss, None)" "\<forall>s \<in> set ss. shown_ok e s"
    "e1 = e\<lparr>es_group_size := gs\<rparr>" "gs_limit gs = gs_limit (es_group_size e)" "gs_size gs = gs_size (es_group_size e)"
    "estimator_ok p e1" "es_group_by e = [] \<longrightarrow> (\<forall>s \<in> set ss. 0 \<in> map_keys (sn_sketches s))"
    using to_snapshot_ok [OF assms(1,2), of fl] by blast
  obtain eb0 ebs where ebs: "es_buckets e = eb0 # ebs" using estimator_okD(1) [OF assms(1)] by (cases "es_buckets e") auto
  let ?I = "\<lambda>st :: string list \<times> u64. \<exists>lines. fst st = w @ lines \<and> (\<forall>l \<in> set lines. one_line l)"
  have "\<exists>st'. estimates_cb ip fl flag collect s st = Inr (st', None) \<and> ?I st'" if s: "s \<in> set ss" and i: "?I st" for s st
  proof -
    have "names_ok s" "values_ok s" using t(2) s assms(3) ebs by (auto simp: shown_ok_def names_ok_def es_names_ok_def)
    moreover have "sn_group_by s = [] \<longrightarrow> 0 \<in> map_keys (sn_sketches s)" using t(2,7) s by (auto simp: shown_ok_def)
    ultimately obtain lines d where "write_cardinality_estimates ip fl flag collect s (fst st) = Inr (fst st @ lines, d, None)"
      "\<forall>l \<in> set lines. one_line l" using estimates_lines [of s ip fl flag "fst st"] by blast
    moreover obtain l0 where "fst st = w @ l0" "\<forall>l \<in> set l0. one_line l" using i by blast
    ultimately show ?thesis by (auto simp: estimates_cb_def intro!: exI [of _ "l0 @ lines"])
  qed
  then have "\<forall>s \<in> set ss. \<forall>st. ?I st \<longrightarrow> (\<exists>st'. estimates_cb ip fl flag collect s st = Inr (st', None) \<and> ?I st')" by blast
  moreover have "?I (w, 0)" by simp
  ultimately obtain st1 where st1: "run_cb (estimates_cb ip fl flag collect) ss (w, 0) = Inr (st1, None)" "?I st1"
    using run_cb_pure [of ss ?I "estimates_cb ip fl flag collect" "(w, 0)"] by blast
  then obtain w1 d where w1: "st1 = (w @ w1, d)" "\<forall>l \<in> set w1. one_line l" by (cases st1) auto
  have ts: "to_snapshot fl (estimates_cb ip fl flag collect) e (w, 0) = Inr (e1, (w @ w1, d), None)"
    using to_snapshot_run_cb [OF t(1), of "estimates_cb ip fl flag collect" "(w, 0)"] st1(1) w1(1) by simp
  show ?thesis
  proof (cases "es_group_by e = []")
    case True
    then show ?thesis using ts t w1 by (intro exI [of _ e1] exI [of _ w1]) (simp add: es_write_metrics_def es_shell_def)
  next
    case False
    define s where "s = new_snapshot\<lparr>sn_group_by := eb_group_by eb0, sn_interval := eb_interval eb0,
        sn_filter := eb_filter eb0, sn_labels := eb_labels eb0, sn_group_limit := gs_limit gs,
        sn_min_cardinality := es_min_cardinality e\<rparr>"
    have gb: "eb_group_by eb0 = es_group_by e" using assms(2) ebs by (simp add: es_values_ok_def)
    then have n: "names_ok s" using assms(3) ebs by (simp add: names_ok_def es_names_ok_def s_def)
    define w2 where "w2 = (if d > 0 then w1 @ [dropped_line ip s d] else w1)"
    have w2: "\<forall>l \<in> set w2. one_line l" using w1(2) dropped_line_one_line by (auto simp: w2_def)
    have dropped: "(if d > 0 then map_sum id fst (write_dropped_metric ip collect s d (w @ w1)) else Inr (w @ w1)) = Inr (w @ w2)"
      using False gb by (simp add: write_dropped_metric_def w2_def collect_def s_def)
    obtain sz gs2 where sz: "total_size fl gs = (sz, gs2)" by force
    obtain w3 where w3: "fst (write_group_size_and_limit ip collect s sz (w @ w2)) = (w @ w2) @ w3" "\<forall>l \<in> set w3. one_line l"
      using size_and_limit_lines [OF n] by blast
    have gs: "group_size_ok gs" using estimator_okD(3) [OF t(6)] t(3) by simp
    from total_size_ok [OF this, of fl] sz
    have gs2: "group_size_ok gs2" "gs_bucket_sizes gs2 = gs_bucket_sizes gs" "gs_limit gs2 = gs_limit gs" "gs_size gs2 = gs_size gs" by auto
    have "estimator_ok p (e1\<lparr>es_group_size := gs2\<rparr>)"
      using gs2(1,2) t(3) by (intro estimator_ok_group_size [OF t(6)]) simp_all
    moreover have "es_write_metrics ip fl flag collect e w = Inr (e1\<lparr>es_group_size := gs2\<rparr>, (w @ w2) @ w3)"
      using ts False t(3) ebs dropped sz w3(1)
      by (simp add: es_write_metrics_def Let_def s_def [symmetric])
    ultimately show ?thesis using w2 w3(2) gs2 t(3,4,5)
      by (intro exI [of _ "e1\<lparr>es_group_size := gs2\<rparr>"] exI [of _ "w2 @ w3"]) (auto simp: es_shell_def)
  qed
qed

subsection \<open>Runs\<close>

text \<open>
  The steps of an estimator together with the index of the bucket that rotates next: a request, a rotation
  tick, a reset, a scrape and a snapshot request.  The operations take the bucket locks one after the
  other; a step is one whole operation.
\<close>

inductive es_step ::
  "(string \<Rightarrow> u64) \<Rightarrow> hll_float \<Rightarrow> estimator \<times> nat \<Rightarrow> estimator \<times> nat \<Rightarrow> bool"
  for sum64 :: "string \<Rightarrow> u64" and fl :: hll_float where
  request: "start_ok start tss \<Longrightarrow> insert_many sum64 start e tss = Inr e' \<Longrightarrow> es_step sum64 fl (e, i) (e', i)"
| tick: "rotate_tick (e, i) = Inr (e', i') \<Longrightarrow> es_step sum64 fl (e, i) (e', i')"
| reset: "es_reset e = Inr e' \<Longrightarrow> es_step sum64 fl (e, i) (e', i)"
| scrape: "es_write_metrics ip fl flag collect e w = Inr (e', w') \<Longrightarrow> es_step sum64 fl (e, i) (e', i)"
| snap: "to_snapshot fl record_cb e [] = Inr (e', ss, None) \<Longrightarrow> es_step sum64 fl (e, i) (e', i)"

inductive_cases es_stepE: "es_step sum64 fl (e, i) (e', i')"

definition es_inv :: "nat \<Rightarrow> estimator \<Rightarrow> estimator \<times> nat \<Rightarrow> bool" where
  "es_inv p e0 st \<longleftrightarrow> (case st of (e, i) \<Rightarrow>
     estimator_ok p e \<and> es_values_ok e \<and> es_shell e = es_shell e0 \<and> es_frame e = es_frame e0 \<and> i < length (es_buckets e))"

lemma es_frame_labels: "es_frame e' = es_frame e \<Longrightarrow> map eb_labels (es_buckets e') = map eb_labels (es_buckets e)"
proof -
  assume f: "es_frame e' = es_frame e"
  have l: "length (es_buckets e') = length (es_buckets e)"
    using arg_cong [OF f, of length] by (simp add: es_frame_def)
  show ?thesis
  proof (rule nth_equalityI)
    fix i assume i: "i < length (map eb_labels (es_buckets e'))"
    have "es_frame e' ! i = es_frame e ! i" using f by simp
    then have "eb_shell (es_buckets e' ! i) = eb_shell (es_buckets e ! i)" using i l by (simp add: es_frame_def)
    then show "map eb_labels (es_buckets e') ! i = map eb_labels (es_buckets e) ! i" using i l by (simp add: eb_shell_def)
  qed (simp add: l)
qed

lemma es_names_frame:
  assumes "es_frame e = es_frame e0" and "es_group_by e = es_group_by e0" and "es_names_ok e0"
  shows "es_names_ok e"
proof -
  have "set (map eb_labels (es_buckets e)) = set (map eb_labels (es_buckets e0))"
    by (rule arg_cong [OF es_frame_labels [OF assms(1)]])
  then have "eb_labels ` set (es_buckets e) = eb_labels ` set (es_buckets e0)" by simp
  then have "\<exists>eb0 \<in> set (es_buckets e0). eb_labels eb = eb_labels eb0" if "eb \<in> set (es_buckets e)" for eb
    using that by (metis imageE image_eqI)
  then show ?thesis using assms(2,3) unfolding es_names_ok_def by metis
qed

lemma es_reset_ok:
  assumes "estimator_ok p e" and "es_reset e = Inr e'"
  shows "estimator_ok p e' \<and> es_shell e' = es_shell e"
proof (cases "es_group_by e \<noteq> [] \<or> (\<forall>eb \<in> set (es_buckets e). eb_prev_sketch eb \<noteq> None)")
  case True
  from estimator_reset_ok [OF assms(1) True] assms(2) show ?thesis by auto
next
  case False
  then obtain i where i: "i < length (es_buckets e)" "eb_prev_sketch (es_buckets e ! i) = None" and gb: "es_group_by e = []"
    by (auto simp: in_set_conv_nth)
  have nil: "fold_err (\<lambda>e bi. with_bucket e bi eb_reset) e1 js \<noteq> Inr e'"
    if "i \<in> set js" "distinct js" "i < length (es_buckets e1)" "es_buckets e1 ! i = es_buckets e ! i" for js e1
    using that
  proof (induction js arbitrary: e1)
    case (Cons j js)
    show ?case
    proof (cases "j = i")
      case True
      then show ?thesis using Cons.prems i(2) estimator_ok_bucket(3) [OF assms(1) i(1)] gb
        by (simp add: with_bucket_def eb_reset_def)
    next
      case False
      then show ?thesis using Cons
        by (auto simp: with_bucket_def split: sum.splits)
    qed
  qed simp
  from nil [of "[0..<length (es_buckets e)]" e] i(1) assms(2) show ?thesis by (simp add: es_reset_def)
qed

lemma es_reset_values:
  "es_reset e = Inr e' \<Longrightarrow> es_values_ok e \<Longrightarrow> es_values_ok e' \<and> es_group_by e' = es_group_by e \<and> es_frame e' = es_frame e"
  unfolding es_reset_def
proof (erule fold_err_inv [where P = "\<lambda>e1. es_values_ok e1 \<and> es_group_by e1 = es_group_by e \<and> es_frame e1 = es_frame e"])
  fix s i s1
  assume w: "with_bucket s i eb_reset = Inr s1" and s: "es_values_ok s \<and> es_group_by s = es_group_by e \<and> es_frame s = es_frame e"
  have "es_values_ok s1 \<and> es_group_by s1 = es_group_by s \<and> es_frame s1 = es_frame s"
    by (rule with_bucket_values [OF w s [THEN conjunct1]]) (use eb_reset_values in blast)
  then show "es_values_ok s1 \<and> es_group_by s1 = es_group_by e \<and> es_frame s1 = es_frame e" using s by simp
qed simp

lemma rotate_tick_ok:
  assumes "estimator_ok p e" and "i < length (es_buckets e)" and "es_values_ok e"
  shows "\<exists>e' i'. rotate_tick (e, i) = Inr (e', i') \<and> estimator_ok p e' \<and> es_shell e' = es_shell e
    \<and> es_values_ok e' \<and> es_frame e' = es_frame e \<and> i' < length (es_buckets e')"
proof -
  note bk = estimator_ok_bucket [OF assms(1,2)]
  obtain eb' gs' where r: "eb_rotate (es_buckets e ! i) (es_group_size e) = Inr (eb', gs')"
    "bucket_step_ok (es_buckets e ! i) (es_group_size e) eb' gs'" "tracked eb' \<subseteq> tracked (es_buckets e ! i)"
    using eb_rotate_any [OF bk(1) estimator_okD(3) [OF assms(1)]] by blast
  have "\<forall>k \<in> tracked eb'. own_index e k = i" using r(3) bk(5) by blast
  from with_bucket_ok [where f = eb_rotate, OF assms(1,2) r(1,2) this] obtain e' where e': "with_bucket e i eb_rotate = Inr e'"
    "estimator_ok p e'" "es_shell e' = es_shell e" by blast
  have "es_values_ok e' \<and> es_group_by e' = es_group_by e \<and> es_frame e' = es_frame e"
    by (rule with_bucket_values [OF e'(1) assms(3)]) (use eb_rotate_values in blast)
  moreover have "(i + 1) mod length (es_buckets e') < length (es_buckets e')"
    using estimator_okD(1) [OF e'(2)] by simp
  ultimately show ?thesis using e' by (simp add: rotate_tick_def)
qed

lemma insert_many_ok:
  assumes "estimator_ok p e" and "start_ok start tss"
  shows "\<exists>e'. insert_many sum64 start e tss = Inr e' \<and> estimator_ok p e' \<and> es_shell e' = es_shell e"
proof -
  have "\<exists>e'. fold_err count_insert e inss = Inr e' \<and> estimator_ok p e' \<and> es_shell e' = es_shell e"
    if "es_group_by e \<noteq> [] \<longrightarrow> (\<forall>ins \<in> set inss. in_bucket_key ins = in_key ins)" for inss
    using assms(1) that
  proof (induction inss arbitrary: e)
    case (Cons ins inss)
    obtain e1 where e1: "count_insert e ins = Inr e1" "estimator_ok p e1" "es_shell e1 = es_shell e"
      using count_insert_ok [OF Cons.prems(1), of ins] Cons.prems(2) by (auto simp: insertion_for_def)
    have "es_group_by e1 = es_group_by e" using es_shell_group_by [OF e1(3)] .
    then obtain e' where "fold_err count_insert e1 inss = Inr e'" "estimator_ok p e'" "es_shell e' = es_shell e1"
      using Cons.IH [OF e1(2)] Cons.prems(2) by auto
    then show ?case using e1 by simp
  qed simp
  moreover have "es_group_by e \<noteq> [] \<longrightarrow> (\<forall>ins \<in> set (request_insertions sum64 e (visit_order start tss)). in_bucket_key ins = in_key ins)"
    using serie_insertions_keys by (auto simp: request_insertions_def)
  ultimately show ?thesis unfolding insert_many_flat [OF assms(1)] by blast
qed

lemma map_sum_Inr: "map_sum f g x = Inr y \<longleftrightarrow> (\<exists>z. x = Inr z \<and> y = g z)"
  by (cases x) auto

text \<open>Neither a snapshot run nor a scrape touches anything but the reject sketches, whatever the callback or writer does.\<close>

lemma to_snapshot_frame:
  assumes "to_snapshot fl cb e st = Inr (e1, st1, err)" and "estimator_ok p e"
  shows "\<exists>gs. e1 = e\<lparr>es_group_size := gs\<rparr> \<and> gs_limit gs = gs_limit (es_group_size e) \<and> gs_size gs = gs_size (es_group_size e)
    \<and> estimator_ok p e1"
proof -
  note tr = total_rejected_ok [OF estimator_okD(3) [OF assms(2)], of fl]
  consider "e1 = e" | "e1 = e\<lparr>es_group_size := snd (total_rejected fl (es_group_size e))\<rparr>"
    using assms(1) unfolding to_snapshot_def Let_def
    by (auto simp: map_sum_Inr split: list.splits if_splits sum.splits option.splits prod.splits)
  then show ?thesis
  proof cases
    case 1
    then show ?thesis using assms(2) by (intro exI [of _ "es_group_size e"]) simp
  next
    case 2
    then show ?thesis using tr estimator_ok_group_size [OF assms(2)]
      by (intro exI [of _ "snd (total_rejected fl (es_group_size e))"]) simp
  qed
qed

lemma es_write_metrics_frame:
  assumes "es_write_metrics ip fl flag wr e w = Inr (e', w')" and "estimator_ok p e"
  shows "\<exists>gs. e' = e\<lparr>es_group_size := gs\<rparr> \<and> gs_limit gs = gs_limit (es_group_size e) \<and> gs_size gs = gs_size (es_group_size e)
    \<and> estimator_ok p e'"
proof -
  obtain e1 st1 err where t: "to_snapshot fl (estimates_cb ip fl flag wr) e (w, 0) = Inr (e1, st1, err)"
    using assms(1) by (auto simp: es_write_metrics_def split: sum.splits)
  obtain gs where gs: "e1 = e\<lparr>es_group_size := gs\<rparr>" "gs_limit gs = gs_limit (es_group_size e)"
    "gs_size gs = gs_size (es_group_size e)" "estimator_ok p e1" using to_snapshot_frame [OF t assms(2)] by blast
  have gok: "group_size_ok gs" using estimator_okD(3) [OF gs(4)] gs(1) by simp
  note ts = total_size_ok [OF gok, of fl]
  consider "e' = e1" | "e' = e1\<lparr>es_group_size := snd (total_size fl (es_group_size e1))\<rparr>"
    using assms(1) t unfolding es_write_metrics_def Let_def
    by (auto simp: map_sum_Inr split: list.splits if_splits sum.splits option.splits prod.splits)
  then show ?thesis
  proof cases
    case 1
    then show ?thesis using gs by blast
  next
    case 2
    have "estimator_ok p e'" unfolding 2 using ts gs(1) by (intro estimator_ok_group_size [OF gs(4)]) simp_all
    then show ?thesis using 2 gs ts by (intro exI [of _ "snd (total_size fl gs)"]) simp
  qed
qed

lemma es_inv_group_size:
  assumes "e' = e\<lparr>es_group_size := gs\<rparr>" and "gs_limit gs = gs_limit (es_group_size e)" and "estimator_ok p e'"
    and "es_inv p e0 (e, i)"
  shows "es_inv p e0 (e', i)"
  using assms(2-4) unfolding assms(1) es_inv_def by (simp add: es_shell_def es_values_ok_def es_frame_def)

lemma es_step_inv:
  assumes "es_step sum64 fl st st'" and "es_inv p e0 st"
  shows "es_inv p e0 st'"
  using assms(1)
proof cases
  case (request start tss e e' i)
  have e: "estimator_ok p e" "es_values_ok e" "es_shell e = es_shell e0" "es_frame e = es_frame e0" "i < length (es_buckets e)"
    using assms(2) by (simp_all add: es_inv_def request(1))
  have "estimator_ok p e' \<and> es_shell e' = es_shell e"
    using insert_many_ok [OF e(1) request(3), of sum64] request(4) by auto
  then show ?thesis
    using insert_many_values [OF request(4) e(2)] e es_shell_length [of e' e] by (simp add: es_inv_def request(2))
next
  case (tick e i e' i')
  have e: "estimator_ok p e" "es_values_ok e" "es_shell e = es_shell e0" "es_frame e = es_frame e0" "i < length (es_buckets e)"
    using assms(2) by (simp_all add: es_inv_def tick(1))
  show ?thesis using rotate_tick_ok [OF e(1,5,2)] tick(3) e by (auto simp: es_inv_def tick(2))
next
  case (reset e e' i)
  have e: "estimator_ok p e" "es_values_ok e" "es_shell e = es_shell e0" "es_frame e = es_frame e0" "i < length (es_buckets e)"
    using assms(2) by (simp_all add: es_inv_def reset(1))
  have ok: "estimator_ok p e' \<and> es_shell e' = es_shell e" by (rule es_reset_ok [OF e(1) reset(3)])
  then show ?thesis using es_reset_values [OF reset(3) e(2)] e es_shell_length [of e' e] by (simp add: es_inv_def reset(2))
next
  case (scrape ip flag e w e' w' i)
  have e: "estimator_ok p e" using assms(2) by (simp add: es_inv_def scrape(1))
  from es_write_metrics_frame [OF scrape(3) e] obtain gs
    where "e' = e\<lparr>es_group_size := gs\<rparr>" "gs_limit gs = gs_limit (es_group_size e)" "estimator_ok p e'" by blast
  then show ?thesis using assms(2) unfolding scrape(1,2) by (rule es_inv_group_size)
next
  case (snap e e' ss i)
  have e: "estimator_ok p e" using assms(2) by (simp add: es_inv_def snap(1))
  from to_snapshot_frame [OF snap(3) e] obtain gs
    where "e' = e\<lparr>es_group_size := gs\<rparr>" "gs_limit gs = gs_limit (es_group_size e)" "estimator_ok p e'" by blast
  then show ?thesis using assms(2) unfolding snap(1,2) by (rule es_inv_group_size)
qed

lemma es_run_inv: "(es_step sum64 fl)\<^sup>*\<^sup>* st st' \<Longrightarrow> es_inv p e0 st \<Longrightarrow> es_inv p e0 st'"
  by (induction rule: rtranclp_induct) (use es_step_inv in blast)+

text \<open>The counter of the group limit counts the tracked groups of all buckets.\<close>

lemma tracked_count:
  assumes "estimator_ok p e"
  shows "gs_size (es_group_size e) = int (card (\<Union>eb \<in> set (es_buckets e). tracked eb))"
proof -
  let ?n = "length (es_buckets e)"
  have fin: "finite (tracked eb)" for eb by (simp add: tracked_def)
  have disj: "tracked (es_buckets e ! i) \<inter> tracked (es_buckets e ! j) = {}" if "i < ?n" "j < ?n" "i \<noteq> j" for i j
    using estimator_ok_bucket(5) [OF assms that(1)] estimator_ok_bucket(5) [OF assms that(2)] that(3) by auto
  have "(\<Union>eb \<in> set (es_buckets e). tracked eb) = (\<Union>i \<in> {..<?n}. tracked (es_buckets e ! i))"
    by (auto simp: Union_buckets)
  moreover have "card (\<Union>i \<in> {..<?n}. tracked (es_buckets e ! i)) = (\<Sum>i \<in> {..<?n}. card (tracked (es_buckets e ! i)))"
    using fin disj by (intro card_UN_disjoint) auto
  moreover have "gs_bucket_sizes (es_group_size e) = map (\<lambda>i. int (card (tracked (es_buckets e ! i)))) [0..<?n]"
    using estimator_okD(4) [OF assms] estimator_ok_bucket(2) [OF assms] bucket_okD(6) [OF estimator_ok_bucket(1) [OF assms]]
    by (intro nth_equalityI) auto
  then have "gs_size (es_group_size e) = (\<Sum>i \<in> {..<?n}. int (card (tracked (es_buckets e ! i))))"
    using group_size_okD(1) [OF estimator_okD(3) [OF assms]]
    by (simp add: interv_sum_list_conv_sum_set_nat lessThan_atLeast0)
  ultimately show ?thesis by simp
qed

lemma fresh_inv:
  assumes "config_ok cfg" and "new_estimator cpus parse compile_re cfg = Inr e0" and "i < length (es_buckets e0)"
  shows "es_inv (effective_precision cfg) e0 (e0, i) \<and> fresh_estimator cfg e0"
proof -
  have "\<not> rejected_config parse compile_re cfg"
    using new_estimator_failed [OF assms(1), of parse compile_re cpus] assms(2) by auto
  then have f: "fresh_estimator cfg e0" using new_estimator_fresh [OF assms(1), of parse compile_re cpus] assms(2) by auto
  then show ?thesis using fresh_values_ok [OF assms(2)] assms(3) by (simp add: es_inv_def fresh_estimator_def)
qed

text \<open>In every state a configured estimator can reach by requests, rotation ticks, resets, scrapes and snapshot
  requests, the number of tracked groups equals the shared counter and never exceeds the group limit, and
  the settings are those it was made with.\<close>

theorem run_keeps_group_limit:
  assumes "config_ok cfg" and "new_estimator cpus parse compile_re cfg = Inr e0" and "i0 < length (es_buckets e0)"
    and "(es_step sum64 fl)\<^sup>*\<^sup>* (e0, i0) (e, i)"
  shows "gs_size (es_group_size e) = int (card (\<Union>eb \<in> set (es_buckets e). tracked eb))
    \<and> gs_size (es_group_size e) \<le> (if ec_group_limit cfg \<le> 0 then 10000 else ec_group_limit cfg)
    \<and> es_shell e = es_shell e0"
proof -
  have i: "es_inv (effective_precision cfg) e0 (e0, i0)" "fresh_estimator cfg e0"
    using fresh_inv [OF assms(1-3)] by blast+
  have e: "estimator_ok (effective_precision cfg) e" "es_shell e = es_shell e0"
    using es_run_inv [OF assms(4) i(1)] by (simp_all add: es_inv_def)
  have "gs_limit (es_group_size e) = gs_limit (es_group_size e0)" using e(2) by (simp add: es_shell_def)
  then show ?thesis using tracked_count [OF e(1)] e group_size_okD(3) [OF estimator_okD(3) [OF e(1)]] i(2)
    by (simp add: fresh_estimator_def)
qed

text \<open>In every reachable state the next request, the next rotation tick, the next snapshot request and the next scrape
  succeed: no index is out of range, no sketch is nil, no precision differs.  Every write of a scrape is
  exactly one text line when no configured name contains a newline, whatever the label values hold.\<close>

theorem run_never_panics:
  assumes "config_ok cfg" and "new_estimator cpus parse compile_re cfg = Inr e0" and "i0 < length (es_buckets e0)"
    and "\<forall>k \<in> map_keys (ec_labels cfg) \<union> set (ec_group_by cfg). CHR 0x0A \<notin> set k"
    and "(es_step sum64 fl)\<^sup>*\<^sup>* (e0, i0) (e, i)" and "start_ok start tss"
  shows "(\<exists>e'. insert_many sum64 start e tss = Inr e')
    \<and> (\<exists>e' i'. rotate_tick (e, i) = Inr (e', i'))
    \<and> (\<exists>e' ss. to_snapshot fl record_cb e [] = Inr (e', ss, None))
    \<and> (\<exists>e' lines. es_write_metrics ip fl flag collect e [] = Inr (e', lines) \<and> (\<forall>l \<in> set lines. one_line l))"
proof -
  note fv = fresh_values_ok [OF assms(2)]
  have e: "estimator_ok (effective_precision cfg) e" "es_values_ok e" "es_shell e = es_shell e0"
    "es_frame e = es_frame e0" "i < length (es_buckets e)"
    using es_run_inv [OF assms(5) conjunct1 [OF fresh_inv [OF assms(1-3)]]] by (simp_all add: es_inv_def)
  have "es_names_ok e0" using fv assms(4) by (simp add: es_names_ok_def)
  then have n: "es_names_ok e" by (rule es_names_frame [OF e(4) es_shell_group_by [OF e(3)]])
  show ?thesis
    using insert_many_ok [OF e(1) assms(6), of sum64] rotate_tick_ok [OF e(1,5,2)] to_snapshot_ok [OF e(1,2), of fl]
      es_write_metrics_ok [OF e(1,2) n, of ip fl flag "[]"] by auto
qed

definition zero_float :: hll_float where
  "zero_float = \<lparr>linear_count = (\<lambda>_. 0), beta_count = (\<lambda>_ _. 0)\<rparr>"

theorem run_keeps_group_limit_witness:
  "\<exists>e0 e. new_estimator 2 (\<lambda>_. Inl []) (\<lambda>_. Inl []) (plain_config [''job'']) = Inr e0
    \<and> es_step (\<lambda>_. 7) zero_float (e0, 0) (e, 1) \<and> gs_size (es_group_size e) \<le> 10000"
proof -
  obtain e0 where e0: "new_estimator 2 (\<lambda>_. Inl []) (\<lambda>_. Inl []) (plain_config [''job'']) = Inr e0"
    "estimator_ok 4 e0" "length (es_buckets e0) = 4" using plain_estimator [of "[''job'']"] by (auto simp: label_keyword_def)
  have ok: "config_ok (plain_config [''job''])" by (simp add: config_ok_def plain_config_def)
  have v: "es_values_ok e0" using fresh_values_ok [OF e0(1)] by simp
  obtain e i where t: "rotate_tick (e0, 0) = Inr (e, i)"
    using rotate_tick_ok [OF e0(2) _ v, of 0] e0(3) by auto
  have "i = 1" using t e0(3) with_bucket_length [of e0 0 eb_rotate] by (auto simp: rotate_tick_def map_sum_Inr)
  then have s: "es_step (\<lambda>_. 7) zero_float (e0, 0) (e, 1)" using es_step.tick [OF t] by simp
  have l: "0 < length (es_buckets e0)" using e0(3) by simp
  from run_keeps_group_limit [OF ok e0(1) l r_into_rtranclp [of "es_step (\<lambda>_. 7) zero_float", OF s]] have "gs_size (es_group_size e) \<le> 10000"
    by (simp add: plain_config_def)
  then show ?thesis using e0(1) s by blast
qed

theorem run_never_panics_witness:
  "\<exists>e0 e lines. new_estimator 2 (\<lambda>_. Inl []) (\<lambda>_. Inl []) (plain_config [''job'']) = Inr e0
    \<and> es_write_metrics (\<lambda>_. True) zero_float 0 collect e0 [] = Inr (e, lines) \<and> (\<forall>l \<in> set lines. one_line l)"
proof -
  obtain e0 where e0: "new_estimator 2 (\<lambda>_. Inl []) (\<lambda>_. Inl []) (plain_config [''job'']) = Inr e0"
    "length (es_buckets e0) = 4" using plain_estimator [of "[''job'']"] by (auto simp: label_keyword_def)
  have ok: "config_ok (plain_config [''job''])" by (simp add: config_ok_def plain_config_def)
  have l: "0 < length (es_buckets e0)" using e0(2) by simp
  have n: "\<forall>k \<in> map_keys (ec_labels (plain_config [''job''])) \<union> set (ec_group_by (plain_config [''job''])). CHR 0x0A \<notin> set k"
    by (simp add: plain_config_def)
  have st: "start_ok 0 ([] :: time_serie list)" by (simp add: start_ok_def)
  from run_never_panics [OF ok e0(1) l n rtranclp.rtrancl_refl [of "es_step (\<lambda>_. 7) zero_float"] st, of "\<lambda>_. True" 0] e0(1)
  show ?thesis by blast
qed

end
