(* ===== verification/Churn.thy ===== *)
theory Churn
  imports Metrics_Text
begin

section \<open>Churn (\<^verbatim>\<open>churn.go\<close>)\<close>

text \<open>
  For streams with \<^verbatim>\<open>calculate_churn\<close> the program keeps, per estimator id and group, the sketch seen last
  and a baseline from about one interval ago, and reports which share of the series is in only one of the
  two.  An instant counts nanoseconds; a cloned sketch is, as a value, the sketch.  The rate is computed in
  double precision (\<open>f64\<close>).  Estimating compacts the stored sketches, so \<open>churn_ratio\<close> returns the entry
  too.
\<close>

type_synonym churn_key = "string \<times> u64"

record churn_sketch =
  cs_added_at :: instant
  cs_sketch :: "sketch option"

record churn_entry =
  ce_interval :: duration
  ce_filter :: string
  ce_labels :: "(string, string) gomap"
  ce_group_by :: "string list"
  ce_values :: "string list"
  ce_prev :: "churn_sketch option"
  ce_curr :: "churn_sketch option"

type_synonym churn_snapshots = "(churn_key, churn_entry) gomap"

definition new_churn_snapshots :: churn_snapshots where
  "new_churn_snapshots = []"

subsection \<open>Operations\<close>

definition new_churn_entry :: "snapshot \<Rightarrow> snapshot_sketch \<Rightarrow> churn_entry" where
  "new_churn_entry s ssk =
     \<lparr>ce_interval = sn_interval s, ce_filter = sn_filter s, ce_labels = sn_labels s,
      ce_group_by = sn_group_by s, ce_values = ss_values ssk, ce_prev = None, ce_curr = None\<rparr>"

definition churn_advance :: "duration \<Rightarrow> instant \<Rightarrow> sketch \<Rightarrow> churn_entry \<Rightarrow> go_panic + churn_entry" where
  "churn_advance interval now sk e =
     (let new_sk = \<lparr>cs_added_at = now, cs_sketch = Some sk\<rparr>
      in case ce_curr e of
           None \<Rightarrow> Inr (e\<lparr>ce_prev := Some \<lparr>cs_added_at = now, cs_sketch = None\<rparr>, ce_curr := Some new_sk\<rparr>)
         | Some c \<Rightarrow>
             (case ce_prev e of
                None \<Rightarrow> Inl NilDeref
              | Some p \<Rightarrow>
                  if cs_added_at p < now - interval
                  then Inr (e\<lparr>ce_prev := Some \<lparr>cs_added_at = now, cs_sketch = cs_sketch c\<rparr>, ce_curr := Some new_sk\<rparr>)
                  else Inr (e\<lparr>ce_curr := Some new_sk\<rparr>)))"

definition churn_group ::
  "snapshot \<Rightarrow> instant \<Rightarrow> churn_snapshots \<Rightarrow> u64 \<times> snapshot_sketch \<Rightarrow> go_panic + churn_snapshots" where
  "churn_group s now cs kv =
     (let k = (sn_id s, fst kv);
          e = (case map_of cs k of Some e \<Rightarrow> e | None \<Rightarrow> new_churn_entry s (snd kv))
      in case churn_advance (sn_interval s) now (ss_sketch (snd kv)) e of
           Inl p \<Rightarrow> Inl p
         | Inr e' \<Rightarrow> Inr (AList.update k e' cs))"

definition churn_update :: "churn_snapshots \<Rightarrow> snapshot \<Rightarrow> instant \<Rightarrow> go_panic + churn_snapshots" where
  "churn_update cs s now =
     (if \<not> sn_calculate_churn s
      then Inl (BugPanic ''update called with snapshot with disabled CalculateChurn'')
      else if sn_interval s = 0 then Inl (BugPanic ''update called with snapshot with zero Interval'')
      else fold_err (churn_group s now) cs (sn_sketches s))"

definition churn_cleanup :: "churn_snapshots \<Rightarrow> instant \<Rightarrow> go_panic + churn_snapshots" where
  "churn_cleanup cs now =
     fold_err (\<lambda>cs (k, e). case ce_curr e of
                 None \<Rightarrow> Inl NilDeref
               | Some c \<Rightarrow> Inr (if cs_added_at c < now + wrap_i64 (wrap_i64 (- ce_interval e) * 2)
                                then AList.delete k cs else cs)) cs cs"

definition churn_rate_of :: "u64 \<Rightarrow> u64 \<Rightarrow> u64 \<Rightarrow> rat" where
  "churn_rate_of union_est prev_est curr_est =
     (let churn = f64 (f64 (f64 (of_nat (unat (2 * union_est))) - f64 (of_nat (unat prev_est)))
                       - f64 (of_nat (unat curr_est)));
          rate = f64 (churn / f64 (of_nat (unat union_est)))
      in if rate < 0 then 0 else if rate > 1 then 1 else rate)"

definition churn_ratio :: "hll_float \<Rightarrow> churn_entry \<Rightarrow> go_panic + rat \<times> churn_entry" where
  "churn_ratio fl e =
     (case ce_prev e of
        None \<Rightarrow> Inl NilDeref
      | Some p \<Rightarrow>
          (case cs_sketch p of
             None \<Rightarrow> Inr (0, e)
           | Some psk \<Rightarrow>
               (case Option.bind (ce_curr e) (\<lambda>c. map_option (Pair c) (cs_sketch c)) of
                  None \<Rightarrow> Inl NilDeref
                | Some (c, csk) \<Rightarrow>
                    (case sk_merge csk (Some psk) of
                       Inl _ \<Rightarrow> Inr (0, e)
                     | Inr un \<Rightarrow>
                         let union_est = fst (sk_estimate fl un)
                         in if union_est = 0 then Inr (0, e)
                            else let (pe, psk') = sk_estimate fl psk; (ce, csk') = sk_estimate fl csk
                                 in Inr (churn_rate_of union_est pe ce,
                                         e\<lparr>ce_prev := Some (p\<lparr>cs_sketch := Some psk'\<rparr>),
                                           ce_curr := Some (c\<lparr>cs_sketch := Some csk'\<rparr>)\<rparr>)))))"

definition append_churn_prefix ::
  "(nat \<Rightarrow> bool) \<Rightarrow> string \<Rightarrow> (string, string) gomap \<Rightarrow> duration \<Rightarrow> string \<Rightarrow> string" where
  "append_churn_prefix ip buf labels interval flt =
     buf @ ''cardinality_churn_ratio{interval='' @ quote ip (duration_string interval)
         @ '',filter='' @ quote ip flt @ static_labels ip labels"

definition churn_line :: "(nat \<Rightarrow> bool) \<Rightarrow> churn_entry \<Rightarrow> rat \<Rightarrow> go_panic + string" where
  "churn_line ip e rate =
     (let prefix = append_churn_prefix ip [] (ce_labels e) (ce_interval e) (ce_filter e)
      in map_sum id (\<lambda>b. b @ format_float4 rate @ nl)
           (if ce_group_by e = [] then Inr (append_global_metric [] prefix)
            else append_group_metrics ip [] prefix
                   (append_group_by_keys_label ip [] ''group_by_keys'' (ce_group_by e)) (ce_group_by e) (ce_values e)))"

text \<open>
  \<^verbatim>\<open>writeMetrics\<close> returns the entries with their compacted sketches, the writer's state and an error.
\<close>

fun churn_write ::
  "(nat \<Rightarrow> bool) \<Rightarrow> hll_float \<Rightarrow> 'w writer \<Rightarrow> churn_snapshots \<Rightarrow> 'w
   \<Rightarrow> go_panic + churn_snapshots \<times> 'w \<times> string option" where
  "churn_write ip fl wr [] w = Inr ([], w, None)"
| "churn_write ip fl wr ((k, e) # cs) w =
     (case churn_ratio fl e of
        Inl p \<Rightarrow> Inl p
      | Inr (rate, e') \<Rightarrow>
          (case churn_line ip e' rate of
             Inl p \<Rightarrow> Inl p
           | Inr line \<Rightarrow>
               (case wr w line of
                  (w', Some err) \<Rightarrow> Inr ((k, e') # cs, w', wrapped (Some err))
                | (w', None) \<Rightarrow>
                    (case churn_write ip fl wr cs w' of
                       Inl p \<Rightarrow> Inl p
                     | Inr (cs', r) \<Rightarrow> Inr ((k, e') # cs', r)))))"

subsection \<open>Entries\<close>

definition churn_entry_ok :: "nat \<Rightarrow> churn_entry \<Rightarrow> bool" where
  "churn_entry_ok p e \<longleftrightarrow>
     (\<exists>pv c sk. ce_prev e = Some pv \<and> ce_curr e = Some c \<and> cs_sketch c = Some sk \<and> sketch_ok p sk
        \<and> opt_ok p (cs_sketch pv))
     \<and> length (ce_values e) \<le> length (ce_group_by e)"

definition churn_ok :: "(string \<Rightarrow> nat) \<Rightarrow> churn_snapshots \<Rightarrow> bool" where
  "churn_ok P cs \<longleftrightarrow> map_ok cs \<and> (\<forall>(k, e) \<in> set cs. churn_entry_ok (P (fst k)) e)"

lemma churn_ok_lookup: "churn_ok P cs \<Longrightarrow> map_of cs k = Some e \<Longrightarrow> churn_entry_ok (P (fst k)) e"
  unfolding churn_ok_def using map_of_SomeD by fastforce

lemma churn_ok_update: "churn_ok P cs \<Longrightarrow> churn_entry_ok (P (fst k)) e \<Longrightarrow> churn_ok P (AList.update k e cs)"
proof -
  assume cs: "churn_ok P cs" and e: "churn_entry_ok (P (fst k)) e"
  have "set (AList.update k e cs) \<subseteq> insert (k, e) (set cs)" by (induction cs) auto
  then show ?thesis using cs e unfolding churn_ok_def by (auto simp: map_ok_update)
qed

lemma churn_ok_delete: "churn_ok P cs \<Longrightarrow> churn_ok P (AList.delete k cs)"
proof -
  assume cs: "churn_ok P cs"
  have "set (AList.delete k cs) \<subseteq> set cs" by (auto simp: AList.delete_eq)
  then show ?thesis using cs map_ok_delete [of cs k] unfolding churn_ok_def by blast
qed

subsection \<open>The rate\<close>

lemma churn_rate_unit: "0 \<le> churn_rate_of u p c \<and> churn_rate_of u p c \<le> 1"
  by (simp add: churn_rate_of_def Let_def)

lemma churn_ratio_ok:
  assumes "churn_entry_ok p e"
  shows "\<exists>rate e'. churn_ratio fl e = Inr (rate, e') \<and> 0 \<le> rate \<and> rate \<le> 1 \<and> churn_entry_ok p e'
    \<and> (cs_sketch (the (ce_prev e)) = None \<longrightarrow> rate = 0 \<and> e' = e)
    \<and> opt_hits (cs_sketch (the (ce_prev e'))) = opt_hits (cs_sketch (the (ce_prev e)))
    \<and> opt_hits (cs_sketch (the (ce_curr e'))) = opt_hits (cs_sketch (the (ce_curr e)))"
proof -
  obtain pv c csk where e: "ce_prev e = Some pv" "ce_curr e = Some c" "cs_sketch c = Some csk" "sketch_ok p csk"
    "opt_ok p (cs_sketch pv)" "length (ce_values e) \<le> length (ce_group_by e)"
    using assms unfolding churn_entry_ok_def by blast
  show ?thesis
  proof (cases "cs_sketch pv")
    case None
    then show ?thesis using e assms by (simp add: churn_ratio_def)
  next
    case (Some psk)
    then have psk: "sketch_ok p psk" using e(5) by simp
    obtain un where un: "sk_merge csk (Some psk) = Inr un"
      using hll.mrg_ok [OF e(4) psk] by blast
    let ?u = "fst (sk_estimate fl un)"
    show ?thesis
    proof (cases "?u = 0")
      case True
      then show ?thesis using e Some un assms by (simp add: churn_ratio_def Let_def)
    next
      case False
      obtain pe psk' ce csk' where est: "sk_estimate fl psk = (pe, psk')" "sk_estimate fl csk = (ce, csk')" by force
      have "sketch_ok p psk'" "sk_hits psk' = sk_hits psk" "sketch_ok p csk'" "sk_hits csk' = sk_hits csk"
        using sk_estimate_ok [OF psk, of fl] sk_estimate_ok [OF e(4), of fl] est by simp_all
      then show ?thesis using e Some un False est churn_rate_unit [of ?u pe ce]
        by (simp add: churn_ratio_def Let_def churn_entry_ok_def)
    qed
  qed
qed

lemma churn_ratio_frame:
  "churn_ratio fl e = Inr (rate, e') \<Longrightarrow> ce_labels e' = ce_labels e \<and> ce_group_by e' = ce_group_by e
    \<and> ce_interval e' = ce_interval e"
  by (auto simp: churn_ratio_def Let_def split: option.splits sum.splits prod.splits if_splits)

text \<open>The churn rate is always in the unit interval and computing it never panics: it is 0 as long as there is no
  baseline, and it leaves the entry's sketches with the same knowledge.\<close>

theorem churn_ratio_bounds:
  assumes "churn_entry_ok p e"
  shows "\<exists>rate e'. churn_ratio fl e = Inr (rate, e') \<and> 0 \<le> rate \<and> rate \<le> 1 \<and> churn_entry_ok p e'
    \<and> (cs_sketch (the (ce_prev e)) = None \<longrightarrow> rate = 0 \<and> e' = e)
    \<and> opt_hits (cs_sketch (the (ce_prev e'))) = opt_hits (cs_sketch (the (ce_prev e)))
    \<and> opt_hits (cs_sketch (the (ce_curr e'))) = opt_hits (cs_sketch (the (ce_curr e)))"
  using assms by (rule churn_ratio_ok)

text \<open>Below 2 to the power 51 the rate is the real number (2 u - p - c) / u, rounded once and clamped to the unit
  interval, for the estimates u of the union, p of the baseline and c of the current sketch: equal sets give
  0 and disjoint ones 1.\<close>

theorem churn_rate_formula:
  assumes "unat u < 2 ^ 51" and "unat p < 2 ^ 51" and "unat c < 2 ^ 51" and "u \<noteq> 0"
  shows "churn_rate_of u p c =
      max 0 (min 1 (f64 (of_int (2 * int (unat u) - int (unat p) - int (unat c)) / of_nat (unat u))))
    \<and> (p = u \<and> c = u \<longrightarrow> churn_rate_of u p c = 0)
    \<and> (unat p + unat c = unat u \<longrightarrow> churn_rate_of u p c = 1)"
proof -
  define U Q C where d: "U = unat u" "Q = unat p" "C = unat c"
  have lt: "U < 2 ^ 51" "Q < 2 ^ 51" "C < 2 ^ 51" "U \<noteq> 0" using assms by (auto simp: d unat_eq_zero)
  have u2: "unat (2 * u) = 2 * U" using assms(1) by (simp add: d unat_word_ariths(2))
  have int_exact: "f64 (of_int i) = of_int i" if "\<bar>i\<bar> < 2 ^ 53" for i using f64_int that .
  have nat_exact: "f64 (of_nat n) = of_nat n" if "n < 2 ^ 53" for n
    using int_exact [of "int n"] that by simp
  have a: "f64 (of_nat (2 * U)) = of_nat (2 * U)" "f64 (of_nat Q) = of_nat Q" "f64 (of_nat C) = of_nat C"
    "f64 (of_nat U) = of_nat U" using lt by (intro nat_exact; simp)+
  have "\<bar>int (2 * U) - int Q\<bar> < 2 ^ 53" "\<bar>int (2 * U) - int Q - int C\<bar> < 2 ^ 53" using lt by simp_all
  from this [THEN int_exact] have i: "f64 (of_nat (2 * U) - of_nat Q) = of_nat (2 * U) - of_nat Q"
    "f64 (of_nat (2 * U) - of_nat Q - of_nat C) = of_int (2 * int U - int Q - int C)" by simp_all
  have f: "churn_rate_of u p c = max 0 (min 1 (f64 (of_int (2 * int U - int Q - int C) / of_nat U)))"
    unfolding churn_rate_of_def Let_def u2 d(2) [symmetric] d(3) [symmetric] d(1) [symmetric] a i by simp
  have one: "f64 1 = 1" using int_exact [of 1] by simp
  have "churn_rate_of u p c = 0" if "p = u \<and> c = u"
    unfolding f using that d by simp
  moreover have "churn_rate_of u p c = 1" if "Q + C = U"
  proof -
    have "2 * int U - int Q - int C = int U" using that by linarith
    then have "of_int (2 * int U - int Q - int C) / of_nat U = (1 :: rat)" using lt(4) by simp
    then show ?thesis unfolding f by (simp only: one) 
  qed
  ultimately show ?thesis using f d by simp
qed

subsection \<open>Updating\<close>

text \<open>What an update makes of the entry of a group.\<close>

definition churn_next :: "snapshot \<Rightarrow> instant \<Rightarrow> snapshot_sketch \<Rightarrow> churn_entry option \<Rightarrow> churn_sketch" where
  "churn_next s now ss old =
     (case old of
        None \<Rightarrow> \<lparr>cs_added_at = now, cs_sketch = None\<rparr>
      | Some e \<Rightarrow> if cs_added_at (the (ce_prev e)) < now - sn_interval s
                  then \<lparr>cs_added_at = now, cs_sketch = cs_sketch (the (ce_curr e))\<rparr> else the (ce_prev e))"

lemma churn_group_ok:
  assumes "churn_ok P cs" and "sketch_ok (P (sn_id s)) (ss_sketch ss)"
    and "length (ss_values ss) \<le> length (sn_group_by s)"
  shows "\<exists>e. churn_group s now cs (k, ss) = Inr (AList.update (sn_id s, k) e cs)
    \<and> churn_ok P (AList.update (sn_id s, k) e cs)
    \<and> ce_curr e = Some \<lparr>cs_added_at = now, cs_sketch = Some (ss_sketch ss)\<rparr>
    \<and> ce_prev e = Some (churn_next s now ss (map_of cs (sn_id s, k)))"
proof (cases "map_of cs (sn_id s, k)")
  case None
  let ?e = "(new_churn_entry s ss)\<lparr>ce_prev := Some \<lparr>cs_added_at = now, cs_sketch = None\<rparr>,
      ce_curr := Some \<lparr>cs_added_at = now, cs_sketch = Some (ss_sketch ss)\<rparr>\<rparr>"
  have "churn_ok P (AList.update (sn_id s, k) ?e cs)"
    using assms by (intro churn_ok_update) (simp_all add: churn_entry_ok_def new_churn_entry_def)
  then show ?thesis using None
    by (intro exI [of _ ?e]) (simp add: churn_group_def churn_advance_def churn_next_def new_churn_entry_def)
next
  case (Some e)
  then have e: "churn_entry_ok (P (sn_id s)) e" using churn_ok_lookup [OF assms(1)] by fastforce
  then obtain pv c sk where pc: "ce_prev e = Some pv" "ce_curr e = Some c" "cs_sketch c = Some sk"
    "sketch_ok (P (sn_id s)) sk" "opt_ok (P (sn_id s)) (cs_sketch pv)" by (auto simp: churn_entry_ok_def)
  let ?e = "e\<lparr>ce_prev := Some (churn_next s now ss (Some e)),
      ce_curr := Some \<lparr>cs_added_at = now, cs_sketch = Some (ss_sketch ss)\<rparr>\<rparr>"
  have kept: "?e = e\<lparr>ce_curr := Some \<lparr>cs_added_at = now, cs_sketch = Some (ss_sketch ss)\<rparr>\<rparr>"
    if "\<not> cs_added_at pv < now - sn_interval s"
    using pc(1,2) that by (cases e) (simp add: churn_next_def)
  have "churn_entry_ok (P (sn_id s)) ?e"
    using e pc assms(2) by (auto simp: churn_entry_ok_def churn_next_def)
  then have "churn_ok P (AList.update (sn_id s, k) ?e cs)"
    by (intro churn_ok_update assms(1)) simp
  moreover have "churn_group s now cs (k, ss) = Inr (AList.update (sn_id s, k) ?e cs)"
  proof (cases "cs_added_at pv < now - sn_interval s")
    case True
    then show ?thesis using Some pc by (simp add: churn_group_def churn_advance_def churn_next_def)
  next
    case False
    then show ?thesis unfolding kept [OF False]
      using Some pc by (simp add: churn_group_def churn_advance_def)
  qed
  ultimately show ?thesis using Some by (intro exI [of _ ?e]) simp
qed

lemma churn_groups_ok:
  assumes "churn_ok P cs" and "map_ok m" and "\<forall>(k, ss) \<in> set m. sketch_ok (P (sn_id s)) (ss_sketch ss)
      \<and> length (ss_values ss) \<le> length (sn_group_by s)"
  shows "\<exists>cs'. fold_err (churn_group s now) cs m = Inr cs' \<and> churn_ok P cs'
    \<and> (\<forall>k ss. (k, ss) \<in> set m \<longrightarrow> (\<exists>e. map_of cs' (sn_id s, k) = Some e
         \<and> ce_curr e = Some \<lparr>cs_added_at = now, cs_sketch = Some (ss_sketch ss)\<rparr>
         \<and> ce_prev e = Some (churn_next s now ss (map_of cs (sn_id s, k)))))
    \<and> (\<forall>ik. (fst ik = sn_id s \<longrightarrow> snd ik \<notin> map_keys m) \<longrightarrow> map_of cs' ik = map_of cs ik)"
  using assms
proof (induction m arbitrary: cs)
  case (Cons kv m)
  obtain k ss where kv: "kv = (k, ss)" by force
  have ss: "sketch_ok (P (sn_id s)) (ss_sketch ss)" "length (ss_values ss) \<le> length (sn_group_by s)"
    using Cons.prems(3) kv by auto
  obtain e where e: "churn_group s now cs (k, ss) = Inr (AList.update (sn_id s, k) e cs)"
    "churn_ok P (AList.update (sn_id s, k) e cs)"
    "ce_curr e = Some \<lparr>cs_added_at = now, cs_sketch = Some (ss_sketch ss)\<rparr>"
    "ce_prev e = Some (churn_next s now ss (map_of cs (sn_id s, k)))"
    using churn_group_ok [OF Cons.prems(1) ss] by blast
  let ?cs1 = "AList.update (sn_id s, k) e cs"
  have m: "map_ok m" "k \<notin> map_keys m" using Cons.prems(2) kv by (auto simp: map_ok_def)
  obtain cs' where cs': "fold_err (churn_group s now) ?cs1 m = Inr cs'" "churn_ok P cs'"
    "\<forall>k ss. (k, ss) \<in> set m \<longrightarrow> (\<exists>e. map_of cs' (sn_id s, k) = Some e
         \<and> ce_curr e = Some \<lparr>cs_added_at = now, cs_sketch = Some (ss_sketch ss)\<rparr>
         \<and> ce_prev e = Some (churn_next s now ss (map_of ?cs1 (sn_id s, k))))"
    "\<forall>ik. (fst ik = sn_id s \<longrightarrow> snd ik \<notin> map_keys m) \<longrightarrow> map_of cs' ik = map_of ?cs1 ik"
    using Cons.IH [OF e(2) m(1)] Cons.prems(3) by auto
  have other: "map_of ?cs1 (sn_id s, j) = map_of cs (sn_id s, j)" if "j \<noteq> k" for j
    using that by (simp add: map_simps)
  have "map_of cs' (sn_id s, k) = Some e" using cs'(4) m(2) by (simp add: map_simps)
  moreover have "j \<noteq> k" if "(j, g) \<in> set m" for j g using that m(2) by force
  ultimately show ?case using kv e cs' other
    by (intro exI [of _ cs']) (auto simp: map_simps)
qed (simp)

lemma churn_update_ok:
  assumes "churn_ok P cs" and "snapshot_ok (P (sn_id s)) s" and "values_ok s" and "sn_calculate_churn s" and "0 < sn_interval s"
  shows "\<exists>cs'. churn_update cs s now = Inr cs' \<and> churn_ok P cs'
    \<and> (\<forall>k ss. (k, ss) \<in> set (sn_sketches s) \<longrightarrow> (\<exists>e. map_of cs' (sn_id s, k) = Some e
         \<and> ce_curr e = Some \<lparr>cs_added_at = now, cs_sketch = Some (ss_sketch ss)\<rparr>
         \<and> ce_prev e = Some (churn_next s now ss (map_of cs (sn_id s, k)))
         \<and> now - sn_interval s \<le> cs_added_at (churn_next s now ss (map_of cs (sn_id s, k)))))
    \<and> (\<forall>ik. (fst ik = sn_id s \<longrightarrow> snd ik \<notin> map_keys (sn_sketches s)) \<longrightarrow> map_of cs' ik = map_of cs ik)"
proof -
  have m: "map_ok (sn_sketches s)" "\<forall>(k, ss) \<in> set (sn_sketches s). sketch_ok (P (sn_id s)) (ss_sketch ss)
      \<and> length (ss_values ss) \<le> length (sn_group_by s)"
    using assms(2,3) by (force simp: snapshot_ok_def sketches_ok_def values_ok_def)+
  have "now - sn_interval s \<le> cs_added_at (churn_next s now ss old)" for ss old
    using assms(5) by (auto simp: churn_next_def split: option.splits)
  then show ?thesis using churn_groups_ok [OF assms(1) m, of now] assms(4,5) unfolding churn_update_def by auto
qed

text \<open>C24: Updating with a snapshot of a churn stream makes its sketches the current ones, replaces a baseline that is
  older than the interval by what was current before, and touches no entry of another estimator or group:
  afterwards no baseline of the snapshot's groups is older than the interval.\<close>

theorem churn_update_window:
  assumes "churn_ok P cs" and "snapshot_ok (P (sn_id s)) s" and "values_ok s" and "sn_calculate_churn s" and "0 < sn_interval s"
  shows "\<exists>cs'. churn_update cs s now = Inr cs' \<and> churn_ok P cs'
    \<and> (\<forall>k ss. (k, ss) \<in> set (sn_sketches s) \<longrightarrow> (\<exists>e. map_of cs' (sn_id s, k) = Some e
         \<and> ce_curr e = Some \<lparr>cs_added_at = now, cs_sketch = Some (ss_sketch ss)\<rparr>
         \<and> ce_prev e = Some (churn_next s now ss (map_of cs (sn_id s, k)))
         \<and> now - sn_interval s \<le> cs_added_at (churn_next s now ss (map_of cs (sn_id s, k)))))
    \<and> (\<forall>ik. (fst ik = sn_id s \<longrightarrow> snd ik \<notin> map_keys (sn_sketches s)) \<longrightarrow> map_of cs' ik = map_of cs ik)"
  by (rule churn_update_ok [OF assms])

lemma churn_cleanup_ok:
  assumes "churn_ok P cs" and "\<forall>(k, e) \<in> set cs. 0 \<le> ce_interval e \<and> ce_interval e < 2 ^ 62"
  shows "\<exists>cs'. churn_cleanup cs now = Inr cs' \<and> churn_ok P cs'
    \<and> (\<forall>k. map_of cs' k = (case map_of cs k of None \<Rightarrow> None
         | Some e \<Rightarrow> if cs_added_at (the (ce_curr e)) < now - 2 * ce_interval e then None else Some e))"
proof -
  let ?f = "\<lambda>cs (k, e). case ce_curr e of None \<Rightarrow> Inl NilDeref
      | Some c \<Rightarrow> Inr (if cs_added_at c < now + wrap_i64 (wrap_i64 (- ce_interval e) * 2) then AList.delete k cs else cs)"
  have "\<exists>cs'. fold_err ?f cs0 xs = Inr cs' \<and> churn_ok P cs'
    \<and> (\<forall>k. map_of cs' k = (case map_of xs k of None \<Rightarrow> map_of cs0 k
         | Some e \<Rightarrow> if cs_added_at (the (ce_curr e)) < now - 2 * ce_interval e then None else map_of cs0 k))"
    if "churn_ok P cs0" "churn_ok P xs" "\<forall>(k, e) \<in> set xs. 0 \<le> ce_interval e \<and> ce_interval e < 2 ^ 62" for xs cs0
    using that
  proof (induction xs arbitrary: cs0)
    case (Cons x xs)
    obtain k e where x: "x = (k, e)" by (cases x)
    have iv: "0 \<le> ce_interval e" "ce_interval e < 2 ^ 62" using Cons.prems(3) x by auto
    have w: "now + wrap_i64 (wrap_i64 (- ce_interval e) * 2) = now - 2 * ce_interval e"
      using iv by (simp add: wrap_i64_id)
    obtain c where c: "ce_curr e = Some c"
      using Cons.prems(2) x by (auto simp: churn_ok_def churn_entry_ok_def)
    define cs1 where "cs1 = (if cs_added_at c < now - 2 * ce_interval e then AList.delete k cs0 else cs0)"
    have ok1: "churn_ok P cs1" using Cons.prems(1) churn_ok_delete by (simp add: cs1_def)
    have xs: "churn_ok P xs" "\<forall>(k, e) \<in> set xs. 0 \<le> ce_interval e \<and> ce_interval e < 2 ^ 62" "k \<notin> map_keys xs"
      using Cons.prems(2,3) x by (auto simp: churn_ok_def map_ok_def)
    have nk: "map_of xs k = None" using xs(3) by (simp add: map_of_not_in_keys)
    obtain cs' where cs': "fold_err ?f cs1 xs = Inr cs'" "churn_ok P cs'"
      "\<forall>j. map_of cs' j = (case map_of xs j of None \<Rightarrow> map_of cs1 j
         | Some e \<Rightarrow> if cs_added_at (the (ce_curr e)) < now - 2 * ce_interval e then None else map_of cs1 j)"
      using Cons.IH [OF ok1 xs(1,2)] by blast
    have "fold_err ?f cs0 (x # xs) = Inr cs'" using cs'(1) x c w by (simp add: cs1_def)
    moreover have "map_of cs' j = (case map_of (x # xs) j of None \<Rightarrow> map_of cs0 j
         | Some e \<Rightarrow> if cs_added_at (the (ce_curr e)) < now - 2 * ce_interval e then None else map_of cs0 j)" for j
    proof (cases "j = k")
      case True
      then show ?thesis using cs'(3) [rule_format, of k] nk x c by (simp add: cs1_def delete_conv)
    next
      case False
      then have "map_of cs1 j = map_of cs0 j" by (simp add: cs1_def delete_conv)
      then show ?thesis using cs'(3) [rule_format, of j] False x by (simp split: option.splits)
    qed
    ultimately show ?case using cs'(2) by blast
  qed simp
  from this [OF assms(1,1,2)] obtain cs' where "fold_err ?f cs cs = Inr cs'" "churn_ok P cs'"
    "\<forall>k. map_of cs' k = (case map_of cs k of None \<Rightarrow> map_of cs k
         | Some e \<Rightarrow> if cs_added_at (the (ce_curr e)) < now - 2 * ce_interval e then None else map_of cs k)" by blast
  then show ?thesis unfolding churn_cleanup_def by (intro exI [of _ cs']) (auto split: option.splits)
qed

text \<open>Cleaning up never panics, removes exactly the entries that were not updated for two intervals, and leaves the
  others as they are.\<close>

theorem churn_cleanup_exact:
  assumes "churn_ok P cs" and "\<forall>(k, e) \<in> set cs. 0 \<le> ce_interval e \<and> ce_interval e < 2 ^ 62"
  shows "\<exists>cs'. churn_cleanup cs now = Inr cs' \<and> churn_ok P cs'
    \<and> (\<forall>k. map_of cs' k = (case map_of cs k of None \<Rightarrow> None
         | Some e \<Rightarrow> if cs_added_at (the (ce_curr e)) < now - 2 * ce_interval e then None else Some e))"
  by (rule churn_cleanup_ok [OF assms])

subsection \<open>Writing\<close>

definition churn_names_ok :: "churn_entry \<Rightarrow> bool" where
  "churn_names_ok e \<longleftrightarrow> (\<forall>k \<in> map_keys (ce_labels e). CHR 0x0A \<notin> set k) \<and> (\<forall>k \<in> set (ce_group_by e). CHR 0x0A \<notin> set k)"

lemma churn_line_ok:
  assumes "churn_entry_ok p e" and "churn_names_ok e"
  shows "\<exists>b. churn_line ip e rate = Inr (b @ format_float4 rate @ nl) \<and> CHR 0x0A \<notin> set b"
proof -
  let ?pre = "append_churn_prefix ip [] (ce_labels e) (ce_interval e) (ce_filter e)"
  have pre: "CHR 0x0A \<notin> set ?pre"
    using assms(2) by (simp add: append_churn_prefix_def quote_no_newline static_labels_no_newline churn_names_ok_def)
  show ?thesis
  proof (cases "ce_group_by e = []")
    case True
    then show ?thesis using pre
      by (simp add: churn_line_def append_global_metric_def global_keys_label_def)
  next
    case False
    let ?buf = "?pre @ '','' @ append_group_by_keys_label ip [] ''group_by_keys'' (ce_group_by e) @ '',''
      @ ''group_by_values='' @ quote ip (join '','' (ce_values e))"
    have "length (ce_values e) \<le> length (ce_group_by e)" using assms(1) by (simp add: churn_entry_ok_def)
    then obtain b where b: "append_values ip (ce_group_by e) (ce_values e) ?buf = Inr b"
      using append_values_total by blast
    have "CHR 0x0A \<notin> set ?buf" using pre by (simp add: append_group_by_keys_label_def quote_no_newline)
    then have "CHR 0x0A \<notin> set b"
      using append_values_no_newline [OF b] assms(2) by (simp add: churn_names_ok_def)
    then show ?thesis using False b
      by (intro exI [of _ "b @ ''} ''"]) (simp add: churn_line_def append_group_metrics_def)
  qed
qed

lemma churn_write_ok:
  assumes "churn_ok P cs" and "\<forall>(k, e) \<in> set cs. churn_names_ok e"
  shows "\<exists>cs' lines. churn_write ip fl collect cs w = Inr (cs', w @ lines, None) \<and> churn_ok P cs'
    \<and> map fst cs' = map fst cs \<and> length lines = length cs
    \<and> (\<forall>l \<in> set lines. \<exists>b rate. l = b @ format_float4 rate @ nl \<and> CHR 0x0A \<notin> set b \<and> 0 \<le> rate \<and> rate \<le> 1)"
  using assms
proof (induction cs arbitrary: w)
  case (Cons x cs)
  obtain k e where x: "x = (k, e)" by (cases x)
  have e: "churn_entry_ok (P (fst k)) e" "churn_names_ok e" and k: "k \<notin> map_keys cs"
    and rest: "churn_ok P cs" "\<forall>(k, e) \<in> set cs. churn_names_ok e"
    using Cons.prems x by (auto simp: churn_ok_def map_ok_def)
  obtain rate e' where r: "churn_ratio fl e = Inr (rate, e')" "0 \<le> rate" "rate \<le> 1" "churn_entry_ok (P (fst k)) e'"
    using churn_ratio_ok [OF e(1), of fl] by blast
  have "ce_labels e' = ce_labels e \<and> ce_group_by e' = ce_group_by e" using churn_ratio_frame [OF r(1)] by blast
  then have "churn_names_ok e'" using e(2) by (simp add: churn_names_ok_def)
  from churn_line_ok [OF r(4) this, of ip rate] obtain b
    where b: "churn_line ip e' rate = Inr (b @ format_float4 rate @ nl)" "CHR 0x0A \<notin> set b" by blast
  obtain cs' lines where cs': "churn_write ip fl collect cs (w @ [b @ format_float4 rate @ nl])
      = Inr (cs', (w @ [b @ format_float4 rate @ nl]) @ lines, None)" "churn_ok P cs'" "map fst cs' = map fst cs"
    "length lines = length cs"
    "\<forall>l \<in> set lines. \<exists>b rate. l = b @ format_float4 rate @ nl \<and> CHR 0x0A \<notin> set b \<and> 0 \<le> rate \<and> rate \<le> 1"
    using Cons.IH [OF rest] by blast
  have "collect w (b @ format_float4 rate @ nl) = (w @ [b @ format_float4 rate @ nl], None)" by (simp add: collect_def)
  then have "churn_write ip fl collect (x # cs) w = Inr ((k, e') # cs', w @ ((b @ format_float4 rate @ nl) # lines), None)"
    using x r(1) b(1) cs'(1) by simp
  moreover have "churn_ok P ((k, e') # cs')"
  proof -
    have "k \<notin> map_keys cs'" using k arg_cong [OF cs'(3), of set] by simp
    then show ?thesis using cs'(2) r(4) by (simp add: churn_ok_def map_ok_def)
  qed
  moreover have "map fst ((k, e') # cs') = map fst (x # cs)" "length ((b @ format_float4 rate @ nl) # lines) = length (x # cs)"
    using cs'(3,4) x by simp_all
  moreover have "\<forall>l \<in> set ((b @ format_float4 rate @ nl) # lines).
      \<exists>b rate. l = b @ format_float4 rate @ nl \<and> CHR 0x0A \<notin> set b \<and> 0 \<le> rate \<and> rate \<le> 1"
    using cs'(5) b(2) r(2,3) by auto
  ultimately show ?case by blast
qed (simp add: churn_ok_def)

text \<open>Writing never panics and writes one line per entry: the churn metric and a rate between 0 and 1 with four
  decimals; the entries keep what they know.\<close>

theorem churn_lines:
  assumes "churn_ok P cs" and "\<forall>(k, e) \<in> set cs. churn_names_ok e"
  shows "\<exists>cs' lines. churn_write ip fl collect cs w = Inr (cs', w @ lines, None) \<and> churn_ok P cs'
    \<and> map fst cs' = map fst cs \<and> length lines = length cs
    \<and> (\<forall>l \<in> set lines. \<exists>b rate. l = b @ format_float4 rate @ nl \<and> CHR 0x0A \<notin> set b \<and> 0 \<le> rate \<and> rate \<le> 1)"
  by (rule churn_write_ok [OF assms])

subsection \<open>A concrete stream\<close>

definition churn_sketch4 :: sketch where
  "churn_sketch4 = \<lparr>sk_p = 4, sk_created_sparse = True, sk_tmp = [], sk_list = Some [], sk_regs = []\<rparr>"

definition churn_stream :: snapshot where
  "churn_stream = new_snapshot\<lparr>sn_id := ''s'', sn_interval := 60, sn_calculate_churn := True,
     sn_group_by := [''job''], sn_sketches := [(7, \<lparr>ss_values = [''a''], ss_sketch = churn_sketch4\<rparr>)]\<rparr>"

lemma churn_sketch4_ok: "sketch_ok 4 churn_sketch4"
proof -
  obtain sk where "new_sketch 4 True = Inr sk" "sketch_ok 4 sk" using new_sketch_ok [of 4 True] by auto
  then show ?thesis by (auto simp: new_sketch_def churn_sketch4_def)
qed

lemma churn_stream_ok: "snapshot_ok 4 churn_stream" "values_ok churn_stream"
  using churn_sketch4_ok
  by (simp_all add: churn_stream_def snapshot_ok_def sketches_ok_def values_ok_def new_snapshot_def map_ok_def)

lemma churn_stream_update:
  "\<exists>cs. churn_update new_churn_snapshots churn_stream 100 = Inr cs \<and> churn_ok (\<lambda>_. 4) cs
    \<and> (\<exists>e. cs = [((''s'', 7), e)] \<and> ce_interval e = 60 \<and> ce_prev e = Some \<lparr>cs_added_at = 100, cs_sketch = None\<rparr>
         \<and> ce_curr e = Some \<lparr>cs_added_at = 100, cs_sketch = Some churn_sketch4\<rparr> \<and> churn_names_ok e)"
  using churn_sketch4_ok
  by (simp add: churn_update_def churn_stream_def new_churn_snapshots_def churn_group_def churn_advance_def
      new_churn_entry_def new_snapshot_def churn_ok_def churn_entry_ok_def map_ok_def churn_names_ok_def)

theorem churn_ratio_bounds_witness:
  "\<exists>cs e rate e'. churn_update new_churn_snapshots churn_stream 100 = Inr cs \<and> map_of cs (''s'', 7) = Some e
    \<and> churn_ratio \<lparr>linear_count = (\<lambda>_. 3), beta_count = (\<lambda>_ _. 0)\<rparr> e = Inr (rate, e') \<and> rate = 0"
proof -
  obtain cs e where cs: "churn_update new_churn_snapshots churn_stream 100 = Inr cs" "cs = [((''s'', 7), e)]"
    "churn_ok (\<lambda>_. 4) cs" "ce_prev e = Some \<lparr>cs_added_at = 100, cs_sketch = None\<rparr>"
    using churn_stream_update by auto
  then have "churn_entry_ok 4 e" by (simp add: churn_ok_def)
  from churn_ratio_bounds [OF this, of "\<lparr>linear_count = (\<lambda>_. 3), beta_count = (\<lambda>_ _. 0)\<rparr>"] cs show ?thesis by auto
qed

theorem churn_rate_formula_witness:
  "churn_rate_of 5 5 5 = 0 \<and> churn_rate_of 5 2 3 = 1"
  using churn_rate_formula [of 5 5 5] churn_rate_formula [of 5 2 3] by simp

theorem churn_update_window_witness:
  "\<exists>cs cs' e. churn_update new_churn_snapshots churn_stream 100 = Inr cs \<and> churn_update cs churn_stream 200 = Inr cs'
    \<and> map_of cs' (''s'', 7) = Some e \<and> ce_prev e = Some \<lparr>cs_added_at = 200, cs_sketch = Some churn_sketch4\<rparr>"
proof -
  obtain cs e where cs: "churn_update new_churn_snapshots churn_stream 100 = Inr cs" "cs = [((''s'', 7), e)]"
    "churn_ok (\<lambda>_. 4) cs" "ce_prev e = Some \<lparr>cs_added_at = 100, cs_sketch = None\<rparr>"
    "ce_curr e = Some \<lparr>cs_added_at = 100, cs_sketch = Some churn_sketch4\<rparr>"
    using churn_stream_update by auto
  have h: "sn_calculate_churn churn_stream" "0 < sn_interval churn_stream" by (simp_all add: churn_stream_def)
  have mem: "(7, \<lparr>ss_values = [''a''], ss_sketch = churn_sketch4\<rparr>) \<in> set (sn_sketches churn_stream)"
    "sn_id churn_stream = ''s''" "sn_interval churn_stream = 60" by (simp_all add: churn_stream_def)
  from churn_update_window [OF cs(3) _ churn_stream_ok(2) h, of 200] churn_stream_ok(1)
  obtain cs' where cs': "churn_update cs churn_stream 200 = Inr cs'"
    "\<forall>k ss. (k, ss) \<in> set (sn_sketches churn_stream) \<longrightarrow> (\<exists>e. map_of cs' (sn_id churn_stream, k) = Some e
       \<and> ce_prev e = Some (churn_next churn_stream 200 ss (map_of cs (sn_id churn_stream, k))))" by blast
  obtain e2 where "map_of cs' (''s'', 7) = Some e2"
    "ce_prev e2 = Some (churn_next churn_stream 200 \<lparr>ss_values = [''a''], ss_sketch = churn_sketch4\<rparr> (map_of cs (''s'', 7)))"
    using cs'(2) mem(1) unfolding mem(2) by blast
  then show ?thesis using cs cs'(1) mem(3) by (auto simp: churn_next_def)
qed

theorem churn_cleanup_exact_witness:
  "\<exists>cs cs'. churn_update new_churn_snapshots churn_stream 100 = Inr cs \<and> churn_cleanup cs 221 = Inr cs'
    \<and> map_of cs' (''s'', 7) = None"
proof -
  obtain cs e where cs: "churn_update new_churn_snapshots churn_stream 100 = Inr cs" "cs = [((''s'', 7), e)]"
    "churn_ok (\<lambda>_. 4) cs" "ce_interval e = 60" "ce_curr e = Some \<lparr>cs_added_at = 100, cs_sketch = Some churn_sketch4\<rparr>"
    using churn_stream_update by auto
  from churn_cleanup_exact [OF cs(3), of 221] cs show ?thesis by auto
qed

theorem churn_lines_witness:
  "\<exists>cs cs' l. churn_update new_churn_snapshots churn_stream 100 = Inr cs
    \<and> churn_write (\<lambda>_. True) \<lparr>linear_count = (\<lambda>_. 3), beta_count = (\<lambda>_ _. 0)\<rparr> collect cs [] = Inr (cs', [l], None)"
proof -
  obtain cs e where cs: "churn_update new_churn_snapshots churn_stream 100 = Inr cs" "cs = [((''s'', 7), e)]"
    "churn_ok (\<lambda>_. 4) cs" "churn_names_ok e"
    using churn_stream_update by auto
  have n: "\<forall>(k, e) \<in> set cs. churn_names_ok e" using cs(2,4) by simp
  from churn_lines [OF cs(3) n, of "\<lambda>_. True" "\<lparr>linear_count = (\<lambda>_. 3), beta_count = (\<lambda>_ _. 0)\<rparr>" "[]"]
  obtain cs' lines where "churn_write (\<lambda>_. True) \<lparr>linear_count = (\<lambda>_. 3), beta_count = (\<lambda>_ _. 0)\<rparr> collect cs [] = Inr (cs', lines, None)"
    "length lines = length cs" by auto
  then show ?thesis using cs(1,2) by (cases lines) auto
qed

end
