(* ===== verification/Cardinality_Metrics.thy ===== *)
theory Cardinality_Metrics
  imports Estimator_Run Churn
begin

section \<open>Cardinality metrics (\<^verbatim>\<open>cardinality_metrics.go\<close>)\<close>

text \<open>
  A scrape writes the metrics of all estimators, of the snapshots fetched from the storage nodes and the
  churn, and caches the bytes.  The whole handler runs under one mutex.  The cache is the list of the
  writes to the buffer; what a client gets is their concatenation.  The zero time is \<open>None\<close>.

  Outside the program are: the table of printable runes and the floating-point part of the estimates, the
  flags, what a GET of a URL returns, and how the goroutines that fetch are scheduled.  Each goroutine
  calls \<^verbatim>\<open>ss.add\<close>, which locks, for its messages one after the other; \<open>cm_schedule\<close> merges the calls of
  all goroutines into one list.
\<close>

datatype http_response = HttpFailed string | HttpResponse int "string gob_item list"

record cm_env =
  cm_printable :: "nat \<Rightarrow> bool"
  cm_float :: hll_float
  cm_min_cardinality :: u64
  cm_cache_ttl :: duration
  cm_get :: "string \<Rightarrow> http_response"
  cm_schedule :: "snapshot list list \<Rightarrow> snapshot list"

record cm_state =
  cm_churn :: churn_snapshots
  cm_cache :: "string list"
  cm_cache_at :: "instant option"

definition new_cm_state :: cm_state where
  "new_cm_state = \<lparr>cm_churn = new_churn_snapshots, cm_cache = [], cm_cache_at = None\<rparr>"

subsection \<open>Operations\<close>

definition invalidate_cardinality_cache :: "(string, estimator) gomap \<Rightarrow> cm_state \<Rightarrow> cm_state" where
  "invalidate_cardinality_cache removed st =
     st\<lparr>cm_churn := List.filter (\<lambda>(k, e). map_of removed (fst k) = None) (cm_churn st), cm_cache_at := None\<rparr>"

text \<open>\<^verbatim>\<open>time.Since\<close> saturates; since the zero time it is the largest duration.\<close>

definition time_since :: "instant option \<Rightarrow> instant \<Rightarrow> duration" where
  "time_since stamp now =
     (case stamp of None \<Rightarrow> 2 ^ 63 - 1 | Some t \<Rightarrow> max (- (2 ^ 63)) (min (2 ^ 63 - 1) (now - t)))"

definition cache_stale :: "cm_env \<Rightarrow> instant \<Rightarrow> cm_state \<Rightarrow> bool" where
  "cache_stale env now st \<longleftrightarrow> cm_cache_ttl env \<le> time_since (cm_cache_at st) now \<or> cm_cache_ttl env = 0"

fun write_estimators ::
  "cm_env \<Rightarrow> estimator list \<Rightarrow> string list \<Rightarrow> go_panic + estimator list \<times> string list" where
  "write_estimators env [] w = Inr ([], w)"
| "write_estimators env (e # es) w =
     (case es_write_metrics (cm_printable env) (cm_float env) (cm_min_cardinality env) collect e w of
        Inl p \<Rightarrow> Inl p
      | Inr (e', w') \<Rightarrow> map_sum id (\<lambda>(es', w''). (e' # es', w'')) (write_estimators env es w'))"

text \<open>The callback never returns an error.\<close>

definition churn_cb :: "instant \<Rightarrow> (churn_snapshots, string) snapshot_cb" where
  "churn_cb now s cs = map_sum id (\<lambda>cs'. (cs', None)) (churn_update cs s now)"

fun churn_estimators ::
  "cm_env \<Rightarrow> instant \<Rightarrow> estimator list \<Rightarrow> churn_snapshots \<Rightarrow> go_panic + estimator list \<times> churn_snapshots" where
  "churn_estimators env now [] cs = Inr ([], cs)"
| "churn_estimators env now (e # es) cs =
     (case es_buckets e of
        [] \<Rightarrow> Inl IndexOutOfRange
      | eb0 # _ \<Rightarrow>
          (case (if eb_calculate_churn eb0
                 then map_sum id (\<lambda>(e', cs', _). (e', cs')) (to_snapshot (cm_float env) (churn_cb now) e cs)
                 else Inr (e, cs)) of
             Inl p \<Rightarrow> Inl p
           | Inr (e', cs') \<Rightarrow> map_sum id (\<lambda>(es', cs''). (e' # es', cs'')) (churn_estimators env now es cs')))"

definition fetch_and_merge ::
  "(string \<Rightarrow> http_response) \<Rightarrow> string \<Rightarrow> ('s \<Rightarrow> snapshot \<Rightarrow> 's) \<Rightarrow> 's \<Rightarrow> 's \<times> string option" where
  "fetch_and_merge get storage_node cb st =
     (let url = storage_node @ ''/clusternative/snapshot'' in
      case get url of
        HttpFailed err \<Rightarrow> (st, Some (''http get '' @ url @ '': '' @ err))
      | HttpResponse code body \<Rightarrow>
          if code \<noteq> 200 then (st, Some (''unexpected status code '' @ format_int code @ '' from '' @ url))
          else decode_snapshots cb body st)"

text \<open>The calls of all goroutines, and whether a fetch failed.\<close>

definition fetch_nodes :: "cm_env \<Rightarrow> string list \<Rightarrow> snapshot list \<times> bool" where
  "fetch_nodes env nodes =
     (let runs = map (\<lambda>url. fetch_and_merge (cm_get env) url (\<lambda>calls s. calls @ [s]) []) nodes
      in (cm_schedule env (map fst runs), list_ex (\<lambda>r. snd r \<noteq> None) runs))"

definition churn_remote :: "instant \<Rightarrow> churn_snapshots \<Rightarrow> string \<times> snapshot \<Rightarrow> go_panic + churn_snapshots" where
  "churn_remote now cs kv =
     (if sn_calculate_churn (snd kv) then churn_update cs (snd kv) now else Inr cs)"

definition merge_remote ::
  "cm_env \<Rightarrow> string list \<Rightarrow> instant \<Rightarrow> churn_snapshots \<Rightarrow> string list \<Rightarrow> go_panic + churn_snapshots \<times> string list" where
  "merge_remote env nodes now cs w =
     (if nodes = [] then Inr (cs, w)
      else
        (case fetch_nodes env nodes of
           (calls, fetch_failed) \<Rightarrow>
             (case fold_err snapshots_add [] calls of
                Inl p \<Rightarrow> Inl p
              | Inr ss \<Rightarrow>
                  (case (if fetch_failed then Inr cs else fold_err (churn_remote now) cs ss) of
                     Inl p \<Rightarrow> Inl p
                   | Inr cs' \<Rightarrow>
                       map_sum id (\<lambda>(w', _). (cs', w'))
                         (ss_write_metrics (cm_printable env) (cm_float env) (cm_min_cardinality env) collect ss w)))))"

definition refresh_cardinality ::
  "cm_env \<Rightarrow> estimator list \<Rightarrow> string list \<Rightarrow> instant \<Rightarrow> instant \<Rightarrow> cm_state \<Rightarrow> go_panic + estimator list \<times> cm_state" where
  "refresh_cardinality env es nodes now finished st =
     (case write_estimators env es [] of
        Inl p \<Rightarrow> Inl p
      | Inr (es1, w1) \<Rightarrow>
          (case churn_estimators env now es1 (cm_churn st) of
             Inl p \<Rightarrow> Inl p
           | Inr (es2, cs2) \<Rightarrow>
               (case merge_remote env nodes now cs2 w1 of
                  Inl p \<Rightarrow> Inl p
                | Inr (cs3, w3) \<Rightarrow>
                    (case churn_cleanup cs3 now of
                       Inl p \<Rightarrow> Inl p
                     | Inr cs4 \<Rightarrow>
                         map_sum id (\<lambda>(cs5, w5, _). (es2, \<lparr>cm_churn = cs5, cm_cache = w5, cm_cache_at = Some finished\<rparr>))
                           (churn_write (cm_printable env) (cm_float env) collect cs4 w3)))))"

text \<open>
  The handler reads the clock when it checks the cache, when it starts to refresh and when it has done.
  Its last component is the response; the self-metrics it counts are left out.
\<close>

definition write_cardinality_metrics ::
  "cm_env \<Rightarrow> estimator list \<Rightarrow> string list \<Rightarrow> instant \<times> instant \<times> instant \<Rightarrow> cm_state
   \<Rightarrow> go_panic + estimator list \<times> cm_state \<times> string" where
  "write_cardinality_metrics env es nodes clock st =
     map_sum id (\<lambda>(es', st'). (es', st', concat (cm_cache st')))
       (if cache_stale env (fst clock) st
        then refresh_cardinality env es nodes (fst (snd clock)) (snd (snd clock)) st
        else Inr (es, st))"

subsection \<open>The cache\<close>

text \<open>Within the cache lifetime after a refresh every scrape is answered with the bytes of that refresh: neither the
  estimators nor the storage nodes are asked, whatever they would answer, and no state changes.\<close>

theorem cached_within_ttl:
  assumes "refresh_cardinality env es nodes now finished st = Inr (es1, st1)"
    and "cm_cache_ttl env' \<noteq> 0" and "fst clock - finished < cm_cache_ttl env'" and "cm_cache_ttl env' < 2 ^ 63"
    and "0 \<le> fst clock - finished"
  shows "write_cardinality_metrics env' es' nodes' clock st1 = Inr (es', st1, concat (cm_cache st1))"
proof -
  have "cm_cache_at st1 = Some finished"
    using assms(1) by (auto simp: refresh_cardinality_def map_sum_Inr split: sum.splits)
  then have "\<not> cache_stale env' (fst clock) st1" using assms(2-5) by (simp add: cache_stale_def time_since_def)
  then show ?thesis by (simp add: write_cardinality_metrics_def)
qed

lemma invalidate_churn:
  "map_of (cm_churn (invalidate_cardinality_cache removed st)) k =
     (if fst k \<in> map_keys removed then None else map_of (cm_churn st) k)"
proof -
  have "map_of (List.filter (\<lambda>(k, e). map_of removed (fst k) = None) cs) k =
      (if fst k \<in> map_keys removed then None else map_of cs k)" for cs :: churn_snapshots
  proof (induction cs)
    case (Cons x cs)
    obtain j e where x: "x = (j, e)" by (cases x)
    show ?case
    proof (cases "map_of removed (fst j)")
      case None
      then show ?thesis using Cons x by (auto simp: map_of_eq_None_iff)
    next
      case (Some r)
      then have "fst j \<in> map_keys removed" by (rule map_of_in_keys)
      then show ?thesis using Cons x Some by auto
    qed
  qed simp
  then show ?thesis by (simp add: invalidate_cardinality_cache_def)
qed

text \<open>Invalidating the cache drops the churn state of exactly the removed estimators, and the next scrape refreshes,
  whenever it comes.\<close>

theorem invalidate_exact:
  assumes "cm_cache_ttl env < 2 ^ 63"
  shows "(\<forall>k. map_of (cm_churn (invalidate_cardinality_cache removed st)) k =
        (if fst k \<in> map_keys removed then None else map_of (cm_churn st) k))
    \<and> cache_stale env t (invalidate_cardinality_cache removed st)"
  using assms invalidate_churn by (simp add: invalidate_cardinality_cache_def cache_stale_def time_since_def)

subsection \<open>What a refresh relies on\<close>

text \<open>
  Churn entries that can be written and cleaned up, estimators that can be scraped, and messages of storage
  nodes: \<open>P\<close> gives the precision and \<open>G\<close> the group-by labels of an id.
\<close>

definition interval_ok :: "duration \<Rightarrow> bool" where
  "interval_ok d \<longleftrightarrow> 0 < d \<and> d < 2 ^ 62"

definition churn_fit :: "churn_entry \<Rightarrow> bool" where
  "churn_fit e \<longleftrightarrow> churn_names_ok e \<and> interval_ok (ce_interval e)"

definition churn_state_ok :: "(string \<Rightarrow> nat) \<Rightarrow> churn_snapshots \<Rightarrow> bool" where
  "churn_state_ok P cs \<longleftrightarrow> churn_ok P cs \<and> (\<forall>e \<in> snd ` set cs. churn_fit e)"

definition scrape_ok :: "(string \<Rightarrow> nat) \<Rightarrow> estimator \<Rightarrow> bool" where
  "scrape_ok P e \<longleftrightarrow>
     node_ok P e \<and> es_values_ok e \<and> es_names_ok e \<and> interval_ok (eb_interval (hd (es_buckets e)))"

definition remote_fit :: "(string \<Rightarrow> string list) \<Rightarrow> snapshot \<Rightarrow> bool" where
  "remote_fit G s \<longleftrightarrow> names_ok s \<and> values_ok s \<and> interval_ok (sn_interval s) \<and> sn_group_by s = G (sn_id s)
     \<and> (sn_group_by s = [] \<longrightarrow> 0 \<in> map_keys (sn_sketches s))"

definition remote_ok :: "(string \<Rightarrow> nat) \<Rightarrow> (string \<Rightarrow> string list) \<Rightarrow> snapshot \<Rightarrow> bool" where
  "remote_ok P G s \<longleftrightarrow> snapshot_valid P s \<and> remote_fit G (sn_with_id s)"

subsection \<open>Churn updates\<close>

lemma churn_group_fit:
  assumes "churn_group s now cs kv = Inr cs'" and "\<forall>e \<in> snd ` set cs. churn_fit e"
    and "names_ok s" and "interval_ok (sn_interval s)"
  shows "\<forall>e \<in> snd ` set cs'. churn_fit e"
proof -
  let ?e = "case map_of cs (sn_id s, fst kv) of Some e \<Rightarrow> e | None \<Rightarrow> new_churn_entry s (snd kv)"
  obtain e' where e': "churn_advance (sn_interval s) now (ss_sketch (snd kv)) ?e = Inr e'"
    "cs' = AList.update (sn_id s, fst kv) e' cs"
    using assms(1) by (auto simp: churn_group_def Let_def split: sum.splits)
  have "ce_labels e' = ce_labels ?e \<and> ce_group_by e' = ce_group_by ?e \<and> ce_interval e' = ce_interval ?e"
    using e'(1) by (auto simp: churn_advance_def Let_def split: option.splits if_splits)
  moreover have "churn_fit ?e"
  proof (cases "map_of cs (sn_id s, fst kv)")
    case None
    then show ?thesis using assms(3,4)
      by (simp add: churn_fit_def churn_names_ok_def new_churn_entry_def names_ok_def)
  next
    case (Some e)
    then show ?thesis using assms(2) map_of_SomeD [OF Some] by force
  qed
  ultimately have "churn_fit e'" by (simp add: churn_fit_def churn_names_ok_def)
  then show ?thesis using assms(2) set_snd_update [of "(sn_id s, fst kv)" e' cs] unfolding e'(2) by blast
qed

lemma churn_update_state:
  assumes "churn_state_ok P cs" and "snapshot_ok (P (sn_id s)) s" and "values_ok s" and "names_ok s"
    and "sn_calculate_churn s" and "interval_ok (sn_interval s)"
  shows "\<exists>cs'. churn_update cs s now = Inr cs' \<and> churn_state_ok P cs'"
proof -
  have cs: "churn_ok P cs" "\<forall>e \<in> snd ` set cs. churn_fit e" and iv: "0 < sn_interval s"
    using assms(1,6) by (simp_all add: churn_state_ok_def interval_ok_def)
  obtain cs' where cs': "churn_update cs s now = Inr cs'" "churn_ok P cs'"
    using churn_update_ok [OF cs(1) assms(2,3,5) iv, of now] by blast
  then have run: "fold_err (churn_group s now) cs (sn_sketches s) = Inr cs'"
    using assms(5) iv by (simp add: churn_update_def)
  have "\<forall>e \<in> snd ` set cs'. churn_fit e"
    by (rule fold_err_inv [OF run, where P = "\<lambda>cs. \<forall>e \<in> snd ` set cs. churn_fit e", OF cs(2)])
      (rule churn_group_fit [OF _ _ assms(4,6)])
  then show ?thesis using cs' by (simp add: churn_state_ok_def)
qed

lemma churn_cleanup_state:
  assumes "churn_state_ok P cs"
  shows "\<exists>cs'. churn_cleanup cs now = Inr cs' \<and> churn_state_ok P cs'"
proof -
  have cs: "churn_ok P cs" "\<forall>e \<in> snd ` set cs. churn_fit e" using assms by (simp_all add: churn_state_ok_def)
  have "\<forall>(k, e) \<in> set cs. 0 \<le> ce_interval e \<and> ce_interval e < 2 ^ 62"
    using cs(2) by (force simp: churn_fit_def interval_ok_def)
  from churn_cleanup_ok [OF cs(1) this, of now] obtain cs' where cs': "churn_cleanup cs now = Inr cs'" "churn_ok P cs'"
    "\<forall>k. map_of cs' k = (case map_of cs k of None \<Rightarrow> None
       | Some e \<Rightarrow> if cs_added_at (the (ce_curr e)) < now - 2 * ce_interval e then None else Some e)" by blast
  have "churn_fit e" if "(k, e) \<in> set cs'" for k e
  proof -
    have "map_of cs' k = Some e" using that cs'(2) by (simp add: churn_ok_def map_ok_def map_of_is_SomeI)
    then have "map_of cs k = Some e" using cs'(3) by (auto split: option.splits if_splits)
    then show ?thesis using cs(2) map_of_SomeD by force
  qed
  then show ?thesis using cs' by (auto simp: churn_state_ok_def)
qed

lemma churn_write_fit:
  "churn_write ip fl wr cs w = Inr (cs', w', err) \<Longrightarrow> \<forall>e \<in> snd ` set cs. churn_fit e \<Longrightarrow> \<forall>e \<in> snd ` set cs'. churn_fit e"
proof (induction cs arbitrary: w cs' w' err)
  case (Cons x cs)
  obtain k e where x: "x = (k, e)" by (cases x)
  obtain rate e1 line where r: "churn_ratio fl e = Inr (rate, e1)" "churn_line ip e1 rate = Inr line"
    using Cons.prems(1) x by (auto split: sum.splits prod.splits)
  have e: "churn_fit e" and cs: "\<forall>e \<in> snd ` set cs. churn_fit e" using Cons.prems(2) x by simp_all
  have e1: "churn_fit e1" using churn_ratio_frame [OF r(1)] e by (simp add: churn_fit_def churn_names_ok_def)
  obtain w1 err1 where wr: "wr w line = (w1, err1)" by force
  show ?case
  proof (cases err1)
    case None
    obtain cs1 w2 err2 where "churn_write ip fl wr cs w1 = Inr (cs1, w2, err2)" "cs' = (k, e1) # cs1"
      using Cons.prems(1) x r wr None by (auto split: sum.splits)
    then show ?thesis using Cons.IH [OF _ cs] e1 by simp
  next
    case (Some m)
    then have "cs' = (k, e1) # cs" using Cons.prems(1) x r wr by simp
    then show ?thesis using e1 cs by simp
  qed
qed simp

lemma pad_digits_no_newline: "CHR 0x0A \<notin> set (pad_digits k n)"
  by (induction k n rule: pad_digits.induct) (auto simp: digit_not_newline dest!: sym [where s = "CHR 0x0A"])

lemma format_float4_no_newline: "CHR 0x0A \<notin> set (format_float4 rate)"
  by (simp add: format_float4_def Let_def format_uint_no_newline pad_digits_no_newline)

lemma churn_write_state:
  assumes "churn_state_ok P cs"
  shows "\<exists>cs' lines. churn_write ip fl collect cs w = Inr (cs', w @ lines, None) \<and> churn_state_ok P cs'
    \<and> (\<forall>l \<in> set lines. one_line l)"
proof -
  have cs: "churn_ok P cs" "\<forall>e \<in> snd ` set cs. churn_fit e" using assms by (simp_all add: churn_state_ok_def)
  have "\<forall>(k, e) \<in> set cs. churn_names_ok e" using cs(2) by (force simp: churn_fit_def)
  from churn_write_ok [OF cs(1) this, of ip fl w] obtain cs' lines where
    w: "churn_write ip fl collect cs w = Inr (cs', w @ lines, None)" "churn_ok P cs'"
    "\<forall>l \<in> set lines. \<exists>b rate. l = b @ format_float4 rate @ nl \<and> CHR 0x0A \<notin> set b \<and> 0 \<le> rate \<and> rate \<le> 1" by blast
  have "one_line l" if "l \<in> set lines" for l
  proof -
    from bspec [OF w(3) that] obtain b rate where l: "l = b @ format_float4 rate @ nl" "CHR 0x0A \<notin> set b" by (elim exE conjE)
    then show ?thesis unfolding one_line_def using format_float4_no_newline [of rate]
      by (intro exI [of _ "b @ format_float4 rate"]) simp
  qed
  then show ?thesis using w churn_write_fit [OF w(1) cs(2)] by (simp add: churn_state_ok_def)
qed

subsection \<open>Estimators\<close>

text \<open>A scrape changes nothing of an estimator but the reject sketches of its group limit.\<close>

definition only_rejects :: "estimator \<Rightarrow> estimator \<Rightarrow> bool" where
  "only_rejects e e' \<longleftrightarrow> (\<exists>gs. e' = e\<lparr>es_group_size := gs\<rparr> \<and> gs_limit gs = gs_limit (es_group_size e)
     \<and> gs_size gs = gs_size (es_group_size e))"

lemma scrape_ok_rejects:
  assumes "scrape_ok P e" and "e' = e\<lparr>es_group_size := gs\<rparr>" and "estimator_ok (P (es_id e)) e'"
  shows "scrape_ok P e'"
  using assms(1,3) unfolding scrape_ok_def node_ok_def assms(2) by (simp add: es_values_ok_def es_names_ok_def)

lemma only_rejects_trans: "only_rejects a b \<Longrightarrow> only_rejects b c \<Longrightarrow> only_rejects a c"
  unfolding only_rejects_def by force

lemma only_rejects_refl: "only_rejects e e"
  unfolding only_rejects_def by (intro exI [of _ "es_group_size e"]) simp

lemma write_estimators_ok:
  assumes "\<forall>e \<in> set es. scrape_ok P e"
  shows "\<exists>es' lines. write_estimators env es w = Inr (es', w @ lines) \<and> (\<forall>l \<in> set lines. one_line l)
    \<and> (\<forall>e \<in> set es'. scrape_ok P e) \<and> list_all2 only_rejects es es'"
  using assms
proof (induction es arbitrary: w)
  case (Cons e es)
  let ?ip = "cm_printable env" and ?fl = "cm_float env" and ?flag = "cm_min_cardinality env"
  have s: "scrape_ok P e" using Cons.prems by simp
  then have e: "estimator_ok (P (es_id e)) e" "es_values_ok e" "es_names_ok e" by (simp_all add: scrape_ok_def node_ok_def)
  obtain e' lines where w: "es_write_metrics ?ip ?fl ?flag collect e w = Inr (e', w @ lines)" "\<forall>l \<in> set lines. one_line l"
    using es_write_metrics_ok [OF e, of ?ip ?fl ?flag w] by blast
  obtain gs where gs: "e' = e\<lparr>es_group_size := gs\<rparr>" "gs_limit gs = gs_limit (es_group_size e)"
    "gs_size gs = gs_size (es_group_size e)" "estimator_ok (P (es_id e)) e'"
    using es_write_metrics_frame [OF w(1) e(1)] by blast
  have r: "scrape_ok P e'" "only_rejects e e'"
    using scrape_ok_rejects [OF s gs(1,4)] gs by (auto simp: only_rejects_def)
  obtain es' lines2 where "write_estimators env es (w @ lines) = Inr (es', (w @ lines) @ lines2)"
    "\<forall>l \<in> set lines2. one_line l" "\<forall>e \<in> set es'. scrape_ok P e" "list_all2 only_rejects es es'"
    using Cons.IH [of "w @ lines"] Cons.prems by auto
  then show ?case using w r by (intro exI [of _ "e' # es'"] exI [of _ "lines @ lines2"]) auto
qed simp

lemma churn_estimator_ok:
  assumes "scrape_ok P e" and "churn_state_ok P cs" and "eb_calculate_churn (hd (es_buckets e))"
  shows "\<exists>e' cs'. to_snapshot fl (churn_cb now) e cs = Inr (e', cs', None) \<and> churn_state_ok P cs'
    \<and> scrape_ok P e' \<and> only_rejects e e'"
proof -
  have e: "estimator_ok (P (es_id e)) e" "es_values_ok e" "es_names_ok e" "es_id e \<noteq> []"
    "\<forall>eb \<in> set (es_buckets e). map_ok (eb_labels eb)" "interval_ok (eb_interval (hd (es_buckets e)))"
    using assms(1) by (simp_all add: scrape_ok_def node_ok_def)
  have hd: "hd (es_buckets e) \<in> set (es_buckets e)" using estimator_okD(1) [OF e(1)] by simp
  obtain e1 ss where t: "to_snapshot fl record_cb e [] = Inr (e1, ss, None)" "\<forall>s \<in> set ss. shown_ok e s"
    "\<forall>s \<in> set ss. snapshot_ok (P (es_id e)) s \<or> \<not> map_ok (sn_labels s)"
    using to_snapshot_ok [OF e(1,2), of fl] by blast
  have "\<exists>cs'. churn_cb now s cs = Inr (cs', None) \<and> churn_state_ok P cs'" if s: "s \<in> set ss" and cs: "churn_state_ok P cs" for s cs
  proof -
    have sh: "shown_ok e s" using t(2) s by blast
    then have "map_ok (sn_labels s)" using e(5) hd by (simp add: shown_ok_def)
    then have "snapshot_ok (P (sn_id s)) s" using t(3) s sh by (auto simp: shown_ok_def)
    moreover have "names_ok s" using sh e(3) hd by (simp add: shown_ok_def names_ok_def es_names_ok_def)
    ultimately obtain cs' where "churn_update cs s now = Inr cs'" "churn_state_ok P cs'"
      using churn_update_state [OF cs, of s now] sh assms(3) e(6) by (auto simp: shown_ok_def)
    then show ?thesis by (simp add: churn_cb_def)
  qed
  then obtain cs' where cs': "run_cb (churn_cb now) ss cs = Inr (cs', None)" "churn_state_ok P cs'"
    using run_cb_pure [of ss "churn_state_ok P" "churn_cb now" cs] assms(2) by blast
  have r: "to_snapshot fl (churn_cb now) e cs = Inr (e1, cs', None)"
    using to_snapshot_run_cb [OF t(1), of "churn_cb now" cs] cs'(1) by simp
  obtain gs where gs: "e1 = e\<lparr>es_group_size := gs\<rparr>" "gs_limit gs = gs_limit (es_group_size e)"
    "gs_size gs = gs_size (es_group_size e)" "estimator_ok (P (es_id e)) e1"
    using to_snapshot_frame [OF r e(1)] by blast
  have "only_rejects e e1" using gs by (auto simp: only_rejects_def)
  then show ?thesis using r cs'(2) scrape_ok_rejects [OF assms(1) gs(1,4)] by blast
qed

lemma churn_estimators_ok:
  assumes "\<forall>e \<in> set es. scrape_ok P e" and "churn_state_ok P cs"
  shows "\<exists>es' cs'. churn_estimators env now es cs = Inr (es', cs') \<and> churn_state_ok P cs'
    \<and> (\<forall>e \<in> set es'. scrape_ok P e) \<and> list_all2 only_rejects es es'"
  using assms
proof (induction es arbitrary: cs)
  case (Cons e es)
  have s: "scrape_ok P e" using Cons.prems(1) by simp
  obtain eb0 ebs where ebs: "es_buckets e = eb0 # ebs"
    using s estimator_okD(1) by (cases "es_buckets e") (auto simp: scrape_ok_def node_ok_def)
  let ?step = "if eb_calculate_churn eb0
      then map_sum id (\<lambda>(e', cs', _). (e', cs')) (to_snapshot (cm_float env) (churn_cb now) e cs) else Inr (e, cs)"
  obtain e1 cs1 where st: "?step = Inr (e1, cs1)" "churn_state_ok P cs1" "scrape_ok P e1" "only_rejects e e1"
  proof (cases "eb_calculate_churn eb0")
    case True
    then show ?thesis using churn_estimator_ok [OF s Cons.prems(2), of "cm_float env" now] ebs that by auto
  qed (use s Cons.prems(2) only_rejects_refl that in auto)
  obtain es' cs' where "churn_estimators env now es cs1 = Inr (es', cs')" "churn_state_ok P cs'"
    "\<forall>e \<in> set es'. scrape_ok P e" "list_all2 only_rejects es es'"
    using Cons.IH [OF _ st(2)] Cons.prems(1) by auto
  then show ?case using ebs st by (intro exI [of _ "e1 # es'"] exI [of _ cs']) simp
qed simp

subsection \<open>Storage nodes\<close>

text \<open>Only messages of the stream are delivered.\<close>

lemma decode_loop_delivers:
  assumes "\<forall>m. GobMessage m \<in> set items \<longrightarrow> map_ok (sn_labels m) \<and> map_ok (sn_sketches m)"
  shows "set (fst (decode_loop (\<lambda>calls s. calls @ [s]) items s st)) \<subseteq> set st \<union> {m. GobMessage m \<in> set items}"
  using assms
proof (induction "\<lambda>(calls :: snapshot list) s. calls @ [s]" items s st rule: decode_loop.induct)
  case (4 msg rest s st)
  have "gob_decode msg (sn_reset s) = msg" using "4.prems" by (intro gob_decode_reset) auto
  then show ?case using "4.hyps" [OF refl] "4.prems" by auto
qed auto

definition node_messages :: "cm_env \<Rightarrow> string \<Rightarrow> snapshot set" where
  "node_messages env node =
     (case cm_get env (node @ ''/clusternative/snapshot'') of
        HttpFailed _ \<Rightarrow> {} | HttpResponse _ items \<Rightarrow> {m. GobMessage m \<in> set items})"

text \<open>Whatever the nodes answer, the messages among it are well-formed, and the schedule loses and invents no call.\<close>

definition nodes_ok :: "(string \<Rightarrow> nat) \<Rightarrow> (string \<Rightarrow> string list) \<Rightarrow> cm_env \<Rightarrow> string list \<Rightarrow> bool" where
  "nodes_ok P G env nodes \<longleftrightarrow> (\<forall>node \<in> set nodes. \<forall>m \<in> node_messages env node. remote_ok P G m)
     \<and> (\<forall>calls. mset (cm_schedule env calls) = mset (concat calls))"

lemma remote_ok_maps: "remote_ok P G m \<Longrightarrow> map_ok (sn_labels m) \<and> map_ok (sn_sketches m)"
  by (simp add: remote_ok_def snapshot_valid_def snapshot_ok_def sketches_ok_def)

lemma fetch_nodes_ok:
  assumes "nodes_ok P G env nodes"
  shows "\<forall>m \<in> set (fst (fetch_nodes env nodes)). remote_ok P G m"
proof -
  have node: "\<forall>m \<in> set (fst (fetch_and_merge (cm_get env) node (\<lambda>calls s. calls @ [s]) [])). remote_ok P G m"
    if n: "node \<in> set nodes" for node
  proof (cases "cm_get env (node @ ''/clusternative/snapshot'')")
    case (HttpResponse code items)
    have m: "\<forall>m. GobMessage m \<in> set items \<longrightarrow> remote_ok P G m"
      using assms n HttpResponse by (auto simp: nodes_ok_def node_messages_def)
    then have "\<forall>m. GobMessage m \<in> set items \<longrightarrow> map_ok (sn_labels m) \<and> map_ok (sn_sketches m)" using remote_ok_maps by blast
    from decode_loop_delivers [OF this, of new_snapshot "[]"] m show ?thesis using HttpResponse
      by (auto simp: fetch_and_merge_def Let_def decode_snapshots_def)
  qed (simp add: fetch_and_merge_def Let_def)
  let ?calls = "map fst (map (\<lambda>url. fetch_and_merge (cm_get env) url (\<lambda>calls s. calls @ [s]) []) nodes)"
  have "set (cm_schedule env ?calls) = set (concat ?calls)"
    using assms unfolding nodes_ok_def by (metis set_mset_mset)
  moreover have "\<forall>m \<in> set (concat ?calls). remote_ok P G m" using node by auto
  ultimately show ?thesis by (simp add: fetch_nodes_def Let_def del: set_concat)
qed

definition values_le :: "nat \<Rightarrow> (u64, snapshot_sketch) gomap \<Rightarrow> bool" where
  "values_le n m \<longleftrightarrow> (\<forall>ss \<in> snd ` set m. length (ss_values ss) \<le> n)"

lemma values_le_update: "values_le n m \<Longrightarrow> length (ss_values g) \<le> n \<Longrightarrow> values_le n (AList.update k g m)"
  using set_snd_update [of k g m] unfolding values_le_def by blast

lemma merge_entry_fit:
  assumes "values_le n m" and "length (ss_values (snd kv)) \<le> n"
  shows "values_le n (merge_entry m kv) \<and> map_keys (merge_entry m kv) = insert (fst kv) (map_keys m)"
proof (cases "map_of m (fst kv)")
  case None
  let ?g = "\<lparr>ss_values = ss_values (snd kv), ss_sketch = ss_sketch (snd kv)\<rparr>"
  have "values_le n (AList.update (fst kv) ?g m)" using assms by (intro values_le_update) simp_all
  then show ?thesis using None map_keys_update [of "fst kv" ?g m] by (simp add: merge_entry_def)
next
  case (Some old)
  then have o: "length (ss_values old) \<le> n" "fst kv \<in> map_keys m"
    using assms(1) map_of_SomeD [OF Some] map_of_in_keys [OF Some] by (force simp: values_le_def)+
  show ?thesis
  proof (cases "sk_merge (ss_sketch old) (Some (ss_sketch (snd kv)))")
    case (Inl err)
    have "insert (fst kv) (map_keys m) = map_keys m" by (rule insert_absorb [OF o(2)])
    then show ?thesis using Inl Some assms(1) by (simp add: merge_entry_def)
  next
    case (Inr sk)
    have "values_le n (AList.update (fst kv) (old\<lparr>ss_sketch := sk\<rparr>) m)" using assms(1) o(1) by (intro values_le_update) simp_all
    then show ?thesis using Inr Some map_keys_update [of "fst kv" "old\<lparr>ss_sketch := sk\<rparr>" m] by (simp add: merge_entry_def)
  qed
qed

lemma merge_entries_fit:
  "values_le n m \<Longrightarrow> values_le n kvs
   \<Longrightarrow> values_le n (foldl merge_entry m kvs) \<and> map_keys (foldl merge_entry m kvs) = map_keys m \<union> map_keys kvs"
proof (induction kvs arbitrary: m)
  case (Cons kv kvs)
  have kv: "length (ss_values (snd kv)) \<le> n" and kvs: "values_le n kvs" using Cons.prems(2) by (simp_all add: values_le_def)
  note m = merge_entry_fit [OF Cons.prems(1) kv]
  from Cons.IH [OF conjunct1 [OF m] kvs] show ?case unfolding conjunct2 [OF m] by simp
qed simp

lemma map_keys_fold_update:
  "map_keys (foldl (\<lambda>m kv. AList.update (fst kv) (snd kv) m) m kvs) = map_keys m \<union> map_keys kvs"
proof (induction kvs arbitrary: m)
  case (Cons kv kvs)
  have "map_keys (AList.update (fst kv) (snd kv) m) = insert (fst kv) (map_keys m)" using map_keys_update by metis
  then show ?case using Cons by auto
qed simp

lemma sn_merge_fit:
  assumes "sn_merge s x = Inr s'" and "s = new_snapshot \<or> remote_fit G s \<and> sn_id s = sn_id x" and "remote_fit G x"
  shows "remote_fit G s'"
proof -
  have s': "sn_sketches s' = foldl merge_entry (sn_sketches s) (sn_sketches x)" "sn_id s' = sn_id x"
    "sn_interval s' = sn_interval x" "sn_group_by s' = sn_group_by x"
    "sn_labels s' = foldl (\<lambda>m kv. AList.update (fst kv) (snd kv) m) (sn_labels s) (sn_labels x)"
    using assms(1) by (auto simp: sn_merge_def split: if_splits)
  let ?n = "length (sn_group_by x)"
  have x: "values_le ?n (sn_sketches x)" "names_ok x"
    "sn_group_by x = [] \<longrightarrow> 0 \<in> map_keys (sn_sketches x)" "interval_ok (sn_interval x)" "sn_group_by x = G (sn_id x)"
    using assms(3) unfolding remote_fit_def values_ok_def values_le_def by blast+
  have s: "values_le ?n (sn_sketches s)" "\<forall>k \<in> map_keys (sn_labels s). CHR 0x0A \<notin> set k"
  proof -
    have "values_le ?n (sn_sketches s) \<and> (\<forall>k \<in> map_keys (sn_labels s). CHR 0x0A \<notin> set k)"
    proof (cases "s = new_snapshot")
      case True
      then show ?thesis by (simp add: new_snapshot_def values_le_def)
    next
      case False
      then have r: "remote_fit G s" "sn_id s = sn_id x" using assms(2) by blast+
      then have "sn_group_by s = sn_group_by x" using x(5) unfolding remote_fit_def by metis
      then show ?thesis using r(1) unfolding remote_fit_def values_ok_def values_le_def names_ok_def by metis
    qed
    then show "values_le ?n (sn_sketches s)" "\<forall>k \<in> map_keys (sn_labels s). CHR 0x0A \<notin> set k" by blast+
  qed
  note m = merge_entries_fit [OF s(1) x(1)]
  have k: "map_keys (sn_labels s') = map_keys (sn_labels s) \<union> map_keys (sn_labels x)"
    unfolding s'(5) by (rule map_keys_fold_update)
  have "names_ok s'" using s(2) x(2) unfolding names_ok_def k s'(4) by blast
  moreover have "values_ok s'" using m unfolding values_ok_def values_le_def s'(1,4) by blast
  moreover have "sn_group_by s' = [] \<longrightarrow> 0 \<in> map_keys (sn_sketches s')" using m x(3) unfolding s'(1,4) by blast
  ultimately show ?thesis using x(4,5) by (simp add: remote_fit_def s'(2-4))
qed

text \<open>The store of a refresh: every snapshot can be written.\<close>

definition store_fit :: "(string \<Rightarrow> string list) \<Rightarrow> snapshots \<Rightarrow> bool" where
  "store_fit G m \<longleftrightarrow> (\<forall>s \<in> snd ` set m. remote_fit G s)"

lemma snapshots_add_fit:
  assumes "snapshots_add m x = Inr m'" and "snapshots_ok P m" and "store_fit G m" and "remote_fit G (sn_with_id x)"
  shows "store_fit G m'"
proof -
  let ?x = "sn_with_id x"
  consider (old) s s' where "map_of m (sn_id ?x) = Some s" "sn_merge s ?x = Inr s'" "m' = AList.update (sn_id ?x) s' m"
    | (new) s' where "sn_merge new_snapshot ?x = Inr s'" "m' = AList.update (sn_id s') s' m"
    using assms(1) by (auto simp: snapshots_add_def Let_def split: option.splits sum.splits)
  then obtain k s' where s': "m' = AList.update k s' m" "remote_fit G s'"
  proof cases
    case old
    have "sn_id s = sn_id ?x" using snapshots_ok_lookup [OF assms(2) old(1)] by simp
    moreover have "remote_fit G s" using assms(3) map_of_SomeD [OF old(1)] by (force simp: store_fit_def)
    ultimately show ?thesis using that old(3) sn_merge_fit [OF old(2) _ assms(4)] by blast
  next
    case new
    then show ?thesis using that sn_merge_fit [OF new(1) _ assms(4)] by blast
  qed
  then show ?thesis using assms(3) set_snd_update [of k s' m] unfolding store_fit_def by blast
qed

lemma store_ok:
  assumes "\<forall>m \<in> set calls. remote_ok P G m"
  shows "\<exists>ss. fold_err snapshots_add [] calls = Inr ss \<and> snapshots_ok P ss \<and> store_fit G ss"
proof -
  have "\<exists>ss. fold_err snapshots_add m calls = Inr ss \<and> snapshots_ok P ss \<and> store_fit G ss"
    if "snapshots_ok P m" "store_fit G m" for m
    using assms that
  proof (induction calls arbitrary: m)
    case (Cons x calls)
    have x: "snapshot_valid P x" "remote_fit G (sn_with_id x)" using Cons.prems(1) by (simp_all add: remote_ok_def)
    obtain m1 where m1: "snapshots_add m x = Inr m1" "snapshots_ok P m1" using snapshots_add_ok [OF Cons.prems(2) x(1)] by blast
    show ?case using Cons.IH [OF _ m1(2) snapshots_add_fit [OF m1(1) Cons.prems(2,3) x(2)]] Cons.prems(1) m1(1) by simp
  qed simp
  then show ?thesis by (simp add: snapshots_ok_def store_fit_def)
qed

lemma churn_remotes_ok:
  assumes "snapshots_ok P ss" and "store_fit G ss" and "churn_state_ok P cs"
  shows "\<exists>cs'. fold_err (churn_remote now) cs ss = Inr cs' \<and> churn_state_ok P cs'"
proof -
  have "\<forall>kv \<in> set ss. sn_id (snd kv) = fst kv \<and> snapshot_ok (P (fst kv)) (snd kv) \<and> remote_fit G (snd kv)"
    using assms(1,2) by (auto simp: snapshots_ok_def store_fit_def)
  then show ?thesis using assms(3)
  proof (induction ss arbitrary: cs)
    case (Cons kv ss)
    have kv: "snapshot_ok (P (sn_id (snd kv))) (snd kv)" "remote_fit G (snd kv)" using Cons.prems(1) by auto
    obtain cs1 where "churn_remote now cs kv = Inr cs1" "churn_state_ok P cs1"
      using churn_update_state [OF Cons.prems(2) kv(1), of now] kv(2) Cons.prems(2)
      by (cases "sn_calculate_churn (snd kv)") (auto simp: churn_remote_def remote_fit_def)
    then show ?case using Cons.IH [of cs1] Cons.prems(1) by simp
  qed simp
qed

lemma write_store_ok:
  assumes "store_fit G ss"
  shows "\<exists>lines. ss_write_metrics ip fl flag collect ss w = Inr (w @ lines, None) \<and> (\<forall>l \<in> set lines. one_line l)"
  using assms
proof (induction ss arbitrary: w)
  case (Cons kv ss)
  obtain i s where kv: "kv = (i, s)" by (cases kv)
  have s: "names_ok s" "values_ok s" "sn_group_by s = [] \<longrightarrow> 0 \<in> map_keys (sn_sketches s)" and ss: "store_fit G ss"
    using Cons.prems kv by (auto simp: store_fit_def remote_fit_def)
  obtain l1 where l1: "sn_write_metrics ip fl flag collect s w = Inr (w @ l1, None)" "\<forall>l \<in> set l1. one_line l"
    using sn_write_lines [OF s] by blast
  obtain l2 where "ss_write_metrics ip fl flag collect ss (w @ l1) = Inr ((w @ l1) @ l2, None)" "\<forall>l \<in> set l2. one_line l"
    using Cons.IH [OF ss] by blast
  then show ?case using kv l1 by (intro exI [of _ "l1 @ l2"]) auto
qed simp

lemma merge_remote_ok:
  assumes "nodes_ok P G env nodes" and "churn_state_ok P cs"
  shows "\<exists>cs' lines. merge_remote env nodes now cs w = Inr (cs', w @ lines) \<and> churn_state_ok P cs' \<and> (\<forall>l \<in> set lines. one_line l)"
proof (cases "nodes = []")
  case False
  obtain calls failed where f: "fetch_nodes env nodes = (calls, failed)" by force
  have "\<forall>m \<in> set calls. remote_ok P G m" using fetch_nodes_ok [OF assms(1)] f by simp
  then obtain ss where ss: "fold_err snapshots_add [] calls = Inr ss" "snapshots_ok P ss" "store_fit G ss"
    using store_ok by blast
  obtain cs' where cs': "(if failed then Inr cs else fold_err (churn_remote now) cs ss) = Inr cs'" "churn_state_ok P cs'"
    using churn_remotes_ok [OF ss(2,3) assms(2)] assms(2) by (cases failed) auto
  obtain lines where "ss_write_metrics (cm_printable env) (cm_float env) (cm_min_cardinality env) collect ss w = Inr (w @ lines, None)"
    "\<forall>l \<in> set lines. one_line l" using write_store_ok [OF ss(3)] by blast
  then show ?thesis using False f ss(1) cs' by (simp add: merge_remote_def)
qed (use assms(2) in \<open>simp add: merge_remote_def\<close>)

subsection \<open>A refresh\<close>

definition cm_ok :: "(string \<Rightarrow> nat) \<Rightarrow> cm_state \<Rightarrow> bool" where
  "cm_ok P st \<longleftrightarrow> churn_state_ok P (cm_churn st) \<and> (\<forall>l \<in> set (cm_cache st). one_line l)"

lemma list_all2_trans_rejects: "list_all2 only_rejects a b \<Longrightarrow> list_all2 only_rejects b c \<Longrightarrow> list_all2 only_rejects a c"
  by (rule list_all2_trans [OF only_rejects_trans])

lemma write_cardinality_ok:
  assumes "\<forall>e \<in> set es. scrape_ok P e" and "nodes_ok P G env nodes" and "cm_ok P st"
  shows "\<exists>es' st' lines. write_cardinality_metrics env es nodes clock st = Inr (es', st', concat lines)
    \<and> (\<forall>l \<in> set lines. one_line l) \<and> cm_ok P st' \<and> (\<forall>e \<in> set es'. scrape_ok P e) \<and> list_all2 only_rejects es es'"
proof (cases "cache_stale env (fst clock) st")
  case False
  have "list_all2 only_rejects es es" by (rule list_all2_refl) (rule only_rejects_refl)
  then show ?thesis using False assms(1,3)
    by (intro exI [of _ es] exI [of _ st] exI [of _ "cm_cache st"]) (simp add: write_cardinality_metrics_def cm_ok_def)
next
  case True
  have cs: "churn_state_ok P (cm_churn st)" using assms(3) by (simp add: cm_ok_def)
  let ?now = "fst (snd clock)" and ?fin = "snd (snd clock)"
  obtain es1 l1 where 1: "write_estimators env es [] = Inr (es1, l1)" "\<forall>l \<in> set l1. one_line l"
    "\<forall>e \<in> set es1. scrape_ok P e" "list_all2 only_rejects es es1"
    using write_estimators_ok [OF assms(1), of env "[]"] by auto
  obtain es2 cs2 where 2: "churn_estimators env ?now es1 (cm_churn st) = Inr (es2, cs2)" "churn_state_ok P cs2"
    "\<forall>e \<in> set es2. scrape_ok P e" "list_all2 only_rejects es1 es2" using churn_estimators_ok [OF 1(3) cs] by blast
  obtain cs3 l3 where 3: "merge_remote env nodes ?now cs2 l1 = Inr (cs3, l1 @ l3)" "churn_state_ok P cs3" "\<forall>l \<in> set l3. one_line l"
    using merge_remote_ok [OF assms(2) 2(2)] by blast
  obtain cs4 where 4: "churn_cleanup cs3 ?now = Inr cs4" "churn_state_ok P cs4" using churn_cleanup_state [OF 3(2)] by blast
  obtain cs5 l5 where 5: "churn_write (cm_printable env) (cm_float env) collect cs4 (l1 @ l3) = Inr (cs5, (l1 @ l3) @ l5, None)"
    "churn_state_ok P cs5" "\<forall>l \<in> set l5. one_line l" using churn_write_state [OF 4(2)] by blast
  let ?st = "\<lparr>cm_churn = cs5, cm_cache = (l1 @ l3) @ l5, cm_cache_at = Some ?fin\<rparr>"
  have "refresh_cardinality env es nodes ?now ?fin st = Inr (es2, ?st)"
    using 1(1) 2(1) 3(1) 4(1) 5(1) by (simp add: refresh_cardinality_def)
  then have "write_cardinality_metrics env es nodes clock st = Inr (es2, ?st, concat ((l1 @ l3) @ l5))"
    using True by (simp add: write_cardinality_metrics_def)
  moreover have "cm_ok P ?st" "\<forall>l \<in> set ((l1 @ l3) @ l5). one_line l" using 1(2) 3(3) 5(2,3) by (auto simp: cm_ok_def)
  ultimately show ?thesis using 2(3) list_all2_trans_rejects [OF 1(4) 2(4)] by blast
qed

text \<open>A scrape never panics and keeps the invariants, with any number of estimators and storage nodes, whatever the nodes
  answer and however the fetches interleave, as long as the messages among the answers are well-formed.  The
  response consists of whole text lines, and the estimators keep everything but their reject sketches.\<close>

theorem scrape_never_panics:
  assumes "\<forall>e \<in> set es. scrape_ok P e" and "nodes_ok P G env nodes" and "cm_ok P st"
  shows "\<exists>es' st' lines. write_cardinality_metrics env es nodes clock st = Inr (es', st', concat lines)
    \<and> (\<forall>l \<in> set lines. one_line l) \<and> cm_ok P st' \<and> (\<forall>e \<in> set es'. scrape_ok P e) \<and> list_all2 only_rejects es es'"
  using assms by (rule write_cardinality_ok)

text \<open>C25: When a fetch fails, what the other nodes sent does not touch the churn: the churn state after the refresh is that of
  a refresh without storage nodes.\<close>

theorem partial_fetch_keeps_churn:
  assumes "refresh_cardinality env es nodes now finished st = Inr (es1, st1)" and "snd (fetch_nodes env nodes)"
  shows "\<exists>st2. refresh_cardinality env es [] now finished st = Inr (es1, st2) \<and> cm_churn st2 = cm_churn st1"
proof -
  have indep: "\<exists>v'. churn_write ip fl collect cs v = Inr (cs', v', err)" if "churn_write ip fl collect cs w = Inr (cs', w', err)"
    for ip fl cs w cs' w' err v
    using that
  proof (induction cs arbitrary: w cs' w' err v)
    case (Cons x cs)
    obtain k e where x: "x = (k, e)" by (cases x)
    obtain rate e1 line where r: "churn_ratio fl e = Inr (rate, e1)" "churn_line ip e1 rate = Inr line"
      using Cons.prems x by (auto split: sum.splits prod.splits)
    have c: "collect w line = (w @ [line], None)" by (simp add: collect_def)
    obtain cs1 where "churn_write ip fl collect cs (w @ [line]) = Inr (cs1, w', err)" "cs' = (k, e1) # cs1"
      using Cons.prems x r c by (auto split: sum.splits)
    moreover from this(1) obtain v' where "churn_write ip fl collect cs (v @ [line]) = Inr (cs1, v', err)" using Cons.IH by blast
    moreover have "collect v line = (v @ [line], None)" by (simp add: collect_def)
    ultimately show ?case using x r by simp
  qed simp
  obtain es' w1 cs2 cs3 w3 cs4 cs5 w5 err where run: "write_estimators env es [] = Inr (es', w1)"
    "churn_estimators env now es' (cm_churn st) = Inr (es1, cs2)" "merge_remote env nodes now cs2 w1 = Inr (cs3, w3)"
    "churn_cleanup cs3 now = Inr cs4" "churn_write (cm_printable env) (cm_float env) collect cs4 w3 = Inr (cs5, w5, err)"
    "cm_churn st1 = cs5"
    using assms(1) by (auto simp: refresh_cardinality_def map_sum_Inr split: sum.splits)
  have "cs3 = cs2"
    using run(3) assms(2) by (auto simp: merge_remote_def map_sum_Inr split: if_splits sum.splits prod.splits)
  moreover obtain v' where "churn_write (cm_printable env) (cm_float env) collect cs4 w1 = Inr (cs5, v', err)"
    using indep [OF run(5)] by blast
  ultimately show ?thesis using run by (simp add: refresh_cardinality_def merge_remote_def)
qed

subsection \<open>Churn of the own streams\<close>

definition churn_within :: "string set \<Rightarrow> churn_snapshots \<Rightarrow> bool" where
  "churn_within I cs \<longleftrightarrow> fst ` map_keys cs \<subseteq> I"

lemma churn_within_update: "churn_within I cs \<Longrightarrow> fst k \<in> I \<Longrightarrow> churn_within I (AList.update k e cs)"
  unfolding churn_within_def map_keys_update by simp

lemma churn_within_delete: "churn_within I cs \<Longrightarrow> churn_within I (AList.delete k cs)"
  unfolding churn_within_def map_keys_delete by blast

lemma churn_update_within:
  assumes "churn_update cs s now = Inr cs'" and "churn_within I cs" and "sn_id s \<in> I"
  shows "churn_within I cs'"
proof -
  have "fold_err (churn_group s now) cs (sn_sketches s) = Inr cs'"
    using assms(1) by (auto simp: churn_update_def split: if_splits)
  then show ?thesis
  proof (rule fold_err_inv [where P = "churn_within I"])
    fix cs kv cs1
    assume g: "churn_group s now cs kv = Inr cs1" and cs: "churn_within I cs"
    obtain e where "cs1 = AList.update (sn_id s, fst kv) e cs"
      using g unfolding churn_group_def Let_def by (auto split: sum.splits)
    then show "churn_within I cs1" using churn_within_update [OF cs] assms(3) by simp
  qed (rule assms(2))
qed

lemma run_churn_Cons:
  "run_cb (churn_cb now) (s # ss) cs =
     (case churn_update cs s now of Inl p \<Rightarrow> Inl p | Inr cs1 \<Rightarrow> run_cb (churn_cb now) ss cs1)"
  by (cases "churn_update cs s now") (simp_all add: churn_cb_def [of now s cs])

lemma run_churn_within:
  "run_cb (churn_cb now) ss cs = Inr (cs', None) \<Longrightarrow> \<forall>s \<in> set ss. sn_id s \<in> I \<Longrightarrow> churn_within I cs \<Longrightarrow> churn_within I cs'"
proof (induction ss arbitrary: cs)
  case (Cons s ss)
  obtain cs1 where "churn_update cs s now = Inr cs1" "run_cb (churn_cb now) ss cs1 = Inr (cs', None)"
    using Cons.prems(1) unfolding run_churn_Cons by (auto split: sum.splits)
  then show ?case using Cons.IH [of cs1] churn_update_within [of cs s now cs1 I] Cons.prems(2,3) by simp
qed simp

lemma churn_estimators_within:
  assumes "churn_estimators env now es cs = Inr (es', cs')" and "\<forall>e \<in> set es. scrape_ok P e \<and> es_id e \<in> I" and "churn_within I cs"
  shows "churn_within I cs'"
  using assms
proof (induction es arbitrary: cs es')
  case (Cons e es)
  have e: "estimator_ok (P (es_id e)) e" "es_values_ok e" using Cons.prems(2) by (simp_all add: scrape_ok_def node_ok_def)
  obtain eb0 ebs e1 cs1 es1 where step: "es_buckets e = eb0 # ebs"
    "(if eb_calculate_churn eb0 then map_sum id (\<lambda>(e', cs', _). (e', cs')) (to_snapshot (cm_float env) (churn_cb now) e cs)
      else Inr (e, cs)) = Inr (e1, cs1)" "churn_estimators env now es cs1 = Inr (es1, cs')"
    using Cons.prems(1) by (auto simp: map_sum_Inr split: list.splits sum.splits if_splits)
  have "churn_within I cs1"
  proof (cases "eb_calculate_churn eb0")
    case True
    obtain e2 ss where ss: "to_snapshot (cm_float env) record_cb e [] = Inr (e2, ss, None)" "\<forall>s \<in> set ss. shown_ok e s"
      using to_snapshot_ok [OF e, of "cm_float env"] by blast
    obtain err where t: "to_snapshot (cm_float env) (churn_cb now) e cs = Inr (e1, cs1, err)"
      using step(2) True by (auto simp: map_sum_Inr)
    note r = to_snapshot_run_cb [OF ss(1), of "churn_cb now" cs]
    have "run_cb (churn_cb now) xs st \<noteq> Inr (st', Some x)" for xs st st' x
    proof (induction xs arbitrary: st)
      case (Cons s xs)
      then show ?case unfolding run_churn_Cons by (simp split: sum.splits)
    qed simp
    then have "run_cb (churn_cb now) ss cs = Inr (cs1, None)" using r t by (auto split: sum.splits option.splits)
    moreover have "\<forall>s \<in> set ss. sn_id s \<in> I" using ss(2) Cons.prems(2) by (simp add: shown_ok_def)
    ultimately show ?thesis using Cons.prems(3) by (rule run_churn_within)
  qed (use step(2) Cons.prems(3) in simp)
  then show ?case using Cons.IH [OF step(3)] Cons.prems(2) by simp
qed simp

lemma churn_cleanup_within:
  assumes "churn_cleanup cs now = Inr cs'" and "churn_within I cs"
  shows "churn_within I cs'"
proof (rule fold_err_inv [OF assms(1) [unfolded churn_cleanup_def], where P = "churn_within I"])
  fix cs kv cs1
  assume step: "(\<lambda>(k, e). case ce_curr e of None \<Rightarrow> Inl NilDeref
      | Some c \<Rightarrow> Inr (if cs_added_at c < now + wrap_i64 (wrap_i64 (- ce_interval e) * 2) then AList.delete k cs else cs)) kv = Inr cs1"
    and cs: "churn_within I cs"
  have "cs1 = cs \<or> (\<exists>k. cs1 = AList.delete k cs)" using step by (auto split: prod.splits option.splits if_splits)
  then show "churn_within I cs1" using cs churn_within_delete by blast
qed (rule assms(2))

lemma churn_write_keys: "churn_write ip fl wr cs w = Inr (cs', r) \<Longrightarrow> map fst cs' = map fst cs"
  by (induction ip fl wr cs w arbitrary: cs' r rule: churn_write.induct) (auto split: sum.splits prod.splits option.splits)

text \<open>A node that asks no storage node knows the churn of its own estimators only.\<close>

lemma write_cardinality_within:
  assumes "write_cardinality_metrics env es [] clock st = Inr (es', st', r)" and "\<forall>e \<in> set es. scrape_ok P e \<and> es_id e \<in> I"
    and "churn_within I (cm_churn st)"
  shows "churn_within I (cm_churn st')"
proof (cases "cache_stale env (fst clock) st")
  case True
  let ?now = "fst (snd clock)"
  obtain es1 w1 cs2 cs4 cs5 w5 err where run: "write_estimators env es [] = Inr (es1, w1)"
    "churn_estimators env ?now es1 (cm_churn st) = Inr (es', cs2)" "churn_cleanup cs2 ?now = Inr cs4"
    "churn_write (cm_printable env) (cm_float env) collect cs4 w1 = Inr (cs5, w5, err)" "cm_churn st' = cs5"
    using assms(1) True
    by (auto simp: write_cardinality_metrics_def refresh_cardinality_def merge_remote_def map_sum_Inr split: sum.splits)
  have s: "\<forall>e \<in> set es. scrape_ok P e" using assms(2) by blast
  obtain es2 lines where w: "write_estimators env es [] = Inr (es2, lines)" "\<forall>e \<in> set es2. scrape_ok P e" "list_all2 only_rejects es es2"
    using write_estimators_ok [OF s, of env "[]"] by auto
  have "map es_id es1 = map es_id es"
    using w(3) run(1) w(1) by (intro nth_equalityI) (auto simp: list_all2_conv_all_nth only_rejects_def)
  then have "es_id ` set es1 = es_id ` set es" by (metis set_map)
  then have "\<forall>e \<in> set es1. scrape_ok P e \<and> es_id e \<in> I" using w(1,2) run(1) assms(2) by (metis Inr_inject Pair_inject image_iff)
  from churn_estimators_within [OF run(2) this assms(3)] have "churn_within I cs4" by (rule churn_cleanup_within [OF run(3)])
  moreover have "map_keys cs5 = map_keys cs4" using churn_write_keys [OF run(4)] by (metis set_map)
  ultimately show ?thesis using run(5) by (simp add: churn_within_def)
qed (use assms in \<open>auto simp: write_cardinality_metrics_def\<close>)

subsection \<open>Concrete instances\<close>

text \<open>One storage node streams a churn snapshot, every other one is down; the fetches run one after the other.\<close>

definition demo_env :: "duration \<Rightarrow> cm_env" where
  "demo_env ttl = \<lparr>cm_printable = (\<lambda>_. True), cm_float = zero_float, cm_min_cardinality = 0, cm_cache_ttl = ttl,
     cm_get = (\<lambda>url. if url = ''http://a/clusternative/snapshot'' then HttpResponse 200 [GobMessage churn_stream, GobEof]
                     else HttpFailed ''connection refused''),
     cm_schedule = concat\<rparr>"

theorem cached_within_ttl_witness:
  "\<exists>st. refresh_cardinality (demo_env 30) [] [''http://b''] 100 101 new_cm_state = Inr ([], st)
    \<and> write_cardinality_metrics (demo_env 30) [] [] (110, 111, 112) st = Inr ([], st, concat (cm_cache st))"
proof -
  have "\<exists>st. refresh_cardinality (demo_env 30) [] [''http://b''] 100 101 new_cm_state = Inr ([], st)"
    by (simp add: refresh_cardinality_def new_cm_state_def new_churn_snapshots_def merge_remote_def fetch_nodes_def
        fetch_and_merge_def demo_env_def churn_cleanup_def)
  then obtain st where st: "refresh_cardinality (demo_env 30) [] [''http://b''] 100 101 new_cm_state = Inr ([], st)" ..
  have h: "cm_cache_ttl (demo_env 30) \<noteq> 0" "fst (110, 111, 112 :: instant) - 101 < cm_cache_ttl (demo_env 30)"
    "cm_cache_ttl (demo_env 30) < 2 ^ 63" "0 \<le> fst (110, 111, 112 :: instant) - (101 :: instant)"
    by (simp_all add: demo_env_def)
  from cached_within_ttl [OF st h] st show ?thesis by blast
qed

theorem invalidate_exact_witness:
  "\<exists>st. churn_update new_churn_snapshots churn_stream 100 = Inr st
    \<and> (\<forall>e. map_of (cm_churn (invalidate_cardinality_cache [(''s'', e)] (new_cm_state\<lparr>cm_churn := st\<rparr>))) (''s'', 7) = None)"
proof -
  obtain st where st: "churn_update new_churn_snapshots churn_stream 100 = Inr st" using churn_stream_update by blast
  have h: "cm_cache_ttl (demo_env 30) < 2 ^ 63" by (simp add: demo_env_def)
  have "map_of (cm_churn (invalidate_cardinality_cache [(''s'', e)] (new_cm_state\<lparr>cm_churn := st\<rparr>))) (''s'', 7) = None" for e
    using invalidate_exact [OF h, of "[(''s'', e)]" "new_cm_state\<lparr>cm_churn := st\<rparr>" 100] by simp
  then show ?thesis using st by blast
qed

lemma churn_stream_remote: "remote_ok (\<lambda>_. 4) (\<lambda>_. [''job'']) churn_stream"
  using churn_stream_ok
  by (simp add: remote_ok_def remote_fit_def snapshot_valid_def sn_with_id_def churn_stream_def names_ok_def new_snapshot_def
      interval_ok_def)

theorem scrape_never_panics_witness:
  "\<exists>e es st lines. new_estimator 2 (\<lambda>_. Inl []) (\<lambda>_. Inl []) (plain_config [''job'']) = Inr e
    \<and> write_cardinality_metrics (demo_env 30) [e] [''http://a'', ''http://b''] (1, 2, 3) new_cm_state = Inr (es, st, concat lines)
    \<and> (\<forall>l \<in> set lines. one_line l)"
proof -
  obtain e where e: "new_estimator 2 (\<lambda>_. Inl []) (\<lambda>_. Inl []) (plain_config [''job'']) = Inr e" "estimator_ok 4 e"
    "es_group_by e = [''job'']" using plain_estimator [of "[''job'']"] by (auto simp: label_keyword_def)
  note v = fresh_values_ok [OF e(1)]
  have id: "es_id e = estimator_id [] [''job''] 300000000000 []"
    using e(1) by (auto simp: new_estimator_def Let_def plain_config_def apply_defaults_def map_sum_Inr
        split: sum.splits option.splits if_splits)
  have iv: "eb_interval (hd (es_buckets e)) = 300000000000"
    using v estimator_okD(1) [OF e(2)] by (simp add: plain_config_def apply_defaults_def)
  have "scrape_ok (\<lambda>_. 4) e"
    using v e(2,3) iv by (simp add: scrape_ok_def node_ok_def id estimator_id_def Let_def plain_config_def map_ok_def es_names_ok_def
        interval_ok_def)
  then have s: "\<forall>e \<in> set [e]. scrape_ok (\<lambda>_. 4) e" by simp
  have n: "nodes_ok (\<lambda>_. 4) (\<lambda>_. [''job'']) (demo_env 30) [''http://a'', ''http://b'']"
    using churn_stream_remote by (simp add: nodes_ok_def node_messages_def demo_env_def)
  have c: "cm_ok (\<lambda>_. 4) new_cm_state" by (simp add: cm_ok_def churn_state_ok_def new_cm_state_def new_churn_snapshots_def churn_ok_def map_ok_def)
  from scrape_never_panics [OF s n c, of "(1, 2, 3)"] e(1) show ?thesis by blast
qed

theorem partial_fetch_keeps_churn_witness:
  "\<exists>st. refresh_cardinality (demo_env 30) [] [] 100 101 new_cm_state = Inr ([], st) \<and> cm_churn st = []"
proof -
  have r: "refresh_cardinality (demo_env 30) [] [''http://b''] 100 101 new_cm_state
      = Inr ([], \<lparr>cm_churn = [], cm_cache = [], cm_cache_at = Some 101\<rparr>)"
    by (simp add: refresh_cardinality_def new_cm_state_def new_churn_snapshots_def merge_remote_def fetch_nodes_def
        fetch_and_merge_def demo_env_def churn_cleanup_def)
  have "snd (fetch_nodes (demo_env 30) [''http://b''])" by (simp add: fetch_nodes_def fetch_and_merge_def demo_env_def)
  from partial_fetch_keeps_churn [OF r this] show ?thesis by simp
qed

end
