(* ===== verification/Deduplicator.thy ===== *)
theory Deduplicator
  imports Filters Go_Float "HOL-Library.Sublist"
begin

section \<open>The deduplicator (\<^verbatim>\<open>deduplicator.go\<close>)\<close>

text \<open>
  In front of the estimators an optional deduplicator drops series it has already passed.  It keeps ten
  bloom filters; a fingerprint belongs to the filter given by its remainder modulo 10, and a rotation on a
  fixed time grid replaces one filter after the other by an empty one.  A filter that holds its maximum of
  items takes no more, and the deduplicator passes everything it does not know.  A bloom filter's words
  are changed by a compare-and-swap that is retried until it succeeds; here an operation is atomic, and the
  interleavings of several requests are in theory \<open>Concurrent_Bloom\<close>.
\<close>

subsection \<open>Bloom filters\<close>

definition hashes_count :: nat where "hashes_count = 4"

definition bits_per_item :: nat where "bits_per_item = 16"

definition bits_words :: "u64 \<Rightarrow> nat" where
  "bits_words max_items = unat ((max_items * of_nat bits_per_item + 63) div 64)"

definition new_bits :: "u64 \<Rightarrow> u64 list" where
  "new_bits max_items = replicate (bits_words max_items) 0"

record bloom =
  bf_size :: int
  bf_bits :: "u64 list"

definition new_bloom :: "int \<Rightarrow> bloom" where
  "new_bloom max_items = \<lparr>bf_size = 0, bf_bits = new_bits (word_of_int max_items)\<rparr>"

text \<open>The word and the mask of the \<open>i\<close>-th probe of a hash.\<close>

definition probe :: "nat \<Rightarrow> u64 \<Rightarrow> u64 \<Rightarrow> u64" where
  "probe len h i = ((h AND 0xFFFFFFFF) + i * drop_bit 32 h) mod (of_nat len * 64)"

definition bit_position :: "u64 list \<Rightarrow> u64 \<Rightarrow> u64 \<Rightarrow> go_panic + nat \<times> u64" where
  "bit_position bits h i =
     (if of_nat (length bits) * (64 :: u64) = 0 then Inl DivideByZero
      else let idx = probe (length bits) h i; w = unat (idx div 64)
           in if w < length bits then Inr (w, push_bit (unat (idx mod 64)) 1) else Inl IndexOutOfRange)"

fun contains_loop :: "u64 list \<Rightarrow> u64 \<Rightarrow> u64 list \<Rightarrow> go_panic + bool" where
  "contains_loop bits h [] = Inr True"
| "contains_loop bits h (i # is) =
     (case bit_position bits h i of
        Inl p \<Rightarrow> Inl p
      | Inr (w, m) \<Rightarrow> if bits ! w AND m = 0 then Inr False else contains_loop bits h is)"

definition bf_contains :: "bloom \<Rightarrow> u64 \<Rightarrow> go_panic + bool" where
  "bf_contains f h = contains_loop (bf_bits f) h (map of_nat [0..<hashes_count])"

definition add_probe :: "u64 \<Rightarrow> u64 list \<times> bool \<Rightarrow> u64 \<Rightarrow> go_panic + u64 list \<times> bool" where
  "add_probe h st i =
     (case bit_position (fst st) h i of
        Inl p \<Rightarrow> Inl p
      | Inr (w, m) \<Rightarrow>
          if fst st ! w AND m = 0 then Inr ((fst st)[w := fst st ! w OR m], True) else Inr st)"

definition bf_add :: "bloom \<Rightarrow> u64 \<Rightarrow> go_panic + bloom \<times> bool" where
  "bf_add f h =
     (case fold_err (add_probe h) (bf_bits f, False) (map of_nat [0..<hashes_count]) of
        Inl p \<Rightarrow> Inl p
      | Inr (bits, is_new) \<Rightarrow>
          Inr (\<lparr>bf_size = bf_size f + (if is_new then 1 else 0), bf_bits = bits\<rparr>, is_new))"

subsection \<open>The deduplicator\<close>

record deduplicator =
  dd_max_size :: int
  dd_interval :: duration
  dd_bucket_max_size :: int
  dd_bfs :: "bloom list"
  dd_passed :: u64
  dd_dropped :: u64

definition dedup_min_max_size :: int where "dedup_min_max_size = 9999"

definition dedup_min_interval :: duration where "dedup_min_interval = 30000000000"

text \<open>
  All filters of a deduplicator have the same size: if the first one can be made, so can the others, and those that
  replace them later.  So the panic of \<^verbatim>\<open>make\<close> in \<^verbatim>\<open>newBits\<close> is modelled here and not in \<open>new_bits\<close>.
\<close>

definition new_deduplicator :: "int \<Rightarrow> duration \<Rightarrow> go_panic + deduplicator" where
  "new_deduplicator max_size interval =
     (if max_size \<le> dedup_min_max_size then Inl (BugPanic ''maxSize must be greater'')
      else if interval \<le> dedup_min_interval then Inl (BugPanic ''interval must be greater'')
      else let bucket_max = go_quot max_size 10
           in if \<not> slice_fits 8 (int (bits_words (word_of_int bucket_max))) then Inl (BugPanic ''makeslice: len out of range'')
           else Inr \<lparr>dd_max_size = max_size, dd_interval = interval, dd_bucket_max_size = bucket_max,
                   dd_bfs = replicate 10 (new_bloom bucket_max), dd_passed = 0, dd_dropped = 0\<rparr>)"

text \<open>One series of \<^verbatim>\<open>filter\<close>; the boolean says whether it passes.\<close>

definition filter_one :: "deduplicator \<Rightarrow> time_serie \<Rightarrow> go_panic + deduplicator \<times> bool" where
  "filter_one d ts =
     (let h = ts_fingerprint ts; j = unat (h mod 10)
      in if length (dd_bfs d) \<le> j then Inl IndexOutOfRange
         else let bf = dd_bfs d ! j
              in case bf_contains bf h of
                   Inl p \<Rightarrow> Inl p
                 | Inr True \<Rightarrow> Inr (d\<lparr>dd_dropped := dd_dropped d + 1\<rparr>, False)
                 | Inr False \<Rightarrow>
                     if bf_size bf < dd_bucket_max_size d
                     then (case bf_add bf h of
                             Inl p \<Rightarrow> Inl p
                           | Inr (bf', _) \<Rightarrow>
                               Inr (d\<lparr>dd_bfs := (dd_bfs d)[j := bf'], dd_passed := dd_passed d + 1\<rparr>, True))
                     else Inr (d\<lparr>dd_passed := dd_passed d + 1\<rparr>, True))"

fun dedup_filter ::
  "deduplicator \<Rightarrow> time_serie list \<Rightarrow> time_serie list \<Rightarrow> go_panic + deduplicator \<times> time_serie list" where
  "dedup_filter d [] dst = Inr (d, dst)"
| "dedup_filter d (ts # src) dst =
     (case filter_one d ts of
        Inl p \<Rightarrow> Inl p
      | Inr (d', pass) \<Rightarrow> dedup_filter d' src (if pass then dst @ [ts] else dst))"

text \<open>
  The write handler calls \<^verbatim>\<open>filter(tss, tss[:0])\<close>: source and destination share their array.  The array is
  explicit here, with the write index \<open>w\<close> and the indices still to be read.
\<close>

fun filter_shared ::
  "deduplicator \<Rightarrow> time_serie list \<Rightarrow> nat \<Rightarrow> nat list \<Rightarrow> go_panic + deduplicator \<times> time_serie list" where
  "filter_shared d arr w [] = Inr (d, take w arr)"
| "filter_shared d arr w (i # is) =
     (case filter_one d (arr ! i) of
        Inl p \<Rightarrow> Inl p
      | Inr (d', pass) \<Rightarrow>
          if pass then filter_shared d' (arr[w := arr ! i]) (Suc w) is else filter_shared d' arr w is)"

definition filter_in_place :: "deduplicator \<Rightarrow> time_serie list \<Rightarrow> go_panic + deduplicator \<times> time_serie list" where
  "filter_in_place d arr = filter_shared d arr 0 [0..<length arr]"

definition dedup_reset :: "deduplicator \<Rightarrow> deduplicator" where
  "dedup_reset d = d\<lparr>dd_bfs := map (\<lambda>_. new_bloom (dd_bucket_max_size d)) (dd_bfs d)\<rparr>"

text \<open>
  \<^verbatim>\<open>runRotation\<close>.  An instant counts nanoseconds since 1970; \<^verbatim>\<open>Truncate\<close> works on the time since year 1.
\<close>

definition unix_epoch :: instant where "unix_epoch = 62135596800000000000"

definition truncate_time :: "instant \<Rightarrow> duration \<Rightarrow> instant" where
  "truncate_time t d = (if d \<le> 0 then t else t - (t + unix_epoch) mod d)"

definition next_boundary :: "instant \<Rightarrow> duration \<Rightarrow> instant" where
  "next_boundary now bucket_dur = truncate_time now bucket_dur + bucket_dur"

definition rotation_index :: "instant \<Rightarrow> duration \<Rightarrow> go_panic + int" where
  "rotation_index boundary bucket_dur =
     (if bucket_dur = 0 then Inl DivideByZero else Inr (go_rem (go_quot boundary bucket_dur) 10))"

definition dedup_rotate :: "deduplicator \<Rightarrow> instant \<Rightarrow> go_panic + deduplicator" where
  "dedup_rotate d boundary =
     (case rotation_index boundary (go_quot (dd_interval d) 10) of
        Inl p \<Rightarrow> Inl p
      | Inr idx \<Rightarrow>
          if 0 \<le> idx \<and> nat idx < length (dd_bfs d)
          then Inr (d\<lparr>dd_bfs := (dd_bfs d)[nat idx := new_bloom (dd_bucket_max_size d)]\<rparr>)
          else Inl IndexOutOfRange)"

subsection \<open>Sizing and start\<close>

definition bytes_to_items :: "int \<Rightarrow> int" where
  "bytes_to_items bytes = go_quot (wrap_i64 (bytes * 8)) (int bits_per_item)"

definition resolve_max_size :: "int \<Rightarrow> int \<Rightarrow> int \<Rightarrow> int" where
  "resolve_max_size max_bytes max_count allowed =
     (let from_bytes = (if max_bytes > 0 then bytes_to_items max_bytes else 0)
      in if from_bytes > 0 \<and> max_count > 0 then min from_bytes max_count
         else if from_bytes > 0 then from_bytes
         else if max_count > 0 then max_count
         else bytes_to_items (f64_trunc (f64 (f64 (of_int allowed) * f64 (1 / 20)))))"

text \<open>The start of the deduplicator in \<^verbatim>\<open>main\<close>: a fatal log message ends the program.\<close>

datatype dedup_start = Disabled | Fatal string | Started deduplicator

definition start_deduplicator :: "duration \<Rightarrow> int \<Rightarrow> go_panic + dedup_start" where
  "start_deduplicator interval max_size =
     (if interval > 0
      then if max_size \<le> dedup_min_max_size then Inr (Fatal ''maxSize must be greater'')
           else if interval < dedup_min_interval then Inr (Fatal ''interval must be greater'')
           else map_sum id Started (new_deduplicator max_size interval)
      else Inr Disabled)"

subsection \<open>A bloom filter is a set of bits\<close>

definition bits_ok :: "u64 list \<Rightarrow> bool" where
  "bits_ok bits \<longleftrightarrow> bits \<noteq> [] \<and> length bits < 2 ^ 58"

definition bits_set :: "u64 list \<Rightarrow> nat set" where
  "bits_set bits = {n. n div 64 < length bits \<and> bit (bits ! (n div 64)) (n mod 64)}"

definition position :: "nat \<Rightarrow> u64 \<Rightarrow> nat \<Rightarrow> nat" where
  "position len h i = unat (probe len h (of_nat i))"

definition positions :: "nat \<Rightarrow> u64 \<Rightarrow> nat set" where
  "positions len h = position len h ` {0..<hashes_count}"

lemma bit_position_ok:
  assumes "bits_ok bits"
  shows "bit_position bits h (of_nat i)
      = Inr (position (length bits) h i div 64, push_bit (position (length bits) h i mod 64) 1)
    \<and> position (length bits) h i div 64 < length bits"
proof -
  let ?n = "position (length bits) h i"
  have len: "0 < length bits" "length bits < 2 ^ 58" using assms by (auto simp: bits_ok_def)
  have u: "unat (of_nat (length bits) * (64 :: u64)) = length bits * 64"
  proof -
    have "unat (of_nat (length bits * 64) :: u64) = length bits * 64"
      using len(2) by (simp add: unat_of_nat take_bit_nat_eq_self del: of_nat_mult)
    then show ?thesis by simp
  qed
  then have nz: "of_nat (length bits) * (64 :: u64) \<noteq> 0" using len(1) by (metis mult_eq_0_iff nat_neq_iff unat_0 zero_neq_numeral)
  have n: "?n < length bits * 64"
    unfolding position_def probe_def using u len(1) by (simp add: unat_mod)
  then have w: "?n div 64 < length bits" by (simp add: less_mult_imp_div_less)
  have "unat (probe (length bits) h (of_nat i) div 64) = ?n div 64"
    "unat (probe (length bits) h (of_nat i) mod 64) = ?n mod 64"
    by (simp_all add: position_def unat_div unat_mod)
  then show ?thesis using nz w by (simp add: bit_position_def Let_def)
qed

lemma masked_bit: "(w AND push_bit k 1 = 0) \<longleftrightarrow> \<not> bit w k" for w :: u64
  by (simp add: bit_iff_and_push_bit_not_eq_0)

lemmas masked_bit_simps = masked_bit masked_bit [simplified]

lemma contains_loop_iff:
  assumes "bits_ok bits"
  shows "contains_loop bits h (map of_nat is) = Inr (\<forall>i \<in> set is. position (length bits) h i \<in> bits_set bits)"
proof (induction "is")
  case (Cons i "is")
  then show ?case using bit_position_ok [OF assms, of h i]
    by (simp add: masked_bit_simps bits_set_def)
qed simp

lemma bits_set_update:
  assumes "n div 64 < length bits"
  shows "bits_set (bits[n div 64 := bits ! (n div 64) OR push_bit (n mod 64) 1]) = insert n (bits_set bits)"
proof -
  have "bit (bits[n div 64 := bits ! (n div 64) OR push_bit (n mod 64) 1] ! (k div 64)) (k mod 64)
      \<longleftrightarrow> k = n \<or> bit (bits ! (k div 64)) (k mod 64)" if "k div 64 < length bits" for k
  proof (cases "k div 64 = n div 64")
    case True
    have "(k mod 64 = n mod 64) \<longleftrightarrow> k = n" using True by (metis div_mult_mod_eq)
    then show ?thesis using True that
      by (auto simp: bit_or_iff bit_exp_iff)
  next
    case False
    then show ?thesis using that by auto
  qed
  then show ?thesis using assms by (auto simp: bits_set_def)
qed

lemma add_probe_ok:
  assumes "bits_ok bits"
  shows "\<exists>bits'. add_probe h (bits, new) (of_nat i) = Inr (bits', new \<or> position (length bits) h i \<notin> bits_set bits)
    \<and> length bits' = length bits \<and> bits_set bits' = insert (position (length bits) h i) (bits_set bits)"
  using bit_position_ok [OF assms, of h i] bits_set_update [of "position (length bits) h i" bits]
  by (auto simp: add_probe_def masked_bit_simps bits_set_def intro!: exI [of _ bits])

lemma add_probes_ok:
  assumes "bits_ok bits"
  shows "\<exists>bits'. fold_err (add_probe h) (bits, new) (map of_nat is)
      = Inr (bits', new \<or> (\<exists>i \<in> set is. position (length bits) h i \<notin> bits_set bits))
    \<and> length bits' = length bits \<and> bits_set bits' = position (length bits) h ` set is \<union> bits_set bits"
  using assms
proof (induction "is" arbitrary: bits new)
  case (Cons i "is")
  obtain b1 where b1: "add_probe h (bits, new) (of_nat i) = Inr (b1, new \<or> position (length bits) h i \<notin> bits_set bits)"
    "length b1 = length bits" "bits_set b1 = insert (position (length bits) h i) (bits_set bits)"
    using add_probe_ok [OF Cons.prems, of h new i] by blast
  have ok: "bits_ok b1" using b1(2) Cons.prems unfolding bits_ok_def by (metis length_0_conv)
  obtain b2 where b2: "fold_err (add_probe h) (b1, new \<or> position (length bits) h i \<notin> bits_set bits) (map of_nat is)
      = Inr (b2, (new \<or> position (length bits) h i \<notin> bits_set bits)
          \<or> (\<exists>i \<in> set is. position (length b1) h i \<notin> bits_set b1))"
    "length b2 = length b1" "bits_set b2 = position (length b1) h ` set is \<union> bits_set b1"
    using Cons.IH [OF ok] by blast
  have "((new \<or> position (length bits) h i \<notin> bits_set bits) \<or> (\<exists>i \<in> set is. position (length b1) h i \<notin> bits_set b1))
      = (new \<or> (\<exists>i \<in> set (i # is). position (length bits) h i \<notin> bits_set bits))"
    using b1(2,3) by (cases "position (length bits) h i \<in> bits_set bits") (auto simp: insert_absorb)
  then show ?case using b1 b2 by (intro exI [of _ b2]) (auto simp: b1)
qed simp

definition has :: "bloom \<Rightarrow> u64 \<Rightarrow> bool" where
  "has f h \<longleftrightarrow> positions (length (bf_bits f)) h \<subseteq> bits_set (bf_bits f)"

text \<open>A filter for \<open>n\<close> items: at least 16 bits per item, and at most four bits set per counted item.\<close>

definition bloom_ok :: "int \<Rightarrow> bloom \<Rightarrow> bool" where
  "bloom_ok n f \<longleftrightarrow> bits_ok (bf_bits f) \<and> 16 * n \<le> 64 * int (length (bf_bits f))
     \<and> finite (bits_set (bf_bits f)) \<and> int (card (bits_set (bf_bits f))) \<le> 4 * bf_size f"

lemma bf_contains_ok: "bloom_ok n f \<Longrightarrow> bf_contains f h = Inr (has f h)"
  by (auto simp: bf_contains_def bloom_ok_def has_def positions_def contains_loop_iff)

lemma bf_add_ok:
  assumes "bloom_ok n f"
  shows "\<exists>f'. bf_add f h = Inr (f', \<not> has f h) \<and> bloom_ok n f' \<and> length (bf_bits f') = length (bf_bits f)
    \<and> bits_set (bf_bits f') = positions (length (bf_bits f)) h \<union> bits_set (bf_bits f)
    \<and> bf_size f' = bf_size f + (if has f h then 0 else 1)"
proof -
  let ?P = "positions (length (bf_bits f)) h"
  have ok: "bits_ok (bf_bits f)" using assms by (simp add: bloom_ok_def)
  obtain bits where b: "fold_err (add_probe h) (bf_bits f, False) (map of_nat [0..<hashes_count])
      = Inr (bits, \<not> has f h)" "length bits = length (bf_bits f)" "bits_set bits = ?P \<union> bits_set (bf_bits f)"
  proof -
    obtain bits where b: "fold_err (add_probe h) (bf_bits f, False) (map of_nat [0..<hashes_count])
        = Inr (bits, \<exists>i \<in> {0..<hashes_count}. position (length (bf_bits f)) h i \<notin> bits_set (bf_bits f))"
      "length bits = length (bf_bits f)" "bits_set bits = ?P \<union> bits_set (bf_bits f)"
      using add_probes_ok [OF ok, of h False "[0..<hashes_count]"] by (auto simp: positions_def)
    moreover have "(\<exists>i \<in> {0..<hashes_count}. position (length (bf_bits f)) h i \<notin> bits_set (bf_bits f)) = (\<not> has f h)"
      unfolding has_def positions_def by blast
    ultimately show ?thesis using that by simp
  qed
  have cardP: "finite ?P" "card ?P \<le> 4"
    using card_image_le [of "{0..<hashes_count}" "position (length (bf_bits f)) h"]
    by (simp_all add: positions_def hashes_count_def)
  have "int (card (?P \<union> bits_set (bf_bits f))) \<le> 4 * (bf_size f + (if has f h then 0 else 1))"
  proof (cases "has f h")
    case True
    then have "?P \<union> bits_set (bf_bits f) = bits_set (bf_bits f)" by (auto simp: has_def)
    then show ?thesis using True assms by (simp add: bloom_ok_def)
  next
    case False
    then show ?thesis using card_Un_le [of ?P "bits_set (bf_bits f)"] cardP(2) assms by (simp add: bloom_ok_def)
  qed
  moreover have "bits_ok bits" using ok b(2) unfolding bits_ok_def by (metis length_0_conv)
  ultimately show ?thesis using b cardP(1) assms
    by (intro exI [of _ "\<lparr>bf_size = bf_size f + (if has f h then 0 else 1), bf_bits = bits\<rparr>"])
      (auto simp: bf_add_def bloom_ok_def)
qed

subsection \<open>Interfaces\<close>

text \<open>
  What the deduplicator needs from a bloom filter: it forgets nothing, an added key is known, and adding
  counts a key unless it was known.
\<close>

locale approx_set =
  fixes ok :: "'f \<Rightarrow> bool" and has :: "'f \<Rightarrow> 'h \<Rightarrow> bool" and put :: "'f \<Rightarrow> 'h \<Rightarrow> 'f" and count :: "'f \<Rightarrow> int"
  assumes put_ok: "ok f \<Longrightarrow> ok (put f h)"
    and has_put: "ok f \<Longrightarrow> has (put f h) h"
    and has_mono: "ok f \<Longrightarrow> has f x \<Longrightarrow> has (put f h) x"
    and count_put: "ok f \<Longrightarrow> count (put f h) = count f + (if has f h then 0 else 1)"
begin

lemma put_known: "ok f \<Longrightarrow> has f h \<Longrightarrow> count (put f h) = count f"
  using count_put by simp

lemma puts_ok: "ok f \<Longrightarrow> ok (foldl put f hs) \<and> (\<forall>x. has f x \<or> x \<in> set hs \<longrightarrow> has (foldl put f hs) x)
    \<and> count f \<le> count (foldl put f hs) \<and> count (foldl put f hs) \<le> count f + int (card (set hs))"
proof (induction hs rule: rev_induct)
  case (snoc h hs)
  let ?g = "foldl put f hs"
  have g: "ok ?g" "\<forall>x. has f x \<or> x \<in> set hs \<longrightarrow> has ?g x" "count f \<le> count ?g"
    "count ?g \<le> count f + int (card (set hs))" using snoc by auto
  have "count (put ?g h) \<le> count f + int (card (set (hs @ [h])))"
  proof (cases "h \<in> set hs")
    case True
    then show ?thesis using count_put [OF g(1), of h] g(2,4) by (auto simp: insert_absorb)
  next
    case False
    then have "card (insert h (set hs)) = Suc (card (set hs))" by simp
    then show ?thesis using count_put [OF g(1), of h] g(4) by auto
  qed
  moreover have "count f \<le> count (put ?g h)" using count_put [OF g(1), of h] g(3) by auto
  moreover have "ok (put ?g h)" "has (put ?g h) h" "\<forall>x. has ?g x \<longrightarrow> has (put ?g h) x"
    using put_ok [OF g(1)] has_put [OF g(1)] has_mono [OF g(1)] by auto
  ultimately show ?case using g(2) by auto
qed simp

end

definition bf_put :: "bloom \<Rightarrow> u64 \<Rightarrow> bloom" where
  "bf_put f h = (case bf_add f h of Inl _ \<Rightarrow> f | Inr (f', _) \<Rightarrow> f')"

interpretation bf: approx_set "bloom_ok n" has bf_put bf_size for n
proof
  fix f :: bloom and h x :: u64 and n :: int
  assume f: "bloom_ok n f"
  obtain f' where f': "bf_add f h = Inr (f', \<not> has f h)" "bloom_ok n f'" "length (bf_bits f') = length (bf_bits f)"
    "bits_set (bf_bits f') = positions (length (bf_bits f)) h \<union> bits_set (bf_bits f)"
    "bf_size f' = bf_size f + (if has f h then 0 else 1)"
    using bf_add_ok [OF f, of h] by blast
  have put: "bf_put f h = f'" by (simp add: bf_put_def f'(1))
  show "bloom_ok n (bf_put f h)" using f'(2) put by simp
  show "has (bf_put f h) h" using f'(3,4) put by (simp add: has_def)
  show "bf_size (bf_put f h) = bf_size f + (if has f h then 0 else 1)" using f'(5) put by simp
  show "has f x \<Longrightarrow> has (bf_put f h) x" using f'(3,4) put by (auto simp: has_def)
qed

text \<open>
  A stream of items is offered to a store that lets an item pass unless its key is known.  While there is
  room, an offered key becomes known; without room the store stays as it is.
\<close>

fun pass_run :: "('s \<Rightarrow> 'x \<Rightarrow> 'e + 's \<times> bool) \<Rightarrow> 's \<Rightarrow> 'x list \<Rightarrow> 'x list \<Rightarrow> 'e + 's \<times> 'x list" where
  "pass_run step s [] dst = Inr (s, dst)"
| "pass_run step s (x # xs) dst =
     (case step s x of Inl e \<Rightarrow> Inl e | Inr (s', pass) \<Rightarrow> pass_run step s' xs (if pass then dst @ [x] else dst))"

locale admission =
  fixes ok :: "'s \<Rightarrow> bool" and seen :: "'s \<Rightarrow> 'h \<Rightarrow> bool" and room :: "'s \<Rightarrow> 'h \<Rightarrow> bool"
    and key :: "'x \<Rightarrow> 'h" and step :: "'s \<Rightarrow> 'x \<Rightarrow> 'e + 's \<times> bool"
  assumes step_ok: "ok s \<Longrightarrow> \<exists>s'. step s x = Inr (s', \<not> seen s (key x)) \<and> ok s' \<and> (\<forall>h. seen s h \<longrightarrow> seen s' h)
    \<and> (\<forall>h. room s' h \<longrightarrow> room s h) \<and> (room s (key x) \<longrightarrow> seen s' (key x))"
begin

abbreviation passes :: "'x list \<Rightarrow> 'h \<Rightarrow> 'x list" where
  "passes out h \<equiv> List.filter (\<lambda>x. key x = h) out"

lemma run_ok:
  "ok s \<Longrightarrow> \<exists>s' out. pass_run step s xs dst = Inr (s', dst @ out) \<and> ok s' \<and> subseq out xs
    \<and> (\<forall>h. seen s h \<longrightarrow> seen s' h) \<and> (\<forall>h. room s' h \<longrightarrow> room s h)
    \<and> (\<forall>h. seen s h \<longrightarrow> passes out h = [])
    \<and> (\<forall>x \<in> set xs. room s' (key x) \<longrightarrow> seen s' (key x))
    \<and> (\<forall>h. room s' h \<longrightarrow> length (passes out h) \<le> 1)
    \<and> (\<forall>h. \<not> seen s' h \<longrightarrow> passes out h = passes xs h)"
proof (induction xs arbitrary: s dst)
  case Nil
  then show ?case by (intro exI [of _ s] exI [of _ "[]"]) simp
next
  case (Cons x xs)
  obtain s1 where s1: "step s x = Inr (s1, \<not> seen s (key x))" "ok s1" "\<forall>h. seen s h \<longrightarrow> seen s1 h"
    "\<forall>h. room s1 h \<longrightarrow> room s h" "room s (key x) \<longrightarrow> seen s1 (key x)"
    using step_ok [OF Cons.prems, of x] by blast
  obtain s' out where r: "pass_run step s1 xs (if \<not> seen s (key x) then dst @ [x] else dst)
      = Inr (s', (if \<not> seen s (key x) then dst @ [x] else dst) @ out)" "ok s'" "subseq out xs"
    "\<forall>h. seen s1 h \<longrightarrow> seen s' h" "\<forall>h. room s' h \<longrightarrow> room s1 h" "\<forall>h. seen s1 h \<longrightarrow> passes out h = []"
    "\<forall>x \<in> set xs. room s' (key x) \<longrightarrow> seen s' (key x)" "\<forall>h. room s' h \<longrightarrow> length (passes out h) \<le> 1"
    "\<forall>h. \<not> seen s' h \<longrightarrow> passes out h = passes xs h"
    using Cons.IH [OF s1(2)] by blast
  show ?case
  proof (cases "seen s (key x)")
    case True
    then show ?thesis using r s1 Cons.prems
      by (intro exI [of _ s'] exI [of _ out]) (auto intro: list_emb_Cons)
  next
    case False
    have once: "length (passes (x # out) h) \<le> 1" if "room s' h" for h
    proof (cases "key x = h")
      case True
      then have "seen s1 h" using that r(5) s1(4,5) by blast
      then show ?thesis using r(6) True by simp
    next
      case False
      then show ?thesis using r(8) that by simp
    qed
    have out: "passes (x # out) h = []" if "seen s h" for h
      using that False s1(3) r(6) by auto
    have all: "passes (x # out) h = passes (x # xs) h" if "\<not> seen s' h" for h
      using that r(9) by simp
    show ?thesis
      using r s1 False once out all Cons.prems by (intro exI [of _ s'] exI [of _ "x # out"]) auto
  qed
qed

end

subsection \<open>Filtering\<close>

definition dedup_ok :: "deduplicator \<Rightarrow> bool" where
  "dedup_ok d \<longleftrightarrow> length (dd_bfs d) = 10 \<and> 0 < dd_bucket_max_size d \<and> 10 * dd_bucket_max_size d \<le> dd_max_size d
     \<and> dd_max_size d < 2 ^ 63 \<and> dedup_min_interval < dd_interval d
     \<and> (\<forall>f \<in> set (dd_bfs d). bloom_ok (dd_bucket_max_size d) f \<and> bf_size f \<le> dd_bucket_max_size d)"

definition own_bf :: "deduplicator \<Rightarrow> u64 \<Rightarrow> bloom" where
  "own_bf d h = dd_bfs d ! unat (h mod 10)"

definition seen :: "deduplicator \<Rightarrow> u64 \<Rightarrow> bool" where
  "seen d h \<longleftrightarrow> has (own_bf d h) h"

definition room :: "deduplicator \<Rightarrow> u64 \<Rightarrow> bool" where
  "room d h \<longleftrightarrow> bf_size (own_bf d h) < dd_bucket_max_size d"

lemma own_index_bound: "unat (h mod 10 :: u64) < 10"
  using unat_mod_less [of "10 :: u64" h] by simp

lemma filter_one_ok:
  assumes "dedup_ok d"
  shows "\<exists>d'. filter_one d ts = Inr (d', \<not> seen d (ts_fingerprint ts)) \<and> dedup_ok d'
    \<and> dd_max_size d' = dd_max_size d \<and> dd_interval d' = dd_interval d \<and> dd_bucket_max_size d' = dd_bucket_max_size d
    \<and> (if \<not> seen d (ts_fingerprint ts) \<and> room d (ts_fingerprint ts)
       then dd_bfs d' = (dd_bfs d)[unat (ts_fingerprint ts mod 10) := bf_put (own_bf d (ts_fingerprint ts)) (ts_fingerprint ts)]
       else dd_bfs d' = dd_bfs d)"
proof -
  let ?h = "ts_fingerprint ts"
  let ?j = "unat (?h mod 10)"
  have j: "?j < length (dd_bfs d)" using assms own_index_bound by (simp add: dedup_ok_def)
  have bf: "bloom_ok (dd_bucket_max_size d) (own_bf d ?h)" "bf_size (own_bf d ?h) \<le> dd_bucket_max_size d"
    using assms j nth_mem [OF j] by (auto simp: dedup_ok_def own_bf_def)
  obtain f' where f': "bf_add (own_bf d ?h) ?h = Inr (f', \<not> has (own_bf d ?h) ?h)"
    using bf_add_ok [OF bf(1), of ?h] by blast
  have put: "bf_put (own_bf d ?h) ?h = f'" using f' by (simp add: bf_put_def)
  show ?thesis
  proof (cases "\<not> seen d ?h \<and> room d ?h")
    case True
    have "bf_size f' \<le> dd_bucket_max_size d"
      using bf.count_put [OF bf(1), of ?h] True by (simp add: put seen_def room_def)
    moreover have "bloom_ok (dd_bucket_max_size d) f'" using bf.put_ok [OF bf(1), of ?h] by (simp add: put)
    ultimately have "\<forall>f \<in> set ((dd_bfs d)[?j := f']). bloom_ok (dd_bucket_max_size d) f \<and> bf_size f \<le> dd_bucket_max_size d"
      using assms by (intro ball_list_update) (auto simp: dedup_ok_def)
    then show ?thesis using True j f' put assms bf_contains_ok [OF bf(1), of ?h]
      by (auto simp: filter_one_def Let_def seen_def room_def own_bf_def dedup_ok_def)
  next
    case False
    then show ?thesis using j assms bf_contains_ok [OF bf(1), of ?h]
      by (cases "has (own_bf d ?h) ?h")
        (auto simp: filter_one_def Let_def seen_def room_def own_bf_def dedup_ok_def)
  qed
qed

lemma own_bf_update:
  fixes h :: u64
  assumes "length (dd_bfs d) = 10" and "dd_bfs d' = (dd_bfs d)[unat (h mod 10) := g]"
  shows "own_bf d' x = (if unat (x mod 10) = unat (h mod 10) then g else own_bf d x)"
  using assms own_index_bound [of h] by (simp add: own_bf_def nth_list_update)

interpretation dedup: admission dedup_ok seen room ts_fingerprint filter_one
proof
  fix d and ts :: time_serie
  assume d: "dedup_ok d"
  let ?h = "ts_fingerprint ts"
  obtain d' where d': "filter_one d ts = Inr (d', \<not> seen d ?h)" "dedup_ok d'"
    "dd_bucket_max_size d' = dd_bucket_max_size d"
    "if \<not> seen d ?h \<and> room d ?h then dd_bfs d' = (dd_bfs d)[unat (?h mod 10) := bf_put (own_bf d ?h) ?h]
     else dd_bfs d' = dd_bfs d" using filter_one_ok [OF d, of ts] by blast
  have len: "length (dd_bfs d) = 10" using d by (simp add: dedup_ok_def)
  then have "unat (?h mod 10) < length (dd_bfs d)" using own_index_bound by simp
  then have bf: "bloom_ok (dd_bucket_max_size d) (own_bf d ?h)"
    using d nth_mem by (fastforce simp: dedup_ok_def own_bf_def)
  have "(\<forall>h. seen d h \<longrightarrow> seen d' h) \<and> (\<forall>h. room d' h \<longrightarrow> room d h) \<and> (room d ?h \<longrightarrow> seen d' ?h)"
  proof (cases "\<not> seen d ?h \<and> room d ?h")
    case True
    then have u: "own_bf d' x = (if unat (x mod 10) = unat (?h mod 10) then bf_put (own_bf d ?h) ?h else own_bf d x)" for x
      using own_bf_update [OF len, of d' ?h "bf_put (own_bf d ?h) ?h" x] d'(4) True by simp
    have "seen d x \<longrightarrow> seen d' x" for x
    proof (cases "unat (x mod 10) = unat (?h mod 10)")
      case same: True
      then have "own_bf d x = own_bf d ?h" by (simp add: own_bf_def)
      then show ?thesis using bf.has_mono [OF bf, of x ?h] u [of x] same by (simp add: seen_def)
    qed (use u in \<open>simp add: seen_def\<close>)
    moreover have "room d' x \<longrightarrow> room d x" for x
    proof (cases "unat (x mod 10) = unat (?h mod 10)")
      case same: True
      then have "own_bf d x = own_bf d ?h" by (simp add: own_bf_def)
      then show ?thesis using bf.count_put [OF bf, of ?h] u [of x] same d'(3) True by (simp add: room_def seen_def)
    qed (use u d'(3) in \<open>simp add: room_def\<close>)
    moreover have "seen d' ?h" using bf.has_put [OF bf, of ?h] u [of ?h] by (simp add: seen_def)
    ultimately show ?thesis by blast
  next
    case False
    then show ?thesis using d'(3,4) by (auto simp: seen_def room_def own_bf_def)
  qed
  then show "\<exists>s'. filter_one d ts = Inr (s', \<not> seen d ?h) \<and> dedup_ok s' \<and> (\<forall>h. seen d h \<longrightarrow> seen s' h)
      \<and> (\<forall>h. room s' h \<longrightarrow> room d h) \<and> (room d ?h \<longrightarrow> seen s' ?h)"
    using d'(1,2) by blast
qed

lemma dedup_filter_run: "dedup_filter d src dst = pass_run filter_one d src dst"
  by (induction d src dst rule: dedup_filter.induct) (auto split: sum.splits)

subsection \<open>Sharing the array\<close>

lemma filter_shared_run:
  "w \<le> i \<Longrightarrow> i \<le> length arr
   \<Longrightarrow> filter_shared d arr w [i..<length arr] = dedup_filter d (drop i arr) (take w arr)"
proof (induction "length arr - i" arbitrary: d arr w i)
  case (Suc n)
  then have i: "i < length arr" by simp
  have u: "[i..<length arr] = i # [Suc i..<length arr]" using i by (rule upt_conv_Cons)
  have dr: "drop i arr = arr ! i # drop (Suc i) arr" using i by (rule Cons_nth_drop_Suc [symmetric])
  show ?case
  proof (cases "filter_one d (arr ! i)")
    case (Inr r)
    obtain d' pass where r: "r = (d', pass)" by force
    show ?thesis
    proof (cases pass)
      case True
      let ?a = "arr[w := arr ! i]"
      have w: "w < length arr" using Suc.prems i by simp
      have "filter_shared d' ?a (Suc w) [Suc i..<length ?a] = dedup_filter d' (drop (Suc i) ?a) (take (Suc w) ?a)"
        using Suc.hyps(2) Suc.prems i by (intro Suc.hyps(1)) auto
      moreover have "drop (Suc i) ?a = drop (Suc i) arr" using Suc.prems by simp
      moreover have "take (Suc w) ?a = take w arr @ [arr ! i]" using w by (simp add: take_Suc_conv_app_nth)
      ultimately show ?thesis using Inr r True u dr by simp
    next
      case False
      have "filter_shared d' arr w [Suc i..<length arr] = dedup_filter d' (drop (Suc i) arr) (take w arr)"
        using Suc.hyps(2) Suc.prems i by (intro Suc.hyps(1)) auto
      then show ?thesis using Inr r False u dr by simp
    qed
  qed (simp add: u dr)
qed simp

text \<open>Filtering a batch into its own array, as the write handler does, gives the same series and the same
  filters as filtering into a fresh slice: no series is read after it was overwritten.\<close>

lemma filter_in_place_is_filter: "filter_in_place d src = dedup_filter d src []"
  using filter_shared_run [of 0 0 src d] by (simp add: filter_in_place_def)

subsection \<open>Runs\<close>

datatype dedup_event = Offer "time_serie list" | Tick instant | Forget

fun dedup_step :: "deduplicator \<Rightarrow> dedup_event \<Rightarrow> go_panic + deduplicator \<times> time_serie list" where
  "dedup_step d (Offer tss) = filter_in_place d tss"
| "dedup_step d (Tick b) = map_sum id (\<lambda>d'. (d', [])) (dedup_rotate d b)"
| "dedup_step d Forget = Inr (dedup_reset d, [])"

fun dedup_run :: "deduplicator \<Rightarrow> dedup_event list \<Rightarrow> go_panic + deduplicator \<times> time_serie list" where
  "dedup_run d [] = Inr (d, [])"
| "dedup_run d (ev # evs) =
     (case dedup_step d ev of
        Inl p \<Rightarrow> Inl p
      | Inr (d1, out) \<Rightarrow>
          (case dedup_run d1 evs of Inl p \<Rightarrow> Inl p | Inr (d2, rest) \<Rightarrow> Inr (d2, out @ rest)))"

fun offered :: "dedup_event list \<Rightarrow> time_serie list" where
  "offered [] = []"
| "offered (Offer tss # evs) = tss @ offered evs"
| "offered (_ # evs) = offered evs"

text \<open>A tick after 1970, and the events that empty the filter of a fingerprint.\<close>

fun valid_event :: "dedup_event \<Rightarrow> bool" where
  "valid_event (Tick b) \<longleftrightarrow> 0 \<le> b"
| "valid_event _ \<longleftrightarrow> True"

fun clears :: "duration \<Rightarrow> u64 \<Rightarrow> dedup_event \<Rightarrow> bool" where
  "clears iv h (Offer _) \<longleftrightarrow> False"
| "clears iv h (Tick b) \<longleftrightarrow> rotation_index b (go_quot iv 10) = Inr (int (unat (h mod 10)))"
| "clears iv h Forget \<longleftrightarrow> True"

abbreviation passes_of :: "u64 \<Rightarrow> time_serie list \<Rightarrow> time_serie list" where
  "passes_of h tss \<equiv> List.filter (\<lambda>ts. ts_fingerprint ts = h) tss"

lemma length_new_bits:
  assumes "0 \<le> n" and "10 * n < 2 ^ 63"
  shows "int (length (bf_bits (new_bloom n))) = (n * 16 + 63) div 64"
proof -
  have "(word_of_int n :: u64) * of_nat bits_per_item + 63 = word_of_int (n * 16 + 63)"
    by (simp add: bits_per_item_def)
  moreover have "uint (word_of_int (n * 16 + 63) :: u64) = n * 16 + 63"
    using assms by (simp add: uint_word_of_int del: of_int_add of_int_mult)
  ultimately show ?thesis using assms
    by (simp add: new_bloom_def new_bits_def bits_words_def uint_div_distrib flip: uint_nat)
qed

lemma new_bloom_ok:
  assumes "0 < n" and "10 * n < 2 ^ 63"
  shows "bloom_ok n (new_bloom n) \<and> bf_size (new_bloom n) = 0 \<and> bits_set (bf_bits (new_bloom n)) = {}"
proof -
  let ?f = "new_bloom n"
  have len: "int (length (bf_bits ?f)) = (n * 16 + 63) div 64" using length_new_bits assms by simp
  have zero: "bits_set (bf_bits ?f) = {}" by (auto simp: bits_set_def new_bloom_def new_bits_def)
  have "16 * n \<le> 64 * int (length (bf_bits ?f))" "0 < int (length (bf_bits ?f))" "int (length (bf_bits ?f)) < 2 ^ 58"
    using len assms by simp_all
  moreover from this(3) have "length (bf_bits ?f) < 2 ^ 58" by simp
  moreover have "bf_size ?f = 0" by (simp add: new_bloom_def)
  ultimately show ?thesis using zero by (auto simp: bloom_ok_def bits_ok_def)
qed

lemma empty_bloom_has_nothing:
  assumes "0 < n" and "10 * n < 2 ^ 63" shows "\<not> has (new_bloom n) h"
  using new_bloom_ok [OF assms] by (auto simp: has_def positions_def hashes_count_def)

text \<open>The largest number of items for whose filters there is room in the address space.\<close>

definition max_items :: int where "max_items = 10 * 2 ^ 47 + 9"

lemma bits_fit:
  assumes "0 \<le> max_size" and "max_size < 2 ^ 63"
  shows "slice_fits 8 (int (bits_words (word_of_int (go_quot max_size 10)))) \<longleftrightarrow> max_size \<le> max_items"
proof -
  let ?n = "max_size div 10"
  have n: "0 \<le> ?n" "10 * ?n < 2 ^ 63" using assms by simp_all
  have "int (bits_words (word_of_int ?n)) = (?n * 16 + 63) div 64"
    using length_new_bits [OF n] by (simp add: new_bloom_def new_bits_def)
  moreover have "(?n * 16 + 63) div 64 \<le> 2 ^ 45 \<longleftrightarrow> ?n \<le> 2 ^ 47" by simp linarith
  moreover have "?n \<le> 2 ^ 47 \<longleftrightarrow> max_size \<le> max_items" unfolding max_items_def by linarith
  moreover have "0 \<le> (?n * 16 + 63) div 64" using n(1) by simp
  ultimately show ?thesis using assms(1) by (simp add: slice_fits_def go_quot_nonneg)
qed

lemma new_deduplicator_result:
  assumes "new_deduplicator max_size iv = Inr d" and "max_size < 2 ^ 63"
  shows "dedup_min_max_size < max_size" "dedup_min_interval < iv" "max_size \<le> max_items"
    "dedup_ok d" "dd_max_size d = max_size" "dd_interval d = iv"
    "dd_bucket_max_size d = max_size div 10" "dd_bfs d = replicate 10 (new_bloom (max_size div 10))"
proof -
  show m: "dedup_min_max_size < max_size" "dedup_min_interval < iv"
    using assms(1) by (auto simp: new_deduplicator_def split: if_splits)
  then have "0 \<le> max_size" by (simp add: dedup_min_max_size_def)
  with bits_fit [OF _ assms(2)] m assms(1) show "max_size \<le> max_items"
    by (auto simp: new_deduplicator_def Let_def split: if_splits)
  have b: "0 < max_size div 10" "10 * (max_size div 10) < 2 ^ 63" "10 * (max_size div 10) \<le> max_size"
    using m assms by (simp_all add: dedup_min_max_size_def)
  show "dedup_ok d" "dd_max_size d = max_size" "dd_interval d = iv"
    "dd_bucket_max_size d = max_size div 10" "dd_bfs d = replicate 10 (new_bloom (max_size div 10))"
    using assms m new_bloom_ok [OF b(1,2)] b
    by (auto simp: new_deduplicator_def Let_def dedup_ok_def go_quot_nonneg dedup_min_max_size_def split: if_splits)
qed

lemma new_deduplicator_ok:
  assumes "dedup_min_max_size < max_size" and "max_size \<le> max_items" and "dedup_min_interval < iv"
  shows "\<exists>d. new_deduplicator max_size iv = Inr d \<and> dedup_ok d \<and> dd_max_size d = max_size \<and> dd_interval d = iv
    \<and> dd_bucket_max_size d = max_size div 10 \<and> dd_bfs d = replicate 10 (new_bloom (max_size div 10))"
proof -
  have m: "0 \<le> max_size" "max_size < 2 ^ 63" using assms(1,2) by (simp_all add: dedup_min_max_size_def max_items_def)
  obtain d where d: "new_deduplicator max_size iv = Inr d"
    using assms bits_fit [OF m] by (simp add: new_deduplicator_def Let_def)
  from new_deduplicator_result [OF d m(2)] d show ?thesis by blast
qed

lemma new_deduplicator_too_large:
  assumes "dedup_min_max_size < max_size" and "max_items < max_size" and "max_size < 2 ^ 63" and "dedup_min_interval < iv"
  shows "new_deduplicator max_size iv = Inl (BugPanic ''makeslice: len out of range'')"
  using assms bits_fit [of max_size] by (simp add: new_deduplicator_def Let_def dedup_min_max_size_def)

lemma bucket_max_bounds: "dedup_ok d \<Longrightarrow> 0 < dd_bucket_max_size d \<and> 10 * dd_bucket_max_size d < 2 ^ 63"
  by (auto simp: dedup_ok_def)

lemma rotation_index_ok:
  assumes "0 \<le> b" and "dedup_min_interval < iv"
  shows "rotation_index b (go_quot iv 10) = Inr ((b div (iv div 10)) mod 10)"
proof -
  have "0 < iv div 10" "go_quot iv 10 = iv div 10" using assms(2) by (simp_all add: dedup_min_interval_def go_quot_nonneg)
  then show ?thesis using assms(1)
    by (simp add: rotation_index_def go_quot_nonneg go_rem_nonneg pos_imp_zdiv_nonneg_iff)
qed

text \<open>Replacing filters by empty ones.\<close>

lemma cleared_ok:
  assumes "dedup_ok d" and "length bfs = 10" and "\<forall>f \<in> set bfs. f \<in> set (dd_bfs d) \<or> f = new_bloom (dd_bucket_max_size d)"
  shows "dedup_ok (d\<lparr>dd_bfs := bfs\<rparr>)"
  using assms new_bloom_ok [of "dd_bucket_max_size d"] bucket_max_bounds [OF assms(1)]
  by (auto simp: dedup_ok_def)

lemma dedup_rotate_ok:
  assumes "dedup_ok d" and "0 \<le> b"
  shows "\<exists>d'. dedup_rotate d b = Inr d' \<and> dedup_ok d'
    \<and> d' = d\<lparr>dd_bfs := (dd_bfs d)[nat ((b div (dd_interval d div 10)) mod 10) := new_bloom (dd_bucket_max_size d)]\<rparr>"
proof -
  let ?i = "(b div (dd_interval d div 10)) mod 10"
  have i: "rotation_index b (go_quot (dd_interval d) 10) = Inr ?i" "0 \<le> ?i" "?i < 10"
    using rotation_index_ok [OF assms(2)] assms(1) by (simp_all add: dedup_ok_def)
  have len: "length (dd_bfs d) = 10" using assms(1) by (simp add: dedup_ok_def)
  have "dedup_ok (d\<lparr>dd_bfs := (dd_bfs d)[nat ?i := new_bloom (dd_bucket_max_size d)]\<rparr>)"
    using len by (intro cleared_ok [OF assms(1)]) (auto dest: subsetD [OF set_update_subset_insert])
  then show ?thesis using i len by (simp add: dedup_rotate_def)
qed

lemma dedup_reset_ok: "dedup_ok d \<Longrightarrow> dedup_ok (dedup_reset d)"
  unfolding dedup_reset_def by (rule cleared_ok) (auto simp: dedup_ok_def)

lemma dedup_step_ok:
  assumes "dedup_ok d" and "valid_event ev"
  shows "\<exists>d' out. dedup_step d ev = Inr (d', out) \<and> dedup_ok d' \<and> dd_interval d' = dd_interval d
    \<and> dd_max_size d' = dd_max_size d \<and> dd_bucket_max_size d' = dd_bucket_max_size d
    \<and> (\<not> clears (dd_interval d) h ev \<longrightarrow>
         (seen d h \<longrightarrow> seen d' h) \<and> (room d' h \<longrightarrow> room d h) \<and> (seen d h \<longrightarrow> passes_of h out = [])
         \<and> (room d' h \<and> passes_of h (offered [ev]) \<noteq> [] \<longrightarrow> seen d' h)
         \<and> (room d' h \<longrightarrow> length (passes_of h out) \<le> 1)
         \<and> (\<not> seen d' h \<longrightarrow> passes_of h out = passes_of h (offered [ev])))"
proof (cases ev)
  case (Offer tss)
  have same: "dd_interval d' = dd_interval d \<and> dd_max_size d' = dd_max_size d \<and> dd_bucket_max_size d' = dd_bucket_max_size d"
    if "pass_run filter_one d tss dst = Inr (d', out)" for d' dst out
    using assms(1) that
  proof (induction tss arbitrary: d dst)
    case (Cons ts tss)
    obtain d1 where "filter_one d ts = Inr (d1, \<not> seen d (ts_fingerprint ts))" "dedup_ok d1"
      "dd_max_size d1 = dd_max_size d" "dd_interval d1 = dd_interval d" "dd_bucket_max_size d1 = dd_bucket_max_size d"
      using filter_one_ok [OF Cons.prems(1), of ts] by blast
    then show ?case using Cons.IH [of d1] Cons.prems(2) by auto
  qed simp
  obtain d' out where r: "pass_run filter_one d tss [] = Inr (d', out)" "dedup_ok d'"
    "\<forall>h. seen d h \<longrightarrow> seen d' h" "\<forall>h. room d' h \<longrightarrow> room d h" "\<forall>h. seen d h \<longrightarrow> passes_of h out = []"
    "\<forall>ts \<in> set tss. room d' (ts_fingerprint ts) \<longrightarrow> seen d' (ts_fingerprint ts)"
    "\<forall>h. room d' h \<longrightarrow> length (passes_of h out) \<le> 1"
    "\<forall>h. \<not> seen d' h \<longrightarrow> passes_of h out = passes_of h tss"
    using dedup.run_ok [OF assms(1), of tss "[]"] by auto
  have "passes_of h tss \<noteq> [] \<Longrightarrow> room d' h \<Longrightarrow> seen d' h"
    using r(6) by (auto simp: filter_empty_conv)
  then show ?thesis using r same [OF r(1)] Offer
    by (auto simp: filter_in_place_is_filter dedup_filter_run)
next
  case (Tick b)
  let ?i = "(b div (dd_interval d div 10)) mod 10"
  have b: "0 \<le> b" using assms(2) Tick by simp
  obtain d' where d': "dedup_rotate d b = Inr d'" "dedup_ok d'"
    "d' = d\<lparr>dd_bfs := (dd_bfs d)[nat ?i := new_bloom (dd_bucket_max_size d)]\<rparr>"
    using dedup_rotate_ok [OF assms(1) b] by blast
  have "rotation_index b (go_quot (dd_interval d) 10) = Inr ?i"
    using rotation_index_ok [OF b] assms(1) by (simp add: dedup_ok_def)
  then have "nat ?i \<noteq> unat (h mod 10)" if "\<not> clears (dd_interval d) h ev"
    using that Tick by (metis clears.simps(2) int_nat_eq mod_by_0 pos_mod_sign zero_less_numeral)
  then have "own_bf d' h = own_bf d h" if "\<not> clears (dd_interval d) h ev"
    using that d'(3) by (simp add: own_bf_def)
  then show ?thesis using d' Tick by (auto simp: seen_def room_def)
next
  case Forget
  then show ?thesis using dedup_reset_ok [OF assms(1)] by (auto simp: dedup_reset_def)
qed

lemma dedup_run_ok:
  assumes "dedup_ok d" and "\<forall>ev \<in> set evs. valid_event ev"
  shows "\<exists>d' out. dedup_run d evs = Inr (d', out) \<and> dedup_ok d' \<and> dd_interval d' = dd_interval d
    \<and> dd_max_size d' = dd_max_size d \<and> dd_bucket_max_size d' = dd_bucket_max_size d
    \<and> ((\<forall>ev \<in> set evs. \<not> clears (dd_interval d) h ev) \<longrightarrow>
         (seen d h \<longrightarrow> seen d' h) \<and> (room d' h \<longrightarrow> room d h) \<and> (seen d h \<longrightarrow> passes_of h out = [])
         \<and> (room d' h \<and> passes_of h (offered evs) \<noteq> [] \<longrightarrow> seen d' h)
         \<and> (room d' h \<longrightarrow> length (passes_of h out) \<le> 1)
         \<and> (\<not> seen d' h \<longrightarrow> passes_of h out = passes_of h (offered evs)))"
  using assms
proof (induction evs arbitrary: d)
  case (Cons ev evs)
  have v: "valid_event ev" "\<forall>ev \<in> set evs. valid_event ev" using Cons.prems(2) by auto
  obtain d1 out1 where s: "dedup_step d ev = Inr (d1, out1)" "dedup_ok d1" "dd_interval d1 = dd_interval d"
    "dd_max_size d1 = dd_max_size d" "dd_bucket_max_size d1 = dd_bucket_max_size d"
    "\<not> clears (dd_interval d) h ev \<longrightarrow>
         (seen d h \<longrightarrow> seen d1 h) \<and> (room d1 h \<longrightarrow> room d h) \<and> (seen d h \<longrightarrow> passes_of h out1 = [])
         \<and> (room d1 h \<and> passes_of h (offered [ev]) \<noteq> [] \<longrightarrow> seen d1 h)
         \<and> (room d1 h \<longrightarrow> length (passes_of h out1) \<le> 1)
         \<and> (\<not> seen d1 h \<longrightarrow> passes_of h out1 = passes_of h (offered [ev]))"
    using dedup_step_ok [OF Cons.prems(1) v(1), of h] by blast
  obtain d' out where r: "dedup_run d1 evs = Inr (d', out)" "dedup_ok d'" "dd_interval d' = dd_interval d1"
    "dd_max_size d' = dd_max_size d1" "dd_bucket_max_size d' = dd_bucket_max_size d1"
    "(\<forall>ev \<in> set evs. \<not> clears (dd_interval d1) h ev) \<longrightarrow>
         (seen d1 h \<longrightarrow> seen d' h) \<and> (room d' h \<longrightarrow> room d1 h) \<and> (seen d1 h \<longrightarrow> passes_of h out = [])
         \<and> (room d' h \<and> passes_of h (offered evs) \<noteq> [] \<longrightarrow> seen d' h)
         \<and> (room d' h \<longrightarrow> length (passes_of h out) \<le> 1)
         \<and> (\<not> seen d' h \<longrightarrow> passes_of h out = passes_of h (offered evs))"
    using Cons.IH [OF s(2) v(2)] by blast
  have off: "passes_of h (offered (ev # evs)) = passes_of h (offered [ev]) @ passes_of h (offered evs)"
    by (cases ev) simp_all
  have "(seen d h \<longrightarrow> seen d' h) \<and> (room d' h \<longrightarrow> room d h) \<and> (seen d h \<longrightarrow> passes_of h (out1 @ out) = [])
         \<and> (room d' h \<and> passes_of h (offered (ev # evs)) \<noteq> [] \<longrightarrow> seen d' h)
         \<and> (room d' h \<longrightarrow> length (passes_of h (out1 @ out)) \<le> 1)
         \<and> (\<not> seen d' h \<longrightarrow> passes_of h (out1 @ out) = passes_of h (offered (ev # evs)))"
    if n: "\<forall>ev \<in> set (ev # evs). \<not> clears (dd_interval d) h ev"
  proof -
    have A: "seen d h \<longrightarrow> seen d1 h" "room d1 h \<longrightarrow> room d h" "seen d h \<longrightarrow> passes_of h out1 = []"
      "room d1 h \<and> passes_of h (offered [ev]) \<noteq> [] \<longrightarrow> seen d1 h"
      "room d1 h \<longrightarrow> length (passes_of h out1) \<le> 1"
      "\<not> seen d1 h \<longrightarrow> passes_of h out1 = passes_of h (offered [ev])" using s(6) n by auto
    have B: "seen d1 h \<longrightarrow> seen d' h" "room d' h \<longrightarrow> room d1 h" "seen d1 h \<longrightarrow> passes_of h out = []"
      "room d' h \<and> passes_of h (offered evs) \<noteq> [] \<longrightarrow> seen d' h"
      "room d' h \<longrightarrow> length (passes_of h out) \<le> 1"
      "\<not> seen d' h \<longrightarrow> passes_of h out = passes_of h (offered evs)" using r(6) n s(3) by auto
    have "length (passes_of h (out1 @ out)) \<le> 1" if "room d' h"
    proof (cases "seen d1 h")
      case True
      then show ?thesis using A(5) B(2,3) that by simp
    next
      case False
      then have "passes_of h (offered [ev]) = []" using A(4) B(2) that by blast
      then have "passes_of h out1 = []" using A(6) False by simp
      then show ?thesis using B(5) that by simp
    qed
    then show ?thesis using A B off by auto
  qed
  then show ?case using s(1-5) r(1-5) by auto
qed auto

text \<open>C13: Between two clearings of its filter a fingerprint passes the deduplicator at most once, as long as the filter
  did not fill up, however the series are spread over requests; one that passed before the run does not
  pass again; and one that is not known at the end passed every time it was offered.\<close>

theorem dedup_once_per_window:
  assumes "dedup_ok d" and "\<forall>ev \<in> set evs. valid_event ev \<and> \<not> clears (dd_interval d) h ev"
  shows "\<exists>d' out. dedup_run d evs = Inr (d', out) \<and> dedup_ok d'
    \<and> (room d' h \<longrightarrow> length (passes_of h out) \<le> 1 \<and> (passes_of h (offered evs) \<noteq> [] \<longrightarrow> seen d' h))
    \<and> (seen d h \<longrightarrow> passes_of h out = [] \<and> seen d' h)
    \<and> (\<not> seen d' h \<longrightarrow> passes_of h out = passes_of h (offered evs))"
proof -
  have v: "\<forall>ev \<in> set evs. valid_event ev" and n: "\<forall>ev \<in> set evs. \<not> clears (dd_interval d) h ev" using assms(2) by auto
  obtain d' out where "dedup_run d evs = Inr (d', out)" "dedup_ok d'"
    "(\<forall>ev \<in> set evs. \<not> clears (dd_interval d) h ev) \<longrightarrow>
       (seen d h \<longrightarrow> seen d' h) \<and> (room d' h \<longrightarrow> room d h) \<and> (seen d h \<longrightarrow> passes_of h out = [])
       \<and> (room d' h \<and> passes_of h (offered evs) \<noteq> [] \<longrightarrow> seen d' h)
       \<and> (room d' h \<longrightarrow> length (passes_of h out) \<le> 1)
       \<and> (\<not> seen d' h \<longrightarrow> passes_of h out = passes_of h (offered evs))"
    using dedup_run_ok [OF assms(1) v, of h] by blast
  with n show ?thesis by (intro exI [of _ d'] exI [of _ out]) blast
qed

text \<open>C23: The deduplicator never holds more than its maximum, and no bloom filter ever has more than a quarter of its
  bits set: in every run from the start each filter counts at most a tenth of the maximum, the ten together
  at most the maximum.\<close>

theorem dedup_never_saturates:
  assumes "new_deduplicator max_size iv = Inr d" and "max_size < 2 ^ 63" and "\<forall>ev \<in> set evs. valid_event ev"
  shows "\<exists>d' out. dedup_run d evs = Inr (d', out) \<and> sum_list (map bf_size (dd_bfs d')) \<le> max_size
    \<and> (\<forall>f \<in> set (dd_bfs d'). bf_size f \<le> max_size div 10 \<and> 4 * card (bits_set (bf_bits f)) \<le> 64 * length (bf_bits f))"
proof -
  note d = new_deduplicator_result(4,7,5) [OF assms(1,2)]
  obtain d' out where r: "dedup_run d evs = Inr (d', out)" "dedup_ok d'" "dd_bucket_max_size d' = max_size div 10"
    using dedup_run_ok [OF d(1) assms(3)] d(2) by metis
  have f: "bf_size f \<le> max_size div 10 \<and> 4 * card (bits_set (bf_bits f)) \<le> 64 * length (bf_bits f)"
    if "f \<in> set (dd_bfs d')" for f
  proof -
    have "bloom_ok (max_size div 10) f" "bf_size f \<le> max_size div 10" using r(2,3) that by (auto simp: dedup_ok_def)
    then show ?thesis by (simp add: bloom_ok_def)
  qed
  then have "sum_list (map bf_size (dd_bfs d')) \<le> sum_list (map (\<lambda>_. max_size div 10) (dd_bfs d'))"
    by (intro sum_list_mono) simp
  also have "\<dots> = 10 * (max_size div 10)" using r(2) by (simp add: sum_list_triv dedup_ok_def)
  also have "\<dots> \<le> max_size" by simp
  finally show ?thesis using r(1) f by blast
qed

text \<open>A full filter is left as it is, and everything it does not know passes.\<close>

theorem dedup_full_passes_through:
  assumes "dedup_ok d" and "\<not> room d (ts_fingerprint ts)" and "\<not> seen d (ts_fingerprint ts)"
  shows "dedup_filter d [ts, ts] [] = Inr (d\<lparr>dd_passed := dd_passed d + 2\<rparr>, [ts, ts])"
proof -
  let ?h = "ts_fingerprint ts"
  have one: "filter_one e ts = Inr (e\<lparr>dd_passed := dd_passed e + 1\<rparr>, True)"
    if e: "dedup_ok e" "\<not> room e ?h" "\<not> seen e ?h" for e
  proof -
    have j: "unat (?h mod 10) < length (dd_bfs e)" using e(1) own_index_bound by (simp add: dedup_ok_def)
    then have "bf_contains (own_bf e ?h) ?h = Inr False"
      using e nth_mem [OF j] by (subst bf_contains_ok) (auto simp: dedup_ok_def own_bf_def seen_def)
    then show ?thesis using e(2) j by (simp add: filter_one_def Let_def own_bf_def room_def)
  qed
  have "dedup_ok (d\<lparr>dd_passed := dd_passed d + 1\<rparr>) \<and> \<not> room (d\<lparr>dd_passed := dd_passed d + 1\<rparr>) ?h
      \<and> \<not> seen (d\<lparr>dd_passed := dd_passed d + 1\<rparr>) ?h"
    using assms by (auto simp: dedup_ok_def room_def seen_def own_bf_def)
  then show ?thesis using one [OF assms] one by (simp add: add.assoc)
qed

subsection \<open>Rotation\<close>

lemma next_boundary_props:
  assumes "0 < dur"
  shows "(next_boundary now dur + unix_epoch) mod dur = 0 \<and> now < next_boundary now dur
    \<and> next_boundary now dur \<le> now + dur"
proof -
  have "next_boundary now dur + unix_epoch = (now + unix_epoch - (now + unix_epoch) mod dur) + dur"
    using assms by (simp add: next_boundary_def truncate_time_def)
  then have "(next_boundary now dur + unix_epoch) mod dur = 0"
    by (simp add: minus_mod_eq_mult_div)
  moreover have "0 \<le> (now + unix_epoch) mod dur" "(now + unix_epoch) mod dur < dur" using assms by simp_all
  ultimately show ?thesis using assms by (simp add: next_boundary_def truncate_time_def)
qed

lemma next_boundary_step:
  assumes "0 < dur" and "(b + unix_epoch) mod dur = 0" and "b \<le> now" and "now < b + dur"
  shows "next_boundary now dur = b + dur"
proof -
  have "(now + unix_epoch) mod dur = ((b + unix_epoch) + (now - b)) mod dur" by (simp add: algebra_simps)
  also have "\<dots> = (now - b) mod dur" using assms(2) by (metis add_0 mod_add_left_eq)
  also have "\<dots> = now - b" using assms by simp
  finally show ?thesis using assms(1) by (simp add: next_boundary_def truncate_time_def)
qed

lemma bucket_dur_pos: "dedup_ok d \<Longrightarrow> 0 < dd_interval d div 10"
proof -
  assume "dedup_ok d"
  then have "30000000000 < dd_interval d" by (simp add: dedup_ok_def dedup_min_interval_def)
  then show ?thesis by linarith
qed

text \<open>The boundaries the loop waits for when it reads the clock at the given instants.\<close>

definition boundaries :: "deduplicator \<Rightarrow> instant list \<Rightarrow> dedup_event list" where
  "boundaries d nows = map (\<lambda>now. Tick (next_boundary now (go_quot (dd_interval d) 10))) nows"

lemma ticks_clear:
  assumes "dedup_ok d" and "0 \<le> b"
  shows "dedup_run d (map (\<lambda>k. Tick (b + int k * (dd_interval d div 10))) [0..<n])
     = Inr (d\<lparr>dd_bfs := foldl (\<lambda>bfs k. bfs[nat ((b div (dd_interval d div 10) + int k) mod 10) := new_bloom (dd_bucket_max_size d)])
                (dd_bfs d) [0..<n]\<rparr>, [])
    \<and> dedup_ok (d\<lparr>dd_bfs := foldl (\<lambda>bfs k. bfs[nat ((b div (dd_interval d div 10) + int k) mod 10) := new_bloom (dd_bucket_max_size d)])
                (dd_bfs d) [0..<n]\<rparr>)"
proof (induction n)
  case (Suc n)
  let ?dur = "dd_interval d div 10"
  let ?F = "\<lambda>n. foldl (\<lambda>bfs k. bfs[nat ((b div ?dur + int k) mod 10) := new_bloom (dd_bucket_max_size d)]) (dd_bfs d) [0..<n]"
  have append: "dedup_run e (xs @ [Tick t]) = (case dedup_run e xs of Inl p \<Rightarrow> Inl p | Inr (e1, out) \<Rightarrow>
      (case dedup_rotate e1 t of Inl p \<Rightarrow> Inl p | Inr e2 \<Rightarrow> Inr (e2, out)))" for e xs t
    by (induction xs arbitrary: e) (auto split: sum.splits)
  have dur: "0 < ?dur" using bucket_dur_pos [OF assms(1)] .
  have idx: "(b + int n * ?dur) div ?dur = b div ?dur + int n" using dur by simp
  have b: "0 \<le> b + int n * ?dur" using assms(2) dur by simp
  have "dedup_rotate (d\<lparr>dd_bfs := ?F n\<rparr>) (b + int n * ?dur) = Inr (d\<lparr>dd_bfs := ?F (Suc n)\<rparr>)
      \<and> dedup_ok (d\<lparr>dd_bfs := ?F (Suc n)\<rparr>)"
    using dedup_rotate_ok [OF Suc.IH [THEN conjunct2] b] idx by simp
  then show ?case using Suc.IH by (simp add: append)
qed (use assms in simp)

lemma clear_ten:
  fixes xs :: "'a list"
  assumes "length xs = 10" and "j < 10"
  shows "foldl (\<lambda>bfs k. bfs[nat ((q + int k) mod 10) := v]) xs [0..<10] ! j = v"
proof -
  have len: "length (foldl (\<lambda>bfs k. bfs[f k := v]) ys ks) = length ys" for f and ys :: "'a list" and ks :: "nat list"
    by (induction ks arbitrary: ys) auto
  have hit: "\<exists>k \<in> set ks. f k = j \<Longrightarrow> j < length ys \<Longrightarrow> foldl (\<lambda>bfs k. bfs[f k := v]) ys ks ! j = v"
    for f and ys :: "'a list" and ks :: "nat list"
  proof (induction ks rule: rev_induct)
    case (snoc k ks)
    then show ?case by (cases "f k = j") (auto simp: len)
  qed simp
  let ?k = "nat ((int j - q) mod 10)"
  have k: "?k < 10" "int ?k = (int j - q) mod 10" by (simp_all add: nat_less_iff)
  have "(q + (int j - q) mod 10) mod 10 = int j" using assms(2) by (simp add: mod_add_right_eq)
  then have "nat ((q + int ?k) mod 10) = j" unfolding k(2) by simp
  then have "\<exists>k \<in> set [0..<10]. nat ((q + int k) mod 10) = j" using k(1) by (metis atLeastLessThan_iff le0 set_upt)
  from hit [OF this] assms show ?thesis by simp
qed

text \<open>If the rotation never falls behind by a whole step, ten rotations in a row empty every filter once: nothing
  that was seen before is known afterwards, so a series is suppressed for at most one interval.\<close>

theorem dedup_rotation_forgets:
  assumes "dedup_ok d" and "length nows = 10" and "0 \<le> nows ! 0"
    and "\<forall>k < 9. next_boundary (nows ! k) (dd_interval d div 10) \<le> nows ! Suc k
          \<and> nows ! Suc k < next_boundary (nows ! k) (dd_interval d div 10) + dd_interval d div 10"
  shows "\<exists>d'. dedup_run d (boundaries d nows) = Inr (d', []) \<and> dedup_ok d' \<and> (\<forall>h. \<not> seen d' h)"
proof -
  let ?dur = "dd_interval d div 10"
  let ?b = "next_boundary (nows ! 0) ?dur"
  have dur: "0 < ?dur" "go_quot (dd_interval d) 10 = ?dur"
    using bucket_dur_pos [OF assms(1)] by (simp_all add: go_quot_nonneg)
  have bk: "next_boundary (nows ! k) ?dur = ?b + int k * ?dur" if "k < 10" for k
    using that
  proof (induction k)
    case (Suc k)
    then have k: "k < 9" "next_boundary (nows ! k) ?dur = ?b + int k * ?dur" by auto
    have "(next_boundary (nows ! k) ?dur + unix_epoch) mod ?dur = 0" using next_boundary_props [OF dur(1)] by blast
    from next_boundary_step [OF dur(1) this] assms(4) k(1)
    have "next_boundary (nows ! Suc k) ?dur = next_boundary (nows ! k) ?dur + ?dur" by blast
    then show ?case using k(2) by (simp add: algebra_simps)
  qed simp
  have "boundaries d nows = map (\<lambda>k. Tick (?b + int k * ?dur)) [0..<10]"
  proof (rule nth_equalityI)
    show "length (boundaries d nows) = length (map (\<lambda>k. Tick (?b + int k * ?dur)) [0..<10])"
      using assms(2) by (simp add: boundaries_def)
  next
    fix k assume "k < length (boundaries d nows)"
    then have k: "k < 10" using assms(2) by (simp add: boundaries_def)
    then have "[0..<10] ! k = k" by (simp del: upt_rec_numeral)
    then show "boundaries d nows ! k = map (\<lambda>k. Tick (?b + int k * ?dur)) [0..<10] ! k"
      using bk [OF k] k assms(2) by (simp add: boundaries_def dur(2) del: upt_rec_numeral)
  qed
  moreover have b0: "0 \<le> ?b" using next_boundary_props [OF dur(1), of "nows ! 0"] assms(3) by simp
  define bfs where "bfs = foldl (\<lambda>bfs k. bfs[nat ((?b div ?dur + int k) mod 10) := new_bloom (dd_bucket_max_size d)]) (dd_bfs d) [0..<10]"
  note t = ticks_clear [OF assms(1) b0, of 10, folded bfs_def]
  ultimately have r: "dedup_run d (boundaries d nows) = Inr (d\<lparr>dd_bfs := bfs\<rparr>, [])" "dedup_ok (d\<lparr>dd_bfs := bfs\<rparr>)"
    by (simp_all only: t)
  have "bfs ! j = new_bloom (dd_bucket_max_size d)" if "j < 10" for j
    unfolding bfs_def using assms(1) that by (intro clear_ten) (auto simp: dedup_ok_def)
  then have "own_bf (d\<lparr>dd_bfs := bfs\<rparr>) h = new_bloom (dd_bucket_max_size d)" for h
    using own_index_bound [of h] by (simp add: own_bf_def)
  then have "\<not> seen (d\<lparr>dd_bfs := bfs\<rparr>) h" for h
    using empty_bloom_has_nothing bucket_max_bounds [OF assms(1)] by (simp add: seen_def)
  then show ?thesis using r by blast
qed

subsection \<open>Start and sizing\<close>

text \<open>The two validations of the interval disagree: \<^verbatim>\<open>main\<close> accepts the minimum itself, and \<^verbatim>\<open>newDeduplicator\<close> then
  panics; every larger interval that passes \<^verbatim>\<open>main\<close> starts a well-formed deduplicator that has seen nothing, if there is
  room for its filters.\<close>

theorem start_panics_at_minimum:
  assumes "dedup_min_max_size < max_size" and "max_size \<le> max_items" and "dedup_min_interval \<le> iv"
  shows "if iv = dedup_min_interval then start_deduplicator iv max_size = Inl (BugPanic ''interval must be greater'')
    else \<exists>d. start_deduplicator iv max_size = Inr (Started d) \<and> dedup_ok d \<and> (\<forall>h. \<not> seen d h \<and> room d h)"
proof (cases "iv = dedup_min_interval")
  case True
  then show ?thesis using assms by (simp add: start_deduplicator_def new_deduplicator_def dedup_min_interval_def)
next
  case False
  then have iv: "dedup_min_interval < iv" "0 < iv" using assms(3) by (simp_all add: dedup_min_interval_def)
  obtain d where d: "new_deduplicator max_size iv = Inr d" "dedup_ok d" "dd_bucket_max_size d = max_size div 10"
    "dd_bfs d = replicate 10 (new_bloom (max_size div 10))"
    using new_deduplicator_ok [OF assms(1,2) iv(1)] by blast
  note b = bucket_max_bounds [OF d(2)]
  have "own_bf d h = new_bloom (dd_bucket_max_size d)" for h
    using own_index_bound [of h] d(3,4) by (simp add: own_bf_def)
  then have "\<not> seen d h \<and> room d h" for h
    using empty_bloom_has_nothing [of "dd_bucket_max_size d" h] new_bloom_ok [of "dd_bucket_max_size d"] b
    by (simp add: seen_def room_def)
  then show ?thesis using False d assms iv by (auto simp: start_deduplicator_def)
qed

text \<open>A deduplicator sized from a memory budget keeps to it: its ten bit arrays together take at most the budget
  rounded up to whole words.\<close>

theorem dedup_memory_budget:
  assumes "2 \<le> max_bytes" and "max_bytes < 2 ^ 60"
    and "new_deduplicator (resolve_max_size max_bytes max_count allowed) iv = Inr d"
  shows "8 * sum_list (map (\<lambda>f. int (length (bf_bits f))) (dd_bfs d)) \<le> max_bytes + 80"
proof -
  let ?n = "resolve_max_size max_bytes max_count allowed"
  have items: "bytes_to_items max_bytes = max_bytes div 2"
    using assms(1,2) by (simp add: bytes_to_items_def wrap_i64_id bits_per_item_def go_quot_nonneg)
  have big: "dedup_min_max_size < ?n" using assms(3) by (auto simp: new_deduplicator_def split: if_splits)
  have n: "?n \<le> max_bytes div 2"
  proof -
    have "0 < max_bytes div 2" using assms(1) by linarith
    then show ?thesis using assms(1) by (simp add: resolve_max_size_def Let_def items)
  qed
  have b: "0 < ?n div 10" "10 * (?n div 10) < 2 ^ 63" using big n assms(2) by (simp_all add: dedup_min_max_size_def)
  have "?n < 2 ^ 63" using n assms(2) by simp
  then have "dd_bfs d = replicate 10 (new_bloom (?n div 10))" by (rule new_deduplicator_result(8) [OF assms(3)])
  then have "sum_list (map (\<lambda>f. int (length (bf_bits f))) (dd_bfs d)) = 10 * ((?n div 10 * 16 + 63) div 64)"
    using length_new_bits [of "?n div 10"] b by (simp add: sum_list_replicate)
  then show ?thesis using n by linarith
qed

subsection \<open>Concrete runs\<close>

definition plain_serie :: "u64 \<Rightarrow> time_serie" where
  "plain_serie fp = \<lparr>ts_labels = [], ts_fingerprint = fp\<rparr>"

lemma plain_deduplicator:
  "\<exists>d. new_deduplicator 10000 60000000000 = Inr d \<and> dedup_ok d \<and> dd_interval d = 60000000000
    \<and> dd_bucket_max_size d = 1000 \<and> dd_bfs d = replicate 10 (new_bloom 1000)
    \<and> (\<forall>h. \<not> seen d h \<and> room d h)"
proof -
  have "dedup_min_max_size < (10000 :: int)" "(10000 :: int) \<le> max_items" "dedup_min_interval < 60000000000"
    by (simp_all add: dedup_min_max_size_def dedup_min_interval_def max_items_def)
  from new_deduplicator_ok [OF this] obtain d where d: "new_deduplicator 10000 60000000000 = Inr d" "dedup_ok d"
    "dd_interval d = 60000000000" "dd_bucket_max_size d = 1000" "dd_bfs d = replicate 10 (new_bloom 1000)" by auto
  have "own_bf d h = new_bloom 1000" for h using own_index_bound [of h] d(5) by (simp add: own_bf_def)
  then have "\<not> seen d h \<and> room d h" for h
    using empty_bloom_has_nothing [of 1000 h] new_bloom_ok [of 1000] d(4) by (simp add: seen_def room_def)
  then show ?thesis using d by blast
qed

theorem dedup_once_per_window_witness:
  "\<exists>d d' out. new_deduplicator 10000 60000000000 = Inr d
    \<and> dedup_run d [Offer [plain_serie 7, plain_serie 8], Tick 6000000000, Offer [plain_serie 7]] = Inr (d', out)
    \<and> (room d' 7 \<longrightarrow> length (passes_of 7 out) \<le> 1 \<and> seen d' 7)"
proof -
  let ?evs = "[Offer [plain_serie 7, plain_serie 8], Tick 6000000000, Offer [plain_serie 7]]"
  obtain d where d: "new_deduplicator 10000 60000000000 = Inr d" "dedup_ok d" "dd_interval d = 60000000000"
    using plain_deduplicator by blast
  have "unat (7 mod 10 :: u64) = 7" by simp
  then have "\<forall>ev \<in> set ?evs. valid_event ev \<and> \<not> clears (dd_interval d) 7 ev"
    by (simp add: d(3) rotation_index_def go_quot_def go_rem_def)
  from dedup_once_per_window [OF d(2) this] obtain d' out where r: "dedup_run d ?evs = Inr (d', out)"
    "room d' 7 \<longrightarrow> length (passes_of 7 out) \<le> 1 \<and> (passes_of 7 (offered ?evs) \<noteq> [] \<longrightarrow> seen d' 7)" by blast
  moreover have "passes_of 7 (offered ?evs) \<noteq> []" by (simp add: plain_serie_def)
  ultimately show ?thesis using d(1) by blast
qed

theorem dedup_never_saturates_witness:
  "\<exists>d d' out. new_deduplicator 10000 60000000000 = Inr d
    \<and> dedup_run d [Offer [plain_serie 7], Forget] = Inr (d', out) \<and> sum_list (map bf_size (dd_bfs d')) \<le> 10000"
proof -
  obtain d where d: "new_deduplicator 10000 60000000000 = Inr d" using plain_deduplicator by blast
  have m: "(10000 :: int) < 2 ^ 63" "\<forall>ev \<in> set [Offer [plain_serie 7], Forget]. valid_event ev" by simp_all
  from dedup_never_saturates [OF d m] d show ?thesis by blast
qed

theorem dedup_full_passes_through_witness:
  "\<exists>d. dedup_ok d \<and> \<not> room d 7 \<and> dedup_filter d [plain_serie 7, plain_serie 7] []
      = Inr (d\<lparr>dd_passed := dd_passed d + 2\<rparr>, [plain_serie 7, plain_serie 7])"
proof -
  obtain d0 where d0: "dedup_ok d0" "dd_bucket_max_size d0 = 1000" "dd_bfs d0 = replicate 10 (new_bloom 1000)"
    using plain_deduplicator by blast
  define f where "f = (new_bloom 1000)\<lparr>bf_size := 1000\<rparr>"
  define d where "d = d0\<lparr>dd_bfs := replicate 10 f\<rparr>"
  have f: "bloom_ok 1000 f" "bf_size f = 1000" "\<not> has f h" for h
    using new_bloom_ok [of 1000] empty_bloom_has_nothing [of 1000 h]
    by (auto simp: f_def bloom_ok_def has_def)
  have own: "own_bf d h = f" for h using own_index_bound [of h] by (simp add: own_bf_def d_def)
  have d: "dedup_ok d" using d0 f by (simp add: d_def dedup_ok_def)
  have "\<not> room d (ts_fingerprint (plain_serie 7))" "\<not> seen d (ts_fingerprint (plain_serie 7))"
    using own f(2,3) d0(2) by (simp_all add: room_def seen_def d_def)
  from dedup_full_passes_through [OF d this] d this(1) show ?thesis by (auto simp: plain_serie_def)
qed

theorem dedup_rotation_forgets_witness:
  "\<exists>d d'. new_deduplicator 10000 60000000000 = Inr d
    \<and> dedup_run d (boundaries d (map (\<lambda>k. int k * 6000000000) [0..<10])) = Inr (d', []) \<and> (\<forall>h. \<not> seen d' h)"
proof -
  let ?nows = "map (\<lambda>k. int k * 6000000000) [0..<10]"
  obtain d where d: "new_deduplicator 10000 60000000000 = Inr d" "dedup_ok d" "dd_interval d = 60000000000"
    using plain_deduplicator by blast
  have e: "unix_epoch mod 6000000000 = 0" by (simp add: unix_epoch_def)
  have nth: "?nows ! k = int k * 6000000000" if "k < 10" for k using that by (simp del: upt_rec_numeral)
  have nb: "next_boundary (int k * 6000000000) 6000000000 = int k * 6000000000 + 6000000000" for k
  proof -
    have "(int k * 6000000000 + unix_epoch) mod 6000000000 = 0"
      using e by (metis add_0 mod_add_left_eq mod_mult_self2_is_0)
    then show ?thesis by (simp add: next_boundary_def truncate_time_def)
  qed
  have "\<forall>k < 9. next_boundary (?nows ! k) (dd_interval d div 10) \<le> ?nows ! Suc k
          \<and> ?nows ! Suc k < next_boundary (?nows ! k) (dd_interval d div 10) + dd_interval d div 10"
    using nth nb d(3) by (simp del: upt_rec_numeral) 
  moreover have "length ?nows = 10" by (simp del: upt_rec_numeral)
  moreover have "0 \<le> ?nows ! 0" using nth [of 0] by (simp del: upt_rec_numeral)
  ultimately show ?thesis using dedup_rotation_forgets [OF d(2), of ?nows] d(1) by blast
qed

theorem start_panics_at_minimum_witness:
  "start_deduplicator 30000000000 10000 = Inl (BugPanic ''interval must be greater'')"
  using start_panics_at_minimum [of 10000 30000000000] by (simp add: dedup_min_max_size_def dedup_min_interval_def max_items_def)

theorem dedup_memory_budget_witness:
  "\<exists>d. new_deduplicator (resolve_max_size 20000 0 0) 60000000000 = Inr d
    \<and> 8 * sum_list (map (\<lambda>f. int (length (bf_bits f))) (dd_bfs d)) \<le> 20080"
proof -
  have r: "resolve_max_size 20000 0 0 = 10000"
    by (simp add: resolve_max_size_def bytes_to_items_def wrap_i64_id bits_per_item_def go_quot_def)
  obtain d where "new_deduplicator (resolve_max_size 20000 0 0) 60000000000 = Inr d"
    unfolding r using plain_deduplicator by blast
  with dedup_memory_budget [OF _ _ this] show ?thesis by auto
qed

end
