(* ===== verification/Config.thy ===== *)
theory Config
  imports Cardinality_Metrics Deduplicator
begin

section \<open>Configuration (\<^verbatim>\<open>config.go\<close>)\<close>

text \<open>
  Reading, preparing and loading the configuration, and the reloader.  What is outside the program is a
  parameter: the contents of the file, the YAML decoder, the hash of a file's bytes, the number of CPUs,
  the selector parser and the regexp compiler.  Errors are values of \<open>config_error\<close>.
\<close>

datatype config_error =
    InvalidPrecision nat | LabelKeywordTwice | ReservedLabel string | ReservedPrefix string | SameStreams nat nat
  | NoConfig | CannotRead string | CannotDecode string

subsection \<open>Preparing\<close>

definition config_id :: "estimator_config \<Rightarrow> string" where
  "config_id ec = estimator_id (ec_labels ec) (ec_group_by ec) (ec_interval ec) (ec_filter ec)"

definition prepare_stream :: "int \<Rightarrow> estimator_config \<Rightarrow> config_error + estimator_config" where
  "prepare_stream cpus ec =
     (let group_by = sort (ec_group_by ec) in
      if ec_hll_precision ec \<noteq> 0 \<and> (ec_hll_precision ec < 4 \<or> ec_hll_precision ec > 18)
      then Inl (InvalidPrecision (ec_hll_precision ec))
      else let count = length (List.filter (\<lambda>g. g = label_keyword) group_by);
               new_group_by = List.filter (\<lambda>g. g \<noteq> label_keyword) group_by
           in if count > 1 then Inl LabelKeywordTwice
              else Inr (apply_defaults cpus
                     (ec\<lparr>ec_group_by := (if count = 1 then new_group_by @ [label_keyword] else new_group_by)\<rparr>)))"

definition prepare_streams :: "int \<Rightarrow> estimator_config list \<Rightarrow> config_error + estimator_config list" where
  "prepare_streams cpus = fold_err (\<lambda>acc ec. map_sum id (\<lambda>ec'. acc @ [ec']) (prepare_stream cpus ec)) []"

definition reserved_labels :: "string list" where
  "reserved_labels = [''interval'', ''filter'', ''group_by_keys'', ''group_by_values'']"

fun check_labels :: "(string, string) gomap \<Rightarrow> config_error option" where
  "check_labels [] = None"
| "check_labels ((k, v) # labels) =
     (if k \<in> set reserved_labels then Some (ReservedLabel k)
      else if take 3 k = ''by_'' then Some (ReservedPrefix k)
      else check_labels labels)"

text \<open>The second loop, at index \<open>i\<close>; \<open>ids\<close> are the ids seen so far with their indices.\<close>

fun check_streams :: "nat \<Rightarrow> (string, nat) gomap \<Rightarrow> estimator_config list \<Rightarrow> config_error option" where
  "check_streams i ids [] = None"
| "check_streams i ids (ec # ecs) =
     (case check_labels (ec_labels ec) of
        Some err \<Rightarrow> Some err
      | None \<Rightarrow>
          (case map_of ids (config_id ec) of
             Some j \<Rightarrow> Some (SameStreams (j + 1) (i + 1))
           | None \<Rightarrow> check_streams (i + 1) (AList.update (config_id ec) i ids) ecs))"

definition prepare :: "int \<Rightarrow> estimator_config list \<Rightarrow> config_error + estimator_config list" where
  "prepare cpus streams =
     (case prepare_streams cpus streams of
        Inl err \<Rightarrow> Inl err
      | Inr prepared \<Rightarrow> (case check_streams 0 [] prepared of Some err \<Rightarrow> Inl err | None \<Rightarrow> Inr prepared))"

subsection \<open>Reading\<close>

record config =
  cf_hash :: u64
  cf_streams :: "estimator_config list"

definition read_config ::
  "int \<Rightarrow> (string \<Rightarrow> string + estimator_config list) \<Rightarrow> (string \<Rightarrow> u64) \<Rightarrow> string list
   \<Rightarrow> (string \<Rightarrow> string + string) \<Rightarrow> string \<Rightarrow> config_error + config" where
  "read_config cpus unmarshal sum64 storage_nodes read_file path =
     (if path = [] \<and> storage_nodes \<noteq> [] then Inr \<lparr>cf_hash = 0, cf_streams = []\<rparr>
      else if path = [] then Inl NoConfig
      else case read_file path of
             Inl err \<Rightarrow> Inl (CannotRead err)
           | Inr data \<Rightarrow>
               (case unmarshal data of
                  Inl err \<Rightarrow> Inl (CannotDecode err)
                | Inr streams \<Rightarrow>
                    (case prepare cpus streams of
                       Inl err \<Rightarrow> Inl err
                     | Inr prepared \<Rightarrow> Inr \<lparr>cf_hash = sum64 data, cf_streams = prepared\<rparr>)))"

subsection \<open>Loading\<close>

text \<open>\<^verbatim>\<open>reflect.DeepEqual\<close>: maps are equal when they have the same entries.\<close>

definition same_map :: "('k, 'v) gomap \<Rightarrow> ('k, 'v) gomap \<Rightarrow> bool" where
  "same_map m n \<longleftrightarrow> (\<forall>k \<in> map_keys m \<union> map_keys n. map_of m k = map_of n k)"

definition deep_equal :: "estimator_config \<Rightarrow> estimator_config \<Rightarrow> bool" where
  "deep_equal a b \<longleftrightarrow> same_map (ec_labels a) (ec_labels b) \<and> a\<lparr>ec_labels := []\<rparr> = b\<lparr>ec_labels := []\<rparr>"

text \<open>
  The state a load works on: the active estimators, the deduplicator, the metrics cache with the churn, the
  flag of the parser that asks for label fingerprints, and the estimators stopped so far.
\<close>

record app =
  ap_estimators :: "estimator list"
  ap_dedup :: "deduplicator option"
  ap_cm :: cm_state
  ap_fingerprint_labels :: bool
  ap_stopped :: "estimator list"

type_synonym load_state = "(string, estimator) gomap \<times> estimator list \<times> estimator list"

definition create_stream ::
  "int \<Rightarrow> selector_parser \<Rightarrow> regexp_compiler \<Rightarrow> load_state \<Rightarrow> estimator_config
   \<Rightarrow> (estimator_error \<times> estimator list) failure + load_state" where
  "create_stream cpus parse compile_re st ec =
     (case st of (removed, es, created) \<Rightarrow>
        (case new_estimator cpus parse compile_re ec of
           Inl (Panicked p) \<Rightarrow> Inl (Panicked p)
         | Inl (Failed err) \<Rightarrow> Inl (Failed (err, created))
         | Inr e \<Rightarrow> Inr (removed, es @ [e], created @ [e])))"

definition load_stream ::
  "int \<Rightarrow> selector_parser \<Rightarrow> regexp_compiler \<Rightarrow> load_state \<Rightarrow> estimator_config
   \<Rightarrow> (estimator_error \<times> estimator list) failure + load_state" where
  "load_stream cpus parse compile_re st ec =
     (case st of (removed, es, created) \<Rightarrow>
        (case map_of removed (config_id ec) of
           None \<Rightarrow> create_stream cpus parse compile_re st ec
         | Some e \<Rightarrow>
             if deep_equal (es_cfg e) ec then Inr (AList.delete (config_id ec) removed, es @ [e], created)
             else create_stream cpus parse compile_re st ec))"

definition by_id :: "estimator list \<Rightarrow> (string, estimator) gomap" where
  "by_id es = foldl (\<lambda>m e. AList.update (es_id e) e m) [] es"

definition load_config ::
  "int \<Rightarrow> selector_parser \<Rightarrow> regexp_compiler \<Rightarrow> estimator_config list \<Rightarrow> app
   \<Rightarrow> go_panic + app \<times> (estimator_error + bool)" where
  "load_config cpus parse compile_re streams st =
     (case fold_err (load_stream cpus parse compile_re) (by_id (ap_estimators st), [], []) streams of
        Inl (Panicked p) \<Rightarrow> Inl p
      | Inl (Failed (err, created)) \<Rightarrow> Inr (st\<lparr>ap_stopped := ap_stopped st @ created\<rparr>, Inl err)
      | Inr (removed, es, created) \<Rightarrow>
          if created = [] \<and> removed = [] then Inr (st, Inr False)
          else Inr (st\<lparr>ap_fingerprint_labels :=
                         (ap_fingerprint_labels st \<or> list_ex es_has_label_keyword created),
                       ap_estimators := es,
                       ap_dedup := (if created \<noteq> [] then map_option dedup_reset (ap_dedup st) else ap_dedup st),
                       ap_stopped := ap_stopped st @ map snd removed,
                       ap_cm := invalidate_cardinality_cache removed (ap_cm st)\<rparr>, Inr True))"

subsection \<open>Reloading\<close>

text \<open>
  The reloader's state: the program state, the config loaded last, and its metrics.  A wake-up (a signal or
  a tick) reads the file, whose state at that moment is the parameter \<open>read_file\<close>.
\<close>

record reloader =
  rl_app :: app
  rl_cfg :: config
  rl_reloads :: u64
  rl_errors :: u64
  rl_success :: bool

definition reload_failed :: "reloader \<Rightarrow> reloader" where
  "reload_failed rl = rl\<lparr>rl_errors := rl_errors rl + 1, rl_success := False\<rparr>"

definition reload_step ::
  "int \<Rightarrow> selector_parser \<Rightarrow> regexp_compiler \<Rightarrow> (string \<Rightarrow> string + estimator_config list) \<Rightarrow> (string \<Rightarrow> u64)
   \<Rightarrow> string list \<Rightarrow> string \<Rightarrow> reloader \<Rightarrow> (string \<Rightarrow> string + string) \<Rightarrow> go_panic + reloader" where
  "reload_step cpus parse compile_re unmarshal sum64 storage_nodes path rl read_file =
     (case read_config cpus unmarshal sum64 storage_nodes read_file path of
        Inl err \<Rightarrow> Inr (reload_failed rl)
      | Inr new_cfg \<Rightarrow>
          if cf_hash new_cfg = cf_hash (rl_cfg rl) then Inr (rl\<lparr>rl_success := True\<rparr>)
          else
            (case load_config cpus parse compile_re (cf_streams new_cfg) (rl_app rl) of
               Inl p \<Rightarrow> Inl p
             | Inr (st, Inl err) \<Rightarrow> Inr (reload_failed (rl\<lparr>rl_app := st\<rparr>))
             | Inr (st, Inr changed) \<Rightarrow>
                 let rl' = rl\<lparr>rl_app := st, rl_success := True, rl_cfg := new_cfg\<rparr>
                 in Inr (if changed then rl'\<lparr>rl_reloads := rl_reloads rl' + 1\<rparr> else rl')))"

subsection \<open>What preparing yields\<close>

definition normal_group :: "string list \<Rightarrow> string list" where
  "normal_group gb = sort (List.filter (\<lambda>g. g \<noteq> label_keyword) gb) @ (if label_keyword \<in> set gb then [label_keyword] else [])"

definition normal_stream :: "int \<Rightarrow> estimator_config \<Rightarrow> estimator_config" where
  "normal_stream cpus ec = apply_defaults cpus (ec\<lparr>ec_group_by := normal_group (ec_group_by ec)\<rparr>)"

definition bad_stream :: "estimator_config \<Rightarrow> bool" where
  "bad_stream ec \<longleftrightarrow> ec_hll_precision ec \<noteq> 0 \<and> (ec_hll_precision ec < 4 \<or> 18 < ec_hll_precision ec)
     \<or> 1 < count_list (ec_group_by ec) label_keyword"

definition reserved_name :: "string \<Rightarrow> bool" where
  "reserved_name k \<longleftrightarrow> k \<in> set reserved_labels \<or> take 3 k = ''by_''"

lemma count_filter: "length (List.filter (\<lambda>g. g = x) xs) = count_list xs x"
  by (induction xs) auto

lemma count_list_sort: "count_list (sort xs) x = count_list xs x"
  by (metis count_mset mset_sort)

lemma prepare_stream_spec:
  "prepare_stream cpus ec = Inr ec' \<longleftrightarrow> \<not> bad_stream ec \<and> ec' = normal_stream cpus ec"
  "bad_stream ec \<Longrightarrow> \<exists>err. prepare_stream cpus ec = Inl err"
proof -
  let ?gb = "sort (ec_group_by ec)"
  have c: "length (List.filter (\<lambda>g. g = label_keyword) ?gb) = count_list (ec_group_by ec) label_keyword"
    by (simp add: count_filter count_list_sort)
  have f: "List.filter (\<lambda>g. g \<noteq> label_keyword) ?gb = sort (List.filter (\<lambda>g. g \<noteq> label_keyword) (ec_group_by ec))"
    by (rule filter_sort)
  have "label_keyword \<in> set (ec_group_by ec) \<longleftrightarrow> count_list (ec_group_by ec) label_keyword \<noteq> 0"
    by (simp add: count_list_0_iff)
  then have g: "(if count_list (ec_group_by ec) label_keyword = 1
        then sort (List.filter (\<lambda>g. g \<noteq> label_keyword) (ec_group_by ec)) @ [label_keyword]
        else sort (List.filter (\<lambda>g. g \<noteq> label_keyword) (ec_group_by ec))) = normal_group (ec_group_by ec)"
    if "\<not> 1 < count_list (ec_group_by ec) label_keyword"
    using that unfolding normal_group_def by (cases "count_list (ec_group_by ec) label_keyword = 0") auto
  show "prepare_stream cpus ec = Inr ec' \<longleftrightarrow> \<not> bad_stream ec \<and> ec' = normal_stream cpus ec"
  proof (cases "bad_stream ec")
    case True
    then show ?thesis unfolding prepare_stream_def Let_def c f bad_stream_def by auto
  next
    case False
    then have "prepare_stream cpus ec = Inr (normal_stream cpus ec)"
      unfolding prepare_stream_def Let_def c f bad_stream_def normal_stream_def by (simp only: g if_False de_Morgan_disj not_False_eq_True)
    then show ?thesis using False by auto
  qed
  show "bad_stream ec \<Longrightarrow> \<exists>err. prepare_stream cpus ec = Inl err"
    unfolding prepare_stream_def Let_def c bad_stream_def by auto
qed

lemma prepare_streams_spec:
  "prepare_streams cpus streams = Inr ps \<longleftrightarrow> (\<forall>ec \<in> set streams. \<not> bad_stream ec) \<and> ps = map (normal_stream cpus) streams"
proof -
  have "fold_err (\<lambda>acc ec. map_sum id (\<lambda>ec'. acc @ [ec']) (prepare_stream cpus ec)) acc streams = Inr ps
      \<longleftrightarrow> (\<forall>ec \<in> set streams. \<not> bad_stream ec) \<and> ps = acc @ map (normal_stream cpus) streams" for acc
  proof (induction streams arbitrary: acc)
    case (Cons ec streams)
    show ?case
    proof (cases "bad_stream ec")
      case True
      then obtain err where "prepare_stream cpus ec = Inl err" using prepare_stream_spec(2) by blast
      then show ?thesis using True by simp
    next
      case False
      then have "prepare_stream cpus ec = Inr (normal_stream cpus ec)" using prepare_stream_spec(1) by blast
      then show ?thesis using Cons False by simp
    qed
  qed auto
  then show ?thesis by (simp add: prepare_streams_def)
qed

lemma check_labels_None: "check_labels labels = None \<longleftrightarrow> (\<forall>k \<in> map_keys labels. \<not> reserved_name k)"
  by (induction labels rule: check_labels.induct) (auto simp: reserved_name_def)

lemma check_streams_None:
  "check_streams i ids ss = None \<longleftrightarrow> (\<forall>ec \<in> set ss. check_labels (ec_labels ec) = None)
     \<and> distinct (map config_id ss) \<and> config_id ` set ss \<inter> map_keys ids = {}"
proof (induction i ids ss rule: check_streams.induct)
  case (2 i ids ec ecs)
  show ?case
  proof (cases "check_labels (ec_labels ec)")
    case None
    show ?thesis
    proof (cases "map_of ids (config_id ec)")
      case (Some j)
      then show ?thesis using None map_of_in_keys [OF Some] by auto
    next
      case no: None
      have k: "map_keys (AList.update (config_id ec) i ids) = insert (config_id ec) (map_keys ids)" by (rule map_keys_update)
      have nk: "config_id ec \<notin> map_keys ids" by (rule map_of_not_in_keys [THEN iffD1, OF no])
      have e: "check_streams i ids (ec # ecs) = check_streams (i + 1) (AList.update (config_id ec) i ids) ecs"
        by (simp add: None no)
      show ?thesis unfolding e "2.IH" [OF None no] k using None nk by auto
    qed
  qed simp
qed simp

definition rejected_streams :: "int \<Rightarrow> estimator_config list \<Rightarrow> bool" where
  "rejected_streams cpus streams \<longleftrightarrow>
     (\<exists>ec \<in> set streams. bad_stream ec \<or> (\<exists>k \<in> map_keys (ec_labels ec). reserved_name k))
     \<or> \<not> distinct (map (\<lambda>ec. config_id (normal_stream cpus ec)) streams)"

lemma normal_stream_labels [simp]: "ec_labels (normal_stream cpus ec) = ec_labels ec"
  by (simp add: normal_stream_def apply_defaults_simps)

lemma prepare_spec:
  "prepare cpus streams = Inr ps \<longleftrightarrow> \<not> rejected_streams cpus streams \<and> ps = map (normal_stream cpus) streams"
proof (cases "\<exists>ec \<in> set streams. bad_stream ec")
  case True
  then have "\<not> (\<exists>ps. prepare_streams cpus streams = Inr ps)" using prepare_streams_spec by blast
  then obtain err where "prepare_streams cpus streams = Inl err" by (cases "prepare_streams cpus streams") auto
  then show ?thesis using True by (auto simp: prepare_def rejected_streams_def)
next
  case False
  then have p: "prepare_streams cpus streams = Inr (map (normal_stream cpus) streams)" using prepare_streams_spec by blast
  have c: "check_streams 0 [] (map (normal_stream cpus) streams) = None \<longleftrightarrow> \<not> rejected_streams cpus streams"
    using False by (auto simp: check_streams_None check_labels_None rejected_streams_def comp_def)
  then show ?thesis
    by (cases "check_streams 0 [] (map (normal_stream cpus) streams)") (auto simp: prepare_def p)
qed

text \<open>C26: Preparing rejects a configuration exactly when a precision is out of range, \<^verbatim>\<open>__label__\<close> is listed twice in one
  stream, a label name is reserved, or two streams would have the same id after defaults and sorting; otherwise it
  yields every stream with its group-by labels sorted, \<^verbatim>\<open>__label__\<close> last, and the defaults applied.\<close>

theorem prepare_exact:
  "(if rejected_streams cpus streams then \<exists>err. prepare cpus streams = Inl err
    else prepare cpus streams = Inr (map (normal_stream cpus) streams))"
  using prepare_spec [of cpus streams] by (cases "prepare cpus streams") auto

text \<open>What a prepared stream looks like.\<close>

definition prepared :: "int \<Rightarrow> estimator_config \<Rightarrow> bool" where
  "prepared cpus ec \<longleftrightarrow> \<not> bad_stream ec \<and> normal_stream cpus ec = ec"

lemma apply_defaults_idem: "apply_defaults cpus (apply_defaults cpus ec) = apply_defaults cpus ec"
  by (simp add: apply_defaults_def split: option.splits)

lemma apply_defaults_group_by: "apply_defaults cpus (ec\<lparr>ec_group_by := gb\<rparr>) = (apply_defaults cpus ec)\<lparr>ec_group_by := gb\<rparr>"
  by (simp add: apply_defaults_def)

lemma normal_group_by: "ec_group_by (normal_stream cpus ec) = normal_group (ec_group_by ec)"
  by (simp add: normal_stream_def apply_defaults_simps)

lemma normal_group_idem: "normal_group (normal_group gb) = normal_group gb"
  by (simp add: normal_group_def filter_sort sorted_sort_id)

lemma normal_stream_alt: "normal_stream cpus ec = (apply_defaults cpus ec)\<lparr>ec_group_by := normal_group (ec_group_by ec)\<rparr>"
  by (simp add: normal_stream_def apply_defaults_group_by)

lemma normal_prepared: "\<not> bad_stream ec \<Longrightarrow> prepared cpus (normal_stream cpus ec)"
proof -
  assume b: "\<not> bad_stream ec"
  let ?n = "normal_stream cpus ec"
  have "normal_stream cpus ?n = ?n"
    unfolding normal_stream_alt [of cpus ?n] normal_group_by normal_group_idem
    by (simp add: normal_stream_alt apply_defaults_group_by apply_defaults_idem)
  moreover have "count_list (normal_group gb) label_keyword = (if label_keyword \<in> set gb then 1 else 0)" for gb
    by (simp add: normal_group_def count_list_0_iff)
  then have "\<not> 1 < count_list (ec_group_by ?n) label_keyword" by (simp add: normal_group_by)
  moreover have "ec_hll_precision ?n = effective_precision ec"
    by (simp add: normal_stream_def apply_defaults_simps effective_precision_def)
  ultimately show ?thesis using b unfolding prepared_def bad_stream_def
    by (auto simp: effective_precision_def split: if_splits)
qed

lemma preparedD:
  assumes "prepared cpus ec"
  shows "apply_defaults cpus ec = ec" "label_keyword \<notin> set (butlast (ec_group_by ec))"
    "4 \<le> ec_hll_precision ec" "ec_hll_precision ec \<le> 18" "ec_interval ec \<noteq> 0"
    "\<exists>gs. sorted gs \<and> label_keyword \<notin> set gs \<and> (ec_group_by ec = gs \<or> ec_group_by ec = gs @ [label_keyword])"
proof -
  have n: "normal_stream cpus ec = ec" and b: "\<not> bad_stream ec" using assms by (simp_all add: prepared_def)
  show ad: "apply_defaults cpus ec = ec"
    by (metis n normal_stream_def apply_defaults_idem)
  have gb: "ec_group_by ec = normal_group (ec_group_by ec)" using normal_group_by [of cpus ec] unfolding n .
  let ?gs = "sort (List.filter (\<lambda>g. g \<noteq> label_keyword) (ec_group_by ec))"
  have "normal_group (ec_group_by ec) = ?gs \<or> normal_group (ec_group_by ec) = ?gs @ [label_keyword]"
    by (simp add: normal_group_def)
  then have gs: "sorted ?gs \<and> label_keyword \<notin> set ?gs \<and> (ec_group_by ec = ?gs \<or> ec_group_by ec = ?gs @ [label_keyword])"
    unfolding gb [symmetric] by simp
  then show "\<exists>gs. sorted gs \<and> label_keyword \<notin> set gs \<and> (ec_group_by ec = gs \<or> ec_group_by ec = gs @ [label_keyword])" by blast
  show "label_keyword \<notin> set (butlast (ec_group_by ec))" using gs by (metis butlast_snoc in_set_butlastD)
  have p: "ec_hll_precision ec = effective_precision ec"
    using apply_defaults_simps(4) [of cpus ec] unfolding ad .
  have "ec_interval (apply_defaults cpus ec) \<noteq> 0" by (simp add: apply_defaults_def)
  then show "ec_interval ec \<noteq> 0" unfolding ad .
  have "4 \<le> effective_precision ec \<and> effective_precision ec \<le> 18"
    using b by (auto simp: bad_stream_def effective_precision_def)
  then show "4 \<le> ec_hll_precision ec" "ec_hll_precision ec \<le> 18" unfolding p [symmetric] by simp_all
qed

lemma read_config_each_prepared:
  assumes "read_config cpus unmarshal sum64 storage_nodes read_file path = Inr cfg" and "ec \<in> set (cf_streams cfg)"
  shows "prepared cpus ec \<and> (\<forall>k \<in> map_keys (ec_labels ec). \<not> reserved_name k)"
proof -
  have "cf_streams cfg \<noteq> []" using assms(2) by auto
  then obtain streams where p: "prepare cpus streams = Inr (cf_streams cfg)"
    using assms(1) by (auto simp: read_config_def split: if_splits sum.splits)
  then have r: "\<not> rejected_streams cpus streams" and n: "cf_streams cfg = map (normal_stream cpus) streams"
    using prepare_spec by blast+
  have "ec \<in> normal_stream cpus ` set streams" using assms(2) unfolding n set_map .
  then obtain ec0 where ec0: "ec0 \<in> set streams" "ec = normal_stream cpus ec0" by (elim imageE)
  then have "\<not> bad_stream ec0" "\<forall>k \<in> map_keys (ec_labels ec0). \<not> reserved_name k" using r ec0(1) unfolding rejected_streams_def by blast+
  then show ?thesis using normal_prepared ec0(2) by simp
qed

text \<open>Creating the estimator of a prepared stream: what \<open>prepare\<close> does not check is rejected here, except the number of buckets.\<close>

lemma new_estimator_rejected:
  "rejected_config parse compile_re cfg \<Longrightarrow> \<exists>err. new_estimator cpus parse compile_re cfg = Inl (Failed err)"
  by (auto simp: new_estimator_def Let_def rejected_config_def apply_defaults_simps find_None_iff
      split: option.splits sum.splits)

lemma new_estimator_prepared:
  assumes "prepared cpus ec"
  shows "case new_estimator cpus parse compile_re ec of
      Inr e \<Rightarrow> \<not> rejected_config parse compile_re ec \<and> ec_buckets ec \<le> max_buckets \<and> fresh_estimator ec e \<and> es_cfg e = ec
        \<and> es_id e = config_id ec
    | Inl (Failed err) \<Rightarrow> rejected_config parse compile_re ec
    | Inl (Panicked p) \<Rightarrow> \<not> rejected_config parse compile_re ec \<and> max_buckets < ec_buckets ec
        \<and> p = BugPanic ''makeslice: len out of range''"
proof -
  note pd = preparedD [OF assms]
  show ?thesis
  proof (cases "rejected_config parse compile_re ec")
    case True
    then obtain err where "new_estimator cpus parse compile_re ec = Inl (Failed err)" using new_estimator_rejected by blast
    then show ?thesis using True by simp
  next
    case False
    show ?thesis
    proof (cases "ec_buckets ec \<le> max_buckets")
      case True
      then have "config_ok ec" using pd(2-4) by (simp add: config_ok_def)
      from new_estimator_fresh [OF this False, of cpus] show ?thesis unfolding pd(1) config_id_def using True False by auto
    next
      case large: False
      then have "new_estimator cpus parse compile_re ec = Inl (Panicked (BugPanic ''makeslice: len out of range''))"
        using new_estimator_too_many_buckets [OF pd(2) False] by simp
      then show ?thesis using False large by simp
    qed
  qed
qed

text \<open>C27: A configuration that was read has the form construction relies on: precisions in range, an interval, at most one
  \<^verbatim>\<open>__label__\<close> and that last, sorted labels, distinct ids, no reserved label; preparing it once more changes nothing.
  So creating the estimator of any of its streams returns a new, empty estimator with these settings, or an error
  exactly if the settings are rejected.  It panics for one reason only, a number of buckets for which no slice can be
  made (more than \<^verbatim>\<open>2^45\<close>), which nothing checks.\<close>

theorem read_config_prepared:
  assumes "read_config cpus unmarshal sum64 storage_nodes read_file path = Inr cfg"
  shows "(\<forall>ec \<in> set (cf_streams cfg). 4 \<le> ec_hll_precision ec \<and> ec_hll_precision ec \<le> 18 \<and> ec_interval ec \<noteq> 0
        \<and> (\<exists>gs. sorted gs \<and> label_keyword \<notin> set gs \<and> (ec_group_by ec = gs \<or> ec_group_by ec = gs @ [label_keyword]))
        \<and> (\<forall>k \<in> map_keys (ec_labels ec). \<not> reserved_name k)
        \<and> (case new_estimator cpus parse compile_re ec of
             Inr e \<Rightarrow> \<not> rejected_config parse compile_re ec \<and> ec_buckets ec \<le> max_buckets \<and> fresh_estimator ec e \<and> es_cfg e = ec
               \<and> es_id e = config_id ec
           | Inl (Failed err) \<Rightarrow> rejected_config parse compile_re ec
           | Inl (Panicked p) \<Rightarrow> \<not> rejected_config parse compile_re ec \<and> max_buckets < ec_buckets ec
               \<and> p = BugPanic ''makeslice: len out of range''))
    \<and> distinct (map config_id (cf_streams cfg)) \<and> prepare cpus (cf_streams cfg) = Inr (cf_streams cfg)"
proof (cases "cf_streams cfg = []")
  case True
  then show ?thesis using prepare_spec [of cpus "[]" "[]"] by (simp add: rejected_streams_def)
next
  case False
  then obtain streams where p: "prepare cpus streams = Inr (cf_streams cfg)"
    using assms by (auto simp: read_config_def split: if_splits sum.splits)
  then have r: "\<not> rejected_streams cpus streams" and n: "cf_streams cfg = map (normal_stream cpus) streams"
    using prepare_spec by blast+
  have each: "prepared cpus ec \<and> (\<forall>k \<in> map_keys (ec_labels ec). \<not> reserved_name k)" if "ec \<in> set (cf_streams cfg)" for ec
    by (rule read_config_each_prepared [OF assms that])
  have d: "distinct (map config_id (cf_streams cfg))" using r by (simp add: n rejected_streams_def comp_def)
  have id: "map (normal_stream cpus) (cf_streams cfg) = cf_streams cfg"
    using each by (intro map_idI) (simp add: prepared_def)
  have "map (\<lambda>ec. config_id (normal_stream cpus ec)) (cf_streams cfg) = map config_id (map (normal_stream cpus) (cf_streams cfg))"
    by simp
  then have "distinct (map (\<lambda>ec. config_id (normal_stream cpus ec)) (cf_streams cfg))" using d unfolding id by (simp only:)
  then have "\<not> rejected_streams cpus (cf_streams cfg)" using each unfolding rejected_streams_def prepared_def by blast
  then have p2: "prepare cpus (cf_streams cfg) = Inr (cf_streams cfg)" using prepare_spec id by metis
  show ?thesis
  proof (intro conjI ballI)
    fix ec assume ec: "ec \<in> set (cf_streams cfg)"
    note e = each [OF ec]
    note pd = preparedD [OF conjunct1 [OF e]]
    show "4 \<le> ec_hll_precision ec" "ec_hll_precision ec \<le> 18" "ec_interval ec \<noteq> 0"
      "\<exists>gs. sorted gs \<and> label_keyword \<notin> set gs \<and> (ec_group_by ec = gs \<or> ec_group_by ec = gs @ [label_keyword])"
      by (fact pd(3) pd(4) pd(5) pd(6))+
    show "case new_estimator cpus parse compile_re ec of
             Inr e \<Rightarrow> \<not> rejected_config parse compile_re ec \<and> ec_buckets ec \<le> max_buckets \<and> fresh_estimator ec e \<and> es_cfg e = ec
               \<and> es_id e = config_id ec
           | Inl (Failed err) \<Rightarrow> rejected_config parse compile_re ec
           | Inl (Panicked p) \<Rightarrow> \<not> rejected_config parse compile_re ec \<and> max_buckets < ec_buckets ec
               \<and> p = BugPanic ''makeslice: len out of range''"
      by (rule new_estimator_prepared [OF conjunct1 [OF e]])
    show "\<not> reserved_name k" if "k \<in> map_keys (ec_labels ec)" for k using e that by blast
  qed (fact d p2)+
qed

subsection \<open>What loading does\<close>

text \<open>The estimator a stream gets, given the active ones: the one with its id and settings, or a new one.\<close>

definition kept :: "(string, estimator) gomap \<Rightarrow> estimator_config \<Rightarrow> bool" where
  "kept old ec \<longleftrightarrow> (case map_of old (config_id ec) of None \<Rightarrow> False | Some e \<Rightarrow> deep_equal (es_cfg e) ec)"

definition loaded ::
  "int \<Rightarrow> selector_parser \<Rightarrow> regexp_compiler \<Rightarrow> (string, estimator) gomap \<Rightarrow> estimator_config
   \<Rightarrow> estimator_error failure + estimator" where
  "loaded cpus parse compile_re old ec =
     (if kept old ec then Inr (the (map_of old (config_id ec))) else new_estimator cpus parse compile_re ec)"

lemma load_stream_loaded:
  "load_stream cpus parse compile_re (removed, es, created) ec =
     (case loaded cpus parse compile_re removed ec of
        Inl (Panicked p) \<Rightarrow> Inl (Panicked p)
      | Inl (Failed err) \<Rightarrow> Inl (Failed (err, created))
      | Inr e \<Rightarrow> Inr (if kept removed ec then AList.delete (config_id ec) removed else removed, es @ [e],
                      if kept removed ec then created else created @ [e]))"
proof (cases "kept removed ec")
  case True
  then show ?thesis by (auto simp: load_stream_def loaded_def kept_def split: option.splits)
next
  case False
  then have "load_stream cpus parse compile_re (removed, es, created) ec = create_stream cpus parse compile_re (removed, es, created) ec"
    by (auto simp: load_stream_def kept_def split: option.splits)
  moreover have "kept removed ec = False" using False by simp
  ultimately show ?thesis unfolding loaded_def create_stream_def by (simp only: if_False prod.case)
qed

lemma loaded_delete:
  "config_id ec \<noteq> i \<Longrightarrow> kept (AList.delete i old) ec = kept old ec
     \<and> loaded cpus parse compile_re (AList.delete i old) ec = loaded cpus parse compile_re old ec"
  by (simp add: kept_def loaded_def delete_conv)

lemma load_streams_ok:
  assumes "distinct (map config_id streams)" and "list_all2 (\<lambda>ec e. loaded cpus parse compile_re removed ec = Inr e) streams new"
  shows "fold_err (load_stream cpus parse compile_re) (removed, es, created) streams
    = Inr (List.filter (\<lambda>(i, _). \<forall>ec \<in> set streams. kept removed ec \<longrightarrow> config_id ec \<noteq> i) removed, es @ new,
           created @ map snd (List.filter (\<lambda>(ec, e). \<not> kept removed ec) (zip streams new)))"
  using assms
proof (induction streams arbitrary: removed es created new)
  case (Cons ec streams)
  obtain e new' where new: "new = e # new'" "loaded cpus parse compile_re removed ec = Inr e"
    "list_all2 (\<lambda>ec e. loaded cpus parse compile_re removed ec = Inr e) streams new'"
    using Cons.prems(2) by (auto simp: list_all2_Cons1)
  have d: "distinct (map config_id streams)" "\<forall>x \<in> set streams. config_id x \<noteq> config_id ec"
    using Cons.prems(1) by (simp_all add: image_iff) metis
  let ?rm = "if kept removed ec then AList.delete (config_id ec) removed else removed"
  have same: "kept ?rm x = kept removed x" "loaded cpus parse compile_re ?rm x = loaded cpus parse compile_re removed x"
    if "x \<in> set streams" for x
    using loaded_delete [of x "config_id ec" removed cpus parse compile_re] d(2) that by auto
  have l: "list_all2 (\<lambda>ec e. loaded cpus parse compile_re ?rm ec = Inr e) streams new'"
    using new(3) same(2) by (auto simp: list_all2_conv_all_nth)
  have f: "List.filter (\<lambda>(ec, e). \<not> kept ?rm ec) (zip streams new') = List.filter (\<lambda>(ec, e). \<not> kept removed ec) (zip streams new')"
    using same(1) by (intro filter_cong) (auto dest: set_zip_leftD)
  have g: "List.filter (\<lambda>(i, _). \<forall>x \<in> set streams. kept ?rm x \<longrightarrow> config_id x \<noteq> i) ?rm
      = List.filter (\<lambda>(i, _). \<forall>x \<in> set (ec # streams). kept removed x \<longrightarrow> config_id x \<noteq> i) removed"
    using same(1) by (auto simp: AList.delete_eq intro!: filter_cong)
  show ?case
    using Cons.IH [OF d(1) l, of "es @ [e]" "if kept removed ec then created else created @ [e]"] new(1,2)
    unfolding f g by (simp add: load_stream_loaded)
qed (simp add: case_prod_beta)

lemma load_streams_failed:
  assumes "distinct (map config_id streams)" and "\<forall>ec \<in> set streams. \<forall>p. loaded cpus parse compile_re removed ec \<noteq> Inl (Panicked p)"
    and "\<exists>ec \<in> set streams. \<exists>err. loaded cpus parse compile_re removed ec = Inl (Failed err)"
  shows "\<exists>err created'. fold_err (load_stream cpus parse compile_re) (removed, es, created) streams = Inl (Failed (err, created'))"
  using assms
proof (induction streams arbitrary: removed es created)
  case (Cons ec streams)
  have d: "distinct (map config_id streams)" "\<forall>x \<in> set streams. config_id x \<noteq> config_id ec"
    using Cons.prems(1) by (simp_all add: image_iff) metis
  let ?rm = "if kept removed ec then AList.delete (config_id ec) removed else removed"
  have same: "loaded cpus parse compile_re ?rm x = loaded cpus parse compile_re removed x"
    if "x \<in> set streams" for x
    using loaded_delete [of x "config_id ec" removed cpus parse compile_re] d(2) that by auto
  show ?case
  proof (cases "loaded cpus parse compile_re removed ec")
    case (Inl f)
    then obtain err where "f = Failed err" using Cons.prems(2) by (cases f) auto
    then show ?thesis using Inl by (simp add: load_stream_loaded)
  next
    case (Inr e)
    have "\<exists>err created'. fold_err (load_stream cpus parse compile_re)
        (?rm, es @ [e], if kept removed ec then created else created @ [e]) streams = Inl (Failed (err, created'))"
      by (rule Cons.IH [OF d(1)]) (use Cons.prems(2,3) same Inr in auto)
    then show ?thesis using Inr by (simp add: load_stream_loaded)
  qed
qed simp

lemma by_id_lookup:
  assumes "distinct (map es_id es)"
  shows "map_ok (by_id es) \<and> set (by_id es) = (\<lambda>e. (es_id e, e)) ` set es \<and> (\<forall>e \<in> set es. map_of (by_id es) (es_id e) = Some e)"
proof -
  have "by_id es = map (\<lambda>e. (es_id e, e)) es"
  proof -
    have "foldl (\<lambda>m e. AList.update (es_id e) e m) m es = m @ map (\<lambda>e. (es_id e, e)) es"
      if "distinct (map fst m @ map es_id es)" for m
      using that
    proof (induction es arbitrary: m)
      case (Cons e es)
      have "es_id e \<notin> map_keys m" using Cons.prems by auto
      then have u: "AList.update (es_id e) e m = m @ [(es_id e, e)]" by (induction m) auto
      have "distinct (map fst (m @ [(es_id e, e)]) @ map es_id es)" using Cons.prems by auto
      from Cons.IH [OF this] show ?case by (simp add: u)
    qed simp
    from this [of "[]"] assms show ?thesis by (simp add: by_id_def)
  qed
  then have eq: "by_id es = map (\<lambda>e. (es_id e, e)) es" .
  have ok: "map_ok (by_id es)" using assms by (simp add: eq map_ok_def comp_def)
  have "map_of (by_id es) (es_id e) = Some e" if "e \<in> set es" for e
    using ok that by (intro map_of_is_SomeI) (auto simp: map_ok_def eq)
  then show ?thesis using ok eq by simp
qed

subsection \<open>Loading keeps the program well-formed\<close>

text \<open>
  A prepared stream with a number of buckets that can be made, an interval in range and names that can be written raw,
  and an active estimator with its config.
\<close>

definition stream_ok :: "int \<Rightarrow> estimator_config \<Rightarrow> bool" where
  "stream_ok cpus ec \<longleftrightarrow> prepared cpus ec \<and> map_ok (ec_labels ec) \<and> interval_ok (ec_interval ec) \<and> ec_buckets ec \<le> max_buckets
     \<and> (\<forall>k \<in> map_keys (ec_labels ec) \<union> set (ec_group_by ec). CHR 0x0A \<notin> set k)"

definition active_ok :: "(string \<Rightarrow> nat) \<Rightarrow> estimator \<Rightarrow> bool" where
  "active_ok P e \<longleftrightarrow> scrape_ok P e \<and> es_id e = config_id (es_cfg e) \<and> ec_hll_precision (es_cfg e) = P (es_id e)"

definition app_ok :: "(string \<Rightarrow> nat) \<Rightarrow> app \<Rightarrow> bool" where
  "app_ok P st \<longleftrightarrow> distinct (map es_id (ap_estimators st)) \<and> (\<forall>e \<in> set (ap_estimators st). active_ok P e)
     \<and> cm_ok P (ap_cm st) \<and> (\<forall>d. ap_dedup st = Some d \<longrightarrow> dedup_ok d)
     \<and> (\<forall>e \<in> set (ap_estimators st). es_has_label_keyword e \<longrightarrow> ap_fingerprint_labels st)"

definition new_precisions :: "(string \<Rightarrow> nat) \<Rightarrow> estimator_config list \<Rightarrow> string \<Rightarrow> nat" where
  "new_precisions P streams i =
     (case find (\<lambda>ec. config_id ec = i) streams of None \<Rightarrow> P i | Some ec \<Rightarrow> ec_hll_precision ec)"

lemma new_precisions_stream:
  "distinct (map config_id streams) \<Longrightarrow> ec \<in> set streams \<Longrightarrow> new_precisions P streams (config_id ec) = ec_hll_precision ec"
proof (induction streams)
  case (Cons x streams)
  then show ?case by (cases "x = ec") (auto simp: new_precisions_def)
qed simp

lemma new_precisions_other: "i \<notin> config_id ` set streams \<Longrightarrow> new_precisions P streams i = P i"
proof -
  assume "i \<notin> config_id ` set streams"
  then have "find (\<lambda>ec. config_id ec = i) streams = None" by (auto simp: find_None_iff)
  then show ?thesis by (simp add: new_precisions_def)
qed

lemma new_estimator_stream:
  assumes "stream_ok cpus ec" and "new_estimator cpus parse compile_re ec = Inr e"
  shows "fresh_estimator ec e" "es_cfg e = ec" "es_id e = config_id ec" "effective_precision ec = ec_hll_precision ec"
proof -
  note pd = preparedD [of cpus ec]
  have s: "prepared cpus ec" "ec_buckets ec \<le> max_buckets" using assms(1) unfolding stream_ok_def by blast+
  have c: "config_ok ec" using pd(2-4) [OF s(1)] s(2) by (simp add: config_ok_def)
  have ad: "apply_defaults cpus ec = ec" by (rule pd(1) [OF s(1)])
  have "\<not> rejected_config parse compile_re ec" using new_estimator_failed [OF c, of parse compile_re cpus] assms(2) by auto
  then show "fresh_estimator ec e" "es_cfg e = ec" "es_id e = config_id ec"
    using new_estimator_fresh [OF c, of parse compile_re cpus] assms(2) unfolding ad config_id_def by auto
  show "effective_precision ec = ec_hll_precision ec" using pd(3) [OF s(1)] by (simp add: effective_precision_def)
qed

lemma new_estimator_active:
  assumes "stream_ok cpus ec" and "new_estimator cpus parse compile_re ec = Inr e" and "P (config_id ec) = ec_hll_precision ec"
  shows "active_ok P e \<and> es_id e = config_id ec \<and> es_cfg e = ec"
proof -
  have s: "prepared cpus ec" "map_ok (ec_labels ec)" "interval_ok (ec_interval ec)"
    "\<forall>k \<in> map_keys (ec_labels ec) \<union> set (ec_group_by ec). CHR 0x0A \<notin> set k" using assms(1) unfolding stream_ok_def by blast+
  have ad: "apply_defaults cpus ec = ec" by (rule preparedD(1) [OF s(1)])
  note f = new_estimator_stream [OF assms(1,2)]
  note v = fresh_values_ok [OF assms(2), unfolded ad]
  have ok: "estimator_ok (P (es_id e)) e" using f(1,3,4) assms(3) by (simp add: fresh_estimator_def)
  then have hd: "hd (es_buckets e) \<in> set (es_buckets e)" using estimator_okD(1) by simp
  have "es_id e \<noteq> []" by (simp add: f(3) config_id_def estimator_id_def Let_def)
  moreover have "es_names_ok e" using v s(4) unfolding es_names_ok_def by auto
  moreover have "interval_ok (eb_interval (hd (es_buckets e)))" using v hd s(3) by simp
  moreover have "\<forall>eb \<in> set (es_buckets e). map_ok (eb_labels eb)" using v s(2) by simp
  ultimately have "scrape_ok P e" using ok v by (simp add: scrape_ok_def node_ok_def)
  then show ?thesis using f assms(3) by (simp add: active_ok_def)
qed

lemma active_ok_cong: "P (es_id e) = P' (es_id e) \<Longrightarrow> active_ok P e = active_ok P' e"
  by (simp add: active_ok_def scrape_ok_def node_ok_def)

lemma churn_state_cong:
  assumes "churn_state_ok P cs" and "\<forall>k \<in> map_keys cs. Q k \<longrightarrow> P (fst k) = P' (fst k)"
  shows "churn_state_ok P' (List.filter (\<lambda>(k, e). Q k) cs)"
proof -
  have 1: "churn_ok P cs" "\<forall>e \<in> snd ` set cs. churn_fit e" using assms(1) by (simp_all add: churn_state_ok_def)
  have "map_ok (List.filter (\<lambda>(k, e). Q k) cs)"
    using 1(1) unfolding churn_ok_def map_ok_def by (metis distinct_map_filter)
  moreover have "churn_entry_ok (P' (fst k)) e" if "(k, e) \<in> set (List.filter (\<lambda>(k, e). Q k) cs)" for k e
  proof -
    have ke: "(k, e) \<in> set cs" "Q k" using that by auto
    then have "P (fst k) = P' (fst k)" using assms(2) by force
    moreover have "churn_entry_ok (P (fst k)) e" using 1(1) ke(1) by (auto simp: churn_ok_def)
    ultimately show ?thesis by simp
  qed
  ultimately show ?thesis using 1(2) by (auto simp: churn_state_ok_def churn_ok_def)
qed

lemma loaded_total:
  assumes "stream_ok cpus ec"
  shows "if kept old ec \<or> \<not> rejected_config parse compile_re ec then \<exists>e. loaded cpus parse compile_re old ec = Inr e
    else \<exists>err. loaded cpus parse compile_re old ec = Inl (Failed err)"
proof -
  have "config_ok ec" using preparedD(2-4) [of cpus ec] assms by (auto simp: config_ok_def stream_ok_def)
  from new_estimator_failed [OF this, of parse compile_re cpus] new_estimator_fresh [OF this, of parse compile_re cpus]
  show ?thesis
    by (cases "kept old ec") (auto simp: loaded_def)
qed

lemma keptD:
  assumes "kept (by_id es) ec" and "distinct (map es_id es)"
  shows "\<exists>e \<in> set es. map_of (by_id es) (config_id ec) = Some e \<and> es_id e = config_id ec \<and> deep_equal (es_cfg e) ec"
proof -
  obtain e where e: "map_of (by_id es) (config_id ec) = Some e" "deep_equal (es_cfg e) ec"
    using assms(1) by (auto simp: kept_def split: option.splits)
  have "(config_id ec, e) \<in> set (by_id es)" using map_of_SomeD [OF e(1)] .
  then show ?thesis using by_id_lookup [OF assms(2)] e by auto
qed

lemma deep_equal_precision: "deep_equal a b \<Longrightarrow> ec_hll_precision a = ec_hll_precision b"
proof -
  assume "deep_equal a b"
  then have "a\<lparr>ec_labels := []\<rparr> = b\<lparr>ec_labels := []\<rparr>" by (simp add: deep_equal_def)
  from arg_cong [OF this, of ec_hll_precision] show ?thesis by simp
qed

lemma loaded_active:
  assumes "app_ok P st" and "stream_ok cpus ec" and "ec \<in> set streams" and "distinct (map config_id streams)"
    and "loaded cpus parse compile_re (by_id (ap_estimators st)) ec = Inr e"
  shows "active_ok (new_precisions P streams) e \<and> es_id e = config_id ec \<and> deep_equal (es_cfg e) ec
    \<and> (kept (by_id (ap_estimators st)) ec \<longrightarrow> e \<in> set (ap_estimators st) \<and> P (es_id e) = new_precisions P streams (es_id e))"
proof (cases "kept (by_id (ap_estimators st)) ec")
  case True
  have d: "distinct (map es_id (ap_estimators st))" using assms(1) by (simp add: app_ok_def)
  obtain e0 where e0: "e0 \<in> set (ap_estimators st)" "map_of (by_id (ap_estimators st)) (config_id ec) = Some e0"
    "es_id e0 = config_id ec" "deep_equal (es_cfg e0) ec" using keptD [OF True d] by blast
  then have e: "e = e0" using assms(5) True by (simp add: loaded_def)
  have a: "active_ok P e" using assms(1) e0(1) e by (simp add: app_ok_def)
  have "P (es_id e) = new_precisions P streams (es_id e)"
    using a deep_equal_precision [OF e0(4)] new_precisions_stream [OF assms(4,3), of P] e e0(3) by (simp add: active_ok_def)
  then show ?thesis using a active_ok_cong e e0 by blast
next
  case False
  have n: "new_estimator cpus parse compile_re ec = Inr e" using assms(5) False by (simp add: loaded_def)
  have "deep_equal ec ec" by (simp add: deep_equal_def same_map_def)
  then show ?thesis using new_estimator_active [OF assms(2) n] new_precisions_stream [OF assms(4,3), of P] False by simp
qed

text \<open>The churn state has nothing to say about a stream that is new, or what it has agrees in precision.\<close>

definition churn_agrees :: "(string \<Rightarrow> nat) \<Rightarrow> estimator_config list \<Rightarrow> app \<Rightarrow> bool" where
  "churn_agrees P streams st \<longleftrightarrow>
     (\<forall>ec \<in> set streams. config_id ec \<notin> es_id ` set (ap_estimators st)
        \<longrightarrow> P (config_id ec) = ec_hll_precision ec \<or> config_id ec \<notin> fst ` map_keys (cm_churn (ap_cm st)))"

text \<open>The active estimators that no stream keeps.\<close>

definition dropped :: "estimator_config list \<Rightarrow> estimator list \<Rightarrow> estimator set" where
  "dropped streams es = {e \<in> set es. \<not> (\<exists>ec \<in> set streams. kept (by_id es) ec \<and> config_id ec = es_id e)}"

definition load_done ::
  "int \<Rightarrow> selector_parser \<Rightarrow> regexp_compiler \<Rightarrow> estimator_config list \<Rightarrow> app \<Rightarrow> app \<Rightarrow> bool" where
  "load_done cpus parse compile_re streams st st' \<longleftrightarrow>
     list_all2 (\<lambda>ec e. loaded cpus parse compile_re (by_id (ap_estimators st)) ec = Inr e) streams (ap_estimators st')
     \<and> set (ap_stopped st') = set (ap_stopped st) \<union> dropped streams (ap_estimators st)
     \<and> ap_dedup st' = (if \<exists>ec \<in> set streams. \<not> kept (by_id (ap_estimators st)) ec
                      then map_option dedup_reset (ap_dedup st) else ap_dedup st)
     \<and> (\<forall>k. map_of (cm_churn (ap_cm st')) k =
           (if fst k \<in> es_id ` dropped streams (ap_estimators st) then None else map_of (cm_churn (ap_cm st)) k))
     \<and> cm_cache_at (ap_cm st') = None"

lemma load_config_run:
  assumes "app_ok P st" and "\<forall>ec \<in> set streams. stream_ok cpus ec" and "distinct (map config_id streams)"
    and "\<forall>ec \<in> set streams. kept (by_id (ap_estimators st)) ec \<or> \<not> rejected_config parse compile_re ec"
  shows "\<exists>new created removed.
      list_all2 (\<lambda>ec e. loaded cpus parse compile_re (by_id (ap_estimators st)) ec = Inr e) streams new
    \<and> fold_err (load_stream cpus parse compile_re) (by_id (ap_estimators st), [], []) streams = Inr (removed, new, created)
    \<and> snd ` set removed = dropped streams (ap_estimators st)
    \<and> map_keys removed = es_id ` dropped streams (ap_estimators st)
    \<and> set created \<subseteq> set new \<and> (\<forall>e \<in> set new. e \<in> set created \<or> e \<in> set (ap_estimators st))
    \<and> (created = [] \<longleftrightarrow> (\<forall>ec \<in> set streams. kept (by_id (ap_estimators st)) ec))"
proof -
  let ?old = "by_id (ap_estimators st)"
  have d: "distinct (map es_id (ap_estimators st))" using assms(1) by (simp add: app_ok_def)
  have "\<forall>ec \<in> set streams. \<exists>e. loaded cpus parse compile_re ?old ec = Inr e"
    using loaded_total assms(2,4) by metis
  then obtain g where "\<forall>ec \<in> set streams. loaded cpus parse compile_re ?old ec = Inr (g ec)" by metis
  then obtain new where l: "list_all2 (\<lambda>ec e. loaded cpus parse compile_re ?old ec = Inr e) streams new"
    by (intro that [of "map g streams"]) (simp add: list_all2_conv_all_nth)
  let ?removed = "List.filter (\<lambda>(i, _). \<forall>ec \<in> set streams. kept ?old ec \<longrightarrow> config_id ec \<noteq> i) ?old"
  let ?created = "map snd (List.filter (\<lambda>(ec, e). \<not> kept ?old ec) (zip streams new))"
  have run: "fold_err (load_stream cpus parse compile_re) (?old, [], []) streams = Inr (?removed, new, ?created)"
    using load_streams_ok [OF assms(3) l, of "[]" "[]"] by simp
  have rem: "set ?removed = (\<lambda>e. (es_id e, e)) ` dropped streams (ap_estimators st)"
    using by_id_lookup [OF d] unfolding dropped_def by auto
  have len: "length new = length streams" using l by (simp add: list_all2_lengthD)
  have pairs: "loaded cpus parse compile_re ?old ec = Inr e" if "(ec, e) \<in> set (zip streams new)" for ec e
    using l that by (auto simp: list_all2_iff)
  have "snd ` set ?removed = dropped streams (ap_estimators st)" "map_keys ?removed = es_id ` dropped streams (ap_estimators st)"
    unfolding rem by (auto simp: image_image)
  moreover have "set ?created \<subseteq> set new" by (auto dest: set_zip_rightD)
  moreover have "e \<in> set ?created \<or> e \<in> set (ap_estimators st)" if e: "e \<in> set new" for e
  proof -
    obtain i where i: "i < length new" "e = new ! i" using e by (metis in_set_conv_nth)
    then have z: "(streams ! i, e) \<in> set (zip streams new)" using len by (metis length_zip min.idem nth_mem nth_zip)
    show ?thesis
    proof (cases "kept ?old (streams ! i)")
      case True
      then show ?thesis using pairs [OF z] keptD [OF True d] by (auto simp: loaded_def)
    next
      case False
      then have "(streams ! i, e) \<in> set (List.filter (\<lambda>(ec, e). \<not> kept ?old ec) (zip streams new))" using z by simp
      then show ?thesis by force
    qed
  qed
  moreover have "?created = [] \<longleftrightarrow> (\<forall>ec \<in> set streams. kept ?old ec)"
  proof -
    have "?created = [] \<longleftrightarrow> (\<forall>x \<in> set (zip streams new). kept ?old (fst x))"
      by (auto simp: filter_empty_conv)
    also have "\<dots> \<longleftrightarrow> (\<forall>ec \<in> set (map fst (zip streams new)). kept ?old ec)" by auto
    finally show ?thesis using len by simp
  qed
  ultimately show ?thesis using l run by blast
qed

lemma load_config_keeps_ok:
  assumes "app_ok P st" and "\<forall>ec \<in> set streams. stream_ok cpus ec" and "distinct (map config_id streams)"
    and "churn_agrees P streams st" and "load_done cpus parse compile_re streams st st'"
    and "\<forall>e \<in> set (ap_estimators st'). es_has_label_keyword e \<longrightarrow> ap_fingerprint_labels st'"
    and "cm_churn (ap_cm st') = List.filter (\<lambda>(k, e). Q k) (cm_churn (ap_cm st))"
    and "\<forall>k. Q k \<longleftrightarrow> fst k \<notin> es_id ` dropped streams (ap_estimators st)"
    and "cm_cache (ap_cm st') = cm_cache (ap_cm st)"
  shows "app_ok (new_precisions P streams) st'"
proof -
  let ?old = "by_id (ap_estimators st)" and ?P = "new_precisions P streams"
  have l: "list_all2 (\<lambda>ec e. loaded cpus parse compile_re ?old ec = Inr e) streams (ap_estimators st')"
    using assms(5) by (simp add: load_done_def)
  then have len: "length (ap_estimators st') = length streams" by (simp add: list_all2_lengthD)
  have each: "active_ok ?P (ap_estimators st' ! i) \<and> es_id (ap_estimators st' ! i) = config_id (streams ! i)"
    if "i < length streams" for i
    using loaded_active [OF assms(1) _ _ assms(3), of cpus "streams ! i" parse compile_re] assms(2) list_all2_nthD [OF l that] that
    by simp
  have "map es_id (ap_estimators st') = map config_id streams"
    by (rule nth_equalityI) (use len each in auto)
  then have "distinct (map es_id (ap_estimators st'))" using assms(3) by simp
  moreover have "\<forall>e \<in> set (ap_estimators st'). active_ok ?P e" using each len by (auto simp: in_set_conv_nth)
  moreover have "\<forall>d. ap_dedup st' = Some d \<longrightarrow> dedup_ok d"
    using assms(1,5) dedup_reset_ok by (auto simp: load_done_def app_ok_def split: if_splits)
  moreover have "cm_ok ?P (ap_cm st')"
  proof -
    have cs: "churn_state_ok P (cm_churn (ap_cm st))" using assms(1) by (simp add: app_ok_def cm_ok_def)
    have "P (fst k) = ?P (fst k)" if k: "k \<in> map_keys (cm_churn (ap_cm st))" "Q k" for k
    proof (cases "fst k \<in> config_id ` set streams")
      case True
      then obtain ec where ec: "ec \<in> set streams" "fst k = config_id ec" by auto
      have p: "?P (fst k) = ec_hll_precision ec" using new_precisions_stream [OF assms(3) ec(1)] ec(2) by simp
      show ?thesis
      proof (cases "fst k \<in> es_id ` set (ap_estimators st)")
        case True
        then obtain e where e: "e \<in> set (ap_estimators st)" "es_id e = fst k" by auto
        have "e \<notin> dropped streams (ap_estimators st)" using assms(8) k(2) e(2) by (metis image_eqI)
        then obtain x where x: "x \<in> set streams" "kept ?old x" "config_id x = fst k" using e by (auto simp: dropped_def)
        then have "x = ec" using assms(3) ec by (metis distinct_map inj_onD)
        obtain e0 where e0: "loaded cpus parse compile_re ?old x = Inr e0" using x(2) by (simp add: loaded_def)
        from loaded_active [OF assms(1) _ x(1) assms(3) e0] show ?thesis using assms(2) x by auto
      next
        case False
        have "fst k \<in> fst ` map_keys (cm_churn (ap_cm st))" by (rule imageI [OF k(1)])
        then have "P (config_id ec) = ec_hll_precision ec"
          using assms(4) ec(1) False unfolding churn_agrees_def ec(2) by blast
        then show ?thesis using p ec(2) by simp
      qed
    qed (simp add: new_precisions_other)
    then have "churn_state_ok ?P (cm_churn (ap_cm st'))" unfolding assms(7) by (intro churn_state_cong [OF cs]) blast
    then show ?thesis using assms(1,9) by (simp add: app_ok_def cm_ok_def)
  qed
  ultimately show ?thesis using assms(6) by (simp add: app_ok_def)
qed

lemma load_config_ok:
  assumes "app_ok P st" and "\<forall>ec \<in> set streams. stream_ok cpus ec" and "distinct (map config_id streams)"
    and "churn_agrees P streams st"
  shows "if \<exists>ec \<in> set streams. \<not> kept (by_id (ap_estimators st)) ec \<and> rejected_config parse compile_re ec
    then \<exists>err created. load_config cpus parse compile_re streams st
           = Inr (st\<lparr>ap_stopped := ap_stopped st @ created\<rparr>, Inl err)
    else if (\<forall>ec \<in> set streams. kept (by_id (ap_estimators st)) ec) \<and> dropped streams (ap_estimators st) = {}
    then load_config cpus parse compile_re streams st = Inr (st, Inr False)
    else \<exists>st'. load_config cpus parse compile_re streams st = Inr (st', Inr True)
      \<and> load_done cpus parse compile_re streams st st' \<and> app_ok (new_precisions P streams) st'"
proof -
  let ?old = "by_id (ap_estimators st)"
  show ?thesis
  proof (cases "\<exists>ec \<in> set streams. \<not> kept ?old ec \<and> rejected_config parse compile_re ec")
    case True
    have np: "\<forall>ec \<in> set streams. \<forall>p. loaded cpus parse compile_re ?old ec \<noteq> Inl (Panicked p)"
      using loaded_total assms(2) by (metis failure.distinct(1) sum.distinct(1) sum.inject(1))
    have "\<exists>ec \<in> set streams. \<exists>err. loaded cpus parse compile_re ?old ec = Inl (Failed err)"
      using loaded_total assms(2) True by metis
    from load_streams_failed [OF assms(3) np this, of "[]" "[]"] True show ?thesis by (auto simp: load_config_def)
  next
    case False
    then have "\<forall>ec \<in> set streams. kept ?old ec \<or> \<not> rejected_config parse compile_re ec" by blast
    from load_config_run [OF assms(1-3) this] obtain new created removed where
      r: "list_all2 (\<lambda>ec e. loaded cpus parse compile_re ?old ec = Inr e) streams new"
      "fold_err (load_stream cpus parse compile_re) (?old, [], []) streams = Inr (removed, new, created)"
      "snd ` set removed = dropped streams (ap_estimators st)" "map_keys removed = es_id ` dropped streams (ap_estimators st)"
      "set created \<subseteq> set new" "\<forall>e \<in> set new. e \<in> set created \<or> e \<in> set (ap_estimators st)"
      "created = [] \<longleftrightarrow> (\<forall>ec \<in> set streams. kept ?old ec)" by blast
    have "removed = [] \<longleftrightarrow> dropped streams (ap_estimators st) = {}" using r(3) by (metis image_is_empty set_empty)
    then have same: "created = [] \<and> removed = [] \<longleftrightarrow>
        (\<forall>ec \<in> set streams. kept ?old ec) \<and> dropped streams (ap_estimators st) = {}" using r(7) by blast
    let ?st = "st\<lparr>ap_fingerprint_labels := (ap_fingerprint_labels st \<or> list_ex es_has_label_keyword created),
                  ap_estimators := new,
                  ap_dedup := (if created \<noteq> [] then map_option dedup_reset (ap_dedup st) else ap_dedup st),
                  ap_stopped := ap_stopped st @ map snd removed,
                  ap_cm := invalidate_cardinality_cache removed (ap_cm st)\<rparr>"
    have run: "load_config cpus parse compile_re streams st = (if created = [] \<and> removed = [] then Inr (st, Inr False) else Inr (?st, Inr True))"
      unfolding load_config_def r(2) by simp
    have c: "(created \<noteq> []) = (\<exists>ec \<in> set streams. \<not> kept ?old ec)" using r(7) by blast
    have fin: "load_done cpus parse compile_re streams st ?st"
      unfolding load_done_def c using r(1,3,4)
      by (simp add: invalidate_churn) (simp add: invalidate_cardinality_cache_def)
    have "es_has_label_keyword e \<longrightarrow> ap_fingerprint_labels ?st" if "e \<in> set (ap_estimators ?st)" for e
      using that r(6) assms(1) by (auto simp: app_ok_def list_ex_iff)
    then have flag: "\<forall>e \<in> set (ap_estimators ?st). es_has_label_keyword e \<longrightarrow> ap_fingerprint_labels ?st" by blast
    have q: "\<forall>k. (map_of removed (fst k) = None) \<longleftrightarrow> fst k \<notin> es_id ` dropped streams (ap_estimators st)"
      using r(4) map_of_not_in_keys by metis
    have "app_ok (new_precisions P streams) ?st"
      by (rule load_config_keeps_ok [OF assms fin flag _ q]) (simp_all add: invalidate_cardinality_cache_def)
    then show ?thesis using False run same fin by auto
  qed
qed

text \<open>C12: Loading a configuration never panics.  It fails exactly when a stream that is not kept has a rejected setting,
  and then only the estimators made so far are stopped.  Otherwise every stream gets the active estimator with its
  id and settings, state included, or a new one; the other active ones are stopped, and only their churn is
  dropped; the deduplicator forgets if there is a new estimator.  Nothing happens if the set of estimators
  stays the same.  The program stays well-formed.\<close>

theorem load_config_exact:
  assumes "app_ok P st" and "\<forall>ec \<in> set streams. stream_ok cpus ec" and "distinct (map config_id streams)"
    and "churn_agrees P streams st"
  shows "if \<exists>ec \<in> set streams. \<not> kept (by_id (ap_estimators st)) ec \<and> rejected_config parse compile_re ec
    then \<exists>err created. load_config cpus parse compile_re streams st
           = Inr (st\<lparr>ap_stopped := ap_stopped st @ created\<rparr>, Inl err)
    else if (\<forall>ec \<in> set streams. kept (by_id (ap_estimators st)) ec) \<and> dropped streams (ap_estimators st) = {}
    then load_config cpus parse compile_re streams st = Inr (st, Inr False)
    else \<exists>st'. load_config cpus parse compile_re streams st = Inr (st', Inr True)
      \<and> load_done cpus parse compile_re streams st st' \<and> app_ok (new_precisions P streams) st'"
  using load_config_ok [OF assms] .

subsection \<open>The first load\<close>

text \<open>Without active estimators the streams are created in order, up to the first one that is rejected.\<close>

fun too_many_buckets :: "selector_parser \<Rightarrow> regexp_compiler \<Rightarrow> estimator_config list \<Rightarrow> bool" where
  "too_many_buckets parse compile_re [] \<longleftrightarrow> False"
| "too_many_buckets parse compile_re (ec # streams) \<longleftrightarrow>
     \<not> rejected_config parse compile_re ec \<and> (max_buckets < ec_buckets ec \<or> too_many_buckets parse compile_re streams)"

lemma first_load_panics:
  assumes "\<forall>ec \<in> set streams. prepared cpus ec" and "ap_estimators st = []"
  shows "(\<exists>p. load_config cpus parse compile_re streams st = Inl p) \<longleftrightarrow> too_many_buckets parse compile_re streams"
proof -
  have "(\<exists>p. fold_err (load_stream cpus parse compile_re) ([], es, created) streams = Inl (Panicked p))
      \<longleftrightarrow> too_many_buckets parse compile_re streams" for es created
    using assms(1)
  proof (induction streams arbitrary: es created)
    case (Cons ec streams)
    have "prepared cpus ec" using Cons.prems by simp
    from new_estimator_prepared [OF this, of parse compile_re] have ne:
      "case new_estimator cpus parse compile_re ec of
         Inr e \<Rightarrow> \<not> rejected_config parse compile_re ec \<and> ec_buckets ec \<le> max_buckets
       | Inl (Failed err) \<Rightarrow> rejected_config parse compile_re ec
       | Inl (Panicked p) \<Rightarrow> \<not> rejected_config parse compile_re ec \<and> max_buckets < ec_buckets ec"
      by (auto split: sum.splits failure.splits)
    have l: "kept [] ec = False" "loaded cpus parse compile_re [] ec = new_estimator cpus parse compile_re ec"
      by (simp_all add: kept_def loaded_def)
    show ?case
    proof (cases "new_estimator cpus parse compile_re ec")
      case (Inl f)
      then show ?thesis using ne by (cases f) (simp_all add: load_stream_loaded l)
    next
      case (Inr e)
      then show ?thesis using ne Cons.IH Cons.prems by (simp add: load_stream_loaded l)
    qed
  qed simp
  from this [of "[]" "[]"] show ?thesis
    unfolding load_config_def assms(2) by (auto simp: by_id_def split: sum.splits failure.splits prod.splits if_splits)
qed

subsection \<open>Reloading\<close>

text \<open>The active estimators are those of the streams, in any order.\<close>

definition settled :: "estimator_config list \<Rightarrow> estimator list \<Rightarrow> bool" where
  "settled streams es \<longleftrightarrow> (\<forall>ec \<in> set streams. kept (by_id es) ec) \<and> dropped streams es = {}"

lemma load_done_settled:
  assumes "app_ok P st" and "\<forall>ec \<in> set streams. stream_ok cpus ec" and "distinct (map config_id streams)"
    and "load_done cpus parse compile_re streams st st'" and "app_ok P' st'"
  shows "settled streams (ap_estimators st') \<and> es_id ` set (ap_estimators st') = config_id ` set streams"
proof -
  let ?es = "ap_estimators st'"
  have l: "list_all2 (\<lambda>ec e. loaded cpus parse compile_re (by_id (ap_estimators st)) ec = Inr e) streams ?es"
    using assms(4) by (simp add: load_done_def)
  have len: "length ?es = length streams" using l by (simp add: list_all2_lengthD)
  have d: "distinct (map es_id ?es)" using assms(5) by (simp add: app_ok_def)
  have each: "es_id (?es ! i) = config_id (streams ! i) \<and> kept (by_id ?es) (streams ! i)" if i: "i < length streams" for i
  proof -
    have e: "es_id (?es ! i) = config_id (streams ! i)" "deep_equal (es_cfg (?es ! i)) (streams ! i)"
      using loaded_active [OF assms(1) _ _ assms(3), of cpus "streams ! i" parse compile_re] assms(2) list_all2_nthD [OF l i] i
      by simp_all
    have "?es ! i \<in> set ?es" using i len by simp
    then have "map_of (by_id ?es) (es_id (?es ! i)) = Some (?es ! i)" using by_id_lookup [OF d] by blast
    then show ?thesis using e by (simp add: kept_def)
  qed
  have "\<forall>ec \<in> set streams. kept (by_id ?es) ec" using each by (auto simp: in_set_conv_nth)
  moreover have "\<exists>ec \<in> set streams. kept (by_id ?es) ec \<and> config_id ec = es_id e" if "e \<in> set ?es" for e
  proof -
    obtain i where i: "i < length ?es" "e = ?es ! i" using \<open>e \<in> set ?es\<close> by (metis in_set_conv_nth)
    then have "streams ! i \<in> set streams" using len by simp
    then show ?thesis using each [of i] i len by (intro bexI [of _ "streams ! i"]) auto
  qed
  moreover have "map es_id ?es = map config_id streams" by (rule nth_equalityI) (use len each in auto)
  then have "es_id ` set ?es = config_id ` set streams" by (metis set_map)
  ultimately show ?thesis by (auto simp: settled_def dropped_def)
qed

lemma settled_ids: "settled streams es \<Longrightarrow> distinct (map es_id es) \<Longrightarrow> es_id ` set es = config_id ` set streams"
proof -
  assume s: "settled streams es" and d: "distinct (map es_id es)"
  have "es_id e \<in> config_id ` set streams" if "e \<in> set es" for e
    using s that unfolding settled_def dropped_def by force
  moreover have "config_id ec \<in> es_id ` set es" if "ec \<in> set streams" for ec
    using keptD [OF _ d, of ec] s that unfolding settled_def by force
  ultimately show ?thesis by blast
qed

text \<open>Loading the same configuration once more changes nothing: no estimator is created or stopped, the deduplicator and
  the cache are left alone.\<close>

theorem load_config_idempotent:
  assumes "app_ok P st" and "\<forall>ec \<in> set streams. stream_ok cpus ec" and "distinct (map config_id streams)"
    and "churn_agrees P streams st" and "load_config cpus parse compile_re streams st = Inr (st', Inr changed)"
  shows "load_config cpus parse compile_re streams st' = Inr (st', Inr False)"
proof -
  have again: "load_config cpus parse compile_re streams s = Inr (s, Inr False)"
    if s: "app_ok Q s" "settled streams (ap_estimators s)" for Q s
  proof -
    have "distinct (map es_id (ap_estimators s))" using s(1) by (simp add: app_ok_def)
    from settled_ids [OF s(2) this] have "churn_agrees Q streams s" by (auto simp: churn_agrees_def)
    from load_config_ok [OF s(1) assms(2,3) this, of parse compile_re] s(2) show ?thesis by (auto simp: settled_def split: if_splits)
  qed
  let ?c1 = "\<exists>ec \<in> set streams. \<not> kept (by_id (ap_estimators st)) ec \<and> rejected_config parse compile_re ec"
  let ?c2 = "(\<forall>ec \<in> set streams. kept (by_id (ap_estimators st)) ec) \<and> dropped streams (ap_estimators st) = {}"
  note ok = load_config_ok [OF assms(1-4), of parse compile_re]
  consider (same) "?c2" "st' = st" | (new) "load_done cpus parse compile_re streams st st'" "app_ok (new_precisions P streams) st'"
    using ok assms(5) by (cases ?c1; cases ?c2) auto
  then show ?thesis
  proof cases
    case same
    then show ?thesis using again [OF assms(1)] by (simp add: settled_def)
  next
    case new
    then show ?thesis using again [OF new(2)] load_done_settled [OF assms(1-3) new] by blast
  qed
qed

text \<open>What the reloader keeps: the program is well-formed and runs the streams of the config loaded last.\<close>

definition reloader_ok :: "reloader \<Rightarrow> bool" where
  "reloader_ok rl \<longleftrightarrow> (\<exists>P. app_ok P (rl_app rl)) \<and> settled (cf_streams (rl_cfg rl)) (ap_estimators (rl_app rl))
     \<and> fst ` map_keys (cm_churn (ap_cm (rl_app rl))) \<subseteq> es_id ` set (ap_estimators (rl_app rl))"

lemma load_done_local:
  assumes "load_done cpus parse compile_re streams st st'"
    and "fst ` map_keys (cm_churn (ap_cm st)) \<subseteq> es_id ` set (ap_estimators st)"
    and "es_id ` set (ap_estimators st') = config_id ` set streams"
  shows "fst ` map_keys (cm_churn (ap_cm st')) \<subseteq> es_id ` set (ap_estimators st')"
proof (intro subsetI)
  fix i assume "i \<in> fst ` map_keys (cm_churn (ap_cm st'))"
  then obtain k where k: "k \<in> map_keys (cm_churn (ap_cm st'))" "i = fst k" by (elim imageE) blast
  have "map_of (cm_churn (ap_cm st')) k =
      (if fst k \<in> es_id ` dropped streams (ap_estimators st) then None else map_of (cm_churn (ap_cm st)) k)"
    using assms(1) unfolding load_done_def by blast
  moreover have "map_of (cm_churn (ap_cm st')) k \<noteq> None" using k(1) map_of_not_in_keys by metis
  ultimately have nd: "fst k \<notin> es_id ` dropped streams (ap_estimators st)" and "map_of (cm_churn (ap_cm st)) k \<noteq> None"
    by (simp_all split: if_splits)
  then have "k \<in> map_keys (cm_churn (ap_cm st))" using map_of_not_in_keys by metis
  then have "fst k \<in> es_id ` set (ap_estimators st)" using assms(2) by blast
  then obtain e where e: "e \<in> set (ap_estimators st)" "es_id e = fst k" by (elim imageE) simp
  have "e \<notin> dropped streams (ap_estimators st)" using nd e(2) by (metis imageI)
  then obtain ec where "ec \<in> set streams" "config_id ec = fst k" using e unfolding dropped_def by auto
  then show "i \<in> es_id ` set (ap_estimators st')" unfolding assms(3) k(2) by (metis imageI)
qed

text \<open>
  What the files are assumed to ask for, and nothing in the program checks: names without line breaks, positive
  intervals below \<^verbatim>\<open>2^62\<close> nanoseconds or none, and at most \<^verbatim>\<open>2^45\<close> buckets.  Label maps have distinct keys, as Go's maps do.
\<close>

definition decoded_ok :: "(string \<Rightarrow> string + estimator_config list) \<Rightarrow> bool" where
  "decoded_ok unmarshal \<longleftrightarrow> (\<forall>data streams. unmarshal data = Inr streams \<longrightarrow>
     (\<forall>ec \<in> set streams. map_ok (ec_labels ec) \<and> (ec_interval ec = 0 \<or> interval_ok (ec_interval ec)) \<and> ec_buckets ec \<le> max_buckets
        \<and> (\<forall>k \<in> map_keys (ec_labels ec) \<union> set (ec_group_by ec). CHR 0x0A \<notin> set k)))"

lemma read_config_streams:
  assumes "decoded_ok unmarshal" and "read_config cpus unmarshal sum64 nodes read_file path = Inr cfg"
  shows "(\<forall>ec \<in> set (cf_streams cfg). stream_ok cpus ec) \<and> distinct (map config_id (cf_streams cfg))"
proof (cases "cf_streams cfg = []")
  case False
  then obtain data streams where u: "unmarshal data = Inr streams" and p: "prepare cpus streams = Inr (cf_streams cfg)"
    using assms(2) by (auto simp: read_config_def split: if_splits sum.splits)
  then have r: "\<not> rejected_streams cpus streams" and n: "cf_streams cfg = map (normal_stream cpus) streams"
    using prepare_spec by blast+
  have "stream_ok cpus (normal_stream cpus ec)" if ec: "ec \<in> set streams" for ec
  proof -
    have b: "\<not> bad_stream ec" using r ec unfolding rejected_streams_def by blast
    have y: "map_ok (ec_labels ec)" "ec_interval ec = 0 \<or> interval_ok (ec_interval ec)" "ec_buckets ec \<le> max_buckets"
      "\<forall>k \<in> map_keys (ec_labels ec) \<union> set (ec_group_by ec). CHR 0x0A \<notin> set k"
      using assms(1) u ec unfolding decoded_ok_def by blast+
    have "set (normal_group gb) = set gb" for gb by (auto simp: normal_group_def)
    then have "set (ec_group_by (normal_stream cpus ec)) = set (ec_group_by ec)" by (simp add: normal_group_by)
    moreover have "interval_ok (ec_interval (normal_stream cpus ec))"
      using y(2) by (auto simp: normal_stream_alt apply_defaults_def interval_ok_def)
    moreover have "ec_buckets (normal_stream cpus ec) \<le> max_buckets"
      using y(3) by (simp add: normal_stream_def apply_defaults_simps(9))
    ultimately show ?thesis using normal_prepared [OF b, of cpus] y(1,4) by (simp add: stream_ok_def)
  qed
  moreover have "distinct (map config_id (cf_streams cfg))" using r by (simp add: n rejected_streams_def comp_def)
  ultimately show ?thesis by (simp add: n)
qed simp

lemma reload_step_ok:
  assumes "reloader_ok rl" and "decoded_ok unmarshal"
  shows "\<exists>rl'. reload_step cpus parse compile_re unmarshal sum64 nodes path rl read_file = Inr rl' \<and> reloader_ok rl'
    \<and> (case read_config cpus unmarshal sum64 nodes read_file path of
         Inl err \<Rightarrow> rl' = reload_failed rl
       | Inr cfg \<Rightarrow>
           if cf_hash cfg = cf_hash (rl_cfg rl) then rl' = rl\<lparr>rl_success := True\<rparr>
           else if \<exists>ec \<in> set (cf_streams cfg). \<not> kept (by_id (ap_estimators (rl_app rl))) ec \<and> rejected_config parse compile_re ec
           then \<exists>created. rl' = reload_failed (rl\<lparr>rl_app := (rl_app rl)\<lparr>ap_stopped := ap_stopped (rl_app rl) @ created\<rparr>\<rparr>)
           else rl_cfg rl' = cfg \<and> rl_success rl' \<and> rl_errors rl' = rl_errors rl)"
proof (cases "read_config cpus unmarshal sum64 nodes read_file path")
  case (Inl err)
  then show ?thesis using assms(1) by (simp add: reload_step_def reloader_ok_def reload_failed_def)
next
  case (Inr cfg)
  show ?thesis
  proof (cases "cf_hash cfg = cf_hash (rl_cfg rl)")
    case True
    then show ?thesis using Inr assms(1) by (simp add: reload_step_def reloader_ok_def)
  next
    case False
    let ?ss = "cf_streams cfg" and ?st = "rl_app rl"
    obtain P where P: "app_ok P ?st" using assms(1) by (auto simp: reloader_ok_def)
    have local: "fst ` map_keys (cm_churn (ap_cm ?st)) \<subseteq> es_id ` set (ap_estimators ?st)"
      and old: "settled (cf_streams (rl_cfg rl)) (ap_estimators ?st)" using assms(1) by (simp_all add: reloader_ok_def)
    have agree: "churn_agrees P ?ss ?st" using local unfolding churn_agrees_def by blast
    note ss = read_config_streams [OF assms(2) Inr]
    note ok = load_config_ok [OF P conjunct1 [OF ss] conjunct2 [OF ss] agree, of parse compile_re]
    have step: "reload_step cpus parse compile_re unmarshal sum64 nodes path rl read_file =
       (case load_config cpus parse compile_re ?ss ?st of
               Inl p \<Rightarrow> Inl p
             | Inr (st, Inl err) \<Rightarrow> Inr (reload_failed (rl\<lparr>rl_app := st\<rparr>))
             | Inr (st, Inr changed) \<Rightarrow>
                 let rl' = rl\<lparr>rl_app := st, rl_success := True, rl_cfg := cfg\<rparr>
                 in Inr (if changed then rl'\<lparr>rl_reloads := rl_reloads rl' + 1\<rparr> else rl'))"
      using Inr False by (simp add: reload_step_def)
    let ?bad = "\<exists>ec \<in> set ?ss. \<not> kept (by_id (ap_estimators ?st)) ec \<and> rejected_config parse compile_re ec"
    let ?same = "(\<forall>ec \<in> set ?ss. kept (by_id (ap_estimators ?st)) ec) \<and> dropped ?ss (ap_estimators ?st) = {}"
    consider (bad) err created where "?bad" "load_config cpus parse compile_re ?ss ?st
           = Inr (?st\<lparr>ap_stopped := ap_stopped ?st @ created\<rparr>, Inl err)"
      | (same) "\<not> ?bad" "?same" "load_config cpus parse compile_re ?ss ?st = Inr (?st, Inr False)"
      | (new) st' where "\<not> ?bad" "load_config cpus parse compile_re ?ss ?st = Inr (st', Inr True)"
        "load_done cpus parse compile_re ?ss ?st st'" "app_ok (new_precisions P ?ss) st'"
    proof (cases ?bad)
      case True
      then show ?thesis using ok that(1) by (simp only: if_True) blast
    next
      case no: False
      then have o: "if ?same then load_config cpus parse compile_re ?ss ?st = Inr (?st, Inr False)
        else \<exists>st'. load_config cpus parse compile_re ?ss ?st = Inr (st', Inr True)
          \<and> load_done cpus parse compile_re ?ss ?st st' \<and> app_ok (new_precisions P ?ss) st'"
        using ok by (simp only: if_False)
      show ?thesis
      proof (cases ?same)
        case True
        show ?thesis by (rule that(2) [OF no True]) (use o True in argo)
      next
        case False
        then show ?thesis using o no that(3) by (simp only: if_False) blast
      qed
    qed
    then show ?thesis
    proof cases
      case bad
      let ?rl = "reload_failed (rl\<lparr>rl_app := ?st\<lparr>ap_stopped := ap_stopped ?st @ created\<rparr>\<rparr>)"
      have "app_ok P (?st\<lparr>ap_stopped := ap_stopped ?st @ created\<rparr>)" using P by (simp add: app_ok_def)
      then have "reloader_ok ?rl" using local old by (auto simp: reloader_ok_def reload_failed_def)
      then show ?thesis using Inr False bad step by auto
    next
      case same
      then have "reloader_ok (rl\<lparr>rl_app := ?st, rl_success := True, rl_cfg := cfg\<rparr>)"
        using P local by (auto simp: reloader_ok_def settled_def)
      then show ?thesis using Inr False same(1,3) step by auto
    next
      case new
      let ?rl = "rl\<lparr>rl_app := st', rl_success := True, rl_cfg := cfg, rl_reloads := rl_reloads rl + 1\<rparr>"
      note set' = load_done_settled [OF P conjunct1 [OF ss] conjunct2 [OF ss] new(3,4)]
      have "fst ` map_keys (cm_churn (ap_cm st')) \<subseteq> es_id ` set (ap_estimators st')"
        by (rule load_done_local [OF new(3) local conjunct2 [OF set']])
      then have "reloader_ok ?rl" using new(4) set' by (auto simp: reloader_ok_def)
      then show ?thesis using Inr False new(1,2) step by (auto simp: Let_def)
    qed
  qed
qed

text \<open>A wake-up of the reloader never panics and keeps the program running the streams of the config loaded last: a file
  that cannot be read, decoded, prepared or loaded only counts an error and leaves every estimator, the
  deduplicator and the churn as they are, a file with the same bytes changes nothing, and any other one takes
  effect.\<close>

theorem reload_keeps_last_good:
  assumes "reloader_ok rl" and "decoded_ok unmarshal"
  shows "\<exists>rl'. reload_step cpus parse compile_re unmarshal sum64 nodes path rl read_file = Inr rl' \<and> reloader_ok rl'
    \<and> (case read_config cpus unmarshal sum64 nodes read_file path of
         Inl err \<Rightarrow> rl' = reload_failed rl
       | Inr cfg \<Rightarrow>
           if cf_hash cfg = cf_hash (rl_cfg rl) then rl' = rl\<lparr>rl_success := True\<rparr>
           else if \<exists>ec \<in> set (cf_streams cfg). \<not> kept (by_id (ap_estimators (rl_app rl))) ec \<and> rejected_config parse compile_re ec
           then \<exists>created. rl' = reload_failed (rl\<lparr>rl_app := (rl_app rl)\<lparr>ap_stopped := ap_stopped (rl_app rl) @ created\<rparr>\<rparr>)
           else rl_cfg rl' = cfg \<and> rl_success rl' \<and> rl_errors rl' = rl_errors rl)"
  using assms by (rule reload_step_ok)

subsection \<open>Concrete instances\<close>

text \<open>A stream grouped by \<^verbatim>\<open>job\<close>, an empty program, and a decoder that yields the stream.\<close>

definition demo_stream :: estimator_config where
  "demo_stream = normal_stream 2 (plain_config [''job''])"

definition empty_app :: app where
  "empty_app = \<lparr>ap_estimators = [], ap_dedup = None, ap_cm = new_cm_state, ap_fingerprint_labels = False, ap_stopped = []\<rparr>"

definition demo_decoder :: "string \<Rightarrow> string + estimator_config list" where
  "demo_decoder data = (if data = ''bad'' then Inl ''syntax error'' else Inr [plain_config [''job'']])"

lemma demo_decoded: "decoded_ok demo_decoder"
  by (simp add: decoded_ok_def demo_decoder_def plain_config_def map_ok_def)

lemma demo_stream_ok: "stream_ok 2 demo_stream"
proof -
  have "\<not> bad_stream (plain_config [''job''])" by (simp add: bad_stream_def plain_config_def label_keyword_def)
  from normal_prepared [OF this, of 2] show ?thesis
    by (simp add: stream_ok_def demo_stream_def normal_stream_alt apply_defaults_def plain_config_def map_ok_def
        interval_ok_def normal_group_def label_keyword_def max_buckets_def)
qed

lemma demo_not_rejected: "\<not> rejected_config (\<lambda>_. Inl []) (\<lambda>_. Inl []) demo_stream"
  by (simp add: rejected_config_def demo_stream_def normal_stream_alt apply_defaults_def plain_config_def normal_group_def
      label_keyword_def compile_filters_def)

lemma empty_app_ok: "app_ok P empty_app"
  by (simp add: app_ok_def empty_app_def cm_ok_def new_cm_state_def churn_state_ok_def churn_ok_def new_churn_snapshots_def map_ok_def)

lemma empty_not_kept: "\<not> kept (by_id (ap_estimators empty_app)) ec"
  by (simp add: kept_def empty_app_def by_id_def)

theorem read_config_prepared_witness:
  "\<exists>cfg. read_config 2 demo_decoder (\<lambda>_. 1) [] (\<lambda>_. Inr ''streams'') ''streams.yaml'' = Inr cfg
    \<and> prepare 2 (cf_streams cfg) = Inr (cf_streams cfg)
    \<and> (\<exists>e. new_estimator 2 (\<lambda>_. Inl []) (\<lambda>_. Inl []) demo_stream = Inr e \<and> fresh_estimator demo_stream e)"
proof -
  have "\<not> rejected_streams 2 [plain_config [''job'']]"
    by (simp add: rejected_streams_def bad_stream_def plain_config_def label_keyword_def)
  then have "prepare 2 [plain_config [''job'']] = Inr [demo_stream]" using prepare_spec by (auto simp: demo_stream_def)
  then have r: "read_config 2 demo_decoder (\<lambda>_. 1) [] (\<lambda>_. Inr ''streams'') ''streams.yaml'' = Inr \<lparr>cf_hash = 1, cf_streams = [demo_stream]\<rparr>"
    by (simp add: read_config_def demo_decoder_def)
  note p = read_config_prepared [OF r, of "\<lambda>_. Inl []" "\<lambda>_. Inl []"]
  then have "case new_estimator 2 (\<lambda>_. Inl []) (\<lambda>_. Inl []) demo_stream of
       Inr e \<Rightarrow> fresh_estimator demo_stream e
     | Inl (Failed err) \<Rightarrow> rejected_config (\<lambda>_. Inl []) (\<lambda>_. Inl []) demo_stream
     | Inl (Panicked p) \<Rightarrow> max_buckets < ec_buckets demo_stream"
    by (auto split: sum.splits failure.splits)
  then have "\<exists>e. new_estimator 2 (\<lambda>_. Inl []) (\<lambda>_. Inl []) demo_stream = Inr e \<and> fresh_estimator demo_stream e"
    using demo_not_rejected demo_stream_ok
    by (cases "new_estimator 2 (\<lambda>_. Inl []) (\<lambda>_. Inl []) demo_stream") (auto simp: stream_ok_def split: failure.splits)
  then show ?thesis using r p by blast
qed

theorem load_config_exact_witness:
  "\<exists>st. load_config 2 (\<lambda>_. Inl []) (\<lambda>_. Inl []) [demo_stream] empty_app = Inr (st, Inr True)
    \<and> load_done 2 (\<lambda>_. Inl []) (\<lambda>_. Inl []) [demo_stream] empty_app st"
proof -
  have s: "\<forall>ec \<in> set [demo_stream]. stream_ok 2 ec" "distinct (map config_id [demo_stream])" using demo_stream_ok by simp_all
  have a: "churn_agrees (\<lambda>_. 4) [demo_stream] empty_app"
    by (simp add: churn_agrees_def empty_app_def new_cm_state_def new_churn_snapshots_def)
  from load_config_exact [OF empty_app_ok s a, of "\<lambda>_. Inl []" "\<lambda>_. Inl []"] demo_not_rejected empty_not_kept [of demo_stream]
  show ?thesis by auto
qed

theorem load_config_idempotent_witness:
  "\<exists>st. load_config 2 (\<lambda>_. Inl []) (\<lambda>_. Inl []) [demo_stream] empty_app = Inr (st, Inr True)
    \<and> load_config 2 (\<lambda>_. Inl []) (\<lambda>_. Inl []) [demo_stream] st = Inr (st, Inr False)"
proof -
  have s: "\<forall>ec \<in> set [demo_stream]. stream_ok 2 ec" "distinct (map config_id [demo_stream])" using demo_stream_ok by simp_all
  have a: "churn_agrees (\<lambda>_. 4) [demo_stream] empty_app"
    by (simp add: churn_agrees_def empty_app_def new_cm_state_def new_churn_snapshots_def)
  obtain st where st: "load_config 2 (\<lambda>_. Inl []) (\<lambda>_. Inl []) [demo_stream] empty_app = Inr (st, Inr True)"
    using load_config_ok [OF empty_app_ok s a, of "\<lambda>_. Inl []" "\<lambda>_. Inl []"] demo_not_rejected empty_not_kept [of demo_stream]
    by auto
  from load_config_idempotent [OF empty_app_ok s a st] st show ?thesis by blast
qed

theorem reload_keeps_last_good_witness:
  "\<exists>rl. reload_step 2 (\<lambda>_. Inl []) (\<lambda>_. Inl []) demo_decoder (\<lambda>_. 1) [] ''streams.yaml''
      \<lparr>rl_app = empty_app, rl_cfg = \<lparr>cf_hash = 0, cf_streams = []\<rparr>, rl_reloads = 0, rl_errors = 0, rl_success = True\<rparr>
      (\<lambda>_. Inr ''bad'') = Inr rl \<and> rl_errors rl = 1 \<and> \<not> rl_success rl \<and> ap_estimators (rl_app rl) = []"
proof -
  let ?rl = "\<lparr>rl_app = empty_app, rl_cfg = \<lparr>cf_hash = 0, cf_streams = []\<rparr>, rl_reloads = 0, rl_errors = 0, rl_success = True\<rparr>"
  have "settled [] (ap_estimators empty_app)" by (simp add: settled_def dropped_def empty_app_def)
  then have "reloader_ok ?rl"
    using empty_app_ok by (auto simp: reloader_ok_def empty_app_def new_cm_state_def new_churn_snapshots_def)
  from reload_keeps_last_good [OF this demo_decoded, of 2 "\<lambda>_. Inl []" "\<lambda>_. Inl []" "\<lambda>_. 1" "[]" "''streams.yaml''" "\<lambda>_. Inr ''bad''"]
  show ?thesis by (auto simp: read_config_def demo_decoder_def reload_failed_def empty_app_def)
qed

subsection \<open>The rotation schedule\<close>

text \<open>C28: The interval of a prepared stream is not checked against its number of buckets.  With at least two nanoseconds per
  bucket the ticks lie on the multiples of the period and a whole cycle takes at most half the interval; a shorter
  positive interval is accepted as well, and the rotation goroutine of its estimator panics with a division
  by zero at its first round.\<close>

theorem rotation_schedule:
  assumes "0 < ec_interval ec" and "0 < ec_buckets ec" and "0 \<le> now"
  shows "if 2 * ec_buckets ec \<le> ec_interval ec
    then \<exists>period w. rotation_period (ec_interval ec) (nat (ec_buckets ec)) = Inr period \<and> 0 < period
           \<and> 2 * ec_buckets ec * period \<le> ec_interval ec
           \<and> rotation_wait period now = Inr w \<and> 0 \<le> w \<and> w < period \<and> period dvd now + w
    else rotation_period (ec_interval ec) (nat (ec_buckets ec)) = Inr 0 \<and> rotation_wait 0 now = Inl DivideByZero
      \<and> (\<not> rejected_streams cpus [ec] \<longrightarrow> (\<exists>ec'. prepare cpus [ec] = Inr [ec']
            \<and> ec_interval ec' = ec_interval ec \<and> ec_buckets ec' = ec_buckets ec))"
proof -
  let ?n = "ec_buckets ec" and ?i = "ec_interval ec"
  define period where "period = ?i div 2 div ?n"
  have q: "go_quot (go_quot ?i 2) (int (nat ?n)) = period"
    using assms(1,2) by (simp add: go_quot_nonneg period_def)
  have p: "rotation_period ?i (nat ?n) = Inr period" using assms(2) q by (simp add: rotation_period_def)
  have d: "period = ?i div (2 * ?n)" using assms(2) by (simp add: period_def zdiv_zmult2_eq)
  show ?thesis
  proof (cases "2 * ?n \<le> ?i")
    case True
    then have pos: "0 < period" using assms(2) by (simp add: d pos_imp_zdiv_pos_iff)
    let ?w = "period - now mod period"
    have r: "go_rem now period = now mod period"
      using pos assms(3) by (simp add: go_rem_def go_quot_nonneg minus_mult_div_eq_mod)
    have b: "0 \<le> now mod period" "now mod period < period" using pos by simp_all
    have w: "rotation_wait period now = Inr (if ?w = period then 0 else ?w)" using pos r by (simp add: rotation_wait_def Let_def)
    have "now + ?w = period * (now div period + 1)" using mult_div_mod_eq [of period now] by (simp add: algebra_simps)
    then have dv: "period dvd now + ?w" by simp
    then have "period dvd now + (if ?w = period then 0 else ?w)" using b by auto
    moreover have "2 * ?n * period \<le> ?i" using mult_div_mod_eq [of "2 * ?n" ?i] assms(2) d
      by (metis Euclidean_Rings.pos_mod_sign add_increasing2 mult_pos_pos order_refl zero_less_numeral)
    ultimately show ?thesis using True p pos w b by (auto split: if_splits)
  next
    case False
    then have z: "period = 0" using assms(1,2) by (simp add: d)
    have "\<exists>ec'. prepare cpus [ec] = Inr [ec'] \<and> ec_interval ec' = ?i \<and> ec_buckets ec' = ?n" if "\<not> rejected_streams cpus [ec]"
      using prepare_spec [of cpus "[ec]" "[normal_stream cpus ec]"] that assms(1,2)
      by (intro exI [of _ "normal_stream cpus ec"]) (simp add: normal_stream_alt apply_defaults_def)
    then show ?thesis using False p z by (simp add: rotation_wait_def)
  qed
qed

theorem rotation_schedule_witness:
  "rotation_period 5 4 = Inr 0 \<and> rotation_wait 0 100 = Inl DivideByZero
    \<and> (\<exists>ec'. prepare 2 [(plain_config [''job''])\<lparr>ec_interval := 5, ec_buckets := 4\<rparr>] = Inr [ec'])"
proof -
  let ?ec = "(plain_config [''job''])\<lparr>ec_interval := 5, ec_buckets := 4\<rparr>"
  have "\<not> rejected_streams 2 [?ec]" by (simp add: rejected_streams_def bad_stream_def plain_config_def label_keyword_def)
  moreover have h: "0 < ec_interval ?ec" "0 < ec_buckets ?ec" "(0 :: int) \<le> 100" by simp_all
  ultimately show ?thesis using rotation_schedule [OF h, of 2] by auto
qed

end
