(* ===== verification/Protoparser.thy ===== *)
theory Protoparser
  imports Filters
begin

section \<open>Reading write requests (\<^verbatim>\<open>protoparser\<close>)\<close>

text \<open>
  A remote write request is a protobuf message, compressed.  Bytes are characters, read as numbers below
  256 by \<open>byte\<close>.  The field reader is \<^verbatim>\<open>FieldContext.NextField\<close> of the vendored easyproto; its context keeps
  the number, the wire type and the payload of the last field, which is what \<open>next_field\<close> returns beside the
  tail.  The digest is xxhash, a parameter: writing to a digest appends bytes, \<^verbatim>\<open>Sum64\<close> hashes all of them.
  Labels are slices of a pool and strings alias the request; both are only reused after the callback, which is
  what theory \<open>Unmarshaler_Memory\<close> is about.
\<close>

definition byte :: "char \<Rightarrow> nat" where
  "byte c = of_char c"

lemma byte_less [simp]: "byte c < 256"
  by (simp add: byte_def)

lemma byte_char_of [simp]: "n < 256 \<Longrightarrow> byte (char_of n) = n"
  by (simp add: byte_def)

subsection \<open>Fields\<close>

datatype proto_error =
    EmptyMessage | BadTag | FieldNumTooBig | BadLength | ShortData | BadVarint | ShortI64 | ShortI32 | UnknownWireType nat

datatype payload = LenField string | VarintField u64 | I64Field u64 | I32Field u64

text \<open>
  \<^verbatim>\<open>binary.Uvarint\<close> from byte \<open>i\<close> on, with the value so far; \<open>None\<close> stands for an offset that is not positive,
  otherwise the tail after the offset is returned.
\<close>

fun uvarint :: "nat \<Rightarrow> u64 \<Rightarrow> string \<Rightarrow> (u64 \<times> string) option" where
  "uvarint i x [] = None"
| "uvarint i x (b # bs) =
     (if i = 10 then None
      else if byte b < 0x80
           then (if i = 9 \<and> byte b > 1 then None else Some (x OR push_bit (7 * i) (of_nat (byte b)), bs))
           else uvarint (i + 1) (x OR push_bit (7 * i) (of_nat (byte b) AND 0x7F)) bs)"

definition little_endian :: "string \<Rightarrow> u64" where
  "little_endian bs = foldr (\<lambda>b x. of_nat (byte b) OR push_bit 8 x) bs 0"

definition read_payload :: "nat \<Rightarrow> string \<Rightarrow> proto_error + payload \<times> string" where
  "read_payload wt src =
     (if wt = 2 then
        (case uvarint 0 0 src of
           None \<Rightarrow> Inl BadLength
         | Some (n, tail) \<Rightarrow>
             if length tail < unat n then Inl ShortData
             else Inr (LenField (take (unat n) tail), drop (unat n) tail))
      else if wt = 0 then
        (case uvarint 0 0 src of None \<Rightarrow> Inl BadVarint | Some (v, tail) \<Rightarrow> Inr (VarintField v, tail))
      else if wt = 1 then
        (if length src < 8 then Inl ShortI64 else Inr (I64Field (little_endian (take 8 src)), drop 8 src))
      else if wt = 5 then
        (if length src < 4 then Inl ShortI32 else Inr (I32Field (little_endian (take 4 src)), drop 4 src))
      else Inl (UnknownWireType wt))"

definition next_field_slow :: "string \<Rightarrow> proto_error + u32 \<times> payload \<times> string" where
  "next_field_slow src =
     (case src of
        [] \<Rightarrow> Inl EmptyMessage
      | b # bs \<Rightarrow>
          if byte b < 0x80 then map_sum id (Pair (of_nat (byte b div 8))) (read_payload (byte b mod 8) bs)
          else
            (case uvarint 0 0 src of
               None \<Rightarrow> Inl BadTag
             | Some (tag, tail) \<Rightarrow>
                 if 2 ^ 32 \<le> unat tag div 8 then Inl FieldNumTooBig
                 else map_sum id (Pair (of_nat (unat tag div 8))) (read_payload (unat tag mod 8) tail)))"

text \<open>With the fast path for a message shorter than 128 bytes.\<close>

definition next_field :: "string \<Rightarrow> proto_error + u32 \<times> payload \<times> string" where
  "next_field src =
     (case src of
        b0 # b1 # bs \<Rightarrow>
          (let n = push_bit 8 (of_nat (byte b0)) OR of_nat (byte b1) :: 16 word in
           if n AND 0x8080 = 0 \<and> n AND 0x0700 = 0x0200
           then (let len = unat (n AND 0xFF) in
                 if length bs < len then Inl ShortData
                 else Inr (of_nat (unat (drop_bit 11 n)), LenField (take len bs), drop len bs))
           else next_field_slow src)
      | _ \<Rightarrow> next_field_slow src)"

definition message_data :: "payload \<Rightarrow> string option" where
  "message_data p = (case p of LenField d \<Rightarrow> Some d | _ \<Rightarrow> None)"

subsection \<open>Every field consumes input\<close>

lemma uvarint_shorter: "uvarint i x src = Some (v, tail) \<Longrightarrow> length tail < length src"
proof (induction i x src rule: uvarint.induct)
  case (2 i x b bs)
  then show ?case by (fastforce split: if_splits)
qed simp

lemma read_payload_shorter: "read_payload wt src = Inr (p, tail) \<Longrightarrow> length tail \<le> length src"
  using uvarint_shorter [of 0 0 src] by (fastforce simp: read_payload_def split: if_splits option.splits)

lemma map_sum_Pair: "map_sum id (Pair a) x = Inr y \<longleftrightarrow> (\<exists>z. x = Inr z \<and> y = (a, z))"
  by (cases x) auto

lemma next_field_slow_shorter: "next_field_slow src = Inr (n, p, tail) \<Longrightarrow> length tail < length src"
  using read_payload_shorter uvarint_shorter [of 0 0 src]
  by (fastforce simp: next_field_slow_def map_sum_Pair split: list.splits if_splits option.splits)

lemma next_field_shorter: "next_field src = Inr (n, p, tail) \<Longrightarrow> length tail < length src"
proof -
  assume r: "next_field src = Inr (n, p, tail)"
  then have "next_field_slow src = Inr (n, p, tail) \<or> (\<exists>b0 b1 bs len. src = b0 # b1 # bs \<and> tail = drop len bs)"
    by (auto simp: next_field_def Let_def split: list.splits if_splits)
  then show ?thesis using next_field_slow_shorter by auto
qed

subsection \<open>Messages\<close>

datatype unmarshal_error =
    NextField proto_error | NoTimeseriesData | BadTimeserie unmarshal_error | NoLabelData | BadLabelField proto_error
  | NoLabelName | NoLabelValue

text \<open>The fields of a label: the last name and the last value count.\<close>

function label_loop :: "string \<Rightarrow> string \<times> string \<Rightarrow> unmarshal_error + string \<times> string" where
  "label_loop ldata nv =
     (if ldata = [] then Inr nv
      else
        (case next_field ldata of
           Inl err \<Rightarrow> Inl (BadLabelField err)
         | Inr (num, p, tail) \<Rightarrow>
             if num = 1 then (case message_data p of None \<Rightarrow> Inl NoLabelName | Some d \<Rightarrow> label_loop tail (d, snd nv))
             else if num = 2 then (case message_data p of None \<Rightarrow> Inl NoLabelValue | Some d \<Rightarrow> label_loop tail (fst nv, d))
             else label_loop tail nv))"
  by pat_completeness auto

termination
  by (relation "measure (\<lambda>(ldata, nv). length ldata)") (auto dest: next_field_shorter)

text \<open>The fields of a series: the bytes written to the digest and the labels so far.\<close>

function series_loop ::
  "(string \<Rightarrow> u64) \<Rightarrow> bool \<Rightarrow> string \<Rightarrow> string \<times> label list \<Rightarrow> unmarshal_error + string \<times> label list" where
  "series_loop sum64 fp_labels src st =
     (if src = [] then Inr st
      else
        (case next_field src of
           Inl err \<Rightarrow> Inl (NextField err)
         | Inr (num, p, tail) \<Rightarrow>
             if num = 1
             then (case message_data p of
                     None \<Rightarrow> Inl NoLabelData
                   | Some d \<Rightarrow>
                       (case label_loop d ([], []) of
                          Inl err \<Rightarrow> Inl err
                        | Inr (name, val) \<Rightarrow>
                            series_loop sum64 fp_labels tail
                              (fst st @ d, snd st @ [\<lparr>lb_name = name, lb_value = val,
                                 lb_fingerprint = (if fp_labels then sum64 val else 0)\<rparr>])))
             else series_loop sum64 fp_labels tail st))"
  by pat_completeness auto

termination
  by (relation "measure (\<lambda>(h, fp, src, st). length src)") (auto dest: next_field_shorter)

definition unmarshal_series :: "(string \<Rightarrow> u64) \<Rightarrow> bool \<Rightarrow> string \<Rightarrow> unmarshal_error + time_serie" where
  "unmarshal_series sum64 fp_labels src =
     map_sum id (\<lambda>(written, labels). \<lparr>ts_labels = labels, ts_fingerprint = sum64 written\<rparr>)
       (series_loop sum64 fp_labels src ([], []))"

function request_loop ::
  "(string \<Rightarrow> u64) \<Rightarrow> bool \<Rightarrow> string \<Rightarrow> time_serie list \<Rightarrow> unmarshal_error + time_serie list" where
  "request_loop sum64 fp_labels src tss =
     (if src = [] then Inr tss
      else
        (case next_field src of
           Inl err \<Rightarrow> Inl (NextField err)
         | Inr (num, p, tail) \<Rightarrow>
             if num = 1
             then (case message_data p of
                     None \<Rightarrow> Inl NoTimeseriesData
                   | Some d \<Rightarrow>
                       (case unmarshal_series sum64 fp_labels d of
                          Inl err \<Rightarrow> Inl (BadTimeserie err)
                        | Inr ts \<Rightarrow> request_loop sum64 fp_labels tail (tss @ [ts])))
             else request_loop sum64 fp_labels tail tss))"
  by pat_completeness auto

termination
  by (relation "measure (\<lambda>(h, fp, src, tss). length src)") (auto dest: next_field_shorter)

declare label_loop.simps [simp del] series_loop.simps [simp del] request_loop.simps [simp del]

definition unmarshal_protobuf :: "(string \<Rightarrow> u64) \<Rightarrow> bool \<Rightarrow> string \<Rightarrow> unmarshal_error + time_serie list" where
  "unmarshal_protobuf sum64 fp_labels src = request_loop sum64 fp_labels src []"

subsection \<open>Requests\<close>

text \<open>
  The body reader and the decompressors are outside the program; they take the size limit.  A parse returns
  what the callback is called with, if it is, and the error.
\<close>

datatype parse_error =
  BadZstd string | BadSnappy string | TooBig nat | BadRequest unmarshal_error | CannotReadBody string

record request_codec =
  rq_is_zstd :: "string \<Rightarrow> bool"
  rq_zstd :: "string \<Rightarrow> int \<Rightarrow> string + string"
  rq_snappy :: "string \<Rightarrow> int \<Rightarrow> string + string"
  rq_max_size :: int

definition parse_request_body ::
  "request_codec \<Rightarrow> (string \<Rightarrow> u64) \<Rightarrow> bool \<Rightarrow> string \<Rightarrow> time_serie list option \<times> parse_error option" where
  "parse_request_body codec sum64 fp_labels data =
     (case (if rq_is_zstd codec data then map_sum BadZstd id (rq_zstd codec data (rq_max_size codec))
            else map_sum BadSnappy id (rq_snappy codec data (rq_max_size codec))) of
        Inl err \<Rightarrow> (None, Some err)
      | Inr body \<Rightarrow>
          if int (length body) > rq_max_size codec then (None, Some (TooBig (length body)))
          else
            (case unmarshal_protobuf sum64 fp_labels body of
               Inl err \<Rightarrow> (None, Some (BadRequest err))
             | Inr tss \<Rightarrow> (if tss \<noteq> [] then Some tss else None, None)))"

definition parse_request ::
  "request_codec \<Rightarrow> (string \<Rightarrow> u64) \<Rightarrow> bool \<Rightarrow> string + string \<Rightarrow> time_serie list option \<times> parse_error option" where
  "parse_request codec sum64 fp_labels body =
     (case body of
        Inl err \<Rightarrow> (None, Some (CannotReadBody err))
      | Inr data \<Rightarrow> parse_request_body codec sum64 fp_labels data)"

subsection \<open>The fast path\<close>

lemma mask_bits:
  "(n :: 16 word) AND 0x8080 = 0 \<longleftrightarrow> \<not> bit n 7 \<and> \<not> bit n 15"
  "(n :: 16 word) AND 0x0700 = 0x0200 \<longleftrightarrow> \<not> bit n 8 \<and> bit n 9 \<and> \<not> bit n 10"
proof -
  have lt: "(7 :: nat) < 16" "(8 :: nat) < 16" "(9 :: nat) < 16" "(10 :: nat) < 16" "(15 :: nat) < 16" by simp_all
  have a: "\<forall>k \<in> set [0..<16]. bit (0x8080 :: 16 word) k \<longleftrightarrow> k = 7 \<or> k = 15" by code_simp
  have b: "\<forall>k \<in> set [0..<16]. bit (0x0700 :: 16 word) k \<longleftrightarrow> k = 8 \<or> k = 9 \<or> k = 10" by code_simp
  have c: "\<forall>k \<in> set [0..<16]. bit (0x0200 :: 16 word) k \<longleftrightarrow> k = 9" by code_simp
  have "n AND 0x8080 = 0 \<longleftrightarrow> (\<forall>k < 16. \<not> (bit n k \<and> bit (0x8080 :: 16 word) k))"
    by (simp add: bit_eq_iff bit_and_iff)
  also have "\<dots> \<longleftrightarrow> (\<forall>k < 16. \<not> (bit n k \<and> (k = 7 \<or> k = 15)))" using a by auto
  also have "\<dots> \<longleftrightarrow> \<not> bit n 7 \<and> \<not> bit n 15" using lt by metis
  finally show "n AND 0x8080 = 0 \<longleftrightarrow> \<not> bit n 7 \<and> \<not> bit n 15" .
  have "n AND 0x0700 = 0x0200 \<longleftrightarrow> (\<forall>k < 16. (bit n k \<and> bit (0x0700 :: 16 word) k) = bit (0x0200 :: 16 word) k)"
    by (simp add: bit_eq_iff bit_and_iff)
  also have "\<dots> \<longleftrightarrow> (\<forall>k < 16. (bit n k \<and> (k = 8 \<or> k = 9 \<or> k = 10)) = (k = 9))" using b c by auto
  also have "\<dots> \<longleftrightarrow> \<not> bit n 8 \<and> bit n 9 \<and> \<not> bit n 10" (is "?l \<longleftrightarrow> ?r")
  proof
    assume l: ?l
    show ?r using l [rule_format, of 8] l [rule_format, of 9] l [rule_format, of 10] by simp
  qed auto
  finally show "n AND 0x0700 = 0x0200 \<longleftrightarrow> \<not> bit n 8 \<and> bit n 9 \<and> \<not> bit n 10" .
qed

lemma small_unat: "n < 2 ^ LENGTH('a) \<Longrightarrow> unat (of_nat n :: 'a :: len word) = n"
  by (metis id_apply of_nat_eq_id take_bit_nat_eq_self unsigned_of_nat)

lemma two_bytes:
  assumes "b0 < 256" and "b1 < 256"
  defines "n \<equiv> push_bit 8 (of_nat b0) OR of_nat b1 :: 16 word"
  shows "(n AND 0x8080 = 0 \<and> n AND 0x0700 = 0x0200) = (b0 < 128 \<and> b1 < 128 \<and> b0 mod 8 = 2)"
    and "unat (n AND 0xFF) = b1" and "unat (drop_bit 11 n) = b0 div 8"
proof -
  have nn: "n = of_nat (push_bit 8 b0 OR b1)" by (simp add: n_def of_nat_or_eq push_bit_of_nat)
  have d: "push_bit 8 b0 OR b1 = 256 * b0 + b1"
  proof -
    have "push_bit 8 b0 OR b1 = push_bit 8 b0 + b1"
    proof (rule disjunctive_add [symmetric])
      fix k
      show "\<not> bit (push_bit 8 b0) k \<or> \<not> bit b1 k"
      proof (cases "k < 8")
        case False
        then have "b1 div 2 ^ k = 0" using assms(2) power_increasing [of 8 k "2 :: nat"] by simp
        then show ?thesis by (simp add: bit_iff_odd)
      qed (simp add: bit_push_bit_iff)
    qed
    then show ?thesis by (simp add: push_bit_eq_mult)
  qed
  then have u: "unat n = 256 * b0 + b1" using assms(1,2) unfolding nn d by (intro small_unat) simp
  have bit: "bit n k \<longleftrightarrow> odd ((256 * b0 + b1) div 2 ^ k)" for k
  proof -
    have "bit n k \<longleftrightarrow> bit (unat n) k" by (simp add: bit_unsigned_iff)
    then show ?thesis unfolding u by (simp only: bit_iff_odd)
  qed
  have hi: "(256 * b0 + b1) div 2 ^ (8 + j) = b0 div 2 ^ j" for j
  proof -
    have "(256 * b0 + b1) div 256 = b0" using assms(2) by simp
    then show ?thesis by (simp add: power_add div_mult2_eq)
  qed
  have c7: "(256 * b0 + b1) div 2 ^ 7 = 2 * b0 + b1 div 128"
    using div_mult_self1 [of 128 b1 "2 * b0"] by (simp add: algebra_simps)
  have "b div 128 = (if 128 \<le> b then 1 else 0)" if "b < 256" for b :: nat
    using that by (auto intro: div_nat_eqI)
  then have o: "odd (b1 div 128) \<longleftrightarrow> 128 \<le> b1" "odd (b0 div 128) \<longleftrightarrow> 128 \<le> b0" using assms(1,2) by simp_all
  have low: "\<not> odd b0 \<and> odd (b0 div 2) \<and> \<not> odd (b0 div 4) \<longleftrightarrow> b0 mod 8 = 2"
  proof -
    obtain q r where b: "b0 = 8 * q + r" "r < 8" by (metis mult_div_mod_eq mod_less_divisor zero_less_numeral)
    then have r: "r \<in> {0, 1, 2, 3, 4, 5, 6, 7}" by auto
    have e: "8 * q + r = r + 4 * q * 2" "8 * q + r = r + 2 * q * 4" by simp_all
    have d: "(8 * q + r) div 2 = 4 * q + r div 2" unfolding e(1) by (rule div_mult_self1) simp
    have d4: "(8 * q + r) div 4 = 2 * q + r div 4" unfolding e(2) by (rule div_mult_self1) simp
    show ?thesis unfolding b(1) d d4 using r by auto
  qed
  have h: "(256 * b0 + b1) div 2 ^ 15 = b0 div 128" "(256 * b0 + b1) div 2 ^ 8 = b0"
    "(256 * b0 + b1) div 2 ^ 9 = b0 div 2" "(256 * b0 + b1) div 2 ^ 10 = b0 div 4"
    using hi [of 7] hi [of 0] hi [of 1] hi [of 2] by simp_all
  have "odd ((256 * b0 + b1) div 2 ^ 7) \<longleftrightarrow> 128 \<le> b1" unfolding c7 using o(1) by simp
  moreover have "odd ((256 * b0 + b1) div 2 ^ 15) \<longleftrightarrow> 128 \<le> b0" unfolding h by (rule o(2))
  moreover have "\<not> odd ((256 * b0 + b1) div 2 ^ 8) \<and> odd ((256 * b0 + b1) div 2 ^ 9) \<and> \<not> odd ((256 * b0 + b1) div 2 ^ 10) \<longleftrightarrow> b0 mod 8 = 2"
    unfolding h by (rule low)
  ultimately show "(n AND 0x8080 = 0 \<and> n AND 0x0700 = 0x0200) = (b0 < 128 \<and> b1 < 128 \<and> b0 mod 8 = 2)"
    unfolding mask_bits bit by linarith
  have "n AND 0xFF = take_bit 8 n" by (simp add: take_bit_eq_mask mask_eq_exp_minus_1)
  then have "unat (n AND 0xFF) = take_bit 8 (unat n)" by (simp add: unsigned_take_bit_eq)
  then show "unat (n AND 0xFF) = b1" using assms(2) by (simp add: u take_bit_eq_mod)
  have "take_bit 16 (unat n) = unat n" using assms(1,2) by (intro take_bit_nat_eq_self) (simp add: u)
  then have "unat (drop_bit 11 n) = drop_bit 11 (unat n)" by (simp add: unsigned_drop_bit_eq)
  then show "unat (drop_bit 11 n) = b0 div 8" using assms(1,2) by (simp add: u drop_bit_eq_div)
qed

lemma next_field_is_slow: "next_field src = next_field_slow src"
proof -
  consider "src = []" | c where "src = [c]" | b0 b1 bs where "src = b0 # b1 # bs" by (metis neq_Nil_conv)
  then show ?thesis
  proof cases
    case 3
    let ?n = "push_bit 8 (of_nat (byte b0)) OR of_nat (byte b1) :: 16 word"
    note tb = two_bytes [OF byte_less byte_less, of b0 b1]
    show ?thesis
    proof (cases "byte b0 < 128 \<and> byte b1 < 128 \<and> byte b0 mod 8 = 2")
      case True
      then have fast: "next_field src = (if length bs < byte b1 then Inl ShortData
          else Inr (of_nat (byte b0 div 8), LenField (take (byte b1) bs), drop (byte b1) bs))"
        unfolding 3 next_field_def list.case Let_def tb by (simp only: simp_thms if_True)
      have "unat (of_nat (byte b1) :: u64) = byte b1" by (intro small_unat order.strict_trans [OF byte_less]) simp
      then have "read_payload 2 (b1 # bs) = (if length bs < byte b1 then Inl ShortData
          else Inr (LenField (take (byte b1) bs), drop (byte b1) bs))"
        using True by (simp add: read_payload_def)
      then show ?thesis using True unfolding fast by (simp add: 3 next_field_slow_def)
    next
      case False
      show ?thesis unfolding 3 next_field_def list.case Let_def tb using False by (simp only: if_False)
    qed
  qed (simp_all add: next_field_def)
qed

text \<open>The fast path for short messages reads every input exactly as the general one does, errors included.\<close>

theorem next_field_fast_path: "next_field src = next_field_slow src"
  by (rule next_field_is_slow)

subsection \<open>An encoder\<close>

fun uvarint_enc :: "nat \<Rightarrow> string" where
  "uvarint_enc n = (if n < 128 then [char_of n] else char_of (n mod 128 + 128) # uvarint_enc (n div 128))"

declare uvarint_enc.simps [simp del]

text \<open>A length-delimited field; label, series and request messages, with fields the program skips.\<close>

definition len_field :: "nat \<Rightarrow> string \<Rightarrow> string" where
  "len_field num d = char_of (8 * num + 2) # uvarint_enc (length d) @ d"

text \<open>
  The encoder the repository vendors (\<^verbatim>\<open>Label.marshalToSizedBuffer\<close>) leaves out an empty name and an empty value, as
  protobuf allows; others write both.  \<open>om\<close> says which of the two the client does.
\<close>

definition label_field :: "bool \<Rightarrow> nat \<Rightarrow> string \<Rightarrow> string" where
  "label_field om num d = (if om \<and> d = [] then [] else len_field num d)"

definition label_body :: "bool \<Rightarrow> string \<times> string \<Rightarrow> string" where
  "label_body om l = label_field om 1 (fst l) @ label_field om 2 (snd l)"

definition series_body :: "bool \<Rightarrow> (string \<times> string) list \<times> string list \<Rightarrow> string" where
  "series_body om s = concat (map (\<lambda>l. len_field 1 (label_body om l)) (fst s)) @ concat (map (len_field 2) (snd s))"

definition request_body :: "bool \<Rightarrow> ((string \<times> string) list \<times> string list) list \<Rightarrow> string list \<Rightarrow> string" where
  "request_body om ss metadata = concat (map (\<lambda>s. len_field 1 (series_body om s)) ss) @ concat (map (len_field 3) metadata)"

lemma varint_step_bits: "(of_nat (n mod 128 + 128) AND 0x7F) OR push_bit 7 (of_nat (n div 128)) = (of_nat n :: u64)"
proof -
  have "(of_nat (n mod 128 + 128) AND 0x7F :: u64) = take_bit 7 (of_nat (n mod 128 + 128))"
    by (simp add: take_bit_eq_mask mask_eq_exp_minus_1)
  also have "\<dots> = of_nat (take_bit 7 (n mod 128 + 128))" by (simp only: take_bit_of_nat)
  also have "take_bit 7 (n mod 128 + 128) = take_bit 7 n"
  proof -
    have "(2 :: nat) ^ 7 = 128" by simp
    then show ?thesis unfolding take_bit_eq_mod by (simp only: mod_add_self2 mod_mod_trivial)
  qed
  finally have "(of_nat (n mod 128 + 128) AND 0x7F) OR push_bit 7 (of_nat (n div 128))
      = (of_nat (take_bit 7 n OR push_bit 7 (drop_bit 7 n)) :: u64)"
    by (simp add: of_nat_or_eq push_bit_of_nat drop_bit_eq_div)
  also have "take_bit 7 n OR push_bit 7 (drop_bit 7 n) = n"
  proof (rule bit_eqI)
    show "bit (take_bit 7 n OR push_bit 7 (drop_bit 7 n)) k = bit n k" for k
      by (cases "k < 7") (simp_all add: bit_or_iff bit_take_bit_iff bit_push_bit_iff bit_drop_bit_eq)
  qed
  finally show ?thesis .
qed

lemma uvarint_enc_read:
  "n < 2 ^ (63 - 7 * i) \<Longrightarrow> i \<le> 9 \<Longrightarrow> uvarint i x (uvarint_enc n @ rest) = Some (x OR push_bit (7 * i) (of_nat n), rest)"
proof (induction n arbitrary: i x rule: uvarint_enc.induct)
  case (1 n)
  show ?case
  proof (cases "n < 128")
    case True
    have "n \<le> 1" if "i = 9" using "1.prems"(1) that by simp
    then show ?thesis using True "1.prems"(2) by (auto simp: uvarint_enc.simps [of n])
  next
    case False
    have i: "i < 8"
    proof (rule ccontr)
      assume "\<not> i < 8"
      then have "2 ^ (63 - 7 * i) \<le> (2 :: nat) ^ 7" by (intro power_increasing) auto
      then show False using "1.prems"(1) False by simp
    qed
    have "n < 2 ^ (63 - 7 * (i + 1)) * 128"
    proof -
      have "63 - 7 * i = (63 - 7 * (i + 1)) + 7" using i by simp
      then have "(2 :: nat) ^ (63 - 7 * i) = 2 ^ (63 - 7 * (i + 1)) * 2 ^ 7" by (metis power_add)
      then show ?thesis using "1.prems"(1) by (simp only:) simp
    qed
    then have lt: "n div 128 < 2 ^ (63 - 7 * (i + 1))" by (simp add: less_mult_imp_div_less)
    have b: "byte (char_of (n mod 128 + 128)) = n mod 128 + 128" by (simp add: byte_def)
    have "uvarint i x (uvarint_enc n @ rest)
      = uvarint (i + 1) (x OR push_bit (7 * i) (of_nat (n mod 128 + 128) AND 0x7F)) (uvarint_enc (n div 128) @ rest)"
      using False i b by (simp add: uvarint_enc.simps [of n])
    also have "\<dots> = Some ((x OR push_bit (7 * i) (of_nat (n mod 128 + 128) AND 0x7F)) OR push_bit (7 * (i + 1)) (of_nat (n div 128)), rest)"
      using "1.IH" [OF False lt] i by simp
    also have "(x OR push_bit (7 * i) (of_nat (n mod 128 + 128) AND 0x7F)) OR push_bit (7 * (i + 1)) (of_nat (n div 128))
       = x OR push_bit (7 * i) ((of_nat (n mod 128 + 128) AND 0x7F) OR push_bit 7 (of_nat (n div 128)))"
      by (simp only: push_bit_or push_bit_push_bit or.assoc distrib_left mult_1_right)
    finally show ?thesis unfolding varint_step_bits .
  qed
qed

lemma next_field_len_field:
  assumes "1 \<le> num" and "num \<le> 15" and "length d < 2 ^ 63"
  shows "next_field (len_field num d @ rest) = Inr (of_nat num, LenField d, rest)"
proof -
  have b: "byte (char_of (8 * num + 2)) = 8 * num + 2" using assms(2) by simp
  have "uvarint 0 0 (uvarint_enc (length d) @ d @ rest) = Some (of_nat (length d), d @ rest)"
    using uvarint_enc_read [of "length d" 0 0 "d @ rest"] assms(3) by simp
  moreover have "unat (of_nat (length d) :: u64) = length d" using assms(3) by (intro small_unat) simp
  ultimately have "read_payload 2 (uvarint_enc (length d) @ d @ rest) = Inr (LenField d, rest)" by (simp add: read_payload_def)
  moreover have "(8 * num + 2) mod 8 = 2" "(8 * num + 2) div 8 = num" by presburger+
  ultimately show ?thesis using b assms(2) unfolding next_field_is_slow
    by (simp add: next_field_slow_def len_field_def)
qed

subsection \<open>Round trip\<close>

lemma next_field_Nil: "next_field [] = Inl EmptyMessage"
  by (simp add: next_field_def next_field_slow_def)

lemma label_loop_field:
  assumes "next_field src = Inr (num, LenField d, tail)"
  shows "label_loop src nv = (if num = 1 then label_loop tail (d, snd nv)
    else if num = 2 then label_loop tail (fst nv, d) else label_loop tail nv)"
proof -
  have "src \<noteq> []" using assms next_field_Nil by auto
  then show ?thesis by (subst label_loop.simps) (simp add: assms message_data_def)
qed

lemma series_loop_field:
  assumes "next_field src = Inr (num, LenField d, tail)"
  shows "series_loop sum64 fp src st = (if num = 1
    then (case label_loop d ([], []) of Inl err \<Rightarrow> Inl err
      | Inr (name, val) \<Rightarrow> series_loop sum64 fp tail (fst st @ d, snd st @ [\<lparr>lb_name = name, lb_value = val,
                                 lb_fingerprint = (if fp then sum64 val else 0)\<rparr>]))
    else series_loop sum64 fp tail st)"
proof -
  have "src \<noteq> []" using assms next_field_Nil by auto
  then show ?thesis by (subst series_loop.simps) (simp add: assms message_data_def)
qed

lemma request_loop_field:
  assumes "next_field src = Inr (num, LenField d, tail)"
  shows "request_loop sum64 fp src tss = (if num = 1
    then (case unmarshal_series sum64 fp d of Inl err \<Rightarrow> Inl (BadTimeserie err)
      | Inr ts \<Rightarrow> request_loop sum64 fp tail (tss @ [ts]))
    else request_loop sum64 fp tail tss)"
proof -
  have "src \<noteq> []" using assms next_field_Nil by auto
  then show ?thesis by (subst request_loop.simps) (simp add: assms message_data_def)
qed

lemma read_field_1: "length d < 2 ^ 63 \<Longrightarrow> next_field (len_field 1 d @ rest) = Inr (1, LenField d, rest)"
  and read_field_2: "length d < 2 ^ 63 \<Longrightarrow> next_field (len_field 2 d @ rest) = Inr (2, LenField d, rest)"
  and read_field_3: "length d < 2 ^ 63 \<Longrightarrow> next_field (len_field 3 d @ rest) = Inr (3, LenField d, rest)"
  using next_field_len_field [of 1 d rest] next_field_len_field [of 2 d rest] next_field_len_field [of 3 d rest] by simp_all

lemma label_loop_step:
  assumes "length d < 2 ^ 63"
  shows "label_loop (len_field 1 d @ rest) nv = label_loop rest (d, snd nv)"
    and "label_loop (len_field 2 d @ rest) nv = label_loop rest (fst nv, d)"
  using label_loop_field [OF read_field_1 [OF assms], of rest nv] label_loop_field [OF read_field_2 [OF assms], of rest nv] by simp_all

lemma label_loop_body:
  "length (fst l) < 2 ^ 63 \<Longrightarrow> length (snd l) < 2 ^ 63 \<Longrightarrow> label_loop (label_body om l) ([], []) = Inr l"
  using label_loop_step(1) [of "fst l" "label_field om 2 (snd l)" "([], [])"] label_loop_step(2) [of "snd l" "[]" "(fst l, [])"]
  by (cases l) (auto simp: label_body_def label_field_def label_loop.simps [of "[]"])

definition short_label :: "bool \<Rightarrow> string \<times> string \<Rightarrow> bool" where
  "short_label om l \<longleftrightarrow> length (label_body om l) < 2 ^ 63"

lemma short_labelD: "short_label om l \<Longrightarrow> length (fst l) < 2 ^ 63 \<and> length (snd l) < 2 ^ 63"
  by (auto simp: short_label_def label_body_def label_field_def len_field_def split: if_splits)

definition make_label :: "(string \<Rightarrow> u64) \<Rightarrow> bool \<Rightarrow> string \<times> string \<Rightarrow> label" where
  "make_label sum64 fp_labels l = \<lparr>lb_name = fst l, lb_value = snd l, lb_fingerprint = (if fp_labels then sum64 (snd l) else 0)\<rparr>"

lemma series_loop_skip:
  "\<forall>d \<in> set ds. length d < 2 ^ 63 \<Longrightarrow> series_loop sum64 fp (concat (map (len_field 2) ds)) st = Inr st"
proof (induction ds)
  case (Cons d ds)
  let ?rest = "concat (map (len_field 2) ds)"
  have "length d < 2 ^ 63" using Cons.prems by simp
  from series_loop_field [OF read_field_2 [OF this], of sum64 fp ?rest st]
  have "series_loop sum64 fp (len_field 2 d @ ?rest) st = series_loop sum64 fp ?rest st" by simp
  then show ?case using Cons by simp
qed (simp add: series_loop.simps)

lemma series_loop_body:
  assumes "\<forall>l \<in> set ls. short_label om l" and "\<forall>d \<in> set ds. length d < 2 ^ 63"
  shows "series_loop sum64 fp (series_body om (ls, ds)) (w, acc)
    = Inr (w @ concat (map (label_body om) ls), acc @ map (make_label sum64 fp) ls)"
  using assms(1)
proof (induction ls arbitrary: w acc)
  case Nil
  then show ?case using series_loop_skip [OF assms(2)] by (simp add: series_body_def)
next
  case (Cons l ls)
  have sl: "short_label om l" using Cons.prems by simp
  let ?rest = "series_body om (ls, ds)"
  have b: "series_body om (l # ls, ds) = len_field 1 (label_body om l) @ ?rest" by (simp add: series_body_def)
  have lab: "label_loop (label_body om l) ([], []) = Inr (fst l, snd l)" using label_loop_body [of l om] short_labelD [OF sl] by simp
  have "length (label_body om l) < 2 ^ 63" using sl by (simp add: short_label_def)
  note f = series_loop_field [OF read_field_1 [OF this], of sum64 fp ?rest "(w, acc)"]
  have "series_loop sum64 fp (len_field 1 (label_body om l) @ ?rest) (w, acc)
      = series_loop sum64 fp ?rest (w @ label_body om l, acc @ [make_label sum64 fp l])"
    using f unfolding lab by (simp add: make_label_def case_prod_beta)
  then show ?case using Cons.IH [of "w @ label_body om l" "acc @ [make_label sum64 fp l]"] Cons.prems by (simp add: b)
qed

text \<open>What a client sends, as the series the program works with: the fingerprint hashes the label messages.\<close>

definition make_series :: "bool \<Rightarrow> (string \<Rightarrow> u64) \<Rightarrow> bool \<Rightarrow> (string \<times> string) list \<Rightarrow> time_serie" where
  "make_series om sum64 fp ls = \<lparr>ts_labels = map (make_label sum64 fp) ls, ts_fingerprint = sum64 (concat (map (label_body om) ls))\<rparr>"

definition short_series :: "bool \<Rightarrow> (string \<times> string) list \<times> string list \<Rightarrow> bool" where
  "short_series om s \<longleftrightarrow> length (series_body om s) < 2 ^ 63"

lemma concat_member_length: "x \<in> set xs \<Longrightarrow> length (f x) \<le> length (concat (map f xs))"
  by (induction xs) auto

lemma short_seriesD:
  assumes "short_series om s"
  shows "\<forall>l \<in> set (fst s). short_label om l" "\<forall>d \<in> set (snd s). length d < 2 ^ 63"
proof -
  have len: "length d \<le> length (len_field k d)" for k d by (simp add: len_field_def)
  show "\<forall>l \<in> set (fst s). short_label om l"
  proof
    fix l assume "l \<in> set (fst s)"
    from concat_member_length [OF this, of "\<lambda>l. len_field 1 (label_body om l)"] len [of "label_body om l" 1] assms
    show "short_label om l" by (simp add: short_label_def short_series_def series_body_def)
  qed
  show "\<forall>d \<in> set (snd s). length d < 2 ^ 63"
  proof
    fix d assume "d \<in> set (snd s)"
    from concat_member_length [OF this, of "len_field 2"] len [of d 2] assms
    show "length d < 2 ^ 63" by (simp add: short_series_def series_body_def)
  qed
qed

lemma request_loop_skip:
  "\<forall>d \<in> set ds. length d < 2 ^ 63 \<Longrightarrow> request_loop sum64 fp (concat (map (len_field 3) ds)) tss = Inr tss"
proof (induction ds)
  case (Cons d ds)
  let ?rest = "concat (map (len_field 3) ds)"
  have "length d < 2 ^ 63" using Cons.prems by simp
  from request_loop_field [OF read_field_3 [OF this], of sum64 fp ?rest tss]
  have "request_loop sum64 fp (len_field 3 d @ ?rest) tss = request_loop sum64 fp ?rest tss" by simp
  then show ?case using Cons by simp
qed (simp add: request_loop.simps)

lemma request_loop_body:
  assumes "\<forall>s \<in> set ss. short_series om s" and "\<forall>d \<in> set ds. length d < 2 ^ 63"
  shows "request_loop sum64 fp (request_body om ss ds) tss = Inr (tss @ map (\<lambda>s. make_series om sum64 fp (fst s)) ss)"
  using assms(1)
proof (induction ss arbitrary: tss)
  case Nil
  then show ?case using request_loop_skip [OF assms(2)] by (simp add: request_body_def)
next
  case (Cons s ss)
  have s: "short_series om s" using Cons.prems by simp
  let ?rest = "request_body om ss ds"
  have b: "request_body om (s # ss) ds = len_field 1 (series_body om s) @ ?rest" by (simp add: request_body_def)
  have u: "unmarshal_series sum64 fp (series_body om s) = Inr (make_series om sum64 fp (fst s))"
    using series_loop_body [OF short_seriesD [OF s], of sum64 fp "[]" "[]"] by (simp add: unmarshal_series_def make_series_def)
  have "length (series_body om s) < 2 ^ 63" using s by (simp add: short_series_def)
  note f = request_loop_field [OF read_field_1 [OF this], of sum64 fp ?rest tss]
  have "request_loop sum64 fp (len_field 1 (series_body om s) @ ?rest) tss = request_loop sum64 fp ?rest (tss @ [make_series om sum64 fp (fst s)])"
    using f unfolding u by simp
  then show ?case using Cons.IH [of "tss @ [make_series om sum64 fp (fst s)]"] Cons.prems by (simp add: b)
qed

text \<open>C29: A request written by a standard encoder, one that leaves out empty names and values (as the vendored one) or one
  that writes them, is read back exactly: every series with its labels in order, samples and metadata skipped, the
  label fingerprints if they are asked for, and as fingerprint the hash of the label messages.\<close>

theorem request_roundtrip:
  assumes "\<forall>s \<in> set ss. length (series_body om s) < 2 ^ 63" and "\<forall>d \<in> set metadata. length d < 2 ^ 63"
  shows "unmarshal_protobuf sum64 fp_labels (request_body om ss metadata) = Inr (map (\<lambda>s. make_series om sum64 fp_labels (fst s)) ss)"
  using request_loop_body [of ss om metadata sum64 fp_labels "[]"] assms by (simp add: unmarshal_protobuf_def short_series_def)

theorem request_roundtrip_witness:
  "unmarshal_protobuf (\<lambda>b. of_nat (length b)) True (request_body True [([(''job'', ''a'')], [''sample''])] [''meta''])
    = Inr [\<lparr>ts_labels = [\<lparr>lb_name = ''job'', lb_value = ''a'', lb_fingerprint = 1\<rparr>], ts_fingerprint = 8\<rparr>]"
proof -
  have e: "uvarint_enc n = [char_of n]" if "n < 128" for n using that by (simp add: uvarint_enc.simps)
  have "length (series_body True ([(''job'', ''a'')], [''sample''])) < 2 ^ 63"
    by (simp add: series_body_def label_body_def label_field_def len_field_def e)
  then have "\<forall>s \<in> set [([(''job'', ''a'')], [''sample''])]. length (series_body True s) < 2 ^ 63"
    "\<forall>d \<in> set [''meta'']. length d < 2 ^ 63" by simp_all
  from request_roundtrip [OF this, of "\<lambda>b. of_nat (length b)" True] show ?thesis
    by (simp add: make_series_def make_label_def label_body_def label_field_def len_field_def e)
qed

subsection \<open>Fingerprints\<close>

text \<open>
  The label messages of a series are hashed one after the other without separators, as they arrived.  They tell the
  labels apart if each label message begins with its name: an encoder that leaves out empty fields must be given names
  (remote write demands them), for one that writes both fields nothing is needed.
\<close>

definition hashed_bytes :: "bool \<Rightarrow> (string \<times> string) list \<Rightarrow> string" where
  "hashed_bytes om ls = concat (map (label_body om) ls)"

definition proper_label :: "bool \<Rightarrow> string \<times> string \<Rightarrow> bool" where
  "proper_label om l \<longleftrightarrow> short_label om l \<and> (om \<longrightarrow> fst l \<noteq> [])"

lemma proper_labelD:
  assumes "proper_label om l"
  shows "length (fst l) < 2 ^ 63" "length (snd l) < 2 ^ 63" "label_body om l = len_field 1 (fst l) @ label_field om 2 (snd l)"
  using assms short_labelD [of om l] by (auto simp: proper_label_def label_body_def label_field_def)

lemma hashed_bytes_Cons:
  "hashed_bytes om (l # ls) = label_body om l @ hashed_bytes om ls" "hashed_bytes om [] = []"
  by (simp_all add: hashed_bytes_def)

lemma hashed_bytes_head:
  assumes "\<forall>l \<in> set ls. proper_label om l"
  shows "hashed_bytes om ls = [] \<longleftrightarrow> ls = []" "hashed_bytes om ls = [] \<or> hd (hashed_bytes om ls) = char_of (10 :: nat)"
  using assms by (cases ls; simp add: hashed_bytes_Cons proper_labelD(3) len_field_def)+

lemma value_field_inject:
  assumes "length v < 2 ^ 63" and "length v' < 2 ^ 63"
    and "r = [] \<or> hd r = char_of (10 :: nat)" and "r' = [] \<or> hd r' = char_of (10 :: nat)"
    and "label_field om 2 v @ r = label_field om 2 v' @ r'"
  shows "v = v' \<and> r = r'"
proof -
  have ten: "(char_of (18 :: nat) :: char) \<noteq> char_of (10 :: nat)" by simp
  consider "om \<and> v = []" "om \<and> v' = []" | "om \<and> v = []" "\<not> (om \<and> v' = [])" | "\<not> (om \<and> v = [])" "om \<and> v' = []"
    | "\<not> (om \<and> v = [])" "\<not> (om \<and> v' = [])" by blast
  then show ?thesis
  proof cases
    case 1
    then show ?thesis using assms(5) by (simp add: label_field_def)
  next
    case 2
    then have "r = len_field 2 v' @ r'" using assms(5) by (simp add: label_field_def)
    then show ?thesis using assms(3) ten by (simp add: len_field_def)
  next
    case 3
    then have "r' = len_field 2 v @ r" using assms(5) by (simp add: label_field_def)
    then show ?thesis using assms(4) ten by (simp add: len_field_def)
  next
    case 4
    then have eq: "len_field 2 v @ r = len_field 2 v' @ r'" using assms(5) by (simp only: label_field_def if_False)
    from read_field_2 [OF assms(1), of r] read_field_2 [OF assms(2), of r'] show ?thesis unfolding eq by simp
  qed
qed

lemma hashed_bytes_inject:
  assumes "\<forall>l \<in> set ls. proper_label om l" and "\<forall>l \<in> set ls'. proper_label om l" and "hashed_bytes om ls = hashed_bytes om ls'"
  shows "ls = ls'"
  using assms
proof (induction ls arbitrary: ls')
  case Nil
  then show ?case using hashed_bytes_head(1) [of ls' om] by (simp add: hashed_bytes_Cons(2))
next
  case (Cons l ls)
  obtain l' ls1 where ls': "ls' = l' # ls1"
    using Cons.prems(3) hashed_bytes_head(1) [OF Cons.prems(1)] hashed_bytes_head(1) [OF Cons.prems(2)] by (cases ls') simp_all
  have p: "proper_label om l" "proper_label om l'" "\<forall>l \<in> set ls. proper_label om l" "\<forall>l \<in> set ls1. proper_label om l"
    using Cons.prems(1,2) ls' by simp_all
  note s = proper_labelD [OF p(1)] and s' = proper_labelD [OF p(2)]
  let ?r = "hashed_bytes om ls" and ?r' = "hashed_bytes om ls1"
  have eq: "len_field 1 (fst l) @ label_field om 2 (snd l) @ ?r = len_field 1 (fst l') @ label_field om 2 (snd l') @ ?r'"
    using Cons.prems(3) by (simp add: ls' hashed_bytes_Cons(1) s(3) s'(3))
  from read_field_1 [OF s(1), of "label_field om 2 (snd l) @ ?r"] read_field_1 [OF s'(1), of "label_field om 2 (snd l') @ ?r'"]
  have 1: "fst l = fst l'" "label_field om 2 (snd l) @ ?r = label_field om 2 (snd l') @ ?r'" unfolding eq by simp_all
  from value_field_inject [OF s(2) s'(2) hashed_bytes_head(2) [OF p(3)] hashed_bytes_head(2) [OF p(4)] 1(2)] have 2: "snd l = snd l'" "?r = ?r'" by simp_all
  then show ?case using Cons.IH [OF p(3,4) 2(2)] 1(1) by (simp add: ls' prod_eq_iff)
qed

text \<open>C30: Fingerprints of series as the parser computes them from what standard encoders write, with whatever samples: the
  fingerprint is the hash of the label messages, and these bytes are the same for two series exactly if their labels are,
  in the same order.  So two series can only share a fingerprint if their labels are equal or the hash confuses their
  two byte strings.  An encoder that leaves out empty fields must have been given non-empty label names, as
  remote write demands.\<close>

theorem fingerprint_identifies_labels:
  assumes "\<forall>l \<in> set ls. proper_label om l" and "\<forall>l \<in> set ls'. proper_label om l"
    and "\<forall>d \<in> set ds. length d < 2 ^ 63" and "\<forall>d \<in> set ds'. length d < 2 ^ 63"
  shows "\<exists>ts ts'. unmarshal_series sum64 fp (series_body om (ls, ds)) = Inr ts
    \<and> unmarshal_series sum64 fp (series_body om (ls', ds')) = Inr ts'
    \<and> ts_fingerprint ts = sum64 (hashed_bytes om ls) \<and> ts_fingerprint ts' = sum64 (hashed_bytes om ls')
    \<and> (hashed_bytes om ls = hashed_bytes om ls' \<longleftrightarrow> ls = ls')
    \<and> (ls = ls' \<longleftrightarrow> map (\<lambda>lb. (lb_name lb, lb_value lb)) (ts_labels ts) = map (\<lambda>lb. (lb_name lb, lb_value lb)) (ts_labels ts'))"
proof -
  have read: "unmarshal_series sum64 fp (series_body om (xs, es)) = Inr (make_series om sum64 fp xs)"
    if "\<forall>l \<in> set xs. proper_label om l" "\<forall>d \<in> set es. length d < 2 ^ 63" for xs es
    using series_loop_body [of xs om es sum64 fp "[]" "[]"] that
    by (simp add: unmarshal_series_def make_series_def proper_label_def)
  have "map (\<lambda>lb. (lb_name lb, lb_value lb)) (ts_labels (make_series om sum64 fp xs)) = xs" for xs
    by (simp add: make_series_def make_label_def comp_def)
  moreover have "ts_fingerprint (make_series om sum64 fp xs) = sum64 (hashed_bytes om xs)" for xs
    by (simp add: make_series_def hashed_bytes_def)
  ultimately show ?thesis
    using read [OF assms(1,3)] read [OF assms(2,4)] hashed_bytes_inject [OF assms(1,2)] by auto
qed

text \<open>
  Without names the bytes do not tell labels apart: a label without a value followed by one without a name has the
  fingerprint of the label that has both, whatever the hash.  The parser accepts such requests.
\<close>

lemma unnamed_labels_confused:
  shows "ts_fingerprint (make_series True sum64 fp [(a, []), ([], b)]) = ts_fingerprint (make_series True sum64 fp [(a, b)])"
    and "ts_labels (make_series True sum64 fp [(a, []), ([], b)]) \<noteq> ts_labels (make_series True sum64 fp [(a, b)])"
  by (simp_all add: make_series_def label_body_def label_field_def)

theorem fingerprint_identifies_labels_witness:
  "let sum64 = \<lambda>b. foldl (\<lambda>h c. 31 * h + of_nat (of_char c)) 7 b in
   \<exists>ts ts'. unmarshal_series sum64 False (series_body True ([(''a'', ''b''), (''c'', [])], [''sample''])) = Inr ts
     \<and> unmarshal_series sum64 False (series_body True ([(''a'', ''b'')], [])) = Inr ts'
     \<and> ts_fingerprint ts = sum64 (hashed_bytes True [(''a'', ''b''), (''c'', [])])
     \<and> hashed_bytes True [(''a'', ''b''), (''c'', [])] \<noteq> hashed_bytes True [(''a'', ''b'')]
     \<and> ts_fingerprint ts \<noteq> (ts_fingerprint ts' :: u64)"
proof -
  let ?sum = "\<lambda>b. foldl (\<lambda>h c. 31 * h + of_nat (of_char c)) (7 :: u64) b"
  have e: "uvarint_enc n = [char_of n]" if "n < 128" for n using that by (simp add: uvarint_enc.simps)
  let ?ls = "[(''a'', ''b''), (''c'', [])]" and ?ls' = "[(''a'', ''b'')]"
  have s: "\<forall>l \<in> set ?ls. proper_label True l" "\<forall>l \<in> set ?ls'. proper_label True l"
    by (simp_all add: proper_label_def short_label_def label_body_def label_field_def len_field_def e)
  have d: "\<forall>d \<in> set [''sample'']. length d < 2 ^ 63" "\<forall>d \<in> set ([] :: string list). length d < 2 ^ 63" by simp_all
  have "?sum (hashed_bytes True ?ls) \<noteq> ?sum (hashed_bytes True ?ls')"
    by (simp add: hashed_bytes_def label_body_def label_field_def len_field_def e)
  with fingerprint_identifies_labels [OF s d, of ?sum False] show ?thesis unfolding Let_def by auto
qed

subsection \<open>Bounds\<close>

text \<open>How many fields the loop over a message reads, and what a series holds.\<close>

function fields_read :: "string \<Rightarrow> nat" where
  "fields_read src = (case next_field src of Inl _ \<Rightarrow> 0 | Inr (_, _, tail) \<Rightarrow> Suc (fields_read tail))"
  by pat_completeness auto

termination
  by (relation "measure length") (auto dest: next_field_shorter)

declare fields_read.simps [simp del]

definition label_bytes :: "label list \<Rightarrow> nat" where
  "label_bytes ls = sum_list (map (\<lambda>l. length (lb_name l) + length (lb_value l)) ls)"

lemma read_payload_len:
  "read_payload wt src = Inr (LenField d, tail) \<Longrightarrow> length d + length tail < length src"
  using uvarint_shorter [of 0 0 src] by (fastforce simp: read_payload_def split: if_splits option.splits)

lemma next_field_len: "next_field src = Inr (n, LenField d, tail) \<Longrightarrow> length d + length tail + 2 \<le> length src"
  unfolding next_field_is_slow using read_payload_len uvarint_shorter [of 0 0 src]
  by (fastforce simp: next_field_slow_def map_sum_Pair split: list.splits if_splits option.splits)

lemma message_data_len: "next_field src = Inr (n, p, tail) \<Longrightarrow> message_data p = Some d \<Longrightarrow> length d + length tail + 2 \<le> length src"
  using next_field_len by (cases p) (auto simp: message_data_def)

lemma label_loop_len: "label_loop ldata nv = Inr (n, v) \<Longrightarrow> length n + length v \<le> length ldata + length (fst nv) + length (snd nv)"
proof (induction ldata nv rule: label_loop.induct)
  case (1 ldata nv)
  show ?case
  proof (cases "ldata = []")
    case True
    then show ?thesis using "1.prems" by (simp add: label_loop.simps)
  next
    case False
    obtain num p tail where f: "next_field ldata = Inr (num, p, tail)"
      using "1.prems" False by (subst (asm) label_loop.simps) (auto split: sum.splits)
    note sh = next_field_shorter [OF f]
    have run: "(if num = 1 then (case message_data p of None \<Rightarrow> Inl NoLabelName | Some d \<Rightarrow> label_loop tail (d, snd nv))
             else if num = 2 then (case message_data p of None \<Rightarrow> Inl NoLabelValue | Some d \<Rightarrow> label_loop tail (fst nv, d))
             else label_loop tail nv) = Inr (n, v)"
      using "1.prems" False f by (subst (asm) label_loop.simps) simp
    consider (name) d where "num = 1" "message_data p = Some d" "label_loop tail (d, snd nv) = Inr (n, v)"
      | (val) d where "num \<noteq> 1" "num = 2" "message_data p = Some d" "label_loop tail (fst nv, d) = Inr (n, v)"
      | (skip) "num \<noteq> 1" "num \<noteq> 2" "label_loop tail nv = Inr (n, v)"
      using run by (auto split: if_splits option.splits)
    then show ?thesis
    proof cases
      case name
      show ?thesis using "1.IH"(1) [OF False f refl refl name(1,2,3)] message_data_len [OF f name(2)] by simp
    next
      case val
      show ?thesis using "1.IH"(2) [OF False f refl refl val(1,2,3,4)] message_data_len [OF f val(3)] by simp
    next
      case skip
      show ?thesis using "1.IH"(3) [OF False f refl refl skip] sh by simp
    qed
  qed
qed

lemma series_loop_len:
  "series_loop sum64 fp src st = Inr (w, acc) \<Longrightarrow> \<exists>new. acc = snd st @ new \<and> label_bytes new + 2 * length new \<le> length src"
proof (induction sum64 fp src st rule: series_loop.induct)
  case (1 sum64 fp src st)
  show ?case
  proof (cases "src = []")
    case True
    then show ?thesis using "1.prems" by (simp add: series_loop.simps label_bytes_def)
  next
    case False
    obtain num p tail where f: "next_field src = Inr (num, p, tail)"
      using "1.prems" False by (subst (asm) series_loop.simps) (auto split: sum.splits)
    note sh = next_field_shorter [OF f]
    have run: "(if num = 1
             then (case message_data p of
                     None \<Rightarrow> Inl NoLabelData
                   | Some d \<Rightarrow>
                       (case label_loop d ([], []) of
                          Inl err \<Rightarrow> Inl err
                        | Inr (name, val) \<Rightarrow>
                            series_loop sum64 fp tail
                              (fst st @ d, snd st @ [\<lparr>lb_name = name, lb_value = val,
                                 lb_fingerprint = (if fp then sum64 val else 0)\<rparr>])))
             else series_loop sum64 fp tail st) = Inr (w, acc)"
      using "1.prems" False f by (subst (asm) series_loop.simps) simp
    consider (lab) d name val where "num = 1" "message_data p = Some d" "label_loop d ([], []) = Inr (name, val)"
        "series_loop sum64 fp tail (fst st @ d, snd st @ [\<lparr>lb_name = name, lb_value = val,
                                 lb_fingerprint = (if fp then sum64 val else 0)\<rparr>]) = Inr (w, acc)"
      | (skip) "num \<noteq> 1" "series_loop sum64 fp tail st = Inr (w, acc)"
      using run by (auto split: if_splits option.splits sum.splits)
    then show ?thesis
    proof cases
      case lab
      let ?l = "\<lparr>lb_name = name, lb_value = val, lb_fingerprint = (if fp then sum64 val else 0)\<rparr>"
      from "1.IH"(1) [OF False f refl refl lab(1,2,3) refl lab(4)] obtain new
        where n: "acc = (snd st @ [?l]) @ new" "label_bytes new + 2 * length new \<le> length tail" by auto
      have "length name + length val \<le> length d" using label_loop_len [OF lab(3)] by simp
      then have "label_bytes (?l # new) + 2 * length (?l # new) \<le> length src"
        using n(2) message_data_len [OF f lab(2)] by (simp add: label_bytes_def)
      then show ?thesis using n(1) by (intro exI [of _ "?l # new"]) simp
    next
      case skip
      from "1.IH"(2) [OF False f refl refl skip] sh show ?thesis by force
    qed
  qed
qed

lemma request_loop_len:
  "request_loop sum64 fp src tss = Inr tss' \<Longrightarrow> \<exists>new. tss' = tss @ new
     \<and> sum_list (map (\<lambda>ts. label_bytes (ts_labels ts) + 2 * length (ts_labels ts) + 2) new) \<le> length src"
proof (induction sum64 fp src tss rule: request_loop.induct)
  case (1 sum64 fp src tss)
  show ?case
  proof (cases "src = []")
    case True
    then show ?thesis using "1.prems" by (simp add: request_loop.simps)
  next
    case False
    obtain num p tail where f: "next_field src = Inr (num, p, tail)"
      using "1.prems" False by (subst (asm) request_loop.simps) (auto split: sum.splits)
    note sh = next_field_shorter [OF f]
    have run: "(if num = 1
             then (case message_data p of
                     None \<Rightarrow> Inl NoTimeseriesData
                   | Some d \<Rightarrow>
                       (case unmarshal_series sum64 fp d of
                          Inl err \<Rightarrow> Inl (BadTimeserie err)
                        | Inr ts \<Rightarrow> request_loop sum64 fp tail (tss @ [ts])))
             else request_loop sum64 fp tail tss) = Inr tss'"
      using "1.prems" False f by (subst (asm) request_loop.simps) simp
    consider (ser) d ts where "num = 1" "message_data p = Some d" "unmarshal_series sum64 fp d = Inr ts"
        "request_loop sum64 fp tail (tss @ [ts]) = Inr tss'"
      | (skip) "num \<noteq> 1" "request_loop sum64 fp tail tss = Inr tss'"
      using run by (auto split: if_splits option.splits sum.splits)
    then show ?thesis
    proof cases
      case ser
      from "1.IH"(1) [OF False f refl refl ser(1,2,3,4)] obtain new where n: "tss' = (tss @ [ts]) @ new"
        "sum_list (map (\<lambda>ts. label_bytes (ts_labels ts) + 2 * length (ts_labels ts) + 2) new) \<le> length tail" by blast
      obtain w acc where "series_loop sum64 fp d ([], []) = Inr (w, acc)" "ts_labels ts = acc"
        using ser(3) unfolding unmarshal_series_def by (cases "series_loop sum64 fp d ([], [])") auto
      then have "label_bytes (ts_labels ts) + 2 * length (ts_labels ts) \<le> length d" using series_loop_len by fastforce
      then show ?thesis using n message_data_len [OF f ser(2)] by (intro exI [of _ "ts # new"]) simp
    next
      case skip
      from "1.IH"(2) [OF False f refl refl skip] sh show ?thesis by force
    qed
  qed
qed

lemma fields_read_le: "fields_read src \<le> length src"
proof (induction src rule: fields_read.induct)
  case (1 src)
  show ?case
  proof (cases "next_field src")
    case (Inr r)
    obtain n p tail where r: "r = (n, p, tail)" by (cases r)
    have f: "fields_read src = Suc (fields_read tail)" by (subst fields_read.simps) (simp add: Inr r)
    have "fields_read tail \<le> length tail" by (rule "1" [OF Inr r [symmetric] refl])
    then show ?thesis using next_field_shorter [of src n p tail] Inr r f by simp
  next
    case (Inl err)
    have "fields_read src = 0" by (subst fields_read.simps) (simp add: Inl)
    then show ?thesis by simp
  qed
qed

text \<open>C31: Reading ends on every input: the loop over a message reads at most as many fields as the message has bytes.  What it
  yields is bounded by the request, even for hostile ones: every series and every label costs at least two
  bytes besides the bytes of its names and values.\<close>

theorem request_bounds:
  assumes "unmarshal_protobuf sum64 fp_labels src = Inr tss"
  shows "fields_read src \<le> length src
    \<and> sum_list (map (\<lambda>ts. label_bytes (ts_labels ts) + 2 * length (ts_labels ts) + 2) tss) \<le> length src"
  using fields_read_le request_loop_len [of sum64 fp_labels src "[]" tss] assms by (simp add: unmarshal_protobuf_def)

theorem request_bounds_witness:
  "\<exists>src. unmarshal_protobuf (\<lambda>_. 0) False src = Inr [\<lparr>ts_labels = [\<lparr>lb_name = ''job'', lb_value = ''a'', lb_fingerprint = 0\<rparr>], ts_fingerprint = 0\<rparr>]
    \<and> 8 \<le> length src"
proof -
  have e: "uvarint_enc n = [char_of n]" if "n < 128" for n using that by (simp add: uvarint_enc.simps)
  have "short_series True ([(''job'', ''a'')], [])"
    by (simp add: short_series_def series_body_def label_body_def label_field_def len_field_def e)
  then have u: "unmarshal_protobuf (\<lambda>_. 0) False (request_body True [([(''job'', ''a'')], [])] [])
      = Inr [\<lparr>ts_labels = [\<lparr>lb_name = ''job'', lb_value = ''a'', lb_fingerprint = 0\<rparr>], ts_fingerprint = 0\<rparr>]"
    using request_loop_body [of "[([(''job'', ''a'')], [])]" True "[]" "\<lambda>_. 0" False "[]"]
    by (simp add: unmarshal_protobuf_def make_series_def make_label_def)
  from request_bounds [OF u] have "8 \<le> length (request_body True [([(''job'', ''a'')], [])] [])" by (simp add: label_bytes_def)
  then show ?thesis using u by blast
qed

end
