(* ===== verification/Http_Main.thy ===== *)
theory Http_Main
  imports Config Protoparser
begin

section \<open>The request handlers (\<^verbatim>\<open>main.go\<close>)\<close>

text \<open>
  The handler that \<^verbatim>\<open>main\<close> registers, as a function of the program state \<open>app\<close> and a request.  A panic inside
  a handler ends the process: the vendored server recovers it, prints it and exits.

  Outside the program are the flags, the decompressors, the hash, the encoder that writes a snapshot stream
  to the connection, the check of a key or password, the random numbers and the clock.  The self-metrics
  and the headers of a response are left out.
\<close>

subsection \<open>Paths\<close>

text \<open>\<^verbatim>\<open>strings.CutPrefix\<close>, of which the program uses the first result.\<close>

definition cut_prefix :: "string \<Rightarrow> string \<Rightarrow> string" where
  "cut_prefix pre path = (if take (length pre) path = pre then drop (length pre) path else path)"

definition is_auth_key_protected_path :: "string \<Rightarrow> bool" where
  "is_auth_key_protected_path path \<longleftrightarrow> cut_prefix ''/cardinality'' path = ''/-/reload''"

subsection \<open>Writing\<close>

text \<open>\<^verbatim>\<open>fastrand.Uint32n\<close> of the vendored package, for the random number \<open>x\<close>.\<close>

definition uint32n :: "u32 \<Rightarrow> u32 \<Rightarrow> u32" where
  "uint32n x n = ucast (drop_bit 32 (ucast x * ucast n :: u64))"

text \<open>
  One turn of the loop over the estimators; \<open>rand\<close> are the random numbers the request draws, the first one
  for the loop and the others for the calls of \<^verbatim>\<open>insertMany\<close>.
\<close>

definition insert_turn ::
  "(string \<Rightarrow> u64) \<Rightarrow> (nat \<Rightarrow> u32) \<Rightarrow> u32 \<Rightarrow> time_serie list \<Rightarrow> estimator list \<Rightarrow> nat \<Rightarrow> go_panic + estimator list" where
  "insert_turn sum64 rand es_start tss es j =
     (let idx = unat (visit_index es_start (of_nat (length es)) (of_nat j)) in
      if idx < length es
      then map_sum id (\<lambda>e'. es[idx := e'])
             (insert_many sum64 (uint32n (rand (Suc j)) (of_nat (length tss))) (es ! idx) tss)
      else Inl IndexOutOfRange)"

definition insert_all ::
  "(string \<Rightarrow> u64) \<Rightarrow> (nat \<Rightarrow> u32) \<Rightarrow> time_serie list \<Rightarrow> estimator list \<Rightarrow> go_panic + estimator list" where
  "insert_all sum64 rand tss es =
     (let es_len = of_nat (length es) :: u32;
          es_start = uint32n (rand 0) es_len
      in fold_err (insert_turn sum64 rand es_start tss) es [0..<unat es_len])"

definition write_callback :: "(string \<Rightarrow> u64) \<Rightarrow> (nat \<Rightarrow> u32) \<Rightarrow> time_serie list \<Rightarrow> app \<Rightarrow> go_panic + app" where
  "write_callback sum64 rand tss st =
     (case (case ap_dedup st of
              None \<Rightarrow> Inr (st, tss)
            | Some d \<Rightarrow> map_sum id (\<lambda>(d', out). (st\<lparr>ap_dedup := Some d'\<rparr>, out)) (filter_in_place d tss)) of
        Inl p \<Rightarrow> Inl p
      | Inr (st', tss') \<Rightarrow>
          if ap_dedup st \<noteq> None \<and> tss' = [] then Inr st'
          else map_sum id (\<lambda>es. st'\<lparr>ap_estimators := es\<rparr>) (insert_all sum64 rand tss' (ap_estimators st')))"

subsection \<open>Requests\<close>

record http_request =
  hr_path :: string
  hr_body :: "string + string"
  hr_authorized :: bool
  hr_rand :: "nat \<Rightarrow> u32"
  hr_clock :: "instant \<times> instant \<times> instant"

text \<open>The encoder's state \<open>'s\<close> stands for the connection.\<close>

record 's http_env =
  he_cm_path :: string
  he_nodes :: "string list"
  he_codec :: request_codec
  he_sum64 :: "string \<Rightarrow> u64"
  he_cm :: cm_env
  he_encode :: "('s, string) snapshot_cb"
  he_conn :: 's

datatype 's reply =
    MetricsText string | NoContent | ParseFailed parse_error | Stream 's | ResetDone | ReloadSignalled | Unauthorized | NotServed

definition write_handler :: "'s http_env \<Rightarrow> http_request \<Rightarrow> app \<Rightarrow> go_panic + app \<times> 's reply" where
  "write_handler env rq st =
     (case parse_request (he_codec env) (he_sum64 env) (ap_fingerprint_labels st) (hr_body rq) of
        (call, err) \<Rightarrow>
          (case (case call of None \<Rightarrow> Inr st | Some tss \<Rightarrow> write_callback (he_sum64 env) (hr_rand rq) tss st) of
             Inl p \<Rightarrow> Inl p
           | Inr st' \<Rightarrow> Inr (st', case err of Some e \<Rightarrow> ParseFailed e | None \<Rightarrow> NoContent)))"

text \<open>An error of one estimator's snapshots is logged, and the next estimator is encoded.\<close>

fun query_estimators ::
  "hll_float \<Rightarrow> ('s, string) snapshot_cb \<Rightarrow> estimator list \<Rightarrow> 's \<Rightarrow> go_panic + estimator list \<times> 's" where
  "query_estimators fl enc [] conn = Inr ([], conn)"
| "query_estimators fl enc (e # es) conn =
     (case to_snapshot fl enc e conn of
        Inl p \<Rightarrow> Inl p
      | Inr (e', conn', _) \<Rightarrow> map_sum id (\<lambda>(es', conn''). (e' # es', conn'')) (query_estimators fl enc es conn'))"

definition query_handler :: "'s http_env \<Rightarrow> app \<Rightarrow> go_panic + app \<times> 's reply" where
  "query_handler env st =
     map_sum id (\<lambda>(es, conn). (st\<lparr>ap_estimators := es\<rparr>, Stream conn))
       (query_estimators (cm_float (he_cm env)) (he_encode env) (ap_estimators st) (he_conn env))"

definition reset_all :: "estimator list \<Rightarrow> go_panic + estimator list" where
  "reset_all = fold_err (\<lambda>es e. map_sum id (\<lambda>e'. es @ [e']) (es_reset e)) []"

definition reset_handler :: "app \<Rightarrow> go_panic + app \<times> 's reply" where
  "reset_handler st =
     map_sum id (\<lambda>es. (st\<lparr>ap_estimators := es,
          ap_cm := (ap_cm st)\<lparr>cm_churn := new_churn_snapshots, cm_cache_at := None\<rparr>\<rparr>, ResetDone))
       (reset_all (ap_estimators st))"

definition serve_cardinality :: "'s http_env \<Rightarrow> http_request \<Rightarrow> app \<Rightarrow> go_panic + app \<times> 's reply" where
  "serve_cardinality env rq st =
     map_sum id (\<lambda>(es, cm, text). (st\<lparr>ap_estimators := es, ap_cm := cm\<rparr>, MetricsText text))
       (write_cardinality_metrics (he_cm env) (ap_estimators st) (he_nodes env) (hr_clock rq) (ap_cm st))"

definition handle :: "'s http_env \<Rightarrow> http_request \<Rightarrow> app \<Rightarrow> go_panic + app \<times> 's reply" where
  "handle env rq st =
     (if he_cm_path env \<noteq> ''/metrics'' \<and> he_cm_path env \<noteq> [] \<and> hr_path rq = he_cm_path env
      then serve_cardinality env rq st
      else
        let path = cut_prefix ''/cardinality'' (hr_path rq) in
        if path = ''/api/v1/write'' then write_handler env rq st
        else if path = ''/clusternative/query'' \<or> path = ''/clusternative/snapshot'' then query_handler env st
        else if path = ''/reset'' then reset_handler st
        else if path = ''/-/reload'' then Inr (st, if hr_authorized rq then ReloadSignalled else Unauthorized)
        else Inr (st, NotServed))"

subsection \<open>Which paths skip the server's check\<close>

lemma cut_prefix_eq: "take (length pre) q \<noteq> pre \<Longrightarrow> cut_prefix pre path = q \<longleftrightarrow> path = q \<or> path = pre @ q"
proof -
  assume q: "take (length pre) q \<noteq> pre"
  have "path = pre @ drop (length pre) path" if "take (length pre) path = pre" using that by (metis append_take_drop_id)
  then show ?thesis using q by (auto simp: cut_prefix_def)
qed

lemma protected_paths: "is_auth_key_protected_path path \<longleftrightarrow> path = ''/-/reload'' \<or> path = ''/cardinality/-/reload''"
  unfolding is_auth_key_protected_path_def by (subst cut_prefix_eq) simp_all

definition metrics_path :: "'s http_env \<Rightarrow> string \<Rightarrow> bool" where
  "metrics_path env path \<longleftrightarrow> he_cm_path env \<noteq> ''/metrics'' \<and> he_cm_path env \<noteq> [] \<and> path = he_cm_path env"

text \<open>C33: Exactly the two spellings of the reload path skip the server's own authorization.  On them a request signals a
  reload when it is authorized by the reload key and changes nothing otherwise, and no other path signals a
  reload; but when the metrics are exposed at such a path, they are served there without any authorization.\<close>

theorem reload_authorization:
  "(is_auth_key_protected_path (hr_path rq) \<longleftrightarrow> hr_path rq = ''/-/reload'' \<or> hr_path rq = ''/cardinality/-/reload'')
    \<and> (if is_auth_key_protected_path (hr_path rq)
       then handle env rq st =
              (if metrics_path env (hr_path rq) then serve_cardinality env rq st
               else Inr (st, if hr_authorized rq then ReloadSignalled else Unauthorized))
       else \<forall>st'. handle env rq st \<noteq> Inr (st', ReloadSignalled))"
proof -
  have "handle env rq st = (if metrics_path env (hr_path rq) then serve_cardinality env rq st
      else Inr (st, if hr_authorized rq then ReloadSignalled else Unauthorized))" if "is_auth_key_protected_path (hr_path rq)"
    using that by (simp add: handle_def metrics_path_def is_auth_key_protected_path_def Let_def)
  moreover have "handle env rq st \<noteq> Inr (st', ReloadSignalled)" if "\<not> is_auth_key_protected_path (hr_path rq)" for st'
    using that
    by (auto simp: handle_def is_auth_key_protected_path_def Let_def serve_cardinality_def write_handler_def
        query_handler_def reset_handler_def map_sum_Inr split: prod.splits sum.splits option.splits)
  ultimately show ?thesis using protected_paths by simp
qed

subsection \<open>Inserting into all estimators\<close>

lemma uint32n_less: "n \<noteq> 0 \<Longrightarrow> unat (uint32n x n) < unat n"
proof -
  assume n: "n \<noteq> 0"
  then have n0: "0 < unat n" by (simp add: unat_gt_0)
  have x: "unat x < 2 ^ 32" and n32: "unat n < 2 ^ 32" using unsigned_less [of x] unsigned_less [of n] by simp_all
  have lt: "unat x * unat n < 2 ^ 32 * unat n" using x n0 by simp
  also have "\<dots> \<le> 2 ^ 32 * 2 ^ 32" using n32 by simp
  finally have "unat x * unat n < 2 ^ 64" by simp
  then have "unat (ucast x :: u64) = unat x" "unat (ucast n :: u64) = unat n" "unat x * unat n < 2 ^ 64"
    using x n32 by (simp_all add: unsigned_ucast_eq take_bit_nat_eq_self)
  then have m: "unat (ucast x * ucast n :: u64) = unat x * unat n" by (simp add: unat_word_ariths)
  have "unat (drop_bit 32 (ucast x * ucast n :: u64)) = unat x * unat n div 2 ^ 32"
    unfolding unat_drop_bit_eq m by (rule drop_bit_eq_div)
  moreover have "unat x * unat n div 2 ^ 32 < unat n" using lt by (simp add: less_mult_imp_div_less mult.commute)
  ultimately show ?thesis using n32 by (simp add: uint32n_def unsigned_ucast_eq take_bit_nat_eq_self)
qed

lemma uint32n_start: "length xs \<le> 2 ^ 31 \<Longrightarrow> start_ok (uint32n x (of_nat (length xs))) xs"
proof -
  assume l: "length xs \<le> 2 ^ 31"
  then have u: "unat (of_nat (length xs) :: u32) = length xs" by (intro small_unat) simp
  have "of_nat (length xs) \<noteq> (0 :: u32)" if "xs \<noteq> []" using that u by (metis length_0_conv unat_0)
  then show ?thesis using uint32n_less [of "of_nat (length xs)" x] u l by (simp add: start_ok_def)
qed

definition inserted :: "(string \<Rightarrow> u64) \<Rightarrow> time_serie list \<Rightarrow> estimator \<Rightarrow> estimator \<Rightarrow> bool" where
  "inserted sum64 tss e e' \<longleftrightarrow> (\<exists>start. start_ok start tss \<and> insert_many sum64 start e tss = Inr e')"

lemma insert_turns:
  fixes es_start :: u32
  defines "idx n \<equiv> \<lambda>j. unat (visit_index es_start (of_nat n) (of_nat j))"
  assumes "distinct (map (idx (length es)) js)" and "\<forall>j \<in> set js. idx (length es) j < length es"
    and "length tss \<le> 2 ^ 31" and "\<forall>i \<in> idx (length es) ` set js. estimator_ok (p i) (es ! i)"
  shows "\<exists>es'. fold_err (insert_turn sum64 rand es_start tss) es js = Inr es' \<and> length es' = length es
    \<and> (\<forall>i < length es. if i \<in> idx (length es) ` set js then inserted sum64 tss (es ! i) (es' ! i) else es' ! i = es ! i)"
  using assms(2-)
proof (induction js arbitrary: es)
  case (Cons j js)
  let ?i = "idx (length es) j"
  let ?start = "uint32n (rand (Suc j)) (of_nat (length tss))"
  have i: "?i < length es" "?i \<notin> idx (length es) ` set js" "estimator_ok (p ?i) (es ! ?i)" using Cons.prems by auto
  have st: "start_ok ?start tss" using uint32n_start [OF Cons.prems(3)] .
  obtain e' where e': "insert_many sum64 ?start (es ! ?i) tss = Inr e'" using insert_many_ok [OF i(3) st] by blast
  let ?es = "es[?i := e']"
  have turn: "insert_turn sum64 rand es_start tss es j = Inr ?es"
    using i(1) e' by (simp add: insert_turn_def Let_def idx_def)
  have "\<exists>es'. fold_err (insert_turn sum64 rand es_start tss) ?es js = Inr es' \<and> length es' = length ?es
    \<and> (\<forall>i < length ?es. if i \<in> idx (length ?es) ` set js then inserted sum64 tss (?es ! i) (es' ! i) else es' ! i = ?es ! i)"
  proof (rule Cons.IH)
    show "\<forall>i \<in> idx (length ?es) ` set js. estimator_ok (p i) (?es ! i)"
      using Cons.prems(4) i(2) by (metis image_insert insert_iff length_list_update list.set(2) nth_list_update_neq)
  qed (use Cons.prems in simp_all)
  then obtain es' where es': "fold_err (insert_turn sum64 rand es_start tss) ?es js = Inr es'" "length es' = length es"
    "\<forall>i < length es. if i \<in> idx (length es) ` set js then inserted sum64 tss (?es ! i) (es' ! i) else es' ! i = ?es ! i" by auto
  have "inserted sum64 tss (es ! ?i) e'" using st e' by (auto simp: inserted_def)
  then have "if k \<in> idx (length es) ` set (j # js) then inserted sum64 tss (es ! k) (es' ! k) else es' ! k = es ! k"
    if k: "k < length es" for k
    using es'(3) [rule_format, OF k] i by (cases "k = ?i") auto
  then show ?case using turn es'(1,2) by auto
qed simp

lemma insert_all_nth:
  assumes "\<forall>i < length es. estimator_ok (p i) (es ! i)" and "length es \<le> 2 ^ 31" and "length tss \<le> 2 ^ 31"
  shows "\<exists>es'. insert_all sum64 rand tss es = Inr es' \<and> list_all2 (inserted sum64 tss) es es'"
proof (cases "es = []")
  case True
  then show ?thesis by (simp add: insert_all_def)
next
  case False
  let ?n = "length es" and ?start = "uint32n (rand 0) (of_nat (length es))"
  let ?idx = "\<lambda>j. unat (visit_index ?start (of_nat ?n) (of_nat j))"
  have u: "unat (of_nat ?n :: u32) = ?n" using assms(2) by (intro small_unat) simp
  have st: "start_ok ?start es" by (rule uint32n_start [OF assms(2)])
  have "visit_order ?start [0..<?n] = rotate (unat ?start) [0..<?n]"
    using st False assms(2) by (intro visit_order_rotate) (simp_all add: start_ok_def)
  moreover have lt: "?idx j < ?n" for j
  proof -
    have "of_nat ?n \<noteq> (0 :: u32)" using u False by (metis length_0_conv unat_0)
    then have "unat ((?start + of_nat j) mod of_nat ?n) < unat (of_nat ?n :: u32)"
      by (simp add: unat_mod_distrib unat_gt_0)
    then show ?thesis using u by (simp add: visit_index_def)
  qed
  then have "visit_order ?start [0..<?n] = map ?idx [0..<?n]" by (simp add: visit_order_def)
  ultimately have idx: "map ?idx [0..<?n] = rotate (unat ?start) [0..<?n]" by simp
  have d: "distinct (map ?idx [0..<?n])" unfolding idx by simp
  have "set (map ?idx [0..<?n]) = {..<?n}" unfolding idx by auto
  then have all: "?idx ` set [0..<?n] = {..<?n}" unfolding set_map .
  have "\<forall>i \<in> ?idx ` set [0..<?n]. estimator_ok (p i) (es ! i)" using assms(1) unfolding all by simp
  from insert_turns [OF d _ assms(3) this, of sum64 rand] lt obtain es'
    where es': "fold_err (insert_turn sum64 rand ?start tss) es [0..<?n] = Inr es'" "length es' = ?n"
      "\<forall>i < ?n. if i \<in> ?idx ` set [0..<?n] then inserted sum64 tss (es ! i) (es' ! i) else es' ! i = es ! i" by auto
  have "list_all2 (inserted sum64 tss) es es'" using es'(2,3) unfolding all by (auto simp: list_all2_conv_all_nth)
  then show ?thesis using es'(1) u by (simp add: insert_all_def Let_def)
qed

lemma insert_all_ok:
  assumes "\<forall>e \<in> set es. estimator_ok (P (es_id e)) e" and "length es \<le> 2 ^ 31" and "length tss \<le> 2 ^ 31"
  shows "\<exists>es'. insert_all sum64 rand tss es = Inr es' \<and> list_all2 (inserted sum64 tss) es es'"
  using assms by (intro insert_all_nth [where p = "\<lambda>i. P (es_id (es ! i))"]) simp_all

subsection \<open>Every operation keeps the program well-formed\<close>

lemma active_okD:
  assumes "active_ok P e"
  shows "estimator_ok (P (es_id e)) e" "es_values_ok e" "es_id e \<noteq> []" "\<forall>eb \<in> set (es_buckets e). map_ok (eb_labels eb)"
    "es_names_ok e" "interval_ok (eb_interval (hd (es_buckets e)))" "es_id e = config_id (es_cfg e)"
    "ec_hll_precision (es_cfg e) = P (es_id e)" "scrape_ok P e" "node_ok P e"
proof -
  have s: "scrape_ok P e" "es_id e = config_id (es_cfg e)" "ec_hll_precision (es_cfg e) = P (es_id e)"
    using assms unfolding active_ok_def by auto
  have n: "node_ok P e" "es_values_ok e" "es_names_ok e" "interval_ok (eb_interval (hd (es_buckets e)))"
    using s(1) unfolding scrape_ok_def by auto
  have m: "estimator_ok (P (es_id e)) e" "es_id e \<noteq> []" "\<forall>eb \<in> set (es_buckets e). map_ok (eb_labels eb)"
    using n(1) unfolding node_ok_def by auto
  show "estimator_ok (P (es_id e)) e" "es_values_ok e" "es_id e \<noteq> []" "\<forall>eb \<in> set (es_buckets e). map_ok (eb_labels eb)"
    "es_names_ok e" "interval_ok (eb_interval (hd (es_buckets e)))" "es_id e = config_id (es_cfg e)"
    "ec_hll_precision (es_cfg e) = P (es_id e)" "scrape_ok P e" "node_ok P e"
    by (fact s n m)+
qed

lemma active_ok_same:
  assumes "active_ok P e" and "estimator_ok (P (es_id e)) e'" and "es_values_ok e'" and "es_shell e' = es_shell e"
    and "es_frame e' = es_frame e"
  shows "active_ok P e'"
proof -
  have id: "es_id e' = es_id e" "es_cfg e' = es_cfg e" "es_group_by e' = es_group_by e" using assms(4) by (simp_all add: es_shell_def)
  note s = active_okD [OF assms(1)]
  have "eb_labels ` set (es_buckets e') = eb_labels ` set (es_buckets e)"
    using arg_cong [OF es_frame_labels [OF assms(5)], of set] by simp
  then have "\<forall>eb \<in> set (es_buckets e'). eb_labels eb \<in> eb_labels ` set (es_buckets e)" by blast
  then have "\<forall>eb \<in> set (es_buckets e'). map_ok (eb_labels eb)" using s(4) by auto
  moreover have "eb_interval (hd (es_buckets e')) = eb_interval (hd (es_buckets e))"
  proof -
    have "hd (es_frame e') = hd (es_frame e)" using assms(5) by simp
    then show ?thesis using estimator_okD(1) [OF assms(2)] estimator_okD(1) [OF s(1)]
      by (simp add: es_frame_def hd_map eb_shell_def)
  qed
  ultimately show ?thesis using assms(2,3) s(3,6-8) id es_names_frame [OF assms(5) id(3) s(5)]
    unfolding active_ok_def scrape_ok_def node_ok_def by metis
qed

definition same_estimator :: "(string \<Rightarrow> nat) \<Rightarrow> estimator \<Rightarrow> estimator \<Rightarrow> bool" where
  "same_estimator P e e' \<longleftrightarrow> active_ok P e' \<and> es_id e' = es_id e \<and> es_cfg e' = es_cfg e
     \<and> es_has_label_keyword e' = es_has_label_keyword e"

lemma same_estimator_refl: "active_ok P e \<Longrightarrow> same_estimator P e e"
  by (simp add: same_estimator_def)

lemma same_estimatorI:
  assumes "active_ok P e" and "estimator_ok (P (es_id e)) e'" and "es_values_ok e'" and "es_shell e' = es_shell e"
    and "es_frame e' = es_frame e"
  shows "same_estimator P e e'"
  using active_ok_same [OF assms] assms(4) by (simp add: same_estimator_def es_shell_def)

lemma same_estimator_ids: "list_all2 (same_estimator P) es es' \<Longrightarrow> map es_id es' = map es_id es"
  by (rule nth_equalityI) (auto simp: list_all2_conv_all_nth same_estimator_def)

lemma app_ok_same:
  assumes "app_ok P st" and "list_all2 (same_estimator P) (ap_estimators st) (ap_estimators st')" and "cm_ok P (ap_cm st')"
    and "\<forall>d. ap_dedup st' = Some d \<longrightarrow> dedup_ok d" and "ap_fingerprint_labels st' = ap_fingerprint_labels st"
  shows "app_ok P st'"
proof -
  have "distinct (map es_id (ap_estimators st'))" using assms(1) same_estimator_ids [OF assms(2)] by (simp add: app_ok_def)
  moreover have "active_ok P e' \<and> (es_has_label_keyword e' \<longrightarrow> ap_fingerprint_labels st')" if e': "e' \<in> set (ap_estimators st')" for e'
  proof -
    obtain i where i: "i < length (ap_estimators st')" "e' = ap_estimators st' ! i" using e' by (metis in_set_conv_nth)
    then have "i < length (ap_estimators st)" "same_estimator P (ap_estimators st ! i) e'"
      using assms(2) by (auto simp: list_all2_conv_all_nth)
    then show ?thesis using assms(1,5) unfolding app_ok_def same_estimator_def by (metis nth_mem)
  qed
  ultimately show ?thesis using assms(3,4) by (simp add: app_ok_def)
qed

lemma inserted_same:
  assumes "inserted sum64 tss e e'" and "active_ok P e"
  shows "same_estimator P e e'"
proof -
  note e = active_okD(1,2) [OF assms(2)]
  obtain start where s: "start_ok start tss" "insert_many sum64 start e tss = Inr e'" using assms(1) by (auto simp: inserted_def)
  have "estimator_ok (P (es_id e)) e' \<and> es_shell e' = es_shell e" using insert_many_ok [OF e(1) s(1), of sum64] s(2) by auto
  then show ?thesis using insert_many_values [OF s(2) e(2)] by (intro same_estimatorI [OF assms(2)]) simp_all
qed

lemma list_all2_imp_set: "list_all2 R xs ys \<Longrightarrow> \<forall>x \<in> set xs. \<forall>y. R x y \<longrightarrow> Q x y \<Longrightarrow> list_all2 Q xs ys"
  by (auto simp: list_all2_conv_all_nth)

lemma rejects_same: "only_rejects e e' \<Longrightarrow> active_ok P e \<Longrightarrow> scrape_ok P e' \<Longrightarrow> same_estimator P e e'"
  unfolding only_rejects_def same_estimator_def active_ok_def by auto

text \<open>The request batch a deduplicator lets pass.\<close>

definition passed :: "deduplicator option \<Rightarrow> time_serie list \<Rightarrow> deduplicator option \<Rightarrow> time_serie list \<Rightarrow> bool" where
  "passed dedup tss dedup' tss' \<longleftrightarrow>
     (case dedup of
        None \<Rightarrow> dedup' = None \<and> tss' = tss
      | Some d \<Rightarrow> (\<exists>d'. dedup_filter d tss [] = Inr (d', tss') \<and> dedup' = Some d'))"

lemma filter_passes:
  assumes "dedup_ok d"
  shows "\<exists>d' out. filter_in_place d tss = Inr (d', out) \<and> dedup_filter d tss [] = Inr (d', out) \<and> dedup_ok d'
    \<and> length out \<le> length tss"
proof -
  obtain d' out where "pass_run filter_one d tss [] = Inr (d', out)" "dedup_ok d'" "subseq out tss"
    using dedup.run_ok [OF assms, of tss "[]"] by auto
  then show ?thesis using list_emb_length by (auto simp: filter_in_place_is_filter dedup_filter_run)
qed

lemma write_callback_ok:
  assumes "app_ok P st" and "length (ap_estimators st) \<le> 2 ^ 31" and "length tss \<le> 2 ^ 31"
  shows "\<exists>st' tss'. write_callback sum64 rand tss st = Inr st' \<and> app_ok P st' \<and> passed (ap_dedup st) tss (ap_dedup st') tss'
    \<and> list_all2 (inserted sum64 tss') (ap_estimators st) (ap_estimators st')
    \<and> st' = st\<lparr>ap_estimators := ap_estimators st', ap_dedup := ap_dedup st'\<rparr>"
proof -
  have active: "\<forall>e \<in> set (ap_estimators st). active_ok P e" and cm: "cm_ok P (ap_cm st)"
    and dd: "\<forall>d. ap_dedup st = Some d \<longrightarrow> dedup_ok d" using assms(1) by (simp_all add: app_ok_def)
  then have eok: "\<forall>e \<in> set (ap_estimators st). estimator_ok (P (es_id e)) e" using active_okD(1) by blast
  have all: "\<exists>es'. insert_all sum64 rand xs (ap_estimators st) = Inr es' \<and> list_all2 (inserted sum64 xs) (ap_estimators st) es'
      \<and> list_all2 (same_estimator P) (ap_estimators st) es'" if xs: "length xs \<le> 2 ^ 31" for xs
  proof -
    obtain es' where "insert_all sum64 rand xs (ap_estimators st) = Inr es'" "list_all2 (inserted sum64 xs) (ap_estimators st) es'"
      using insert_all_ok [OF eok assms(2) xs] by blast
    then show ?thesis using list_all2_imp_set [of "inserted sum64 xs" _ _ "same_estimator P"] inserted_same active by blast
  qed
  have ok: "app_ok P (st\<lparr>ap_estimators := es', ap_dedup := dd'\<rparr>)"
    if "list_all2 (same_estimator P) (ap_estimators st) es'" "\<forall>d. dd' = Some d \<longrightarrow> dedup_ok d" for es' dd'
    using that cm by (intro app_ok_same [OF assms(1)]) simp_all
  show ?thesis
  proof (cases "ap_dedup st")
    case None
    obtain es' where es': "insert_all sum64 rand tss (ap_estimators st) = Inr es'" "list_all2 (inserted sum64 tss) (ap_estimators st) es'"
      "list_all2 (same_estimator P) (ap_estimators st) es'" using all [OF assms(3)] by blast
    let ?st = "st\<lparr>ap_estimators := es'\<rparr>"
    have "app_ok P ?st" by (rule app_ok_same [OF assms(1)]) (use es'(3) cm None in simp_all)
    then show ?thesis using None es'
      by (intro exI [of _ ?st] exI [of _ tss]) (simp add: write_callback_def passed_def)
  next
    case (Some d)
    obtain d' out where f: "filter_in_place d tss = Inr (d', out)" "dedup_filter d tss [] = Inr (d', out)" "dedup_ok d'"
      "length out \<le> length tss" using filter_passes Some dd by blast
    then have "length out \<le> 2 ^ 31" using assms(3) by simp
    from all [OF this] obtain es' where es': "insert_all sum64 rand out (ap_estimators st) = Inr es'"
      "list_all2 (inserted sum64 out) (ap_estimators st) es'" "list_all2 (same_estimator P) (ap_estimators st) es'" by blast
    show ?thesis
    proof (cases "out = []")
      case True
      let ?st = "st\<lparr>ap_dedup := Some d'\<rparr>"
      have same: "list_all2 (same_estimator P) (ap_estimators st) (ap_estimators st)"
        using active same_estimator_refl by (auto simp: list_all2_conv_all_nth)
      have "list_all2 (inserted sum64 []) (ap_estimators st) (ap_estimators st)"
        by (auto simp: list_all2_conv_all_nth inserted_def start_ok_def insert_many_def visit_order_def)
      moreover have "app_ok P ?st" using ok [OF same, of "Some d'"] f(3) by simp
      ultimately show ?thesis using Some f True
        by (intro exI [of _ ?st] exI [of _ "[]"]) (simp add: write_callback_def passed_def)
    next
      case False
      let ?st = "st\<lparr>ap_dedup := Some d', ap_estimators := es'\<rparr>"
      have "app_ok P ?st" by (rule app_ok_same [OF assms(1)]) (use es'(3) cm f(3) in simp_all)
      then show ?thesis using Some f False es'
        by (intro exI [of _ ?st] exI [of _ out]) (simp add: write_callback_def passed_def)
    qed
  qed
qed

lemma parse_request_bound:
  assumes "parse_request codec sum64 fl body = (Some tss, err)"
  shows "int (2 * length tss) \<le> rq_max_size codec \<and> err = None"
proof -
  obtain data where body: "body = Inr data" "parse_request_body codec sum64 fl data = (Some tss, err)"
    using assms by (auto simp: parse_request_def split: sum.splits)
  obtain src where src: "int (length src) \<le> rq_max_size codec" "unmarshal_protobuf sum64 fl src = Inr tss" "err = None"
    using body(2) unfolding parse_request_body_def by (auto simp: not_less split: sum.splits if_splits)
  obtain new where new: "tss = [] @ new"
    "sum_list (map (\<lambda>ts. label_bytes (ts_labels ts) + 2 * length (ts_labels ts) + 2) new) \<le> length src"
    using request_loop_len [of sum64 fl src "[]" tss] src(2) by (auto simp: unmarshal_protobuf_def)
  have "2 * length new \<le> sum_list (map (\<lambda>ts. label_bytes (ts_labels ts) + 2 * length (ts_labels ts) + 2) new)"
    by (induction new) simp_all
  then have "2 * length tss \<le> length src" using new by simp
  then have "int (2 * length tss) \<le> int (length src)" by (simp only: of_nat_le_iff)
  then show ?thesis using src(1,3) by simp
qed

lemma inserted_all_same:
  "list_all2 (inserted sum64 tss) es es' \<Longrightarrow> \<forall>e \<in> set es. active_ok P e \<Longrightarrow> list_all2 (same_estimator P) es es'"
  using inserted_same by (elim list_all2_imp_set) blast

lemma write_handler_ok:
  assumes "app_ok P st" and "length (ap_estimators st) \<le> 2 ^ 31" and "rq_max_size (he_codec env) \<le> 2 ^ 31"
  shows "\<exists>st' r. write_handler env rq st = Inr (st', r) \<and> app_ok P st'
    \<and> list_all2 (same_estimator P) (ap_estimators st) (ap_estimators st') \<and> ap_cm st' = ap_cm st"
proof -
  have active: "\<forall>e \<in> set (ap_estimators st). active_ok P e" using assms(1) by (simp add: app_ok_def)
  then have refl: "list_all2 (same_estimator P) (ap_estimators st) (ap_estimators st)"
    using same_estimator_refl by (auto simp: list_all2_conv_all_nth)
  obtain call err where p: "parse_request (he_codec env) (he_sum64 env) (ap_fingerprint_labels st) (hr_body rq) = (call, err)"
    by fastforce
  show ?thesis
  proof (cases call)
    case None
    then show ?thesis using p assms(1) refl by (simp add: write_handler_def)
  next
    case (Some tss)
    then have "int (2 * length tss) \<le> 2 ^ 31" using parse_request_bound p assms(3) by fastforce
    then have "length tss \<le> 2 ^ 31" by simp
    then obtain st' tss' where w: "write_callback (he_sum64 env) (hr_rand rq) tss st = Inr st'" "app_ok P st'"
      "list_all2 (inserted (he_sum64 env) tss') (ap_estimators st) (ap_estimators st')"
      "st' = st\<lparr>ap_estimators := ap_estimators st', ap_dedup := ap_dedup st'\<rparr>"
      using write_callback_ok [OF assms(1,2)] by blast
    have "ap_cm st' = ap_cm st" by (subst w(4)) simp
    then show ?thesis using Some p w(1,2) inserted_all_same [OF w(3) active] by (simp add: write_handler_def)
  qed
qed

lemma query_estimators_ok:
  assumes "\<forall>e \<in> set es. active_ok P e" and "\<forall>s c. \<exists>c' err. enc s c = Inr (c', err)"
  shows "\<exists>es' conn'. query_estimators fl enc es conn = Inr (es', conn') \<and> list_all2 (same_estimator P) es es'"
  using assms(1)
proof (induction es arbitrary: conn)
  case (Cons e es)
  have a: "active_ok P e" using Cons.prems by simp
  note e = active_okD(1,2) [OF a]
  obtain e1 ss where t: "to_snapshot fl record_cb e [] = Inr (e1, ss, None)" using to_snapshot_ok [OF e, of fl] by blast
  have "\<exists>c err. run_cb enc xs conn = Inr (c, err)" for xs conn
  proof (induction xs arbitrary: conn)
    case (Cons s xs)
    obtain c' err where "enc s conn = Inr (c', err)" using assms(2) by blast
    then show ?case using Cons by (cases err) auto
  qed simp
  then obtain c err where "run_cb enc ss conn = Inr (c, err)" by blast
  then obtain e2 err' where r: "to_snapshot fl enc e conn = Inr (e2, c, err')"
    using to_snapshot_run_cb [OF t, of enc conn] by (cases err) auto
  obtain gs where gs: "e2 = e\<lparr>es_group_size := gs\<rparr>" "estimator_ok (P (es_id e)) e2"
    using to_snapshot_frame [OF r e(1)] by blast
  have "same_estimator P e e2" using active_okD [OF a] gs a unfolding same_estimator_def active_ok_def
    using scrape_ok_rejects [OF active_okD(9) [OF a] gs] by simp
  moreover obtain es' conn' where "query_estimators fl enc es c = Inr (es', conn')" "list_all2 (same_estimator P) es es'"
    using Cons.IH [of c] Cons.prems by auto
  ultimately show ?case using r by simp
qed simp

text \<open>The global estimators that have not rotated in every bucket yet.\<close>

definition unrotated :: "estimator \<Rightarrow> bool" where
  "unrotated e \<longleftrightarrow> es_group_by e = [] \<and> (\<exists>eb \<in> set (es_buckets e). eb_prev_sketch eb = None)"

lemma es_reset_unrotated:
  assumes "estimator_ok p e" and "unrotated e"
  shows "\<exists>q. es_reset e = Inl q"
proof (cases "es_reset e")
  case (Inr e')
  obtain i where i: "i < length (es_buckets e)" "eb_prev_sketch (es_buckets e ! i) = None" and gb: "es_group_by e = []"
    using assms(2) by (auto simp: unrotated_def in_set_conv_nth)
  have "fold_err (\<lambda>e bi. with_bucket e bi eb_reset) e1 js \<noteq> Inr e'"
    if "i \<in> set js" "i < length (es_buckets e1)" "es_buckets e1 ! i = es_buckets e ! i" for js e1
    using that
  proof (induction js arbitrary: e1)
    case (Cons j js)
    show ?case
    proof (cases "j = i")
      case True
      then show ?thesis using Cons.prems i(2) estimator_ok_bucket(3) [OF assms(1) i(1)] gb
        by (simp add: with_bucket_def eb_reset_def)
    next
      case False
      then show ?thesis using Cons by (auto simp: with_bucket_def split: sum.splits)
    qed
  qed simp
  from this [of "[0..<length (es_buckets e)]" e] i(1) Inr show ?thesis by (simp add: es_reset_def)
qed simp

lemma es_reset_same:
  assumes "active_ok P e" and "\<not> unrotated e"
  shows "\<exists>e'. es_reset e = Inr e' \<and> same_estimator P e e' \<and> es_global_hits e' = {} \<and> (\<forall>k. es_group_hits e' k = {})
    \<and> gs_size (es_group_size e') = 0"
proof -
  note e = active_okD(1,2) [OF assms(1)]
  have "es_group_by e \<noteq> [] \<or> (\<forall>eb \<in> set (es_buckets e). eb_prev_sketch eb \<noteq> None)" using assms(2) by (auto simp: unrotated_def)
  from estimator_reset_ok [OF e(1) this] obtain e' where e': "es_reset e = Inr e'" "estimator_ok (P (es_id e)) e'"
    "es_global_hits e' = {}" "\<forall>k. es_group_hits e' k = {}" "gs_size (es_group_size e') = 0" "es_shell e' = es_shell e" by blast
  have "same_estimator P e e'" using es_reset_values [OF e'(1) e(2)] e' by (intro same_estimatorI [OF assms(1)]) simp_all
  then show ?thesis using e' by blast
qed

definition emptied :: "(string \<Rightarrow> nat) \<Rightarrow> estimator \<Rightarrow> estimator \<Rightarrow> bool" where
  "emptied P e e' \<longleftrightarrow> same_estimator P e e' \<and> es_global_hits e' = {} \<and> (\<forall>k. es_group_hits e' k = {})
     \<and> gs_size (es_group_size e') = 0"

lemma reset_all_ok:
  assumes "\<forall>e \<in> set es. active_ok P e"
  shows "if \<exists>e \<in> set es. unrotated e then \<exists>q. reset_all es = Inl q
    else \<exists>es'. reset_all es = Inr es' \<and> list_all2 (emptied P) es es'"
proof -
  have "if \<exists>e \<in> set es. unrotated e then \<exists>q. fold_err (\<lambda>es e. map_sum id (\<lambda>e'. es @ [e']) (es_reset e)) acc es = Inl q
    else \<exists>es'. fold_err (\<lambda>es e. map_sum id (\<lambda>e'. es @ [e']) (es_reset e)) acc es = Inr (acc @ es') \<and> list_all2 (emptied P) es es'" for acc
    using assms
  proof (induction es arbitrary: acc)
    case (Cons e es)
    have a: "active_ok P e" using Cons.prems by simp
    show ?case
    proof (cases "unrotated e")
      case True
      then obtain q where "es_reset e = Inl q" using es_reset_unrotated [OF active_okD(1) [OF a]] by blast
      then show ?thesis using True by simp
    next
      case False
      obtain e' where e': "es_reset e = Inr e'" "emptied P e e'" using es_reset_same [OF a False] by (auto simp: emptied_def)
      have "if \<exists>e \<in> set es. unrotated e then \<exists>q. fold_err (\<lambda>es e. map_sum id (\<lambda>e'. es @ [e']) (es_reset e)) (acc @ [e']) es = Inl q
        else \<exists>es'. fold_err (\<lambda>es e. map_sum id (\<lambda>e'. es @ [e']) (es_reset e)) (acc @ [e']) es = Inr ((acc @ [e']) @ es')
          \<and> list_all2 (emptied P) es es'" by (rule Cons.IH) (use Cons.prems in simp)
      then show ?thesis using False e' by (cases "\<exists>e \<in> set es. unrotated e") auto
    qed
  qed simp
  from this [of "[]"] show ?thesis unfolding reset_all_def append_Nil .
qed

text \<open>The path of the reset handler, and the estimators a request leaves.\<close>

definition reset_path :: "'s http_env \<Rightarrow> string \<Rightarrow> bool" where
  "reset_path env path \<longleftrightarrow> \<not> metrics_path env path \<and> cut_prefix ''/cardinality'' path = ''/reset''"

definition kept_app :: "(string \<Rightarrow> nat) \<Rightarrow> app \<Rightarrow> app \<Rightarrow> bool" where
  "kept_app P st st' \<longleftrightarrow> app_ok P st' \<and> list_all2 (same_estimator P) (ap_estimators st) (ap_estimators st')"

lemma kept_app_refl: "app_ok P st \<Longrightarrow> kept_app P st st"
  using same_estimator_refl by (auto simp: kept_app_def app_ok_def list_all2_conv_all_nth)

lemma serve_cardinality_ok:
  assumes "app_ok P st" and "nodes_ok P G (he_cm env) (he_nodes env)"
  shows "\<exists>st' r. serve_cardinality env rq st = Inr (st', r) \<and> kept_app P st st'"
proof -
  have a: "\<forall>e \<in> set (ap_estimators st). active_ok P e" "cm_ok P (ap_cm st)" "\<forall>d. ap_dedup st = Some d \<longrightarrow> dedup_ok d"
    using assms(1) by (simp_all add: app_ok_def)
  then have s: "\<forall>e \<in> set (ap_estimators st). scrape_ok P e" using active_okD(9) by blast
  obtain es' cm' lines where w: "write_cardinality_metrics (he_cm env) (ap_estimators st) (he_nodes env) (hr_clock rq) (ap_cm st)
      = Inr (es', cm', concat lines)" "cm_ok P cm'" "\<forall>e \<in> set es'. scrape_ok P e" "list_all2 only_rejects (ap_estimators st) es'"
    using write_cardinality_ok [OF s assms(2) a(2), of "hr_clock rq"] by blast
  have same: "list_all2 (same_estimator P) (ap_estimators st) es'"
    using w(3,4) a(1) rejects_same by (auto simp: list_all2_conv_all_nth)
  have "app_ok P (st\<lparr>ap_estimators := es', ap_cm := cm'\<rparr>)"
    by (rule app_ok_same [OF assms(1)]) (use same w(2) a(3) in simp_all)
  then show ?thesis using w(1) same by (simp add: serve_cardinality_def kept_app_def)
qed

lemma query_handler_ok:
  assumes "app_ok P st" and "\<forall>s c. \<exists>c' err. he_encode env s c = Inr (c', err)"
  shows "\<exists>st' r. query_handler env st = Inr (st', r) \<and> kept_app P st st'"
proof -
  have a: "\<forall>e \<in> set (ap_estimators st). active_ok P e" "cm_ok P (ap_cm st)" "\<forall>d. ap_dedup st = Some d \<longrightarrow> dedup_ok d"
    using assms(1) by (simp_all add: app_ok_def)
  obtain es' conn' where q: "query_estimators (cm_float (he_cm env)) (he_encode env) (ap_estimators st) (he_conn env) = Inr (es', conn')"
    "list_all2 (same_estimator P) (ap_estimators st) es'" using query_estimators_ok [OF a(1) assms(2)] by blast
  have "app_ok P (st\<lparr>ap_estimators := es'\<rparr>)"
    by (rule app_ok_same [OF assms(1)]) (use q(2) a(2,3) in simp_all)
  then show ?thesis using q by (simp add: query_handler_def kept_app_def)
qed

lemma reset_handler_ok:
  assumes "app_ok P st"
  shows "if \<exists>e \<in> set (ap_estimators st). unrotated e then \<exists>q. reset_handler st = Inl q
    else \<exists>st'. reset_handler st = Inr (st', ResetDone) \<and> kept_app P st st'
      \<and> list_all2 (emptied P) (ap_estimators st) (ap_estimators st') \<and> ap_dedup st' = ap_dedup st
      \<and> cm_churn (ap_cm st') = [] \<and> cm_cache_at (ap_cm st') = None"
proof -
  have a: "\<forall>e \<in> set (ap_estimators st). active_ok P e" "cm_ok P (ap_cm st)" "\<forall>d. ap_dedup st = Some d \<longrightarrow> dedup_ok d"
    using assms(1) by (simp_all add: app_ok_def)
  note r = reset_all_ok [OF a(1)]
  show ?thesis
  proof (cases "\<exists>e \<in> set (ap_estimators st). unrotated e")
    case True
    then obtain q where "reset_all (ap_estimators st) = Inl q" using r by (simp only: if_True) blast
    then have "\<exists>q. reset_handler st = Inl q" by (simp add: reset_handler_def)
    then show ?thesis using True by (simp only: if_True)
  next
    case False
    then obtain es' where e: "reset_all (ap_estimators st) = Inr es'" "list_all2 (emptied P) (ap_estimators st) es'"
      using r by (simp only: if_False) blast
    let ?st = "st\<lparr>ap_estimators := es', ap_cm := (ap_cm st)\<lparr>cm_churn := new_churn_snapshots, cm_cache_at := None\<rparr>\<rparr>"
    have same: "list_all2 (same_estimator P) (ap_estimators st) es'"
      using e(2) by (rule list_all2_mono) (simp add: emptied_def)
    have "cm_ok P (ap_cm ?st)" using a(2)
      by (simp add: cm_ok_def churn_state_ok_def churn_ok_def map_ok_def new_churn_snapshots_def)
    then have "app_ok P ?st" by (intro app_ok_same [OF assms(1)]) (use same a(3) in simp_all)
    then have "\<exists>st'. reset_handler st = Inr (st', ResetDone) \<and> kept_app P st st'
      \<and> list_all2 (emptied P) (ap_estimators st) (ap_estimators st') \<and> ap_dedup st' = ap_dedup st
      \<and> cm_churn (ap_cm st') = [] \<and> cm_cache_at (ap_cm st') = None"
      using e same by (intro exI [of _ ?st]) (simp add: reset_handler_def kept_app_def new_churn_snapshots_def)
    then show ?thesis using False by (simp only: if_False)
  qed
qed

lemma handle_ok:
  assumes "app_ok P st" and "length (ap_estimators st) \<le> 2 ^ 31" and "rq_max_size (he_codec env) \<le> 2 ^ 31"
    and "nodes_ok P G (he_cm env) (he_nodes env)" and "\<forall>s c. \<exists>c' err. he_encode env s c = Inr (c', err)"
  shows "if reset_path env (hr_path rq) \<and> (\<exists>e \<in> set (ap_estimators st). unrotated e) then \<exists>q. handle env rq st = Inl q
    else \<exists>st' r. handle env rq st = Inr (st', r) \<and> kept_app P st st'"
proof -
  let ?path = "cut_prefix ''/cardinality'' (hr_path rq)"
  have h: "handle env rq st =
     (if metrics_path env (hr_path rq) then serve_cardinality env rq st
      else if ?path = ''/api/v1/write'' then write_handler env rq st
      else if ?path = ''/clusternative/query'' \<or> ?path = ''/clusternative/snapshot'' then query_handler env st
      else if ?path = ''/reset'' then reset_handler st
      else if ?path = ''/-/reload'' then Inr (st, if hr_authorized rq then ReloadSignalled else Unauthorized)
      else Inr (st, NotServed))"
    by (simp add: handle_def metrics_path_def Let_def)
  have r: "reset_path env (hr_path rq) \<longleftrightarrow> \<not> metrics_path env (hr_path rq) \<and> ?path = ''/reset''" by (simp add: reset_path_def)
  have ok: "\<exists>st' r. handle env rq st = Inr (st', r) \<and> kept_app P st st'" if nr: "\<not> reset_path env (hr_path rq)"
  proof -
    consider "metrics_path env (hr_path rq)"
      | "\<not> metrics_path env (hr_path rq)" "?path = ''/api/v1/write''"
      | "\<not> metrics_path env (hr_path rq)" "?path = ''/clusternative/query'' \<or> ?path = ''/clusternative/snapshot''"
      | "\<not> metrics_path env (hr_path rq)" "?path \<noteq> ''/api/v1/write''"
          "\<not> (?path = ''/clusternative/query'' \<or> ?path = ''/clusternative/snapshot'')" "?path \<noteq> ''/reset''"
      using nr unfolding r by blast
    then show ?thesis
    proof cases
      case 1
      then show ?thesis using serve_cardinality_ok [OF assms(1,4)] by (simp add: h)
    next
      case 2
      then show ?thesis using write_handler_ok [OF assms(1-3), of rq] by (auto simp: h kept_app_def)
    next
      case 3
      then show ?thesis using query_handler_ok [OF assms(1,5)] by (auto simp: h)
    next
      case 4
      then have "handle env rq st = Inr (st, if ?path = ''/-/reload'' then if hr_authorized rq then ReloadSignalled else Unauthorized
          else NotServed)" unfolding h by simp
      then show ?thesis using kept_app_refl [OF assms(1)] by blast
    qed
  qed
  have reset: "handle env rq st = reset_handler st" if "reset_path env (hr_path rq)" using that unfolding h r by simp
  show ?thesis
  proof (cases "reset_path env (hr_path rq)")
    case True
    have "if \<exists>e \<in> set (ap_estimators st). unrotated e then \<exists>q. handle env rq st = Inl q
      else \<exists>st' r. handle env rq st = Inr (st', r) \<and> kept_app P st st'"
    proof (cases "\<exists>e \<in> set (ap_estimators st). unrotated e")
      case u: True
      then have "\<exists>q. reset_handler st = Inl q" using reset_handler_ok [OF assms(1)] by (simp only: if_True)
      then show ?thesis using u reset [OF True] by auto
    next
      case u: False
      then have "\<exists>st'. reset_handler st = Inr (st', ResetDone) \<and> kept_app P st st'"
        using reset_handler_ok [OF assms(1)] by (simp only: if_False) blast
      then show ?thesis unfolding reset [OF True] using u by (simp only: if_False) blast
    qed
    then show ?thesis using True by (simp only: simp_thms)
  next
    case False
    then show ?thesis using ok by (simp only: simp_thms if_False)
  qed
qed

subsection \<open>What the handlers promise\<close>

text \<open>C9: With no storage nodes, or with storage nodes whose answers are well-formed (\<open>nodes_ok\<close>: whole snapshots, all sketches under an
  id in the precision this program has for it, names without line breaks, an interval in range, the group-by labels that
  belong to the id, and the one sketch of a global stream), no request makes the program panic, whatever its path, body and random
  numbers, with one exception: a reset while some global estimator has a bucket that never rotated always panics, and a
  panic in a handler ends the process.  Every other request leaves the program well-formed, with the same estimators under
  the same settings.  The answers of storage nodes are not checked by the program; what it does with a truncated sketch
  is shown in \<open>Sketch_Bytes\<close>.\<close>

theorem requests_never_panic:
  assumes "app_ok P st" and "length (ap_estimators st) \<le> 2 ^ 31" and "rq_max_size (he_codec env) \<le> 2 ^ 31"
    and "nodes_ok P G (he_cm env) (he_nodes env)" and "\<forall>s c. \<exists>c' err. he_encode env s c = Inr (c', err)"
  shows "if reset_path env (hr_path rq) \<and> (\<exists>e \<in> set (ap_estimators st). unrotated e) then \<exists>q. handle env rq st = Inl q
    else \<exists>st' r. handle env rq st = Inr (st', r) \<and> kept_app P st st'"
  using assms by (rule handle_ok)

text \<open>A compressed body that decompresses to an encoded request within the size limit; \<open>om\<close>: the client leaves out empty fields.\<close>

definition carries :: "bool \<Rightarrow> request_codec \<Rightarrow> string \<Rightarrow> ((string \<times> string) list \<times> string list) list \<Rightarrow> string list \<Rightarrow> bool" where
  "carries om codec data ss metadata \<longleftrightarrow>
     (if rq_is_zstd codec data then rq_zstd codec data (rq_max_size codec) else rq_snappy codec data (rq_max_size codec))
       = Inr (request_body om ss metadata)
     \<and> int (length (request_body om ss metadata)) \<le> rq_max_size codec"

text \<open>What an estimator counts of a batch: all that its filter selects; per group at most, and below the limit exactly,
  what belongs to the group.\<close>

definition counted :: "(string \<Rightarrow> nat) \<Rightarrow> (string \<Rightarrow> u64) \<Rightarrow> time_serie list \<Rightarrow> estimator \<Rightarrow> estimator \<Rightarrow> bool" where
  "counted P sum64 tss e e' \<longleftrightarrow>
     (let p = P (es_id e); inss = request_insertions sum64 e tss;
          own = (\<lambda>k. \<Union>ins \<in> {ins \<in> set inss. in_key ins = k}. fp_hits p (in_fp ins)) in
      if es_group_by e = []
      then es_global_hits e' = es_global_hits e \<union>
             (\<Union>ts \<in> {ts \<in> set tss. filters_match (es_filter e) (ts_labels ts) = Inr True}. fp_hits p (ts_fingerprint ts))
      else (\<forall>k. es_group_hits e' k \<subseteq> es_group_hits e k \<union> own k)
        \<and> (gs_size (es_group_size e) + int (length inss) \<le> gs_limit (es_group_size e)
             \<longrightarrow> (\<forall>k. es_group_hits e' k = es_group_hits e k \<union> own k)))"

lemma inserted_counted:
  assumes "inserted sum64 tss e e'" and "estimator_ok (P (es_id e)) e"
  shows "counted P sum64 tss e e'"
proof -
  obtain start where s: "start_ok start tss" "insert_many sum64 start e tss = Inr e'" using assms(1) by (auto simp: inserted_def)
  show ?thesis
  proof (cases "es_group_by e = []")
    case True
    then show ?thesis using insert_many_global_ok [OF assms(2) True s(1), of sum64] s(2) by (simp add: counted_def Let_def)
  next
    case False
    then show ?thesis using insert_many_groups_ok [OF assms(2) False s(1), of sum64] s(2) by (simp add: counted_def Let_def)
  qed
qed

lemma parse_request_carried:
  assumes "carries om codec data ss metadata" and "rq_max_size codec \<le> 2 ^ 31" and "ss \<noteq> []"
  shows "parse_request codec sum64 fl (Inr data) = (Some (map (\<lambda>s. make_series om sum64 fl (fst s)) ss), None)"
proof -
  let ?body = "request_body om ss metadata"
  have dec: "(if rq_is_zstd codec data then rq_zstd codec data (rq_max_size codec) else rq_snappy codec data (rq_max_size codec)) = Inr ?body"
    and max: "int (length ?body) \<le> rq_max_size codec" using assms(1) by (simp_all add: carries_def)
  have short: "length ?body < 2 ^ 63" using max assms(2) by simp
  have "\<forall>s \<in> set ss. short_series om s"
  proof
    fix s assume s: "s \<in> set ss"
    have "length (series_body om s) \<le> length (len_field 1 (series_body om s))" by (simp add: len_field_def)
    also have "\<dots> \<le> length ?body"
      using concat_member_length [OF s, of "\<lambda>s. len_field 1 (series_body om s)"] by (simp add: request_body_def)
    finally show "short_series om s" using short by (simp add: short_series_def)
  qed
  moreover have "\<forall>d \<in> set metadata. length d < 2 ^ 63"
  proof
    fix d assume d: "d \<in> set metadata"
    have "length d \<le> length (len_field 3 d)" by (simp add: len_field_def)
    also have "\<dots> \<le> length ?body" using concat_member_length [OF d, of "len_field 3"] by (simp add: request_body_def)
    finally show "length d < 2 ^ 63" using short by simp
  qed
  ultimately have "unmarshal_protobuf sum64 fl ?body = Inr (map (\<lambda>s. make_series om sum64 fl (fst s)) ss)"
    using request_loop_body [of ss om metadata sum64 fl "[]"] by (simp add: unmarshal_protobuf_def)
  then show ?thesis using dec max assms(3)
    by (cases "rq_is_zstd codec data") (simp_all add: parse_request_def parse_request_body_def)
qed

text \<open>C1: A remote write request that carries encoded series is answered with success, and every active estimator has counted
  exactly the series the deduplicator let pass: from the bytes on the wire to what each estimator shows, for any
  order in which the estimators and the series are visited.\<close>

theorem write_request_counted:
  assumes "app_ok P st" and "length (ap_estimators st) \<le> 2 ^ 31" and "rq_max_size (he_codec env) \<le> 2 ^ 31"
    and "carries om (he_codec env) data ss metadata" and "ss \<noteq> []" and "hr_body rq = Inr data"
    and "hr_path rq = ''/api/v1/write'' \<or> hr_path rq = ''/cardinality/api/v1/write''" and "\<not> metrics_path env (hr_path rq)"
  shows "\<exists>st' tss. handle env rq st = Inr (st', NoContent) \<and> kept_app P st st'
    \<and> passed (ap_dedup st) (map (\<lambda>s. make_series om (he_sum64 env) (ap_fingerprint_labels st) (fst s)) ss) (ap_dedup st') tss
    \<and> list_all2 (counted P (he_sum64 env) tss) (ap_estimators st) (ap_estimators st')"
proof -
  let ?tss = "map (\<lambda>s. make_series om (he_sum64 env) (ap_fingerprint_labels st) (fst s)) ss"
  note p = parse_request_carried [OF assms(4,3,5), of "he_sum64 env" "ap_fingerprint_labels st"]
  have "cut_prefix ''/cardinality'' (hr_path rq) = ''/api/v1/write''" using assms(7) by (subst cut_prefix_eq) simp_all
  then have h: "handle env rq st = write_handler env rq st" using assms(8) by (auto simp: handle_def metrics_path_def Let_def)
  have "int (2 * length ?tss) \<le> 2 ^ 31" using parse_request_bound [OF p] assms(3) by simp
  then have len: "length ?tss \<le> 2 ^ 31" by simp
  obtain st' tss where w: "write_callback (he_sum64 env) (hr_rand rq) ?tss st = Inr st'" "app_ok P st'"
    "passed (ap_dedup st) ?tss (ap_dedup st') tss"
    "list_all2 (inserted (he_sum64 env) tss) (ap_estimators st) (ap_estimators st')"
    using write_callback_ok [OF assms(1,2) len] by blast
  have a: "\<forall>e \<in> set (ap_estimators st). active_ok P e" using assms(1) by (simp add: app_ok_def)
  have "list_all2 (counted P (he_sum64 env) tss) (ap_estimators st) (ap_estimators st')"
    by (rule list_all2_imp_set [OF w(4)]) (use inserted_counted active_okD(1) a in blast)
  moreover have "handle env rq st = Inr (st', NoContent)" using w(1) p assms(6) by (simp add: h write_handler_def)
  ultimately show ?thesis using w(2,3) inserted_all_same [OF w(4) a] by (auto simp: kept_app_def)
qed

text \<open>C32: A reset that succeeds empties every estimator and forgets the churn and the cached metrics, but not what the
  deduplicator has seen: a series it knows, sent again after the reset, is not counted, although no estimator
  has it any more.\<close>

theorem reset_keeps_deduplicator:
  assumes "app_ok P st" and "\<forall>e \<in> set (ap_estimators st). \<not> unrotated e" and "ap_dedup st = Some d"
    and "\<forall>ts \<in> set tss. seen d (ts_fingerprint ts)"
  shows "\<exists>st1 st2. reset_handler st = Inr (st1, ResetDone :: 's reply) \<and> write_callback sum64 rand tss st1 = Inr st2
    \<and> list_all2 (emptied P) (ap_estimators st) (ap_estimators st2)
    \<and> cm_churn (ap_cm st2) = [] \<and> cm_cache_at (ap_cm st2) = None"
proof -
  have no: "\<not> (\<exists>e \<in> set (ap_estimators st). unrotated e)" using assms(2) by blast
  obtain st1 where r: "reset_handler st = Inr (st1, ResetDone :: 's reply)" "list_all2 (emptied P) (ap_estimators st) (ap_estimators st1)"
    "ap_dedup st1 = Some d" "cm_churn (ap_cm st1) = []" "cm_cache_at (ap_cm st1) = None"
    using reset_handler_ok [OF assms(1)] assms(3) unfolding if_not_P [OF no] by auto
  have d: "dedup_ok d" using assms(1,3) by (simp add: app_ok_def)
  obtain d' out where f: "pass_run filter_one d tss [] = Inr (d', out)" "subseq out tss"
    "\<forall>h. seen d h \<longrightarrow> passes_of h out = []" using dedup.run_ok [OF d, of tss "[]"] by auto
  have "out = []"
  proof (rule ccontr)
    assume "out \<noteq> []"
    then obtain ts where ts: "ts \<in> set out" by (cases out) auto
    then obtain y where "y \<in> set tss" "ts = y" using list_emb_set [OF f(2)] by blast
    then have "passes_of (ts_fingerprint ts) out = []" using f(3) assms(4) by simp
    then show False using ts by (auto simp: filter_empty_conv)
  qed
  then have "filter_in_place d tss = Inr (d', [])" using f(1) by (simp add: filter_in_place_is_filter dedup_filter_run)
  then have "write_callback sum64 rand tss st1 = Inr (st1\<lparr>ap_dedup := Some d'\<rparr>)" using r(3) by (simp add: write_callback_def)
  then show ?thesis using r by auto
qed

subsection \<open>From the nodes to the selector\<close>

lemma run_record: "run_cb record_cb ss acc = Inr (acc @ ss, None)"
  by (induction ss arbitrary: acc) (simp_all add: record_cb_apply)

lemma query_records:
  "\<forall>e \<in> set es. active_ok P e
   \<Longrightarrow> \<exists>es'. query_estimators fl record_cb es acc = Inr (es', acc @ concat (map (node_stream fl) es))"
proof (induction es arbitrary: acc)
  case (Cons e es)
  have a: "active_ok P e" using Cons.prems by simp
  obtain e1 ss where t: "to_snapshot fl record_cb e [] = Inr (e1, ss, None)"
    using to_snapshot_ok [OF active_okD(1,2) [OF a], of fl] by blast
  have n: "node_stream fl e = ss" by (simp add: node_stream_def t)
  have "to_snapshot fl record_cb e acc = Inr (e1, acc @ ss, None)"
    using to_snapshot_run_cb [OF t, of record_cb acc] by (simp add: run_record)
  then show ?case using Cons.IH [of "acc @ ss"] Cons.prems n by auto
qed simp

text \<open>A node serves at a URL: a GET of its snapshot path there gets what its handler encodes, and the end of the stream.\<close>

definition serves ::
  "snapshot list http_env \<Rightarrow> (string \<Rightarrow> http_response) \<Rightarrow> string \<Rightarrow> app \<Rightarrow> bool" where
  "serves env get url st \<longleftrightarrow>
     (\<forall>rq st' msgs. hr_path rq = ''/clusternative/snapshot'' \<longrightarrow> handle env rq st = Inr (st', Stream msgs)
        \<longrightarrow> get (url @ ''/clusternative/snapshot'') = HttpResponse 200 (map GobMessage msgs @ [GobEof]))"

lemma node_serves:
  assumes "app_ok P st" and "he_encode env = record_cb" and "he_conn env = []"
    and "\<not> metrics_path env ''/clusternative/snapshot''" and "serves env get url st"
  shows "get (url @ ''/clusternative/snapshot'')
    = HttpResponse 200 (map GobMessage (concat (map (node_stream (cm_float (he_cm env))) (ap_estimators st))) @ [GobEof])"
proof -
  let ?msgs = "concat (map (node_stream (cm_float (he_cm env))) (ap_estimators st))"
  have a: "\<forall>e \<in> set (ap_estimators st). active_ok P e" using assms(1) by (simp add: app_ok_def)
  obtain es' where q: "query_estimators (cm_float (he_cm env)) record_cb (ap_estimators st) [] = Inr (es', ?msgs)"
    using query_records [OF a, of "cm_float (he_cm env)" "[]"] by auto
  define rq where "rq = \<lparr>hr_path = ''/clusternative/snapshot'', hr_body = Inl [], hr_authorized = False,
    hr_rand = (\<lambda>_. 0), hr_clock = (0, 0, 0)\<rparr>"
  have p: "hr_path rq = ''/clusternative/snapshot''" by (simp add: rq_def)
  have "handle env rq st = query_handler env st"
    using assms(4) unfolding handle_def p by (auto simp: metrics_path_def cut_prefix_def Let_def)
  then have "handle env rq st = Inr (st\<lparr>ap_estimators := es'\<rparr>, Stream ?msgs)"
    using q assms(2,3) by (simp add: query_handler_def)
  then show ?thesis using assms(5) p unfolding serves_def by blast
qed

lemma fetch_served:
  assumes "get (url @ ''/clusternative/snapshot'') = HttpResponse 200 (map GobMessage msgs @ [GobEof])"
    and "\<forall>s \<in> set msgs. snapshot_valid P s"
  shows "fetch_and_merge get url (\<lambda>calls s. calls @ [s]) [] = (msgs, None)"
proof -
  have m: "\<forall>s \<in> set msgs. map_ok (sn_labels s) \<and> map_ok (sn_sketches s)"
    using assms(2) by (auto simp: snapshot_valid_def snapshot_ok_def sketches_ok_def)
  have "foldl (\<lambda>calls s. calls @ [s]) acc msgs = acc @ msgs" for acc by (induction msgs arbitrary: acc) simp_all
  then show ?thesis using assms(1) by (simp add: fetch_and_merge_def Let_def decode_snapshots_def decode_loop_messages [OF m])
qed

text \<open>The estimators that run under an id on a cluster of nodes; one node may run a stream with another precision than the next.\<close>

definition running_under :: "(string \<times> app) list \<Rightarrow> string \<Rightarrow> estimator set" where
  "running_under nodes i = {e. es_id e = i \<and> (\<exists>n \<in> set nodes. e \<in> set (ap_estimators (snd n)))}"

definition precision_of :: "estimator \<Rightarrow> nat" where
  "precision_of e = ec_hll_precision (es_cfg e)"

text \<open>The sketches received for an id and a key, against what the estimators show.\<close>

lemma received_from_nodes:
  assumes "set calls = (\<Union>n \<in> set nodes. \<Union>e \<in> set (ap_estimators (snd n)). set (node_stream fl e))"
    and "\<forall>n \<in> set nodes. \<exists>P. app_ok P (snd n)"
  shows "sk \<in> set (received calls (i, k)) \<Longrightarrow>
      \<exists>e \<in> running_under nodes i. sk_p sk = precision_of e \<and> sk_hits sk \<subseteq> view e k"
    and "e \<in> running_under nodes i \<Longrightarrow> x \<in> view e k \<Longrightarrow>
      \<exists>sk \<in> set (received calls (i, k)). sk_p sk = precision_of e \<and> x \<in> sk_hits sk"
proof -
  have node: "\<exists>P. node_ok P e \<and> P (es_id e) = precision_of e" if "n \<in> set nodes" "e \<in> set (ap_estimators (snd n))" for n e
    using assms(2) that active_okD(10) by (fastforce simp: app_ok_def active_ok_def precision_of_def)
  show "\<exists>e \<in> running_under nodes i. sk_p sk = precision_of e \<and> sk_hits sk \<subseteq> view e k" if sk: "sk \<in> set (received calls (i, k))"
  proof -
    obtain n e s where s: "n \<in> set nodes" "e \<in> set (ap_estimators (snd n))" "s \<in> set (node_stream fl e)" "brings s (i, k) = Some sk"
      using sk unfolding received_set assms(1) by blast
    obtain P where P: "node_ok P e" "P (es_id e) = precision_of e" using node [OF s(1,2)] by blast
    note ns = node_stream_ok [OF P(1), of fl i k]
    have "snapshot_valid P s" "sn_id (sn_with_id s) = es_id e" using ns s(3) by blast+
    note b = brings_precision [OF this(1) s(4)]
    have i: "es_id e = i" using b(1) \<open>sn_id (sn_with_id s) = es_id e\<close> by simp
    then have "e \<in> running_under nodes i" using s(1,2) by (auto simp: running_under_def)
    moreover have "(\<Union>s \<in> set (node_stream fl e). snapshot_hits s (i, k)) = view e k" using ns i by simp
    then have "sk_hits sk \<subseteq> view e k" using s(3) b(3) by blast
    ultimately show ?thesis using b(2) i P(2) by auto
  qed
  show "\<exists>sk \<in> set (received calls (i, k)). sk_p sk = precision_of e \<and> x \<in> sk_hits sk"
    if e: "e \<in> running_under nodes i" and x: "x \<in> view e k"
  proof -
    obtain n where n: "n \<in> set nodes" "e \<in> set (ap_estimators (snd n))" and i: "es_id e = i" using e by (auto simp: running_under_def)
    obtain P where P: "node_ok P e" "P (es_id e) = precision_of e" using node [OF n] by blast
    note ns = node_stream_ok [OF P(1), of fl i k]
    then obtain s where s: "s \<in> set (node_stream fl e)" "x \<in> snapshot_hits s (i, k)" using x i by auto
    then obtain sk where sk: "brings s (i, k) = Some sk" by (cases "brings s (i, k)") (auto simp: snapshot_hits_brings)
    have "snapshot_valid P s" using ns s(1) by blast
    note b = brings_precision [OF this sk]
    have "s \<in> set calls" unfolding assms(1) using n s(1) by blast
    then have "sk \<in> set (received calls (i, k))" unfolding received_set using sk by blast
    then show ?thesis using b(2,3) s(2) i P(2) by auto
  qed
qed

lemma first_union_of_nodes:
  assumes "set calls = (\<Union>n \<in> set nodes. \<Union>e \<in> set (ap_estimators (snd n)). set (node_stream fl e))"
    and "\<forall>n \<in> set nodes. \<exists>P. app_ok P (snd n)"
  shows "\<exists>p. (running_under nodes i \<noteq> {} \<longrightarrow> p \<in> precision_of ` running_under nodes i)
    \<and> first_union (received calls (i, k)) = (\<Union>e \<in> {e \<in> running_under nodes i. precision_of e = p}. view e k)"
proof (cases "received calls (i, k)")
  case Nil
  then have none: "view e k = {}" if "e \<in> running_under nodes i" for e
    using received_from_nodes(2) [OF assms that, of _ k] by auto
  have "first_union (received calls (i, k)) = {}" using Nil by (simp add: first_union_def)
  moreover have "\<exists>p. running_under nodes i \<noteq> {} \<longrightarrow> p \<in> precision_of ` running_under nodes i" by blast
  ultimately show ?thesis using none by auto
next
  case (Cons sk sks)
  then have hd: "hd (received calls (i, k)) = sk" "sk \<in> set (received calls (i, k))" by simp_all
  then obtain e0 where e0: "e0 \<in> running_under nodes i" "sk_p sk = precision_of e0" using received_from_nodes(1) [OF assms] by blast
  let ?p = "precision_of e0"
  have "first_union (received calls (i, k)) = (\<Union>e \<in> {e \<in> running_under nodes i. precision_of e = ?p}. view e k)"
  proof (intro equalityI subsetI)
    fix x assume "x \<in> first_union (received calls (i, k))"
    then obtain t where t: "t \<in> set (received calls (i, k))" "sk_p t = ?p" "x \<in> sk_hits t"
      unfolding first_union_def hd(1) e0(2) by blast
    then show "x \<in> (\<Union>e \<in> {e \<in> running_under nodes i. precision_of e = ?p}. view e k)"
      using received_from_nodes(1) [OF assms t(1)] by auto
  next
    fix x assume "x \<in> (\<Union>e \<in> {e \<in> running_under nodes i. precision_of e = ?p}. view e k)"
    then obtain e where "e \<in> running_under nodes i" "precision_of e = ?p" "x \<in> view e k" by blast
    then show "x \<in> first_union (received calls (i, k))"
      using received_from_nodes(2) [OF assms] unfolding first_union_def hd(1) e0(2) by fastforce
  qed
  then show ?thesis using e0(1) by blast
qed

text \<open>C2: A selector that fetches from any number of nodes, however the fetches interleave, ends, for every id and every group,
  with exactly the union of what the estimators of one precision show on the nodes: through the nodes' handlers, the
  stream of snapshots, its decoding into one reused object, and the merges, nothing is invented or attributed to another
  estimator or group, and nothing is lost but the sketches of another precision than the one that arrived first.  So where
  all nodes run a stream with the same precision, the selector shows exactly the union over all of them.\<close>

theorem cluster_end_to_end:
  assumes "\<forall>n \<in> set nodes. (\<exists>P. app_ok P (snd n)) \<and> serves env (cm_get cm) (fst n) (snd n)"
    and "he_encode env = record_cb" and "he_conn env = []" and "\<not> metrics_path env ''/clusternative/snapshot''"
    and "\<forall>calls. mset (cm_schedule cm calls) = mset (concat calls)"
  shows "\<exists>calls m. fetch_nodes cm (map fst nodes) = (calls, False) \<and> fold_err snapshots_add [] calls = Inr m
    \<and> (\<forall>i k. \<exists>p. (running_under nodes i \<noteq> {} \<longrightarrow> p \<in> precision_of ` running_under nodes i)
          \<and> snapshots_hits m (i, k) = (\<Union>e \<in> {e \<in> running_under nodes i. precision_of e = p}. view e k))
    \<and> (\<forall>i q. (\<forall>e \<in> running_under nodes i. precision_of e = q)
          \<longrightarrow> (\<forall>k. snapshots_hits m (i, k) = (\<Union>e \<in> running_under nodes i. view e k)))"
proof -
  let ?fl = "cm_float (he_cm env)"
  let ?msgs = "\<lambda>st. concat (map (node_stream ?fl) (ap_estimators st))"
  let ?fetch = "\<lambda>url. fetch_and_merge (cm_get cm) url (\<lambda>calls s. calls @ [s]) []"
  have ok: "\<forall>n \<in> set nodes. \<exists>P. app_ok P (snd n)" using assms(1) by blast
  have valid: "\<exists>P. \<forall>s \<in> set (?msgs (snd n)). snapshot_valid P s" if n: "n \<in> set nodes" for n
  proof -
    obtain P where "app_ok P (snd n)" using ok n by blast
    then have "\<forall>e \<in> set (ap_estimators (snd n)). node_ok P e" using active_okD(10) by (auto simp: app_ok_def)
    then show ?thesis using node_stream_ok by fastforce
  qed
  have fetch: "?fetch (fst n) = (?msgs (snd n), None)" if n: "n \<in> set nodes" for n
  proof -
    obtain P where P: "app_ok P (snd n)" using ok n by blast
    obtain Q where Q: "\<forall>s \<in> set (?msgs (snd n)). snapshot_valid Q s" using valid n by blast
    show ?thesis by (rule fetch_served [OF node_serves [OF P assms(2-4)] Q]) (use assms(1) n in blast)
  qed
  then have runs: "map ?fetch (map fst nodes) = map (\<lambda>n. (?msgs (snd n), None)) nodes" by simp
  let ?streams = "map (\<lambda>n. ?msgs (snd n)) nodes"
  define calls where "calls = cm_schedule cm ?streams"
  have f: "fetch_nodes cm (map fst nodes) = (calls, False)"
    unfolding fetch_nodes_def Let_def runs by (simp add: calls_def comp_def list_ex_iff)
  have set_calls: "set calls = set (concat ?streams)" using assms(5) unfolding calls_def by (metis set_mset_mset)
  then have calls: "set calls = (\<Union>n \<in> set nodes. \<Union>e \<in> set (ap_estimators (snd n)). set (node_stream ?fl e))" by auto
  have "\<forall>s \<in> set calls. snapshot_wf s" using valid snapshot_valid_wf unfolding set_calls by fastforce
  from snapshots_add_first [OF this] obtain m where m: "fold_err snapshots_add [] calls = Inr m"
    "\<And>ik. snapshots_hits m ik = first_union (received calls ik)" by blast
  have one: "\<exists>p. (running_under nodes i \<noteq> {} \<longrightarrow> p \<in> precision_of ` running_under nodes i)
      \<and> snapshots_hits m (i, k) = (\<Union>e \<in> {e \<in> running_under nodes i. precision_of e = p}. view e k)" for i k
    using first_union_of_nodes [OF calls ok] unfolding m(2) .
  have same: "snapshots_hits m (i, k) = (\<Union>e \<in> running_under nodes i. view e k)"
    if q: "\<forall>e \<in> running_under nodes i. precision_of e = q" for i q k
  proof (cases "running_under nodes i = {}")
    case True
    then show ?thesis using one [of i k] by auto
  next
    case False
    then obtain p where "p \<in> precision_of ` running_under nodes i"
      "snapshots_hits m (i, k) = (\<Union>e \<in> {e \<in> running_under nodes i. precision_of e = p}. view e k)" using one [of i k] by blast
    moreover have "{e \<in> running_under nodes i. precision_of e = p} = running_under nodes i" if "p = q" using q that by blast
    ultimately show ?thesis using q by auto
  qed
  show ?thesis
  proof (intro exI [of _ calls] exI [of _ m] conjI allI impI)
    show "\<exists>p. (running_under nodes i \<noteq> {} \<longrightarrow> p \<in> precision_of ` running_under nodes i)
      \<and> snapshots_hits m (i, k) = (\<Union>e \<in> {e \<in> running_under nodes i. precision_of e = p}. view e k)" for i k by (rule one)
    show "snapshots_hits m (i, k) = (\<Union>e \<in> running_under nodes i. view e k)"
      if "\<forall>e \<in> running_under nodes i. precision_of e = q" for i q k by (rule same [OF that])
  qed (fact f m(1))+
qed

subsection \<open>Concrete instances\<close>

text \<open>A program with one stream, bodies that are not compressed, and a request.\<close>

definition demo_http :: "snapshot list http_env" where
  "demo_http = \<lparr>he_cm_path = ''/metrics'', he_nodes = [],
     he_codec = \<lparr>rq_is_zstd = (\<lambda>_. False), rq_zstd = (\<lambda>d _. Inr d), rq_snappy = (\<lambda>d _. Inr d), rq_max_size = 1000000\<rparr>,
     he_sum64 = (\<lambda>b. of_nat (length b)), he_cm = demo_env 30, he_encode = record_cb, he_conn = []\<rparr>"

definition demo_request :: "string \<Rightarrow> string \<Rightarrow> http_request" where
  "demo_request path body = \<lparr>hr_path = path, hr_body = Inr body, hr_authorized = True, hr_rand = (\<lambda>_. 0), hr_clock = (0, 0, 0)\<rparr>"

lemma demo_app:
  "\<exists>st P e. load_config 2 (\<lambda>_. Inl []) (\<lambda>_. Inl []) [demo_stream] empty_app = Inr (st, Inr True) \<and> app_ok P st
    \<and> ap_estimators st = [e] \<and> \<not> unrotated e \<and> ap_dedup st = None
    \<and> new_estimator 2 (\<lambda>_. Inl []) (\<lambda>_. Inl []) demo_stream = Inr e"
proof -
  let ?parse = "\<lambda>_. Inl [] :: string + parsed_expr" and ?re = "\<lambda>_. Inl [] :: string + (string \<Rightarrow> bool)"
  have s: "\<forall>ec \<in> set [demo_stream]. stream_ok 2 ec" "distinct (map config_id [demo_stream])" using demo_stream_ok by simp_all
  have a: "churn_agrees (\<lambda>_. 4) [demo_stream] empty_app"
    by (simp add: churn_agrees_def empty_app_def new_cm_state_def new_churn_snapshots_def)
  obtain st where st: "load_config 2 ?parse ?re [demo_stream] empty_app = Inr (st, Inr True)"
    "load_done 2 ?parse ?re [demo_stream] empty_app st" "app_ok (new_precisions (\<lambda>_. 4) [demo_stream]) st"
    using load_config_ok [OF empty_app_ok s a, of ?parse ?re] demo_not_rejected empty_not_kept [of demo_stream] by auto
  have "list_all2 (\<lambda>ec e. loaded 2 ?parse ?re (by_id (ap_estimators empty_app)) ec = Inr e) [demo_stream] (ap_estimators st)"
    using st(2) by (simp add: load_done_def)
  then obtain e where e: "ap_estimators st = [e]" "loaded 2 ?parse ?re (by_id (ap_estimators empty_app)) demo_stream = Inr e"
    by (auto simp: list_all2_Cons1)
  have n: "new_estimator 2 ?parse ?re demo_stream = Inr e" using e(2) empty_not_kept by (simp add: loaded_def)
  have c: "config_ok demo_stream"
    using preparedD(2-4) [of 2 demo_stream] demo_stream_ok by (auto simp: config_ok_def stream_ok_def)
  have "fresh_estimator demo_stream e"
    using new_estimator_fresh [OF c demo_not_rejected, of 2] n preparedD(1) [of 2 demo_stream] demo_stream_ok
    by (auto simp: stream_ok_def)
  then have "es_group_by e = ec_group_by demo_stream" by (simp add: fresh_estimator_def)
  also have "\<dots> = [''job'']" by (simp add: demo_stream_def normal_group_by normal_group_def plain_config_def label_keyword_def)
  finally have u: "\<not> unrotated e" by (simp add: unrotated_def)
  have "ap_dedup st = None" using st(2) by (simp add: load_done_def empty_app_def)
  then show ?thesis using st(1,3) e(1) u n by blast
qed

lemma demo_nodes_ok: "nodes_ok P G (he_cm demo_http) (he_nodes demo_http)"
  by (simp add: nodes_ok_def demo_http_def demo_env_def)

lemma demo_encodes: "\<forall>s c. \<exists>c' err. he_encode demo_http s c = Inr (c', err)"
  by (simp add: demo_http_def record_cb_apply)

theorem requests_never_panic_witness:
  "\<exists>st st' r. load_config 2 (\<lambda>_. Inl []) (\<lambda>_. Inl []) [demo_stream] empty_app = Inr (st, Inr True)
    \<and> handle demo_http (demo_request ''/reset'' []) st = Inr (st', r) \<and> length (ap_estimators st') = 1"
proof -
  obtain st P e where st: "load_config 2 (\<lambda>_. Inl []) (\<lambda>_. Inl []) [demo_stream] empty_app = Inr (st, Inr True)" "app_ok P st"
    "ap_estimators st = [e]" "\<not> unrotated e" using demo_app by blast
  have l: "length (ap_estimators st) \<le> 2 ^ 31" "rq_max_size (he_codec demo_http) \<le> 2 ^ 31" by (simp_all add: st(3) demo_http_def)
  have "\<not> (\<exists>e \<in> set (ap_estimators st). unrotated e)" using st(3,4) by simp
  then have "\<exists>st' r. handle demo_http (demo_request ''/reset'' []) st = Inr (st', r) \<and> kept_app P st st'"
    using requests_never_panic [OF st(2) l demo_nodes_ok demo_encodes, of "demo_request ''/reset'' []"] by auto
  then show ?thesis using st(1,3) by (auto simp: kept_app_def list_all2_Cons1)
qed

theorem write_request_counted_witness:
  "\<exists>st st'. load_config 2 (\<lambda>_. Inl []) (\<lambda>_. Inl []) [demo_stream] empty_app = Inr (st, Inr True)
    \<and> handle demo_http (demo_request ''/cardinality/api/v1/write'' (request_body True [([(''job'', ''a'')], [''sample''])] [])) st
        = Inr (st', NoContent)"
proof -
  obtain st P e where st: "load_config 2 (\<lambda>_. Inl []) (\<lambda>_. Inl []) [demo_stream] empty_app = Inr (st, Inr True)" "app_ok P st"
    "ap_estimators st = [e]" using demo_app by blast
  have l: "length (ap_estimators st) \<le> 2 ^ 31" "rq_max_size (he_codec demo_http) \<le> 2 ^ 31" by (simp_all add: st(3) demo_http_def)
  let ?ss = "[([(''job'', ''a'')], [''sample''])]"
  have e: "uvarint_enc n = [char_of n]" if "n < 128" for n using that by (simp add: uvarint_enc.simps)
  have c: "carries True (he_codec demo_http) (request_body True ?ss []) ?ss []"
    by (simp add: carries_def demo_http_def request_body_def series_body_def label_body_def label_field_def len_field_def e)
  show ?thesis
    using write_request_counted [OF st(2) l c, of "demo_request ''/cardinality/api/v1/write'' (request_body True ?ss [])"] st(1)
    by (auto simp: demo_request_def metrics_path_def demo_http_def)
qed

theorem reset_keeps_deduplicator_witness:
  "\<exists>st d st1 st2. load_config 2 (\<lambda>_. Inl []) (\<lambda>_. Inl []) [demo_stream] empty_app = Inr (st, Inr True)
    \<and> seen d 7 \<and> reset_handler (st\<lparr>ap_dedup := Some d\<rparr>) = Inr (st1, ResetDone :: snapshot list reply)
    \<and> write_callback (\<lambda>_. 0) (\<lambda>_. 0) [plain_serie 7] st1 = Inr st2
    \<and> (\<forall>e \<in> set (ap_estimators st2). es_global_hits e = {})"
proof -
  obtain st P e where st: "load_config 2 (\<lambda>_. Inl []) (\<lambda>_. Inl []) [demo_stream] empty_app = Inr (st, Inr True)" "app_ok P st"
    "ap_estimators st = [e]" "\<not> unrotated e" using demo_app by blast
  obtain d0 where d0: "dedup_ok d0" "\<forall>h. room d0 h" using plain_deduplicator by blast
  then obtain d where d: "dedup_ok d" "seen d (ts_fingerprint (plain_serie 7))"
    using dedup.step_ok [OF d0(1), of "plain_serie 7"] by blast
  let ?st = "st\<lparr>ap_dedup := Some d\<rparr>"
  have ok: "app_ok P ?st" using st(2) d(1) by (simp add: app_ok_def)
  have h: "\<forall>e \<in> set (ap_estimators ?st). \<not> unrotated e" "ap_dedup ?st = Some d"
    "\<forall>ts \<in> set [plain_serie 7]. seen d (ts_fingerprint ts)" using st(3,4) d(2) by simp_all
  obtain st1 st2 where r: "reset_handler ?st = Inr (st1, ResetDone :: snapshot list reply)"
    "write_callback (\<lambda>_. 0) (\<lambda>_. 0) [plain_serie 7] st1 = Inr st2" "list_all2 (emptied P) (ap_estimators ?st) (ap_estimators st2)"
    using reset_keeps_deduplicator [OF ok h, of "\<lambda>_. 0" "\<lambda>_. 0"] by blast
  have "\<forall>e \<in> set (ap_estimators st2). es_global_hits e = {}"
    using r(3) by (auto simp: list_all2_conv_all_nth emptied_def in_set_conv_nth)
  moreover have "seen d 7" using d(2) by (simp add: plain_serie_def)
  ultimately show ?thesis using st(1) r(1,2) by blast
qed

text \<open>Two nodes with the same program state, whose responses are what the handler encodes.\<close>

theorem cluster_end_to_end_witness:
  "\<exists>st e get calls m. load_config 2 (\<lambda>_. Inl []) (\<lambda>_. Inl []) [demo_stream] empty_app = Inr (st, Inr True) \<and> ap_estimators st = [e]
    \<and> fetch_nodes ((demo_env 30)\<lparr>cm_get := get\<rparr>) [''http://a'', ''http://b''] = (calls, False)
    \<and> fold_err snapshots_add [] calls = Inr m \<and> (\<forall>k. snapshots_hits m (es_id e, k) = view e k)"
proof -
  obtain st P e where st: "load_config 2 (\<lambda>_. Inl []) (\<lambda>_. Inl []) [demo_stream] empty_app = Inr (st, Inr True)" "app_ok P st"
    "ap_estimators st = [e]" using demo_app by blast
  have a: "\<forall>e \<in> set (ap_estimators st). active_ok P e" using st(2) by (simp add: app_ok_def)
  obtain es' msgs where q: "query_estimators (cm_float (he_cm demo_http)) record_cb (ap_estimators st) [] = Inr (es', msgs)"
    using query_records [OF a, of "cm_float (he_cm demo_http)" "[]"] by blast
  define get where "get = (\<lambda>url :: string. HttpResponse 200 (map GobMessage msgs @ [GobEof]))"
  let ?cm = "(demo_env 30)\<lparr>cm_get := get\<rparr>"
  have env: "he_encode demo_http = record_cb" "he_conn demo_http = []" "\<not> metrics_path demo_http ''/clusternative/snapshot''"
    "\<forall>calls. mset (cm_schedule ?cm calls) = mset (concat calls)"
    by (simp_all add: demo_http_def metrics_path_def demo_env_def)
  have "handle demo_http rq st = Inr (st', Stream ms) \<Longrightarrow> ms = msgs" if "hr_path rq = ''/clusternative/snapshot''" for rq st' ms
    using that q env(3) by (auto simp: handle_def metrics_path_def cut_prefix_def Let_def query_handler_def demo_http_def)
  then have "serves demo_http (cm_get ?cm) url st" for url unfolding serves_def by (simp add: get_def)
  then have n: "\<forall>n \<in> set [(''http://a'', st), (''http://b'', st)]. (\<exists>P. app_ok P (snd n)) \<and> serves demo_http (cm_get ?cm) (fst n) (snd n)"
    using st(2) by auto
  let ?nodes = "[(''http://a'', st), (''http://b'', st)]"
  have r: "running_under ?nodes (es_id e) = {e}" using st(3) by (auto simp: running_under_def)
  obtain calls m where m: "fetch_nodes ?cm (map fst ?nodes) = (calls, False)" "fold_err snapshots_add [] calls = Inr m"
    and same: "\<forall>i q. (\<forall>e \<in> running_under ?nodes i. precision_of e = q)
          \<longrightarrow> (\<forall>k. snapshots_hits m (i, k) = (\<Union>e \<in> running_under ?nodes i. view e k))"
    using cluster_end_to_end [OF n env] by (elim exE conjE) (rule that)
  have "\<forall>k. snapshots_hits m (es_id e, k) = view e k" using same [THEN spec [of _ "es_id e"]] unfolding r by simp
  moreover have "fetch_nodes ?cm [''http://a'', ''http://b''] = (calls, False)" using m(1) by simp
  ultimately show ?thesis using st(1,3) m(2) by (intro exI conjI)
qed

end
