(* ===== verification/App_Run.thy ===== *)
theory App_Run
  imports Http_Main
begin

section \<open>Runs of the whole program\<close>

text \<open>
  The start of \<^verbatim>\<open>main\<close> and everything that can happen to the program afterwards: requests, the rotation ticks of
  the estimators and of the deduplicator, and wake-ups of the reloader, in any order.  An event is one step;
  the rotation goroutine of an estimator may make a round at any bucket and read any time off the clock, which allows
  more runs than the program has.
\<close>

record 's run_env =
  re_http :: "'s http_env"
  re_cpus :: int
  re_parse :: selector_parser
  re_compile :: regexp_compiler
  re_unmarshal :: "string \<Rightarrow> string + estimator_config list"
  re_path :: string

subsection \<open>Start and events\<close>

definition initial_app :: "deduplicator option \<Rightarrow> app" where
  "initial_app dedup = \<lparr>ap_estimators = [], ap_dedup = dedup, ap_cm = new_cm_state, ap_fingerprint_labels = False, ap_stopped = []\<rparr>"

definition read_streams :: "'s run_env \<Rightarrow> (string \<Rightarrow> string + string) \<Rightarrow> config_error + config" where
  "read_streams env read_file =
     read_config (re_cpus env) (re_unmarshal env) (he_sum64 (re_http env)) (he_nodes (re_http env)) read_file (re_path env)"

text \<open>\<open>None\<close> stands for a fatal error, which ends the process with a message.\<close>

definition start_program ::
  "'s run_env \<Rightarrow> duration \<Rightarrow> int \<Rightarrow> (string \<Rightarrow> string + string) \<Rightarrow> go_panic + reloader option" where
  "start_program env dedup_interval dedup_max_size read_file =
     (case start_deduplicator dedup_interval dedup_max_size of
        Inl p \<Rightarrow> Inl p
      | Inr (Fatal msg) \<Rightarrow> Inr None
      | Inr started \<Rightarrow>
          let dedup = (case started of Started d \<Rightarrow> Some d | _ \<Rightarrow> None) in
          (case read_streams env read_file of
             Inl err \<Rightarrow> Inr None
           | Inr cfg \<Rightarrow>
               (case load_config (re_cpus env) (re_parse env) (re_compile env) (cf_streams cfg) (initial_app dedup) of
                  Inl p \<Rightarrow> Inl p
                | Inr (st, Inl err) \<Rightarrow> Inr None
                | Inr (st, Inr changed) \<Rightarrow>
                    Inr (Some \<lparr>rl_app = st, rl_cfg = cfg, rl_reloads = 0, rl_errors = 0, rl_success = True\<rparr>))))"

datatype event =
    Request http_request | Rotate nat nat instant | RotateDedup instant | WakeReloader "string \<Rightarrow> string + string"

text \<open>
  A round of the loop in \<^verbatim>\<open>runRotation\<close>, with the clock read as \<open>now\<close>: the period, which is the same in every round, how long to
  wait for the next point of its grid, and, when the timer has fired, the rotation of a bucket.
\<close>

definition rotation_round :: "nat \<Rightarrow> instant \<Rightarrow> estimator \<Rightarrow> go_panic + estimator" where
  "rotation_round i now e =
     (case rotation_period (ec_interval (es_cfg e)) (length (es_buckets e)) of
        Inl p \<Rightarrow> Inl p
      | Inr period \<Rightarrow>
          (case rotation_wait period now of
             Inl p \<Rightarrow> Inl p
           | Inr _ \<Rightarrow> map_sum id fst (rotate_tick (e, i))))"

definition rotate_estimator :: "nat \<Rightarrow> nat \<Rightarrow> instant \<Rightarrow> app \<Rightarrow> go_panic + app" where
  "rotate_estimator j i now st =
     (if j < length (ap_estimators st) \<and> i < length (es_buckets (ap_estimators st ! j))
      then map_sum id (\<lambda>e'. st\<lparr>ap_estimators := (ap_estimators st)[j := e']\<rparr>) (rotation_round i now (ap_estimators st ! j))
      else Inr st)"

definition rotate_dedup :: "instant \<Rightarrow> app \<Rightarrow> go_panic + app" where
  "rotate_dedup b st =
     (case ap_dedup st of
        None \<Rightarrow> Inr st
      | Some d \<Rightarrow> map_sum id (\<lambda>d'. st\<lparr>ap_dedup := Some d'\<rparr>) (dedup_rotate d b))"

text \<open>The reloader only runs when a configuration path is set.\<close>

fun app_event :: "'s run_env \<Rightarrow> reloader \<Rightarrow> event \<Rightarrow> go_panic + reloader" where
  "app_event env rl (Request rq) = map_sum id (\<lambda>(st, _). rl\<lparr>rl_app := st\<rparr>) (handle (re_http env) rq (rl_app rl))"
| "app_event env rl (Rotate j i now) = map_sum id (\<lambda>st. rl\<lparr>rl_app := st\<rparr>) (rotate_estimator j i now (rl_app rl))"
| "app_event env rl (RotateDedup b) = map_sum id (\<lambda>st. rl\<lparr>rl_app := st\<rparr>) (rotate_dedup b (rl_app rl))"
| "app_event env rl (WakeReloader read_file) =
     (if re_path env = [] then Inr rl
      else reload_step (re_cpus env) (re_parse env) (re_compile env) (re_unmarshal env) (he_sum64 (re_http env))
             (he_nodes (re_http env)) (re_path env) rl read_file)"

definition app_run :: "'s run_env \<Rightarrow> reloader \<Rightarrow> event list \<Rightarrow> go_panic + reloader" where
  "app_run env = fold_err (app_event env)"

text \<open>The clock of the deduplicator's ticks is not before 1970.\<close>

fun event_ok :: "event \<Rightarrow> bool" where
  "event_ok (RotateDedup b) \<longleftrightarrow> 0 \<le> b"
| "event_ok _ \<longleftrightarrow> True"

text \<open>
  An estimator whose interval is so short that the period is zero: less than two nanoseconds for each bucket (see
  \<open>rotation_schedule\<close>).
\<close>

definition too_short :: "estimator \<Rightarrow> bool" where
  "too_short e \<longleftrightarrow> rotation_period (ec_interval (es_cfg e)) (length (es_buckets e)) = Inr 0"

text \<open>
  The events that end the process: a reset while some global estimator has a bucket that never rotated, and a round of the
  rotation goroutine of an estimator with too short an interval.
\<close>

fun fatal_event :: "'s run_env \<Rightarrow> reloader \<Rightarrow> event \<Rightarrow> bool" where
  "fatal_event env rl (Request rq) \<longleftrightarrow>
     reset_path (re_http env) (hr_path rq) \<and> (\<exists>e \<in> set (ap_estimators (rl_app rl)). unrotated e)"
| "fatal_event env rl (Rotate j i now) \<longleftrightarrow>
     j < length (ap_estimators (rl_app rl)) \<and> i < length (es_buckets (ap_estimators (rl_app rl) ! j))
     \<and> too_short (ap_estimators (rl_app rl) ! j)"
| "fatal_event env rl _ \<longleftrightarrow> False"

subsection \<open>Requests keep what the reloader relies on\<close>

lemma kept_iff:
  assumes "distinct (map es_id es)"
  shows "kept (by_id es) ec \<longleftrightarrow> (\<exists>e \<in> set es. es_id e = config_id ec \<and> deep_equal (es_cfg e) ec)"
proof
  assume "kept (by_id es) ec"
  then show "\<exists>e \<in> set es. es_id e = config_id ec \<and> deep_equal (es_cfg e) ec" using keptD [OF _ assms] by blast
next
  assume "\<exists>e \<in> set es. es_id e = config_id ec \<and> deep_equal (es_cfg e) ec"
  then obtain e where e: "e \<in> set es" "es_id e = config_id ec" "deep_equal (es_cfg e) ec" by blast
  then have "map_of (by_id es) (config_id ec) = Some e" using by_id_lookup [OF assms] by metis
  then show "kept (by_id es) ec" using e(3) by (simp add: kept_def)
qed

lemma settled_iff:
  assumes "distinct (map es_id es)"
  shows "settled streams es \<longleftrightarrow>
    (\<forall>ec \<in> set streams. \<exists>e \<in> set es. es_id e = config_id ec \<and> deep_equal (es_cfg e) ec)
    \<and> es_id ` set es \<subseteq> config_id ` set streams"
proof -
  have "dropped streams es = {} \<longleftrightarrow> es_id ` set es \<subseteq> config_id ` set streams"
    if all: "\<forall>ec \<in> set streams. kept (by_id es) ec"
  proof -
    have "dropped streams es = {} \<longleftrightarrow> (\<forall>e \<in> set es. \<exists>ec \<in> set streams. config_id ec = es_id e)"
      using all unfolding dropped_def by blast
    also have "\<dots> \<longleftrightarrow> es_id ` set es \<subseteq> config_id ` set streams" unfolding image_subset_iff image_iff by metis
    finally show ?thesis .
  qed
  then show ?thesis using kept_iff [OF assms] by (auto simp: settled_def)
qed

lemma settled_same:
  assumes "list_all2 (same_estimator P) es es'" and "distinct (map es_id es)" and "settled streams es"
  shows "settled streams es'"
proof -
  have d: "distinct (map es_id es')" using same_estimator_ids [OF assms(1)] assms(2) by simp
  have ids: "es_id ` set es' = es_id ` set es" using same_estimator_ids [OF assms(1)] by (metis set_map)
  have "\<exists>e' \<in> set es'. es_id e' = es_id e \<and> es_cfg e' = es_cfg e" if e: "e \<in> set es" for e
  proof -
    obtain i where i: "i < length es" "e = es ! i" using e by (metis in_set_conv_nth)
    then have "es' ! i \<in> set es'" "same_estimator P e (es' ! i)" using assms(1) by (simp_all add: list_all2_conv_all_nth)
    then show ?thesis unfolding same_estimator_def by blast
  qed
  then show ?thesis using assms(3) unfolding settled_iff [OF d] settled_iff [OF assms(2)] ids by metis
qed

lemma write_callback_cm: "write_callback sum64 rand tss st = Inr st1 \<Longrightarrow> ap_cm st1 = ap_cm st"
  by (auto simp: write_callback_def map_sum_Inr split: option.splits sum.splits prod.splits if_splits)

lemma handle_within:
  assumes "handle env rq st = Inr (st', r)" and "he_nodes env = []" and "\<forall>e \<in> set (ap_estimators st). scrape_ok P e \<and> es_id e \<in> I"
    and "churn_within I (cm_churn (ap_cm st))"
  shows "churn_within I (cm_churn (ap_cm st'))"
proof -
  consider "serve_cardinality env rq st = Inr (st', r)" | "ap_cm st' = ap_cm st" | "cm_churn (ap_cm st') = []"
    using assms(1)
    by (auto dest: write_callback_cm simp: handle_def Let_def write_handler_def query_handler_def reset_handler_def new_churn_snapshots_def map_sum_Inr
        split: if_splits prod.splits sum.splits option.splits)
  then show ?thesis
  proof cases
    case 1
    then obtain es' body where "write_cardinality_metrics (he_cm env) (ap_estimators st) [] (hr_clock rq) (ap_cm st) = Inr (es', ap_cm st', body)"
      using assms(2) by (auto simp: serve_cardinality_def map_sum_Inr)
    then show ?thesis by (rule write_cardinality_within [OF _ assms(3,4)])
  qed (use assms(4) in \<open>simp_all add: churn_within_def\<close>)
qed

subsection \<open>Every event keeps the program running\<close>

text \<open>
  What is assumed of the surroundings of the program: no storage nodes, requests of at most \<^verbatim>\<open>2^31\<close> bytes when
  decompressed, a gob encoder that does not panic, and configuration files as in \<open>decoded_ok\<close>, with at most \<^verbatim>\<open>2^31\<close> streams.
\<close>

definition env_ok :: "'s run_env \<Rightarrow> bool" where
  "env_ok env \<longleftrightarrow>
     rq_max_size (he_codec (re_http env)) \<le> 2 ^ 31 \<and> he_nodes (re_http env) = []
     \<and> (\<forall>s c. \<exists>c' err. he_encode (re_http env) s c = Inr (c', err))
     \<and> (\<forall>calls. mset (cm_schedule (he_cm (re_http env)) calls) = mset (concat calls))
     \<and> decoded_ok (re_unmarshal env) \<and> (\<forall>data streams. re_unmarshal env data = Inr streams \<longrightarrow> length streams \<le> 2 ^ 31)"

definition run_ok :: "reloader \<Rightarrow> bool" where
  "run_ok rl \<longleftrightarrow> reloader_ok rl \<and> length (cf_streams (rl_cfg rl)) \<le> 2 ^ 31"

lemma run_okD:
  assumes "run_ok rl"
  obtains P where "app_ok P (rl_app rl)" "settled (cf_streams (rl_cfg rl)) (ap_estimators (rl_app rl))"
    "churn_within (es_id ` set (ap_estimators (rl_app rl))) (cm_churn (ap_cm (rl_app rl)))"
    "length (ap_estimators (rl_app rl)) \<le> 2 ^ 31" "\<forall>e \<in> set (ap_estimators (rl_app rl)). active_ok P e"
proof -
  let ?es = "ap_estimators (rl_app rl)" and ?ss = "cf_streams (rl_cfg rl)"
  obtain P where P: "app_ok P (rl_app rl)" "settled ?ss ?es"
    "churn_within (es_id ` set ?es) (cm_churn (ap_cm (rl_app rl)))" "length ?ss \<le> 2 ^ 31"
    using assms by (auto simp: run_ok_def reloader_ok_def churn_within_def)
  have d: "distinct (map es_id ?es)" using P(1) by (simp add: app_ok_def)
  have "length ?es = card (es_id ` set ?es)" using distinct_card [OF d] by simp
  also have "\<dots> = card (config_id ` set ?ss)" using settled_ids [OF P(2) d] by simp
  also have "\<dots> \<le> length ?ss" using card_image_le [of "set ?ss" config_id] card_length [of ?ss] by simp
  finally have "length ?es \<le> 2 ^ 31" using P(4) by simp
  moreover have "\<forall>e \<in> set ?es. active_ok P e" using P(1) by (simp add: app_ok_def)
  ultimately show thesis using that P by blast
qed

lemma kept_app_run:
  assumes "run_ok rl" and "app_ok P (rl_app rl)" and "kept_app P (rl_app rl) st"
    and "churn_within (es_id ` set (ap_estimators (rl_app rl))) (cm_churn (ap_cm st))"
  shows "run_ok (rl\<lparr>rl_app := st\<rparr>)"
proof -
  let ?es = "ap_estimators (rl_app rl)"
  have k: "app_ok P st" "list_all2 (same_estimator P) ?es (ap_estimators st)" using assms(3) by (simp_all add: kept_app_def)
  have s: "settled (cf_streams (rl_cfg rl)) ?es" "length (cf_streams (rl_cfg rl)) \<le> 2 ^ 31"
    using assms(1) by (simp_all add: run_ok_def reloader_ok_def)
  have "distinct (map es_id ?es)" using assms(2) by (simp add: app_ok_def)
  from settled_same [OF k(2) this s(1)] have "settled (cf_streams (rl_cfg rl)) (ap_estimators st)" .
  moreover have "es_id ` set (ap_estimators st) = es_id ` set ?es" using same_estimator_ids [OF k(2)] by (metis set_map)
  ultimately show ?thesis using k(1) s(2) assms(4) by (auto simp: run_ok_def reloader_ok_def churn_within_def)
qed

lemma rotation_round_eq:
  assumes "es_buckets e \<noteq> []"
  shows "rotation_round i now e = (if too_short e then Inl DivideByZero else map_sum id fst (rotate_tick (e, i)))"
  using assms by (auto simp: rotation_round_def too_short_def rotation_period_def rotation_wait_def Let_def)

lemma rotate_estimator_short:
  assumes "j < length (ap_estimators st)" and "i < length (es_buckets (ap_estimators st ! j))" and "too_short (ap_estimators st ! j)"
  shows "rotate_estimator j i now st = Inl DivideByZero"
proof -
  have "es_buckets (ap_estimators st ! j) \<noteq> []" using assms(2) by auto
  then show ?thesis using assms by (simp add: rotate_estimator_def rotation_round_eq)
qed

lemma rotate_estimator_ok:
  assumes "app_ok P st"
    and "\<not> (j < length (ap_estimators st) \<and> i < length (es_buckets (ap_estimators st ! j)) \<and> too_short (ap_estimators st ! j))"
  shows "\<exists>st'. rotate_estimator j i now st = Inr st' \<and> kept_app P st st' \<and> ap_cm st' = ap_cm st"
proof (cases "j < length (ap_estimators st) \<and> i < length (es_buckets (ap_estimators st ! j))")
  case True
  let ?es = "ap_estimators st" and ?e = "ap_estimators st ! j"
  have active: "\<forall>e \<in> set ?es. active_ok P e" using assms(1) by (simp add: app_ok_def)
  then have a: "active_ok P ?e" using True by simp
  obtain e' i' where t: "rotate_tick (?e, i) = Inr (e', i')" "estimator_ok (P (es_id ?e)) e'" "es_shell e' = es_shell ?e"
    "es_values_ok e'" "es_frame e' = es_frame ?e"
    using rotate_tick_ok [OF active_okD(1) [OF a] _ active_okD(2) [OF a], of i] True by blast
  have "same_estimator P ?e e'" by (rule same_estimatorI [OF a t(2,4,3,5)])
  then have l: "list_all2 (same_estimator P) ?es (?es[j := e'])"
    using active same_estimator_refl True by (auto simp: list_all2_conv_all_nth nth_list_update)
  have "app_ok P (st\<lparr>ap_estimators := ?es[j := e']\<rparr>)"
    by (rule app_ok_same [OF assms(1)]) (use l assms(1) in \<open>simp_all add: app_ok_def\<close>)
  moreover have "es_buckets ?e \<noteq> []" "\<not> too_short ?e" using True assms(2) by auto
  ultimately show ?thesis using True t(1) l by (simp add: rotate_estimator_def rotation_round_eq kept_app_def)
next
  case False
  then have "rotate_estimator j i now st = Inr st" unfolding rotate_estimator_def by (rule if_not_P)
  then show ?thesis using kept_app_refl [OF assms(1)] by simp
qed

lemma rotate_dedup_ok:
  assumes "app_ok P st" and "0 \<le> b"
  shows "\<exists>st'. rotate_dedup b st = Inr st' \<and> kept_app P st st' \<and> ap_cm st' = ap_cm st"
proof (cases "ap_dedup st")
  case None
  then show ?thesis using kept_app_refl [OF assms(1)] by (simp add: rotate_dedup_def)
next
  case (Some d)
  then have "dedup_ok d" using assms(1) by (simp add: app_ok_def)
  from dedup_rotate_ok [OF this assms(2)] obtain d' where d': "dedup_rotate d b = Inr d'" "dedup_ok d'" by blast
  have refl: "list_all2 (same_estimator P) (ap_estimators st) (ap_estimators st)"
    using kept_app_refl [OF assms(1)] by (simp add: kept_app_def)
  have "app_ok P (st\<lparr>ap_dedup := Some d'\<rparr>)"
    by (rule app_ok_same [OF assms(1)]) (use refl assms(1) d'(2) in \<open>simp_all add: app_ok_def\<close>)
  then show ?thesis using Some d'(1) refl by (simp add: rotate_dedup_def kept_app_def)
qed

lemma read_config_length:
  assumes "read_config cpus unmarshal sum64 nodes read_file path = Inr cfg"
    and "\<forall>data streams. unmarshal data = Inr streams \<longrightarrow> length streams \<le> 2 ^ 31"
  shows "length (cf_streams cfg) \<le> 2 ^ 31"
proof (cases "cf_streams cfg = []")
  case False
  then obtain data streams where "unmarshal data = Inr streams" "prepare cpus streams = Inr (cf_streams cfg)"
    using assms(1) by (auto simp: read_config_def split: if_splits sum.splits)
  then show ?thesis using assms(2) prepare_spec [of cpus streams "cf_streams cfg"] by auto
qed simp

lemma wake_reloader_ok:
  assumes "run_ok rl" and "env_ok env"
  shows "\<exists>rl'. app_event env rl (WakeReloader read_file) = Inr rl' \<and> run_ok rl'"
proof (cases "re_path env = []")
  case True
  then show ?thesis using assms(1) by simp
next
  case False
  let ?h = "re_http env"
  let ?read = "read_config (re_cpus env) (re_unmarshal env) (he_sum64 ?h) (he_nodes ?h) read_file (re_path env)"
  have rl: "reloader_ok rl" "length (cf_streams (rl_cfg rl)) \<le> 2 ^ 31" using assms(1) by (simp_all add: run_ok_def)
  have u: "decoded_ok (re_unmarshal env)" "\<forall>data streams. re_unmarshal env data = Inr streams \<longrightarrow> length streams \<le> 2 ^ 31"
    using assms(2) by (simp_all add: env_ok_def)
  obtain rl' where r: "reload_step (re_cpus env) (re_parse env) (re_compile env) (re_unmarshal env) (he_sum64 ?h) (he_nodes ?h)
      (re_path env) rl read_file = Inr rl'" "reloader_ok rl'"
    and c: "case ?read of
         Inl err \<Rightarrow> rl' = reload_failed rl
       | Inr cfg \<Rightarrow>
           if cf_hash cfg = cf_hash (rl_cfg rl) then rl' = rl\<lparr>rl_success := True\<rparr>
           else if \<exists>ec \<in> set (cf_streams cfg). \<not> kept (by_id (ap_estimators (rl_app rl))) ec \<and> rejected_config (re_parse env) (re_compile env) ec
           then \<exists>created. rl' = reload_failed (rl\<lparr>rl_app := (rl_app rl)\<lparr>ap_stopped := ap_stopped (rl_app rl) @ created\<rparr>\<rparr>)
           else rl_cfg rl' = cfg \<and> rl_success rl' \<and> rl_errors rl' = rl_errors rl"
    using reload_step_ok [OF rl(1) u(1)] by blast
  have "rl_cfg rl' = rl_cfg rl \<or> ?read = Inr (rl_cfg rl')"
    using c by (cases ?read) (auto simp: reload_failed_def split: if_splits)
  then have "length (cf_streams (rl_cfg rl')) \<le> 2 ^ 31" using rl(2) read_config_length [OF _ u(2)] by auto
  then show ?thesis using r False by (simp add: run_ok_def)
qed

lemma request_ok:
  assumes "run_ok rl" and "env_ok env"
  shows "if fatal_event env rl (Request rq) then \<exists>p. app_event env rl (Request rq) = Inl p
    else \<exists>rl'. app_event env rl (Request rq) = Inr rl' \<and> run_ok rl'"
proof -
  let ?h = "re_http env" and ?st = "rl_app rl"
  obtain P where P: "app_ok P ?st" "churn_within (es_id ` set (ap_estimators ?st)) (cm_churn (ap_cm ?st))"
    "length (ap_estimators ?st) \<le> 2 ^ 31" "\<forall>e \<in> set (ap_estimators ?st). active_ok P e" using run_okD [OF assms(1)] by metis
  have env: "rq_max_size (he_codec ?h) \<le> 2 ^ 31" "he_nodes ?h = []" "\<forall>s c. \<exists>c' err. he_encode ?h s c = Inr (c', err)"
    using assms(2) by (simp_all add: env_ok_def)
  have n: "nodes_ok P (\<lambda>_. []) (he_cm ?h) (he_nodes ?h)" using assms(2) by (simp add: env_ok_def nodes_ok_def)
  note h = handle_ok [OF P(1,3) env(1) n env(3), of rq]
  show ?thesis
  proof (cases "fatal_event env rl (Request rq)")
    case True
    then have "\<exists>q. handle ?h rq ?st = Inl q" using h by (simp only: fatal_event.simps if_True)
    then show ?thesis using True by auto
  next
    case False
    then have nf: "\<not> (reset_path ?h (hr_path rq) \<and> (\<exists>e \<in> set (ap_estimators ?st). unrotated e))" by (simp only: fatal_event.simps simp_thms)
    obtain st' r where s: "handle ?h rq ?st = Inr (st', r)" "kept_app P ?st st'" using h unfolding if_not_P [OF nf] by blast
    have "\<forall>e \<in> set (ap_estimators ?st). scrape_ok P e \<and> es_id e \<in> es_id ` set (ap_estimators ?st)"
      using P(4) active_okD(9) by blast
    from kept_app_run [OF assms(1) P(1) s(2) handle_within [OF s(1) env(2) this P(2)]] s(1) False show ?thesis by simp
  qed
qed

lemma app_event_ok:
  assumes "run_ok rl" and "env_ok env" and "event_ok ev"
  shows "if fatal_event env rl ev then \<exists>p. app_event env rl ev = Inl p
    else \<exists>rl'. app_event env rl ev = Inr rl' \<and> run_ok rl'"
proof (cases ev)
  case (Request rq)
  then show ?thesis using request_ok [OF assms(1,2), of rq] by (simp only:)
next
  case (Rotate j i now)
  obtain P where P: "app_ok P (rl_app rl)" "churn_within (es_id ` set (ap_estimators (rl_app rl))) (cm_churn (ap_cm (rl_app rl)))"
    using run_okD [OF assms(1)] by metis
  show ?thesis
  proof (cases "fatal_event env rl ev")
    case True
    then have "rotate_estimator j i now (rl_app rl) = Inl DivideByZero" using rotate_estimator_short Rotate by simp
    then show ?thesis using True Rotate by auto
  next
    case False
    then obtain st where "rotate_estimator j i now (rl_app rl) = Inr st" "kept_app P (rl_app rl) st" "ap_cm st = ap_cm (rl_app rl)"
      using rotate_estimator_ok [OF P(1), of j i now] Rotate by auto
    then show ?thesis using kept_app_run [OF assms(1) P(1), of st] P(2) Rotate False by simp
  qed
next
  case (RotateDedup b)
  obtain P where P: "app_ok P (rl_app rl)" "churn_within (es_id ` set (ap_estimators (rl_app rl))) (cm_churn (ap_cm (rl_app rl)))"
    using run_okD [OF assms(1)] by metis
  have b: "0 \<le> b" using assms(3) RotateDedup by simp
  obtain st where "rotate_dedup b (rl_app rl) = Inr st" "kept_app P (rl_app rl) st" "ap_cm st = ap_cm (rl_app rl)"
    using rotate_dedup_ok [OF P(1) b] by blast
  then show ?thesis using kept_app_run [OF assms(1) P(1), of st] P(2) RotateDedup by simp
next
  case (WakeReloader read_file)
  have "\<not> fatal_event env rl ev" by (simp add: WakeReloader)
  then show ?thesis unfolding WakeReloader using wake_reloader_ok [OF assms(1,2), of read_file] by (simp only: if_not_P not_False_eq_True)
qed

subsection \<open>The start\<close>

lemma start_program_ok:
  assumes "env_ok env" and "max_size < 2 ^ 63" and "start_program env iv max_size read_file = Inr (Some rl)"
  shows "run_ok rl"
proof -
  let ?load = "load_config (re_cpus env) (re_parse env) (re_compile env)"
  obtain dedup cfg st changed where s: "read_streams env read_file = Inr cfg"
    "?load (cf_streams cfg) (initial_app dedup) = Inr (st, Inr changed)" "rl_app rl = st" "rl_cfg rl = cfg"
    and d: "\<forall>d. dedup = Some d \<longrightarrow> start_deduplicator iv max_size = Inr (Started d)"
    using assms(3) by (auto simp: start_program_def Let_def split: sum.splits dedup_start.splits prod.splits)
  let ?init = "initial_app dedup" and ?P = "\<lambda>_. 0"
  have dd: "dedup_ok d" if "dedup = Some d" for d
  proof -
    have "new_deduplicator max_size iv = Inr d"
      using d that by (auto simp: start_deduplicator_def map_sum_Inr split: if_splits sum.splits)
    then show ?thesis using assms(2) by (rule new_deduplicator_result(4))
  qed
  have ok: "app_ok ?P ?init"
    using empty_app_ok [of ?P] dd by (auto simp: app_ok_def initial_app_def empty_app_def)
  have cfg: "\<forall>ec \<in> set (cf_streams cfg). stream_ok (re_cpus env) ec" "distinct (map config_id (cf_streams cfg))"
    "length (cf_streams cfg) \<le> 2 ^ 31"
    using read_config_streams [OF _ s(1) [unfolded read_streams_def]] read_config_length [OF s(1) [unfolded read_streams_def]] assms(1)
    by (auto simp: env_ok_def)
  have nochurn: "cm_churn (ap_cm ?init) = []" by (simp add: initial_app_def new_cm_state_def new_churn_snapshots_def)
  have agree: "churn_agrees ?P (cf_streams cfg) ?init" by (simp add: churn_agrees_def nochurn)
  note l = load_config_ok [OF ok cfg(1,2) agree, of "re_parse env" "re_compile env"]
  let ?c1 = "\<exists>ec \<in> set (cf_streams cfg). \<not> kept (by_id (ap_estimators ?init)) ec \<and> rejected_config (re_parse env) (re_compile env) ec"
  let ?c2 = "(\<forall>ec \<in> set (cf_streams cfg). kept (by_id (ap_estimators ?init)) ec) \<and> dropped (cf_streams cfg) (ap_estimators ?init) = {}"
  consider (same) "?c2" "st = ?init"
    | (new) "load_done (re_cpus env) (re_parse env) (re_compile env) (cf_streams cfg) ?init st" "app_ok (new_precisions ?P (cf_streams cfg)) st"
    using l s(2) by (cases ?c1; cases ?c2) auto
  then have "reloader_ok rl"
  proof cases
    case same
    then show ?thesis using ok s(3,4) nochurn by (auto simp: reloader_ok_def settled_def)
  next
    case new
    note set' = load_done_settled [OF ok cfg(1,2) new]
    have "fst ` map_keys (cm_churn (ap_cm st)) \<subseteq> es_id ` set (ap_estimators st)"
      by (rule load_done_local [OF new(1) _ conjunct2 [OF set']]) (simp add: nochurn)
    then show ?thesis using new(2) set' s(3,4) by (auto simp: reloader_ok_def)
  qed
  then show ?thesis using cfg(3) s(4) by (simp add: run_ok_def)
qed

subsection \<open>Runs\<close>

lemma app_run_ok:
  assumes "run_ok rl" and "env_ok env" and "\<forall>ev \<in> set evs. event_ok ev"
  shows "(\<exists>rl'. app_run env rl evs = Inr rl' \<and> run_ok rl')
    \<or> (\<exists>pre ev post rl' p. evs = pre @ ev # post \<and> app_run env rl pre = Inr rl' \<and> run_ok rl' \<and> fatal_event env rl' ev
         \<and> app_run env rl evs = Inl p)"
  using assms(1,3)
proof (induction evs arbitrary: rl)
  case Nil
  then show ?case by (simp add: app_run_def)
next
  case (Cons ev evs)
  note e = app_event_ok [OF Cons.prems(1) assms(2), of ev]
  show ?case
  proof (cases "fatal_event env rl ev")
    case True
    then obtain p where "app_event env rl ev = Inl p" using e Cons.prems(2) by (simp only: if_True) auto
    then have p: "app_run env rl (ev # evs) = Inl p" by (simp add: app_run_def)
    show ?thesis
      by (intro disjI2 exI [of _ "[]"] exI [of _ ev] exI [of _ evs] exI [of _ rl] exI [of _ p])
        (use True Cons.prems(1) p in \<open>simp add: app_run_def\<close>)
  next
    case False
    then obtain rl1 where s: "app_event env rl ev = Inr rl1" "run_ok rl1" using e Cons.prems(2) unfolding if_not_P [OF False] by auto
    then have step: "app_run env rl (ev # xs) = app_run env rl1 xs" for xs by (simp add: app_run_def)
    have "\<forall>ev \<in> set evs. event_ok ev" using Cons.prems(2) by simp
    from Cons.IH [OF s(2) this] show ?thesis
    proof (elim disjE)
      assume "\<exists>pre ev' post rl' p. evs = pre @ ev' # post \<and> app_run env rl1 pre = Inr rl' \<and> run_ok rl' \<and> fatal_event env rl' ev'
         \<and> app_run env rl1 evs = Inl p"
      then obtain pre ev' post rl' p where p: "evs = pre @ ev' # post" "app_run env rl1 pre = Inr rl'" "run_ok rl'" "fatal_event env rl' ev'"
        "app_run env rl1 evs = Inl p" by blast
      then show ?thesis
        by (intro disjI2 exI [of _ "ev # pre"] exI [of _ ev'] exI [of _ post] exI [of _ rl'] exI [of _ p]) (simp add: step)
    qed (use step in auto)
  qed
qed

text \<open>C3: A program without storage nodes, from a start that succeeds on, survives every sequence of requests, rotations and wake-ups
  of the reloader, whatever the requests hold and whichever files the reloader finds, good or bad, as long as the
  files that can be decoded keep to \<open>decoded_ok\<close>: names without line breaks, positive intervals below \<^verbatim>\<open>2^62\<close> nanoseconds or
  none, at most \<^verbatim>\<open>2^45\<close> buckets.  It stays well-formed and runs exactly the streams of the configuration loaded last.  A run can end
  in two ways only, and then it does: with a reset while some global estimator has a bucket that never rotated, and with a round of
  the rotation goroutine of an estimator with less than two nanoseconds of interval for each bucket.\<close>

theorem runs_never_panic:
  assumes "env_ok env" and "max_size < 2 ^ 63" and "start_program env iv max_size read_file = Inr (Some rl)"
    and "\<forall>ev \<in> set evs. event_ok ev"
  shows "(\<exists>rl'. app_run env rl evs = Inr rl' \<and> run_ok rl')
    \<or> (\<exists>pre ev post rl' p. evs = pre @ ev # post \<and> app_run env rl pre = Inr rl' \<and> run_ok rl' \<and> fatal_event env rl' ev
         \<and> app_run env rl evs = Inl p)"
  using app_run_ok [OF start_program_ok [OF assms(1-3)] assms(1,4)] .

text \<open>C34: The start panics exactly in three cases, whatever the configuration file contains: the deduplication interval is the
  minimum that \<^verbatim>\<open>main\<close> still accepts and \<^verbatim>\<open>newDeduplicator\<close> does not; the deduplicator is to hold so many items that no
  slice can be made for the bits of a filter; or the deduplicator is fine, or not asked for, and the configuration asks
  for a stream with so many buckets that no slice can be made for them, before any stream that is rejected.  Every
  other start either succeeds or ends with a fatal message.\<close>

theorem start_panics_exactly:
  assumes "max_size < 2 ^ 63"
  shows "(\<exists>p. start_program env iv max_size read_file = Inl p) \<longleftrightarrow>
      iv = dedup_min_interval \<and> dedup_min_max_size < max_size
    \<or> dedup_min_interval < iv \<and> max_items < max_size
    \<or> (iv \<le> 0 \<or> dedup_min_interval < iv \<and> dedup_min_max_size < max_size \<and> max_size \<le> max_items)
      \<and> (\<exists>cfg. read_streams env read_file = Inr cfg \<and> too_many_buckets (re_parse env) (re_compile env) (cf_streams cfg))"
proof -
  let ?load = "load_config (re_cpus env) (re_parse env) (re_compile env)"
  let ?big = "\<exists>cfg. read_streams env read_file = Inr cfg \<and> too_many_buckets (re_parse env) (re_compile env) (cf_streams cfg)"
  have load: "(\<exists>p. ?load (cf_streams cfg) (initial_app dedup) = Inl p) \<longleftrightarrow> too_many_buckets (re_parse env) (re_compile env) (cf_streams cfg)"
    if r: "read_streams env read_file = Inr cfg" for cfg dedup
  proof (rule first_load_panics)
    show "\<forall>ec \<in> set (cf_streams cfg). prepared (re_cpus env) ec"
      using read_config_each_prepared [OF r [unfolded read_streams_def]] by blast
  qed (simp add: initial_app_def)
  have after: "(\<exists>p. start_program env iv max_size read_file = Inl p) \<longleftrightarrow> ?big"
    if s: "start_deduplicator iv max_size = Inr s" "\<forall>m. s \<noteq> Fatal m" for s
  proof (cases "read_streams env read_file")
    case (Inl err)
    then show ?thesis using s by (cases s) (simp_all add: start_program_def)
  next
    case (Inr cfg)
    let ?dedup = "case s of Started d \<Rightarrow> Some d | _ \<Rightarrow> None"
    have "start_program env iv max_size read_file =
        (case ?load (cf_streams cfg) (initial_app ?dedup) of
           Inl p \<Rightarrow> Inl p
         | Inr (st, Inl err) \<Rightarrow> Inr None
         | Inr (st, Inr changed) \<Rightarrow> Inr (Some \<lparr>rl_app = st, rl_cfg = cfg, rl_reloads = 0, rl_errors = 0, rl_success = True\<rparr>))"
      using s Inr by (cases s) (simp_all add: start_program_def)
    then show ?thesis using load [OF Inr, of ?dedup] Inr by (auto split: sum.splits prod.splits)
  qed
  consider (off) "iv \<le> 0" | (small) "0 < iv" "max_size \<le> dedup_min_max_size" | (short) "0 < iv" "iv < dedup_min_interval" "dedup_min_max_size < max_size"
    | (min) "iv = dedup_min_interval" "dedup_min_max_size < max_size"
    | (large) "dedup_min_interval < iv" "dedup_min_max_size < max_size" "max_items < max_size"
    | (ok) "dedup_min_interval < iv" "dedup_min_max_size < max_size" "max_size \<le> max_items"
    by linarith
  then show ?thesis
  proof cases
    case off
    then have "start_deduplicator iv max_size = Inr Disabled" by (simp add: start_deduplicator_def)
    from after [OF this] off show ?thesis by (simp add: dedup_min_interval_def)
  next
    case small
    then obtain m where "start_deduplicator iv max_size = Inr (Fatal m)" by (auto simp: start_deduplicator_def)
    then have "start_program env iv max_size read_file = Inr None" by (simp add: start_program_def)
    then show ?thesis using small by (simp add: max_items_def dedup_min_max_size_def)
  next
    case short
    then obtain m where "start_deduplicator iv max_size = Inr (Fatal m)" by (auto simp: start_deduplicator_def)
    then have "start_program env iv max_size read_file = Inr None" by (simp add: start_program_def)
    then show ?thesis using short by simp
  next
    case min
    then have "start_deduplicator iv max_size = Inl (BugPanic ''interval must be greater'')"
      by (simp add: start_deduplicator_def new_deduplicator_def dedup_min_interval_def)
    then show ?thesis using min by (simp add: start_program_def)
  next
    case large
    have "0 < iv" using large(1) by (simp add: dedup_min_interval_def)
    then have "start_deduplicator iv max_size = Inl (BugPanic ''makeslice: len out of range'')"
      using new_deduplicator_too_large [OF large(2,3) assms large(1)] large by (simp add: start_deduplicator_def)
    then show ?thesis using large by (simp add: start_program_def)
  next
    case ok
    have "0 < iv" using ok(1) by (simp add: dedup_min_interval_def)
    then obtain d where "start_deduplicator iv max_size = Inr (Started d)"
      using new_deduplicator_ok [OF ok(2,3) ok(1)] ok by (auto simp: start_deduplicator_def)
    from after [OF this] ok show ?thesis by simp
  qed
qed

subsection \<open>Concrete instances\<close>

definition demo_run_env :: "snapshot list run_env" where
  "demo_run_env = \<lparr>re_http = demo_http, re_cpus = 2, re_parse = (\<lambda>_. Inl []), re_compile = (\<lambda>_. Inl []),
     re_unmarshal = demo_decoder, re_path = ''streams.yaml''\<rparr>"

lemma demo_env_ok: "env_ok demo_run_env"
  using demo_decoded demo_encodes
  by (simp add: env_ok_def demo_run_env_def demo_http_def demo_env_def demo_decoder_def)

theorem start_panics_exactly_witness:
  "(\<exists>p. start_program demo_run_env 30000000000 100000 (\<lambda>_. Inr ''streams'') = Inl p)
    \<and> (\<exists>p. start_program demo_run_env 60000000000 (10 ^ 16) (\<lambda>_. Inr ''streams'') = Inl p)
    \<and> (\<exists>r. start_program demo_run_env 60000000000 10000 (\<lambda>_. Inl ''gone'') = Inr r)
    \<and> (\<exists>p. start_program (demo_run_env\<lparr>re_unmarshal := \<lambda>_. Inr [(plain_config [])\<lparr>ec_buckets := 2 ^ 50\<rparr>]\<rparr>) 0 0 (\<lambda>_. Inr []) = Inl p)"
proof (intro conjI)
  have b: "(100000 :: int) < 2 ^ 63" "((10 :: int) ^ 16) < 2 ^ 63" "(10000 :: int) < 2 ^ 63" "(0 :: int) < 2 ^ 63" by simp_all
  note simps = dedup_min_interval_def dedup_min_max_size_def max_items_def
  show "\<exists>p. start_program demo_run_env 30000000000 100000 (\<lambda>_. Inr ''streams'') = Inl p"
    using start_panics_exactly [OF b(1), of demo_run_env 30000000000 "\<lambda>_. Inr ''streams''"] by (simp add: simps)
  show "\<exists>p. start_program demo_run_env 60000000000 (10 ^ 16) (\<lambda>_. Inr ''streams'') = Inl p"
    using start_panics_exactly [OF b(2), of demo_run_env 60000000000 "\<lambda>_. Inr ''streams''"] by (simp add: simps)
  have "\<not> (\<exists>cfg. read_streams demo_run_env (\<lambda>_. Inl ''gone'') = Inr cfg)"
    by (simp add: read_streams_def read_config_def demo_run_env_def)
  then have "\<not> (\<exists>p. start_program demo_run_env 60000000000 10000 (\<lambda>_. Inl ''gone'') = Inl p)"
    using start_panics_exactly [OF b(3), of demo_run_env 60000000000 "\<lambda>_. Inl ''gone''"] by (simp add: simps)
  then show "\<exists>r. start_program demo_run_env 60000000000 10000 (\<lambda>_. Inl ''gone'') = Inr r"
    by (cases "start_program demo_run_env 60000000000 10000 (\<lambda>_. Inl ''gone'')") simp_all
  let ?ec = "(plain_config [])\<lparr>ec_buckets := 2 ^ 50\<rparr>"
  let ?env = "demo_run_env\<lparr>re_unmarshal := \<lambda>_. Inr [?ec]\<rparr>"
  have "\<not> rejected_streams 2 [?ec]" by (simp add: rejected_streams_def bad_stream_def plain_config_def label_keyword_def)
  then have "prepare 2 [?ec] = Inr [normal_stream 2 ?ec]" using prepare_spec by auto
  then obtain h where r: "read_streams ?env (\<lambda>_. Inr []) = Inr \<lparr>cf_hash = h, cf_streams = [normal_stream 2 ?ec]\<rparr>"
    by (simp add: read_streams_def read_config_def demo_run_env_def)
  have "\<not> rejected_config (re_parse ?env) (re_compile ?env) (normal_stream 2 ?ec)"
    by (simp add: rejected_config_def normal_stream_alt apply_defaults_def plain_config_def normal_group_def compile_filters_def)
  moreover have "max_buckets < ec_buckets (normal_stream 2 ?ec)"
    by (simp add: normal_stream_alt apply_defaults_def plain_config_def max_buckets_def)
  ultimately show "\<exists>p. start_program ?env 0 0 (\<lambda>_. Inr []) = Inl p"
    using start_panics_exactly [OF b(4), of ?env 0 "\<lambda>_. Inr []"] r by simp
qed

lemma append_all_length:
  "fold_err (\<lambda>ys x. map_sum id (\<lambda>y. ys @ [y]) (f x)) acc xs = Inr ys \<Longrightarrow> length ys = length acc + length xs"
proof (induction xs arbitrary: acc)
  case (Cons x xs)
  then obtain y where "f x = Inr y" by (cases "f x") auto
  then have "fold_err (\<lambda>ys x. map_sum id (\<lambda>y. ys @ [y]) (f x)) (acc @ [y]) xs = Inr ys" using Cons.prems by (simp add: id_def)
  from Cons.IH [OF this] show ?case by simp
qed simp

lemma new_estimator_length:
  assumes "new_estimator cpus parse compile_re cfg = Inr e"
  shows "length (es_buckets e) = nat (ec_buckets (apply_defaults cpus cfg))" "es_cfg e = apply_defaults cpus cfg"
proof -
  obtain kw where kw: "new_buckets (apply_defaults cpus cfg) kw = Inr (es_buckets e)" and c: "es_cfg e = apply_defaults cpus cfg"
    using assms by (auto simp: new_estimator_def Let_def split: if_splits option.splits sum.splits)
  show "length (es_buckets e) = nat (ec_buckets (apply_defaults cpus cfg))"
    using append_all_length [OF kw [unfolded new_buckets_def]] by simp
  show "es_cfg e = apply_defaults cpus cfg" by (rule c)
qed

lemma demo_start: "\<exists>rl e. start_program demo_run_env 0 0 (\<lambda>_. Inr ''streams'') = Inr (Some rl) \<and> ap_estimators (rl_app rl) = [e] \<and> \<not> too_short e"
proof -
  obtain st P e where st: "load_config 2 (\<lambda>_. Inl []) (\<lambda>_. Inl []) [demo_stream] empty_app = Inr (st, Inr True)"
    "ap_estimators st = [e]" "new_estimator 2 (\<lambda>_. Inl []) (\<lambda>_. Inl []) demo_stream = Inr e" using demo_app by blast
  have "length (es_buckets e) = 4" "ec_interval (es_cfg e) = 300000000000"
    unfolding new_estimator_length [OF st(3)] by (simp_all add: demo_stream_def normal_stream_alt apply_defaults_def plain_config_def)
  then have short: "\<not> too_short e" by (simp add: too_short_def rotation_period_def go_quot_nonneg)
  have "\<not> rejected_streams 2 [plain_config [''job'']]"
    by (simp add: rejected_streams_def bad_stream_def plain_config_def label_keyword_def)
  then have "prepare 2 [plain_config [''job'']] = Inr [demo_stream]" using prepare_spec by (auto simp: demo_stream_def)
  then obtain h where "read_streams demo_run_env (\<lambda>_. Inr ''streams'') = Inr \<lparr>cf_hash = h, cf_streams = [demo_stream]\<rparr>"
    by (simp add: read_streams_def read_config_def demo_run_env_def demo_decoder_def)
  moreover have "initial_app None = empty_app" by (simp add: initial_app_def empty_app_def)
  ultimately show ?thesis using st short
    by (simp add: start_program_def start_deduplicator_def demo_run_env_def)
qed

theorem runs_never_panic_witness:
  "\<exists>rl rl'. start_program demo_run_env 0 0 (\<lambda>_. Inr ''streams'') = Inr (Some rl) \<and> ap_estimators (rl_app rl) \<noteq> []
    \<and> app_run demo_run_env rl
        [Rotate 0 0 0, Request (demo_request ''/api/v1/write'' ''?''), WakeReloader (\<lambda>_. Inr ''bad''),
         Request (demo_request ''/clusternative/query'' [])] = Inr rl'"
proof -
  obtain rl e where rl: "start_program demo_run_env 0 0 (\<lambda>_. Inr ''streams'') = Inr (Some rl)" "ap_estimators (rl_app rl) = [e]"
    "\<not> too_short e" using demo_start by blast
  let ?evs = "[Rotate 0 0 0, Request (demo_request ''/api/v1/write'' ''?''), WakeReloader (\<lambda>_. Inr ''bad''),
         Request (demo_request ''/clusternative/query'' [])]"
  have e: "\<forall>ev \<in> set ?evs. event_ok ev" by simp
  have later: "\<not> fatal_event demo_run_env rl' ev" if "ev \<in> set (tl ?evs)" for rl' ev
    using that by (auto simp: reset_path_def cut_prefix_def demo_request_def)
  have no: "False" if p: "?evs = pre @ ev # post" "app_run demo_run_env rl pre = Inr rl'" "fatal_event demo_run_env rl' ev" for pre ev post rl'
  proof (cases pre)
    case Nil
    then show ?thesis using p rl(2,3) by (auto simp: app_run_def)
  next
    case (Cons x xs)
    then have "ev \<in> set (tl ?evs)" using p(1) by simp
    then show ?thesis using later p(3) by blast
  qed
  have z: "(0 :: int) < 2 ^ 63" by simp
  from runs_never_panic [OF demo_env_ok z rl(1) e] have "\<exists>rl'. app_run demo_run_env rl ?evs = Inr rl'"
  proof (elim disjE)
    assume "\<exists>pre ev post rl' p. ?evs = pre @ ev # post \<and> app_run demo_run_env rl pre = Inr rl' \<and> run_ok rl'
      \<and> fatal_event demo_run_env rl' ev \<and> app_run demo_run_env rl ?evs = Inl p"
    then show ?thesis using no by (elim exE conjE) (rule FalseE)
  qed auto
  then show ?thesis using rl(1,2) by auto
qed

end
