(* ===== verification/Rotation_Window.thy ===== *)
theory Rotation_Window
  imports Estimator_Run
begin

section \<open>The rotation goroutine and the interval of a stream\<close>

text \<open>
  \<^verbatim>\<open>runRotation\<close> as a loop over events: it computes how long to wait for the next point of a grid, waits for
  its timer or for the stop, rotates a bucket and starts again.  Meanwhile requests are inserted.  Every event
  carries the time it happens at; the time between the start of the goroutine and the first computation of the
  wait is part of the first event.  What an estimator shows at a time is then compared with when the series
  were sent: the interval of a stream is a promise about that.
\<close>

record rotor =
  ro_est :: estimator
  ro_period :: int
  ro_bucket :: nat
  ro_due :: "int option"

datatype rotor_event =
    Request int u32 "time_serie list"
  | Fire int int
  | StopRotation

definition arm_timer :: "int \<Rightarrow> int \<Rightarrow> go_panic + int" where
  "arm_timer period now = map_sum id (\<lambda>w. now + w) (rotation_wait period now)"

text \<open>The goroutine up to its first wait, with the clock reading of the loop's first round.\<close>

definition start_rotation :: "estimator \<Rightarrow> duration \<Rightarrow> int \<Rightarrow> go_panic + rotor" where
  "start_rotation e interval now =
     (case rotation_period interval (length (es_buckets e)) of
        Inl p \<Rightarrow> Inl p
      | Inr period \<Rightarrow>
          map_sum id (\<lambda>due. \<lparr>ro_est = e, ro_period = period, ro_bucket = 0, ro_due = Some due\<rparr>) (arm_timer period now))"

text \<open>
  \<open>Fire t now\<close>: the timer is received at \<open>t\<close>, a bucket is rotated, and the next round reads the clock as \<open>now\<close>.
  After \<open>StopRotation\<close> the goroutine has returned and no timer is received.
\<close>

fun rotor_step :: "(string \<Rightarrow> u64) \<Rightarrow> rotor \<Rightarrow> rotor_event \<Rightarrow> go_panic + rotor" where
  "rotor_step sum64 r (Request t start tss) =
     map_sum id (\<lambda>e. r\<lparr>ro_est := e\<rparr>) (insert_many sum64 start (ro_est r) tss)"
| "rotor_step sum64 r (Fire t now) =
     (if ro_due r = None then Inr r
      else (case rotate_tick (ro_est r, ro_bucket r) of
              Inl p \<Rightarrow> Inl p
            | Inr (e, i) \<Rightarrow>
                map_sum id (\<lambda>due. r\<lparr>ro_est := e, ro_bucket := i, ro_due := Some due\<rparr>) (arm_timer (ro_period r) now)))"
| "rotor_step sum64 r StopRotation = Inr (r\<lparr>ro_due := None\<rparr>)"

subsection \<open>Generations of all buckets\<close>

text \<open>The two generations of a bucket as they concern a subject: everything, or one group.\<close>

definition concerns :: "u64 option \<Rightarrow> u64 \<Rightarrow> bool" where
  "concerns s key \<longleftrightarrow> (case s of None \<Rightarrow> True | Some k \<Rightarrow> key = k)"

definition gens :: "u64 option \<Rightarrow> bucket \<Rightarrow> generations" where
  "gens s eb = (case s of None \<Rightarrow> global_gens eb | Some k \<Rightarrow> group_gens eb k)"

text \<open>The subject fits the mode of the estimator.\<close>

definition subject_ok :: "u64 option \<Rightarrow> string list \<Rightarrow> bool" where
  "subject_ok s group_by \<longleftrightarrow> (s = None \<longleftrightarrow> group_by = [])"

text \<open>A global bucket takes every insertion, one with groups may turn insertions away.\<close>

definition gens_rel :: "u64 option \<Rightarrow> generations \<Rightarrow> generations \<Rightarrow> bool" where
  "gens_rel s a b \<longleftrightarrow> gens_le a b \<and> (s = None \<longrightarrow> a = b)"

lemma gens_rel_refl [simp]: "gens_rel s a a"
  by (simp add: gens_rel_def gens_le_def)

lemma gens_rel_trans: "gens_rel s a b \<Longrightarrow> gens_rel s b c \<Longrightarrow> gens_rel s a c"
  by (auto simp: gens_rel_def intro: gens_le_trans)

definition grow_cur :: "(nat \<times> nat) set \<Rightarrow> generations \<Rightarrow> generations" where
  "grow_cur X g = (fst g \<union> X, snd g)"

lemma grow_cur_simps [simp]: "grow_cur {} g = g" "grow_cur Y (grow_cur X g) = grow_cur (X \<union> Y) g"
  "fst (grow_cur X g) = fst g \<union> X" "snd (grow_cur X g) = snd g"
  by (auto simp: grow_cur_def)

lemma grow_cur_rel: "gens_rel s a b \<Longrightarrow> gens_rel s (grow_cur X a) (grow_cur X b)"
  by (auto simp: gens_rel_def gens_le_def)

definition ins_hits :: "nat \<Rightarrow> u64 option \<Rightarrow> insertion \<Rightarrow> (nat \<times> nat) set" where
  "ins_hits p s ins = (if concerns s (in_key ins) then fp_hits p (in_fp ins) else {})"

lemma eb_insert_gens:
  assumes "bucket_ok eb gs" and "group_size_ok gs" and "subject_ok s (eb_group_by eb)"
    and "eb_insert eb gs (in_fp ins) (in_key ins) vals = Inr (eb', gs')"
  shows "gens_rel s (gens s eb') (grow_cur (ins_hits (eb_precision eb) s ins) (gens s eb))"
proof (cases s)
  case None
  then have "eb_group_by eb = []" using assms(3) by (simp add: subject_ok_def)
  from global_bucket_refines [OF assms(1,2) this, of "Ins (in_fp ins) (in_key ins) vals"] assms(4)
  show ?thesis using None by (cases "global_gens eb") (auto simp: gens_def gens_rel_def gens_le_def grow_cur_def ins_hits_def concerns_def)
next
  case (Some k)
  then have "eb_group_by eb \<noteq> []" using assms(3) by (simp add: subject_ok_def)
  from group_bucket_refines [OF assms(1,2) this, of "Ins (in_fp ins) (in_key ins) vals"] assms(4)
  have "gens_le (group_gens eb' k) (gen_step (eb_precision eb) (\<lambda>j. j = k) (group_gens eb k) (Ins (in_fp ins) (in_key ins) vals))" by simp
  then show ?thesis using Some
    by (cases "group_gens eb k") (simp add: gens_def gens_rel_def gens_le_def grow_cur_def ins_hits_def concerns_def split: if_splits)
qed

text \<open>What insertions add to a bucket: those that belong to it.\<close>

definition added :: "nat \<Rightarrow> u64 option \<Rightarrow> estimator \<Rightarrow> nat \<Rightarrow> insertion list \<Rightarrow> (nat \<times> nat) set" where
  "added p s e j inss = \<Union> (ins_hits p s ` {ins \<in> set inss. own_index e (in_bucket_key ins) = j})"

lemma added_simps [simp]: "added p s e j [] = {}"
  "added p s e j (ins # inss) = (if own_index e (in_bucket_key ins) = j then ins_hits p s ins else {}) \<union> added p s e j inss"
proof -
  have "{i \<in> set (ins # inss). own_index e (in_bucket_key i) = j}
      = (if own_index e (in_bucket_key ins) = j then {ins} else {}) \<union> {i \<in> set inss. own_index e (in_bucket_key i) = j}" by auto
  then show "added p s e j (ins # inss) = (if own_index e (in_bucket_key ins) = j then ins_hits p s ins else {}) \<union> added p s e j inss"
    unfolding added_def by simp
qed (simp add: added_def)

lemma own_index_shell: "es_shell e' = es_shell e \<Longrightarrow> own_index e' = own_index e"
  by (simp add: es_shell_def own_index_def fun_eq_iff)

lemma added_shell: "es_shell e' = es_shell e \<Longrightarrow> added p s e' j inss = added p s e j inss"
  by (drule own_index_shell) (simp add: added_def)

lemma count_insert_gens:
  assumes "estimator_ok p e" and "insertion_for e ins" and "subject_ok s (es_group_by e)"
  shows "\<exists>e'. count_insert e ins = Inr e' \<and> estimator_ok p e' \<and> es_shell e' = es_shell e
    \<and> (\<forall>j < length (es_buckets e). gens_rel s (gens s (es_buckets e' ! j)) (grow_cur (added p s e j [ins]) (gens s (es_buckets e ! j))))"
proof -
  let ?i = "own_index e (in_bucket_key ins)"
  let ?eb = "es_buckets e ! ?i" and ?gs = "es_group_size e"
  have i: "?i < length (es_buckets e)" using own_index_less [OF assms(1)] .
  note bk = estimator_ok_bucket [OF assms(1) i]
  obtain e' where e': "count_insert e ins = Inr e'" "estimator_ok p e'" "es_shell e' = es_shell e"
    using count_insert_ok [OF assms(1,2)] by blast
  obtain eb' gs' where r: "eb_insert ?eb ?gs (in_fp ins) (in_key ins) (in_values ins) = Inr (eb', gs')"
    using eb_insert_any [OF bk(1) estimator_okD(3) [OF assms(1)]] by blast
  have "es_buckets e' = (es_buckets e)[?i := eb']"
    using e'(1) r i by (auto simp: count_insert_def es_insert_def bucket_index_own [OF assms(1)] with_bucket_def)
  moreover have "gens_rel s (gens s eb') (grow_cur (ins_hits p s ins) (gens s ?eb))"
    using eb_insert_gens [OF bk(1) estimator_okD(3) [OF assms(1)] _ r] assms(3) bk(3,4) by simp
  ultimately show ?thesis using e' i by (auto simp: nth_list_update)
qed

lemma count_inserts_gens:
  assumes "estimator_ok p e" and "\<forall>ins \<in> set inss. insertion_for e ins" and "subject_ok s (es_group_by e)"
  shows "\<exists>e'. fold_err count_insert e inss = Inr e' \<and> estimator_ok p e' \<and> es_shell e' = es_shell e
    \<and> (\<forall>j < length (es_buckets e). gens_rel s (gens s (es_buckets e' ! j)) (grow_cur (added p s e j inss) (gens s (es_buckets e ! j))))"
  using assms
proof (induction inss arbitrary: e)
  case Nil
  then show ?case by simp
next
  case (Cons ins inss)
  obtain e1 where e1: "count_insert e ins = Inr e1" "estimator_ok p e1" "es_shell e1 = es_shell e"
    and g1: "\<forall>j < length (es_buckets e). gens_rel s (gens s (es_buckets e1 ! j)) (grow_cur (added p s e j [ins]) (gens s (es_buckets e ! j)))"
    using count_insert_gens [OF Cons.prems(1) _ Cons.prems(3), of ins] Cons.prems(2) by auto
  note set1 = same_settings_shell [OF e1(3)]
  have "\<forall>ins \<in> set inss. insertion_for e1 ins" using Cons.prems(2) same_settings_insertions(3) [OF set1] by simp
  moreover have "subject_ok s (es_group_by e1)" using Cons.prems(3) es_shell_group_by [OF e1(3)] by simp
  ultimately obtain e' where e': "fold_err count_insert e1 inss = Inr e'" "estimator_ok p e'" "es_shell e' = es_shell e1"
    and g2: "\<forall>j < length (es_buckets e1). gens_rel s (gens s (es_buckets e' ! j)) (grow_cur (added p s e1 j inss) (gens s (es_buckets e1 ! j)))"
    using Cons.IH [OF e1(2)] by blast
  have "gens_rel s (gens s (es_buckets e' ! j)) (grow_cur (added p s e j (ins # inss)) (gens s (es_buckets e ! j)))"
    if "j < length (es_buckets e)" for j
  proof -
    have "gens_rel s (gens s (es_buckets e' ! j)) (grow_cur (added p s e j inss) (gens s (es_buckets e1 ! j)))"
      using g2 that es_shell_length [OF e1(3)] added_shell [OF e1(3)] by simp
    from gens_rel_trans [OF this grow_cur_rel [OF g1 [rule_format, OF that]]] show ?thesis by (simp add: Un_commute)
  qed
  then show ?case using e1(1,3) e'(1-3) by simp
qed

lemma insert_many_gens:
  assumes "estimator_ok p e" and "start_ok start tss" and "subject_ok s (es_group_by e)"
  shows "\<exists>e'. insert_many sum64 start e tss = Inr e' \<and> estimator_ok p e' \<and> es_shell e' = es_shell e
    \<and> (\<forall>j < length (es_buckets e). gens_rel s (gens s (es_buckets e' ! j))
          (grow_cur (added p s e j (request_insertions sum64 e tss)) (gens s (es_buckets e ! j))))"
proof -
  let ?inss = "request_insertions sum64 e (visit_order start tss)"
  have "\<forall>ins \<in> set ?inss. insertion_for e ins"
    using serie_insertions_keys [of e _ sum64] by (auto simp: insertion_for_def request_insertions_def)
  from count_inserts_gens [OF assms(1) this assms(3)] show ?thesis
    by (simp add: insert_many_flat [OF assms(1)] added_def request_insertions_order(1) [OF assms(2)])
qed

lemma rotate_tick_gens:
  assumes "estimator_ok p e" and "i < length (es_buckets e)"
  shows "\<exists>e'. rotate_tick (e, i) = Inr (e', (i + 1) mod length (es_buckets e)) \<and> estimator_ok p e' \<and> es_shell e' = es_shell e
    \<and> (\<forall>j < length (es_buckets e). gens s (es_buckets e' ! j)
          = (if j = i then ({}, fst (gens s (es_buckets e ! j))) else gens s (es_buckets e ! j)))"
proof -
  note bk = estimator_ok_bucket [OF assms]
  obtain eb' gs' where r: "eb_rotate (es_buckets e ! i) (es_group_size e) = Inr (eb', gs')"
    "bucket_step_ok (es_buckets e ! i) (es_group_size e) eb' gs'" "tracked eb' \<subseteq> tracked (es_buckets e ! i)"
    "global_gens eb' = ({}, fst (global_gens (es_buckets e ! i)))" "\<forall>k. group_gens eb' k = ({}, fst (group_gens (es_buckets e ! i) k))"
    using eb_rotate_any [OF bk(1) estimator_okD(3) [OF assms(1)]] by blast
  have own: "\<forall>k \<in> tracked eb'. own_index e k = i" using r(3) bk(5) by blast
  note w = with_bucket_ok [where f = eb_rotate, OF assms r(1,2) own]
  then show ?thesis using assms(2) r(4,5) es_shell_length
    by (auto simp: rotate_tick_def gens_def nth_list_update split: option.splits)
qed

subsection \<open>Runs on time\<close>

text \<open>
  What is assumed of the clock and the timers, from a reading of the clock on and up to the time \<open>T\<close>, where the
  timer runs until \<open>due\<close>: time does not run backwards, a timer is received less than \<open>delay\<close> late, and when a
  bucket has been rotated and the clock is read again, it has moved on past \<open>due\<close>.
\<close>

fun on_time :: "int \<Rightarrow> int \<Rightarrow> int \<Rightarrow> int \<Rightarrow> rotor_event list \<Rightarrow> int \<Rightarrow> bool" where
  "on_time period delay clock due [] T \<longleftrightarrow> clock \<le> T \<and> T < due + delay"
| "on_time period delay clock due (Request t start tss # evs) T \<longleftrightarrow>
     clock \<le> t \<and> t < due + delay \<and> start_ok start tss \<and> on_time period delay t due evs T"
| "on_time period delay clock due (Fire t now # evs) T \<longleftrightarrow>
     clock \<le> t \<and> due \<le> t \<and> t \<le> now \<and> due < now \<and> now < due + delay \<and> on_time period delay now (due + period) evs T"
| "on_time period delay clock due (StopRotation # evs) T \<longleftrightarrow> False"

lemma arm_next:
  assumes "0 < period" and "0 \<le> due" and "period dvd due" and "due < now" and "now < due + period"
  shows "arm_timer period now = Inr (due + period)"
proof -
  obtain q where q: "due = period * q" using assms(3) ..
  have "now = period * q + (now - due)" "0 \<le> now - due" "now - due < period" using q assms(4,5) by simp_all
  then have m: "now mod period = now - due" by (metis mod_mult_self4 mod_pos_pos_trivial)
  have "go_rem now period = now - due" using assms(1,2,4) m by (simp add: go_rem_nonneg)
  then show ?thesis using assms(1,4) by (simp add: arm_timer_def rotation_wait_def Let_def)
qed

lemma arm_first:
  assumes "0 < period" and "0 \<le> now"
  shows "\<exists>due. arm_timer period now = Inr due \<and> period dvd due \<and> now \<le> due \<and> due < now + period"
proof -
  have r: "go_rem now period = now mod period" using assms by (simp add: go_rem_nonneg)
  have "now + (period - now mod period) = period * (now div period + 1)"
    using mult_div_mod_eq [of period now] by (simp add: algebra_simps)
  then have d: "period dvd now + (period - now mod period)" by (metis dvd_triv_left)
  have b: "0 \<le> now mod period" "now mod period < period" using assms(1) by simp_all
  show ?thesis
  proof (cases "now mod period = 0")
    case True
    then show ?thesis using assms(1) r by (auto simp: arm_timer_def rotation_wait_def Let_def)
  next
    case False
    then show ?thesis using assms(1) r d b by (simp add: arm_timer_def rotation_wait_def Let_def)
  qed
qed

text \<open>When the next rotation of bucket \<open>j\<close> is due: the buckets take turns.\<close>

definition turn :: "nat \<Rightarrow> nat \<Rightarrow> nat \<Rightarrow> nat" where
  "turn n i j = (j + n - i) mod n"

lemma turn_less: "0 < n \<Longrightarrow> turn n i j < n"
  by (simp add: turn_def)

lemma turn_next:
  assumes "i < n" and "j < n"
  shows "turn n ((i + 1) mod n) j = (if j = i then n - 1 else turn n i j - 1)" and "j \<noteq> i \<Longrightarrow> 0 < turn n i j"
    and "turn n i i = 0"
proof -
  have t: "turn n i j = (if i \<le> j then j - i else j + n - i)" if "i < n" for i
  proof (cases "i \<le> j")
    case True
    then have e: "j + n - i = (j - i) + n" by simp
    have "(j + n - i) mod n = (j - i) mod n" unfolding e by (rule mod_add_self2)
    then show ?thesis using True assms(2) by (simp add: turn_def)
  qed (use that in \<open>simp add: turn_def\<close>)
  show "turn n i i = 0" by (simp add: turn_def)
  show "j \<noteq> i \<Longrightarrow> 0 < turn n i j" using t [OF assms(1)] assms by simp
  have "(i + 1) mod n < n" using assms(1) by (intro mod_less_divisor) simp
  moreover have "(i + 1) mod n = (if i = n - 1 then 0 else i + 1)" using assms(1) by simp
  ultimately show "turn n ((i + 1) mod n) j = (if j = i then n - 1 else turn n i j - 1)"
    using t [of "(i + 1) mod n"] t [OF assms(1)] assms by (auto split: if_splits)
qed

definition next_rotation :: "int \<Rightarrow> nat \<Rightarrow> int \<Rightarrow> nat \<Rightarrow> nat \<Rightarrow> int" where
  "next_rotation period n due i j = due + int (turn n i j) * period"

lemma next_rotation_step:
  assumes "i < n" and "j < n"
  shows "next_rotation period n (due + period) ((i + 1) mod n) j
    = (if j = i then due + int n * period else next_rotation period n due i j)"
proof (cases "j = i")
  case True
  then have "int (n - 1) = int n - 1" using assms(1) by (simp add: of_nat_diff)
  then show ?thesis using True turn_next(1) [OF assms] by (simp add: next_rotation_def algebra_simps)
next
  case False
  then have "int (turn n i j - 1) = int (turn n i j) - 1" using turn_next(2) [OF assms False] by (simp add: of_nat_diff)
  then show ?thesis using False turn_next(1) [OF assms] by (simp add: next_rotation_def algebra_simps)
qed

lemma next_rotation_bounds:
  assumes "0 < n" and "0 < period"
  shows "due \<le> next_rotation period n due i j" and "next_rotation period n due i j \<le> due + (int n - 1) * period"
proof -
  have "int (turn n i j) \<le> int n - 1" using turn_less [OF assms(1), of i j] by linarith
  then show "next_rotation period n due i j \<le> due + (int n - 1) * period"
    using assms(2) by (simp add: next_rotation_def mult_right_mono)
qed (use assms in \<open>simp add: next_rotation_def\<close>)

subsection \<open>What is shown when\<close>

text \<open>A log of insertions: when, into which bucket, and what they add.\<close>

fun entries :: "(string \<Rightarrow> u64) \<Rightarrow> nat \<Rightarrow> u64 option \<Rightarrow> estimator \<Rightarrow> rotor_event \<Rightarrow> (int \<times> nat \<times> nat \<times> nat) set" where
  "entries sum64 p s e (Request t start tss) =
     (\<Union>ins \<in> set (request_insertions sum64 e tss). {t} \<times> {own_index e (in_bucket_key ins)} \<times> ins_hits p s ins)"
| "entries sum64 p s e _ = {}"

definition logged :: "(int \<times> nat \<times> nat \<times> nat) set \<Rightarrow> nat \<Rightarrow> (int \<Rightarrow> bool) \<Rightarrow> (nat \<times> nat) set" where
  "logged lg j P = {h. \<exists>t. P t \<and> (t, j, h) \<in> lg}"

lemma logged_Un [simp]: "logged (lg1 \<union> lg2) j P = logged lg1 j P \<union> logged lg2 j P"
  by (auto simp: logged_def)

lemma logged_mono: "(\<And>t. P t \<Longrightarrow> Q t) \<Longrightarrow> logged lg j P \<subseteq> logged lg j Q"
  by (auto simp: logged_def)

lemma logged_entries:
  "logged (entries sum64 p s e (Request t start tss)) j P = (if P t then added p s e j (request_insertions sum64 e tss) else {})"
  by (auto simp: logged_def added_def)

text \<open>
  One bucket, with its next rotation at \<open>nxt\<close> and a whole cycle of \<open>cycle\<close>: its generations hold nothing older
  than the grid points of its last two rotations; and, if nothing is turned away, all that is newer by the delay.
\<close>

definition in_window :: "u64 option \<Rightarrow> int \<Rightarrow> int \<Rightarrow> int \<Rightarrow> nat \<Rightarrow> (int \<times> nat \<times> nat \<times> nat) set \<Rightarrow> generations \<Rightarrow> bool" where
  "in_window s cycle delay nxt j lg g \<longleftrightarrow>
     fst g \<subseteq> logged lg j (\<lambda>t. nxt - cycle \<le> t) \<and> snd g \<subseteq> logged lg j (\<lambda>t. nxt - 2 * cycle \<le> t)
     \<and> (s = None \<longrightarrow> logged lg j (\<lambda>t. nxt - cycle + delay \<le> t) \<subseteq> fst g
          \<and> logged lg j (\<lambda>t. nxt - 2 * cycle + delay \<le> t) \<subseteq> fst g \<union> snd g)"

lemma in_window_grow:
  assumes "in_window s cycle delay nxt j lg g" and "gens_rel s g' (grow_cur (logged lg' j (\<lambda>_. True)) g)"
    and "\<And>t j h. (t, j, h) \<in> lg' \<Longrightarrow> nxt - cycle \<le> t"
  shows "in_window s cycle delay nxt j (lg \<union> lg') g'"
proof -
  let ?N = "logged lg' j (\<lambda>_. True)"
  have n: "?N \<subseteq> logged lg' j (\<lambda>t. nxt - cycle \<le> t)"
    unfolding logged_def using assms(3) by (intro subsetI CollectI) fast
  have le: "logged lg' j P \<subseteq> ?N" for P by (rule logged_mono) simp
  have g: "fst g' \<subseteq> fst g \<union> ?N" "snd g' \<subseteq> snd g" "s = None \<Longrightarrow> g' = grow_cur ?N g"
    using assms(2) by (auto simp: gens_rel_def gens_le_def)
  have "fst g' \<subseteq> logged (lg \<union> lg') j (\<lambda>t. nxt - cycle \<le> t)" "snd g' \<subseteq> logged (lg \<union> lg') j (\<lambda>t. nxt - 2 * cycle \<le> t)"
    using g(1,2) n assms(1) unfolding in_window_def logged_Un by blast+
  moreover have "logged (lg \<union> lg') j (\<lambda>t. nxt - cycle + delay \<le> t) \<subseteq> fst g'"
    "logged (lg \<union> lg') j (\<lambda>t. nxt - 2 * cycle + delay \<le> t) \<subseteq> fst g' \<union> snd g'" if "s = None"
    using assms(1) that le unfolding g(3) [OF that] in_window_def logged_Un grow_cur_simps by blast+
  ultimately show ?thesis by (simp add: in_window_def)
qed

lemma in_window_rotate:
  assumes "in_window s cycle delay nxt j lg g" and "\<And>t j h. (t, j, h) \<in> lg \<Longrightarrow> t < nxt + delay"
  shows "in_window s cycle delay (nxt + cycle) j lg ({}, fst g)"
proof -
  have "logged lg j (\<lambda>t. nxt + delay \<le> t) = {}" using assms(2) by (fastforce simp: logged_def)
  moreover have "nxt + cycle - cycle + delay = nxt + delay" "nxt + cycle - 2 * cycle = nxt - cycle" by simp_all
  ultimately show ?thesis using assms(1) unfolding in_window_def by simp
qed

text \<open>The state of the goroutine and the estimator after a run on time that has reached \<open>clock\<close>.\<close>

definition rotor_ok ::
  "nat \<Rightarrow> u64 option \<Rightarrow> estimator \<Rightarrow> int \<Rightarrow> rotor \<Rightarrow> int \<Rightarrow> int \<Rightarrow> (int \<times> nat \<times> nat \<times> nat) set \<Rightarrow> bool" where
  "rotor_ok p s e0 delay r clock due lg \<longleftrightarrow>
     estimator_ok p (ro_est r) \<and> es_shell (ro_est r) = es_shell e0 \<and> subject_ok s (es_group_by e0)
     \<and> ro_bucket r < length (es_buckets e0) \<and> ro_due r = Some due \<and> 0 < ro_period r \<and> 0 \<le> due \<and> ro_period r dvd due
     \<and> due \<le> clock + ro_period r \<and> (\<forall>(t, j, h) \<in> lg. t \<le> clock)
     \<and> (\<forall>j < length (es_buckets e0). in_window s (int (length (es_buckets e0)) * ro_period r) delay
          (next_rotation (ro_period r) (length (es_buckets e0)) due (ro_bucket r) j) j lg (gens s (es_buckets (ro_est r) ! j)))"

lemma entries_shell:
  assumes "es_shell e' = es_shell e"
  shows "entries sum64 p s e' ev = entries sum64 p s e ev"
proof -
  have "serie_insertions sum64 e' = serie_insertions sum64 e"
    using same_settings_insertions(1) [OF same_settings_shell [OF assms]] by (intro ext)
  then have "request_insertions sum64 e' tss = request_insertions sum64 e tss" for tss
    by (simp add: request_insertions_def)
  then show ?thesis using own_index_shell [OF assms] by (cases ev) simp_all
qed

lemma rotor_request:
  assumes "rotor_ok p s e0 delay r clock due lg" and "clock \<le> t" and "start_ok start tss"
  shows "\<exists>r'. rotor_step sum64 r (Request t start tss) = Inr r' \<and> ro_period r' = ro_period r
    \<and> rotor_ok p s e0 delay r' t due (lg \<union> entries sum64 p s e0 (Request t start tss))"
proof -
  let ?n = "length (es_buckets e0)" and ?e = "ro_est r" and ?new = "entries sum64 p s e0 (Request t start tss)"
  note ok = assms(1) [unfolded rotor_ok_def]
  have e: "estimator_ok p ?e" "es_shell ?e = es_shell e0" "subject_ok s (es_group_by ?e)" "length (es_buckets ?e) = ?n"
    using ok es_shell_group_by [of ?e e0] es_shell_length [of ?e e0] by auto
  obtain e' where e': "insert_many sum64 start ?e tss = Inr e'" "estimator_ok p e'" "es_shell e' = es_shell ?e"
    and g: "\<forall>j < ?n. gens_rel s (gens s (es_buckets e' ! j)) (grow_cur (added p s ?e j (request_insertions sum64 ?e tss)) (gens s (es_buckets ?e ! j)))"
    using insert_many_gens [OF e(1) assms(3) e(3), of sum64] unfolding e(4) by blast
  have n: "0 < ?n" and per: "0 < ro_period r" and due: "due \<le> clock + ro_period r" using ok by auto
  have "in_window s (int ?n * ro_period r) delay (next_rotation (ro_period r) ?n due (ro_bucket r) j) j (lg \<union> ?new) (gens s (es_buckets e' ! j))"
    if j: "j < ?n" for j
  proof (rule in_window_grow)
    show "in_window s (int ?n * ro_period r) delay (next_rotation (ro_period r) ?n due (ro_bucket r) j) j lg (gens s (es_buckets ?e ! j))"
      using ok j by blast
    have "logged ?new j (\<lambda>_. True) = added p s ?e j (request_insertions sum64 ?e tss)"
      unfolding entries_shell [OF e(2), symmetric] logged_entries by simp
    then show "gens_rel s (gens s (es_buckets e' ! j)) (grow_cur (logged ?new j (\<lambda>_. True)) (gens s (es_buckets ?e ! j)))"
      using g j by simp
    show "next_rotation (ro_period r) ?n due (ro_bucket r) j - int ?n * ro_period r \<le> t'" if "(t', j', h) \<in> ?new" for t' j' h
      using that next_rotation_bounds(2) [OF n per, of due "ro_bucket r" j] due assms(2) by (auto simp: algebra_simps)
  qed
  moreover have "\<forall>(t', j, h) \<in> lg \<union> ?new. t' \<le> t" using ok assms(2) by fastforce
  ultimately have "rotor_ok p s e0 delay (r\<lparr>ro_est := e'\<rparr>) t due (lg \<union> ?new)"
    using ok e'(2,3) assms(2) by (simp add: rotor_ok_def)
  then show ?thesis using e'(1) by simp
qed

lemma rotor_fire:
  assumes "rotor_ok p s e0 delay r clock due lg" and "clock \<le> t" and "due \<le> t" and "t \<le> now" and "due < now"
    and "now < due + delay" and "delay \<le> ro_period r"
  shows "\<exists>r'. rotor_step sum64 r (Fire t now) = Inr r' \<and> ro_period r' = ro_period r
    \<and> rotor_ok p s e0 delay r' now (due + ro_period r) lg"
proof -
  let ?n = "length (es_buckets e0)" and ?e = "ro_est r" and ?i = "ro_bucket r" and ?p = "ro_period r"
  note ok = assms(1) [unfolded rotor_ok_def]
  have e: "estimator_ok p ?e" "es_shell ?e = es_shell e0" "length (es_buckets ?e) = ?n" and i: "?i < ?n"
    using ok es_shell_length [of ?e e0] by auto
  obtain e' where e': "rotate_tick (?e, ?i) = Inr (e', (?i + 1) mod ?n)" "estimator_ok p e'" "es_shell e' = es_shell ?e"
    and g: "\<forall>j < ?n. gens s (es_buckets e' ! j) = (if j = ?i then ({}, fst (gens s (es_buckets ?e ! j))) else gens s (es_buckets ?e ! j))"
    using rotate_tick_gens [OF e(1), of ?i s] i unfolding e(3) by blast
  have arm: "arm_timer ?p now = Inr (due + ?p)" using arm_next [of ?p due now] ok assms(5-7) by simp
  have lg: "t' < due + delay" if "(t', j, h) \<in> lg" for t' j h using ok that assms(2,4,6) by fastforce
  have "in_window s (int ?n * ?p) delay (next_rotation ?p ?n (due + ?p) ((?i + 1) mod ?n) j) j lg (gens s (es_buckets e' ! j))"
    if j: "j < ?n" for j
  proof (cases "j = ?i")
    case True
    have "next_rotation ?p ?n due ?i j = due" using True turn_next(3) [OF i i] by (simp add: next_rotation_def)
    then have "in_window s (int ?n * ?p) delay due j lg (gens s (es_buckets ?e ! j))" using ok j by metis
    from in_window_rotate [OF this lg] show ?thesis using next_rotation_step [OF i j, of ?p due] True g j by simp
  next
    case False
    then show ?thesis using ok j g next_rotation_step [OF i j, of ?p due] by simp
  qed
  moreover have "(?i + 1) mod ?n < ?n" using i by (intro mod_less_divisor) linarith
  moreover have "\<forall>(t', j, h) \<in> lg. t' \<le> now" using ok assms(2,4) by fastforce
  ultimately have "rotor_ok p s e0 delay (r\<lparr>ro_est := e', ro_bucket := (?i + 1) mod ?n, ro_due := Some (due + ?p)\<rparr>) now (due + ?p) lg"
    using ok e'(2,3) assms(5) by (simp add: rotor_ok_def)
  then show ?thesis using e'(1) arm ok by simp
qed

lemma rotor_run:
  assumes "rotor_ok p s e0 delay r clock due lg" and "on_time (ro_period r) delay clock due evs T" and "delay \<le> ro_period r"
  shows "\<exists>r' due'. fold_err (rotor_step sum64) r evs = Inr r' \<and> ro_period r' = ro_period r \<and> T < due' + delay
    \<and> rotor_ok p s e0 delay r' T due' (lg \<union> (\<Union>ev \<in> set evs. entries sum64 p s e0 ev))"
  using assms
proof (induction evs arbitrary: r clock due lg)
  case Nil
  then have "rotor_ok p s e0 delay r T due lg" by (fastforce simp: rotor_ok_def)
  then show ?case using Nil by auto
next
  case (Cons ev evs)
  show ?case
  proof (cases ev)
    case (Request t start tss)
    have t: "clock \<le> t" "start_ok start tss" "on_time (ro_period r) delay t due evs T" using Cons.prems(2) Request by simp_all
    obtain r1 where r1: "rotor_step sum64 r ev = Inr r1" "ro_period r1 = ro_period r"
      "rotor_ok p s e0 delay r1 t due (lg \<union> entries sum64 p s e0 ev)"
      using rotor_request [OF Cons.prems(1) t(1,2), of sum64] Request by blast
    from Cons.IH [OF r1(3)] t(3) Cons.prems(3) r1(1,2) show ?thesis by (auto simp: Un_assoc)
  next
    case (Fire t now)
    have f: "clock \<le> t" "due \<le> t" "t \<le> now" "due < now" "now < due + delay" "on_time (ro_period r) delay now (due + ro_period r) evs T"
      using Cons.prems(2) Fire by simp_all
    obtain r1 where r1: "rotor_step sum64 r ev = Inr r1" "ro_period r1 = ro_period r"
      "rotor_ok p s e0 delay r1 now (due + ro_period r) lg"
      using rotor_fire [OF Cons.prems(1) f(1-5) Cons.prems(3), of sum64] Fire by blast
    from Cons.IH [OF r1(3)] f(6) Cons.prems(3) r1(1,2) show ?thesis by (auto simp: Fire)
  next
    case StopRotation
    then show ?thesis using Cons.prems(2) by simp
  qed
qed

subsection \<open>The start of the goroutine\<close>

lemma start_rotation_ok:
  assumes "fresh_estimator cfg e" and "subject_ok s (ec_group_by cfg)" and "start_rotation e interval now = Inr r"
    and "0 < interval" and "0 \<le> now"
  shows "\<exists>due. ro_due r = Some due \<and> rotor_ok (effective_precision cfg) s e delay r now due {}"
    and "2 * int (length (es_buckets e)) * ro_period r \<le> interval"
    and "interval div 2 < int (length (es_buckets e)) * ro_period r + int (length (es_buckets e))"
proof -
  let ?n = "length (es_buckets e)"
  have ok: "estimator_ok (effective_precision cfg) e" "es_group_by e = ec_group_by cfg" "es_global_hits e = {}" "\<forall>k. es_group_hits e k = {}"
    using assms(1) by (auto simp: fresh_estimator_def)
  have n: "0 < ?n" using estimator_okD(1) [OF ok(1)] by simp
  define period where "period = interval div 2 div int ?n"
  have "rotation_period interval ?n = Inr period"
    using n assms(4) by (simp add: rotation_period_def go_quot_nonneg period_def)
  then obtain due where due: "arm_timer period now = Inr due" and r: "r = \<lparr>ro_est = e, ro_period = period, ro_bucket = 0, ro_due = Some due\<rparr>"
    using assms(3) by (auto simp: start_rotation_def map_sum_Inr)
  have "period \<noteq> 0" using due by (auto simp: arm_timer_def rotation_wait_def)
  moreover have "0 \<le> period" using assms(4) n unfolding period_def by (simp add: div_int_pos_iff)
  ultimately have per: "0 < period" by simp
  have d: "period dvd due" "now \<le> due" "due < now + period" using arm_first [OF per assms(5)] due by auto
  have g: "gens s (es_buckets e ! j) = ({}, {})" if j: "j < ?n" for j
  proof (cases s)
    case None
    have "global_hits (es_buckets e ! j) = {}" using ok(3) j by (auto simp: es_global_hits_def)
    then show ?thesis using None by (simp add: gens_def es_hits_gens prod_eq_iff)
  next
    case (Some k)
    have bk: "bucket_ok (es_buckets e ! j) (es_group_size e)" "\<forall>k \<in> tracked (es_buckets e ! j). own_index e k = j"
      using estimator_ok_bucket [OF ok(1) j] by blast+
    have "group_hits (es_buckets e ! j) k = {}"
    proof (cases "own_index e k = j")
      case True
      then show ?thesis using ok(4) by (auto simp: es_group_hits_def)
    next
      case False
      then have "k \<notin> tracked (es_buckets e ! j)" using bk(2) by blast
      then have "map_of (eb_groups (es_buckets e ! j)) k = None" "map_of (eb_prev_groups (es_buckets e ! j)) k = None"
        by (simp_all add: tracked_def map_of_not_in_keys)
      then show ?thesis by (simp add: group_hits_def key_group_hits_def opt_hits_def)
    qed
    then show ?thesis using Some by (simp add: gens_def es_hits_gens prod_eq_iff)
  qed
  have "rotor_ok (effective_precision cfg) s e delay r now due {}"
    using ok(1,2) assms(2,5) n per d g unfolding rotor_ok_def r by (simp add: in_window_def logged_def)
  then show "\<exists>due. ro_due r = Some due \<and> rotor_ok (effective_precision cfg) s e delay r now due {}" using r by simp
  have "int ?n * period + interval div 2 mod int ?n = interval div 2" unfolding period_def by (rule mult_div_mod_eq)
  moreover have "0 \<le> interval div 2 mod int ?n" "interval div 2 mod int ?n < int ?n" using n by simp_all
  ultimately have "int ?n * period \<le> interval div 2" "interval div 2 < int ?n * period + int ?n" by linarith+
  then show "2 * int ?n * ro_period r \<le> interval" "interval div 2 < int ?n * ro_period r + int ?n" unfolding r by simp_all
qed

text \<open>Where a rotor that is valid at \<open>T\<close> puts the bounds of what its buckets show.\<close>

lemma window_bounds:
  assumes "rotor_ok p s e delay r T due lg" and "T < due + delay" and "j < length (es_buckets e)"
    and "2 * int (length (es_buckets e)) * ro_period r \<le> interval"
    and "interval div 2 < int (length (es_buckets e)) * ro_period r + int (length (es_buckets e))"
  shows "fst (gens s (es_buckets (ro_est r) ! j)) \<union> snd (gens s (es_buckets (ro_est r) ! j)) \<subseteq> logged lg j (\<lambda>t. T - interval - delay < t)"
    and "s = None \<Longrightarrow> logged lg j (\<lambda>t. T - interval div 2 + int (length (es_buckets e)) + delay \<le> t)
      \<subseteq> fst (gens s (es_buckets (ro_est r) ! j)) \<union> snd (gens s (es_buckets (ro_est r) ! j))"
proof -
  let ?n = "length (es_buckets e)" and ?g = "gens s (es_buckets (ro_est r) ! j)"
  let ?nxt = "next_rotation (ro_period r) ?n due (ro_bucket r) j" and ?c = "int ?n * ro_period r"
  have w: "in_window s ?c delay ?nxt j lg ?g" and per: "0 < ro_period r" and due: "due \<le> T + ro_period r"
    using assms(1,3) by (simp_all add: rotor_ok_def)
  have n: "0 < ?n" using assms(3) by linarith
  note b = next_rotation_bounds [OF n per, of due "ro_bucket r" j]
  have c: "0 < ?c" using n per by simp
  have lo: "T - interval - delay < t" if "?nxt - 2 * ?c \<le> t" for t using that b(1) assms(2,4) by linarith
  have "(int ?n - 1) * ro_period r = ?c - ro_period r" by (simp add: algebra_simps)
  then have hi: "?nxt - 2 * ?c + delay \<le> t" if "T - interval div 2 + int ?n + delay \<le> t" for t using that b(2) due assms(5) by linarith
  have "logged lg j (\<lambda>t. ?nxt - ?c \<le> t) \<subseteq> logged lg j (\<lambda>t. T - interval - delay < t)" by (rule logged_mono) (use lo c in force)
  moreover have "logged lg j (\<lambda>t. ?nxt - 2 * ?c \<le> t) \<subseteq> logged lg j (\<lambda>t. T - interval - delay < t)" by (rule logged_mono) (rule lo)
  ultimately show "fst ?g \<union> snd ?g \<subseteq> logged lg j (\<lambda>t. T - interval - delay < t)" using w unfolding in_window_def by blast
  show "logged lg j (\<lambda>t. T - interval div 2 + int ?n + delay \<le> t) \<subseteq> fst ?g \<union> snd ?g" if "s = None"
    using w that logged_mono [of _ "\<lambda>t. ?nxt - 2 * ?c + delay \<le> t" lg j, OF hi] unfolding in_window_def by blast
qed

text \<open>The series a filter selects, and the insertions of a group, in the requests at certain times.\<close>

definition series_seen :: "nat \<Rightarrow> compiled_filter \<Rightarrow> (int \<Rightarrow> bool) \<Rightarrow> rotor_event list \<Rightarrow> (nat \<times> nat) set" where
  "series_seen p flt P evs = {h. \<exists>t start tss. Request t start tss \<in> set evs \<and> P t
     \<and> (\<exists>ts \<in> set tss. filters_match flt (ts_labels ts) = Inr True \<and> h \<in> fp_hits p (ts_fingerprint ts))}"

definition group_seen ::
  "(string \<Rightarrow> u64) \<Rightarrow> nat \<Rightarrow> estimator \<Rightarrow> u64 \<Rightarrow> (int \<Rightarrow> bool) \<Rightarrow> rotor_event list \<Rightarrow> (nat \<times> nat) set" where
  "group_seen sum64 p e k P evs = {h. \<exists>t start tss. Request t start tss \<in> set evs \<and> P t
     \<and> (\<exists>ins \<in> set (request_insertions sum64 e tss). in_key ins = k \<and> h \<in> fp_hits p (in_fp ins))}"

lemma logged_run:
  "h \<in> logged (\<Union>ev \<in> set evs. entries sum64 p s e ev) j P \<longleftrightarrow>
     (\<exists>t start tss. Request t start tss \<in> set evs \<and> P t
        \<and> (\<exists>ins \<in> set (request_insertions sum64 e tss). own_index e (in_bucket_key ins) = j \<and> h \<in> ins_hits p s ins))"
proof -
  have "(t, j, h) \<in> entries sum64 p s e ev \<longleftrightarrow> (\<exists>start tss. ev = Request t start tss
      \<and> (\<exists>ins \<in> set (request_insertions sum64 e tss). own_index e (in_bucket_key ins) = j \<and> h \<in> ins_hits p s ins))" for t ev
    by (cases ev) auto
  then show ?thesis unfolding logged_def mem_Collect_eq UN_iff by (simp add: Bex_def) blast
qed

lemma logged_global:
  assumes "estimator_ok p e" and "es_group_by e = []"
  shows "(\<Union>j < length (es_buckets e). logged (\<Union>ev \<in> set evs. entries sum64 p None e ev) j P) = series_seen p (es_filter e) P evs"
proof -
  have i: "(\<exists>ins \<in> set (request_insertions sum64 e tss). h \<in> ins_hits p None ins)
      \<longleftrightarrow> (\<exists>ts \<in> set tss. filters_match (es_filter e) (ts_labels ts) = Inr True \<and> h \<in> fp_hits p (ts_fingerprint ts))" for tss h
    using assms(2) by (auto simp: request_insertions_def serie_insertions_def ins_hits_def concerns_def split: if_splits)
  show ?thesis
    unfolding set_eq_iff UN_iff logged_run series_seen_def mem_Collect_eq i [symmetric]
    using own_index_less [OF assms(1)] by blast
qed

lemma logged_group: "logged (\<Union>ev \<in> set evs. entries sum64 p (Some k) e ev) j P \<subseteq> group_seen sum64 p e k P evs"
proof
  fix h assume "h \<in> logged (\<Union>ev \<in> set evs. entries sum64 p (Some k) e ev) j P"
  then obtain t start tss ins where "Request t start tss \<in> set evs" "P t" "ins \<in> set (request_insertions sum64 e tss)"
    "h \<in> ins_hits p (Some k) ins" unfolding logged_run by blast
  then show "h \<in> group_seen sum64 p e k P evs"
    unfolding group_seen_def mem_Collect_eq ins_hits_def concerns_def by (metis empty_iff option.case(2))
qed

lemma arm_on_grid: "0 < period \<Longrightarrow> 0 \<le> due \<Longrightarrow> period dvd due \<Longrightarrow> arm_timer period due = Inr due"
  by (auto simp: arm_timer_def rotation_wait_def Let_def go_rem_nonneg)

text \<open>After the stop the estimator is changed by requests only.\<close>

lemma stopped_rotor:
  "ro_due r = None \<Longrightarrow> rotor_step sum64 r (Fire t now) = Inr r"
  "rotor_step sum64 r StopRotation = Inr r' \<Longrightarrow> ro_due r' = None \<and> ro_est r' = ro_est r"
  by auto

lemma stays_stopped:
  assumes "fold_err (rotor_step sum64) r evs = Inr r'" and "ro_due r = None"
  shows "ro_due r' = None \<and> ro_bucket r' = ro_bucket r"
  using assms
proof (induction evs arbitrary: r)
  case (Cons ev evs)
  obtain r1 where r1: "rotor_step sum64 r ev = Inr r1" "fold_err (rotor_step sum64) r1 evs = Inr r'"
    using Cons.prems(1) by (auto split: sum.splits)
  have "ro_due r1 = None \<and> ro_bucket r1 = ro_bucket r" using r1(1) Cons.prems(2) by (cases ev) (auto simp: map_sum_Inr)
  then show ?case using Cons.IH [OF r1(2)] by simp
qed simp

subsection \<open>Properties\<close>

text \<open>C4: What the interval of a global stream promises: while its rotation goroutine runs with timers less than \<open>delay\<close>
  late, the estimator never panics, and at every time it shows all selected series that were sent within the last half
  interval (less \<open>delay\<close> and a nanosecond per bucket, which rounding costs), and nothing that was last sent more than an
  interval and \<open>delay\<close> ago.\<close>

theorem interval_window:
  assumes "fresh_estimator cfg e" and "ec_group_by cfg = []" and "start_rotation e interval now = Inr r"
    and "0 < interval" and "0 \<le> now" and "delay \<le> ro_period r" and "on_time (ro_period r) delay now (the (ro_due r)) evs T"
  shows "\<exists>r'. fold_err (rotor_step sum64) r evs = Inr r'
    \<and> series_seen (effective_precision cfg) (es_filter e) (\<lambda>t. T - interval div 2 + int (length (es_buckets e)) + delay \<le> t) evs
        \<subseteq> es_global_hits (ro_est r')
    \<and> es_global_hits (ro_est r') \<subseteq> series_seen (effective_precision cfg) (es_filter e) (\<lambda>t. T - interval - delay < t) evs"
proof -
  let ?p = "effective_precision cfg" and ?n = "length (es_buckets e)"
  have e: "estimator_ok ?p e" "es_group_by e = []" using assms(1,2) by (auto simp: fresh_estimator_def)
  have "subject_ok None (ec_group_by cfg)" using assms(2) by (simp add: subject_ok_def)
  note st = start_rotation_ok [OF assms(1) this assms(3-5)]
  obtain due where due: "ro_due r = Some due" "rotor_ok ?p None e delay r now due {}" using st(1) by blast
  have "on_time (ro_period r) delay now due evs T" using assms(7) due(1) by simp
    from rotor_run [OF due(2) this assms(6), of sum64] obtain r' due' where r':
    "fold_err (rotor_step sum64) r evs = Inr r'" "ro_period r' = ro_period r" "T < due' + delay"
    "rotor_ok ?p None e delay r' T due' (\<Union>ev \<in> set evs. entries sum64 ?p None e ev)" unfolding Un_empty_left by blast
  note w = window_bounds [OF r'(4,3) _ st(2,3) [folded r'(2)]]
  have "es_shell (ro_est r') = es_shell e" using r'(4) unfolding rotor_ok_def by blast
  note sh = es_shell_length [OF this]
  let ?shown = "\<lambda>j. fst (gens None (es_buckets (ro_est r') ! j)) \<union> snd (gens None (es_buckets (ro_est r') ! j))"
  have hits: "es_global_hits (ro_est r') = (\<Union>j < ?n. ?shown j)"
    unfolding es_global_hits_def Union_buckets sh by (simp add: gens_def es_hits_gens)
  have "(\<Union>j < ?n. ?shown j) \<subseteq> series_seen ?p (es_filter e) (\<lambda>t. T - interval - delay < t) evs"
    unfolding logged_global [OF e, of sum64, symmetric] by (intro UN_mono order_refl) (rule w(1), simp)
  moreover have "series_seen ?p (es_filter e) (\<lambda>t. T - interval div 2 + int ?n + delay \<le> t) evs \<subseteq> (\<Union>j < ?n. ?shown j)"
    unfolding logged_global [OF e, of sum64, symmetric] by (intro UN_mono order_refl) (rule w(2), simp_all)
  ultimately show ?thesis using r'(1) unfolding hits [symmetric] by (intro exI [of _ r'] conjI)
qed

text \<open>The same for a stream with groups, where the group limit may turn insertions away: no group ever shows a series
  that was last sent for it more than an interval and \<open>delay\<close> ago.\<close>

theorem interval_window_groups:
  assumes "fresh_estimator cfg e" and "ec_group_by cfg \<noteq> []" and "start_rotation e interval now = Inr r"
    and "0 < interval" and "0 \<le> now" and "delay \<le> ro_period r" and "on_time (ro_period r) delay now (the (ro_due r)) evs T"
  shows "\<exists>r'. fold_err (rotor_step sum64) r evs = Inr r'
    \<and> (\<forall>k. es_group_hits (ro_est r') k \<subseteq> group_seen sum64 (effective_precision cfg) e k (\<lambda>t. T - interval - delay < t) evs)"
proof -
  let ?p = "effective_precision cfg"
  have run: "\<exists>r'. fold_err (rotor_step sum64) r evs = Inr r'
      \<and> es_group_hits (ro_est r') k \<subseteq> group_seen sum64 ?p e k (\<lambda>t. T - interval - delay < t) evs" for k
  proof -
    have "subject_ok (Some k) (ec_group_by cfg)" using assms(2) by (simp add: subject_ok_def)
    note st = start_rotation_ok [OF assms(1) this assms(3-5)]
    obtain due where due: "ro_due r = Some due" "rotor_ok ?p (Some k) e delay r now due {}" using st(1) by blast
    have "on_time (ro_period r) delay now due evs T" using assms(7) due(1) by simp
    from rotor_run [OF due(2) this assms(6), of sum64] obtain r' due' where r':
      "fold_err (rotor_step sum64) r evs = Inr r'" "ro_period r' = ro_period r" "T < due' + delay"
      "rotor_ok ?p (Some k) e delay r' T due' (\<Union>ev \<in> set evs. entries sum64 ?p (Some k) e ev)" unfolding Un_empty_left by blast
    have e': "estimator_ok ?p (ro_est r')" "es_shell (ro_est r') = es_shell e" using r'(4) unfolding rotor_ok_def by blast+
    let ?j = "own_index (ro_est r') k"
    have j: "?j < length (es_buckets e)" using own_index_less [OF e'(1), of k] es_shell_length [OF e'(2)] by simp
    have "es_group_hits (ro_est r') k = fst (gens (Some k) (es_buckets (ro_est r') ! ?j)) \<union> snd (gens (Some k) (es_buckets (ro_est r') ! ?j))"
      by (simp add: es_group_hits_def gens_def es_hits_gens)
    also have "\<dots> \<subseteq> logged (\<Union>ev \<in> set evs. entries sum64 ?p (Some k) e ev) ?j (\<lambda>t. T - interval - delay < t)"
      by (rule window_bounds(1) [OF r'(4,3) j st(2,3) [folded r'(2)]])
    also have "\<dots> \<subseteq> group_seen sum64 ?p e k (\<lambda>t. T - interval - delay < t) evs" by (rule logged_group)
    finally show ?thesis using r'(1) by blast
  qed
  obtain r' where r': "fold_err (rotor_step sum64) r evs = Inr r'" using run by blast
  have "es_group_hits (ro_est r') k \<subseteq> group_seen sum64 ?p e k (\<lambda>t. T - interval - delay < t) evs" for k
    using run [of k] r' by auto
  with r' show ?thesis by blast
qed

text \<open>Four buckets that share 80 nanoseconds, so one is rotated every 10; the series sent at 9 is shown at 16.\<close>

lemma start_rotation_example:
  "length (es_buckets e) = 4 \<Longrightarrow> start_rotation e 80 5 = Inr \<lparr>ro_est = e, ro_period = 10, ro_bucket = 0, ro_due = Some 10\<rparr>"
  by (simp add: start_rotation_def rotation_period_def arm_timer_def rotation_wait_def go_quot_def go_rem_def Let_def)

theorem interval_window_witness:
  "\<exists>e r r'. new_estimator 2 (\<lambda>_. Inl []) (\<lambda>_. Inl []) (plain_config []) = Inr e \<and> start_rotation e 80 5 = Inr r
    \<and> fold_err (rotor_step (\<lambda>_. 0)) r [Request 9 0 [serie1 ''job'' ''a'' 5], Fire 10 11] = Inr r'
    \<and> fp_hits 4 5 \<subseteq> es_global_hits (ro_est r')"
proof -
  obtain e where e: "new_estimator 2 (\<lambda>_. Inl []) (\<lambda>_. Inl []) (plain_config []) = Inr e" "fresh_estimator (plain_config []) e"
    "length (es_buckets e) = 4" "es_filter e = []" using plain_global by blast
  note st = start_rotation_example [OF e(3)]
  let ?evs = "[Request 9 0 [serie1 ''job'' ''a'' 5], Fire 10 11]"
  have p: "effective_precision (plain_config []) = 4" by (simp add: effective_precision_def plain_config_def)
  have gb: "ec_group_by (plain_config []) = []" by (simp add: plain_config_def)
  have "fp_hits 4 5 \<subseteq> series_seen 4 [] (\<lambda>t. 16 - 80 div 2 + int (length (es_buckets e)) + 5 \<le> t) ?evs"
    using e(3) by (auto simp: series_seen_def serie1_def)
  then show ?thesis
    using interval_window [OF e(2) gb st, of 5 ?evs 16 "\<lambda>_. 0"] e(1) st unfolding p e(4) by (fastforce simp: start_ok_def)
qed

theorem interval_window_groups_witness:
  "\<exists>e r r'. new_estimator 2 (\<lambda>_. Inl []) (\<lambda>_. Inl []) (plain_config [''job'']) = Inr e \<and> start_rotation e 80 5 = Inr r
    \<and> fold_err (rotor_step (\<lambda>_. 0)) r [Request 9 0 [serie1 ''job'' ''a'' 5], Fire 10 11] = Inr r'
    \<and> (\<forall>k. es_group_hits (ro_est r') k \<subseteq> fp_hits 4 5)"
proof -
  obtain e where e: "new_estimator 2 (\<lambda>_. Inl []) (\<lambda>_. Inl []) (plain_config [''job'']) = Inr e" "fresh_estimator (plain_config [''job'']) e"
    "length (es_buckets e) = 4" "es_filter e = []" "es_group_by e = [''job'']" "\<not> es_has_label_keyword e"
    using plain_estimator [of "[''job'']"] by (auto simp: label_keyword_def)
  note st = start_rotation_example [OF e(3)]
  let ?evs = "[Request 9 0 [serie1 ''job'' ''a'' 5], Fire 10 11]"
  have p: "effective_precision (plain_config [''job'']) = 4" by (simp add: effective_precision_def plain_config_def)
  have gb: "ec_group_by (plain_config [''job'']) \<noteq> []" by (simp add: plain_config_def)
  have "in_fp ins = 5" if "ins \<in> set (request_insertions (\<lambda>_. 0) e [serie1 ''job'' ''a'' 5])" for ins
    using that e(4-6) by (auto simp: request_insertions_def serie_insertions_def serie1_def split: prod.splits if_splits)
  then have "group_seen (\<lambda>_. 0) 4 e k P ?evs \<subseteq> fp_hits 4 5" for k P by (auto simp: group_seen_def)
  then show ?thesis
    using interval_window_groups [OF e(2) gb st, of 5 ?evs 16 "\<lambda>_. 0"] e(1) st unfolding p by (fastforce simp: start_ok_def)
qed

end
