(* ===== verification/Dedup_Window.thy ===== *)
theory Dedup_Window
  imports Rotation_Window App_Run
begin

section \<open>The deduplicator in front of the rotating estimators\<close>

text \<open>
  A deduplicator drops a series it has passed before, while the estimators forget what they saw more than an
  interval ago: a series that is still sent must reach them again in time.  Here the write handler, the
  rotation goroutines of all estimators and the one of the deduplicator run together over events that carry
  the time they happen at, and what the estimators show is compared with what was sent.
\<close>

subsection \<open>The goroutines together\<close>

text \<open>The local state of an estimator's rotation goroutine; the estimator itself is part of the program state.\<close>

record rotation_loop =
  lp_period :: int
  lp_bucket :: nat
  lp_due :: "int option"

definition loop_rotor :: "estimator \<Rightarrow> rotation_loop \<Rightarrow> rotor" where
  "loop_rotor e l = \<lparr>ro_est = e, ro_period = lp_period l, ro_bucket = lp_bucket l, ro_due = lp_due l\<rparr>"

definition rotor_loop :: "rotor \<Rightarrow> rotation_loop" where
  "rotor_loop r = \<lparr>lp_period = ro_period r, lp_bucket = ro_bucket r, lp_due = ro_due r\<rparr>"

lemma loop_rotor_simps [simp]:
  "ro_est (loop_rotor e l) = e" "ro_period (loop_rotor e l) = lp_period l" "ro_due (loop_rotor e l) = lp_due l"
  "loop_rotor (ro_est r) (rotor_loop r) = r" "lp_period (rotor_loop r) = ro_period r" "lp_due (rotor_loop r) = ro_due r"
  by (simp_all add: loop_rotor_def rotor_loop_def)

text \<open>The boundary is the one the deduplicator's goroutine waits for, if there is a deduplicator.\<close>

record service =
  sv_app :: app
  sv_loops :: "rotation_loop list"
  sv_boundary :: "instant option"

definition dedup_boundary :: "deduplicator \<Rightarrow> instant \<Rightarrow> instant" where
  "dedup_boundary d now = next_boundary now (go_quot (dd_interval d) 10)"

text \<open>Each goroutine is started with its own reading of the clock.\<close>

fun start_loops :: "(estimator \<times> int) list \<Rightarrow> go_panic + rotation_loop list" where
  "start_loops [] = Inr []"
| "start_loops ((e, now) # xs) =
     (case start_rotation e (ec_interval (es_cfg e)) now of
        Inl p \<Rightarrow> Inl p
      | Inr r \<Rightarrow> map_sum id (\<lambda>ls. rotor_loop r # ls) (start_loops xs))"

definition start_service :: "app \<Rightarrow> int list \<Rightarrow> instant \<Rightarrow> go_panic + service" where
  "start_service app nows now =
     map_sum id (\<lambda>ls. \<lparr>sv_app = app, sv_loops = ls, sv_boundary = map_option (\<lambda>d. dedup_boundary d now) (ap_dedup app)\<rparr>)
       (start_loops (zip (ap_estimators app) nows))"

text \<open>
  \<open>Write\<close>: the series of one request.  \<open>RotateStream j\<close>: the timer of the \<open>j\<close>-th estimator is received at the
  first time, and the clock read next shows the second.  \<open>ClearFilter\<close>: the same for the deduplicator.
\<close>

datatype service_event =
    Write int "nat \<Rightarrow> u32" "time_serie list"
  | RotateStream nat int int
  | ClearFilter int int

definition rotate_stream :: "(string \<Rightarrow> u64) \<Rightarrow> nat \<Rightarrow> int \<Rightarrow> int \<Rightarrow> service \<Rightarrow> go_panic + service" where
  "rotate_stream sum64 j t now s =
     (if j < length (sv_loops s) \<and> j < length (ap_estimators (sv_app s))
      then map_sum id
             (\<lambda>r. s\<lparr>sv_app := (sv_app s)\<lparr>ap_estimators := (ap_estimators (sv_app s))[j := ro_est r]\<rparr>,
                    sv_loops := (sv_loops s)[j := rotor_loop r]\<rparr>)
             (rotor_step sum64 (loop_rotor (ap_estimators (sv_app s) ! j) (sv_loops s ! j)) (Fire t now))
      else Inr s)"

definition clear_filter :: "int \<Rightarrow> service \<Rightarrow> go_panic + service" where
  "clear_filter now s =
     (case (ap_dedup (sv_app s), sv_boundary s) of
        (Some d, Some b) \<Rightarrow>
          map_sum id (\<lambda>app. s\<lparr>sv_app := app, sv_boundary := Some (dedup_boundary d now)\<rparr>) (rotate_dedup b (sv_app s))
      | _ \<Rightarrow> Inr s)"

fun service_step :: "(string \<Rightarrow> u64) \<Rightarrow> service \<Rightarrow> service_event \<Rightarrow> go_panic + service" where
  "service_step sum64 s (Write t rand tss) =
     map_sum id (\<lambda>app. s\<lparr>sv_app := app\<rparr>) (write_callback sum64 rand tss (sv_app s))"
| "service_step sum64 s (RotateStream j t now) = rotate_stream sum64 j t now s"
| "service_step sum64 s (ClearFilter t now) = clear_filter now s"

subsection \<open>What a filter holds\<close>

text \<open>Everything that passed, with the time: from when on the filter \<open>j\<close> keeps it while the goroutine waits for \<open>b\<close>.\<close>

definition window_start :: "duration \<Rightarrow> instant \<Rightarrow> nat \<Rightarrow> int" where
  "window_start dur b j = next_rotation dur 10 b (nat (b div dur mod 10)) j - 10 * dur"

definition passed :: "(int \<times> time_serie) set \<Rightarrow> nat \<Rightarrow> int \<Rightarrow> u64 set" where
  "passed F j s = {h. \<exists>t ts. (t, ts) \<in> F \<and> ts_fingerprint ts = h \<and> unat (h mod 10) = j \<and> s \<le> t}"

definition covered :: "nat \<Rightarrow> u64 set \<Rightarrow> u64 \<Rightarrow> bool" where
  "covered len S h \<longleftrightarrow> positions len h \<subseteq> \<Union> (positions len ` S)"

definition holds :: "nat \<Rightarrow> u64 set \<Rightarrow> bloom \<Rightarrow> bool" where
  "holds len S f \<longleftrightarrow> length (bf_bits f) = len \<and> bits_set (bf_bits f) \<subseteq> \<Union> (positions len ` S)"

definition filters_ok :: "nat \<Rightarrow> deduplicator \<Rightarrow> int \<Rightarrow> instant \<Rightarrow> (int \<times> time_serie) set \<Rightarrow> bool" where
  "filters_ok len d clock b F \<longleftrightarrow>
     dedup_ok d \<and> len = length (bf_bits (new_bloom (dd_bucket_max_size d)))
     \<and> (b + unix_epoch) mod (dd_interval d div 10) = 0 \<and> 0 \<le> b \<and> b \<le> clock + dd_interval d div 10
     \<and> (\<forall>j < 10. holds len (passed F j (window_start (dd_interval d div 10) b j)) (dd_bfs d ! j))"

lemma passed_mono: "F \<subseteq> F' \<Longrightarrow> passed F j s \<subseteq> passed F' j s"
  by (auto simp: passed_def)

lemma covered_mono: "covered len S h \<Longrightarrow> S \<subseteq> S' \<Longrightarrow> covered len S' h"
  by (auto simp: covered_def)

lemma holds_mono: "holds len S f \<Longrightarrow> S \<subseteq> S' \<Longrightarrow> holds len S' f"
  unfolding holds_def by blast

lemma filters_ok_later:
  assumes "filters_ok len d clock b F" and "clock \<le> t" and "F \<subseteq> F'"
  shows "filters_ok len d t b F'"
  using assms(1,2) holds_mono [OF _ passed_mono [OF assms(3)]] unfolding filters_ok_def by (meson add_right_mono order_trans)

lemma window_start_bounds:
  assumes "0 < dur"
  shows "b - 10 * dur \<le> window_start dur b j" and "window_start dur b j \<le> b - dur"
proof -
  define i where "i = nat (b div dur mod 10)"
  have w: "window_start dur b j = next_rotation dur 10 b i j - 10 * dur"
    unfolding i_def by (rule window_start_def)
  have "b \<le> next_rotation dur 10 b i j" "next_rotation dur 10 b i j \<le> b + 9 * dur"
    using next_rotation_bounds [OF _ assms, of 10 b i j] by simp_all
  then show "b - 10 * dur \<le> window_start dur b j" "window_start dur b j \<le> b - dur"
    unfolding w by simp_all
qed

lemma holds_put:
  assumes "bloom_ok n f" and "holds len S f" and "h \<in> S"
  shows "holds len S (bf_put f h)"
proof -
  obtain f' where "bf_put f h = f'" "length (bf_bits f') = length (bf_bits f)"
    "bits_set (bf_bits f') = positions (length (bf_bits f)) h \<union> bits_set (bf_bits f)"
    using bf_add_ok [OF assms(1), of h] by (auto simp: bf_put_def)
  then show ?thesis using assms(2,3) by (auto simp: holds_def)
qed

lemma holds_has: "holds len S f \<Longrightarrow> has f h \<Longrightarrow> covered len S h"
  by (auto simp: holds_def has_def covered_def)

lemma filters_okD:
  assumes "filters_ok len d clock b F"
  shows "dedup_ok d" "length (dd_bfs d) = 10" "0 < dd_interval d div 10" "b \<le> clock + dd_interval d div 10"
    "j < 10 \<Longrightarrow> holds len (passed F j (window_start (dd_interval d div 10) b j)) (dd_bfs d ! j)"
    "j < 10 \<Longrightarrow> bloom_ok (dd_bucket_max_size d) (dd_bfs d ! j)"
proof -
  show d: "dedup_ok d" and "b \<le> clock + dd_interval d div 10" using assms by (simp_all only: filters_ok_def)
  show "length (dd_bfs d) = 10" using d by (simp only: dedup_ok_def)
  then show "j < 10 \<Longrightarrow> bloom_ok (dd_bucket_max_size d) (dd_bfs d ! j)" using d nth_mem unfolding dedup_ok_def by metis
  show "0 < dd_interval d div 10" using d by (rule bucket_dur_pos)
  show "j < 10 \<Longrightarrow> holds len (passed F j (window_start (dd_interval d div 10) b j)) (dd_bfs d ! j)"
    using assms unfolding filters_ok_def by blast
qed

lemma filter_one_log:
  assumes "filters_ok len d t b F"
  shows "\<exists>d' pass. filter_one d ts = Inr (d', pass) \<and> dd_interval d' = dd_interval d
    \<and> filters_ok len d' t b (if pass then insert (t, ts) F else F)
    \<and> (\<not> pass \<longrightarrow> covered len (passed F (unat (ts_fingerprint ts mod 10))
          (window_start (dd_interval d div 10) b (unat (ts_fingerprint ts mod 10)))) (ts_fingerprint ts))"
proof -
  let ?h = "ts_fingerprint ts"
  define dur where "dur = dd_interval d div 10"
  define j where "j = unat (?h mod 10)"
  define F' where "F' = (if \<not> seen d ?h then insert (t, ts) F else F)"
  note ok = filters_okD [OF assms, folded dur_def]
  obtain d' where d': "filter_one d ts = Inr (d', \<not> seen d ?h)" "dedup_ok d'" "dd_interval d' = dd_interval d"
    "dd_bucket_max_size d' = dd_bucket_max_size d"
    "if \<not> seen d ?h \<and> room d ?h then dd_bfs d' = (dd_bfs d)[j := bf_put (own_bf d ?h) ?h] else dd_bfs d' = dd_bfs d"
    using filter_one_ok [OF ok(1), of ts] unfolding j_def by blast
  have j: "j < 10" unfolding j_def by (rule own_index_bound)
  have own: "own_bf d ?h = dd_bfs d ! j" by (simp add: own_bf_def j_def)
  have sub: "passed F k s \<subseteq> passed F' k s" for k s by (intro passed_mono) (auto simp: F'_def)
  have "holds len (passed F' k (window_start dur b k)) (dd_bfs d' ! k)" if k: "k < 10" for k
  proof (cases "\<not> seen d ?h \<and> room d ?h \<and> k = j")
    case True
    have "window_start dur b j \<le> t" using window_start_bounds(2) [OF ok(3), of b j] ok(4) by linarith
    then have "?h \<in> passed F' j (window_start dur b j)" using True by (auto simp: passed_def F'_def j_def)
    from holds_put [OF ok(6) [OF j] holds_mono [OF ok(5) [OF j] sub] this] show ?thesis
      using True d'(5) ok(2) j own by simp
  next
    case False
    then have "dd_bfs d' ! k = dd_bfs d ! k" using d'(5) by (auto split: if_splits)
    then show ?thesis using holds_mono [OF ok(5) [OF k] sub] by simp
  qed
  then have "filters_ok len d' t b F'"
    using assms d'(2-4) unfolding filters_ok_def dur_def by simp
  moreover have "covered len (passed F j (window_start dur b j)) ?h" if "seen d ?h"
    using holds_has [OF ok(5) [OF j]] that own by (simp add: seen_def)
  ultimately show ?thesis using d'(1,3) unfolding dur_def j_def F'_def by (intro exI [of _ d'] exI [of _ "\<not> seen d ?h"]) simp
qed

lemma filter_batch_log:
  assumes "filters_ok len d t b F"
  shows "\<exists>d' out. dedup_filter d tss dst = Inr (d', dst @ out) \<and> dd_interval d' = dd_interval d \<and> subseq out tss
    \<and> filters_ok len d' t b (F \<union> {t} \<times> set out)
    \<and> (\<forall>ts \<in> set tss. ts \<notin> set out \<longrightarrow> covered len (passed (F \<union> {t} \<times> set out) (unat (ts_fingerprint ts mod 10))
          (window_start (dd_interval d div 10) b (unat (ts_fingerprint ts mod 10)))) (ts_fingerprint ts))"
  using assms
proof (induction tss arbitrary: d F dst)
  case (Cons ts tss)
  let ?cov = "\<lambda>F ts. covered len (passed F (unat (ts_fingerprint ts mod 10))
          (window_start (dd_interval d div 10) b (unat (ts_fingerprint ts mod 10)))) (ts_fingerprint ts)"
  obtain d1 pass where one: "filter_one d ts = Inr (d1, pass)" "dd_interval d1 = dd_interval d"
    "filters_ok len d1 t b (if pass then insert (t, ts) F else F)" "\<not> pass \<longrightarrow> ?cov F ts"
    using filter_one_log [OF Cons.prems, of ts] by blast
  define F1 where "F1 = (if pass then insert (t, ts) F else F)"
  obtain d' out where rest: "dedup_filter d1 tss (if pass then dst @ [ts] else dst) = Inr (d', (if pass then dst @ [ts] else dst) @ out)"
    "dd_interval d' = dd_interval d1" "subseq out tss" "filters_ok len d' t b (F1 \<union> {t} \<times> set out)"
    "\<forall>ts \<in> set tss. ts \<notin> set out \<longrightarrow> ?cov (F1 \<union> {t} \<times> set out) ts"
    using Cons.IH [OF one(3), of "if pass then dst @ [ts] else dst"] unfolding F1_def one(2) by blast
  let ?out = "if pass then ts # out else out"
  have F: "F1 \<union> {t} \<times> set out = F \<union> {t} \<times> set ?out" by (auto simp: F1_def)
  have "?cov (F \<union> {t} \<times> set ?out) ts" if "\<not> pass"
    using covered_mono [OF one(4) [rule_format, OF that] passed_mono] by blast
  then have "\<forall>x \<in> set (ts # tss). x \<notin> set ?out \<longrightarrow> ?cov (F \<union> {t} \<times> set ?out) x"
    using rest(5) unfolding F by auto
  moreover have "dedup_filter d (ts # tss) dst = Inr (d', dst @ ?out)" using one(1) rest(1) by simp
  moreover have "subseq ?out (ts # tss)" using rest(3) by auto
  ultimately show ?case using rest(2,4) one(2) unfolding F by (intro exI [of _ d'] exI [of _ ?out]) simp
qed (auto simp: list_emb.intros)

lemma window_start_step:
  assumes "0 < dur" and "0 \<le> b" and "j < 10" and "j \<noteq> nat (b div dur mod 10)"
  shows "window_start dur (b + dur) j = window_start dur b j"
proof -
  define i where "i = nat (b div dur mod 10)"
  have q: "0 \<le> b div dur" using assms(1,2) by (simp add: pos_imp_zdiv_nonneg_iff)
  have "(b + dur) div dur = b div dur + 1" using assms(1) by simp
  then have n: "nat ((b + dur) div dur mod 10) = (i + 1) mod 10"
    using q by (simp add: i_def nat_mod_distrib nat_add_distrib mod_simps)
  have "i < 10" unfolding i_def by (simp add: nat_less_iff)
  from next_rotation_step [OF this assms(3), of dur b] assms(4)
  show ?thesis unfolding window_start_def n i_def [symmetric] by (simp only: if_False)
qed

lemma filters_ok_clear:
  assumes "filters_ok len d clock b F" and "clock \<le> now" and "b \<le> now" and "now < b + dd_interval d div 10"
  shows "\<exists>d'. dedup_rotate d b = Inr d' \<and> dd_interval d' = dd_interval d
    \<and> dedup_boundary d' now = b + dd_interval d div 10 \<and> filters_ok len d' now (b + dd_interval d div 10) F"
proof -
  define dur where "dur = dd_interval d div 10"
  define i where "i = nat (b div dur mod 10)"
  note ok = filters_okD [OF assms(1), folded dur_def]
  have b: "0 \<le> b" "(b + unix_epoch) mod dur = 0" "len = length (bf_bits (new_bloom (dd_bucket_max_size d)))"
    using assms(1) unfolding filters_ok_def dur_def by simp_all
  obtain d' where r: "dedup_rotate d b = Inr d'" "dedup_ok d'" "d' = d\<lparr>dd_bfs := (dd_bfs d)[i := new_bloom (dd_bucket_max_size d)]\<rparr>"
    using dedup_rotate_ok [OF ok(1) b(1)] unfolding i_def dur_def by blast
  have same: "dd_interval d' = dd_interval d" "dd_bucket_max_size d' = dd_bucket_max_size d" unfolding r(3) by simp_all
  have "go_quot (dd_interval d) 10 = dur"
    using ok(1) by (simp add: dur_def dedup_ok_def dedup_min_interval_def go_quot_nonneg)
  then have nb: "dedup_boundary d' now = b + dur"
    using next_boundary_step [OF ok(3) b(2) assms(3)] assms(4) by (simp add: dedup_boundary_def same dur_def)
  have "holds len (passed F j (window_start dur (b + dur) j)) (dd_bfs d' ! j)" if j: "j < 10" for j
  proof (cases "j = i")
    case True
    have "bits_set (bf_bits (new_bloom (dd_bucket_max_size d))) = {}"
      using new_bloom_ok bucket_max_bounds [OF ok(1)] by blast
    then show ?thesis using True j ok(2) b(3) by (simp add: r(3) holds_def)
  next
    case False
    then show ?thesis
      using ok(5) [OF j] window_start_step [OF ok(3) b(1) j] by (simp add: r(3) i_def)
  qed
  moreover have "(b + dur + unix_epoch) mod dur = 0"
    using b(2) mod_add_self2 [of "b + unix_epoch" dur] by (simp add: ac_simps)
  ultimately have "filters_ok len d' now (b + dur) F"
    using r(2) same b(1,3) ok(3) assms(3) unfolding filters_ok_def same dur_def by simp
  then show ?thesis using r(1) same(1) nb unfolding dur_def by blast
qed

lemma filters_ok_start:
  assumes "new_deduplicator max_size iv = Inr d" and "max_size < 2 ^ 63" and "0 \<le> now"
  shows "filters_ok (length (bf_bits (new_bloom (dd_bucket_max_size d)))) d now (dedup_boundary d now) {}"
    and "dd_interval d = iv"
proof -
  note n = new_deduplicator_result [OF assms(1,2)]
  have d: "dedup_ok d" "dd_bfs d = replicate 10 (new_bloom (dd_bucket_max_size d))" and iv: "dd_interval d = iv"
    using n(4,6-8) by simp_all
  define dur where "dur = dd_interval d div 10"
  have dur: "0 < dur" unfolding dur_def by (rule bucket_dur_pos [OF d(1)])
  have q: "go_quot (dd_interval d) 10 = dur"
    using d(1) by (simp add: dur_def dedup_ok_def dedup_min_interval_def go_quot_nonneg)
  have b: "(dedup_boundary d now + unix_epoch) mod dur = 0" "0 \<le> dedup_boundary d now" "dedup_boundary d now \<le> now + dur"
    using next_boundary_props [OF dur, of now] assms(3) unfolding dedup_boundary_def q by simp_all
  have "bits_set (bf_bits (new_bloom (dd_bucket_max_size d))) = {}"
    using new_bloom_ok bucket_max_bounds [OF d(1)] by blast
  then have "holds (length (bf_bits (new_bloom (dd_bucket_max_size d)))) S (dd_bfs d ! j)" if "j < 10" for j S
    using that d(2) by (simp add: holds_def)
  then show "filters_ok (length (bf_bits (new_bloom (dd_bucket_max_size d)))) d now (dedup_boundary d now) {}"
    using d(1) b unfolding filters_ok_def dur_def by simp
  show "dd_interval d = iv" by (rule iv)
qed

subsection \<open>The streams behind the deduplicator\<close>

text \<open>What passed, as entries in the log of an estimator.\<close>

definition entries_of ::
  "(string \<Rightarrow> u64) \<Rightarrow> nat \<Rightarrow> u64 option \<Rightarrow> estimator \<Rightarrow> (int \<times> time_serie) set \<Rightarrow> (int \<times> nat \<times> nat \<times> nat) set" where
  "entries_of sum64 p s e F =
     (\<Union>(t, ts) \<in> F. \<Union>ins \<in> set (serie_insertions sum64 e ts). {t} \<times> {own_index e (in_bucket_key ins)} \<times> ins_hits p s ins)"

lemma entries_of_simps:
  "entries_of sum64 p s e {} = {}"
  "entries_of sum64 p s e (F \<union> F') = entries_of sum64 p s e F \<union> entries_of sum64 p s e F'"
  "entries_of sum64 p s e ({t} \<times> set tss) = entries sum64 p s e (rotor_event.Request t start tss)"
  by (auto simp: entries_of_def request_insertions_def)

definition streams_ok ::
  "(string \<Rightarrow> u64) \<Rightarrow> (nat \<Rightarrow> nat) \<Rightarrow> (nat \<Rightarrow> u64 option) \<Rightarrow> estimator list \<Rightarrow> int \<Rightarrow> int list \<Rightarrow> service
   \<Rightarrow> int \<Rightarrow> int list \<Rightarrow> (int \<times> time_serie) set \<Rightarrow> bool" where
  "streams_ok sum64 p sub es0 delay periods s clock dues F \<longleftrightarrow>
     length (ap_estimators (sv_app s)) = length es0 \<and> length (sv_loops s) = length es0 \<and> length dues = length es0
     \<and> map lp_period (sv_loops s) = periods \<and> (\<forall>period \<in> set periods. delay \<le> period)
     \<and> (\<forall>j < length es0. rotor_ok (p j) (sub j) (es0 ! j) delay (loop_rotor (ap_estimators (sv_app s) ! j) (sv_loops s ! j))
          clock (dues ! j) (entries_of sum64 (p j) (sub j) (es0 ! j) F))"

lemma rotor_ok_later: "rotor_ok p s e0 delay r clock due lg \<Longrightarrow> clock \<le> t \<Longrightarrow> rotor_ok p s e0 delay r t due lg"
  unfolding rotor_ok_def by fastforce

lemma streams_ok_later:
  "streams_ok sum64 p sub es0 delay periods s clock dues F \<Longrightarrow> clock \<le> t \<Longrightarrow> streams_ok sum64 p sub es0 delay periods s t dues F"
  unfolding streams_ok_def using rotor_ok_later by blast

lemma streams_ok_cong:
  assumes "streams_ok sum64 p sub es0 delay periods s clock dues F"
    and "ap_estimators (sv_app s') = ap_estimators (sv_app s)" and "sv_loops s' = sv_loops s"
  shows "streams_ok sum64 p sub es0 delay periods s' clock dues F"
  using assms unfolding streams_ok_def by simp

lemma streams_write:
  assumes "streams_ok sum64 p sub es0 delay periods s clock dues F" and "clock \<le> t"
    and "length es0 \<le> 2 ^ 31" and "length tss \<le> 2 ^ 31"
  shows "\<exists>es'. insert_all sum64 rand tss (ap_estimators (sv_app s)) = Inr es'
    \<and> (\<forall>s'. ap_estimators (sv_app s') = es' \<and> sv_loops s' = sv_loops s
          \<longrightarrow> streams_ok sum64 p sub es0 delay periods s' t dues (F \<union> {t} \<times> set tss))"
proof -
  let ?es = "ap_estimators (sv_app s)" and ?r = "\<lambda>j. loop_rotor (ap_estimators (sv_app s) ! j) (sv_loops s ! j)"
  note ok = assms(1) [unfolded streams_ok_def]
  have r: "rotor_ok (p j) (sub j) (es0 ! j) delay (?r j) clock (dues ! j) (entries_of sum64 (p j) (sub j) (es0 ! j) F)"
    if "j < length es0" for j using ok that by blast
  have "\<forall>j < length ?es. estimator_ok (p j) (?es ! j)" using r ok unfolding rotor_ok_def by simp
  moreover have "length ?es \<le> 2 ^ 31" using ok assms(3) by simp
  ultimately obtain es' where es': "insert_all sum64 rand tss ?es = Inr es'" "list_all2 (Http_Main.inserted sum64 tss) ?es es'"
    using insert_all_nth [OF _ _ assms(4)] by blast
  have "rotor_ok (p j) (sub j) (es0 ! j) delay (loop_rotor (es' ! j) (sv_loops s ! j)) t (dues ! j)
      (entries_of sum64 (p j) (sub j) (es0 ! j) (F \<union> {t} \<times> set tss))" if j: "j < length es0" for j
  proof -
    obtain start where st: "start_ok start tss" "insert_many sum64 start (?es ! j) tss = Inr (es' ! j)"
      using es'(2) j ok unfolding list_all2_conv_all_nth Http_Main.inserted_def by auto
    then have "rotor_step sum64 (?r j) (rotor_event.Request t start tss) = Inr (loop_rotor (es' ! j) (sv_loops s ! j))"
      by (simp add: loop_rotor_def)
    with rotor_request [OF r [OF j] assms(2) st(1), of sum64]
    show ?thesis unfolding entries_of_simps(2) entries_of_simps(3) [where start = start] by auto
  qed
  then have "streams_ok sum64 p sub es0 delay periods s' t dues (F \<union> {t} \<times> set tss)"
    if "ap_estimators (sv_app s') = es'" "sv_loops s' = sv_loops s" for s'
    using ok list_all2_lengthD [OF es'(2)] unfolding streams_ok_def that by auto
  then show ?thesis using es'(1) by blast
qed

lemma streams_rotate:
  assumes "streams_ok sum64 p sub es0 delay periods s clock dues F" and "j < length dues" and "clock \<le> t" and "dues ! j \<le> t"
    and "t \<le> now" and "dues ! j < now" and "now < dues ! j + delay"
  shows "\<exists>s'. rotate_stream sum64 j t now s = Inr s' \<and> ap_dedup (sv_app s') = ap_dedup (sv_app s) \<and> sv_boundary s' = sv_boundary s
    \<and> streams_ok sum64 p sub es0 delay periods s' now (dues[j := dues ! j + periods ! j]) F"
proof -
  let ?es = "ap_estimators (sv_app s)" and ?r = "\<lambda>j. loop_rotor (ap_estimators (sv_app s) ! j) (sv_loops s ! j)"
  note ok = assms(1) [unfolded streams_ok_def]
  have len: "length ?es = length es0" "length (sv_loops s) = length es0" "length dues = length es0" "j < length es0"
    and per: "map lp_period (sv_loops s) = periods" using ok assms(2) by auto
  have pj: "lp_period (sv_loops s ! j) = periods ! j" using per len by (metis nth_map)
  have r: "rotor_ok (p k) (sub k) (es0 ! k) delay (?r k) clock (dues ! k) (entries_of sum64 (p k) (sub k) (es0 ! k) F)"
    if "k < length es0" for k using ok that by blast
  have "delay \<le> ro_period (?r j)" using ok pj len per by (metis length_map loop_rotor_simps(2) nth_mem)
  from rotor_fire [OF r [OF len(4)] assms(3-7) this, of sum64]
  obtain r' where r': "rotor_step sum64 (?r j) (Fire t now) = Inr r'" "ro_period r' = periods ! j"
    "rotor_ok (p j) (sub j) (es0 ! j) delay r' now (dues ! j + periods ! j) (entries_of sum64 (p j) (sub j) (es0 ! j) F)"
    using pj by auto
  let ?s = "s\<lparr>sv_app := (sv_app s)\<lparr>ap_estimators := ?es[j := ro_est r']\<rparr>, sv_loops := (sv_loops s)[j := rotor_loop r']\<rparr>"
  have "rotor_ok (p k) (sub k) (es0 ! k) delay (loop_rotor (?es[j := ro_est r'] ! k) ((sv_loops s)[j := rotor_loop r'] ! k)) now
      (dues[j := dues ! j + periods ! j] ! k) (entries_of sum64 (p k) (sub k) (es0 ! k) F)" if k: "k < length es0" for k
    using r'(3) rotor_ok_later [OF r [OF k], of now] assms(3,5) len by (cases "k = j") simp_all
  moreover have "map lp_period ((sv_loops s)[j := rotor_loop r']) = periods"
    using per len r'(2) by (metis length_map list_update_id loop_rotor_simps(5) map_update)
  ultimately have "streams_ok sum64 p sub es0 delay periods ?s now (dues[j := dues ! j + periods ! j]) F"
    using ok len unfolding streams_ok_def by simp
  then show ?thesis using r'(1) len by (simp add: rotate_stream_def)
qed

subsection \<open>Runs on time\<close>

text \<open>
  As in theory \<open>Rotation_Window\<close>, for all goroutines together: \<open>dues\<close> are the times the streams' timers run
  until, \<open>b\<close> is the boundary the deduplicator waits for, and every timer is received less than \<open>delay\<close> late.
\<close>

fun in_time :: "int \<Rightarrow> int list \<Rightarrow> duration \<Rightarrow> int \<Rightarrow> int list \<Rightarrow> instant \<Rightarrow> service_event list \<Rightarrow> int \<Rightarrow> bool" where
  "in_time delay periods dur clock dues b [] T \<longleftrightarrow> clock \<le> T \<and> (\<forall>due \<in> set (b # dues). T < due + delay)"
| "in_time delay periods dur clock dues b (Write t rand tss # evs) T \<longleftrightarrow>
     clock \<le> t \<and> (\<forall>due \<in> set (b # dues). t < due + delay) \<and> length tss \<le> 2 ^ 31 \<and> in_time delay periods dur t dues b evs T"
| "in_time delay periods dur clock dues b (RotateStream j t now # evs) T \<longleftrightarrow>
     j < length dues \<and> clock \<le> t \<and> dues ! j \<le> t \<and> t \<le> now \<and> dues ! j < now \<and> now < dues ! j + delay
     \<and> in_time delay periods dur now (dues[j := dues ! j + periods ! j]) b evs T"
| "in_time delay periods dur clock dues b (ClearFilter t now # evs) T \<longleftrightarrow>
     clock \<le> t \<and> b \<le> t \<and> t \<le> now \<and> now < b + delay \<and> in_time delay periods dur now dues (b + dur) evs T"

fun sent :: "service_event list \<Rightarrow> (int \<times> time_serie) set" where
  "sent [] = {}"
| "sent (Write t rand tss # evs) = {t} \<times> set tss \<union> sent evs"
| "sent (_ # evs) = sent evs"

text \<open>
  The filters tell a series from all others that are sent: its fingerprint stands for its labels, and its
  bits are not all set by other fingerprints of the same filter.
\<close>

definition identified :: "nat \<Rightarrow> time_serie set \<Rightarrow> time_serie \<Rightarrow> bool" where
  "identified len A ts \<longleftrightarrow>
     (\<forall>ts' \<in> A. ts_fingerprint ts' = ts_fingerprint ts \<longrightarrow> ts_labels ts' = ts_labels ts)
     \<and> \<not> covered len {h \<in> ts_fingerprint ` A. h \<noteq> ts_fingerprint ts \<and> unat (h mod 10) = unat (ts_fingerprint ts mod 10)}
          (ts_fingerprint ts)"

text \<open>A series that was sent at a time has passed then or not long before.\<close>

definition reached :: "int \<Rightarrow> (int \<times> time_serie) set \<Rightarrow> int \<times> time_serie \<Rightarrow> bool" where
  "reached W F x \<longleftrightarrow> (\<exists>t' ts'. (t', ts') \<in> F \<and> ts_fingerprint ts' = ts_fingerprint (snd x) \<and> fst x - W < t')"

lemma reached_mono: "reached W F x \<Longrightarrow> F \<subseteq> F' \<Longrightarrow> reached W F' x"
  unfolding reached_def by blast

lemma identified_alone: "identified len {ts} ts"
proof -
  have "{h \<in> ts_fingerprint ` {ts}. h \<noteq> ts_fingerprint ts \<and> unat (h mod 10) = unat (ts_fingerprint ts mod 10)} = {}" by auto
  then show ?thesis unfolding identified_def covered_def by (simp only:) (simp add: positions_def hashes_count_def)
qed

lemma covered_identified:
  assumes "covered len (passed F (unat (ts_fingerprint ts mod 10)) s) (ts_fingerprint ts)" and "identified len A ts" and "snd ` F \<subseteq> A"
  shows "\<exists>t' ts'. (t', ts') \<in> F \<and> ts_fingerprint ts' = ts_fingerprint ts \<and> s \<le> t'"
proof (rule ccontr)
  assume none: "\<not> ?thesis"
  have "passed F (unat (ts_fingerprint ts mod 10)) s
      \<subseteq> {h \<in> ts_fingerprint ` A. h \<noteq> ts_fingerprint ts \<and> unat (h mod 10) = unat (ts_fingerprint ts mod 10)}"
    using none assms(3) unfolding passed_def by force
  with covered_mono [OF assms(1)] assms(2) show False unfolding identified_def by blast
qed

definition service_ok ::
  "(string \<Rightarrow> u64) \<Rightarrow> (nat \<Rightarrow> nat) \<Rightarrow> (nat \<Rightarrow> u64 option) \<Rightarrow> estimator list \<Rightarrow> int \<Rightarrow> int list \<Rightarrow> duration \<Rightarrow> nat \<Rightarrow> time_serie set
   \<Rightarrow> service \<Rightarrow> int \<Rightarrow> int list \<Rightarrow> instant \<Rightarrow> (int \<times> time_serie) set \<Rightarrow> (int \<times> time_serie) set \<Rightarrow> bool" where
  "service_ok sum64 p sub es0 delay periods iv len A s clock dues b M F \<longleftrightarrow>
     streams_ok sum64 p sub es0 delay periods s clock dues F \<and> sv_boundary s = Some b
     \<and> (\<exists>d. ap_dedup (sv_app s) = Some d \<and> dd_interval d = iv \<and> filters_ok len d clock b F)
     \<and> F \<subseteq> M \<and> snd ` M \<subseteq> A \<and> (\<forall>x \<in> M. identified len A (snd x) \<longrightarrow> reached (delay + 10 * (iv div 10)) F x)"

lemma service_write:
  assumes "service_ok sum64 p sub es0 delay periods iv len A s clock dues b M F"
    and "clock \<le> t" and "t < b + delay" and "length es0 \<le> 2 ^ 31" and "length tss \<le> 2 ^ 31" and "set tss \<subseteq> A"
  shows "\<exists>s' F'. service_step sum64 s (Write t rand tss) = Inr s'
    \<and> service_ok sum64 p sub es0 delay periods iv len A s' t dues b ({t} \<times> set tss \<union> M) F'"
proof -
  note ok = assms(1) [unfolded service_ok_def]
  let ?W = "delay + 10 * (iv div 10)"
  obtain d where d: "ap_dedup (sv_app s) = Some d" "dd_interval d = iv" "filters_ok len d clock b F" using ok by blast
  have st: "streams_ok sum64 p sub es0 delay periods s clock dues F" using ok by blast
  have FM: "F \<subseteq> M" "snd ` M \<subseteq> A" "\<forall>x \<in> M. identified len A (snd x) \<longrightarrow> reached ?W F x"
    and b: "sv_boundary s = Some b" using ok by blast+
  have dur: "0 < iv div 10" using filters_okD(3) [OF d(3)] unfolding d(2) .
  obtain d' out where f: "dedup_filter d tss [] = Inr (d', out)" "dd_interval d' = dd_interval d" "subseq out tss"
    "filters_ok len d' t b (F \<union> {t} \<times> set out)"
    "\<forall>ts \<in> set tss. ts \<notin> set out \<longrightarrow> covered len (passed (F \<union> {t} \<times> set out) (unat (ts_fingerprint ts mod 10))
        (window_start (dd_interval d div 10) b (unat (ts_fingerprint ts mod 10)))) (ts_fingerprint ts)"
    using filter_batch_log [OF filters_ok_later [OF d(3) assms(2) subset_refl], of tss "[]"] by auto
  let ?F = "F \<union> {t} \<times> set out"
  have out: "set out \<subseteq> set tss" using list_emb_set [OF f(3)] by blast
  have len: "length out \<le> length tss" by (rule list_emb_length [OF f(3)])
  have A: "snd ` ?F \<subseteq> A" using FM(1,2) out assms(6) unfolding image_subset_iff by fastforce
  have new: "reached ?W ?F (t, ts)" if ts: "ts \<in> set tss" "identified len A ts" for ts
  proof (cases "ts \<in> set out")
    case True
    moreover have "t - ?W < t" using dur assms(2,3) filters_okD(4) [OF d(3)] unfolding d(2) by linarith
    ultimately show ?thesis unfolding reached_def by (intro exI [of _ t] exI [of _ ts] conjI) simp_all
  next
    case False
    from covered_identified [OF f(5) [rule_format, OF ts(1) False] ts(2) A] obtain t' ts'
      where x: "(t', ts') \<in> ?F" "ts_fingerprint ts' = ts_fingerprint ts"
        "window_start (iv div 10) b (unat (ts_fingerprint ts mod 10)) \<le> t'" unfolding d(2) by blast
    have "t - ?W < t'" using window_start_bounds(1) [OF dur, of b "unat (ts_fingerprint ts mod 10)"] x(3) assms(3) by linarith
    then show ?thesis using x(1,2) unfolding reached_def by auto
  qed
  have M: "?F \<subseteq> {t} \<times> set tss \<union> M" "snd ` ({t} \<times> set tss \<union> M) \<subseteq> A" using FM(1,2) out assms(6) by auto
  have r: "\<forall>x \<in> {t} \<times> set tss \<union> M. identified len A (snd x) \<longrightarrow> reached ?W ?F x"
    using new FM(3) reached_mono [of ?W F _ ?F] by auto
  show ?thesis
  proof (cases "out = []")
    case True
    let ?s = "s\<lparr>sv_app := (sv_app s)\<lparr>ap_dedup := Some d'\<rparr>\<rparr>"
    have "service_step sum64 s (Write t rand tss) = Inr ?s"
      using d(1) f(1) True by (simp add: write_callback_def filter_in_place_is_filter)
    moreover have "streams_ok sum64 p sub es0 delay periods ?s t dues ?F"
      using streams_ok_cong [OF streams_ok_later [OF st assms(2)], of ?s] True by simp
    ultimately show ?thesis using f(2,4) b d(2) M r unfolding service_ok_def by (intro exI [of _ ?s] exI [of _ ?F] conjI) simp_all
  next
    case False
    obtain es' where es': "insert_all sum64 rand out (ap_estimators (sv_app s)) = Inr es'"
      "\<forall>s'. ap_estimators (sv_app s') = es' \<and> sv_loops s' = sv_loops s
          \<longrightarrow> streams_ok sum64 p sub es0 delay periods s' t dues ?F"
      using streams_write [OF st assms(2,4), of out rand] len assms(5) by auto
    let ?s = "s\<lparr>sv_app := (sv_app s)\<lparr>ap_dedup := Some d', ap_estimators := es'\<rparr>\<rparr>"
    have "service_step sum64 s (Write t rand tss) = Inr ?s"
      using d(1) f(1) False es'(1) by (simp add: write_callback_def filter_in_place_is_filter)
    moreover have "streams_ok sum64 p sub es0 delay periods ?s t dues ?F" using es'(2) by simp
    ultimately show ?thesis using f(2,4) b d(2) M r unfolding service_ok_def by (intro exI [of _ ?s] exI [of _ ?F] conjI) simp_all
  qed
qed

lemma service_rotate:
  assumes "service_ok sum64 p sub es0 delay periods iv len A s clock dues b M F" and "j < length dues" and "clock \<le> t"
    and "dues ! j \<le> t" and "t \<le> now" and "dues ! j < now" and "now < dues ! j + delay"
  shows "\<exists>s'. service_step sum64 s (RotateStream j t now) = Inr s'
    \<and> service_ok sum64 p sub es0 delay periods iv len A s' now (dues[j := dues ! j + periods ! j]) b M F"
proof -
  obtain d where d: "ap_dedup (sv_app s) = Some d" "dd_interval d = iv" "filters_ok len d clock b F"
    and st: "streams_ok sum64 p sub es0 delay periods s clock dues F" using assms(1) unfolding service_ok_def by blast
  have "clock \<le> now" using assms(3,5) by simp
  note f = filters_ok_later [OF d(3) this subset_refl]
  obtain s' where "rotate_stream sum64 j t now s = Inr s'" "ap_dedup (sv_app s') = ap_dedup (sv_app s)" "sv_boundary s' = sv_boundary s"
    "streams_ok sum64 p sub es0 delay periods s' now (dues[j := dues ! j + periods ! j]) F"
    using streams_rotate [OF st assms(2-7)] by blast
  then show ?thesis using assms(1) d(1,2) f unfolding service_ok_def by (intro exI [of _ s']) simp
qed

lemma service_clear:
  assumes "service_ok sum64 p sub es0 delay periods iv len A s clock dues b M F" and "clock \<le> t"
    and "b \<le> t" and "t \<le> now" and "now < b + iv div 10"
  shows "\<exists>s'. service_step sum64 s (ClearFilter t now) = Inr s'
    \<and> service_ok sum64 p sub es0 delay periods iv len A s' now dues (b + iv div 10) M F"
proof -
  obtain d where d: "ap_dedup (sv_app s) = Some d" "dd_interval d = iv" "filters_ok len d clock b F"
    and st: "streams_ok sum64 p sub es0 delay periods s clock dues F" and b: "sv_boundary s = Some b"
    using assms(1) unfolding service_ok_def by blast
  have now: "clock \<le> now" "b \<le> now" "now < b + dd_interval d div 10" using assms(2-5) d(2) by simp_all
  obtain d' where d': "dedup_rotate d b = Inr d'" "dd_interval d' = dd_interval d" "dedup_boundary d' now = b + iv div 10"
    "filters_ok len d' now (b + iv div 10) F" using filters_ok_clear [OF d(3) now] unfolding d(2) by blast
  let ?s = "s\<lparr>sv_app := (sv_app s)\<lparr>ap_dedup := Some d'\<rparr>, sv_boundary := Some (b + iv div 10)\<rparr>"
  have "dedup_boundary d now = b + iv div 10" using d'(2,3) by (simp only: dedup_boundary_def)
  then have "service_step sum64 s (ClearFilter t now) = Inr ?s" using d(1) b d'(1) by (simp add: clear_filter_def rotate_dedup_def)
  moreover have "streams_ok sum64 p sub es0 delay periods ?s now dues F"
    by (rule streams_ok_cong [OF streams_ok_later [OF st now(1)]]) simp_all
  ultimately show ?thesis using assms(1) d(2) d'(2,4) unfolding service_ok_def by (intro exI [of _ ?s]) simp
qed

lemma service_run:
  assumes "service_ok sum64 p sub es0 delay periods iv len A s clock dues b M F"
    and "in_time delay periods (iv div 10) clock dues b evs T" and "snd ` sent evs \<subseteq> A"
    and "length es0 \<le> 2 ^ 31" and "delay \<le> iv div 10"
  shows "\<exists>s' dues' b' F'. fold_err (service_step sum64) s evs = Inr s' \<and> (\<forall>due \<in> set dues'. T < due + delay)
    \<and> service_ok sum64 p sub es0 delay periods iv len A s' T dues' b' (M \<union> sent evs) F'"
  using assms(1-3)
proof (induction evs arbitrary: s clock dues b M F)
  case Nil
  then obtain d where d: "ap_dedup (sv_app s) = Some d" "dd_interval d = iv" "filters_ok len d clock b F"
    and st: "streams_ok sum64 p sub es0 delay periods s clock dues F" unfolding service_ok_def by blast
  have "clock \<le> T" "\<forall>due \<in> set dues. T < due + delay" using Nil.prems(2) by simp_all
  moreover have "service_ok sum64 p sub es0 delay periods iv len A s T dues b M F"
    using Nil.prems(1) d(1,2) filters_ok_later [OF d(3) calculation(1) subset_refl] streams_ok_later [OF st calculation(1)]
    unfolding service_ok_def by simp
  ultimately show ?case by auto
next
  case (Cons ev evs)
  show ?case
  proof (cases ev)
    case (Write t rand tss)
    have t: "clock \<le> t" "t < b + delay" "length tss \<le> 2 ^ 31" "in_time delay periods (iv div 10) t dues b evs T" "set tss \<subseteq> A"
      "snd ` sent evs \<subseteq> A" using Cons.prems(2,3) Write by (auto simp: image_Un)
    obtain s1 F1 where s1: "service_step sum64 s ev = Inr s1"
      "service_ok sum64 p sub es0 delay periods iv len A s1 t dues b ({t} \<times> set tss \<union> M) F1"
      using service_write [OF Cons.prems(1) t(1,2) assms(4) t(3,5), of rand] Write by blast
    have "M \<union> sent (ev # evs) = ({t} \<times> set tss \<union> M) \<union> sent evs" by (auto simp: Write)
    then show ?thesis using Cons.IH [OF s1(2) t(4,6)] s1(1) by simp
  next
    case (RotateStream j t now)
    have t: "j < length dues" "clock \<le> t" "dues ! j \<le> t" "t \<le> now" "dues ! j < now" "now < dues ! j + delay"
      "in_time delay periods (iv div 10) now (dues[j := dues ! j + periods ! j]) b evs T" "snd ` sent evs \<subseteq> A"
      using Cons.prems(2,3) RotateStream by simp_all
    obtain s1 where s1: "service_step sum64 s ev = Inr s1"
      "service_ok sum64 p sub es0 delay periods iv len A s1 now (dues[j := dues ! j + periods ! j]) b M F"
      using service_rotate [OF Cons.prems(1) t(1-6)] RotateStream by blast
    then show ?thesis using Cons.IH [OF s1(2) t(7,8)] by (simp add: RotateStream)
  next
    case (ClearFilter t now)
    have t: "clock \<le> t" "b \<le> t" "t \<le> now" "now < b + iv div 10" "in_time delay periods (iv div 10) now dues (b + iv div 10) evs T"
      "snd ` sent evs \<subseteq> A" using Cons.prems(2,3) ClearFilter assms(5) by simp_all
    obtain s1 where s1: "service_step sum64 s ev = Inr s1"
      "service_ok sum64 p sub es0 delay periods iv len A s1 now dues (b + iv div 10) M F"
      using service_clear [OF Cons.prems(1) t(1-4)] ClearFilter by blast
    then show ?thesis using Cons.IH [OF s1(2) t(5,6)] by (simp add: ClearFilter)
  qed
qed

subsection \<open>The start\<close>

text \<open>At the start all estimators are new, and the deduplicator has not passed anything.\<close>

lemma load_new_streams:
  assumes "fold_err (load_stream cpus parse compile_re) ([], es, created) streams = Inr (removed, es', created')"
  shows "\<forall>e \<in> set es'. e \<in> set es \<or> (\<exists>ec \<in> set streams. new_estimator cpus parse compile_re ec = Inr e)"
    and "length es' = length es + length streams"
proof -
  have "(\<forall>e \<in> set es'. e \<in> set es \<or> (\<exists>ec \<in> set streams. new_estimator cpus parse compile_re ec = Inr e))
      \<and> length es' = length es + length streams"
    using assms
  proof (induction streams arbitrary: es created)
    case (Cons ec streams)
    have "load_stream cpus parse compile_re ([], es, created) ec = Inr st
        \<Longrightarrow> \<exists>e. new_estimator cpus parse compile_re ec = Inr e \<and> st = ([], es @ [e], created @ [e])" for st
      by (auto simp: load_stream_def create_stream_def split: sum.splits failure.splits)
    then obtain e where e: "new_estimator cpus parse compile_re ec = Inr e"
      "fold_err (load_stream cpus parse compile_re) ([], es @ [e], created @ [e]) streams = Inr (removed, es', created')"
      using Cons.prems by (cases "load_stream cpus parse compile_re ([], es, created) ec") auto
    from Cons.IH [OF e(2)] e(1) show ?case by auto
  qed simp
  then show "\<forall>e \<in> set es'. e \<in> set es \<or> (\<exists>ec \<in> set streams. new_estimator cpus parse compile_re ec = Inr e)"
    "length es' = length es + length streams" by blast+
qed

lemma reset_new_deduplicator:
  assumes "new_deduplicator max_size iv = Inr d"
  shows "dedup_reset d = d"
  using assms by (auto simp: new_deduplicator_def dedup_reset_def Let_def split: if_splits)

lemma started_program:
  assumes "env_ok env" and "0 < iv" and "start_program env iv max_size read_file = Inr (Some rl)"
  obtains d where "ap_dedup (rl_app rl) = Some d" "new_deduplicator max_size iv = Inr d"
    "\<forall>e \<in> set (ap_estimators (rl_app rl)). fresh_estimator (es_cfg e) e \<and> 0 < ec_interval (es_cfg e)"
    "length (ap_estimators (rl_app rl)) \<le> 2 ^ 31"
proof -
  obtain d cfg st changed where d: "start_deduplicator iv max_size = Inr (Started d)" and cfg: "read_streams env read_file = Inr cfg"
    and l: "load_config (re_cpus env) (re_parse env) (re_compile env) (cf_streams cfg) (initial_app (Some d)) = Inr (st, Inr changed)"
    and st: "rl_app rl = st"
    using assms(2,3)
    by (auto simp: start_program_def start_deduplicator_def map_sum_Inr split: sum.splits dedup_start.splits prod.splits if_splits)
  have nd: "new_deduplicator max_size iv = Inr d" using d by (auto simp: start_deduplicator_def map_sum_Inr split: if_splits)
  have ss: "\<forall>ec \<in> set (cf_streams cfg). stream_ok (re_cpus env) ec" "length (cf_streams cfg) \<le> 2 ^ 31"
    using read_config_streams [OF _ cfg [unfolded read_streams_def]] read_config_length [OF cfg [unfolded read_streams_def]] assms(1)
    by (auto simp: env_ok_def)
  let ?init = "initial_app (Some d)" and ?fold = "fold_err (load_stream (re_cpus env) (re_parse env) (re_compile env)) ([], [], []) (cf_streams cfg)"
  have i: "ap_dedup ?init = Some d" "ap_estimators ?init = []" "by_id [] = []" by (simp_all add: initial_app_def by_id_def)
  obtain removed es created where f: "?fold = Inr (removed, es, created)"
    using l unfolding load_config_def i by (auto split: sum.splits failure.splits)
  have app: "ap_dedup (rl_app rl) = Some d" "ap_estimators (rl_app rl) = es \<or> ap_estimators (rl_app rl) = []"
    using l unfolding load_config_def i f st by (auto simp: i reset_new_deduplicator [OF nd] split: if_splits)
  have "fresh_estimator (es_cfg e) e \<and> 0 < ec_interval (es_cfg e)" if e: "e \<in> set es" for e
  proof -
    obtain ec where ec: "ec \<in> set (cf_streams cfg)" "new_estimator (re_cpus env) (re_parse env) (re_compile env) ec = Inr e"
      using load_new_streams(1) [OF f] e by auto
    have "0 < ec_interval ec" using ss(1) ec(1) by (simp add: stream_ok_def interval_ok_def)
    then show ?thesis using new_estimator_stream(1,2) [OF _ ec(2)] ss(1) ec(1) by simp
  qed
  moreover have "length es \<le> 2 ^ 31" using load_new_streams(2) [OF f] ss(2) by simp
  ultimately have "\<forall>e \<in> set (ap_estimators (rl_app rl)). fresh_estimator (es_cfg e) e \<and> 0 < ec_interval (es_cfg e)"
    "length (ap_estimators (rl_app rl)) \<le> 2 ^ 31" using app(2) by auto
  with app(1) nd show thesis by (rule that)
qed

lemma start_loops_ok:
  "start_loops xs = Inr ls \<Longrightarrow> length ls = length xs \<and> (\<forall>j < length xs. \<exists>r.
     start_rotation (fst (xs ! j)) (ec_interval (es_cfg (fst (xs ! j)))) (snd (xs ! j)) = Inr r \<and> loop_rotor (fst (xs ! j)) (ls ! j) = r)"
proof (induction xs arbitrary: ls)
  case (Cons x xs)
  obtain e now where x: "x = (e, now)" by force
  obtain r ls' where r: "start_rotation e (ec_interval (es_cfg e)) now = Inr r" "start_loops xs = Inr ls'" "ls = rotor_loop r # ls'"
    using Cons.prems by (auto simp: x map_sum_Inr split: sum.splits)
  have "ro_est r = e" using r(1) by (auto simp: start_rotation_def map_sum_Inr split: sum.splits)
  then have "loop_rotor e (rotor_loop r) = r" using loop_rotor_simps(4) by metis
  then show ?case using Cons.IH [OF r(2)] r(1,3) by (auto simp: x nth_Cons split: nat.splits)
qed simp

definition subject_of :: "estimator \<Rightarrow> u64 \<Rightarrow> u64 option" where
  "subject_of e k = (if ec_group_by (es_cfg e) = [] then None else Some k)"

text \<open>The state after the start, and what the periods are.\<close>

lemma start_service_ok:
  fixes app :: app
  defines "es \<equiv> ap_estimators app"
  assumes "start_service app nows now = Inr s" and "length nows = length es"
    and "\<forall>e \<in> set es. fresh_estimator (es_cfg e) e \<and> 0 < ec_interval (es_cfg e)"
    and "ap_dedup app = Some d" and "new_deduplicator max_size iv = Inr d" and "max_size < 2 ^ 63"
    and "\<forall>t \<in> set (now # nows). 0 \<le> t \<and> t \<le> clock" and "\<forall>loop \<in> set (sv_loops s). delay \<le> lp_period loop"
  shows "service_ok sum64 (\<lambda>j. effective_precision (es_cfg (es ! j))) (\<lambda>j. subject_of (es ! j) k) es delay (map lp_period (sv_loops s)) iv
      (length (bf_bits (new_bloom (dd_bucket_max_size d)))) A s clock (map (the \<circ> lp_due) (sv_loops s)) (dedup_boundary d now) {} {}"
    and "j < length es \<Longrightarrow> 2 * int (length (es_buckets (es ! j))) * lp_period (sv_loops s ! j) \<le> ec_interval (es_cfg (es ! j))
      \<and> ec_interval (es_cfg (es ! j)) div 2 < int (length (es_buckets (es ! j))) * lp_period (sv_loops s ! j) + int (length (es_buckets (es ! j)))"
proof -
  obtain ls where ls: "start_loops (zip es nows) = Inr ls"
    and s: "s = \<lparr>sv_app = app, sv_loops = ls, sv_boundary = Some (dedup_boundary d now)\<rparr>"
    using assms(2,5) by (auto simp: start_service_def es_def map_sum_Inr)
  note sl = start_loops_ok [OF ls]
  have len: "length ls = length es" using sl assms(3) by simp
  let ?p = "\<lambda>j. effective_precision (es_cfg (es ! j))"
  have each: "rotor_ok (?p j) (subject_of (es ! j) k) (es ! j) delay (loop_rotor (es ! j) (ls ! j)) clock (the (lp_due (ls ! j))) {}
      \<and> 2 * int (length (es_buckets (es ! j))) * lp_period (ls ! j) \<le> ec_interval (es_cfg (es ! j))
      \<and> ec_interval (es_cfg (es ! j)) div 2 < int (length (es_buckets (es ! j))) * lp_period (ls ! j) + int (length (es_buckets (es ! j)))"
    if j: "j < length es" for j
  proof -
    have r: "start_rotation (es ! j) (ec_interval (es_cfg (es ! j))) (nows ! j) = Inr (loop_rotor (es ! j) (ls ! j))"
      using sl j assms(3) by auto
    have f: "fresh_estimator (es_cfg (es ! j)) (es ! j)" "0 < ec_interval (es_cfg (es ! j))" using assms(4) j by simp_all
    have t: "0 \<le> nows ! j" "nows ! j \<le> clock" using assms(3,8) j by (metis list.set_intros(2) nth_mem)+
    have "subject_ok (subject_of (es ! j) k) (ec_group_by (es_cfg (es ! j)))" by (simp add: subject_of_def subject_ok_def)
    note st = start_rotation_ok [OF f(1) this r f(2) t(1)]
    obtain due where "lp_due (ls ! j) = Some due"
      "rotor_ok (?p j) (subject_of (es ! j) k) (es ! j) delay (loop_rotor (es ! j) (ls ! j)) (nows ! j) due {}"
      using st(1) [of delay] by auto
    then show ?thesis using st(2,3) rotor_ok_later [OF _ t(2)] by simp
  qed
  have "streams_ok sum64 ?p (\<lambda>j. subject_of (es ! j) k) es delay (map lp_period ls) s clock (map (the \<circ> lp_due) ls) {}"
    using each assms(9) len unfolding streams_ok_def s by (simp add: es_def entries_of_simps)
  moreover have "filters_ok (length (bf_bits (new_bloom (dd_bucket_max_size d)))) d clock (dedup_boundary d now) {}"
    using filters_ok_later [OF filters_ok_start(1) [OF assms(6,7)]] assms(8) by simp
  ultimately show "service_ok sum64 ?p (\<lambda>j. subject_of (es ! j) k) es delay (map lp_period (sv_loops s)) iv
      (length (bf_bits (new_bloom (dd_bucket_max_size d)))) A s clock (map (the \<circ> lp_due) (sv_loops s)) (dedup_boundary d now) {} {}"
    using assms(5) filters_ok_start(2) [OF assms(6,7), of 0] unfolding service_ok_def s by simp
  show "j < length es \<Longrightarrow> 2 * int (length (es_buckets (es ! j))) * lp_period (sv_loops s ! j) \<le> ec_interval (es_cfg (es ! j))
      \<and> ec_interval (es_cfg (es ! j)) div 2 < int (length (es_buckets (es ! j))) * lp_period (sv_loops s ! j) + int (length (es_buckets (es ! j)))"
    using each s by simp
qed

subsection \<open>Properties\<close>

text \<open>What the selected ones among the series of a log add to a sketch.\<close>

definition selected_hits :: "nat \<Rightarrow> compiled_filter \<Rightarrow> (int \<times> time_serie) set \<Rightarrow> (nat \<times> nat) set" where
  "selected_hits p flt X =
     {h. \<exists>t ts. (t, ts) \<in> X \<and> filters_match flt (ts_labels ts) = Inr True \<and> h \<in> fp_hits p (ts_fingerprint ts)}"

lemma selected_hits_mono: "X \<subseteq> Y \<Longrightarrow> selected_hits p flt X \<subseteq> selected_hits p flt Y"
  by (auto simp: selected_hits_def)

lemma logged_entries_of:
  assumes "estimator_ok p e" and "es_group_by e = []"
  shows "(\<Union>j < length (es_buckets e). logged (entries_of sum64 p None e F) j P) = selected_hits p (es_filter e) {(t, ts) \<in> F. P t}"
proof -
  have "h \<in> logged (entries_of sum64 p None e F) j P \<longleftrightarrow> (\<exists>t ts. (t, ts) \<in> F \<and> P t
      \<and> (\<exists>ins \<in> set (serie_insertions sum64 e ts). own_index e (in_bucket_key ins) = j \<and> h \<in> ins_hits p None ins))" for h j
    unfolding logged_def entries_of_def by fastforce
  then have l: "h \<in> (\<Union>j < length (es_buckets e). logged (entries_of sum64 p None e F) j P) \<longleftrightarrow>
      (\<exists>t ts. (t, ts) \<in> F \<and> P t \<and> (\<exists>ins \<in> set (serie_insertions sum64 e ts). h \<in> ins_hits p None ins))" for h
    using own_index_less [OF assms(1)] by blast
  have "(\<exists>ins \<in> set (serie_insertions sum64 e ts). h \<in> ins_hits p None ins)
      \<longleftrightarrow> filters_match (es_filter e) (ts_labels ts) = Inr True \<and> h \<in> fp_hits p (ts_fingerprint ts)" for ts h
    using assms(2) by (auto simp: serie_insertions_def ins_hits_def concerns_def split: if_splits)
  then show ?thesis unfolding set_eq_iff l selected_hits_def by auto
qed

text \<open>Between what passed and what was sent.\<close>

lemma reached_hits:
  assumes "\<forall>x \<in> M. identified len A (snd x) \<longrightarrow> reached W F x" and "F \<subseteq> M" and "snd ` M \<subseteq> A"
  shows "selected_hits p flt {(t, ts) \<in> M. lo + W \<le> t \<and> identified len A ts} \<subseteq> selected_hits p flt {(t, ts) \<in> F. lo \<le> t}"
proof
  fix h assume "h \<in> selected_hits p flt {(t, ts) \<in> M. lo + W \<le> t \<and> identified len A ts}"
  then obtain t ts where x: "(t, ts) \<in> M" "lo + W \<le> t" "identified len A ts" "filters_match flt (ts_labels ts) = Inr True"
    "h \<in> fp_hits p (ts_fingerprint ts)" unfolding selected_hits_def by auto
  obtain t' ts' where y: "(t', ts') \<in> F" "ts_fingerprint ts' = ts_fingerprint ts" "t - W < t'"
    using assms(1) x(1,3) unfolding reached_def by fastforce
  have "ts' \<in> A" using y(1) assms(2,3) by force
  then have "ts_labels ts' = ts_labels ts" using x(3) y(2) by (simp add: identified_def)
  moreover have "lo \<le> t'" using x(2) y(3) by linarith
  ultimately show "h \<in> selected_hits p flt {(t, ts) \<in> F. lo \<le> t}"
    using x(4,5) y(1,2) unfolding selected_hits_def by fastforce
qed

lemma streams_okD:
  assumes "streams_ok sum64 p sub es0 delay periods s clock dues F"
  shows "length (sv_loops s) = length es0" and "length dues = length es0" and "map lp_period (sv_loops s) = periods"
    and "j < length es0 \<Longrightarrow> rotor_ok (p j) (sub j) (es0 ! j) delay (loop_rotor (ap_estimators (sv_app s) ! j) (sv_loops s ! j))
          clock (dues ! j) (entries_of sum64 (p j) (sub j) (es0 ! j) F)"
  using assms by (simp_all add: streams_ok_def)

lemma service_window:
  assumes "service_ok sum64 p (\<lambda>j. subject_of (es0 ! j) k) es0 delay periods iv len A s T dues b M F"
    and "\<forall>due \<in> set dues. T < due + delay" and "j < length es0" and "ec_group_by (es_cfg (es0 ! j)) = []"
    and "2 * int (length (es_buckets (es0 ! j))) * periods ! j \<le> interval"
    and "interval div 2 < int (length (es_buckets (es0 ! j))) * periods ! j + int (length (es_buckets (es0 ! j)))"
    and "estimator_ok (p j) (es0 ! j)" and "es_group_by (es0 ! j) = []"
  shows "selected_hits (p j) (es_filter (es0 ! j))
      {(t, ts) \<in> M. T - interval div 2 + int (length (es_buckets (es0 ! j))) + 2 * delay + iv \<le> t \<and> identified len A ts}
      \<subseteq> es_global_hits (ap_estimators (sv_app s) ! j)
    \<and> es_global_hits (ap_estimators (sv_app s) ! j) \<subseteq> selected_hits (p j) (es_filter (es0 ! j)) {(t, ts) \<in> M. T - interval - delay < t}"
proof -
  let ?fresh = "es0 ! j" and ?e = "ap_estimators (sv_app s) ! j" and ?n = "length (es_buckets (es0 ! j))"
  let ?W = "delay + 10 * (iv div 10)" and ?hits = "selected_hits (p j) (es_filter (es0 ! j))"
  let ?r = "loop_rotor (ap_estimators (sv_app s) ! j) (sv_loops s ! j)" and ?lg = "entries_of sum64 (p j) None (es0 ! j) F"
  have st: "streams_ok sum64 p (\<lambda>j. subject_of (es0 ! j) k) es0 delay periods s T dues F" and FM: "F \<subseteq> M" "snd ` M \<subseteq> A"
    and reach: "\<forall>x \<in> M. identified len A (snd x) \<longrightarrow> reached ?W F x"
    using assms(1) unfolding service_ok_def by blast+
  have len: "length (sv_loops s) = length es0" "length dues = length es0" "map lp_period (sv_loops s) = periods"
    and rj: "rotor_ok (p j) (subject_of ?fresh k) ?fresh delay ?r T (dues ! j) (entries_of sum64 (p j) (subject_of ?fresh k) ?fresh F)"
    using streams_okD [OF st] assms(3) by simp_all
  have "subject_of ?fresh k = None" using assms(4) by (simp add: subject_of_def)
  note r = rj [unfolded this]
  have d: "T < dues ! j + delay" using assms(2,3) len(2) by simp
  have per: "ro_period ?r = periods ! j" using assms(3) len(1) unfolding len(3) [symmetric] by simp
  note w = window_bounds [OF r d _ assms(5,6) [folded per]]
  let ?shown = "\<lambda>i. fst (gens None (es_buckets ?e ! i)) \<union> snd (gens None (es_buckets ?e ! i))"
  have "es_shell ?e = es_shell ?fresh" using r unfolding rotor_ok_def loop_rotor_simps by blast
  from es_shell_length [OF this] have "length (es_buckets ?e) = ?n" .
  then have hits: "es_global_hits ?e = (\<Union>i < ?n. ?shown i)"
    unfolding es_global_hits_def Union_buckets by (simp add: gens_def es_hits_gens)
  note logd = logged_entries_of [OF assms(7,8), of sum64 F]
  have "?hits {(t, ts) \<in> M. T - interval div 2 + int ?n + 2 * delay + iv \<le> t \<and> identified len A ts}
      \<subseteq> ?hits {(t, ts) \<in> M. (T - interval div 2 + int ?n + delay) + ?W \<le> t \<and> identified len A ts}"
    by (rule selected_hits_mono) auto
  also have "\<dots> \<subseteq> ?hits {(t, ts) \<in> F. T - interval div 2 + int ?n + delay \<le> t}" by (rule reached_hits [OF reach FM])
  also have "\<dots> \<subseteq> es_global_hits ?e"
    unfolding hits logd [symmetric] using w(2) by (intro UN_mono order_refl) simp
  finally have lower: "?hits {(t, ts) \<in> M. T - interval div 2 + int ?n + 2 * delay + iv \<le> t \<and> identified len A ts} \<subseteq> es_global_hits ?e" .
  have "es_global_hits ?e \<subseteq> ?hits {(t, ts) \<in> F. T - interval - delay < t}"
    unfolding hits logd [symmetric] using w(1) by (intro UN_mono order_refl) simp
  also have "\<dots> \<subseteq> ?hits {(t, ts) \<in> M. T - interval - delay < t}" using FM(1) by (intro selected_hits_mono) auto
  finally show ?thesis using lower by blast
qed

text \<open>C5: What a deduplicator may cost: the program starts, its requests, the rotation goroutines of all estimators
  and the one of the deduplicator then run with timers less than \<open>delay\<close> late.  Nothing panics, and at every
  time each global stream shows all selected series sent within the last half interval less the deduplication
  interval (and less two delays and a nanosecond per bucket), except series that the bloom filters cannot tell from
  others that are sent; and it shows nothing last sent more than an interval and \<open>delay\<close> ago.  So with the advised
  ratio of three a stream keeps showing what is sent in every sixth of its interval, less that slack.\<close>

theorem deduplicated_window:
  assumes "env_ok env" and "start_program env iv max_size read_file = Inr (Some rl)" and "0 < iv" and "max_size < 2 ^ 63"
    and "start_service (rl_app rl) nows now = Inr s" and "length nows = length (ap_estimators (rl_app rl))"
    and "\<forall>t \<in> set (now # nows). 0 \<le> t \<and> t \<le> clock" and "\<forall>loop \<in> set (sv_loops s). delay \<le> lp_period loop" and "delay \<le> iv div 10"
    and "in_time delay (map lp_period (sv_loops s)) (iv div 10) clock (map (the \<circ> lp_due) (sv_loops s)) (the (sv_boundary s)) evs T"
  shows "\<exists>s'. fold_err (service_step sum64) s evs = Inr s' \<and> (\<forall>j < length (ap_estimators (rl_app rl)).
    let e = ap_estimators (rl_app rl) ! j; p = effective_precision (es_cfg e); interval = ec_interval (es_cfg e);
        shown = es_global_hits (ap_estimators (sv_app s') ! j); len = length (bf_bits (new_bloom (max_size div 10)))
    in ec_group_by (es_cfg e) = [] \<longrightarrow>
         selected_hits p (es_filter e) {(t, ts) \<in> sent evs.
            T - interval div 2 + int (length (es_buckets e)) + 2 * delay + iv \<le> t \<and> identified len (snd ` sent evs) ts} \<subseteq> shown
         \<and> shown \<subseteq> selected_hits p (es_filter e) {(t, ts) \<in> sent evs. T - interval - delay < t})"
proof -
  let ?es = "ap_estimators (rl_app rl)" and ?A = "snd ` sent evs"
  obtain d where d: "ap_dedup (rl_app rl) = Some d" "new_deduplicator max_size iv = Inr d"
    and es: "\<forall>e \<in> set ?es. fresh_estimator (es_cfg e) e \<and> 0 < ec_interval (es_cfg e)" "length ?es \<le> 2 ^ 31"
    by (rule started_program [OF assms(1,3,2)])
  note st = start_service_ok [OF assms(5,6) es(1) d assms(4,7,8)]
  have b: "the (sv_boundary s) = dedup_boundary d now"
    using assms(5) d(1) by (auto simp: start_service_def map_sum_Inr)
  have bm: "dd_bucket_max_size d = max_size div 10"
    by (rule new_deduplicator_result(7) [OF d(2) assms(4)])
  obtain s' dues b' F where s': "fold_err (service_step sum64) s evs = Inr s'" "\<forall>due \<in> set dues. T < due + delay"
    "service_ok sum64 (\<lambda>j. effective_precision (es_cfg (?es ! j))) (\<lambda>j. subject_of (?es ! j) 0) ?es delay (map lp_period (sv_loops s)) iv
       (length (bf_bits (new_bloom (max_size div 10)))) ?A s' T dues b' (sent evs) F"
    using service_run [OF st(1) assms(10) [unfolded b] subset_refl es(2) assms(9), of sum64 0, unfolded bm Un_empty_left] by blast
  have "streams_ok sum64 (\<lambda>j. effective_precision (es_cfg (?es ! j))) (\<lambda>j. subject_of (?es ! j) 0) ?es delay
      (map lp_period (sv_loops s)) s clock (map (the \<circ> lp_due) (sv_loops s)) {}" using st(1) [of sum64 0 ?A] unfolding service_ok_def by (rule conjunct1)
  note len = streams_okD(1) [OF this]
  show ?thesis
  proof (intro exI [of _ s'] conjI allI impI s'(1), unfold Let_def, intro impI)
    fix j assume j: "j < length ?es" and g: "ec_group_by (es_cfg (?es ! j)) = []"
    have e: "estimator_ok (effective_precision (es_cfg (?es ! j))) (?es ! j)" "es_group_by (?es ! j) = []"
      using es(1) j g by (simp_all add: fresh_estimator_def)
    have "map lp_period (sv_loops s) ! j = lp_period (sv_loops s ! j)" using j len by simp
    note per = st(2) [OF j, folded this]
    show "selected_hits (effective_precision (es_cfg (?es ! j))) (es_filter (?es ! j)) {(t, ts) \<in> sent evs.
          T - ec_interval (es_cfg (?es ! j)) div 2 + int (length (es_buckets (?es ! j))) + 2 * delay + iv \<le> t
          \<and> identified (length (bf_bits (new_bloom (max_size div 10)))) ?A ts} \<subseteq> es_global_hits (ap_estimators (sv_app s') ! j)
      \<and> es_global_hits (ap_estimators (sv_app s') ! j)
        \<subseteq> selected_hits (effective_precision (es_cfg (?es ! j))) (es_filter (?es ! j)) {(t, ts) \<in> sent evs. T - ec_interval (es_cfg (?es ! j)) - delay < t}"
      using service_window [OF s'(3,2) j g conjunct1 [OF per] conjunct2 [OF per] e] .
  qed
qed

subsection \<open>A concrete run\<close>

text \<open>One global stream behind a deduplicator of a minute; the interval is the default of five minutes.\<close>

definition global_run_env :: "snapshot list run_env" where
  "global_run_env = demo_run_env\<lparr>re_unmarshal := (\<lambda>_. Inr [plain_config []])\<rparr>"

lemma global_env_ok: "env_ok global_run_env"
  using demo_env_ok by (simp add: env_ok_def global_run_env_def decoded_ok_def plain_config_def map_ok_def)

lemma global_start:
  "\<exists>rl e d. start_program global_run_env 60000000000 10000 (\<lambda>_. Inr ''streams'') = Inr (Some rl)
    \<and> ap_estimators (rl_app rl) = [e] \<and> ap_dedup (rl_app rl) = Some d \<and> dd_interval d = 60000000000
    \<and> length (es_buckets e) = 4 \<and> es_filter e = [] \<and> es_cfg e = apply_defaults 2 (plain_config [])"
proof -
  let ?gs = "apply_defaults 2 (plain_config [])" and ?parse = "\<lambda>_. Inl [] :: string + parsed_expr" and ?re = "\<lambda>_. Inl [] :: string + (string \<Rightarrow> bool)"
  obtain d where d: "new_deduplicator 10000 60000000000 = Inr d" "dd_interval d = 60000000000" using plain_deduplicator by blast
  have sd: "start_deduplicator 60000000000 10000 = Inr (Started d)"
    using d(1) by (simp add: start_deduplicator_def dedup_min_max_size_def dedup_min_interval_def)
  have n: "normal_stream 2 (plain_config []) = ?gs" by (simp add: normal_stream_def normal_group_def plain_config_def)
  have "\<not> rejected_streams 2 [plain_config []]" by (simp add: rejected_streams_def bad_stream_def plain_config_def)
  then have "prepare 2 [plain_config []] = Inr [?gs]" using prepare_spec n by simp
  then obtain h where cfg: "read_streams global_run_env (\<lambda>_. Inr ''streams'') = Inr \<lparr>cf_hash = h, cf_streams = [?gs]\<rparr>"
    by (simp add: read_streams_def read_config_def global_run_env_def demo_run_env_def)
  have "apply_defaults 2 ?gs = ?gs" by (simp add: apply_defaults_def plain_config_def)
  then have same: "new_estimator 2 ?parse ?re ?gs = new_estimator 2 ?parse ?re (plain_config [])" by (simp add: new_estimator_def)
  obtain e where p: "new_estimator 2 ?parse ?re (plain_config []) = Inr e" "length (es_buckets e) = 4" "es_filter e = []"
    using plain_global by blast
  have "es_cfg e = ?gs" using p(1) by (auto simp: new_estimator_def Let_def split: if_splits option.splits sum.splits)
  note e = p(1) [folded same] p(2,3) this
  have "load_config 2 ?parse ?re [?gs] (initial_app (Some d))
      = Inr ((initial_app (Some d))\<lparr>ap_fingerprint_labels := es_has_label_keyword e, ap_estimators := [e], ap_dedup := Some d,
               ap_cm := invalidate_cardinality_cache [] new_cm_state\<rparr>, Inr True)"
    using e(1) by (simp add: load_config_def load_stream_def create_stream_def initial_app_def by_id_def reset_new_deduplicator [OF d(1)])
  then show ?thesis using sd cfg e(2-4) d(2)
    by (simp add: start_program_def global_run_env_def demo_run_env_def initial_app_def Let_def)
qed

theorem deduplicated_window_witness:
  "\<exists>rl e s s'. start_program global_run_env 60000000000 10000 (\<lambda>_. Inr ''streams'') = Inr (Some rl) \<and> ap_estimators (rl_app rl) = [e]
    \<and> start_service (rl_app rl) [5] 5 = Inr s
    \<and> fold_err (service_step (\<lambda>_. 0)) s [Write 7 (\<lambda>_. 0) [serie1 ''job'' ''a'' 5], Write 8 (\<lambda>_. 0) [serie1 ''job'' ''a'' 5]] = Inr s'
    \<and> es_global_hits (ap_estimators (sv_app s') ! 0) = fp_hits 4 5"
proof -
  let ?ts = "serie1 ''job'' ''a'' 5"
  let ?evs = "[Write 7 (\<lambda>_. 0) [?ts], Write 8 (\<lambda>_. 0) [?ts]]"
  obtain rl e d where rl: "start_program global_run_env 60000000000 10000 (\<lambda>_. Inr ''streams'') = Inr (Some rl)"
    "ap_estimators (rl_app rl) = [e]" "ap_dedup (rl_app rl) = Some d" "dd_interval d = 60000000000"
    "length (es_buckets e) = 4" "es_filter e = []" "es_cfg e = apply_defaults 2 (plain_config [])" using global_start by blast
  have c: "ec_interval (es_cfg e) = 300000000000" "effective_precision (es_cfg e) = 4" "ec_group_by (es_cfg e) = []"
    by (simp_all add: rl(7) apply_defaults_def plain_config_def effective_precision_def)
  have sr: "start_rotation e (ec_interval (es_cfg e)) 5 = Inr \<lparr>ro_est = e, ro_period = 37500000000, ro_bucket = 0, ro_due = Some 37500000000\<rparr>"
    by (simp add: c rl(5) start_rotation_def rotation_period_def arm_timer_def rotation_wait_def go_quot_def go_rem_def Let_def)
  have b: "dedup_boundary d 5 = 6000000000"
    by (simp add: dedup_boundary_def rl(4) go_quot_def next_boundary_def truncate_time_def unix_epoch_def)
  define s where "s = \<lparr>sv_app = rl_app rl, sv_loops = [\<lparr>lp_period = 37500000000, lp_bucket = 0, lp_due = Some 37500000000\<rparr>], sv_boundary = Some 6000000000\<rparr>"
  have s: "start_service (rl_app rl) [5] 5 = Inr s"
    using sr b rl(2,3) by (simp add: start_service_def s_def rotor_loop_def)
  have m: "(0 :: int) < 60000000000" "(10000 :: int) < 2 ^ 63" "(1 :: int) \<le> 60000000000 div 10" by simp_all
  have n: "length [5] = length (ap_estimators (rl_app rl))" by (simp add: rl(2))
  have t: "\<forall>t \<in> set (5 # [5]). 0 \<le> t \<and> t \<le> (5 :: int)" by simp
  have p: "\<forall>loop \<in> set (sv_loops s). 1 \<le> lp_period loop" by (simp add: s_def)
  have i: "in_time 1 (map lp_period (sv_loops s)) (60000000000 div 10) 5 (map (the \<circ> lp_due) (sv_loops s)) (the (sv_boundary s)) ?evs 9"
    by (simp add: s_def)
  have sel: "selected_hits 4 [] {(7, ?ts), (8, ?ts)} = fp_hits 4 5"
  proof -
    have "ts_fingerprint ?ts = 5" by (simp add: serie1_def)
    then show ?thesis by (fastforce simp: selected_hits_def)
  qed
  obtain s' where s': "fold_err (service_step (\<lambda>_. 0)) s ?evs = Inr s'"
    and w: "\<forall>j < length (ap_estimators (rl_app rl)).
      let e = ap_estimators (rl_app rl) ! j; p = effective_precision (es_cfg e); interval = ec_interval (es_cfg e);
          shown = es_global_hits (ap_estimators (sv_app s') ! j); len = length (bf_bits (new_bloom (10000 div 10)))
      in ec_group_by (es_cfg e) = [] \<longrightarrow>
           selected_hits p (es_filter e) {(t, ts) \<in> sent ?evs.
              9 - interval div 2 + int (length (es_buckets e)) + 2 * 1 + 60000000000 \<le> t \<and> identified len (snd ` sent ?evs) ts} \<subseteq> shown
           \<and> shown \<subseteq> selected_hits p (es_filter e) {(t, ts) \<in> sent ?evs. 9 - interval - 1 < t}"
    using deduplicated_window [OF global_env_ok rl(1) m(1,2) s n t p m(3) i, of "\<lambda>_. 0"] by blast
  let ?shown = "es_global_hits (ap_estimators (sv_app s') ! 0)"
  have sent: "snd ` sent ?evs = {?ts}" by auto
  have "selected_hits 4 [] {(t, ts) \<in> sent ?evs. 9 - 300000000000 div 2 + 4 + 2 * 1 + 60000000000 \<le> t
        \<and> identified (length (bf_bits (new_bloom (10000 div 10)))) {?ts} ts} \<subseteq> ?shown"
    and "?shown \<subseteq> selected_hits 4 [] {(t, ts) \<in> sent ?evs. 9 - 300000000000 - 1 < t}"
    using w [rule_format, of 0] unfolding sent rl(2) by (simp_all only: Let_def c rl(5,6) nth_Cons_0 list.size) simp_all
  moreover have "{(t, ts) \<in> sent ?evs. 9 - 300000000000 div 2 + 4 + 2 * 1 + 60000000000 \<le> t
      \<and> identified (length (bf_bits (new_bloom (10000 div 10)))) {?ts} ts} = {(7, ?ts), (8, ?ts)}" using identified_alone by auto
  moreover have "{(t, ts) \<in> sent ?evs. 9 - 300000000000 - 1 < t} = {(7, ?ts), (8, ?ts)}" by auto
  ultimately have "?shown = fp_hits 4 5" unfolding sel by (simp add: sel)
  then show ?thesis using rl(1,2) s s' by blast
qed

end
