(* ===== verification/Lifecycle.thy ===== *)
theory Lifecycle
  imports Dedup_Window
begin

section \<open>Goroutines and their channels, from the start to the shutdown\<close>

text \<open>
  An estimator runs a goroutine until its channel \<^verbatim>\<open>stopCh\<close> is closed, and so do the deduplicator and the
  reloader.  Closing a channel twice is a panic, and a channel that is never closed leaves a goroutine behind.
  Estimators are stopped in three places: a load that fails stops those it has made, a load that succeeds stops
  those it has removed, and the shutdown in \<^verbatim>\<open>main\<close> stops the active ones, while a reload may still be running.
  Here channels are numbers, and all of them, with the program state of theory \<open>App_Run\<close>, make the process.
\<close>

subsection \<open>Channels\<close>

text \<open>Which of the channels made so far are closed.\<close>

type_synonym channels = "bool list"

definition make_chan :: "channels \<Rightarrow> nat \<times> channels" where
  "make_chan cs = (length cs, cs @ [False])"

definition close_chan :: "channels \<Rightarrow> nat \<Rightarrow> go_panic + channels" where
  "close_chan cs c = (if c < length cs \<and> \<not> cs ! c then Inr (cs[c := True]) else Inl (BugPanic ''close of closed channel''))"

definition open_chans :: "channels \<Rightarrow> nat set" where
  "open_chans cs = {c. c < length cs \<and> \<not> cs ! c}"

lemma open_bound: "c \<in> open_chans cs \<Longrightarrow> c < length cs"
  by (simp add: open_chans_def)

lemma open_make: "make_chan cs = (c, cs') \<Longrightarrow> c = length cs \<and> c \<notin> open_chans cs \<and> open_chans cs' = insert c (open_chans cs) \<and> length cs' = Suc (length cs)"
  by (auto simp: make_chan_def open_chans_def nth_append less_Suc_eq)

lemma open_close: "c \<in> open_chans cs \<Longrightarrow> \<exists>cs'. close_chan cs c = Inr cs' \<and> open_chans cs' = open_chans cs - {c} \<and> length cs' = length cs"
  by (auto simp: open_chans_def close_chan_def nth_list_update)

text \<open>Closing a list of channels works exactly when all are open and none occurs twice.\<close>

definition close_all :: "nat list \<Rightarrow> channels \<Rightarrow> go_panic + channels" where
  "close_all xs cs = fold_err close_chan cs xs"

lemma close_all_ok:
  assumes "distinct xs" and "set xs \<subseteq> open_chans cs"
  shows "\<exists>cs'. close_all xs cs = Inr cs' \<and> open_chans cs' = open_chans cs - set xs \<and> length cs' = length cs"
  using assms unfolding close_all_def
proof (induction xs arbitrary: cs)
  case (Cons x xs)
  obtain cs1 where cs1: "close_chan cs x = Inr cs1" "open_chans cs1 = open_chans cs - {x}" "length cs1 = length cs"
    using open_close [of x cs] Cons.prems(2) by auto
  have "set xs \<subseteq> open_chans cs1" using Cons.prems cs1(2) by auto
  from Cons.IH [OF _ this] Cons.prems(1) cs1 show ?case by auto
qed simp

subsection \<open>Loading a configuration\<close>

text \<open>An estimator with its channel, and \<^verbatim>\<open>loadConfig\<close> over such estimators.\<close>

type_synonym running = "estimator \<times> nat"

type_synonym running_state = "(string, running) gomap \<times> running list \<times> running list \<times> channels"

definition start_estimator ::
  "int \<Rightarrow> selector_parser \<Rightarrow> regexp_compiler \<Rightarrow> estimator_config \<Rightarrow> channels \<Rightarrow> estimator_error failure + running \<times> channels" where
  "start_estimator cpus parse compile_re ec cs =
     map_sum id (\<lambda>e. let (c, cs') = make_chan cs in ((e, c), cs')) (new_estimator cpus parse compile_re ec)"

definition create_running ::
  "int \<Rightarrow> selector_parser \<Rightarrow> regexp_compiler \<Rightarrow> running_state \<Rightarrow> estimator_config
   \<Rightarrow> (estimator_error \<times> running list \<times> channels) failure + running_state" where
  "create_running cpus parse compile_re st ec =
     (case st of (removed, rs, created, cs) \<Rightarrow>
        (case start_estimator cpus parse compile_re ec cs of
           Inl (Panicked p) \<Rightarrow> Inl (Panicked p)
         | Inl (Failed err) \<Rightarrow> Inl (Failed (err, created, cs))
         | Inr (r, cs') \<Rightarrow> Inr (removed, rs @ [r], created @ [r], cs')))"

definition run_stream ::
  "int \<Rightarrow> selector_parser \<Rightarrow> regexp_compiler \<Rightarrow> running_state \<Rightarrow> estimator_config
   \<Rightarrow> (estimator_error \<times> running list \<times> channels) failure + running_state" where
  "run_stream cpus parse compile_re st ec =
     (case st of (removed, rs, created, cs) \<Rightarrow>
        (case map_of removed (config_id ec) of
           None \<Rightarrow> create_running cpus parse compile_re st ec
         | Some r \<Rightarrow>
             if deep_equal (es_cfg (fst r)) ec then Inr (AList.delete (config_id ec) removed, rs @ [r], created, cs)
             else create_running cpus parse compile_re st ec))"

definition running_by_id :: "running list \<Rightarrow> (string, running) gomap" where
  "running_by_id rs = foldl (\<lambda>m r. AList.update (es_id (fst r)) r m) [] rs"

text \<open>\<open>stop\<close> closes the channel of an estimator; the result is that of \<open>load_config\<close>, with the active estimators.\<close>

definition load_running ::
  "int \<Rightarrow> selector_parser \<Rightarrow> regexp_compiler \<Rightarrow> estimator_config list \<Rightarrow> running list \<Rightarrow> channels
   \<Rightarrow> go_panic + (running list \<times> (estimator_error + bool)) \<times> channels" where
  "load_running cpus parse compile_re streams old cs =
     (case fold_err (run_stream cpus parse compile_re) (running_by_id old, [], [], cs) streams of
        Inl (Panicked p) \<Rightarrow> Inl p
      | Inl (Failed (err, created, cs')) \<Rightarrow> map_sum id (\<lambda>cs''. ((old, Inl err), cs'')) (close_all (map snd created) cs')
      | Inr (removed, rs, created, cs') \<Rightarrow>
          if created = [] \<and> removed = [] then Inr ((old, Inr False), cs')
          else map_sum id (\<lambda>cs''. ((rs, Inr True), cs'')) (close_all (map (snd \<circ> snd) removed) cs'))"

subsection \<open>Loading and the channels\<close>

text \<open>Without the channels this is \<open>load_config\<close>.\<close>

definition plain_state :: "running_state \<Rightarrow> load_state" where
  "plain_state st = (case st of (removed, rs, created, cs) \<Rightarrow> (map (\<lambda>(i, r). (i, fst r)) removed, map fst rs, map fst created))"

lemma map_of_plain: "map_of (map (\<lambda>(i, r). (i, fst r)) m) k = map_option fst (map_of m k)"
  by (induction m) auto

lemma delete_plain: "AList.delete k (map (\<lambda>(i, r). (i, fst r)) m) = map (\<lambda>(i, r). (i, fst r)) (AList.delete k m)"
  by (induction m) auto

lemma create_running_plain:
  "create_stream cpus parse compile_re (plain_state st) ec =
     map_sum (map_failure (\<lambda>(err, created, cs). (err, map fst created))) plain_state (create_running cpus parse compile_re st ec)"
  by (cases st) (auto simp: create_stream_def create_running_def start_estimator_def plain_state_def
      split: sum.splits failure.splits prod.splits)

lemma run_stream_plain:
  "load_stream cpus parse compile_re (plain_state st) ec =
     map_sum (map_failure (\<lambda>(err, created, cs). (err, map fst created))) plain_state (run_stream cpus parse compile_re st ec)"
proof -
  obtain removed rs created cs where st: "st = (removed, rs, created, cs)" using prod_cases4 by blast
  show ?thesis
    using create_running_plain [of cpus parse compile_re st ec]
    by (auto simp: st load_stream_def run_stream_def plain_state_def map_of_plain delete_plain split: option.splits)
qed

lemma run_streams_plain:
  "fold_err (load_stream cpus parse compile_re) (plain_state st) streams =
     map_sum (map_failure (\<lambda>(err, created, cs). (err, map fst created))) plain_state (fold_err (run_stream cpus parse compile_re) st streams)"
proof (induction streams arbitrary: st)
  case (Cons ec streams)
  then show ?case by (cases "run_stream cpus parse compile_re st ec") (simp_all add: run_stream_plain)
qed simp

text \<open>The channels of the estimators to come and of the removed ones are those of the old and of the created ones.\<close>

definition accounted :: "channels \<Rightarrow> nat list \<Rightarrow> running_state \<Rightarrow> bool" where
  "accounted cs0 old st \<longleftrightarrow> (case st of (removed, rs, created, cs) \<Rightarrow>
     map_ok removed \<and> mset (map snd rs) + mset (map (snd \<circ> snd) removed) = mset old + mset (map snd created)
     \<and> distinct (map snd created) \<and> (\<forall>c \<in> set (map snd created). length cs0 \<le> c) \<and> length cs0 \<le> length cs
     \<and> open_chans cs = open_chans cs0 \<union> set (map snd created))"

lemma delete_mset:
  assumes "map_ok m" and "map_of m k = Some v"
  shows "mset (map f m) = add_mset (f (k, v)) (mset (map f (AList.delete k m))) \<and> map_ok (AList.delete k m)"
  using assms
proof (induction m)
  case (Cons x m)
  obtain i w where x: "x = (i, w)" by force
  have m: "map_ok m" "i \<notin> map_keys m" using Cons.prems(1) by (auto simp: x map_ok_def)
  show ?case
  proof (cases "i = k")
    case True
    then have "AList.delete k m = m" using m(2) by (induction m) auto
    then show ?thesis using True Cons.prems(2) m(1) by (simp add: x)
  next
    case False
    moreover have "i \<notin> map_keys (AList.delete k m)" using m(2) by (induction m) auto
    ultimately show ?thesis using Cons.IH [OF m(1)] Cons.prems(2) by (auto simp: x map_ok_def)
  qed
qed simp

lemma create_running_accounted:
  assumes "accounted cs0 old st"
  shows "case create_running cpus parse compile_re st ec of
      Inl (Failed (err, created, cs)) \<Rightarrow> \<exists>removed rs. st = (removed, rs, created, cs)
    | Inl (Panicked p) \<Rightarrow> True
    | Inr st' \<Rightarrow> accounted cs0 old st'"
proof -
  obtain removed rs created cs where st: "st = (removed, rs, created, cs)" using prod_cases4 by blast
  show ?thesis
  proof (cases "new_estimator cpus parse compile_re ec")
    case (Inl f)
    then show ?thesis by (cases f) (simp_all add: st create_running_def start_estimator_def)
  next
    case (Inr e)
    obtain c cs' where c: "make_chan cs = (c, cs')" by force
    have "accounted cs0 old (removed, rs @ [(e, c)], created @ [(e, c)], cs')"
      using assms open_make [OF c] by (auto simp: st accounted_def)
    then show ?thesis using Inr c by (simp add: st create_running_def start_estimator_def)
  qed
qed

lemma run_stream_accounted:
  assumes "accounted cs0 old st"
  shows "case run_stream cpus parse compile_re st ec of
      Inl (Failed (err, created, cs)) \<Rightarrow> \<exists>removed rs. st = (removed, rs, created, cs)
    | Inl (Panicked p) \<Rightarrow> True
    | Inr st' \<Rightarrow> accounted cs0 old st'"
proof -
  obtain removed rs created cs where st: "st = (removed, rs, created, cs)" using prod_cases4 by blast
  note create = create_running_accounted [OF assms, of cpus parse compile_re ec]
  show ?thesis
  proof (cases "map_of removed (config_id ec)")
    case None
    then show ?thesis using create by (simp add: st run_stream_def)
  next
    case (Some r)
    have m: "map_ok removed" "mset (map snd rs) + mset (map (snd \<circ> snd) removed) = mset old + mset (map snd created)"
      using assms by (simp_all add: st accounted_def)
    note d = delete_mset [OF m(1) Some, of "snd \<circ> snd"]
    have "accounted cs0 old (AList.delete (config_id ec) removed, rs @ [r], created, cs)"
      using assms d m(2) by (auto simp: st accounted_def)
    then show ?thesis using Some create by (simp add: st run_stream_def)
  qed
qed

lemma run_streams_accounted:
  assumes "accounted cs0 old st"
  shows "case fold_err (run_stream cpus parse compile_re) st streams of
      Inl (Failed (err, created, cs)) \<Rightarrow> \<exists>removed rs. accounted cs0 old (removed, rs, created, cs)
    | Inl (Panicked p) \<Rightarrow> True
    | Inr st' \<Rightarrow> accounted cs0 old st'"
  using assms
proof (induction streams arbitrary: st)
  case (Cons ec streams)
  note step = run_stream_accounted [OF Cons.prems, of cpus parse compile_re ec]
  show ?case
  proof (cases "run_stream cpus parse compile_re st ec")
    case (Inl f)
    then show ?thesis using step Cons.prems by (auto split: failure.splits)
  next
    case (Inr st')
    then show ?thesis using step Cons.IH [of st'] by simp
  qed
qed simp

lemma running_by_id_eq:
  assumes "distinct (map (\<lambda>r. es_id (fst r)) rs)"
  shows "running_by_id rs = map (\<lambda>r. (es_id (fst r), r)) rs"
proof -
  have "foldl (\<lambda>m r. AList.update (es_id (fst r)) r m) m rs = m @ map (\<lambda>r. (es_id (fst r), r)) rs"
    if "distinct (map fst m @ map (\<lambda>r. es_id (fst r)) rs)" for m
    using that
  proof (induction rs arbitrary: m)
    case (Cons r rs)
    have "es_id (fst r) \<notin> map_keys m" using Cons.prems by auto
    then have u: "AList.update (es_id (fst r)) r m = m @ [(es_id (fst r), r)]" by (induction m) auto
    have "distinct (map fst (m @ [(es_id (fst r), r)]) @ map (\<lambda>r. es_id (fst r)) rs)" using Cons.prems by auto
    from Cons.IH [OF this] show ?case by (simp add: u)
  qed simp
  from this [of "[]"] assms show ?thesis by (simp add: running_by_id_def)
qed

lemma running_by_id_plain: "map (\<lambda>(i, r). (i, fst r)) (running_by_id rs) = by_id (map fst rs)"
proof -
  have up: "AList.update k (fst r) (map (\<lambda>(i, r). (i, fst r)) m) = map (\<lambda>(i, r). (i, fst r)) (AList.update k r m)" for k and r :: running and m
    by (induction m) auto
  have "map (\<lambda>(i, r). (i, fst r)) (foldl (\<lambda>m r. AList.update (es_id (fst r)) r m) m rs)
      = foldl (\<lambda>m e. AList.update (es_id e) e m) (map (\<lambda>(i, r). (i, fst r)) m) (map fst rs)" for m
    by (induction rs arbitrary: m) (simp_all add: up)
  from this [of "[]"] show ?thesis by (simp add: running_by_id_def by_id_def)
qed

text \<open>
  Loading with channels does what \<open>load_config\<close> does, never closes a channel twice, and leaves exactly the channels of
  the estimators that are then active open, besides those that have nothing to do with estimators.
\<close>

lemma load_running_ok:
  assumes "map fst old = ap_estimators st" and "distinct (map es_id (ap_estimators st))"
    and "distinct (map snd old)" and "set (map snd old) \<subseteq> open_chans cs"
    and "load_config cpus parse compile_re streams st = Inr (st', res)"
  shows "\<exists>rs cs'. load_running cpus parse compile_re streams old cs = Inr ((rs, res), cs') \<and> map fst rs = ap_estimators st'
    \<and> distinct (map snd rs) \<and> (\<forall>c \<in> set (map snd rs) - set (map snd old). length cs \<le> c) \<and> length cs \<le> length cs'
    \<and> open_chans cs' = (open_chans cs - set (map snd old)) \<union> set (map snd rs)"
proof -
  let ?X = "open_chans cs" and ?old = "map snd old" and ?init = "(running_by_id old, [], [], cs) :: running_state"
  let ?fold = "fold_err (run_stream cpus parse compile_re) ?init streams"
  have ids: "distinct (map (\<lambda>r. es_id (fst r)) old)" using assms(2) unfolding assms(1) [symmetric] map_map comp_def .
  note b = running_by_id_eq [OF ids]
  have "map_ok (running_by_id old)" using ids by (simp add: b map_ok_def comp_def)
  moreover have "map (snd \<circ> snd) (running_by_id old) = ?old" by (simp add: b comp_def)
  ultimately have "accounted cs ?old ?init" unfolding accounted_def prod.case by (simp del: mset_map)
  note acc = run_streams_accounted [OF this, of cpus parse compile_re streams]
  have plain: "fold_err (load_stream cpus parse compile_re) (by_id (ap_estimators st), [], []) streams
      = map_sum (map_failure (\<lambda>(err, created, cs). (err, map fst created))) plain_state ?fold"
    using run_streams_plain [of cpus parse compile_re ?init streams]
    by (simp add: plain_state_def running_by_id_plain assms(1))
  show ?thesis
  proof (cases ?fold)
    case (Inl f)
    obtain err created cs1 where f: "f = Failed (err, created, cs1)"
      using Inl plain assms(5) by (cases f) (auto simp: load_config_def)
    obtain removed rs where a: "accounted cs ?old (removed, rs, created, cs1)" using acc by (auto simp: Inl f)
    then obtain cs' where c: "close_all (map snd created) cs1 = Inr cs'" "open_chans cs' = ?X" "length cs \<le> length cs'"
      using close_all_ok [of "map snd created" cs1] open_bound [of _ cs] by (fastforce simp: accounted_def)
    have "res = Inl err" "ap_estimators st' = ap_estimators st" using assms(5) plain by (auto simp: load_config_def Inl f)
    then show ?thesis using Inl f c assms(1,3,4) by (auto simp: load_running_def)
  next
    case (Inr s)
    obtain removed rs created cs1 where s: "s = (removed, rs, created, cs1)" using prod_cases4 by blast
    have a: "mset (map snd rs) + mset (map (snd \<circ> snd) removed) = mset ?old + mset (map snd created)"
      "distinct (map snd created)" "\<forall>c \<in> set (map snd created). length cs \<le> c" "open_chans cs1 = ?X \<union> set (map snd created)"
      "length cs \<le> length cs1" using acc by (simp_all add: Inr s accounted_def)
    have fresh: "set (map snd created) \<inter> ?X = {}" using a(3) open_bound [of _ cs] by fastforce
    have pl: "fold_err (load_stream cpus parse compile_re) (by_id (ap_estimators st), [], []) streams
        = Inr (map (\<lambda>(i, r). (i, fst r)) removed, map fst rs, map fst created)"
      using plain by (simp add: Inr s plain_state_def)
    have ld: "if created = [] \<and> removed = [] then st' = st \<and> res = Inr False else ap_estimators st' = map fst rs \<and> res = Inr True"
      using assms(5) unfolding load_config_def pl sum.case prod.case by (cases "created = [] \<and> removed = []") auto
    show ?thesis
    proof (cases "created = [] \<and> removed = []")
      case True
      then show ?thesis using ld a(4,5) assms(1,3,4) by (auto simp: load_running_def Inr s)
    next
      case False
      have all: "mset (map snd rs @ map (snd \<circ> snd) removed) = mset (?old @ map snd created)" using a(1) by simp
      have "distinct (?old @ map snd created)" using a(2) fresh assms(3,4) by auto
      then have d: "distinct (map snd rs @ map (snd \<circ> snd) removed)" using mset_eq_imp_distinct_iff [OF all] by blast
      have u: "set (map snd rs) \<union> set (map (snd \<circ> snd) removed) = set ?old \<union> set (map snd created)"
        using mset_eq_setD [OF all] by (simp only: set_append)
      have "set (map (snd \<circ> snd) removed) \<subseteq> open_chans cs1" unfolding a(4) using u assms(4) by blast
      moreover have "distinct (map (snd \<circ> snd) removed)" using d unfolding distinct_append by blast
      ultimately obtain cs' where c: "close_all (map (snd \<circ> snd) removed) cs1 = Inr cs'"
        "open_chans cs' = open_chans cs1 - set (map (snd \<circ> snd) removed)" "length cs' = length cs1"
        using close_all_ok by blast
      have "load_running cpus parse compile_re streams old cs = Inr ((rs, Inr True), cs')"
        unfolding load_running_def Inr sum.case s prod.case if_not_P [OF False] c(1) by simp
      moreover have "ap_estimators st' = map fst rs" "res = Inr True" using ld unfolding if_not_P [OF False] by simp_all
      moreover have "\<forall>c \<in> set (map snd rs) - set ?old. length cs \<le> c" using u a(3) by blast
      moreover have "length cs \<le> length cs'" using a(5) c(3) by simp
      moreover have "open_chans cs' = (?X - set ?old) \<union> set (map snd rs)" unfolding c(2) a(4)
      proof (intro equalityI subsetI)
        fix x assume "x \<in> ?X \<union> set (map snd created) - set (map (snd \<circ> snd) removed)"
        then show "x \<in> (?X - set ?old) \<union> set (map snd rs)" using u by blast
      next
        fix x assume x: "x \<in> (?X - set ?old) \<union> set (map snd rs)"
        have "set (map snd rs) \<inter> set (map (snd \<circ> snd) removed) = {}" using d by simp
        then show "x \<in> ?X \<union> set (map snd created) - set (map (snd \<circ> snd) removed)" using x u assms(4) fresh by blast
      qed
      ultimately show ?thesis using d by simp
    qed
  qed
qed

subsection \<open>The process\<close>

text \<open>
  Where \<^verbatim>\<open>main\<close> and the goroutine of the reloader are.  \<^verbatim>\<open>main\<close> serves until a signal arrives, stops the server, stops
  the reloader and waits for it, and then stops the estimators one by one; what it has deferred stops the
  deduplicator at the end.  The reloader waits in its \<^verbatim>\<open>select\<close>, or has been woken, or has returned.
\<close>

datatype main_pc = Serving | Draining | AwaitingReloader | StoppingEstimators "nat list" | Finished

datatype reloader_pc = Waiting | Woken | Returned

text \<open>
  The channels: of the estimators, in their order, of the deduplicator, and \<^verbatim>\<open>stopCh\<close> and \<^verbatim>\<open>doneCh\<close> of the reloader,
  which only runs when a configuration path is set.
\<close>

record process =
  pr_state :: reloader
  pr_stops :: "nat list"
  pr_chans :: channels
  pr_dedup_stop :: "nat option"
  pr_reload_chans :: "(nat \<times> nat) option"
  pr_main :: main_pc
  pr_reloader :: reloader_pc

definition start_process :: "'s run_env \<Rightarrow> reloader \<Rightarrow> process" where
  "start_process env rl =
     (let d = (if ap_dedup (rl_app rl) = None then 0 else 1);
          n = length (ap_estimators (rl_app rl));
          k = (if re_path env = [] then 0 else 2)
      in \<lparr>pr_state = rl, pr_stops = [d..<d + n], pr_chans = replicate (d + n + k) False,
          pr_dedup_stop = (if d = 0 then None else Some 0), pr_reload_chans = (if k = 0 then None else Some (d + n, d + n + 1)),
          pr_main = Serving, pr_reloader = (if k = 0 then Returned else Waiting)\<rparr>)"

text \<open>A reload: \<open>reload_step\<close> for the state, and the channels it makes and closes when it loads.\<close>

definition reload_running :: "'s run_env \<Rightarrow> (string \<Rightarrow> string + string) \<Rightarrow> process \<Rightarrow> go_panic + process" where
  "reload_running env read_file p =
     (case app_event env (pr_state p) (WakeReloader read_file) of
        Inl q \<Rightarrow> Inl q
      | Inr rl \<Rightarrow>
          (case read_streams env read_file of
             Inl err \<Rightarrow> Inr (p\<lparr>pr_state := rl\<rparr>)
           | Inr cfg \<Rightarrow>
               if cf_hash cfg = cf_hash (rl_cfg (pr_state p)) then Inr (p\<lparr>pr_state := rl\<rparr>)
               else map_sum id (\<lambda>((rs, _), cs). p\<lparr>pr_state := rl, pr_stops := map snd rs, pr_chans := cs\<rparr>)
                      (load_running (re_cpus env) (re_parse env) (re_compile env) (cf_streams cfg)
                         (zip (ap_estimators (rl_app (pr_state p))) (pr_stops p)) (pr_chans p))))"

datatype action =
    Happens event
  | WakeUp
  | Reload "string \<Rightarrow> string + string"
  | ReloaderReturns
  | Sigterm
  | ServerStopped
  | ReloaderStopped
  | StopNext

text \<open>A receive from a channel nobody sends to waits while the channel is open.\<close>

definition received :: "channels \<Rightarrow> nat \<Rightarrow> bool" where
  "received cs c \<longleftrightarrow> c \<notin> open_chans cs"

text \<open>
  \<open>None\<close>: the step is not possible.  Requests may still be in flight when the server has been stopped, and rotations go
  on until their goroutines have seen their channels closed, so both are possible until the process ends.  When
  \<^verbatim>\<open>stopCh\<close> is closed, the \<^verbatim>\<open>select\<close> may still choose a wake-up.
\<close>

fun may_happen :: "main_pc \<Rightarrow> event \<Rightarrow> bool" where
  "may_happen m (WakeReloader read_file) \<longleftrightarrow> False"
| "may_happen m ev \<longleftrightarrow> m \<noteq> Finished"

text \<open>
  The goroutine of \<^verbatim>\<open>startConfigReloader\<close>: its \<^verbatim>\<open>select\<close> is left by a wake-up, which is a reload, or because
  \<^verbatim>\<open>stopCh\<close> is closed, and then it closes \<^verbatim>\<open>doneCh\<close>.
\<close>

fun reloader_step :: "'s run_env \<Rightarrow> process \<Rightarrow> action \<Rightarrow> (go_panic + process) option" where
  "reloader_step env p WakeUp = (if pr_reloader p = Waiting then Some (Inr (p\<lparr>pr_reloader := Woken\<rparr>)) else None)"
| "reloader_step env p (Reload read_file) =
     (if pr_reloader p = Woken then Some (map_sum id (\<lambda>p'. p'\<lparr>pr_reloader := Waiting\<rparr>) (reload_running env read_file p)) else None)"
| "reloader_step env p ReloaderReturns =
     (case pr_reload_chans p of
        Some (s, d) \<Rightarrow>
          if pr_reloader p = Waiting \<and> received (pr_chans p) s
          then Some (map_sum id (\<lambda>cs. p\<lparr>pr_chans := cs, pr_reloader := Returned\<rparr>) (close_chan (pr_chans p) d))
          else None
      | None \<Rightarrow> None)"
| "reloader_step env p _ = None"

text \<open>The function that \<^verbatim>\<open>startConfigReloader\<close> returns closes \<^verbatim>\<open>stopCh\<close> and waits for \<^verbatim>\<open>doneCh\<close>; without a path it does nothing.\<close>

definition stop_reloader :: "process \<Rightarrow> go_panic + process" where
  "stop_reloader p =
     (case pr_reload_chans p of
        None \<Rightarrow> Inr (p\<lparr>pr_main := StoppingEstimators (pr_stops p)\<rparr>)
      | Some (s, d) \<Rightarrow> map_sum id (\<lambda>cs. p\<lparr>pr_chans := cs, pr_main := AwaitingReloader\<rparr>) (close_chan (pr_chans p) s))"

definition stop_dedup :: "process \<Rightarrow> go_panic + process" where
  "stop_dedup p =
     (case pr_dedup_stop p of
        None \<Rightarrow> Inr (p\<lparr>pr_main := Finished\<rparr>)
      | Some c \<Rightarrow> map_sum id (\<lambda>cs. p\<lparr>pr_chans := cs, pr_main := Finished\<rparr>) (close_chan (pr_chans p) c))"

declare stop_reloader_def [simp] stop_dedup_def [simp]

text \<open>What \<^verbatim>\<open>main\<close> does from the signal on.\<close>

fun main_step :: "process \<Rightarrow> action \<Rightarrow> (go_panic + process) option" where
  "main_step p Sigterm = (if pr_main p = Serving then Some (Inr (p\<lparr>pr_main := Draining\<rparr>)) else None)"
| "main_step p ServerStopped = (if pr_main p = Draining then Some (stop_reloader p) else None)"
| "main_step p ReloaderStopped =
     (case pr_reload_chans p of
        Some (s, d) \<Rightarrow>
          if pr_main p = AwaitingReloader \<and> received (pr_chans p) d
          then Some (Inr (p\<lparr>pr_main := StoppingEstimators (pr_stops p)\<rparr>))
          else None
      | None \<Rightarrow> None)"
| "main_step p StopNext =
     (case pr_main p of
        StoppingEstimators (c # rest) \<Rightarrow>
          Some (map_sum id (\<lambda>cs. p\<lparr>pr_chans := cs, pr_main := StoppingEstimators rest\<rparr>) (close_chan (pr_chans p) c))
      | StoppingEstimators [] \<Rightarrow> Some (stop_dedup p)
      | _ \<Rightarrow> None)"
| "main_step p _ = None"

fun life_step :: "'s run_env \<Rightarrow> process \<Rightarrow> action \<Rightarrow> (go_panic + process) option" where
  "life_step env p (Happens ev) =
     (if may_happen (pr_main p) ev then Some (map_sum id (\<lambda>rl. p\<lparr>pr_state := rl\<rparr>) (app_event env (pr_state p) ev)) else None)"
| "life_step env p WakeUp = reloader_step env p WakeUp"
| "life_step env p (Reload read_file) = reloader_step env p (Reload read_file)"
| "life_step env p ReloaderReturns = reloader_step env p ReloaderReturns"
| "life_step env p Sigterm = main_step p Sigterm"
| "life_step env p ServerStopped = main_step p ServerStopped"
| "life_step env p ReloaderStopped = main_step p ReloaderStopped"
| "life_step env p StopNext = main_step p StopNext"

fun life_run :: "'s run_env \<Rightarrow> process \<Rightarrow> action list \<Rightarrow> (go_panic + process) option" where
  "life_run env p [] = Some (Inr p)"
| "life_run env p (a # acts) =
     (case life_step env p a of
        None \<Rightarrow> None
      | Some (Inl q) \<Rightarrow> Some (Inl q)
      | Some (Inr p') \<Rightarrow> life_run env p' acts)"

lemma life_run_append:
  "life_run env p (xs @ ys) = (case life_run env p xs of Some (Inr p') \<Rightarrow> life_run env p' ys | r \<Rightarrow> r)"
  by (induction xs arbitrary: p) (auto split: option.splits sum.splits)

subsection \<open>The invariant\<close>

text \<open>The channels that are still open, each once, and what \<^verbatim>\<open>main\<close> and the reloader know of each other.\<close>

definition open_list :: "process \<Rightarrow> nat list" where
  "open_list p =
     (case pr_main p of Finished \<Rightarrow> [] | StoppingEstimators rest \<Rightarrow> rest | _ \<Rightarrow> pr_stops p)
     @ (case pr_dedup_stop p of Some c \<Rightarrow> if pr_main p = Finished then [] else [c] | None \<Rightarrow> [])
     @ (case pr_reload_chans p of
          Some (s, d) \<Rightarrow> (if pr_main p \<in> {Serving, Draining} then [s] else []) @ (if pr_reloader p = Returned then [] else [d])
        | None \<Rightarrow> [])"

definition reload_chans_ok :: "process \<Rightarrow> bool" where
  "reload_chans_ok p \<longleftrightarrow> (\<forall>s d. pr_reload_chans p = Some (s, d) \<longrightarrow>
     s < length (pr_chans p) \<and> d < length (pr_chans p)
     \<and> (s \<in> open_chans (pr_chans p) \<longrightarrow> pr_main p \<in> {Serving, Draining})
     \<and> (d \<in> open_chans (pr_chans p) \<longrightarrow> pr_reloader p \<noteq> Returned))"

definition process_ok :: "'s run_env \<Rightarrow> process \<Rightarrow> bool" where
  "process_ok env p \<longleftrightarrow>
     run_ok (pr_state p) \<and> length (pr_stops p) = length (ap_estimators (rl_app (pr_state p)))
     \<and> distinct (open_list p) \<and> open_chans (pr_chans p) = set (open_list p)
     \<and> (pr_reload_chans p = None \<longrightarrow> pr_reloader p = Returned \<and> pr_main p \<noteq> AwaitingReloader)
     \<and> reload_chans_ok p
     \<and> (pr_reload_chans p \<noteq> None \<longrightarrow> re_path env \<noteq> [] \<and> (pr_main p \<in> {Serving, Draining} \<longrightarrow> pr_reloader p \<noteq> Returned)
          \<and> (pr_main p \<notin> {Serving, Draining, AwaitingReloader} \<longrightarrow> pr_reloader p = Returned))"

lemma reload_chans_ok_step:
  assumes "reload_chans_ok p" and "pr_reload_chans q = pr_reload_chans p" and "length (pr_chans p) \<le> length (pr_chans q)"
    and "\<forall>c \<in> open_chans (pr_chans q). c \<in> open_chans (pr_chans p) \<or> length (pr_chans p) \<le> c"
    and "\<forall>s d. pr_reload_chans p = Some (s, d) \<longrightarrow>
      (s \<in> open_chans (pr_chans q) \<longrightarrow> pr_main p \<in> {Serving, Draining} \<longrightarrow> pr_main q \<in> {Serving, Draining})
      \<and> (d \<in> open_chans (pr_chans q) \<longrightarrow> pr_reloader p \<noteq> Returned \<longrightarrow> pr_reloader q \<noteq> Returned)"
  shows "reload_chans_ok q"
  unfolding reload_chans_ok_def
proof (intro allI impI conjI)
  fix s d assume sd: "pr_reload_chans q = Some (s, d)"
  then have sdp: "pr_reload_chans p = Some (s, d)" using assms(2) by simp
  then have p: "s < length (pr_chans p)" "d < length (pr_chans p)"
    "s \<in> open_chans (pr_chans p) \<Longrightarrow> pr_main p \<in> {Serving, Draining}" "d \<in> open_chans (pr_chans p) \<Longrightarrow> pr_reloader p \<noteq> Returned"
    using assms(1) unfolding reload_chans_ok_def by auto
  note keep = assms(5) [rule_format, OF sdp]
  show "s < length (pr_chans q)" "d < length (pr_chans q)" using p(1,2) assms(3) by simp_all
  show "pr_main q \<in> {Serving, Draining}" if "s \<in> open_chans (pr_chans q)"
  proof -
    have "s \<in> open_chans (pr_chans p)" using assms(4) that p(1) by force
    then show ?thesis using p(3) keep that by blast
  qed
  show "pr_reloader q \<noteq> Returned" if "d \<in> open_chans (pr_chans q)"
  proof -
    have "d \<in> open_chans (pr_chans p)" using assms(4) that p(2) by force
    then show ?thesis using p(4) keep that by blast
  qed
qed

lemma start_process_ok:
  assumes "run_ok rl"
  shows "process_ok env (start_process env rl)"
proof -
  have "open_chans (replicate n False) = {0..<n}" for n by (auto simp: open_chans_def)
  then show ?thesis using assms by (auto simp: process_ok_def reload_chans_ok_def start_process_def Let_def open_list_def)
qed

text \<open>The channels of \<open>start_process\<close> are those that the first load makes, after the one of the deduplicator.\<close>

lemma first_load_channels:
  assumes "fold_err (run_stream cpus parse compile_re) ([], rs, rs, cs) streams = Inr (removed, rs', created, cs')"
    and "map snd rs = [a..<length cs]" and "a \<le> length cs"
  shows "removed = [] \<and> rs' = created \<and> map snd rs' = [a..<length cs'] \<and> a \<le> length cs'
    \<and> cs' = cs @ replicate (length cs' - length cs) False \<and> length cs \<le> length cs'"
  using assms
proof (induction streams arbitrary: rs cs)
  case (Cons ec streams)
  have step: "run_stream cpus parse compile_re ([], rs, rs, cs) ec = map_sum (map_failure (\<lambda>err. (err, rs, cs)))
      (\<lambda>e. ([], rs @ [(e, length cs)], rs @ [(e, length cs)], cs @ [False])) (new_estimator cpus parse compile_re ec)"
    by (cases "new_estimator cpus parse compile_re ec")
      (simp_all add: run_stream_def create_running_def start_estimator_def make_chan_def split: failure.splits)
  obtain e where e: "fold_err (run_stream cpus parse compile_re) ([], rs @ [(e, length cs)], rs @ [(e, length cs)], cs @ [False]) streams
      = Inr (removed, rs', created, cs')"
    using Cons.prems(1) unfolding fold_err.simps step by (cases "new_estimator cpus parse compile_re ec") simp_all
  have "map snd (rs @ [(e, length cs)]) = [a..<length (cs @ [False])]" "a \<le> length (cs @ [False])" using Cons.prems(2,3) by simp_all
  from Cons.IH [OF e this] have IH: "removed = []" "rs' = created" "map snd rs' = [a..<length cs']" "a \<le> length cs'"
    "cs' = (cs @ [False]) @ replicate (length cs' - length (cs @ [False])) False" "length (cs @ [False]) \<le> length cs'" by blast+
  have "length cs' - length cs = Suc (length cs' - length (cs @ [False]))" using IH(6) by simp
  then have "cs' = cs @ replicate (length cs' - length cs) False" using IH(5) by (simp only: replicate_Suc append_assoc append_Cons append_Nil)
  moreover have "length cs \<le> length cs'" using IH(6) by simp
  ultimately show ?case using IH(1-4) by blast
qed simp

lemma start_process_channels:
  assumes "start_program env iv max_size read_file = Inr (Some rl)"
  shows "\<exists>rs changed. load_running (re_cpus env) (re_parse env) (re_compile env) (cf_streams (rl_cfg rl)) []
        (if ap_dedup (rl_app rl) = None then [] else [False])
      = Inr ((rs, Inr changed), take (length (pr_chans (start_process env rl)) - (if re_path env = [] then 0 else 2)) (pr_chans (start_process env rl)))
    \<and> map fst rs = ap_estimators (rl_app rl) \<and> map snd rs = pr_stops (start_process env rl)"
proof -
  let ?load = "load_config (re_cpus env) (re_parse env) (re_compile env)"
  obtain dedup cfg st changed where s: "?load (cf_streams cfg) (initial_app dedup) = Inr (st, Inr changed)" "rl_app rl = st" "rl_cfg rl = cfg"
    using assms by (auto simp: start_program_def Let_def split: sum.splits dedup_start.splits prod.splits)
  have same: "ap_dedup st = None \<longleftrightarrow> dedup = None"
    using s(1) by (auto simp: load_config_def initial_app_def split: sum.splits failure.splits prod.splits if_splits)
  define cs0 :: channels where "cs0 = (if ap_dedup (rl_app rl) = None then [] else [False])"
  have i: "map fst [] = ap_estimators (initial_app dedup)" "distinct (map es_id (ap_estimators (initial_app dedup)))"
    by (simp_all add: initial_app_def)
  from load_running_ok [OF i _ _ s(1), of cs0] obtain rs cs where l:
    "load_running (re_cpus env) (re_parse env) (re_compile env) (cf_streams cfg) [] cs0 = Inr ((rs, Inr changed), cs)"
    "map fst rs = ap_estimators st" by auto
  obtain removed rs' created cs' where f:
    "fold_err (run_stream (re_cpus env) (re_parse env) (re_compile env)) ([], [], [], cs0) (cf_streams cfg) = Inr (removed, rs', created, cs')"
    using l(1) by (auto simp: load_running_def running_by_id_def map_sum_Inr split: sum.splits failure.splits)
  note c = first_load_channels [OF f, of "length cs0", simplified]
  have rs: "rs = rs'" "cs = cs'"
    using l(1) c by (auto simp: load_running_def running_by_id_def f close_all_def split: if_splits)
  have "length rs = length (ap_estimators st)" unfolding l(2) [symmetric] by simp
  then have n: "length cs' = length cs0 + length (ap_estimators st)" using c rs by (metis length_map length_upt le_add_diff_inverse)
  have len: "length cs0 = (if ap_dedup (rl_app rl) = None then 0 else 1)" by (simp add: cs0_def)
  have cs': "cs' = replicate (length cs') False" 
  proof -
    have "cs0 = replicate (length cs0) False" by (simp add: cs0_def)
    then have "cs' = replicate (length cs0 + (length cs' - length cs0)) False" using c by (metis replicate_add)
    then show ?thesis by (metis length_replicate)
  qed
  have "pr_stops (start_process env rl) = [length cs0..<length cs']"
    unfolding n len by (simp add: start_process_def Let_def s(2) del: upt_Suc)
  then have "map snd rs = pr_stops (start_process env rl)" using c unfolding rs(1) by metis
  moreover have "cs = take (length (pr_chans (start_process env rl)) - (if re_path env = [] then 0 else 2)) (pr_chans (start_process env rl))"
    using n len by (subst rs(2), subst cs') (simp add: start_process_def Let_def s(2))
  ultimately show ?thesis using l s(2,3) unfolding cs0_def by blast
qed

lemma event_keeps:
  assumes "run_ok rl" and "env_ok env" and "event_ok ev" and "\<not> fatal_event env rl ev" and "may_happen m ev"
  shows "\<exists>rl'. app_event env rl ev = Inr rl' \<and> run_ok rl' \<and> length (ap_estimators (rl_app rl')) = length (ap_estimators (rl_app rl))"
proof -
  obtain rl' where rl': "app_event env rl ev = Inr rl'" "run_ok rl'"
    using app_event_ok [OF assms(1-3)] unfolding if_not_P [OF assms(4)] by blast
  obtain P where P: "app_ok P (rl_app rl)" "length (ap_estimators (rl_app rl)) \<le> 2 ^ 31" using run_okD [OF assms(1)] by metis
  have len: "kept_app P (rl_app rl) st \<Longrightarrow> length (ap_estimators st) = length (ap_estimators (rl_app rl))" for st
    unfolding kept_app_def by (metis list_all2_lengthD)
  have "length (ap_estimators (rl_app rl')) = length (ap_estimators (rl_app rl))"
  proof (cases ev)
    case (Request rq)
    let ?h = "re_http env"
    have env: "rq_max_size (he_codec ?h) \<le> 2 ^ 31" "\<forall>s c. \<exists>c' err. he_encode ?h s c = Inr (c', err)" "nodes_ok P (\<lambda>_. []) (he_cm ?h) (he_nodes ?h)"
      using assms(2) by (simp_all add: env_ok_def nodes_ok_def)
    have nf: "\<not> (reset_path ?h (hr_path rq) \<and> (\<exists>e \<in> set (ap_estimators (rl_app rl)). unrotated e))"
      using assms(4) unfolding Request by (simp only: fatal_event.simps simp_thms)
    obtain st r where "handle ?h rq (rl_app rl) = Inr (st, r)" "kept_app P (rl_app rl) st"
      using handle_ok [OF P env(1,3,2), of rq] unfolding if_not_P [OF nf] by blast
    then show ?thesis using rl'(1) len Request by auto
  next
    case (Rotate j i now)
    then show ?thesis using rotate_estimator_ok [OF P(1), of j i now] assms(4) rl'(1) len by auto
  next
    case (RotateDedup b)
    then show ?thesis using rotate_dedup_ok [OF P(1), of b] rl'(1) len assms(3) by auto
  qed (use assms(5) in simp)
  then show ?thesis using rl' by blast
qed

lemma process_okD:
  assumes "process_ok env p"
  shows "run_ok (pr_state p)" "length (pr_stops p) = length (ap_estimators (rl_app (pr_state p)))"
    "distinct (open_list p)" "open_chans (pr_chans p) = set (open_list p)"
  using assms by (simp_all add: process_ok_def)

lemma reload_running_ok:
  assumes "process_ok env p" and "env_ok env" and "pr_reloader p = Woken"
  shows "\<exists>p'. reload_running env read_file p = Inr p' \<and> pr_main p' = pr_main p \<and> process_ok env (p'\<lparr>pr_reloader := Waiting\<rparr>)"
proof -
  let ?rl = "pr_state p" and ?es = "ap_estimators (rl_app (pr_state p))" and ?X = "open_chans (pr_chans p)"
  note ok = process_okD [OF assms(1)]
  obtain sd where sd: "pr_reload_chans p = Some sd" and path: "re_path env \<noteq> []"
    and main: "pr_main p \<in> {Serving, Draining, AwaitingReloader}"
    using assms(1,3) by (cases "pr_reload_chans p") (auto simp: process_ok_def)
  define rest where "rest = (case pr_dedup_stop p of Some c \<Rightarrow> [c] | None \<Rightarrow> [])
     @ (if pr_main p \<in> {Serving, Draining} then [fst sd] else []) @ [snd sd]"
  have ol: "open_list q = pr_stops q @ rest" if "pr_main q = pr_main p" "pr_dedup_stop q = pr_dedup_stop p"
      "pr_reload_chans q = pr_reload_chans p" "pr_reloader q \<noteq> Returned" for q
    using main that by (cases sd) (auto simp: open_list_def rest_def sd split: option.splits)
  have d: "distinct (pr_stops p @ rest)" "?X = set (pr_stops p @ rest)" using ok(3,4) ol [of p] assms(3) by simp_all
  have keep: "process_ok env (q\<lparr>pr_reloader := Waiting\<rparr>)"
    if "run_ok (pr_state q)" "length (pr_stops q) = length (ap_estimators (rl_app (pr_state q)))" "distinct (pr_stops q @ rest)"
      "open_chans (pr_chans q) = set (pr_stops q @ rest)" "pr_main q = pr_main p" "pr_dedup_stop q = pr_dedup_stop p"
      "pr_reload_chans q = pr_reload_chans p" "length (pr_chans p) \<le> length (pr_chans q)"
      "\<forall>c \<in> open_chans (pr_chans q). c \<in> open_chans (pr_chans p) \<or> length (pr_chans p) \<le> c" for q
  proof -
    have "reload_chans_ok p" using assms(1) by (simp add: process_ok_def)
    then have "reload_chans_ok (q\<lparr>pr_reloader := Waiting\<rparr>)" by (rule reload_chans_ok_step) (use that in simp_all)
    then show ?thesis using that(1-7) ol [of "q\<lparr>pr_reloader := Waiting\<rparr>"] main path sd by (auto simp: process_ok_def)
  qed
  have "\<not> fatal_event env ?rl (WakeReloader read_file)" by simp
  then obtain rl' where rl': "app_event env ?rl (WakeReloader read_file) = Inr rl'" "run_ok rl'"
    using app_event_ok [OF ok(1) assms(2), of "WakeReloader read_file"] by (simp only: if_not_P not_False_eq_True) auto
  let ?step = "reload_step (re_cpus env) (re_parse env) (re_compile env) (re_unmarshal env) (he_sum64 (re_http env)) (he_nodes (re_http env)) (re_path env) ?rl read_file"
  have step: "?step = Inr rl'" using rl'(1) path by simp
  show ?thesis
  proof (cases "\<exists>cfg. read_streams env read_file = Inr cfg \<and> cf_hash cfg \<noteq> cf_hash (rl_cfg ?rl)")
    case False
    then have r: "reload_running env read_file p = Inr (p\<lparr>pr_state := rl'\<rparr>)"
      unfolding reload_running_def rl'(1) sum.case by (cases "read_streams env read_file") auto
    have "rl_app rl' = rl_app ?rl"
      using step False unfolding reload_step_def read_streams_def [symmetric]
      by (cases "read_streams env read_file") (auto simp: reload_failed_def)
    then show ?thesis using r keep [of "p\<lparr>pr_state := rl'\<rparr>"] rl'(2) ok(2) d by simp
  next
    case True
    then obtain cfg where cfg: "read_streams env read_file = Inr cfg" "cf_hash cfg \<noteq> cf_hash (rl_cfg ?rl)" by blast
    let ?load = "load_config (re_cpus env) (re_parse env) (re_compile env) (cf_streams cfg) (rl_app ?rl)"
    obtain st res where st: "?load = Inr (st, res)" "rl_app rl' = st"
    proof (cases ?load)
      case (Inl q)
      then show ?thesis using step cfg unfolding reload_step_def read_streams_def [symmetric] by simp
    next
      case (Inr x)
      then show ?thesis using step cfg that unfolding reload_step_def read_streams_def [symmetric]
        by (cases x) (auto simp: reload_failed_def Let_def split: sum.splits if_splits)
    qed
    let ?old = "zip ?es (pr_stops p)"
    have old: "map fst ?old = ?es" "map snd ?old = pr_stops p" using ok(2) by simp_all
    obtain P where "app_ok P (rl_app ?rl)" using run_okD [OF ok(1)] by metis
    then have ids: "distinct (map es_id ?es)" by (simp add: app_ok_def)
    have "distinct (map snd ?old)" "set (map snd ?old) \<subseteq> ?X" unfolding old using d by simp_all
    from load_running_ok [OF old(1) ids this st(1)] obtain rs cs where l:
      "load_running (re_cpus env) (re_parse env) (re_compile env) (cf_streams cfg) ?old (pr_chans p) = Inr ((rs, res), cs)"
      "map fst rs = ap_estimators st" "distinct (map snd rs)" "\<forall>c \<in> set (map snd rs) - set (pr_stops p). length (pr_chans p) \<le> c"
      "length (pr_chans p) \<le> length cs" "open_chans cs = (?X - set (pr_stops p)) \<union> set (map snd rs)" unfolding old by blast
    let ?p = "p\<lparr>pr_state := rl', pr_stops := map snd rs, pr_chans := cs\<rparr>"
    have r: "reload_running env read_file p = Inr ?p" using cfg(2) unfolding reload_running_def rl'(1) sum.case cfg(1) l(1) by simp
    have X: "?X - set (pr_stops p) = set rest" using d by auto
    have new: "set (map snd rs) \<inter> set rest = {}"
    proof (rule ccontr)
      assume "set (map snd rs) \<inter> set rest \<noteq> {}"
      then obtain c where c: "c \<in> set (map snd rs)" "c \<in> set rest" by blast
      then have "c \<in> ?X" "c \<notin> set (pr_stops p)" using d by auto
      then have "length (pr_chans p) \<le> c" "c < length (pr_chans p)" using l(4) c(1) open_bound [of c "pr_chans p"] by blast+
      then show False by simp
    qed
    have old': "\<forall>c \<in> set (map snd rs) \<union> set rest. c \<in> ?X \<or> length (pr_chans p) \<le> c" using l(4) d(2) by auto
    have len: "length (map snd rs) = length (ap_estimators st)" unfolding l(2) [symmetric] by simp
    have "process_ok env (?p\<lparr>pr_reloader := Waiting\<rparr>)"
    proof (rule keep [of ?p])
      show "distinct (pr_stops ?p @ rest)" using l(3) d(1) new by simp
      show "open_chans (pr_chans ?p) = set (pr_stops ?p @ rest)" using l(6) unfolding X by (simp add: Un_commute)
      show "\<forall>c \<in> open_chans (pr_chans ?p). c \<in> ?X \<or> length (pr_chans p) \<le> c" using l(6) old' unfolding X by (simp add: Un_commute)
    qed (use rl'(2) st(2) l(5) len in simp_all)
    then show ?thesis using r by simp
  qed
qed

subsection \<open>Every step keeps the invariant\<close>

text \<open>The actions that end the process early are the events of \<open>fatal_event\<close>.\<close>

fun action_ok :: "action \<Rightarrow> bool" where
  "action_ok (Happens ev) \<longleftrightarrow> event_ok ev"
| "action_ok _ \<longleftrightarrow> True"

fun fatal_action :: "'s run_env \<Rightarrow> process \<Rightarrow> action \<Rightarrow> bool" where
  "fatal_action env p (Happens ev) \<longleftrightarrow> fatal_event env (pr_state p) ev"
| "fatal_action env p _ \<longleftrightarrow> False"

lemma close_middle:
  assumes "distinct (xs @ [c] @ ys)" and "open_chans cs = set (xs @ [c] @ ys)"
  shows "\<exists>cs'. close_chan cs c = Inr cs' \<and> open_chans cs' = set (xs @ ys) \<and> length cs' = length cs \<and> c \<notin> open_chans cs'
    \<and> open_chans cs' \<subseteq> open_chans cs \<and> distinct (xs @ ys)"
  using open_close [of c cs] assms by auto

lemmas close_one = close_middle [of "[]", simplified]
lemmas close_last = close_middle [where ys = "[]", simplified]

text \<open>A step of \<^verbatim>\<open>main\<close> or of the reloader closes channels and makes none.\<close>

lemma reload_chans_ok_close:
  assumes "process_ok env p" and "pr_reload_chans q = pr_reload_chans p" and "length (pr_chans q) = length (pr_chans p)"
    and "open_chans (pr_chans q) \<subseteq> open_chans (pr_chans p)"
    and "\<forall>s d. pr_reload_chans p = Some (s, d) \<longrightarrow>
      (s \<in> open_chans (pr_chans q) \<longrightarrow> pr_main p \<in> {Serving, Draining} \<longrightarrow> pr_main q \<in> {Serving, Draining})
      \<and> (d \<in> open_chans (pr_chans q) \<longrightarrow> pr_reloader p \<noteq> Returned \<longrightarrow> pr_reloader q \<noteq> Returned)"
  shows "reload_chans_ok q"
proof -
  have "reload_chans_ok p" using assms(1) by (simp add: process_ok_def)
  then show ?thesis by (rule reload_chans_ok_step) (use assms(2-5) in auto)
qed

lemma open_list_cong:
  assumes "pr_main q = pr_main p" and "pr_stops q = pr_stops p" and "pr_dedup_stop q = pr_dedup_stop p"
    and "pr_reload_chans q = pr_reload_chans p" and "pr_reloader q = pr_reloader p"
  shows "open_list q = open_list p"
  unfolding open_list_def assms by (rule refl)

lemma happens_ok:
  assumes "process_ok env p" and "env_ok env" and "event_ok ev" and "life_step env p (Happens ev) = Some res"
  shows "if fatal_event env (pr_state p) ev then \<exists>q. res = Inl q else \<exists>p'. res = Inr p' \<and> process_ok env p'"
proof -
  note ok = process_okD [OF assms(1)]
  have m: "may_happen (pr_main p) ev" and res: "res = map_sum id (\<lambda>rl. p\<lparr>pr_state := rl\<rparr>) (app_event env (pr_state p) ev)"
    using assms(4) by (auto split: if_splits)
  show ?thesis
  proof (cases "fatal_event env (pr_state p) ev")
    case True
    then show ?thesis using app_event_ok [OF ok(1) assms(2,3)] res by auto
  next
    case False
    obtain rl' where rl': "app_event env (pr_state p) ev = Inr rl'" "run_ok rl'"
      "length (ap_estimators (rl_app rl')) = length (ap_estimators (rl_app (pr_state p)))"
      using event_keeps [OF ok(1) assms(2,3) False m] by blast
    have "open_list (p\<lparr>pr_state := rl'\<rparr>) = open_list p" by (rule open_list_cong) simp_all
    moreover have "reload_chans_ok (p\<lparr>pr_state := rl'\<rparr>)" by (rule reload_chans_ok_close [OF assms(1)]) simp_all
    ultimately have "process_ok env (p\<lparr>pr_state := rl'\<rparr>)" using assms(1) rl'(2,3) by (simp add: process_ok_def)
    then show ?thesis using res rl'(1) False by simp
  qed
qed

lemma reloader_steps_ok:
  assumes "process_ok env p" and "env_ok env" and "life_step env p a = Some res"
    and "a = WakeUp \<or> a = Reload read_file \<or> a = ReloaderReturns"
  shows "\<exists>p'. res = Inr p' \<and> process_ok env p'"
  using assms(4)
proof (elim disjE)
  assume a: "a = WakeUp"
  then have w: "pr_reloader p = Waiting" and res: "res = Inr (p\<lparr>pr_reloader := Woken\<rparr>)" using assms(3) by (auto split: if_splits)
  have "reload_chans_ok (p\<lparr>pr_reloader := Woken\<rparr>)" by (rule reload_chans_ok_close [OF assms(1)]) simp_all
  moreover have "open_list (p\<lparr>pr_reloader := Woken\<rparr>) = open_list p" using w by (auto simp: open_list_def split: main_pc.splits option.splits)
  ultimately have "process_ok env (p\<lparr>pr_reloader := Woken\<rparr>)" using assms(1) w by (simp add: process_ok_def)
  then show ?thesis using res by blast
next
  assume a: "a = Reload read_file"
  then have w: "pr_reloader p = Woken" using assms(3) by (auto split: if_splits)
  then show ?thesis using reload_running_ok [OF assms(1,2) w, of read_file] assms(3) a by auto
next
  assume a: "a = ReloaderReturns"
  then obtain s d where sd: "pr_reload_chans p = Some (s, d)" and w: "pr_reloader p = Waiting" "received (pr_chans p) s"
    and res: "res = map_sum id (\<lambda>cs. p\<lparr>pr_chans := cs, pr_reloader := Returned\<rparr>) (close_chan (pr_chans p) d)"
    using assms(3) by (auto split: option.splits prod.splits if_splits)
  note ok = process_okD [OF assms(1)]
  have m: "pr_main p = AwaitingReloader"
    using assms(1) sd w ok(4) by (cases "pr_main p") (auto simp: process_ok_def open_list_def received_def)
  let ?xs = "pr_stops p @ (case pr_dedup_stop p of Some c \<Rightarrow> [c] | None \<Rightarrow> [])"
  have "open_list p = ?xs @ [d] @ []" using m sd w(1) by (auto simp: open_list_def split: option.splits)
  then obtain cs where cs: "close_chan (pr_chans p) d = Inr cs" "open_chans cs = set (?xs @ [])" "length cs = length (pr_chans p)"
    "d \<notin> open_chans cs" "open_chans cs \<subseteq> open_chans (pr_chans p)" "distinct (?xs @ [])"
    using close_middle [of ?xs d "[]" "pr_chans p"] ok(3,4) by metis
  let ?p = "p\<lparr>pr_chans := cs, pr_reloader := Returned\<rparr>"
  have "open_list ?p = ?xs @ []" using m sd by (auto simp: open_list_def split: option.splits)
  moreover have "reload_chans_ok ?p" by (rule reload_chans_ok_close [OF assms(1)]) (use cs(3-5) sd in simp_all)
  ultimately have "process_ok env ?p"
    using assms(1) m sd cs(2,6) unfolding process_ok_def by simp
  then show ?thesis using res cs(1) by simp
qed

lemma shutdown_steps_ok:
  assumes "process_ok env p" and "life_step env p a = Some res" and "a = Sigterm \<or> a = ServerStopped \<or> a = ReloaderStopped"
  shows "\<exists>p'. res = Inr p' \<and> process_ok env p'"
  using assms(3)
proof (elim disjE)
  assume a: "a = Sigterm"
  let ?p = "p\<lparr>pr_main := Draining\<rparr>"
  have m: "pr_main p = Serving" and res: "res = Inr ?p" using assms(2) a by (auto split: if_splits)
  have "open_list ?p = open_list p" using m by (auto simp: open_list_def split: option.splits)
  moreover have "reload_chans_ok ?p" by (rule reload_chans_ok_close [OF assms(1)]) simp_all
  ultimately have "process_ok env ?p" using assms(1) m by (simp add: process_ok_def)
  then show ?thesis using res by blast
next
  assume a: "a = ServerStopped"
  then have m: "pr_main p = Draining" using assms(2) by (auto split: if_splits)
  note ok = process_okD [OF assms(1)]
  show ?thesis
  proof (cases "pr_reload_chans p")
    case None
    let ?p = "p\<lparr>pr_main := StoppingEstimators (pr_stops p)\<rparr>"
    have "open_list ?p = open_list p" using m None by (simp add: open_list_def split: option.splits)
    moreover have "reload_chans_ok ?p" by (rule reload_chans_ok_close [OF assms(1)]) (simp_all add: None)
    ultimately have "process_ok env ?p" using assms(1) None by (simp add: process_ok_def)
    then show ?thesis using assms(2) a m None by auto
  next
    case (Some sd)
    obtain s d where sd: "pr_reload_chans p = Some (s, d)" using Some by (cases sd) auto
    let ?xs = "pr_stops p @ (case pr_dedup_stop p of Some c \<Rightarrow> [c] | None \<Rightarrow> [])"
    let ?ys = "if pr_reloader p = Returned then [] else [d]"
    have "open_list p = ?xs @ [s] @ ?ys" using m sd by (auto simp: open_list_def split: option.splits)
    then obtain cs where cs: "close_chan (pr_chans p) s = Inr cs" "open_chans cs = set (?xs @ ?ys)" "length cs = length (pr_chans p)"
      "s \<notin> open_chans cs" "open_chans cs \<subseteq> open_chans (pr_chans p)" "distinct (?xs @ ?ys)"
      using close_middle [of ?xs s ?ys "pr_chans p"] ok(3,4) by metis
    let ?p = "p\<lparr>pr_chans := cs, pr_main := AwaitingReloader\<rparr>"
    have "open_list ?p = ?xs @ ?ys" using sd by (auto simp: open_list_def split: option.splits)
    moreover have "reload_chans_ok ?p" by (rule reload_chans_ok_close [OF assms(1)]) (use cs(3-5) sd in simp_all)
    ultimately have "process_ok env ?p" using assms(1) sd cs(2,6) m unfolding process_ok_def by simp
    then show ?thesis using assms(2) a m sd cs(1) by auto
  qed
next
  assume a: "a = ReloaderStopped"
  then obtain s d where sd: "pr_reload_chans p = Some (s, d)" and m: "pr_main p = AwaitingReloader" and r: "received (pr_chans p) d"
    and res: "res = Inr (p\<lparr>pr_main := StoppingEstimators (pr_stops p)\<rparr>)"
    using assms(2) by (auto split: option.splits prod.splits if_splits)
  note ok = process_okD [OF assms(1)]
  have ret: "pr_reloader p = Returned" using r ok(4) sd by (auto simp: received_def open_list_def split: if_splits)
  let ?p = "p\<lparr>pr_main := StoppingEstimators (pr_stops p)\<rparr>"
  have "open_list ?p = open_list p" using m sd by (simp add: open_list_def split: option.splits)
  moreover have "reload_chans_ok ?p" by (rule reload_chans_ok_close [OF assms(1)]) (simp_all add: m)
  ultimately have "process_ok env ?p" using assms(1) sd ret m by (simp add: process_ok_def)
  then show ?thesis using res by blast
qed

text \<open>What is open while the estimators are stopped.\<close>

definition stopping_list :: "process \<Rightarrow> nat list \<Rightarrow> nat list" where
  "stopping_list p rest = rest @ (case pr_dedup_stop p of Some c \<Rightarrow> [c] | None \<Rightarrow> [])"

lemma open_list_stopping:
  assumes "process_ok env p" and "pr_main p = StoppingEstimators rest"
    and "pr_dedup_stop q = pr_dedup_stop p" and "pr_reload_chans q = pr_reload_chans p" and "pr_reloader q = pr_reloader p"
  shows "pr_main q = StoppingEstimators rest' \<Longrightarrow> open_list q = stopping_list p rest'"
    and "pr_main q = Finished \<Longrightarrow> open_list q = []"
proof -
  have "pr_reloader p = Returned" using assms(1,2) by (auto simp: process_ok_def)
  then show "pr_main q = StoppingEstimators rest' \<Longrightarrow> open_list q = stopping_list p rest'" "pr_main q = Finished \<Longrightarrow> open_list q = []"
    by (auto simp: open_list_def stopping_list_def assms(3-5) split: option.splits)
qed

lemma stop_next_ok:
  assumes "process_ok env p" and "life_step env p StopNext = Some res"
  shows "\<exists>p'. res = Inr p' \<and> process_ok env p'"
proof -
  note ok = process_okD [OF assms(1)]
  obtain rest where m: "pr_main p = StoppingEstimators rest" using assms(2) by (cases "pr_main p") auto
  note ol = open_list_stopping [OF assms(1) m]
  have X: "distinct (stopping_list p rest)" "open_chans (pr_chans p) = set (stopping_list p rest)"
    using ok(3,4) unfolding ol(1) [OF refl refl refl m] by blast+
  have keep: "process_ok env q"
    if "pr_state q = pr_state p" "pr_stops q = pr_stops p" "pr_dedup_stop q = pr_dedup_stop p" "pr_reload_chans q = pr_reload_chans p"
      "pr_reloader q = pr_reloader p" "pr_main q = StoppingEstimators rest' \<or> pr_main q = Finished"
      "open_chans (pr_chans q) = set (open_list q)" "distinct (open_list q)" "length (pr_chans q) = length (pr_chans p)"
      "open_chans (pr_chans q) \<subseteq> open_chans (pr_chans p)" for q rest'
  proof -
    have "reload_chans_ok q" by (rule reload_chans_ok_close [OF assms(1)]) (use that m in simp_all)
    then show ?thesis using assms(1) that m unfolding process_ok_def by auto
  qed
  show ?thesis
  proof (cases rest)
    case (Cons c rest')
    obtain cs where cs: "close_chan (pr_chans p) c = Inr cs" "open_chans cs = set (stopping_list p rest')" "length cs = length (pr_chans p)"
      "open_chans cs \<subseteq> open_chans (pr_chans p)" "distinct (stopping_list p rest')"
      using close_one [of c "stopping_list p rest'" "pr_chans p"] X by (auto simp: stopping_list_def Cons)
    let ?p = "p\<lparr>pr_chans := cs, pr_main := StoppingEstimators rest'\<rparr>"
    have "open_list ?p = stopping_list p rest'" by (rule ol(1)) simp_all
    then have "process_ok env ?p" by (intro keep [of _ rest']) (use cs(2-5) in simp_all)
    then show ?thesis using assms(2) m Cons cs(1) by auto
  next
    case Nil
    show ?thesis
    proof (cases "pr_dedup_stop p")
      case None
      have "open_list (p\<lparr>pr_main := Finished\<rparr>) = []" by (rule ol(2)) simp_all
      then have "process_ok env (p\<lparr>pr_main := Finished\<rparr>)"
        by (intro keep) (use X in \<open>simp_all add: Nil None stopping_list_def\<close>)
      then show ?thesis using assms(2) m Nil None by auto
    next
      case (Some c)
      obtain cs where cs: "close_chan (pr_chans p) c = Inr cs" "open_chans cs = {}" "length cs = length (pr_chans p)"
        using close_one [of c "[]" "pr_chans p"] X by (auto simp: stopping_list_def Nil Some)
      let ?p = "p\<lparr>pr_chans := cs, pr_main := Finished\<rparr>"
      have "open_list ?p = []" by (rule ol(2)) simp_all
      then have "process_ok env ?p" by (intro keep) (simp_all add: cs)
      then show ?thesis using assms(2) m Nil Some cs(1) by auto
    qed
  qed
qed

lemma life_step_ok:
  assumes "process_ok env p" and "env_ok env" and "action_ok a" and "life_step env p a = Some res"
  shows "if fatal_action env p a then \<exists>q. res = Inl q else \<exists>p'. res = Inr p' \<and> process_ok env p'"
proof (cases a)
  case (Happens ev)
  have "event_ok ev" "life_step env p (Happens ev) = Some res" using assms(3,4) Happens by simp_all
  from happens_ok [OF assms(1,2) this] show ?thesis by (simp only: Happens fatal_action.simps)
next
  case (Reload read_file)
  then show ?thesis using reloader_steps_ok [OF assms(1,2,4)] by simp
next
  case WakeUp
  then show ?thesis using reloader_steps_ok [OF assms(1,2,4)] by simp
next
  case ReloaderReturns
  then show ?thesis using reloader_steps_ok [OF assms(1,2,4)] by simp
next
  case StopNext
  then show ?thesis using stop_next_ok [OF assms(1)] assms(4) by simp
qed (use shutdown_steps_ok [OF assms(1,4)] in simp_all)

lemma life_run_ok:
  assumes "process_ok env p" and "env_ok env" and "\<forall>a \<in> set acts. action_ok a" and "life_run env p acts = Some res"
  shows "case res of
      Inl q \<Rightarrow> \<exists>pre a post p'. acts = pre @ a # post \<and> life_run env p pre = Some (Inr p') \<and> fatal_action env p' a
    | Inr p' \<Rightarrow> process_ok env p'"
  using assms(1,3,4)
proof (induction acts arbitrary: p)
  case Nil
  then show ?case by auto
next
  case (Cons a acts)
  obtain r where r: "life_step env p a = Some r" using Cons.prems(3) by (auto split: option.splits)
  have a: "if fatal_action env p a then \<exists>q. r = Inl q else \<exists>p'. r = Inr p' \<and> process_ok env p'"
    using life_step_ok [OF Cons.prems(1) assms(2) _ r] Cons.prems(2) by simp
  show ?case
  proof (cases "fatal_action env p a")
    case True
    then obtain q where "res = Inl q" using a r Cons.prems(3) by auto
    moreover have "\<exists>pre b post p'. a # acts = pre @ b # post \<and> life_run env p pre = Some (Inr p') \<and> fatal_action env p' b"
      using True by (intro exI [of _ "[]"] exI [of _ a] exI [of _ acts] exI [of _ p]) simp
    ultimately show ?thesis by simp
  next
    case False
    then obtain p1 where p1: "r = Inr p1" "process_ok env p1" using a by auto
    have l: "life_run env p1 acts = Some res" "life_run env p (a # pre) = life_run env p1 pre" for pre
      using r p1(1) Cons.prems(3) by simp_all
    note IH = Cons.IH [OF p1(2) _ l(1)]
    show ?thesis
    proof (cases res)
      case (Inl q)
      then obtain pre b post p' where "acts = pre @ b # post" "life_run env p1 pre = Some (Inr p')" "fatal_action env p' b"
        using IH Cons.prems(2) by auto
      then have "a # acts = (a # pre) @ b # post" "life_run env p (a # pre) = Some (Inr p')" "fatal_action env p' b"
        unfolding l(2) by simp_all
      then show ?thesis unfolding Inl sum.case by blast
    next
      case (Inr p')
      then show ?thesis using IH Cons.prems(2) by simp
    qed
  qed
qed

subsection \<open>The shutdown comes to its end\<close>

text \<open>
  From a state of the process to its end with steps of \<^verbatim>\<open>main\<close> and of the reloader only: no further wake-up, no
  further event, and a reload only if the reloader has already been woken.
\<close>

definition own_steps :: "(string \<Rightarrow> string + string) \<Rightarrow> action set" where
  "own_steps read_file = {Reload read_file, ReloaderReturns, Sigterm, ServerStopped, ReloaderStopped, StopNext}"

definition can_finish :: "'s run_env \<Rightarrow> (string \<Rightarrow> string + string) \<Rightarrow> process \<Rightarrow> bool" where
  "can_finish env read_file p \<longleftrightarrow>
     (\<exists>acts p'. set acts \<subseteq> own_steps read_file \<and> life_run env p acts = Some (Inr p') \<and> pr_main p' = Finished)"

lemma can_finish_step:
  assumes "process_ok env p" and "env_ok env" and "a \<in> own_steps read_file" and "life_step env p a = Some res"
    and "\<And>p1. res = Inr p1 \<Longrightarrow> process_ok env p1 \<Longrightarrow> can_finish env read_file p1"
  shows "can_finish env read_file p"
proof -
  have "action_ok a" "\<not> fatal_action env p a" using assms(3) by (auto simp: own_steps_def)
  then obtain p1 where p1: "res = Inr p1" "process_ok env p1" using life_step_ok [OF assms(1,2) _ assms(4)] by auto
  obtain acts p' where acts: "set acts \<subseteq> own_steps read_file" "life_run env p1 acts = Some (Inr p')" "pr_main p' = Finished"
    using assms(5) [OF p1] unfolding can_finish_def by blast
  have "set (a # acts) \<subseteq> own_steps read_file" "life_run env p (a # acts) = Some (Inr p')"
    using acts(1,2) assms(3,4) p1(1) by simp_all
  then show ?thesis using acts(3) unfolding can_finish_def by blast
qed

lemma stopping_finishes:
  assumes "env_ok env" and "process_ok env p" and "pr_main p = StoppingEstimators rest"
  shows "can_finish env read_file p"
  using assms(2,3)
proof (induction rest arbitrary: p)
  case Nil
  have "\<exists>res. life_step env p StopNext = Some res \<and> (\<forall>p1. res = Inr p1 \<longrightarrow> pr_main p1 = Finished)"
    using Nil.prems(2) by (cases "pr_dedup_stop p") (auto simp: map_sum_Inr)
  then obtain res where res: "life_step env p StopNext = Some res" "\<forall>p1. res = Inr p1 \<longrightarrow> pr_main p1 = Finished" by blast
  have fin: "can_finish env read_file p1" if "pr_main p1 = Finished" for p1
    unfolding can_finish_def using that by (intro exI [of _ "[]"] exI [of _ p1]) simp
  show ?case by (rule can_finish_step [OF Nil.prems(1) assms(1) _ res(1)]) (use res(2) fin in \<open>auto simp: own_steps_def\<close>)
next
  case (Cons c rest)
  have "\<exists>res. life_step env p StopNext = Some res \<and> (\<forall>p1. res = Inr p1 \<longrightarrow> pr_main p1 = StoppingEstimators rest)"
    using Cons.prems(2) by (auto simp: map_sum_Inr)
  then obtain res where res: "life_step env p StopNext = Some res" "\<forall>p1. res = Inr p1 \<longrightarrow> pr_main p1 = StoppingEstimators rest" by blast
  show ?case by (rule can_finish_step [OF Cons.prems(1) assms(1) _ res(1)]) (use res(2) Cons.IH in \<open>auto simp: own_steps_def\<close>)
qed

lemma awaiting_finishes:
  assumes "env_ok env" and "process_ok env p" and "pr_main p = AwaitingReloader"
  shows "can_finish env read_file p"
proof -
  have returned: "can_finish env read_file q" if q: "process_ok env q" "pr_main q = AwaitingReloader" "pr_reloader q = Returned" for q
  proof -
    obtain s d where sd: "pr_reload_chans q = Some (s, d)" using q by (cases "pr_reload_chans q") (auto simp: process_ok_def)
    then have "received (pr_chans q) d" using q(1,3) by (auto simp: process_ok_def reload_chans_ok_def received_def)
    then have st: "life_step env q ReloaderStopped = Some (Inr (q\<lparr>pr_main := StoppingEstimators (pr_stops q)\<rparr>))" using sd q(2) by simp
    show ?thesis
      by (rule can_finish_step [OF q(1) assms(1) _ st]) (use stopping_finishes [OF assms(1)] in \<open>auto simp: own_steps_def\<close>)
  qed
  have waiting: "can_finish env read_file q" if q: "process_ok env q" "pr_main q = AwaitingReloader" "pr_reloader q = Waiting" for q
  proof -
    obtain s d where sd: "pr_reload_chans q = Some (s, d)" using q by (cases "pr_reload_chans q") (auto simp: process_ok_def)
    then have "received (pr_chans q) s" using q(1,2) by (auto simp: process_ok_def reload_chans_ok_def received_def)
    then have "\<exists>res. life_step env q ReloaderReturns = Some res \<and> (\<forall>p1. res = Inr p1 \<longrightarrow> pr_main p1 = AwaitingReloader \<and> pr_reloader p1 = Returned)"
      using sd q(2,3) by (auto simp: map_sum_Inr)
    then obtain res where st: "life_step env q ReloaderReturns = Some res" "\<forall>p1. res = Inr p1 \<longrightarrow> pr_main p1 = AwaitingReloader \<and> pr_reloader p1 = Returned" by blast
    show ?thesis by (rule can_finish_step [OF q(1) assms(1) _ st(1)]) (use st(2) returned in \<open>auto simp: own_steps_def\<close>)
  qed
  show ?thesis
  proof (cases "pr_reloader p")
    case Woken
    obtain p1 where p1: "reload_running env read_file p = Inr p1" "pr_main p1 = pr_main p" "process_ok env (p1\<lparr>pr_reloader := Waiting\<rparr>)"
      using reload_running_ok [OF assms(2,1) Woken] by blast
    have st: "life_step env p (Reload read_file) = Some (Inr (p1\<lparr>pr_reloader := Waiting\<rparr>))" using Woken p1(1) by simp
    show ?thesis
      by (rule can_finish_step [OF assms(2,1) _ st]) (use waiting p1(2) assms(3) in \<open>auto simp: own_steps_def\<close>)
  qed (use returned waiting assms(2,3) in blast)+
qed

lemma process_can_finish:
  assumes "env_ok env" and "process_ok env p"
  shows "can_finish env read_file p"
proof -
  have draining: "can_finish env read_file q" if q: "process_ok env q" "pr_main q = Draining" for q
  proof -
    have "\<exists>res. life_step env q ServerStopped = Some res \<and> (\<forall>p1. res = Inr p1 \<longrightarrow> pr_main p1 = AwaitingReloader \<or> (\<exists>rest. pr_main p1 = StoppingEstimators rest))"
      using q(2) by (cases "pr_reload_chans q") (auto simp: map_sum_Inr)
    then obtain res where st: "life_step env q ServerStopped = Some res" "\<forall>p1. res = Inr p1 \<longrightarrow> pr_main p1 = AwaitingReloader \<or> (\<exists>rest. pr_main p1 = StoppingEstimators rest)" by blast
    show ?thesis
      by (rule can_finish_step [OF q(1) assms(1) _ st(1)])
        (use st(2) awaiting_finishes [OF assms(1)] stopping_finishes [OF assms(1)] in \<open>auto simp: own_steps_def\<close>)
  qed
  show ?thesis
  proof (cases "pr_main p")
    case Serving
    then have st: "life_step env p Sigterm = Some (Inr (p\<lparr>pr_main := Draining\<rparr>))" by simp
    show ?thesis by (rule can_finish_step [OF assms(2,1) _ st]) (use draining in \<open>auto simp: own_steps_def\<close>)
  next
    case Finished
    then show ?thesis unfolding can_finish_def by (intro exI [of _ "[]"] exI [of _ p]) simp
  qed (use draining awaiting_finishes stopping_finishes assms in blast)+
qed

subsection \<open>From the start to the end\<close>

text \<open>C6: From a start that succeeds on, whatever requests, rotations, wake-ups and reloads happen and however they interleave
  with the shutdown, no channel is closed twice: the process panics only at an event of \<open>fatal_event\<close>, the
  reset before a rotation and the rotation goroutine with too short an interval.
  While it serves, the open channels are exactly those of the active estimators, one for each, and those of the
  deduplicator and of the reloader, so no load leaves the goroutine of an estimator it has removed or given up behind; when
  \<^verbatim>\<open>main\<close> returns, every channel ever made is closed.\<close>

theorem channels_closed_once:
  assumes "env_ok env" and "max_size < 2 ^ 63" and "start_program env iv max_size read_file = Inr (Some rl)"
    and "\<forall>a \<in> set acts. action_ok a" and "life_run env (start_process env rl) acts = Some res"
  shows "case res of
      Inl q \<Rightarrow> \<exists>pre a post p. acts = pre @ a # post \<and> life_run env (start_process env rl) pre = Some (Inr p) \<and> fatal_action env p a
    | Inr p \<Rightarrow>
        (pr_main p = Serving \<longrightarrow> distinct (pr_stops p) \<and> length (pr_stops p) = length (ap_estimators (rl_app (pr_state p)))
           \<and> open_chans (pr_chans p) = set (pr_stops p) \<union> set_option (pr_dedup_stop p)
               \<union> (case pr_reload_chans p of None \<Rightarrow> {} | Some (s, d) \<Rightarrow> {s, d}))
        \<and> (pr_main p = Finished \<longrightarrow> open_chans (pr_chans p) = {})"
proof (cases res)
  case (Inl q)
  then show ?thesis using life_run_ok [OF start_process_ok [OF start_program_ok [OF assms(1-3)]] assms(1,4,5)] by simp
next
  case (Inr p)
  have ok: "process_ok env p"
    using life_run_ok [OF start_process_ok [OF start_program_ok [OF assms(1-3)]] assms(1,4,5)] Inr by simp
  note d = process_okD [OF ok]
  have "distinct (pr_stops p) \<and> set (open_list p) = set (pr_stops p) \<union> set_option (pr_dedup_stop p)
      \<union> (case pr_reload_chans p of None \<Rightarrow> {} | Some (s, d) \<Rightarrow> {s, d})" if "pr_main p = Serving"
    using ok that d(3) by (auto simp: open_list_def process_ok_def split: option.splits)
  moreover have "set (open_list p) = {}" if "pr_main p = Finished"
    using ok that by (auto simp: open_list_def process_ok_def split: option.splits)
  ultimately show ?thesis using d(2,4) Inr by simp
qed

text \<open>C7: The shutdown never gets stuck: at whatever point of its life the process is, also while a reload is running or has
  failed, \<^verbatim>\<open>main\<close> and the reloader can bring it to its end with their own steps alone, without a further
  request, rotation or wake-up: \<^verbatim>\<open>main\<close> is never left waiting for a reloader that waits for \<^verbatim>\<open>main\<close>.\<close>

theorem shutdown_finishes:
  assumes "env_ok env" and "max_size < 2 ^ 63" and "start_program env iv max_size read_file = Inr (Some rl)"
    and "\<forall>a \<in> set acts. action_ok a" and "life_run env (start_process env rl) acts = Some (Inr p)"
  shows "\<exists>rest p'. set rest \<subseteq> own_steps reread \<and> life_run env p rest = Some (Inr p') \<and> pr_main p' = Finished"
proof -
  have "process_ok env p" using life_run_ok [OF start_process_ok [OF start_program_ok [OF assms(1-3)]] assms(1,4,5)] by simp
  from process_can_finish [OF assms(1) this] show ?thesis by (simp add: can_finish_def)
qed

subsection \<open>A concrete life\<close>

text \<open>One estimator and a deduplicator; a reload that cannot read its file is under way when the server stops.\<close>

lemma global_life:
  "\<exists>rl p. start_program global_run_env 60000000000 10000 (\<lambda>_. Inr ''streams'') = Inr (Some rl)
    \<and> life_run global_run_env (start_process global_run_env rl) [WakeUp, Sigterm, ServerStopped] = Some (Inr p)
    \<and> pr_main p = AwaitingReloader \<and> pr_reloader p = Woken \<and> pr_stops p = [1] \<and> pr_dedup_stop p = Some 0
    \<and> pr_reload_chans p = Some (2, 3) \<and> pr_chans p = [False, False, True, False]"
proof -
  obtain rl e d where rl: "start_program global_run_env 60000000000 10000 (\<lambda>_. Inr ''streams'') = Inr (Some rl)"
    "ap_estimators (rl_app rl) = [e]" "ap_dedup (rl_app rl) = Some d" using global_start by blast
  have "re_path global_run_env \<noteq> []" by (simp add: global_run_env_def demo_run_env_def)
  then have "start_process global_run_env rl = \<lparr>pr_state = rl, pr_stops = [1], pr_chans = [False, False, False, False],
      pr_dedup_stop = Some 0, pr_reload_chans = Some (2, 3), pr_main = Serving, pr_reloader = Waiting\<rparr>"
    using rl(2,3) by (simp add: start_process_def Let_def numeral_eq_Suc)
  then show ?thesis using rl(1) by (simp add: close_chan_def)
qed

lemma global_shutdown:
  assumes "pr_main p = AwaitingReloader" and "pr_reloader p = Woken" and "pr_stops p = [1]" and "pr_dedup_stop p = Some 0"
    and "pr_reload_chans p = Some (2, 3)" and "pr_chans p = [False, False, True, False]"
  shows "\<exists>p'. life_run global_run_env p
      [Reload (\<lambda>_. Inl ''gone''), ReloaderReturns, ReloaderStopped, StopNext, StopNext] = Some (Inr p') \<and> pr_main p' = Finished"
proof -
  have "reload_running global_run_env (\<lambda>_. Inl ''gone'') p = Inr (p\<lparr>pr_state := reload_failed (pr_state p)\<rparr>)"
    by (simp add: reload_running_def reload_step_def read_streams_def read_config_def global_run_env_def demo_run_env_def)
  then show ?thesis using assms by (simp add: received_def open_chans_def close_chan_def)
qed

theorem channels_closed_once_witness:
  "\<exists>rl p. start_program global_run_env 60000000000 10000 (\<lambda>_. Inr ''streams'') = Inr (Some rl)
    \<and> life_run global_run_env (start_process global_run_env rl)
        [WakeUp, Sigterm, ServerStopped, Reload (\<lambda>_. Inl ''gone''), ReloaderReturns, ReloaderStopped, StopNext, StopNext] = Some (Inr p)
    \<and> pr_main p = Finished \<and> open_chans (pr_chans p) = {}"
proof -
  let ?acts = "[WakeUp, Sigterm, ServerStopped] @ [Reload (\<lambda>_. Inl ''gone''), ReloaderReturns, ReloaderStopped, StopNext, StopNext]"
  obtain rl p where rl: "start_program global_run_env 60000000000 10000 (\<lambda>_. Inr ''streams'') = Inr (Some rl)"
    and p: "life_run global_run_env (start_process global_run_env rl) [WakeUp, Sigterm, ServerStopped] = Some (Inr p)"
    and s: "pr_main p = AwaitingReloader" "pr_reloader p = Woken" "pr_stops p = [1]" "pr_dedup_stop p = Some 0"
      "pr_reload_chans p = Some (2, 3)" "pr_chans p = [False, False, True, False]" using global_life by blast
  obtain p' where r: "life_run global_run_env p [Reload (\<lambda>_. Inl ''gone''), ReloaderReturns, ReloaderStopped, StopNext, StopNext] = Some (Inr p')"
    and fin: "pr_main p' = Finished" using global_shutdown [OF s] by blast
  have run: "life_run global_run_env (start_process global_run_env rl) ?acts = Some (Inr p')"
    unfolding life_run_append p option.case sum.case by (rule r)
  have "open_chans (pr_chans p') = {}" using channels_closed_once [OF global_env_ok _ rl _ run] fin by simp
  then show ?thesis using rl run fin by auto
qed

theorem shutdown_finishes_witness:
  "\<exists>rl p rest p'. start_program global_run_env 60000000000 10000 (\<lambda>_. Inr ''streams'') = Inr (Some rl)
    \<and> life_run global_run_env (start_process global_run_env rl) [WakeUp, Sigterm, ServerStopped] = Some (Inr p)
    \<and> life_run global_run_env p rest = Some (Inr p') \<and> pr_main p = AwaitingReloader \<and> pr_main p' = Finished"
proof -
  obtain rl p where rl: "start_program global_run_env 60000000000 10000 (\<lambda>_. Inr ''streams'') = Inr (Some rl)"
    and p: "life_run global_run_env (start_process global_run_env rl) [WakeUp, Sigterm, ServerStopped] = Some (Inr p)"
      "pr_main p = AwaitingReloader" using global_life by blast
  then show ?thesis using shutdown_finishes [OF global_env_ok _ rl _ p(1)] by fastforce
qed

end
