(* ===== verification/Unmarshaler_Memory.thy ===== *)
theory Unmarshaler_Memory
  imports Protoparser "HOL-Library.Multiset"
begin

section \<open>The memory of the request parser (\<^verbatim>\<open>write_request.go\<close>)\<close>

text \<open>
  An unmarshaler owns an array of labels and an array of series and reuses both for request after request: the
  labels of a series are a slice of the first, the series of a request a slice of the second, and unmarshalers
  are kept in a pool that all requests share.  Theory \<open>Protoparser\<close> treats all this as values.  Here arrays live
  in a store, a slice is an address, an offset and a length, elements beyond the length keep what earlier
  requests left there, and the values are shown to be what the memory holds while a request is processed.
\<close>

subsection \<open>Slices\<close>

record slice =
  sl_arr :: nat
  sl_off :: nat
  sl_len :: nat

definition sl_end :: "slice \<Rightarrow> nat" where
  "sl_end s = sl_off s + sl_len s"

definition view :: "'a list list \<Rightarrow> slice \<Rightarrow> 'a list" where
  "view h s = take (sl_len s) (drop (sl_off s) (h ! sl_arr s))"

definition slice_ok :: "'a list list \<Rightarrow> slice \<Rightarrow> bool" where
  "slice_ok h s \<longleftrightarrow> sl_arr s < length h \<and> sl_end s \<le> length (h ! sl_arr s)"

text \<open>\<^verbatim>\<open>append\<close> of one element; the runtime chooses how much is reserved when the array is full.\<close>

definition alloc :: "'a list list \<Rightarrow> 'a list \<Rightarrow> nat \<Rightarrow> 'a list list \<times> slice" where
  "alloc h xs n = (h @ [xs], \<lparr>sl_arr = length h, sl_off = 0, sl_len = n\<rparr>)"

definition go_append :: "(nat \<Rightarrow> nat) \<Rightarrow> 'a \<Rightarrow> 'a list list \<Rightarrow> slice \<Rightarrow> 'a \<Rightarrow> 'a list list \<times> slice" where
  "go_append grow zero h s x =
     (if sl_end s < length (h ! sl_arr s)
      then (h[sl_arr s := (h ! sl_arr s)[sl_end s := x]], s\<lparr>sl_len := sl_len s + 1\<rparr>)
      else alloc h (view h s @ x # replicate (grow (sl_len s)) zero) (sl_len s + 1))"

text \<open>\<^verbatim>\<open>clear(s)\<close> and \<^verbatim>\<open>s[:0]\<close>.\<close>

definition clear :: "'a \<Rightarrow> 'a list list \<Rightarrow> slice \<Rightarrow> 'a list list" where
  "clear zero h s =
     h[sl_arr s := take (sl_off s) (h ! sl_arr s) @ replicate (sl_len s) zero @ drop (sl_end s) (h ! sl_arr s)]"

text \<open>
  What an operation may do to the store while it works on a slice: it leaves alone whatever ends before the
  slice does or is in another array, and the slice stays where it is or moves to a new array.
\<close>

definition apart :: "slice \<Rightarrow> slice \<Rightarrow> bool" where
  "apart t s \<longleftrightarrow> sl_arr t = sl_arr s \<longrightarrow> sl_end t \<le> sl_end s"

definition moves :: "'a list list \<Rightarrow> slice \<Rightarrow> 'a list list \<Rightarrow> slice \<Rightarrow> bool" where
  "moves h s h' s' \<longleftrightarrow> slice_ok h s \<and> length h \<le> length h' \<and> slice_ok h' s'
     \<and> (if sl_arr s' = sl_arr s then sl_end s \<le> sl_end s' else length h \<le> sl_arr s')
     \<and> (\<forall>t. slice_ok h t \<and> apart t s \<longrightarrow> slice_ok h' t \<and> view h' t = view h t)"

lemma moves_refl: "slice_ok h s \<Longrightarrow> moves h s h s"
  by (simp add: moves_def)

lemma moves_apart:
  assumes "moves h s h' s'" and "slice_ok h t" and "apart t s"
  shows "slice_ok h' t" and "view h' t = view h t" and "apart t s'"
proof -
  show "slice_ok h' t" "view h' t = view h t" using assms by (simp_all add: moves_def)
  show "apart t s'" using assms by (cases "sl_arr s' = sl_arr s") (auto simp: moves_def apart_def slice_ok_def)
qed

lemma moves_trans:
  assumes "moves h s h1 s1" and "moves h1 s1 h2 s2"
  shows "moves h s h2 s2"
proof -
  have "slice_ok h2 t \<and> view h2 t = view h t" if "slice_ok h t" "apart t s" for t
    using moves_apart [OF assms(1) that] moves_apart [OF assms(2), of t] by simp
  then show ?thesis using assms unfolding moves_def by (auto simp: slice_ok_def split: if_splits)
qed

lemma view_append_in_place:
  assumes "slice_ok h s" and "sl_end s < length (h ! sl_arr s)"
  shows "view (h[sl_arr s := (h ! sl_arr s)[sl_end s := x]]) (s\<lparr>sl_len := sl_len s + 1\<rparr>) = view h s @ [x]"
proof -
  have "take (Suc n) (drop k (xs[k + n := x])) = take n (drop k xs) @ [x]" if "k + n < length xs" for k n and xs :: "'a list"
    using that by (simp add: take_Suc_conv_app_nth drop_update_swap)
  then show ?thesis using assms by (simp add: view_def slice_ok_def sl_end_def)
qed

lemma go_append_moves:
  assumes "slice_ok h s" and "go_append grow zero h s x = (h', s')"
  shows "moves h s h' s'" and "view h' s' = view h s @ [x]"
proof -
  have len: "length (view h s) = sl_len s" using assms(1) by (auto simp: view_def slice_ok_def sl_end_def)
  show "view h' s' = view h s @ [x]"
  proof (cases "sl_end s < length (h ! sl_arr s)")
    case True
    then show ?thesis using view_append_in_place [OF assms(1) True] assms(2) by (auto simp: go_append_def)
  next
    case False
    then show ?thesis using assms(2) len by (auto simp: go_append_def alloc_def view_def)
  qed
  show "moves h s h' s'"
  proof (cases "sl_end s < length (h ! sl_arr s)")
    case True
    then have r: "h' = h[sl_arr s := (h ! sl_arr s)[sl_end s := x]]" "s' = s\<lparr>sl_len := sl_len s + 1\<rparr>"
      using assms(2) by (simp_all add: go_append_def)
    have "slice_ok h' t \<and> view h' t = view h t" if t: "slice_ok h t" "apart t s" for t
    proof (cases "sl_arr t = sl_arr s")
      case eq: True
      then have "sl_off t + sl_len t \<le> sl_end s" using t(2) by (simp add: apart_def sl_end_def)
      then have "take (sl_len t) (drop (sl_off t) ((h ! sl_arr s)[sl_end s := x])) = take (sl_len t) (drop (sl_off t) (h ! sl_arr s))"
        by (metis add.commute take_drop take_update_cancel)
      then show ?thesis using t(1) eq assms(1) by (simp add: r view_def slice_ok_def)
    qed (use t(1) in \<open>simp add: r view_def slice_ok_def\<close>)
    then show ?thesis using True assms(1) by (simp add: moves_def r slice_ok_def sl_end_def)
  next
    case False
    then have r: "h' = h @ [view h s @ x # replicate (grow (sl_len s)) zero]" "s' = \<lparr>sl_arr = length h, sl_off = 0, sl_len = sl_len s + 1\<rparr>"
      using assms(2) by (simp_all add: go_append_def alloc_def)
    have "slice_ok h' t \<and> view h' t = view h t" if "slice_ok h t" for t
      using that by (simp add: r view_def slice_ok_def nth_append)
    then show ?thesis using assms(1) len by (simp add: moves_def r slice_ok_def sl_end_def)
  qed
qed

subsection \<open>Unmarshaling into memory\<close>

record mem_serie =
  ms_labels :: slice
  ms_fingerprint :: u64

record memory =
  mm_labels :: "label list list"
  mm_series :: "mem_serie list list"

record unmarshaler =
  um_series :: slice
  um_labels :: slice

definition zero_label :: label where
  "zero_label = \<lparr>lb_name = [], lb_value = [], lb_fingerprint = 0\<rparr>"

definition zero_serie :: mem_serie where
  "zero_serie = \<lparr>ms_labels = \<lparr>sl_arr = 0, sl_off = 0, sl_len = 0\<rparr>, ms_fingerprint = 0\<rparr>"

text \<open>What the code outside the parser sees of a request.\<close>

definition read_serie :: "memory \<Rightarrow> mem_serie \<Rightarrow> time_serie" where
  "read_serie m ms = \<lparr>ts_labels = view (mm_labels m) (ms_labels ms), ts_fingerprint = ms_fingerprint ms\<rparr>"

definition read_request :: "memory \<Rightarrow> unmarshaler \<Rightarrow> time_serie list" where
  "read_request m um = map (read_serie m) (view (mm_series m) (um_series um))"

text \<open>How much the runtime reserves when it moves an array of labels or of series.\<close>

record growth =
  gr_labels :: "nat \<Rightarrow> nat"
  gr_series :: "nat \<Rightarrow> nat"

text \<open>The fields of a series, with the labels appended to the pool; what is written stays there after an error.\<close>

function mem_series_loop ::
  "(string \<Rightarrow> u64) \<Rightarrow> bool \<Rightarrow> growth \<Rightarrow> string \<Rightarrow> string \<Rightarrow> label list list \<times> slice
   \<Rightarrow> (label list list \<times> slice) \<times> (unmarshal_error + string)" where
  "mem_series_loop sum64 fp_labels gr src written hp =
     (if src = [] then (hp, Inr written)
      else
        (case next_field src of
           Inl err \<Rightarrow> (hp, Inl (NextField err))
         | Inr (num, p, tail) \<Rightarrow>
             if num = 1
             then (case message_data p of
                     None \<Rightarrow> (hp, Inl NoLabelData)
                   | Some d \<Rightarrow>
                       (case label_loop d ([], []) of
                          Inl err \<Rightarrow> (hp, Inl err)
                        | Inr (name, val) \<Rightarrow>
                            mem_series_loop sum64 fp_labels gr tail (written @ d)
                              (go_append (gr_labels gr) zero_label (fst hp) (snd hp)
                                 \<lparr>lb_name = name, lb_value = val, lb_fingerprint = (if fp_labels then sum64 val else 0)\<rparr>)))
             else mem_series_loop sum64 fp_labels gr tail written hp))"
  by pat_completeness auto

termination
  by (relation "measure (\<lambda>(sum64, fp, gr, src, written, hp). length src)") (auto dest: next_field_shorter)

declare mem_series_loop.simps [simp del]

text \<open>\<^verbatim>\<open>tss = tss[:len(tss)+1]\<close>, or an append of a zero value; then the last element is filled in.\<close>

definition extend_series :: "growth \<Rightarrow> mem_serie list list \<Rightarrow> slice \<Rightarrow> mem_serie list list \<times> slice" where
  "extend_series gr h s =
     (if sl_end s < length (h ! sl_arr s) then (h, s\<lparr>sl_len := sl_len s + 1\<rparr>)
      else go_append (gr_series gr) zero_serie h s zero_serie)"

definition set_last :: "mem_serie list list \<Rightarrow> slice \<Rightarrow> mem_serie \<Rightarrow> mem_serie list list" where
  "set_last h s x = h[sl_arr s := (h ! sl_arr s)[sl_end s - 1 := x]]"

definition mem_unmarshal_series ::
  "(string \<Rightarrow> u64) \<Rightarrow> bool \<Rightarrow> growth \<Rightarrow> string \<Rightarrow> memory \<Rightarrow> unmarshaler \<Rightarrow> (memory \<times> unmarshaler) \<times> unmarshal_error option" where
  "mem_unmarshal_series sum64 fp_labels gr src m um =
     (case mem_series_loop sum64 fp_labels gr src [] (mm_labels m, um_labels um) of
        ((h, pool), Inl err) \<Rightarrow> ((m\<lparr>mm_labels := h\<rparr>, um\<lparr>um_labels := pool\<rparr>), Some err)
      | ((h, pool), Inr written) \<Rightarrow>
          (let start = sl_len (um_labels um);
               ls = pool\<lparr>sl_off := sl_off pool + start, sl_len := sl_len pool - start\<rparr>
           in ((\<lparr>mm_labels = h, mm_series = set_last (mm_series m) (um_series um)
                   \<lparr>ms_labels = ls, ms_fingerprint = sum64 written\<rparr>\<rparr>,
                um\<lparr>um_labels := pool\<rparr>), None)))"

function mem_request_loop ::
  "(string \<Rightarrow> u64) \<Rightarrow> bool \<Rightarrow> growth \<Rightarrow> string \<Rightarrow> memory \<times> unmarshaler \<Rightarrow> (memory \<times> unmarshaler) \<times> unmarshal_error option" where
  "mem_request_loop sum64 fp_labels gr src mu =
     (if src = [] then (mu, None)
      else
        (case next_field src of
           Inl err \<Rightarrow> (mu, Some (NextField err))
         | Inr (num, p, tail) \<Rightarrow>
             if num = 1
             then (case message_data p of
                     None \<Rightarrow> (mu, Some NoTimeseriesData)
                   | Some d \<Rightarrow>
                       (case extend_series gr (mm_series (fst mu)) (um_series (snd mu)) of (h, tss) \<Rightarrow>
                          (case mem_unmarshal_series sum64 fp_labels gr d
                                  ((fst mu)\<lparr>mm_series := h\<rparr>) ((snd mu)\<lparr>um_series := tss\<rparr>) of
                             (mu', Some err) \<Rightarrow> (mu', Some (BadTimeserie err))
                           | (mu', None) \<Rightarrow> mem_request_loop sum64 fp_labels gr tail mu')))
             else mem_request_loop sum64 fp_labels gr tail mu))"
  by pat_completeness auto

termination
  by (relation "measure (\<lambda>(sum64, fp, gr, src, mu). length src)") (auto dest: next_field_shorter)

declare mem_request_loop.simps [simp del]

definition um_reset :: "memory \<times> unmarshaler \<Rightarrow> memory \<times> unmarshaler" where
  "um_reset mu = (case mu of (m, um) \<Rightarrow>
     (\<lparr>mm_labels = clear zero_label (mm_labels m) (um_labels um), mm_series = clear zero_serie (mm_series m) (um_series um)\<rparr>,
      \<lparr>um_series = (um_series um)\<lparr>sl_len := 0\<rparr>, um_labels = (um_labels um)\<lparr>sl_len := 0\<rparr>\<rparr>))"

text \<open>
  \<^verbatim>\<open>UnmarshalProtobuf\<close>: the local variables \<^verbatim>\<open>tss\<close> and \<^verbatim>\<open>labelsPool\<close> are stored back only when there was no error.
\<close>

definition mem_unmarshal ::
  "(string \<Rightarrow> u64) \<Rightarrow> bool \<Rightarrow> growth \<Rightarrow> string \<Rightarrow> memory \<times> unmarshaler \<Rightarrow> (memory \<times> unmarshaler) \<times> unmarshal_error option" where
  "mem_unmarshal sum64 fp_labels gr src mu =
     (case um_reset mu of (m0, um0) \<Rightarrow>
        (case mem_request_loop sum64 fp_labels gr src (m0, um0) of
           ((m, um), Some err) \<Rightarrow> ((m, um0), Some err)
         | ((m, um), None) \<Rightarrow> ((m, um), None)))"

text \<open>\<^verbatim>\<open>getWriteRequestUnmarshaler\<close> when the pool is empty: a nil slice of series, and room for labels.\<close>

definition new_unmarshaler :: "memory \<Rightarrow> memory \<times> unmarshaler" where
  "new_unmarshaler m =
     (case alloc (mm_labels m) (replicate 4096 zero_label) 0 of (hl, ls) \<Rightarrow>
        (case alloc (mm_series m) [] 0 of (hs, tss) \<Rightarrow>
           (\<lparr>mm_labels = hl, mm_series = hs\<rparr>, \<lparr>um_series = tss, um_labels = ls\<rparr>)))"

subsection \<open>The memory holds the values\<close>

text \<open>The loop over the fields of a series and the one on values: the same error, or the same labels appended to the pool.\<close>

definition series_stored ::
  "(string \<Rightarrow> u64) \<Rightarrow> bool \<Rightarrow> string \<Rightarrow> string \<Rightarrow> label list list \<times> slice \<Rightarrow> (label list list \<times> slice) \<times> (unmarshal_error + string) \<Rightarrow> bool" where
  "series_stored sum64 fp src written hp out \<longleftrightarrow> moves (fst hp) (snd hp) (fst (fst out)) (snd (fst out))
     \<and> (case snd out of
          Inl err \<Rightarrow> \<forall>ls. series_loop sum64 fp src (written, ls) = Inl err
        | Inr w \<Rightarrow> \<exists>new. view (fst (fst out)) (snd (fst out)) = view (fst hp) (snd hp) @ new
            \<and> (\<forall>ls. series_loop sum64 fp src (written, ls) = Inr (w, ls @ new)))"

lemma series_stored_err:
  "slice_ok (fst hp) (snd hp) \<Longrightarrow> (\<And>ls. series_loop sum64 fp src (written, ls) = Inl err) \<Longrightarrow> series_stored sum64 fp src written hp (hp, Inl err)"
  by (simp add: series_stored_def moves_refl)

lemma series_stored_step:
  assumes "series_stored sum64 fp tail w1 hp1 out" and "moves (fst hp) (snd hp) (fst hp1) (snd hp1)"
    and "view (fst hp1) (snd hp1) = view (fst hp) (snd hp) @ ls1"
    and "\<And>ls. series_loop sum64 fp src (written, ls) = series_loop sum64 fp tail (w1, ls @ ls1)"
  shows "series_stored sum64 fp src written hp out"
  using assms moves_trans [OF assms(2)] unfolding series_stored_def by (cases "snd out") fastforce+

lemma mem_series_loop_ok:
  "slice_ok (fst hp) (snd hp) \<Longrightarrow> series_stored sum64 fp src written hp (mem_series_loop sum64 fp gr src written hp)"
proof (induction src arbitrary: written hp rule: measure_induct_rule [of length])
  case (less src)
  note ok = less.prems
  note unf = mem_series_loop.simps [of sum64 fp gr src written hp] series_loop.simps [of sum64 fp src]
  consider (Nil) "src = []" | (err) err where "src \<noteq> []" "next_field src = Inl err"
    | (other) num p tail where "src \<noteq> []" "next_field src = Inr (num, p, tail)" "num \<noteq> 1"
    | (nodata) p tail where "src \<noteq> []" "next_field src = Inr (1, p, tail)" "message_data p = None"
    | (bad) p tail d err where "src \<noteq> []" "next_field src = Inr (1, p, tail)" "message_data p = Some d" "label_loop d ([], []) = Inl err"
    | (label) p tail d name val where "src \<noteq> []" "next_field src = Inr (1, p, tail)" "message_data p = Some d"
        "label_loop d ([], []) = Inr (name, val)"
    by (metis (no_types, opaque_lifting) option.exhaust prod_cases3 sumE surj_pair)
  then show ?case
  proof cases
    case Nil
    then show ?thesis using ok unfolding unf by (simp add: series_stored_def moves_refl series_loop.simps [of _ _ "[]"])
  next
    case err
    then have "mem_series_loop sum64 fp gr src written hp = (hp, Inl (NextField err))" by (simp add: unf)
    then show ?thesis using series_stored_err [OF ok] err by (simp add: unf)
  next
    case other
    then have "mem_series_loop sum64 fp gr src written hp = mem_series_loop sum64 fp gr tail written hp" by (simp add: unf)
    moreover have "series_stored sum64 fp src written hp (mem_series_loop sum64 fp gr tail written hp)"
      by (rule series_stored_step [OF less.IH [OF next_field_shorter [OF other(2)] ok] moves_refl [OF ok], of "[]"])
        (use other in \<open>simp_all add: unf\<close>)
    ultimately show ?thesis by simp
  next
    case nodata
    then have "mem_series_loop sum64 fp gr src written hp = (hp, Inl NoLabelData)" by (simp add: unf)
    then show ?thesis using series_stored_err [OF ok] nodata by (simp add: unf)
  next
    case bad
    then have "mem_series_loop sum64 fp gr src written hp = (hp, Inl err)" by (simp add: unf)
    then show ?thesis using series_stored_err [OF ok] bad by (simp add: unf)
  next
    case label
    let ?l = "\<lparr>lb_name = name, lb_value = val, lb_fingerprint = (if fp then sum64 val else 0)\<rparr>"
    obtain h1 s1 where a: "go_append (gr_labels gr) zero_label (fst hp) (snd hp) ?l = (h1, s1)" by force
    note mv = go_append_moves [OF ok a]
    then have ok1: "slice_ok (fst (h1, s1)) (snd (h1, s1))" by (simp add: moves_def)
    have "mem_series_loop sum64 fp gr src written hp = mem_series_loop sum64 fp gr tail (written @ d) (h1, s1)"
      using label a by (simp add: unf)
    moreover have "series_stored sum64 fp src written hp (mem_series_loop sum64 fp gr tail (written @ d) (h1, s1))"
      by (rule series_stored_step [OF less.IH [OF next_field_shorter [OF label(2)] ok1], of _ "[?l]"])
        (use mv label in \<open>simp_all add: unf\<close>)
    ultimately show ?thesis by simp
  qed
qed

lemma extend_series_ok:
  assumes "slice_ok h s" and "extend_series gr h s = (h1, s1)"
  shows "moves h s h1 s1" and "moves h s (set_last h1 s1 x) s1" and "view (set_last h1 s1 x) s1 = view h s @ [x]"
proof -
  have a: "go_append (gr_series gr) zero_serie h s x = (set_last h1 s1 x, s1)"
  proof (cases "sl_end s < length (h ! sl_arr s)")
    case True
    then show ?thesis using assms(2) by (auto simp: extend_series_def go_append_def set_last_def sl_end_def)
  next
    case False
    have "length (view h s) = sl_len s" using assms(1) by (auto simp: view_def slice_ok_def sl_end_def)
    then show ?thesis using False assms(2)
      by (auto simp: extend_series_def go_append_def alloc_def set_last_def sl_end_def list_update_append)
  qed
  show "moves h s (set_last h1 s1 x) s1" "view (set_last h1 s1 x) s1 = view h s @ [x]" by (rule go_append_moves [OF assms(1) a])+
  show "moves h s h1 s1"
  proof (cases "sl_end s < length (h ! sl_arr s)")
    case True
    then have "h1 = h" "s1 = s\<lparr>sl_len := sl_len s + 1\<rparr>" using assms(2) by (simp_all add: extend_series_def)
    then show ?thesis using True assms(1) by (simp add: moves_def slice_ok_def sl_end_def)
  next
    case False
    then show ?thesis using assms go_append_moves(1) by (simp add: extend_series_def)
  qed
qed

text \<open>
  A request that has been read into memory so far, by an unmarshaler whose labels were in the array \<open>a\<close> when there
  were \<open>n\<close> arrays: everything is in \<open>a\<close> or in arrays made since.
\<close>

definition own :: "nat \<Rightarrow> nat \<Rightarrow> slice \<Rightarrow> bool" where
  "own a n s \<longleftrightarrow> sl_arr s = a \<or> n \<le> sl_arr s"

lemma moves_own: "moves h s h' s' \<Longrightarrow> n \<le> length h \<Longrightarrow> own a n s \<Longrightarrow> own a n s'"
  by (auto simp: moves_def own_def split: if_splits)

definition held :: "nat \<Rightarrow> nat \<Rightarrow> memory \<Rightarrow> unmarshaler \<Rightarrow> time_serie list \<Rightarrow> bool" where
  "held a n m um tss \<longleftrightarrow> n \<le> length (mm_labels m) \<and> own a n (um_labels um) \<and> slice_ok (mm_labels m) (um_labels um) \<and> slice_ok (mm_series m) (um_series um)
     \<and> (\<forall>ms \<in> set (view (mm_series m) (um_series um)). slice_ok (mm_labels m) (ms_labels ms) \<and> apart (ms_labels ms) (um_labels um) \<and> own a n (ms_labels ms))
     \<and> read_request m um = tss"

text \<open>What a step may do to the memory outside the unmarshaler it works on.\<close>

definition steps :: "memory \<times> unmarshaler \<Rightarrow> memory \<times> unmarshaler \<Rightarrow> bool" where
  "steps mu mu' \<longleftrightarrow> moves (mm_labels (fst mu)) (um_labels (snd mu)) (mm_labels (fst mu')) (um_labels (snd mu'))
     \<and> moves (mm_series (fst mu)) (um_series (snd mu)) (mm_series (fst mu')) (um_series (snd mu'))"

lemma steps_trans: "steps a b \<Longrightarrow> steps b c \<Longrightarrow> steps a c"
  unfolding steps_def by (auto intro: moves_trans)

lemma steps_refl: "held a n m um tss \<Longrightarrow> steps (m, um) (m, um)"
  by (simp add: held_def steps_def moves_refl)

lemma view_suffix:
  assumes "view h s' = view h0 s @ new" and "slice_ok h s'" and "length (view h0 s) = n"
  shows "view h (s'\<lparr>sl_off := sl_off s' + n, sl_len := sl_len s' - n\<rparr>) = new"
    and "slice_ok h (s'\<lparr>sl_off := sl_off s' + n, sl_len := sl_len s' - n\<rparr>)" and "apart (s'\<lparr>sl_off := sl_off s' + n, sl_len := sl_len s' - n\<rparr>) s'"
proof -
  have "view h (s'\<lparr>sl_off := sl_off s' + n, sl_len := sl_len s' - n\<rparr>) = drop n (view h s')" by (simp add: view_def drop_take add.commute)
  then show "view h (s'\<lparr>sl_off := sl_off s' + n, sl_len := sl_len s' - n\<rparr>) = new" using assms(1,3) by simp
  have "length (view h s') = sl_len s'" using assms(2) by (auto simp: view_def slice_ok_def sl_end_def)
  then have "n \<le> sl_len s'" using assms(1,3) by (metis length_append le_add1)
  then show "slice_ok h (s'\<lparr>sl_off := sl_off s' + n, sl_len := sl_len s' - n\<rparr>)" "apart (s'\<lparr>sl_off := sl_off s' + n, sl_len := sl_len s' - n\<rparr>) s'"
    using assms(2) by (simp_all add: slice_ok_def apart_def sl_end_def)
qed
text \<open>One series: a slot for it, its labels, and the two fields.\<close>

lemma mem_serie_ok:
  assumes "held a n m um tss" and "extend_series gr (mm_series m) (um_series um) = (h1, s1)"
    and "mem_unmarshal_series sum64 fp gr d (m\<lparr>mm_series := h1\<rparr>) (um\<lparr>um_series := s1\<rparr>) = (mu', res)"
  shows "steps (m, um) mu'"
    and "case unmarshal_series sum64 fp d of Inl err \<Rightarrow> res = Some err | Inr ts \<Rightarrow> res = None \<and> held a n (fst mu') (snd mu') (tss @ [ts])"
proof -
  let ?hp = "(mm_labels m, um_labels um)"
  have ok: "slice_ok (mm_labels m) (um_labels um)" "slice_ok (mm_series m) (um_series um)"
    "\<forall>ms \<in> set (view (mm_series m) (um_series um)). slice_ok (mm_labels m) (ms_labels ms) \<and> apart (ms_labels ms) (um_labels um) \<and> own a n (ms_labels ms)"
    "n \<le> length (mm_labels m)" "own a n (um_labels um)" "map (read_serie m) (view (mm_series m) (um_series um)) = tss"
    using assms(1) by (simp_all add: held_def read_request_def)
  note ex = extend_series_ok [OF ok(2) assms(2)]
  obtain h2 s2 lres where run: "mem_series_loop sum64 fp gr d [] ?hp = ((h2, s2), lres)" by (metis prod.exhaust)
  have st: "series_stored sum64 fp d [] ?hp ((h2, s2), lres)" using mem_series_loop_ok [of ?hp sum64 fp d "[]" gr] ok(1) run by simp
  then have mv: "moves (mm_labels m) (um_labels um) h2 s2" by (simp add: series_stored_def)
  have "steps (m, um) mu' \<and> (case unmarshal_series sum64 fp d of Inl err \<Rightarrow> res = Some err
      | Inr ts \<Rightarrow> res = None \<and> held a n (fst mu') (snd mu') (tss @ [ts]))"
  proof (cases lres)
    case (Inl err)
    then have "mu' = (m\<lparr>mm_series := h1, mm_labels := h2\<rparr>, um\<lparr>um_series := s1, um_labels := s2\<rparr>)" "res = Some err"
      using assms(3) run by (simp_all add: mem_unmarshal_series_def)
    moreover have "unmarshal_series sum64 fp d = Inl err" using st Inl by (simp add: series_stored_def unmarshal_series_def)
    ultimately show ?thesis using mv ex(1) by (auto simp: steps_def)
  next
    case (Inr w)
    obtain new where new: "view h2 s2 = view (mm_labels m) (um_labels um) @ new" "series_loop sum64 fp d ([], []) = Inr (w, new)"
      using st Inr by (auto simp: series_stored_def)
    let ?n = "sl_len (um_labels um)"
    let ?ls = "s2\<lparr>sl_off := sl_off s2 + ?n, sl_len := sl_len s2 - ?n\<rparr>"
    let ?ms = "\<lparr>ms_labels = ?ls, ms_fingerprint = sum64 w\<rparr>"
    have res: "mu' = (\<lparr>mm_labels = h2, mm_series = set_last h1 s1 ?ms\<rparr>, um\<lparr>um_series := s1, um_labels := s2\<rparr>)" "res = None"
      using assms(3) run Inr by (simp_all add: mem_unmarshal_series_def Let_def)
    have len: "length (view (mm_labels m) (um_labels um)) = ?n" using ok(1) by (auto simp: view_def slice_ok_def sl_end_def)
    have ok2: "slice_ok h2 s2" using mv by (simp add: moves_def)
    have own2: "own a n s2" and n2: "n \<le> length h2" using moves_own [OF mv ok(4,5)] mv ok(4) by (simp_all add: moves_def)
    note sfx = view_suffix [OF new(1) ok2 len]
    have ser: "view (set_last h1 s1 ?ms) s1 = view (mm_series m) (um_series um) @ [?ms]" by (rule ex(3))
    have keep: "slice_ok h2 (ms_labels ms) \<and> apart (ms_labels ms) s2 \<and> own a n (ms_labels ms) \<and> view h2 (ms_labels ms) = view (mm_labels m) (ms_labels ms)"
      if "ms \<in> set (view (mm_series m) (um_series um))" for ms
      using moves_apart [OF mv] ok(3) that by blast
    let ?m' = "\<lparr>mm_labels = h2, mm_series = set_last h1 s1 ?ms\<rparr>"
    have "read_serie ?m' ms = read_serie m ms" if "ms \<in> set (view (mm_series m) (um_series um))" for ms
      using keep [OF that] by (simp add: read_serie_def)
    then have old: "map (read_serie ?m') (view (mm_series m) (um_series um)) = tss" using ok(6) by (metis (no_types, lifting) map_cong)
    have "unmarshal_series sum64 fp d = Inr (read_serie ?m' ?ms)"
      using new(2) sfx(1) by (simp add: unmarshal_series_def read_serie_def)
    moreover have "held a n ?m' (um\<lparr>um_series := s1, um_labels := s2\<rparr>) (tss @ [read_serie ?m' ?ms])"
      unfolding held_def read_request_def using ok2 ex(2) [of ?ms] sfx(2,3) keep old ser own2 n2 by (auto simp: moves_def own_def)
    ultimately show ?thesis using res mv ex(2) by (simp add: steps_def)
  qed
  then show "steps (m, um) mu'"
    "case unmarshal_series sum64 fp d of Inl err \<Rightarrow> res = Some err | Inr ts \<Rightarrow> res = None \<and> held a n (fst mu') (snd mu') (tss @ [ts])"
    by simp_all
qed

lemma mem_request_loop_ok:
  assumes "held a n m um tss" and "mem_request_loop sum64 fp gr src (m, um) = (mu', res)"
  shows "steps (m, um) mu' \<and> (case request_loop sum64 fp src tss of
      Inl err \<Rightarrow> res = Some err | Inr tss' \<Rightarrow> res = None \<and> held a n (fst mu') (snd mu') tss')"
  using assms
proof (induction src arbitrary: m um tss rule: measure_induct_rule [of length])
  case (less src)
  note refl = steps_refl [OF less.prems(1)]
  note unf = mem_request_loop.simps [of sum64 fp gr src] request_loop.simps [of sum64 fp src]
  consider (Nil) "src = []" | (err) err where "src \<noteq> []" "next_field src = Inl err"
    | (other) num p tail where "src \<noteq> []" "next_field src = Inr (num, p, tail)" "num \<noteq> 1"
    | (nodata) p tail where "src \<noteq> []" "next_field src = Inr (1, p, tail)" "message_data p = None"
    | (serie) p tail d where "src \<noteq> []" "next_field src = Inr (1, p, tail)" "message_data p = Some d"
    by (metis option.exhaust prod_cases3 sumE)
  then show ?case
  proof cases
    case Nil
    then show ?thesis using less.prems refl
      by (auto simp: mem_request_loop.simps [of _ _ _ "[]"] request_loop.simps [of _ _ "[]"])
  next
    case other
    then have "mem_request_loop sum64 fp gr tail (m, um) = (mu', res)" using less.prems(2) by (simp add: unf)
    from less.IH [OF next_field_shorter [OF other(2)] less.prems(1) this] show ?thesis using other by (simp add: unf)
  next
    case serie
    obtain h1 s1 where ex: "extend_series gr (mm_series m) (um_series um) = (h1, s1)" by force
    obtain mu1 res1 where run: "mem_unmarshal_series sum64 fp gr d (m\<lparr>mm_series := h1\<rparr>) (um\<lparr>um_series := s1\<rparr>) = (mu1, res1)" by (metis prod.exhaust)
    note one = mem_serie_ok [OF less.prems(1) ex run]
    show ?thesis
    proof (cases "unmarshal_series sum64 fp d")
      case (Inl err)
      then have "res1 = Some err" using one(2) by simp
      then have "mu' = mu1" "res = Some (BadTimeserie err)" using less.prems(2) serie ex run by (simp_all add: unf)
      then show ?thesis using one(1) serie Inl by (simp add: unf)
    next
      case (Inr ts)
      then have h1: "res1 = None" "held a n (fst mu1) (snd mu1) (tss @ [ts])" using one(2) by simp_all
      then have "mem_request_loop sum64 fp gr tail (fst mu1, snd mu1) = (mu', res)" using less.prems(2) serie ex run by (simp add: unf)
      from less.IH [OF next_field_shorter [OF serie(2)] h1(2) this] show ?thesis
        using serie Inr steps_trans [OF one(1)] by (simp add: unf)
    qed
  qed (use less.prems refl in \<open>simp_all add: unf\<close>)
qed

subsection \<open>Unmarshalers that share the memory\<close>

text \<open>What an operation on the array \<open>a\<close> may do to the others; the array it ends with is the same or a new one.\<close>

definition touches :: "nat \<Rightarrow> 'a list list \<Rightarrow> 'a list list \<Rightarrow> nat \<Rightarrow> bool" where
  "touches a h h' a' \<longleftrightarrow> length h \<le> length h' \<and> (a' = a \<or> length h \<le> a')
     \<and> (\<forall>t. slice_ok h t \<and> sl_arr t \<noteq> a \<longrightarrow> slice_ok h' t \<and> view h' t = view h t)"

lemma moves_touches: "moves h s h' s' \<Longrightarrow> touches (sl_arr s) h h' (sl_arr s')"
  by (auto simp: moves_def touches_def apart_def split: if_splits)

lemma touches_trans: "touches a h h1 a1 \<Longrightarrow> touches a1 h1 h2 a2 \<Longrightarrow> touches a h h2 a2"
  unfolding touches_def slice_ok_def by (auto; metis order.strict_trans2 order_less_irrefl order_trans)

lemma clear_ok:
  assumes "slice_ok h s"
  shows "touches (sl_arr s) h (clear zero h s) (sl_arr s)" and "slice_ok (clear zero h s) (s\<lparr>sl_len := 0\<rparr>)"
  using assms by (auto simp: touches_def clear_def slice_ok_def sl_end_def view_def nth_list_update)

definition um_ok :: "memory \<Rightarrow> unmarshaler \<Rightarrow> bool" where
  "um_ok m um \<longleftrightarrow> slice_ok (mm_labels m) (um_labels um) \<and> slice_ok (mm_series m) (um_series um)"

text \<open>The same for both arrays of an unmarshaler.\<close>

definition um_touches :: "memory \<times> unmarshaler \<Rightarrow> memory \<times> unmarshaler \<Rightarrow> bool" where
  "um_touches mu mu' \<longleftrightarrow> touches (sl_arr (um_labels (snd mu))) (mm_labels (fst mu)) (mm_labels (fst mu')) (sl_arr (um_labels (snd mu')))
     \<and> touches (sl_arr (um_series (snd mu))) (mm_series (fst mu)) (mm_series (fst mu')) (sl_arr (um_series (snd mu')))"

lemma um_touches_trans: "um_touches a b \<Longrightarrow> um_touches b c \<Longrightarrow> um_touches a c"
  unfolding um_touches_def by (auto intro: touches_trans)

lemma steps_touches: "steps mu mu' \<Longrightarrow> um_touches mu mu'"
  by (simp add: steps_def um_touches_def moves_touches)

lemma um_reset_ok:
  assumes "um_ok m um" and "um_reset (m, um) = (m0, um0)"
  shows "um_ok m0 um0" and "um_touches (m, um) (m0, um0)" and "sl_arr (um_labels um0) = sl_arr (um_labels um)"
    and "held (sl_arr (um_labels um)) (length (mm_labels m)) m0 um0 []"
proof -
  have r: "m0 = \<lparr>mm_labels = clear zero_label (mm_labels m) (um_labels um), mm_series = clear zero_serie (mm_series m) (um_series um)\<rparr>"
    "um0 = \<lparr>um_series = (um_series um)\<lparr>sl_len := 0\<rparr>, um_labels = (um_labels um)\<lparr>sl_len := 0\<rparr>\<rparr>"
    using assms(2) by (auto simp: um_reset_def)
  have ok: "slice_ok (mm_labels m) (um_labels um)" "slice_ok (mm_series m) (um_series um)" using assms(1) by (simp_all add: um_ok_def)
  note c = clear_ok [OF ok(1), of zero_label] clear_ok [OF ok(2), of zero_serie]
  show "um_ok m0 um0" "um_touches (m, um) (m0, um0)" "sl_arr (um_labels um0) = sl_arr (um_labels um)"
    using c by (simp_all add: r um_ok_def um_touches_def)
  show "held (sl_arr (um_labels um)) (length (mm_labels m)) m0 um0 []"
    using c by (simp add: r held_def own_def read_request_def view_def clear_def)
qed

lemma held_um_ok: "held a n m um tss \<Longrightarrow> um_ok m um"
  by (simp add: held_def um_ok_def)

text \<open>Unmarshaling a request into memory that may hold anything gives what unmarshaling it into values gives.\<close>

lemma mem_unmarshal_ok:
  assumes "um_ok m um" and "mem_unmarshal sum64 fp gr src (m, um) = ((m', um'), res)"
  shows "um_ok m' um'" and "um_touches (m, um) (m', um')"
    and "case unmarshal_protobuf sum64 fp src of
        Inl err \<Rightarrow> res = Some err | Inr tss \<Rightarrow> res = None \<and> held (sl_arr (um_labels um)) (length (mm_labels m)) m' um' tss"
proof -
  let ?a = "sl_arr (um_labels um)" and ?n = "length (mm_labels m)"
  obtain m0 um0 where z: "um_reset (m, um) = (m0, um0)" by force
  note r = um_reset_ok [OF assms(1) z]
  obtain m1 um1 res1 where run: "mem_request_loop sum64 fp gr src (m0, um0) = ((m1, um1), res1)" by (metis prod.exhaust)
  note ok = mem_request_loop_ok [OF r(4) run]
  have st: "steps (m0, um0) (m1, um1)" using ok by simp
  have um01: "um_ok m1 um0"
    using st r(1) by (simp add: steps_def um_ok_def moves_def apart_def)
  have t1: "um_touches (m0, um0) (m1, um1)" and t0: "um_touches (m0, um0) (m1, um0)"
    using steps_touches [OF st] by (auto simp: um_touches_def touches_def)
  have "um_ok m' um' \<and> um_touches (m, um) (m', um') \<and> (case unmarshal_protobuf sum64 fp src of
        Inl err \<Rightarrow> res = Some err | Inr tss \<Rightarrow> res = None \<and> held ?a ?n m' um' tss)"
  proof (cases "request_loop sum64 fp src []")
    case (Inl err)
    then have "res1 = Some err" using ok by simp
    then have "m' = m1" "um' = um0" "res = Some err" using assms(2) z run by (simp_all add: mem_unmarshal_def)
    then show ?thesis using um01 um_touches_trans [OF r(2) t0] Inl by (simp add: unmarshal_protobuf_def)
  next
    case (Inr tss)
    then have h: "res1 = None" "held ?a ?n m1 um1 tss" using ok by simp_all
    then have "m' = m1" "um' = um1" "res = None" using assms(2) z run by (simp_all add: mem_unmarshal_def)
    then show ?thesis using h held_um_ok [OF h(2)] um_touches_trans [OF r(2) t1] Inr by (simp add: unmarshal_protobuf_def)
  qed
  then show "um_ok m' um'" "um_touches (m, um) (m', um')" "case unmarshal_protobuf sum64 fp src of
        Inl err \<Rightarrow> res = Some err | Inr tss \<Rightarrow> res = None \<and> held ?a ?n m' um' tss" by simp_all
qed

subsection \<open>The pool of unmarshalers\<close>

text \<open>
  Requests are parsed concurrently; each has an unmarshaler of its own from \<^verbatim>\<open>wruPool\<close> until its callback has returned.
  \<open>StartParse c src\<close> takes the idle one number \<open>c\<close> or a new one, as the runtime likes; \<open>FinishParse i\<close> is the deferred
  \<^verbatim>\<open>putWriteRequestUnmarshaler\<close> of the \<open>i\<close>-th request in flight; \<open>DropIdle\<close> stands for the garbage collector.
\<close>

record parsers =
  pa_memory :: memory
  pa_idle :: "unmarshaler list"
  pa_busy :: "(string \<times> unmarshaler) list"

datatype parser_event = StartParse "nat option" string | FinishParse nat | DropIdle nat

definition drop_nth :: "nat \<Rightarrow> 'a list \<Rightarrow> 'a list" where
  "drop_nth i xs = take i xs @ drop (Suc i) xs"

definition get_unmarshaler :: "nat option \<Rightarrow> memory \<Rightarrow> unmarshaler list \<Rightarrow> (memory \<times> unmarshaler) \<times> unmarshaler list" where
  "get_unmarshaler c m idle =
     (case c of
        None \<Rightarrow> (new_unmarshaler m, idle)
      | Some i \<Rightarrow> if i < length idle then ((m, idle ! i), drop_nth i idle) else (new_unmarshaler m, idle))"

fun parser_step :: "(string \<Rightarrow> u64) \<Rightarrow> bool \<Rightarrow> growth \<Rightarrow> parsers \<Rightarrow> parser_event \<Rightarrow> parsers" where
  "parser_step sum64 fp_labels gr ps (StartParse c src) =
     (case get_unmarshaler c (pa_memory ps) (pa_idle ps) of
        (mu, idle) \<Rightarrow>
          (case mem_unmarshal sum64 fp_labels gr src mu of
             ((m, um), None) \<Rightarrow> \<lparr>pa_memory = m, pa_idle = idle, pa_busy = pa_busy ps @ [(src, um)]\<rparr>
           | (mu', Some err) \<Rightarrow>
               (case um_reset mu' of (m, um) \<Rightarrow> \<lparr>pa_memory = m, pa_idle = idle @ [um], pa_busy = pa_busy ps\<rparr>)))"
| "parser_step sum64 fp_labels gr ps (FinishParse i) =
     (if i < length (pa_busy ps)
      then (case um_reset (pa_memory ps, snd (pa_busy ps ! i)) of
              (m, um) \<Rightarrow> \<lparr>pa_memory = m, pa_idle = pa_idle ps @ [um], pa_busy = drop_nth i (pa_busy ps)\<rparr>)
      else ps)"
| "parser_step sum64 fp_labels gr ps (DropIdle i) = ps\<lparr>pa_idle := drop_nth i (pa_idle ps)\<rparr>"

text \<open>An unmarshaler, with the request it holds if it is busy.  Several never share what one of them writes.\<close>

type_synonym entry = "string option \<times> unmarshaler"

definition entry_ok :: "(string \<Rightarrow> u64) \<Rightarrow> bool \<Rightarrow> memory \<Rightarrow> entry \<Rightarrow> bool" where
  "entry_ok sum64 fp m x \<longleftrightarrow> um_ok m (snd x)
     \<and> (case fst x of None \<Rightarrow> True
        | Some src \<Rightarrow> unmarshal_protobuf sum64 fp src = Inr (read_request m (snd x))
            \<and> (\<forall>ms \<in> set (view (mm_series m) (um_series (snd x))). slice_ok (mm_labels m) (ms_labels ms)))"

definition label_arrays :: "memory \<Rightarrow> entry \<Rightarrow> nat set" where
  "label_arrays m x = insert (sl_arr (um_labels (snd x)))
     (if fst x = None then {} else (\<lambda>ms. sl_arr (ms_labels ms)) ` set (view (mm_series m) (um_series (snd x))))"

definition separate :: "memory \<Rightarrow> entry \<Rightarrow> entry \<Rightarrow> bool" where
  "separate m x y \<longleftrightarrow> sl_arr (um_labels (snd y)) \<notin> label_arrays m x \<and> sl_arr (um_series (snd y)) \<noteq> sl_arr (um_series (snd x))"

definition pool_inv :: "(string \<Rightarrow> u64) \<Rightarrow> bool \<Rightarrow> memory \<Rightarrow> entry multiset \<Rightarrow> bool" where
  "pool_inv sum64 fp m M \<longleftrightarrow> (\<forall>x \<in># M. entry_ok sum64 fp m x) \<and> (\<forall>x y. {#x, y#} \<subseteq># M \<longrightarrow> separate m x y)"

lemma pool_inv_add:
  "pool_inv sum64 fp m (add_mset x M) \<longleftrightarrow>
     entry_ok sum64 fp m x \<and> (\<forall>y \<in># M. separate m x y \<and> separate m y x) \<and> pool_inv sum64 fp m M"
proof -
  have sub: "{#u, v#} \<subseteq># add_mset x M \<longleftrightarrow> (u = x \<and> v \<in># M) \<or> (v = x \<and> u \<in># M) \<or> {#u, v#} \<subseteq># M" for u v
  proof (cases "u = x")
    case True
    then show ?thesis by (auto simp: insert_subset_eq_iff dest: mset_subset_eqD in_diffD)
  next
    case False
    show ?thesis
    proof (cases "v = x")
      case True
      then have e: "{#u, v#} = add_mset x {#u#}" by simp
      have "{#u, v#} \<subseteq># add_mset x M \<longleftrightarrow> u \<in># M" unfolding e by simp
      moreover have "{#u, v#} \<subseteq># M \<Longrightarrow> u \<in># M" by (auto dest: mset_subset_eqD)
      ultimately show ?thesis using True False by auto
    next
      case False': False
      have "{#u, v#} \<subseteq># add_mset x M \<longleftrightarrow> {#u, v#} \<subseteq># M"
        using False False' by (simp add: insert_subset_eq_iff)
      then show ?thesis using False False' by simp
    qed
  qed
  show ?thesis unfolding pool_inv_def sub set_mset_add_mset_insert by blast
qed

text \<open>
  Taking one unmarshaler out, working on it, and putting it back in another role.  What is worked on are the arrays
  \<open>a\<close> of labels and \<open>b\<close> of series; nobody else uses them.
\<close>

definition unused :: "memory \<Rightarrow> nat \<Rightarrow> nat \<Rightarrow> entry \<Rightarrow> bool" where
  "unused m a b y \<longleftrightarrow> a \<notin> label_arrays m y \<and> b \<noteq> sl_arr (um_series (snd y))"

lemma entry_kept:
  assumes "entry_ok sum64 fp m y" and "unused m a b y" and "touches a (mm_labels m) (mm_labels m') a'"
    and "touches b (mm_series m) (mm_series m') b'"
  shows "entry_ok sum64 fp m' y" and "label_arrays m' y = label_arrays m y"
    and "k \<in> label_arrays m y \<Longrightarrow> k < length (mm_labels m)" and "sl_arr (um_series (snd y)) < length (mm_series m)"
proof -
  let ?v = "view (mm_series m) (um_series (snd y))"
  have ok: "slice_ok (mm_labels m) (um_labels (snd y))" "slice_ok (mm_series m) (um_series (snd y))"
    using assms(1) by (simp_all add: entry_ok_def um_ok_def)
  have ne: "sl_arr (um_labels (snd y)) \<noteq> a" "sl_arr (um_series (snd y)) \<noteq> b" using assms(2) by (auto simp: unused_def label_arrays_def)
  have ser: "slice_ok (mm_series m') (um_series (snd y))" "view (mm_series m') (um_series (snd y)) = ?v"
    using assms(4) ok(2) ne(2) by (simp_all add: touches_def)
  have lab: "slice_ok (mm_labels m') (um_labels (snd y))" using assms(3) ok(1) ne(1) by (simp add: touches_def)
  have msl: "slice_ok (mm_labels m) (ms_labels ms)" "slice_ok (mm_labels m') (ms_labels ms)"
    "view (mm_labels m') (ms_labels ms) = view (mm_labels m) (ms_labels ms)" if "fst y \<noteq> None" "ms \<in> set ?v" for ms
  proof -
    show s: "slice_ok (mm_labels m) (ms_labels ms)" using assms(1) that by (auto simp: entry_ok_def)
    have "sl_arr (ms_labels ms) \<in> label_arrays m y" using that by (auto simp: label_arrays_def)
    then have "sl_arr (ms_labels ms) \<noteq> a" using assms(2) by (auto simp: unused_def)
    then show "slice_ok (mm_labels m') (ms_labels ms)" "view (mm_labels m') (ms_labels ms) = view (mm_labels m) (ms_labels ms)"
      using assms(3) s by (simp_all add: touches_def)
  qed
  show "label_arrays m' y = label_arrays m y" using ser(2) by (simp add: label_arrays_def)
  show "k \<in> label_arrays m y \<Longrightarrow> k < length (mm_labels m)"
    using ok(1) msl(1) by (auto simp: label_arrays_def slice_ok_def split: if_splits)
  show "sl_arr (um_series (snd y)) < length (mm_series m)" using ok(2) by (simp add: slice_ok_def)
  show "entry_ok sum64 fp m' y"
  proof (cases "fst y")
    case None
    then show ?thesis using lab ser(1) by (simp add: entry_ok_def um_ok_def)
  next
    case (Some src)
    have "read_request m' (snd y) = read_request m (snd y)"
      using msl(3) Some by (simp add: read_request_def read_serie_def ser(2))
    then show ?thesis using assms(1) Some lab ser msl(2) by (simp add: entry_ok_def um_ok_def)
  qed
qed

lemma pool_inv_work:
  assumes "pool_inv sum64 fp m M" and "\<forall>y \<in># M. unused m a b y"
    and "touches a (mm_labels m) (mm_labels m') (sl_arr (um_labels (snd x')))"
    and "touches b (mm_series m) (mm_series m') (sl_arr (um_series (snd x')))"
    and "entry_ok sum64 fp m' x'" and "\<forall>k \<in> label_arrays m' x'. k = a \<or> length (mm_labels m) \<le> k"
  shows "pool_inv sum64 fp m' (add_mset x' M)"
proof -
  have e: "entry_ok sum64 fp m y" if "y \<in># M" for y using assms(1) that by (simp add: pool_inv_def)
  note keep = entry_kept [OF e _ assms(3,4)]
  have "pool_inv sum64 fp m' M"
    unfolding pool_inv_def
  proof (intro conjI ballI allI impI)
    fix y assume "y \<in># M"
    then show "entry_ok sum64 fp m' y" using keep(1) assms(2) by blast
  next
    fix y z assume yz: "{#y, z#} \<subseteq># M"
    then have "y \<in># M" by (simp add: insert_subset_eq_iff)
    then have "label_arrays m' y = label_arrays m y" using keep(2) assms(2) by blast
    moreover have "separate m y z" using assms(1) yz unfolding pool_inv_def by blast
    ultimately show "separate m' y z" by (simp add: separate_def)
  qed
  moreover have "separate m' x' y \<and> separate m' y x'" if y: "y \<in># M" for y
  proof -
    have u: "unused m a b y" using assms(2) y by blast
    have n: "sl_arr (um_labels (snd y)) < length (mm_labels m)" "sl_arr (um_labels (snd y)) \<noteq> a"
      using keep(3) [OF y u, of "sl_arr (um_labels (snd y))"] u by (auto simp: label_arrays_def unused_def)
    have "sl_arr (um_labels (snd y)) \<notin> label_arrays m' x'" using assms(6) n by auto
    moreover have "sl_arr (um_labels (snd x')) \<notin> label_arrays m' y"
      using assms(3) keep(2,3) [OF y u] u unfolding touches_def unused_def by (metis leD)
    moreover have "sl_arr (um_series (snd x')) \<noteq> sl_arr (um_series (snd y))"
      using assms(4) keep(4) [OF y u] u unfolding touches_def unused_def by (metis leD)
    ultimately show ?thesis by (simp add: separate_def)
  qed
  ultimately show ?thesis using assms(5) by (simp add: pool_inv_add)
qed

lemma pool_inv_change:
  assumes "pool_inv sum64 fp m (add_mset (o1, um) M)" and "um_touches (m, um) (m', um')" and "entry_ok sum64 fp m' (o2, um')"
    and "\<forall>k \<in> label_arrays m' (o2, um'). k = sl_arr (um_labels um) \<or> length (mm_labels m) \<le> k"
  shows "pool_inv sum64 fp m' (add_mset (o2, um') M)"
proof (rule pool_inv_work [OF _ _ _ _ assms(3)])
  show "pool_inv sum64 fp m M" using assms(1) by (simp add: pool_inv_add)
  show "\<forall>y \<in># M. unused m (sl_arr (um_labels um)) (sl_arr (um_series um)) y"
  proof
    fix y assume "y \<in># M"
    then have "separate m (o1, um) y" "separate m y (o1, um)" using assms(1) unfolding pool_inv_add by blast+
    then show "unused m (sl_arr (um_labels um)) (sl_arr (um_series um)) y" by (simp add: separate_def unused_def)
  qed
  show "touches (sl_arr (um_labels um)) (mm_labels m) (mm_labels m') (sl_arr (um_labels (snd (o2, um'))))"
    "touches (sl_arr (um_series um)) (mm_series m) (mm_series m') (sl_arr (um_series (snd (o2, um'))))"
    using assms(2) by (simp_all add: um_touches_def)
qed (rule assms(4))

lemma alloc_touches: "alloc h xs n = (h', s) \<Longrightarrow> n \<le> length xs \<Longrightarrow> touches (length h) h h' (sl_arr s) \<and> slice_ok h' s \<and> sl_arr s = length h"
  by (auto simp: alloc_def touches_def slice_ok_def view_def sl_end_def nth_append)

lemma new_unmarshaler_inv:
  assumes "pool_inv sum64 fp m M" and "new_unmarshaler m = (m1, um1)"
  shows "pool_inv sum64 fp m1 (add_mset (None, um1) M)"
proof -
  obtain hl ls hs tss where a: "alloc (mm_labels m) (replicate 4096 zero_label) 0 = (hl, ls)" "alloc (mm_series m) [] 0 = (hs, tss)"
    by (meson surj_pair)
  have r: "m1 = \<lparr>mm_labels = hl, mm_series = hs\<rparr>" "um1 = \<lparr>um_series = tss, um_labels = ls\<rparr>"
    using assms(2) a by (simp_all add: new_unmarshaler_def)
  have t: "touches (length (mm_labels m)) (mm_labels m) hl (sl_arr ls)" "slice_ok hl ls" "sl_arr ls = length (mm_labels m)"
    "touches (length (mm_series m)) (mm_series m) hs (sl_arr tss)" "slice_ok hs tss"
    using alloc_touches [OF a(1) le0] alloc_touches [OF a(2) le0] by blast+
  show ?thesis
  proof (rule pool_inv_work [OF assms(1), of "length (mm_labels m)" "length (mm_series m)"])
    show "\<forall>y \<in># M. unused m (length (mm_labels m)) (length (mm_series m)) y"
    proof
      fix y assume "y \<in># M"
      then have ok: "entry_ok sum64 fp m y" using assms(1) by (simp add: pool_inv_def)
      show "unused m (length (mm_labels m)) (length (mm_series m)) y"
        using ok by (cases "fst y") (auto simp: unused_def label_arrays_def entry_ok_def um_ok_def slice_ok_def)
    qed
  qed (use t in \<open>simp_all add: r entry_ok_def um_ok_def label_arrays_def\<close>)
qed

lemma mset_drop_nth: "i < length xs \<Longrightarrow> mset xs = add_mset (xs ! i) (mset (drop_nth i xs))"
  by (metis drop_nth_def id_take_nth_drop mset.simps(2) mset_append union_mset_add_mset_right)

lemma map_drop_nth: "map f (drop_nth i xs) = drop_nth i (map f xs)"
  by (simp add: drop_nth_def take_map drop_map)

lemma get_unmarshaler_inv:
  assumes "pool_inv sum64 fp m (B + mset (map (Pair None) idle))" and "get_unmarshaler c m idle = ((m1, um1), idle1)"
  shows "pool_inv sum64 fp m1 (add_mset (None, um1) (B + mset (map (Pair None) idle1)))"
proof (cases "\<exists>i. c = Some i \<and> i < length idle")
  case True
  then obtain i where i: "c = Some i" "i < length idle" by blast
  then have r: "m1 = m" "um1 = idle ! i" "idle1 = drop_nth i idle" using assms(2) by (simp_all add: get_unmarshaler_def)
  have e: "mset (map (Pair None) idle) = add_mset (None, idle ! i) (mset (map (Pair None) (drop_nth i idle)))"
    using mset_drop_nth [of i "map (Pair None) idle"] i(2) by (simp add: map_drop_nth)
  show ?thesis using assms(1) unfolding r e union_mset_add_mset_right .
next
  case False
  then have "new_unmarshaler m = (m1, um1)" "idle1 = idle" using assms(2) by (auto simp: get_unmarshaler_def split: option.splits if_splits)
  then show ?thesis using new_unmarshaler_inv [OF assms(1)] by simp
qed

definition entries_of :: "parsers \<Rightarrow> entry multiset" where
  "entries_of ps = mset (map (\<lambda>(src, um). (Some src, um)) (pa_busy ps)) + mset (map (Pair None) (pa_idle ps))"

lemma pool_inv_reset:
  assumes "pool_inv sum64 fp m (add_mset (o1, um) M)" and "um_reset (m, um) = (m0, um0)"
  shows "pool_inv sum64 fp m0 (add_mset (None, um0) M)"
proof -
  have "um_ok m um" using assms(1) by (simp add: pool_inv_add entry_ok_def)
  note r = um_reset_ok [OF this assms(2)]
  show ?thesis by (rule pool_inv_change [OF assms(1) r(2)]) (use r in \<open>simp_all add: entry_ok_def label_arrays_def\<close>)
qed

text \<open>The requests in flight, without memory: those that could be parsed and have not finished.\<close>

fun flying :: "(string \<Rightarrow> u64) \<Rightarrow> bool \<Rightarrow> string list \<Rightarrow> parser_event \<Rightarrow> string list" where
  "flying sum64 fp srcs (StartParse c src) = (case unmarshal_protobuf sum64 fp src of Inl err \<Rightarrow> srcs | Inr tss \<Rightarrow> srcs @ [src])"
| "flying sum64 fp srcs (FinishParse i) = (if i < length srcs then drop_nth i srcs else srcs)"
| "flying sum64 fp srcs (DropIdle i) = srcs"

lemma parser_step_ok:
  fixes ev gr
  assumes "pool_inv sum64 fp (pa_memory ps) (entries_of ps)"
  defines "ps' \<equiv> parser_step sum64 fp gr ps ev"
  shows "pool_inv sum64 fp (pa_memory ps') (entries_of ps') \<and> map fst (pa_busy ps') = flying sum64 fp (map fst (pa_busy ps)) ev"
proof (cases ev)
  case (StartParse c src)
  let ?B = "mset (map (\<lambda>(src, um). (Some src, um)) (pa_busy ps))"
  obtain m1 um1 idle1 where g: "get_unmarshaler c (pa_memory ps) (pa_idle ps) = ((m1, um1), idle1)" by (metis prod.exhaust)
  note inv1 = get_unmarshaler_inv [OF assms(1) [unfolded entries_of_def] g]
  have um1: "um_ok m1 um1" using inv1 by (simp add: pool_inv_add entry_ok_def)
  obtain m2 um2 res where u: "mem_unmarshal sum64 fp gr src (m1, um1) = ((m2, um2), res)" by (metis prod.exhaust)
  note ok = mem_unmarshal_ok [OF um1 u]
  have tl: "sl_arr (um_labels um2) = sl_arr (um_labels um1) \<or> length (mm_labels m1) \<le> sl_arr (um_labels um2)"
    using ok(2) by (simp add: um_touches_def touches_def)
  show ?thesis
  proof (cases "unmarshal_protobuf sum64 fp src")
    case (Inl err)
    then have res: "res = Some err" using ok(3) by simp
    obtain m3 um3 where z: "um_reset (m2, um2) = (m3, um3)" by force
    have "pool_inv sum64 fp m2 (add_mset (None, um2) (?B + mset (map (Pair None) idle1)))"
      by (rule pool_inv_change [OF inv1 ok(2)]) (use ok(1) tl in \<open>simp_all add: entry_ok_def label_arrays_def\<close>)
    from pool_inv_reset [OF this z] show ?thesis using Inl res g u z StartParse by (simp add: ps'_def entries_of_def)
  next
    case (Inr tss)
    then have h: "res = None" "held (sl_arr (um_labels um1)) (length (mm_labels m1)) m2 um2 tss" using ok(3) by simp_all
    have "pool_inv sum64 fp m2 (add_mset (Some src, um2) (?B + mset (map (Pair None) idle1)))"
      by (rule pool_inv_change [OF inv1 ok(2)])
        (use ok(1) tl h(2) Inr in \<open>auto simp: entry_ok_def label_arrays_def held_def own_def\<close>)
    then show ?thesis using Inr h g u StartParse by (simp add: ps'_def entries_of_def)
  qed
next
  case (FinishParse i)
  show ?thesis
  proof (cases "i < length (pa_busy ps)")
    case True
    let ?bs = "map (\<lambda>(src, um). (Some src, um)) (pa_busy ps)"
    obtain src um where b: "pa_busy ps ! i = (src, um)" by force
    obtain m0 um0 where z: "um_reset (pa_memory ps, um) = (m0, um0)" by force
    have "mset ?bs = add_mset (Some src, um) (mset (drop_nth i ?bs))" using mset_drop_nth [of i ?bs] True b by simp
    then have "pool_inv sum64 fp (pa_memory ps) (add_mset (Some src, um) (mset (drop_nth i ?bs) + mset (map (Pair None) (pa_idle ps))))"
      using assms(1) by (simp add: entries_of_def)
    from pool_inv_reset [OF this z] show ?thesis using True b z FinishParse by (simp add: ps'_def entries_of_def map_drop_nth)
  qed (use assms(1) FinishParse in \<open>simp add: ps'_def\<close>)
next
  case (DropIdle i)
  have "pool_inv sum64 fp (pa_memory ps) (entries_of ps')"
  proof (cases "i < length (pa_idle ps)")
    case True
    have "entries_of ps = add_mset (None, pa_idle ps ! i) (entries_of ps')"
      using mset_drop_nth [of i "map (Pair None) (pa_idle ps)"] True DropIdle by (simp add: entries_of_def ps'_def map_drop_nth)
    then show ?thesis using assms(1) by (simp add: pool_inv_add)
  next
    case False
    then have "drop_nth i (pa_idle ps) = pa_idle ps" by (simp add: drop_nth_def)
    then show ?thesis using assms(1) DropIdle by (simp add: entries_of_def ps'_def)
  qed
  then show ?thesis using DropIdle by (simp add: ps'_def)
qed

text \<open>Whoever kept a request after its unmarshaler went back to the pool finds series without labels in it.\<close>

lemma finished_request_is_cleared:
  assumes "um_ok m um" and "um_reset (m, um) = (m0, um0)" and "0 < length (mm_labels m0)"
  shows "read_request m0 um = replicate (sl_len (um_series um)) \<lparr>ts_labels = [], ts_fingerprint = 0\<rparr>"
proof -
  have "view (clear zero_serie (mm_series m) (um_series um)) (um_series um) = replicate (sl_len (um_series um)) zero_serie"
    using assms(1) by (auto simp: view_def clear_def um_ok_def slice_ok_def sl_end_def)
  moreover have "mm_series m0 = clear zero_serie (mm_series m) (um_series um)" using assms(2) by (auto simp: um_reset_def)
  ultimately show ?thesis by (simp add: read_request_def read_serie_def zero_serie_def view_def)
qed

definition no_parsers :: "memory \<Rightarrow> parsers" where
  "no_parsers m = \<lparr>pa_memory = m, pa_idle = [], pa_busy = []\<rparr>"

lemma parser_run_ok:
  "pool_inv sum64 fp (pa_memory ps) (entries_of ps) \<Longrightarrow>
   pool_inv sum64 fp (pa_memory (foldl (parser_step sum64 fp gr) ps evs)) (entries_of (foldl (parser_step sum64 fp gr) ps evs))
   \<and> map fst (pa_busy (foldl (parser_step sum64 fp gr) ps evs)) = foldl (flying sum64 fp) (map fst (pa_busy ps)) evs"
proof (induction evs arbitrary: ps)
  case (Cons ev evs)
  show ?case using Cons.IH parser_step_ok [OF Cons.prems, of gr ev] by simp
qed simp

subsection \<open>Properties\<close>

text \<open>C39: The parser reuses its memory without mixing requests up: whatever requests are parsed, in whatever order they start
  and finish, which unmarshalers the pool hands out or drops, and how the runtime grows arrays, every request in flight
  reads in memory exactly as the series its bytes mean, until it is finished, and a request that cannot be parsed
  never gets that far.\<close>

theorem requests_in_flight:
  assumes "ps = foldl (parser_step sum64 fp_labels gr) (no_parsers m) evs"
  shows "map fst (pa_busy ps) = foldl (flying sum64 fp_labels) [] evs
    \<and> (\<forall>(src, um) \<in> set (pa_busy ps). unmarshal_protobuf sum64 fp_labels src = Inr (read_request (pa_memory ps) um))"
proof -
  have "pool_inv sum64 fp_labels (pa_memory (no_parsers m)) (entries_of (no_parsers m))"
    by (simp add: pool_inv_def entries_of_def no_parsers_def)
  from parser_run_ok [OF this, of gr evs]
  have inv: "pool_inv sum64 fp_labels (pa_memory ps) (entries_of ps)" and b: "map fst (pa_busy ps) = foldl (flying sum64 fp_labels) [] evs"
    unfolding assms by (simp_all add: no_parsers_def)
  have "unmarshal_protobuf sum64 fp_labels src = Inr (read_request (pa_memory ps) um)" if "(src, um) \<in> set (pa_busy ps)" for src um
  proof -
    have "(Some src, um) \<in># entries_of ps" using that by (force simp: entries_of_def)
    then have "entry_ok sum64 fp_labels (pa_memory ps) (Some src, um)" using inv unfolding pool_inv_def by blast
    then show ?thesis by (simp add: entry_ok_def)
  qed
  then show ?thesis using b by blast
qed

text \<open>Two requests, one after the other in the memory of a third that has finished before.\<close>

lemma request_example:
  assumes "length v < 50"
  shows "unmarshal_protobuf (\<lambda>b. of_nat (length b)) False (request_body True [([(''job'', v)], [])] [])
    = Inr [make_series True (\<lambda>b. of_nat (length b)) False [(''job'', v)]]"
proof -
  have e: "uvarint_enc n = [char_of n]" if "n < 128" for n using that by (simp add: uvarint_enc.simps)
  have "length (series_body True ([(''job'', v)], [])) < 2 ^ 63"
    using assms by (simp add: series_body_def label_body_def label_field_def len_field_def e)
  then show ?thesis using request_loop_body [of "[([(''job'', v)], [])]" True "[]" "\<lambda>b. of_nat (length b)" False "[]"]
    by (simp add: unmarshal_protobuf_def short_series_def)
qed

theorem requests_in_flight_witness:
  "\<exists>ps um1 um2. ps = foldl (parser_step (\<lambda>b. of_nat (length b)) False \<lparr>gr_labels = (\<lambda>n. n), gr_series = (\<lambda>n. n)\<rparr>)
        (no_parsers \<lparr>mm_labels = [], mm_series = []\<rparr>)
        [StartParse None (request_body True [([(''job'', ''x'')], [])] []), FinishParse 0,
         StartParse (Some 0) (request_body True [([(''job'', ''a'')], [])] []), StartParse None (request_body True [([(''job'', ''b'')], [])] [])]
    \<and> map snd (pa_busy ps) = [um1, um2]
    \<and> read_request (pa_memory ps) um1 = [make_series True (\<lambda>b. of_nat (length b)) False [(''job'', ''a'')]]
    \<and> read_request (pa_memory ps) um2 = [make_series True (\<lambda>b. of_nat (length b)) False [(''job'', ''b'')]]"
proof -
  let ?h = "\<lambda>b. of_nat (length b) :: u64" and ?gr = "\<lparr>gr_labels = (\<lambda>n. n), gr_series = (\<lambda>n. n)\<rparr>"
  let ?req = "\<lambda>v. request_body True [([(''job'', v)], [])] []"
  let ?evs = "[StartParse None (?req ''x''), FinishParse 0, StartParse (Some 0) (?req ''a''), StartParse None (?req ''b'')]"
  define ps where "ps = foldl (parser_step ?h False ?gr) (no_parsers \<lparr>mm_labels = [], mm_series = []\<rparr>) ?evs"
  have u: "unmarshal_protobuf ?h False (?req v) = Inr [make_series True ?h False [(''job'', v)]]" if "length v < 50" for v
    using request_example [OF that] .
  from requests_in_flight [OF ps_def] have b: "map fst (pa_busy ps) = foldl (flying ?h False) [] ?evs"
    and r: "\<forall>(src, um) \<in> set (pa_busy ps). unmarshal_protobuf ?h False src = Inr (read_request (pa_memory ps) um)" by blast+
  have "foldl (flying ?h False) [] ?evs = [?req ''a'', ?req ''b'']"
    using u [of "''x''"] u [of "''a''"] u [of "''b''"] by (simp add: drop_nth_def)
  then obtain um1 um2 where um: "pa_busy ps = [(?req ''a'', um1), (?req ''b'', um2)]"
    using b by (auto simp: map_eq_Cons_conv)
  then have "read_request (pa_memory ps) um1 = [make_series True ?h False [(''job'', ''a'')]]"
    "read_request (pa_memory ps) um2 = [make_series True ?h False [(''job'', ''b'')]]"
    using r u [of "''a''"] u [of "''b''"] by simp_all
  then show ?thesis using um unfolding ps_def by (intro exI conjI) (auto simp: ps_def)
qed

end
