(* ===== verification/Concurrent_Limit.thy ===== *)
theory Concurrent_Limit
  imports Estimator_Run
begin

section \<open>Concurrent inserts and the group limit\<close>

text \<open>
  Every bucket of an estimator has a lock, but all buckets share one \<^verbatim>\<open>groupSize\<close>, whose total is an atomic
  integer that \<^verbatim>\<open>allowInsertLocked\<close> first loads and later increments.  Requests that hold the locks of different
  buckets can pass the check together.  Here the accesses to the shared fields are steps of their own: a state
  holds the buckets, the shared \<^verbatim>\<open>groupSize\<close> and, for every bucket, how far the holder of its lock has come.
\<close>

datatype lock_pc =
    Unlocked
  | Admitted u64 u64 "string list"
  | Counted u64 u64 "string list"
  | Rejecting u64
  | Shrinking int
  | Clearing

record limit_state =
  ls_buckets :: "bucket list"
  ls_size :: group_size
  ls_pcs :: "lock_pc list"

definition set_pc :: "limit_state \<Rightarrow> nat \<Rightarrow> lock_pc \<Rightarrow> limit_state" where
  "set_pc st b pc = st\<lparr>ls_pcs := (ls_pcs st)[b := pc]\<rparr>"

definition set_bucket :: "limit_state \<Rightarrow> nat \<Rightarrow> bucket \<Rightarrow> limit_state" where
  "set_bucket st b eb = st\<lparr>ls_buckets := (ls_buckets st)[b := eb]\<rparr>"

text \<open>The parts of \<^verbatim>\<open>allowInsertLocked\<close> and \<^verbatim>\<open>rotateLocked\<close> between two accesses to shared fields.\<close>

definition count_group :: "group_size \<Rightarrow> nat \<Rightarrow> group_size" where
  "count_group gs b = gs\<lparr>gs_bucket_sizes := (gs_bucket_sizes gs)[b := gs_bucket_sizes gs ! b + 1]\<rparr>"

definition add_size :: "group_size \<Rightarrow> int \<Rightarrow> group_size" where
  "add_size gs n = gs\<lparr>gs_size := gs_size gs + n\<rparr>"

definition reject_key :: "group_size \<Rightarrow> nat \<Rightarrow> u64 \<Rightarrow> go_panic + group_size" where
  "reject_key gs b key =
     (if b < length (gs_reject_sketches gs)
      then map_sum id (\<lambda>sk. gs\<lparr>gs_reject_sketches := (gs_reject_sketches gs)[b := Some (sk_insert_hash sk key)]\<rparr>)
             (case gs_reject_sketches gs ! b of None \<Rightarrow> must_new_group_reject_sketch | Some sk \<Rightarrow> Inr sk)
      else Inl IndexOutOfRange)"

definition clear_rejects :: "group_size \<Rightarrow> nat \<Rightarrow> group_size" where
  "clear_rejects gs b = gs\<lparr>gs_reject_sketches := (gs_reject_sketches gs)[b := None]\<rparr>"

text \<open>\<^verbatim>\<open>rotateLocked\<close> up to \<^verbatim>\<open>size.Add(-diff)\<close>: the new fields and the next point of the lock's holder.\<close>

definition shrink_bucket :: "group_size \<Rightarrow> nat \<Rightarrow> int \<Rightarrow> group_size \<times> lock_pc" where
  "shrink_bucket gs b sz =
     (let diff = gs_bucket_sizes gs ! b - sz
      in if diff > 0
         then (gs\<lparr>gs_bucket_sizes := (gs_bucket_sizes gs)[b := gs_bucket_sizes gs ! b - diff]\<rparr>, Shrinking diff)
         else (gs, Clearing))"

text \<open>
  The steps.  A known group is inserted without the shared fields; a new one is checked, counted for the
  bucket, added to the total and created, or recorded as rejected.  A rotation and a reset replace the maps,
  shrink the bucket's count, subtract from the total and drop the bucket's rejected keys.  A scrape reads the
  reject sketches of all buckets under their own mutex.  Any key may be inserted into any bucket, which allows
  more runs than the program has.
\<close>

inductive limit_step :: "hll_float \<Rightarrow> limit_state \<Rightarrow> limit_state \<Rightarrow> bool" for fl :: hll_float where
  known: "b < length (ls_pcs st) \<Longrightarrow> ls_pcs st ! b = Unlocked \<Longrightarrow> key \<in> tracked (ls_buckets st ! b)
    \<Longrightarrow> eb_insert (ls_buckets st ! b) (ls_size st) fp key vals = Inr (eb', gs')
    \<Longrightarrow> limit_step fl st (set_bucket (st\<lparr>ls_size := gs'\<rparr>) b eb')"
| admit: "b < length (ls_pcs st) \<Longrightarrow> ls_pcs st ! b = Unlocked \<Longrightarrow> key \<notin> tracked (ls_buckets st ! b)
    \<Longrightarrow> gs_size (ls_size st) < gs_limit (ls_size st) \<Longrightarrow> limit_step fl st (set_pc st b (Admitted fp key vals))"
| full: "b < length (ls_pcs st) \<Longrightarrow> ls_pcs st ! b = Unlocked \<Longrightarrow> key \<notin> tracked (ls_buckets st ! b)
    \<Longrightarrow> gs_limit (ls_size st) \<le> gs_size (ls_size st) \<Longrightarrow> limit_step fl st (set_pc st b (Rejecting key))"
| count: "b < length (ls_pcs st) \<Longrightarrow> ls_pcs st ! b = Admitted fp key vals
    \<Longrightarrow> limit_step fl st (set_pc (st\<lparr>ls_size := count_group (ls_size st) b\<rparr>) b (Counted fp key vals))"
| add: "b < length (ls_pcs st) \<Longrightarrow> ls_pcs st ! b = Counted fp key vals
    \<Longrightarrow> eb_create (ls_buckets st ! b) key fp vals = Inr eb'
    \<Longrightarrow> limit_step fl st (set_pc (set_bucket (st\<lparr>ls_size := add_size (ls_size st) 1\<rparr>) b eb') b Unlocked)"
| reject: "b < length (ls_pcs st) \<Longrightarrow> ls_pcs st ! b = Rejecting key \<Longrightarrow> reject_key (ls_size st) b key = Inr gs'
    \<Longrightarrow> limit_step fl st (set_pc (st\<lparr>ls_size := gs'\<rparr>) b Unlocked)"
| rotate: "b < length (ls_pcs st) \<Longrightarrow> ls_pcs st ! b = Unlocked \<Longrightarrow> eb = ls_buckets st ! b
    \<Longrightarrow> shrink_bucket (ls_size st) b (int (length (eb_groups eb))) = (gs', pc)
    \<Longrightarrow> limit_step fl st (set_pc (set_bucket (st\<lparr>ls_size := gs'\<rparr>) b
          (eb\<lparr>eb_prev_groups := eb_groups eb, eb_groups := []\<rparr>)) b pc)"
| reset: "b < length (ls_pcs st) \<Longrightarrow> ls_pcs st ! b = Unlocked \<Longrightarrow> shrink_bucket (ls_size st) b 0 = (gs', pc)
    \<Longrightarrow> limit_step fl st (set_pc (set_bucket (st\<lparr>ls_size := gs'\<rparr>) b
          ((ls_buckets st ! b)\<lparr>eb_groups := [], eb_prev_groups := []\<rparr>)) b pc)"
| subtract: "b < length (ls_pcs st) \<Longrightarrow> ls_pcs st ! b = Shrinking diff
    \<Longrightarrow> limit_step fl st (set_pc (st\<lparr>ls_size := add_size (ls_size st) (- diff)\<rparr>) b Clearing)"
| clear_up: "b < length (ls_pcs st) \<Longrightarrow> ls_pcs st ! b = Clearing
    \<Longrightarrow> limit_step fl st (set_pc (st\<lparr>ls_size := clear_rejects (ls_size st) b\<rparr>) b Unlocked)"
| scrape: "total_rejected fl (ls_size st) = (n, gs') \<Longrightarrow> limit_step fl st (st\<lparr>ls_size := gs'\<rparr>)"

inductive_cases limit_stepE: "limit_step fl st st'"

subsection \<open>Invariant\<close>

fun counted :: "lock_pc \<Rightarrow> int" where
  "counted (Counted fp key vals) = 1"
| "counted _ = 0"

fun inflight :: "lock_pc \<Rightarrow> int" where
  "inflight (Admitted fp key vals) = 1"
| "inflight (Counted fp key vals) = 1"
| "inflight _ = 0"

fun pending :: "lock_pc \<Rightarrow> int" where
  "pending (Shrinking diff) = diff"
| "pending _ = 0"

fun new_key :: "lock_pc \<Rightarrow> u64 set" where
  "new_key (Admitted fp key vals) = {key}"
| "new_key (Counted fp key vals) = {key}"
| "new_key _ = {}"

text \<open>A bucket at its place with \<open>n\<close> groups in the shared count, while its lock is held at \<open>pc\<close>.\<close>

definition slot_ok :: "nat \<Rightarrow> bucket \<Rightarrow> int \<Rightarrow> lock_pc \<Rightarrow> bool" where
  "slot_ok b eb n pc \<longleftrightarrow> (\<exists>gs. bucket_ok eb gs) \<and> eb_idx eb = b \<and> eb_group_by eb \<noteq> []
     \<and> n = int (card (tracked eb)) + counted pc \<and> 0 \<le> pending pc \<and> new_key pc \<inter> tracked eb = {}"

definition rejects_ok :: "group_size \<Rightarrow> bool" where
  "rejects_ok gs \<longleftrightarrow> length (gs_reject_sketches gs) = length (gs_bucket_sizes gs)
     \<and> (\<forall>o_sk \<in> set (gs_reject_sketches gs). \<forall>sk. o_sk = Some sk \<longrightarrow> sketch_ok 10 sk)"

text \<open>
  The total is the sum of the counts, less what is counted but not yet added, plus what is subtracted from a
  count but not yet from the total; with the inserts under way it exceeds the limit by less than the number
  of buckets.
\<close>

definition limit_inv :: "limit_state \<Rightarrow> bool" where
  "limit_inv st \<longleftrightarrow>
     length (ls_pcs st) = length (ls_buckets st) \<and> length (gs_bucket_sizes (ls_size st)) = length (ls_buckets st)
     \<and> rejects_ok (ls_size st)
     \<and> (\<forall>b < length (ls_buckets st). slot_ok b (ls_buckets st ! b) (gs_bucket_sizes (ls_size st) ! b) (ls_pcs st ! b))
     \<and> gs_size (ls_size st) = sum_list (gs_bucket_sizes (ls_size st)) - sum_list (map counted (ls_pcs st))
         + sum_list (map pending (ls_pcs st))
     \<and> gs_size (ls_size st) + sum_list (map inflight (ls_pcs st))
         < gs_limit (ls_size st) + max 1 (int (length (ls_buckets st)))"

lemma limit_invD:
  assumes "limit_inv st"
  shows "length (ls_pcs st) = length (ls_buckets st)" "length (gs_bucket_sizes (ls_size st)) = length (ls_buckets st)"
    "rejects_ok (ls_size st)"
    "\<And>b. b < length (ls_pcs st) \<Longrightarrow> slot_ok b (ls_buckets st ! b) (gs_bucket_sizes (ls_size st) ! b) (ls_pcs st ! b)"
    "gs_size (ls_size st) = sum_list (gs_bucket_sizes (ls_size st)) - sum_list (map counted (ls_pcs st))
       + sum_list (map pending (ls_pcs st))"
    "gs_size (ls_size st) + sum_list (map inflight (ls_pcs st))
       < gs_limit (ls_size st) + max 1 (int (length (ls_buckets st)))"
  using assms by (auto simp: limit_inv_def)

lemma inflight_bound: "0 \<le> inflight pc \<and> inflight pc \<le> 1"
  by (cases pc) auto

lemma inflights_bound: "sum_list (map inflight pcs) \<le> int (length pcs)"
proof (induction pcs)
  case (Cons pc pcs)
  then show ?case using inflight_bound [of pc] by simp
qed simp

lemma bucket_ok_at:
  assumes "bucket_ok eb gs0" and "eb_idx eb < length (gs_bucket_sizes gs)"
    and "gs_bucket_sizes gs ! eb_idx eb = int (card (tracked eb))"
  shows "bucket_ok eb gs"
  using assms by (simp add: bucket_ok_def)

text \<open>Every step but a scrape changes one bucket, its count and its lock; what it must satisfy for the invariant.\<close>

lemma limit_inv_slot:
  assumes inv: "limit_inv st" and b: "b < length (ls_pcs st)"
    and st': "ls_buckets st' = (ls_buckets st)[b := eb]" "ls_pcs st' = (ls_pcs st)[b := pc]"
      "gs_bucket_sizes (ls_size st') = (gs_bucket_sizes (ls_size st))[b := m]" "gs_limit (ls_size st') = gs_limit (ls_size st)"
    and rj: "rejects_ok (ls_size st')" and sl: "slot_ok b eb m pc"
    and sz: "gs_size (ls_size st') - gs_size (ls_size st) = (m - counted pc + pending pc)
      - (gs_bucket_sizes (ls_size st) ! b - counted (ls_pcs st ! b) + pending (ls_pcs st ! b))"
    and room: "gs_size (ls_size st') + inflight pc \<le> gs_size (ls_size st) + inflight (ls_pcs st ! b)
      \<or> gs_size (ls_size st') < gs_limit (ls_size st)"
  shows "limit_inv st'"
proof -
  note I = limit_invD [OF inv]
  have sums: "sum_list (map f (ls_pcs st')) = sum_list (map f (ls_pcs st)) - f (ls_pcs st ! b) + f pc" for f :: "lock_pc \<Rightarrow> int"
    using b by (simp add: st'(2) map_update sum_list_update_int)
  have cnt: "sum_list (gs_bucket_sizes (ls_size st')) = sum_list (gs_bucket_sizes (ls_size st)) - gs_bucket_sizes (ls_size st) ! b + m"
    using b I(1,2) by (simp add: st'(3) sum_list_update_int)
  have slots: "slot_ok c (ls_buckets st' ! c) (gs_bucket_sizes (ls_size st') ! c) (ls_pcs st' ! c)" if "c < length (ls_buckets st)" for c
    using that sl I(4) [of c] I(1,2) b by (cases "c = b") (simp_all add: st' nth_list_update)
  have "gs_size (ls_size st') + sum_list (map inflight (ls_pcs st')) < gs_limit (ls_size st') + max 1 (int (length (ls_buckets st')))"
    using room
  proof
    assume "gs_size (ls_size st') + inflight pc \<le> gs_size (ls_size st) + inflight (ls_pcs st ! b)"
    then show ?thesis using I(6) sums [of inflight] by (simp add: st'(1,4))
  next
    assume "gs_size (ls_size st') < gs_limit (ls_size st)"
    moreover have "sum_list (map inflight (ls_pcs st')) \<le> int (length (ls_buckets st'))"
      using inflights_bound [of "ls_pcs st'"] I(1) by (simp add: st')
    ultimately show ?thesis by (simp add: st')
  qed
  moreover have "gs_size (ls_size st') = sum_list (gs_bucket_sizes (ls_size st')) - sum_list (map counted (ls_pcs st'))
      + sum_list (map pending (ls_pcs st'))"
    using I(5) sz cnt unfolding sums by linarith
  ultimately show ?thesis using I(1,2) rj slots by (simp add: limit_inv_def st')
qed

lemma rejects_ok_simps [simp]:
  "rejects_ok (count_group gs b) = rejects_ok gs" "rejects_ok (add_size gs n) = rejects_ok gs"
  by (simp_all add: rejects_ok_def count_group_def add_size_def)

lemma rejects_ok_update:
  assumes "rejects_ok gs" and "\<forall>sk. o_sk = Some sk \<longrightarrow> sketch_ok 10 sk"
  shows "rejects_ok (gs\<lparr>gs_reject_sketches := (gs_reject_sketches gs)[b := o_sk]\<rparr>)"
proof -
  have "\<forall>x \<in> set ((gs_reject_sketches gs)[b := o_sk]). \<forall>sk. x = Some sk \<longrightarrow> sketch_ok 10 sk"
    by (rule ball_list_update) (use assms in \<open>simp_all add: rejects_ok_def\<close>)
  then show ?thesis using assms(1) by (simp add: rejects_ok_def)
qed

lemma reject_key_ok:
  assumes "rejects_ok gs" and "b < length (gs_bucket_sizes gs)"
  shows "\<exists>sk. reject_key gs b key = Inr (gs\<lparr>gs_reject_sketches := (gs_reject_sketches gs)[b := Some sk]\<rparr>)
    \<and> sketch_ok 10 sk \<and> fp_hits 10 key \<subseteq> sk_hits sk"
proof -
  have len: "b < length (gs_reject_sketches gs)" using assms by (simp add: rejects_ok_def)
  obtain sk where sk: "(case gs_reject_sketches gs ! b of None \<Rightarrow> must_new_group_reject_sketch | Some sk \<Rightarrow> Inr sk) = Inr sk"
    and ok: "sketch_ok 10 sk"
  proof (cases "gs_reject_sketches gs ! b")
    case None
    then show ?thesis using that must_new_sketch_ok [of 10 True] by (auto simp: must_new_group_reject_sketch_def)
  next
    case (Some sk)
    then have "sketch_ok 10 sk" using assms(1) len by (metis rejects_ok_def nth_mem)
    with Some show ?thesis using that by simp
  qed
  show ?thesis using len sk hll.ins_ok [OF ok] hll.ins_hits [OF ok]
    by (intro exI [of _ "sk_insert_hash sk key"]) (simp add: reject_key_def)
qed

text \<open>A rotation or reset that keeps \<open>sz\<close> groups.\<close>

lemma shrink_bucket_ok:
  assumes "slot_ok b eb (gs_bucket_sizes gs ! b) Unlocked" and "0 \<le> sz" and "sz \<le> int (card (tracked eb))"
    and "shrink_bucket gs b sz = (gs', pc)"
  shows "gs_bucket_sizes gs' = (gs_bucket_sizes gs)[b := sz]" "gs_reject_sketches gs' = gs_reject_sketches gs"
    "gs_limit gs' = gs_limit gs" "gs_size gs' = gs_size gs" "inflight pc = 0" "counted pc = 0" "new_key pc = {}"
    "pending pc = gs_bucket_sizes gs ! b - sz" "0 \<le> pending pc"
proof -
  have n: "gs_bucket_sizes gs ! b = int (card (tracked eb))" using assms(1) by (simp add: slot_ok_def)
  have "(gs_bucket_sizes gs)[b := sz] = gs_bucket_sizes gs" if "sz = gs_bucket_sizes gs ! b" using that by simp
  then show "gs_bucket_sizes gs' = (gs_bucket_sizes gs)[b := sz]" "gs_reject_sketches gs' = gs_reject_sketches gs"
    "gs_limit gs' = gs_limit gs" "gs_size gs' = gs_size gs" "inflight pc = 0" "counted pc = 0" "new_key pc = {}"
    "pending pc = gs_bucket_sizes gs ! b - sz" "0 \<le> pending pc"
    using assms(3,4) n by (auto simp: shrink_bucket_def Let_def split: if_splits)
qed

lemma slot_shift:
  assumes sl: "slot_ok b eb n Unlocked" and pc: "new_key pc = {}" "0 \<le> pending pc" "counted pc = 0"
    and ok: "groups_ok (eb_precision eb) cur" "groups_ok (eb_precision eb) prev"
  shows "slot_ok b (eb\<lparr>eb_groups := cur, eb_prev_groups := prev\<rparr>) (int (card (map_keys cur \<union> map_keys prev))) pc"
proof -
  obtain g where g: "bucket_ok eb g" using sl by (auto simp: slot_ok_def)
  let ?eb = "eb\<lparr>eb_groups := cur, eb_prev_groups := prev\<rparr>"
  have t: "tracked ?eb = map_keys cur \<union> map_keys prev" by (simp add: tracked_def)
  have "bucket_ok ?eb (g\<lparr>gs_bucket_sizes := (gs_bucket_sizes g)[eb_idx eb := int (card (tracked ?eb))]\<rparr>)"
    using g sl ok unfolding bucket_ok_def slot_ok_def by simp
  then show ?thesis using sl pc unfolding slot_ok_def t by auto
qed

lemma slot_okD:
  assumes "slot_ok b eb n pc"
  obtains gs where "bucket_ok eb gs" "eb_idx eb = b" "eb_group_by eb \<noteq> []" "n = int (card (tracked eb)) + counted pc"
    "new_key pc \<inter> tracked eb = {}"
  using assms by (auto simp: slot_ok_def)

lemma slot_okI:
  assumes "bucket_ok eb gs" "eb_idx eb = b" "eb_group_by eb \<noteq> []" "n = int (card (tracked eb)) + counted pc"
    "0 \<le> pending pc" "new_key pc \<inter> tracked eb = {}"
  shows "slot_ok b eb n pc"
  using assms by (auto simp: slot_ok_def)

lemma slot_ok_pc:
  assumes "slot_ok b eb n pc" and "m = n - counted pc + counted pc'" and "0 \<le> pending pc'" and "new_key pc' \<inter> tracked eb = {}"
  shows "slot_ok b eb m pc'"
  using assms by (auto simp: slot_ok_def)

text \<open>A known group does not touch the shared fields.\<close>

lemma known_step_inv:
  assumes inv: "limit_inv st" and b: "b < length (ls_pcs st)" "ls_pcs st ! b = Unlocked"
    and key: "key \<in> tracked (ls_buckets st ! b)"
    and ins: "eb_insert (ls_buckets st ! b) (ls_size st) fp key vals = Inr (eb', gs')"
  shows "limit_inv (set_bucket (st\<lparr>ls_size := gs'\<rparr>) b eb')"
proof -
  note I = limit_invD [OF inv]
  have sl: "slot_ok b (ls_buckets st ! b) (gs_bucket_sizes (ls_size st) ! b) Unlocked" using I(4) [OF b(1)] b(2) by simp
  then obtain g where g: "bucket_ok (ls_buckets st ! b) g" "eb_idx (ls_buckets st ! b) = b" "eb_group_by (ls_buckets st ! b) \<noteq> []"
    "gs_bucket_sizes (ls_size st) ! b = int (card (tracked (ls_buckets st ! b)))" by (auto elim!: slot_okD)
  have bo: "bucket_ok (ls_buckets st ! b) (ls_size st)" by (rule bucket_ok_at [OF g(1)]) (use g b(1) I(1,2) in simp_all)
  obtain eb1 where e: "eb_insert (ls_buckets st ! b) (ls_size st) fp key vals = Inr (eb1, ls_size st)" "bucket_ok eb1 (ls_size st)"
    "eb_shell eb1 = eb_shell (ls_buckets st ! b)" "tracked eb1 = tracked (ls_buckets st ! b)"
    using eb_insert_tracked [OF bo g(3) key, of fp vals] by blast
  then have eq: "eb' = eb1" "gs' = ls_size st" using ins by auto
  have "slot_ok b eb1 (gs_bucket_sizes (ls_size st) ! b) Unlocked"
    by (rule slot_okI [OF e(2)]) (use e(4) eb_shellD [OF e(3)] g in simp_all)
  then show ?thesis
    by (intro limit_inv_slot [OF inv b(1), of _ eb1 Unlocked "gs_bucket_sizes (ls_size st) ! b"])
      (use b I(3) list_update_id [of "ls_pcs st" b] in \<open>simp_all add: eq set_bucket_def\<close>)
qed

lemma add_step_inv:
  assumes inv: "limit_inv st" and b: "b < length (ls_pcs st)" "ls_pcs st ! b = Counted fp key vals"
    and c: "eb_create (ls_buckets st ! b) key fp vals = Inr eb'"
  shows "limit_inv (set_pc (set_bucket (st\<lparr>ls_size := add_size (ls_size st) 1\<rparr>) b eb') b Unlocked)"
proof -
  note I = limit_invD [OF inv]
  let ?eb = "ls_buckets st ! b"
  obtain g where g: "bucket_ok ?eb g" "eb_idx ?eb = b" "eb_group_by ?eb \<noteq> []"
    "gs_bucket_sizes (ls_size st) ! b = int (card (tracked ?eb)) + 1" "key \<notin> tracked ?eb"
    using I(4) [OF b(1)] b(2) by (auto elim!: slot_okD)
  obtain sk where sk: "eb' = eb_store ?eb key fp \<lparr>gsk_sketch = sk, gsk_values = vals\<rparr>" "sketch_ok (eb_precision ?eb) sk"
    using eb_create_ok [OF g(1), of key fp vals] c by auto
  let ?g = "g\<lparr>gs_bucket_sizes := (gs_bucket_sizes g)[b := int (card (insert key (tracked ?eb)))]\<rparr>"
  have "bucket_ok eb' ?g" unfolding sk(1)
    by (rule eb_store_ok [OF g(1,3)]) (use sk(2) bucket_okD(5) [OF g(1)] g(2) in simp_all)
  then have "slot_ok b eb' (gs_bucket_sizes (ls_size st) ! b) Unlocked"
    using g by (intro slot_okI) (simp_all add: sk(1) eb_store_def tracked_def map_keys_update)
  then show ?thesis
    by (intro limit_inv_slot [OF inv b(1), of _ eb' Unlocked "gs_bucket_sizes (ls_size st) ! b"])
      (use b I(3) in \<open>simp_all add: set_bucket_def set_pc_def add_size_def rejects_ok_def\<close>)
qed

lemma shift_step_inv:
  assumes inv: "limit_inv st" and b: "b < length (ls_pcs st)" "ls_pcs st ! b = Unlocked"
    and cur: "groups_ok (eb_precision (ls_buckets st ! b)) cur" "groups_ok (eb_precision (ls_buckets st ! b)) prev"
    and sub: "map_keys cur \<union> map_keys prev \<subseteq> tracked (ls_buckets st ! b)"
    and sz: "sz = int (card (map_keys cur \<union> map_keys prev))" and s: "shrink_bucket (ls_size st) b sz = (gs', pc)"
  shows "limit_inv (set_pc (set_bucket (st\<lparr>ls_size := gs'\<rparr>) b ((ls_buckets st ! b)\<lparr>eb_groups := cur, eb_prev_groups := prev\<rparr>)) b pc)"
proof -
  note I = limit_invD [OF inv]
  have sl: "slot_ok b (ls_buckets st ! b) (gs_bucket_sizes (ls_size st) ! b) Unlocked" using I(4) [OF b(1)] b(2) by simp
  have le: "0 \<le> sz" "sz \<le> int (card (tracked (ls_buckets st ! b)))" using sz card_mono [OF _ sub] by simp_all
  note sh = shrink_bucket_ok [OF sl le s]
  note sl' = slot_shift [OF sl sh(7,9,6) cur]
  show ?thesis
    by (rule limit_inv_slot [OF inv b(1) _ _ _ _ _ sl'])
      (use b sh I(3) sz in \<open>simp_all add: set_bucket_def set_pc_def rejects_ok_def\<close>)
qed

lemma limit_step_inv:
  assumes "limit_step fl st st'" and "limit_inv st"
  shows "limit_inv st' \<and> length (ls_buckets st') = length (ls_buckets st) \<and> gs_limit (ls_size st') = gs_limit (ls_size st)"
  using assms
proof (induction rule: limit_step.induct)
  case (known b st key fp vals eb' gs')
  have "gs_limit gs' = gs_limit (ls_size st)"
  proof -
    note I = limit_invD [OF known(5)]
    obtain g where g: "bucket_ok (ls_buckets st ! b) g" "eb_idx (ls_buckets st ! b) = b" "eb_group_by (ls_buckets st ! b) \<noteq> []"
      "gs_bucket_sizes (ls_size st) ! b = int (card (tracked (ls_buckets st ! b)))"
      using I(4) [OF known(1)] known(2) by (auto elim!: slot_okD)
    have "bucket_ok (ls_buckets st ! b) (ls_size st)" by (rule bucket_ok_at [OF g(1)]) (use g known(1) I(1,2) in simp_all)
    then show ?thesis using eb_insert_tracked [OF _ g(3) known(3), of "ls_size st" fp vals] known(4) by auto
  qed
  then show ?case using known_step_inv [OF known(5,1-4)] by (simp add: set_bucket_def)
next
  case (admit b st key fp vals)
  note I = limit_invD [OF admit(5)]
  have "slot_ok b (ls_buckets st ! b) (gs_bucket_sizes (ls_size st) ! b) (Admitted fp key vals)"
    by (rule slot_ok_pc [OF I(4) [OF admit(1)]]) (use admit(2,3) in simp_all)
  from limit_inv_slot [OF admit(5,1) _ _ _ _ _ this] show ?case
    using admit I(3) by (simp add: set_pc_def)
next
  case (full b st key)
  note I = limit_invD [OF full(5)]
  have "slot_ok b (ls_buckets st ! b) (gs_bucket_sizes (ls_size st) ! b) (Rejecting key)"
    by (rule slot_ok_pc [OF I(4) [OF full(1)]]) (use full(2) in simp_all)
  from limit_inv_slot [OF full(5,1) _ _ _ _ _ this] show ?case
    using full I(3) by (simp add: set_pc_def)
next
  case (count b st fp key vals)
  note I = limit_invD [OF count(3)]
  have sl: "slot_ok b (ls_buckets st ! b) (gs_bucket_sizes (ls_size st) ! b) (Admitted fp key vals)" using I(4) [OF count(1)] count(2) by simp
  have "slot_ok b (ls_buckets st ! b) (gs_bucket_sizes (ls_size st) ! b + 1) (Counted fp key vals)"
    by (rule slot_ok_pc [OF sl]) (use sl in \<open>auto elim: slot_okD\<close>)
  from limit_inv_slot [OF count(3,1) _ _ _ _ _ this] show ?case
    using count(1,2) I(3) by (simp add: set_pc_def count_group_def rejects_ok_def)
next
  case (add b st fp key vals eb')
  then show ?case using add_step_inv [OF add(4,1,2,3)] by (simp add: set_pc_def set_bucket_def add_size_def)
next
  case (reject b st key gs')
  note I = limit_invD [OF reject(4)]
  obtain sk where sk: "gs' = (ls_size st)\<lparr>gs_reject_sketches := (gs_reject_sketches (ls_size st))[b := Some sk]\<rparr>" "sketch_ok 10 sk"
    using reject_key_ok [OF I(3), of b key] reject(1,3) I(1,2) by auto
  have rj: "rejects_ok gs'" using rejects_ok_update [OF I(3), of "Some sk" b] sk by simp
  have "slot_ok b (ls_buckets st ! b) (gs_bucket_sizes (ls_size st) ! b) Unlocked"
    by (rule slot_ok_pc [OF I(4) [OF reject(1)]]) (use reject(2) in simp_all)
  from limit_inv_slot [OF reject(4,1) _ _ _ _ _ this] show ?case
    using reject rj by (simp add: set_pc_def sk(1))
next
  case (rotate b st eb gs' pc)
  note I = limit_invD [OF rotate(5)]
  obtain g where g: "bucket_ok eb g" using I(4) [OF rotate(1)] rotate(3) by (auto elim!: slot_okD)
  have "limit_inv (set_pc (set_bucket (st\<lparr>ls_size := gs'\<rparr>) b ((ls_buckets st ! b)\<lparr>eb_groups := [], eb_prev_groups := eb_groups eb\<rparr>)) b pc)"
    by (rule shift_step_inv [OF rotate(5,1,2) _ _ _ _ rotate(4)])
      (use bucket_okD(3) [OF g] rotate(3) in \<open>auto simp: tracked_def card_groups\<close>)
  moreover have "gs_limit gs' = gs_limit (ls_size st)" using rotate(4) by (auto simp: shrink_bucket_def Let_def split: if_splits)
  moreover have swap: "(ls_buckets st ! b)\<lparr>eb_prev_groups := m, eb_groups := []\<rparr> = (ls_buckets st ! b)\<lparr>eb_groups := [], eb_prev_groups := m\<rparr>" for m
    by simp
  ultimately show ?case unfolding swap rotate(3) by (simp add: set_pc_def set_bucket_def)
next
  case (reset b st gs' pc)
  have "limit_inv (set_pc (set_bucket (st\<lparr>ls_size := gs'\<rparr>) b ((ls_buckets st ! b)\<lparr>eb_groups := [], eb_prev_groups := []\<rparr>)) b pc)"
    by (rule shift_step_inv [OF reset(4,1,2) _ _ _ _ reset(3)]) simp_all
  moreover have "gs_limit gs' = gs_limit (ls_size st)" using reset(3) by (auto simp: shrink_bucket_def Let_def split: if_splits)
  ultimately show ?case by (simp add: set_pc_def set_bucket_def)
next
  case (subtract b st diff)
  note I = limit_invD [OF subtract(3)]
  have "slot_ok b (ls_buckets st ! b) (gs_bucket_sizes (ls_size st) ! b) Clearing"
    by (rule slot_ok_pc [OF I(4) [OF subtract(1)]]) (use subtract(2) in simp_all)
  moreover have "0 \<le> diff" using I(4) [OF subtract(1)] subtract(2) by (simp add: slot_ok_def)
  ultimately show ?case using subtract I(3) limit_inv_slot [OF subtract(3,1), of "set_pc (st\<lparr>ls_size := add_size (ls_size st) (- diff)\<rparr>) b Clearing"
        "ls_buckets st ! b" Clearing "gs_bucket_sizes (ls_size st) ! b"]
    by (simp add: set_pc_def add_size_def rejects_ok_def)
next
  case (clear_up b st)
  note I = limit_invD [OF clear_up(3)]
  have "slot_ok b (ls_buckets st ! b) (gs_bucket_sizes (ls_size st) ! b) Unlocked"
    by (rule slot_ok_pc [OF I(4) [OF clear_up(1)]]) (use clear_up(2) in simp_all)
  from limit_inv_slot [OF clear_up(3,1) _ _ _ _ _ this] show ?case
    using clear_up rejects_ok_update [OF I(3), of None b] by (simp add: set_pc_def clear_rejects_def)
next
  case (scrape st n gs')
  obtain sks where s: "sum_estimates fl (gs_reject_sketches (ls_size st)) = (n, sks)" "gs' = (ls_size st)\<lparr>gs_reject_sketches := sks\<rparr>"
    using scrape(1) by (auto simp: total_rejected_def split: prod.splits)
  have rj: "rejects_ok (ls_size st)" by (rule limit_invD(3) [OF scrape(2)])
  then have "rejects_ok gs'" using sum_estimates_ok [OF _ s(1), of 10] s(2) unfolding rejects_ok_def by simp
  then show ?case using scrape(2) s(2) by (simp add: limit_inv_def)
qed

lemma limit_run_inv:
  assumes "(limit_step fl)\<^sup>*\<^sup>* st0 st" and "limit_inv st0"
  shows "limit_inv st \<and> length (ls_buckets st) = length (ls_buckets st0) \<and> gs_limit (ls_size st) = gs_limit (ls_size st0)"
  using assms
proof (induction rule: rtranclp_induct)
  case (step st1 st2)
  then show ?case using limit_step_inv [OF step(2)] by simp
qed simp

text \<open>An estimator between two operations, with every lock free.\<close>

definition at_rest :: "estimator \<Rightarrow> limit_state" where
  "at_rest e = \<lparr>ls_buckets = es_buckets e, ls_size = es_group_size e, ls_pcs = replicate (length (es_buckets e)) Unlocked\<rparr>"

lemma at_rest_inv:
  assumes "estimator_ok p e" and "es_group_by e \<noteq> []"
  shows "limit_inv (at_rest e)"
proof -
  have gs: "group_size_ok (es_group_size e)" and len: "es_buckets e \<noteq> []" "length (gs_bucket_sizes (es_group_size e)) = length (es_buckets e)"
    and bs: "\<And>i. i < length (es_buckets e) \<Longrightarrow> bucket_ok (es_buckets e ! i) (es_group_size e) \<and> eb_idx (es_buckets e ! i) = i
      \<and> eb_group_by (es_buckets e ! i) = es_group_by e"
    using assms(1) by (auto simp: estimator_ok_def)
  have "slot_ok b (es_buckets e ! b) (gs_bucket_sizes (es_group_size e) ! b) Unlocked" if "b < length (es_buckets e)" for b
    by (rule slot_okI [of _ "es_group_size e"]) (use bs [OF that] bucket_okD(6) [of "es_buckets e ! b" "es_group_size e"] assms(2) in auto)
  moreover have "rejects_ok (es_group_size e)" using group_size_okD(4,5) [OF gs] by (simp add: rejects_ok_def)
  moreover have "sum_list (replicate n (0 :: int)) = 0" for n by (simp add: sum_list_replicate)
  ultimately show ?thesis using group_size_okD(1,3) [OF gs] len
    by (simp add: limit_inv_def at_rest_def)
qed

definition groups_total :: "limit_state \<Rightarrow> int" where
  "groups_total st = (\<Sum>eb \<leftarrow> ls_buckets st. int (card (tracked eb)))"

lemma total_counts:
  assumes "limit_inv st"
  shows "groups_total st = sum_list (gs_bucket_sizes (ls_size st)) - sum_list (map counted (ls_pcs st))"
proof -
  note I = limit_invD [OF assms]
  have "map (\<lambda>eb. int (card (tracked eb))) (ls_buckets st)
      = map (\<lambda>b. gs_bucket_sizes (ls_size st) ! b - counted (ls_pcs st ! b)) [0..<length (ls_buckets st)]"
    using I(1,4) by (intro nth_equalityI) (auto simp: slot_ok_def)
  also have "sum_list \<dots> = (\<Sum>b \<leftarrow> [0..<length (ls_buckets st)]. gs_bucket_sizes (ls_size st) ! b)
      - (\<Sum>b \<leftarrow> [0..<length (ls_buckets st)]. counted (ls_pcs st ! b))"
    by (rule sum_list_subtractf)
  also have "map (\<lambda>b. gs_bucket_sizes (ls_size st) ! b) [0..<length (ls_buckets st)] = gs_bucket_sizes (ls_size st)"
    using map_nth [of "gs_bucket_sizes (ls_size st)"] I(2) by simp
  also have "map (\<lambda>b. counted (ls_pcs st ! b)) [0..<length (ls_buckets st)] = map counted (ls_pcs st)"
    using I(1) by (intro nth_equalityI) auto
  finally show ?thesis by (simp add: groups_total_def)
qed

lemma pendings_nonneg: "limit_inv st \<Longrightarrow> 0 \<le> sum_list (map pending (ls_pcs st))"
  by (intro sum_list_nonneg) (use limit_invD(4) [of st] in \<open>auto simp: in_set_conv_nth slot_ok_def\<close>)

lemma inflights_nonneg: "0 \<le> sum_list (map inflight pcs)"
  by (intro sum_list_nonneg) (auto simp: inflight_bound)

text \<open>The holder of a lock can always go on.\<close>

lemma lock_progress:
  assumes "limit_inv st" and "b < length (ls_pcs st)" and "ls_pcs st ! b \<noteq> Unlocked"
  shows "\<exists>st'. limit_step fl st st' \<and> ls_pcs st' ! b \<noteq> ls_pcs st ! b"
proof (cases "ls_pcs st ! b")
  case (Admitted fp key vals)
  then show ?thesis using limit_step.count [OF assms(2) Admitted, of fl] assms(2) by (auto simp: set_pc_def)
next
  case (Counted fp key vals)
  obtain gs where g: "bucket_ok (ls_buckets st ! b) gs" using limit_invD(4) [OF assms(1,2)] by (auto elim: slot_okD)
  obtain eb' where "eb_create (ls_buckets st ! b) key fp vals = Inr eb'" using eb_create_ok [OF g] by blast
  from limit_step.add [OF assms(2) Counted this, of fl] show ?thesis using assms(2) Counted by (auto simp: set_pc_def set_bucket_def)
next
  case (Rejecting key)
  obtain gs' where "reject_key (ls_size st) b key = Inr gs'"
    using reject_key_ok [OF limit_invD(3) [OF assms(1)], of b key] limit_invD(1,2) [OF assms(1)] assms(2) by auto
  from limit_step.reject [OF assms(2) Rejecting this, of fl] show ?thesis using assms(2) Rejecting by (auto simp: set_pc_def)
next
  case (Shrinking diff)
  then show ?thesis using limit_step.subtract [OF assms(2) Shrinking, of fl] assms(2) by (auto simp: set_pc_def)
next
  case Clearing
  then show ?thesis using limit_step.clear_up [OF assms(2) Clearing, of fl] assms(2) by (auto simp: set_pc_def)
qed (use assms(3) in simp)

lemma rest_total:
  assumes "limit_inv st" and "set (ls_pcs st) \<subseteq> {Unlocked}"
  shows "gs_size (ls_size st) = groups_total st"
proof -
  have "map f (ls_pcs st) = map (\<lambda>_. 0) (ls_pcs st)" if "f Unlocked = 0" for f :: "lock_pc \<Rightarrow> int"
    using that assms(2) by auto
  then have "sum_list (map f (ls_pcs st)) = 0" if "f Unlocked = 0" for f :: "lock_pc \<Rightarrow> int"
    using that by (simp add: map_replicate_const sum_list_replicate)
  then show ?thesis using total_counts [OF assms(1)] limit_invD(5) [OF assms(1)] by simp
qed

subsection \<open>The atomic operations are runs\<close>

lemma set_pc_simps [simp]:
  "ls_pcs (set_pc st b pc) = (ls_pcs st)[b := pc]" "ls_size (set_pc st b pc) = ls_size st"
  "ls_buckets (set_pc st b pc) = ls_buckets st" "ls_pcs (set_bucket st b eb) = ls_pcs st"
  "ls_size (set_bucket st b eb) = ls_size st" "ls_buckets (set_bucket st b eb) = (ls_buckets st)[b := eb]"
  by (simp_all add: set_pc_def set_bucket_def)

lemma limit_state_eq:
  "ls_buckets s = ls_buckets t \<Longrightarrow> ls_size s = ls_size t \<Longrightarrow> ls_pcs s = ls_pcs t \<Longrightarrow> s = t" for s t :: limit_state
  by (cases s; cases t) simp

lemma case_sum_map: "(case x of Inl p \<Rightarrow> Inl p | Inr y \<Rightarrow> Inr (f y)) = map_sum id f x"
  by (cases x) simp_all

lemma allow_full:
  "gs_limit gs \<le> gs_size gs \<Longrightarrow> allow_insert_locked gs b key = map_sum id (Pair False) (reject_key gs b key)"
  by (simp add: allow_insert_locked_def reject_key_def case_sum_map sum.map_comp comp_def id_def)

lemma insert_is_run:
  assumes b: "b < length (ls_pcs st)" "ls_pcs st ! b = Unlocked"
    and eb: "eb_idx (ls_buckets st ! b) = b" "eb_group_by (ls_buckets st ! b) \<noteq> []"
    and ins: "eb_insert (ls_buckets st ! b) (ls_size st) fp key vals = Inr (eb', gs')"
    and len: "length (ls_buckets st) = length (ls_pcs st)"
  shows "(limit_step fl)\<^sup>*\<^sup>* st (set_bucket (st\<lparr>ls_size := gs'\<rparr>) b eb')"
proof (cases "key \<in> tracked (ls_buckets st ! b)")
  case True
  then show ?thesis using limit_step.known [OF b True ins, of fl] by blast
next
  case new: False
  then have none: "map_of (eb_groups (ls_buckets st ! b)) key = None" "map_of (eb_prev_groups (ls_buckets st ! b)) key = None"
    by (auto simp: tracked_def map_of_not_in_keys)
  show ?thesis
  proof (cases "gs_size (ls_size st) < gs_limit (ls_size st)")
    case True
    let ?st1 = "set_pc st b (Admitted fp key vals)"
    let ?st2 = "set_pc (?st1\<lparr>ls_size := count_group (ls_size ?st1) b\<rparr>) b (Counted fp key vals)"
    have c: "eb_create (ls_buckets st ! b) key fp vals = Inr eb'" "gs' = add_size (count_group (ls_size st) b) 1"
      using ins none eb True
      by (auto simp: eb_insert_def allow_insert_locked_def map_sum_Inr add_size_def count_group_def split: if_splits)
    have s1: "limit_step fl st ?st1" by (rule limit_step.admit [OF b new True])
    have s2: "limit_step fl ?st1 ?st2" by (rule limit_step.count) (use b in simp_all)
    have s3: "limit_step fl ?st2 (set_pc (set_bucket (?st2\<lparr>ls_size := add_size (ls_size ?st2) 1\<rparr>) b eb') b Unlocked)"
      by (rule limit_step.add) (use b c(1) in simp_all)
    have "set_pc (set_bucket (?st2\<lparr>ls_size := add_size (ls_size ?st2) 1\<rparr>) b eb') b Unlocked = set_bucket (st\<lparr>ls_size := gs'\<rparr>) b eb'"
      by (rule limit_state_eq) (use b c(2) list_update_id [of "ls_pcs st" b] in simp_all)
    then show ?thesis using s1 s2 s3 by (metis rtranclp.simps)
  next
    case False
    let ?st1 = "set_pc st b (Rejecting key)"
    have c: "eb' = ls_buckets st ! b" "reject_key (ls_size st) b key = Inr gs'"
      using ins none eb False allow_full [of "ls_size st" b key]
      by (auto simp: eb_insert_def map_sum_Inr split: sum.splits)
    have s1: "limit_step fl st ?st1" by (rule limit_step.full [OF b new]) (use False in simp)
    have s2: "limit_step fl ?st1 (set_pc (?st1\<lparr>ls_size := gs'\<rparr>) b Unlocked)"
      by (rule limit_step.reject) (use b c(2) in simp_all)
    have "set_pc (?st1\<lparr>ls_size := gs'\<rparr>) b Unlocked = set_bucket (st\<lparr>ls_size := gs'\<rparr>) b eb'"
      by (rule limit_state_eq) (use b c(1) list_update_id [of "ls_pcs st" b] list_update_id [of "ls_buckets st" b] in simp_all)
    then show ?thesis using s1 s2 by (metis rtranclp.simps)
  qed
qed

text \<open>A rotation or reset, from the state after its first step.\<close>

lemma shrink_is_run:
  assumes b: "b < length (ls_pcs st)" "ls_pcs st ! b = Unlocked" and len: "length (ls_buckets st) = length (ls_pcs st)"
    and rl: "rotate_locked (ls_size st) b sz = Inr gs'" and s: "shrink_bucket (ls_size st) b sz = (gs1, pc)"
  shows "(limit_step fl)\<^sup>*\<^sup>* (set_pc (set_bucket (st\<lparr>ls_size := gs1\<rparr>) b eb') b pc) (set_bucket (st\<lparr>ls_size := gs'\<rparr>) b eb')"
proof -
  let ?s1 = "set_pc (set_bucket (st\<lparr>ls_size := gs1\<rparr>) b eb') b pc"
  have clear: "limit_step fl t (set_bucket (st\<lparr>ls_size := gs'\<rparr>) b eb')"
    if t: "ls_pcs t = (ls_pcs st)[b := Clearing]" "ls_buckets t = (ls_buckets st)[b := eb']" "clear_rejects (ls_size t) b = gs'" for t
  proof -
    have "limit_step fl t (set_pc (t\<lparr>ls_size := clear_rejects (ls_size t) b\<rparr>) b Unlocked)"
      by (rule limit_step.clear_up) (use b t in simp_all)
    moreover have "set_pc (t\<lparr>ls_size := clear_rejects (ls_size t) b\<rparr>) b Unlocked = set_bucket (st\<lparr>ls_size := gs'\<rparr>) b eb'"
      by (rule limit_state_eq) (use b t list_update_id [of "ls_pcs st" b] in simp_all)
    ultimately show ?thesis by simp
  qed
  show ?thesis
  proof (cases "0 < gs_bucket_sizes (ls_size st) ! b - sz")
    case True
    let ?d = "gs_bucket_sizes (ls_size st) ! b - sz"
    have pc: "pc = Shrinking ?d" using s True by (simp add: shrink_bucket_def Let_def)
    have "limit_step fl ?s1 (set_pc (?s1\<lparr>ls_size := add_size (ls_size ?s1) (- ?d)\<rparr>) b Clearing)"
      by (rule limit_step.subtract) (use b pc in simp_all)
    moreover have "limit_step fl (set_pc (?s1\<lparr>ls_size := add_size (ls_size ?s1) (- ?d)\<rparr>) b Clearing) (set_bucket (st\<lparr>ls_size := gs'\<rparr>) b eb')"
      by (rule clear) (use rl s True in \<open>auto simp: rotate_locked_def shrink_bucket_def clear_rejects_def add_size_def Let_def split: if_splits\<close>)
    ultimately show ?thesis by (metis rtranclp.simps)
  next
    case False
    have "limit_step fl ?s1 (set_bucket (st\<lparr>ls_size := gs'\<rparr>) b eb')"
      by (rule clear) (use rl s False in \<open>auto simp: rotate_locked_def shrink_bucket_def clear_rejects_def Let_def split: if_splits\<close>)
    then show ?thesis by blast
  qed
qed

lemma rotation_is_run:
  assumes b: "b < length (ls_pcs st)" "ls_pcs st ! b = Unlocked" and len: "length (ls_buckets st) = length (ls_pcs st)"
    and eb: "eb_idx (ls_buckets st ! b) = b" "eb_group_by (ls_buckets st ! b) \<noteq> []"
    and op: "eb_rotate (ls_buckets st ! b) (ls_size st) = Inr (eb', gs') \<or> eb_reset (ls_buckets st ! b) (ls_size st) = Inr (eb', gs')"
  shows "(limit_step fl)\<^sup>*\<^sup>* st (set_bucket (st\<lparr>ls_size := gs'\<rparr>) b eb')"
  using op
proof
  let ?eb = "ls_buckets st ! b" and ?sz = "int (length (eb_groups (ls_buckets st ! b)))"
  assume r: "eb_rotate ?eb (ls_size st) = Inr (eb', gs')"
  obtain gs1 pc where s: "shrink_bucket (ls_size st) b ?sz = (gs1, pc)" by force
  have o: "rotate_locked (ls_size st) b ?sz = Inr gs'" "eb' = ?eb\<lparr>eb_prev_groups := eb_groups ?eb, eb_groups := []\<rparr>"
    using r eb by (auto simp: eb_rotate_def split: sum.splits)
  show ?thesis
    using limit_step.rotate [OF b refl s, of fl] shrink_is_run [OF b len o(1) s, of fl eb'] o(2)
    by (metis converse_rtranclp_into_rtranclp)
next
  let ?eb = "ls_buckets st ! b"
  assume r: "eb_reset ?eb (ls_size st) = Inr (eb', gs')"
  obtain gs1 pc where s: "shrink_bucket (ls_size st) b 0 = (gs1, pc)" by force
  have o: "rotate_locked (ls_size st) b 0 = Inr gs'" "eb' = ?eb\<lparr>eb_groups := [], eb_prev_groups := []\<rparr>"
    using r eb by (auto simp: eb_reset_def split: sum.splits)
  show ?thesis
    using limit_step.reset [OF b s, of fl] shrink_is_run [OF b len o(1) s, of fl eb'] o(2)
    by (metis converse_rtranclp_into_rtranclp)
qed

subsection \<open>Properties\<close>

text \<open>C35: However inserts, rotations, resets and scrapes of one estimator interleave, the number of its groups exceeds the
  limit by less than the number of buckets; when no lock is held, the shared total is exactly the number of
  groups; and no operation gets stuck half-way.\<close>

theorem concurrent_limit:
  assumes "estimator_ok p e" and "es_group_by e \<noteq> []" and "(limit_step fl)\<^sup>*\<^sup>* (at_rest e) st"
  shows "groups_total st < gs_limit (es_group_size e) + int (length (es_buckets e))
    \<and> (set (ls_pcs st) \<subseteq> {Unlocked} \<longrightarrow> gs_size (ls_size st) = groups_total st)
    \<and> (\<forall>b < length (es_buckets e). ls_pcs st ! b \<noteq> Unlocked \<longrightarrow> (\<exists>st'. limit_step fl st st' \<and> ls_pcs st' ! b \<noteq> ls_pcs st ! b))"
proof -
  have R: "limit_inv st" "length (ls_buckets st) = length (es_buckets e)" "gs_limit (ls_size st) = gs_limit (es_group_size e)"
    using limit_run_inv [OF assms(3) at_rest_inv [OF assms(1,2)]] by (simp_all add: at_rest_def)
  note I = limit_invD [OF R(1)]
  have n: "0 < length (es_buckets e)" using assms(1) by (simp add: estimator_ok_def)
  have "groups_total st < gs_limit (es_group_size e) + int (length (es_buckets e))"
    using total_counts [OF R(1)] I(5,6) pendings_nonneg [OF R(1)] inflights_nonneg [of "ls_pcs st"] R(2,3) n by simp
  then show ?thesis using rest_total [OF R(1)] lock_progress [OF R(1)] I(1) R(2) by simp
qed

text \<open>The atomic operations of the sequential model are runs of the interleaved one: from every reachable state, a
  bucket whose lock is free can insert, rotate and reset in consecutive steps, with exactly the bucket and the
  shared counters the operation computes.\<close>

theorem atomic_operations_are_runs:
  assumes "estimator_ok p e" and "es_group_by e \<noteq> []" and "(limit_step fl)\<^sup>*\<^sup>* (at_rest e) st"
    and "b < length (es_buckets e)" and "ls_pcs st ! b = Unlocked"
  shows "eb_insert (ls_buckets st ! b) (ls_size st) fp key vals = Inr (eb', gs')
      \<or> eb_rotate (ls_buckets st ! b) (ls_size st) = Inr (eb', gs') \<or> eb_reset (ls_buckets st ! b) (ls_size st) = Inr (eb', gs')
    \<longrightarrow> (limit_step fl)\<^sup>*\<^sup>* (at_rest e) (set_bucket (st\<lparr>ls_size := gs'\<rparr>) b eb')"
proof -
  have R: "limit_inv st" "length (ls_buckets st) = length (es_buckets e)"
    using limit_run_inv [OF assms(3) at_rest_inv [OF assms(1,2)]] by (simp_all add: at_rest_def)
  have b: "b < length (ls_pcs st)" using limit_invD(1) [OF R(1)] R(2) assms(4) by simp
  have eb: "eb_idx (ls_buckets st ! b) = b" "eb_group_by (ls_buckets st ! b) \<noteq> []"
    using limit_invD(4) [OF R(1) b] by (auto elim: slot_okD)
  have "(limit_step fl)\<^sup>*\<^sup>* st (set_bucket (st\<lparr>ls_size := gs'\<rparr>) b eb')"
    if "eb_insert (ls_buckets st ! b) (ls_size st) fp key vals = Inr (eb', gs')
      \<or> eb_rotate (ls_buckets st ! b) (ls_size st) = Inr (eb', gs') \<or> eb_reset (ls_buckets st ! b) (ls_size st) = Inr (eb', gs')"
    using that insert_is_run [OF b assms(5) eb _ limit_invD(1) [OF R(1), symmetric]]
      rotation_is_run [OF b assms(5) limit_invD(1) [OF R(1), symmetric] eb] by blast
  then show ?thesis using rtranclp_trans [OF assms(3)] by blast
qed

subsection \<open>The bound is reached\<close>

text \<open>All buckets pass the check for a new key before any of them counts it.\<close>

lemma admit_all:
  assumes "\<forall>b < length (es_buckets e). key b \<notin> tracked (es_buckets e ! b)"
    and "gs_size (es_group_size e) < gs_limit (es_group_size e)" and "j \<le> length (es_buckets e)"
  shows "(limit_step fl)\<^sup>*\<^sup>* (at_rest e) ((at_rest e)\<lparr>ls_pcs := map (\<lambda>b. if b < j then Admitted 0 (key b) [] else Unlocked)
    [0..<length (es_buckets e)]\<rparr>)"
  using assms(3)
proof (induction j)
  case 0
  then show ?case by (simp add: at_rest_def map_replicate_const)
next
  case (Suc j)
  let ?st = "\<lambda>j. (at_rest e)\<lparr>ls_pcs := map (\<lambda>b. if b < j then Admitted 0 (key b) [] else Unlocked) [0..<length (es_buckets e)]\<rparr>"
  have "limit_step fl (?st j) (set_pc (?st j) j (Admitted 0 (key j) []))"
    by (rule limit_step.admit) (use Suc.prems assms(1,2) in \<open>simp_all add: at_rest_def\<close>)
  moreover have "set_pc (?st j) j (Admitted 0 (key j) []) = ?st (Suc j)"
    by (rule limit_state_eq) (auto intro!: nth_equalityI simp: nth_list_update less_Suc_eq)
  ultimately show ?case using Suc by (auto intro: rtranclp.rtrancl_into_rtrancl)
qed

lemma add_admitted:
  assumes "limit_inv st" and "b < length (ls_pcs st)" and "ls_pcs st ! b = Admitted fp key vals"
  shows "\<exists>st'. (limit_step fl)\<^sup>*\<^sup>* st st' \<and> gs_size (ls_size st') = gs_size (ls_size st) + 1
    \<and> ls_pcs st' = (ls_pcs st)[b := Unlocked]"
proof -
  obtain gs where g: "bucket_ok (ls_buckets st ! b) gs" using limit_invD(4) [OF assms(1,2)] by (auto elim: slot_okD)
  obtain eb' where c: "eb_create (ls_buckets st ! b) key fp vals = Inr eb'" using eb_create_ok [OF g] by blast
  let ?st1 = "set_pc (st\<lparr>ls_size := count_group (ls_size st) b\<rparr>) b (Counted fp key vals)"
  have s1: "limit_step fl st ?st1" by (rule limit_step.count [OF assms(2,3)])
  have s2: "limit_step fl ?st1 (set_pc (set_bucket (?st1\<lparr>ls_size := add_size (ls_size ?st1) 1\<rparr>) b eb') b Unlocked)"
    by (rule limit_step.add) (use assms(2) c in simp_all)
  show ?thesis
    by (rule exI, rule conjI, rule rtranclp.rtrancl_into_rtrancl [OF r_into_rtranclp [where r = "limit_step fl", OF s1] s2])
      (simp add: add_size_def count_group_def)
qed

lemma add_all:
  assumes "limit_inv st" and "ls_pcs st = map (\<lambda>b. if b < n then Admitted 0 (key b) [] else Unlocked) [0..<n]" and "j \<le> n"
  shows "\<exists>st'. (limit_step fl)\<^sup>*\<^sup>* st st' \<and> gs_size (ls_size st') = gs_size (ls_size st) + int j
    \<and> ls_pcs st' = map (\<lambda>b. if b < j then Unlocked else Admitted 0 (key b) []) [0..<n]"
  using assms(3)
proof (induction j)
  case 0
  then show ?case using assms(2) by (intro exI [of _ st]) simp
next
  case (Suc j)
  then obtain st1 where s1: "(limit_step fl)\<^sup>*\<^sup>* st st1" "gs_size (ls_size st1) = gs_size (ls_size st) + int j"
    "ls_pcs st1 = map (\<lambda>b. if b < j then Unlocked else Admitted 0 (key b) []) [0..<n]" by auto
  have "limit_inv st1" using limit_run_inv [OF s1(1) assms(1)] by blast
  from add_admitted [OF this, of j 0 "key j" "[]" fl] Suc.prems s1(3) obtain st2 where s2: "(limit_step fl)\<^sup>*\<^sup>* st1 st2"
    "gs_size (ls_size st2) = gs_size (ls_size st1) + 1" "ls_pcs st2 = (ls_pcs st1)[j := Unlocked]" by auto
  have "ls_pcs st2 = map (\<lambda>b. if b < Suc j then Unlocked else Admitted 0 (key b) []) [0..<n]"
    unfolding s2(3) s1(3) by (rule nth_equalityI) (auto simp: nth_list_update less_Suc_eq)
  then show ?case using rtranclp_trans [OF s1(1) s2(1)] s1(2) s2(2) by (intro exI [of _ st2]) simp
qed

text \<open>The group limit is not a hard one: in an estimator with one group to go, one insert into each bucket can pass the
  check before any of them is counted, and then the number of groups exceeds the limit by the number of buckets
  less one.\<close>

theorem limit_overshoot:
  assumes "estimator_ok p e" and "es_group_by e \<noteq> []" and "gs_size (es_group_size e) = gs_limit (es_group_size e) - 1"
    and "\<forall>b < length (es_buckets e). key b \<notin> tracked (es_buckets e ! b)"
  shows "\<exists>st. (limit_step fl)\<^sup>*\<^sup>* (at_rest e) st \<and> set (ls_pcs st) \<subseteq> {Unlocked}
    \<and> groups_total st = gs_limit (es_group_size e) + int (length (es_buckets e)) - 1"
proof -
  let ?n = "length (es_buckets e)"
  let ?st = "(at_rest e)\<lparr>ls_pcs := map (\<lambda>b. if b < ?n then Admitted 0 (key b) [] else Unlocked) [0..<?n]\<rparr>"
  have r1: "(limit_step fl)\<^sup>*\<^sup>* (at_rest e) ?st" by (rule admit_all [OF assms(4)]) (use assms(3) in simp_all)
  have "limit_inv ?st" using limit_run_inv [OF r1 at_rest_inv [OF assms(1,2)]] by blast
  from add_all [OF this, of ?n key ?n fl] obtain st where st: "(limit_step fl)\<^sup>*\<^sup>* ?st st"
    "gs_size (ls_size st) = gs_size (es_group_size e) + int ?n" "ls_pcs st = map (\<lambda>b. if b < ?n then Unlocked else Admitted 0 (key b) []) [0..<?n]"
    by (auto simp: at_rest_def)
  have run: "(limit_step fl)\<^sup>*\<^sup>* (at_rest e) st" by (rule rtranclp_trans [OF r1 st(1)])
  have rest: "set (ls_pcs st) \<subseteq> {Unlocked}" by (auto simp: st(3))
  have "limit_inv st" using limit_run_inv [OF run at_rest_inv [OF assms(1,2)]] by blast
  from rest_total [OF this rest] st(2) assms(3) run rest show ?thesis by auto
qed

subsection \<open>Concrete instances\<close>

text \<open>An estimator by job with a limit of one group and four buckets.\<close>

definition one_group :: estimator_config where
  "one_group = (plain_config [''job''])\<lparr>ec_group_limit := 1\<rparr>"

lemma one_group_estimator:
  "\<exists>e. new_estimator 2 (\<lambda>_. Inl []) (\<lambda>_. Inl []) one_group = Inr e \<and> estimator_ok 4 e \<and> es_group_by e = [''job'']
    \<and> gs_size (es_group_size e) = 0 \<and> gs_limit (es_group_size e) = 1 \<and> length (es_buckets e) = 4
    \<and> (\<forall>b < 4. tracked (es_buckets e ! b) = {})"
proof -
  have ok: "config_ok one_group" by (simp add: config_ok_def one_group_def plain_config_def)
  have nr: "\<not> rejected_config (\<lambda>_. Inl []) (\<lambda>_. Inl []) one_group"
    by (simp add: rejected_config_def one_group_def plain_config_def compile_filters_def)
  obtain e where e: "new_estimator 2 (\<lambda>_. Inl []) (\<lambda>_. Inl []) one_group = Inr e" "fresh_estimator one_group e"
    using new_estimator_fresh [OF ok nr, of 2] by blast
  have f: "estimator_ok 4 e" "es_group_by e = [''job'']" "gs_size (es_group_size e) = 0" "gs_limit (es_group_size e) = 1"
    using e(2) by (simp_all add: fresh_estimator_def effective_precision_def one_group_def plain_config_def)
  obtain ebs where b: "new_buckets (apply_defaults 2 one_group) False = Inr ebs" "es_buckets e = ebs" "es_group_size e = new_group_size 1 4"
    using e(1)
    by (auto simp: new_estimator_def Let_def one_group_def plain_config_def apply_defaults_def compile_filters_def
        label_keyword_def split: sum.splits option.splits if_splits)
  have len: "length (es_buckets e) = 4"
    using new_buckets_ok [of "apply_defaults 2 one_group" True False] b
    by (auto simp: one_group_def plain_config_def apply_defaults_def)
  have "tracked (es_buckets e ! b) = {}" if "b < 4" for b
  proof -
    have "bucket_ok (es_buckets e ! b) (es_group_size e)" "eb_idx (es_buckets e ! b) = b" using f(1) that len by (simp_all add: estimator_ok_def)
    then have "card (tracked (es_buckets e ! b)) = 0" using b(3) that bucket_okD(6) by (fastforce simp: new_group_size_def)
    then show ?thesis by simp
  qed
  then show ?thesis using e(1) f len by blast
qed

theorem limit_overshoot_witness:
  "\<exists>e st. new_estimator 2 (\<lambda>_. Inl []) (\<lambda>_. Inl []) one_group = Inr e \<and> (limit_step zero_float)\<^sup>*\<^sup>* (at_rest e) st
    \<and> gs_limit (es_group_size e) = 1 \<and> groups_total st = 4"
proof -
  obtain e where e: "new_estimator 2 (\<lambda>_. Inl []) (\<lambda>_. Inl []) one_group = Inr e" "estimator_ok 4 e" "es_group_by e = [''job'']"
    "gs_size (es_group_size e) = 0" "gs_limit (es_group_size e) = 1" "length (es_buckets e) = 4" "\<forall>b < 4. tracked (es_buckets e ! b) = {}"
    using one_group_estimator by blast
  have gb: "es_group_by e \<noteq> []" using e(3) by simp
  from limit_overshoot [OF e(2) gb, of "\<lambda>b. of_nat b" zero_float] e show ?thesis by auto
qed

text \<open>Two buckets hold their locks and have passed the check for the last free place.\<close>

lemma two_admitted:
  assumes "gs_size (es_group_size e) = 0" "gs_limit (es_group_size e) = 1" "length (es_buckets e) = 4"
    and "\<forall>b < 4. tracked (es_buckets e ! b) = {}"
  shows "(limit_step fl)\<^sup>*\<^sup>* (at_rest e) ((at_rest e)\<lparr>ls_pcs := [Admitted 0 7 [], Admitted 0 9 [], Unlocked, Unlocked]\<rparr>)"
proof -
  have "(limit_step fl)\<^sup>*\<^sup>* (at_rest e) ((at_rest e)\<lparr>ls_pcs := map (\<lambda>b. if b < 2 then Admitted 0 (if b = 0 then 7 else 9) [] else Unlocked) [0..<4]\<rparr>)"
    using admit_all [of e "\<lambda>b. if b = 0 then 7 else 9" 2 fl] assms by simp
  moreover have "[0..<4] = [0, 1, 2, 3::nat]" by (simp add: upt_rec)
  ultimately show ?thesis by simp
qed

theorem concurrent_limit_witness:
  "\<exists>e st. new_estimator 2 (\<lambda>_. Inl []) (\<lambda>_. Inl []) one_group = Inr e \<and> (limit_step zero_float)\<^sup>*\<^sup>* (at_rest e) st
    \<and> ls_pcs st = [Admitted 0 7 [], Admitted 0 9 [], Unlocked, Unlocked] \<and> groups_total st < 5
    \<and> (\<exists>st'. limit_step zero_float st st' \<and> ls_pcs st' ! 1 \<noteq> ls_pcs st ! 1)"
proof -
  obtain e where e: "new_estimator 2 (\<lambda>_. Inl []) (\<lambda>_. Inl []) one_group = Inr e" "estimator_ok 4 e" "es_group_by e = [''job'']"
    "gs_size (es_group_size e) = 0" "gs_limit (es_group_size e) = 1" "length (es_buckets e) = 4" "\<forall>b < 4. tracked (es_buckets e ! b) = {}"
    using one_group_estimator by blast
  let ?st = "(at_rest e)\<lparr>ls_pcs := [Admitted 0 7 [], Admitted 0 9 [], Unlocked, Unlocked]\<rparr>"
  have gb: "es_group_by e \<noteq> []" using e(3) by simp
  have run: "(limit_step zero_float)\<^sup>*\<^sup>* (at_rest e) ?st" by (rule two_admitted) (use e in simp_all)
  have one: "1 < length (es_buckets e)" using e(6) by simp
  note c = concurrent_limit [OF e(2) gb run]
  have "groups_total ?st < 5" using conjunct1 [OF c] e(5,6) by simp
  moreover have "ls_pcs ?st ! 1 \<noteq> Unlocked \<longrightarrow> (\<exists>st'. limit_step zero_float ?st st' \<and> ls_pcs st' ! 1 \<noteq> ls_pcs ?st ! 1)"
    using conjunct2 [OF conjunct2 [OF c]] one by blast
  ultimately show ?thesis using e(1) run by (intro exI [of _ e] exI [of _ ?st]) simp
qed

theorem atomic_operations_are_runs_witness:
  "\<exists>e st eb' gs'. new_estimator 2 (\<lambda>_. Inl []) (\<lambda>_. Inl []) one_group = Inr e \<and> (limit_step zero_float)\<^sup>*\<^sup>* (at_rest e) st
    \<and> eb_insert (ls_buckets st ! 2) (ls_size st) 1 5 [] = Inr (eb', gs')
    \<and> (limit_step zero_float)\<^sup>*\<^sup>* (at_rest e) (set_bucket (st\<lparr>ls_size := gs'\<rparr>) 2 eb')"
proof -
  obtain e where e: "new_estimator 2 (\<lambda>_. Inl []) (\<lambda>_. Inl []) one_group = Inr e" "estimator_ok 4 e" "es_group_by e = [''job'']"
    "gs_size (es_group_size e) = 0" "gs_limit (es_group_size e) = 1" "length (es_buckets e) = 4" "\<forall>b < 4. tracked (es_buckets e ! b) = {}"
    using one_group_estimator by blast
  let ?st = "(at_rest e)\<lparr>ls_pcs := [Admitted 0 7 [], Admitted 0 9 [], Unlocked, Unlocked]\<rparr>"
  have gb: "es_group_by e \<noteq> []" using e(3) by simp
  have run: "(limit_step zero_float)\<^sup>*\<^sup>* (at_rest e) ?st" by (rule two_admitted) (use e in simp_all)
  have ok: "bucket_ok (es_buckets e ! 2) (es_group_size e)" "group_size_ok (es_group_size e)" "eb_group_by (es_buckets e ! 2) \<noteq> []"
    using e(2,3,6) by (simp_all add: estimator_ok_def)
  obtain eb' gs' where i: "eb_insert (es_buckets e ! 2) (es_group_size e) 1 5 [] = Inr (eb', gs')"
    using eb_insert_new_room [OF ok, of 5 1 "[]"] e(4,5,7) by auto
  then have i': "eb_insert (ls_buckets ?st ! 2) (ls_size ?st) 1 5 [] = Inr (eb', gs')" by (simp add: at_rest_def)
  have b: "2 < length (es_buckets e)" "ls_pcs ?st ! 2 = Unlocked" using e(6) by simp_all
  from atomic_operations_are_runs [OF e(2) gb run b, of 1 5 "[]" eb' gs'] i'
  have "(limit_step zero_float)\<^sup>*\<^sup>* (at_rest e) (set_bucket (?st\<lparr>ls_size := gs'\<rparr>) 2 eb')" by blast
  then show ?thesis using e(1) run i' by blast
qed

end
