(* ===== verification/Concurrent_Bloom.thy ===== *)
theory Concurrent_Bloom
  imports Deduplicator
begin

section \<open>Concurrent requests and the bloom filters of the deduplicator\<close>

text \<open>
  \<^verbatim>\<open>filter\<close> takes no lock.  A request looks its fingerprint up word by word, loads the size, and adds the
  fingerprint by compare-and-swap, which fails and is retried if another request has changed the word in
  between.  Here every access to the shared filter is a step; a thread handles one fingerprint.  No rotation
  happens in this model: it replaces the whole filter, and threads under way keep the old one.
\<close>

datatype filter_pc =
    Contains nat
  | CheckSize
  | AddLoad nat bool
  | AddSwap nat bool u64
  | Known
  | Added
  | PassedThrough

record race =
  rc_bloom :: bloom
  rc_max :: int
  rc_threads :: "(u64 \<times> filter_pc) list"

definition at_pc :: "race \<Rightarrow> nat \<Rightarrow> u64 \<Rightarrow> filter_pc \<Rightarrow> bool" where
  "at_pc st t h pc \<longleftrightarrow> t < length (rc_threads st) \<and> rc_threads st ! t = (h, pc)"

definition goes_to :: "race \<Rightarrow> nat \<Rightarrow> filter_pc \<Rightarrow> race" where
  "goes_to st t pc = st\<lparr>rc_threads := (rc_threads st)[t := (fst (rc_threads st ! t), pc)]\<rparr>"

abbreviation rc_bits :: "race \<Rightarrow> u64 list" where
  "rc_bits st \<equiv> bf_bits (rc_bloom st)"

definition set_word :: "race \<Rightarrow> nat \<Rightarrow> u64 \<Rightarrow> race" where
  "set_word st w v = st\<lparr>rc_bloom := (rc_bloom st)\<lparr>bf_bits := (rc_bits st)[w := v]\<rparr>\<rparr>"

definition grow :: "race \<Rightarrow> race" where
  "grow st = st\<lparr>rc_bloom := (rc_bloom st)\<lparr>bf_size := bf_size (rc_bloom st) + 1\<rparr>\<rparr>"

inductive filter_step :: "race \<Rightarrow> race \<Rightarrow> bool" where
  contains_hit: "at_pc st t h (Contains i) \<Longrightarrow> i < hashes_count \<Longrightarrow> bit_position (rc_bits st) h (of_nat i) = Inr (w, m)
    \<Longrightarrow> rc_bits st ! w AND m \<noteq> 0 \<Longrightarrow> filter_step st (goes_to st t (Contains (Suc i)))"
| contains_miss: "at_pc st t h (Contains i) \<Longrightarrow> i < hashes_count \<Longrightarrow> bit_position (rc_bits st) h (of_nat i) = Inr (w, m)
    \<Longrightarrow> rc_bits st ! w AND m = 0 \<Longrightarrow> filter_step st (goes_to st t CheckSize)"
| contains_all: "at_pc st t h (Contains hashes_count) \<Longrightarrow> filter_step st (goes_to st t Known)"
| room: "at_pc st t h CheckSize \<Longrightarrow> bf_size (rc_bloom st) < rc_max st \<Longrightarrow> filter_step st (goes_to st t (AddLoad 0 False))"
| full: "at_pc st t h CheckSize \<Longrightarrow> rc_max st \<le> bf_size (rc_bloom st) \<Longrightarrow> filter_step st (goes_to st t PassedThrough)"
| load_set: "at_pc st t h (AddLoad i new) \<Longrightarrow> i < hashes_count \<Longrightarrow> bit_position (rc_bits st) h (of_nat i) = Inr (w, m)
    \<Longrightarrow> rc_bits st ! w AND m \<noteq> 0 \<Longrightarrow> filter_step st (goes_to st t (AddLoad (Suc i) new))"
| load_clear: "at_pc st t h (AddLoad i new) \<Longrightarrow> i < hashes_count \<Longrightarrow> bit_position (rc_bits st) h (of_nat i) = Inr (w, m)
    \<Longrightarrow> rc_bits st ! w AND m = 0 \<Longrightarrow> filter_step st (goes_to st t (AddSwap i new (rc_bits st ! w)))"
| swap: "at_pc st t h (AddSwap i new v) \<Longrightarrow> bit_position (rc_bits st) h (of_nat i) = Inr (w, m) \<Longrightarrow> rc_bits st ! w = v
    \<Longrightarrow> filter_step st (goes_to (set_word st w (v OR m)) t (AddLoad (Suc i) True))"
| swap_fails: "at_pc st t h (AddSwap i new v) \<Longrightarrow> bit_position (rc_bits st) h (of_nat i) = Inr (w, m) \<Longrightarrow> rc_bits st ! w \<noteq> v
    \<Longrightarrow> filter_step st (goes_to st t (AddLoad i new))"
| added_new: "at_pc st t h (AddLoad hashes_count True) \<Longrightarrow> filter_step st (goes_to (grow st) t Added)"
| added_old: "at_pc st t h (AddLoad hashes_count False) \<Longrightarrow> filter_step st (goes_to st t Added)"

inductive_cases filter_stepE: "filter_step st st'"

subsection \<open>Invariant\<close>

fun adding :: "filter_pc \<Rightarrow> int" where
  "adding (AddLoad i new) = 1"
| "adding (AddSwap i new v) = 1"
| "adding _ = 0"

text \<open>How many bits the thread has set at most, without having counted its fingerprint yet.\<close>

fun uncounted :: "filter_pc \<Rightarrow> int" where
  "uncounted (AddLoad i new) = (if new then int i else 0)"
| "uncounted (AddSwap i new v) = (if new then int i else 0)"
| "uncounted _ = 0"

text \<open>The probes a thread has found or made set.\<close>

fun probed :: "filter_pc \<Rightarrow> nat set" where
  "probed (Contains i) = {0..<i}"
| "probed (AddLoad i new) = {0..<i}"
| "probed (AddSwap i new v) = {0..<i}"
| "probed Known = {0..<hashes_count}"
| "probed Added = {0..<hashes_count}"
| "probed _ = {}"

fun in_range :: "filter_pc \<Rightarrow> bool" where
  "in_range (Contains i) = (i \<le> hashes_count)"
| "in_range (AddLoad i new) = (i \<le> hashes_count)"
| "in_range (AddSwap i new v) = (i < hashes_count)"
| "in_range _ = True"

text \<open>A word that a thread is about to swap has, in the value it loaded, a clear bit at its probe.\<close>

definition thread_ok :: "u64 list \<Rightarrow> u64 \<times> filter_pc \<Rightarrow> bool" where
  "thread_ok bits th \<longleftrightarrow> in_range (snd th) \<and> position (length bits) (fst th) ` probed (snd th) \<subseteq> bits_set bits
     \<and> (\<forall>i new v. snd th = AddSwap i new v \<longrightarrow> \<not> bit v (position (length bits) (fst th) i mod 64))"

definition race_ok :: "race \<Rightarrow> bool" where
  "race_ok st \<longleftrightarrow> bits_ok (rc_bits st) \<and> 16 * rc_max st \<le> 64 * int (length (rc_bits st)) \<and> finite (bits_set (rc_bits st))
     \<and> (\<forall>th \<in> set (rc_threads st). thread_ok (rc_bits st) th)
     \<and> int (card (bits_set (rc_bits st))) \<le> 4 * bf_size (rc_bloom st) + (\<Sum>th \<leftarrow> rc_threads st. uncounted (snd th))
     \<and> bf_size (rc_bloom st) + (\<Sum>th \<leftarrow> rc_threads st. adding (snd th)) < rc_max st + max 1 (int (length (rc_threads st)))"

lemma hashes_count_4 [simp]: "hashes_count = 4"
  by (simp add: hashes_count_def)

lemma goes_to_simps [simp]:
  "rc_bloom (goes_to st t pc) = rc_bloom st" "rc_max (goes_to st t pc) = rc_max st"
  "rc_threads (set_word st w v) = rc_threads st" "rc_max (set_word st w v) = rc_max st"
  "rc_bloom (set_word st w v) = (rc_bloom st)\<lparr>bf_bits := (rc_bits st)[w := v]\<rparr>"
  "rc_threads (grow st) = rc_threads st" "rc_max (grow st) = rc_max st"
  "rc_bloom (grow st) = (rc_bloom st)\<lparr>bf_size := bf_size (rc_bloom st) + 1\<rparr>"
  by (simp_all add: goes_to_def set_word_def grow_def)

lemma goes_to_threads: "at_pc st t h pc \<Longrightarrow> rc_threads st' = rc_threads st \<Longrightarrow> rc_threads (goes_to st' t pc') = (rc_threads st)[t := (h, pc')]"
  by (simp add: goes_to_def at_pc_def)

lemma goes_to_hashes:
  assumes "at_pc st t h pc" and "rc_threads st' = rc_threads st"
  shows "map fst (rc_threads (goes_to st' t pc')) = map fst (rc_threads st)"
proof -
  have "map fst (rc_threads (goes_to st' t pc')) = (map fst (rc_threads st))[t := map fst (rc_threads st) ! t]"
    using assms by (simp add: goes_to_threads map_update at_pc_def)
  then show ?thesis by (simp only: list_update_id)
qed

lemma adding_bound: "0 \<le> adding pc \<and> adding pc \<le> 1"
  by (cases pc) auto

lemma addings_bound: "(\<Sum>th \<leftarrow> ths. adding (snd th)) \<le> int (length ths)"
proof (induction ths)
  case (Cons th ths)
  then show ?case using adding_bound [of "snd th"] by simp
qed simp

lemma thread_ok_mono:
  "thread_ok bits th \<Longrightarrow> length bits' = length bits \<Longrightarrow> bits_set bits \<subseteq> bits_set bits' \<Longrightarrow> thread_ok bits' th"
  by (auto simp: thread_ok_def)

lemma race_okD:
  assumes "race_ok st"
  shows "bits_ok (rc_bits st)" "16 * rc_max st \<le> 64 * int (length (rc_bits st))" "finite (bits_set (rc_bits st))"
    "\<And>t h pc. at_pc st t h pc \<Longrightarrow> thread_ok (rc_bits st) (h, pc)"
    "int (card (bits_set (rc_bits st))) \<le> 4 * bf_size (rc_bloom st) + (\<Sum>th \<leftarrow> rc_threads st. uncounted (snd th))"
    "bf_size (rc_bloom st) + (\<Sum>th \<leftarrow> rc_threads st. adding (snd th)) < rc_max st + max 1 (int (length (rc_threads st)))"
  using assms by (auto simp: race_ok_def at_pc_def in_set_conv_nth)

text \<open>Every step moves one thread; what it must satisfy for the invariant.\<close>

lemma race_ok_thread:
  assumes ok: "race_ok st" and pc: "at_pc st t h pc"
    and st': "rc_threads st' = (rc_threads st)[t := (h, pc')]" "rc_max st' = rc_max st"
    and bits: "length (rc_bits st') = length (rc_bits st)" "bits_set (rc_bits st) \<subseteq> bits_set (rc_bits st')" "finite (bits_set (rc_bits st'))"
    and card: "int (card (bits_set (rc_bits st'))) + uncounted pc
      \<le> int (card (bits_set (rc_bits st))) + 4 * (bf_size (rc_bloom st') - bf_size (rc_bloom st)) + uncounted pc'"
    and th: "thread_ok (rc_bits st') (h, pc')"
    and room: "bf_size (rc_bloom st') + adding pc' \<le> bf_size (rc_bloom st) + adding pc \<or> bf_size (rc_bloom st') < rc_max st"
  shows "race_ok st'"
proof -
  note R = race_okD [OF ok]
  have t: "t < length (rc_threads st)" "rc_threads st ! t = (h, pc)" using pc by (simp_all add: at_pc_def)
  have sums: "(\<Sum>th \<leftarrow> rc_threads st'. f (snd th)) = (\<Sum>th \<leftarrow> rc_threads st. f (snd th)) - f pc + f pc'" for f :: "filter_pc \<Rightarrow> int"
    using t by (simp add: st'(1) map_update sum_list_update_int)
  have "thread_ok (rc_bits st') th" if "th \<in> set (rc_threads st')" for th
  proof -
    have "\<forall>th \<in> set ((rc_threads st)[t := (h, pc')]). thread_ok (rc_bits st') th"
      by (rule ball_list_update) (use ok th thread_ok_mono [OF _ bits(1,2)] in \<open>auto simp: race_ok_def\<close>)
    then show ?thesis using that by (simp add: st'(1))
  qed
  moreover have "bits_ok (rc_bits st')" using R(1) bits(1) unfolding bits_ok_def by (metis length_0_conv)
  moreover have "bf_size (rc_bloom st') + (\<Sum>th \<leftarrow> rc_threads st'. adding (snd th)) < rc_max st' + max 1 (int (length (rc_threads st')))"
    using room
  proof
    assume "bf_size (rc_bloom st') + adding pc' \<le> bf_size (rc_bloom st) + adding pc"
    then show ?thesis using R(6) sums [of adding] by (simp add: st')
  next
    assume "bf_size (rc_bloom st') < rc_max st"
    then show ?thesis using addings_bound [of "rc_threads st'"] by (simp add: st'(2))
  qed
  moreover have "int (card (bits_set (rc_bits st'))) \<le> 4 * bf_size (rc_bloom st') + (\<Sum>th \<leftarrow> rc_threads st'. uncounted (snd th))"
    using card R(5) sums [of uncounted] by (simp add: algebra_simps)
  ultimately show ?thesis using R(2) bits(1,3) by (simp add: race_ok_def st'(2))
qed

text \<open>A step that leaves the filter as it is.\<close>

lemma race_ok_local:
  assumes "race_ok st" and "at_pc st t h pc" and "thread_ok (rc_bits st) (h, pc')" and "uncounted pc \<le> uncounted pc'"
    and "adding pc' \<le> adding pc \<or> bf_size (rc_bloom st) < rc_max st"
  shows "race_ok (goes_to st t pc')"
  by (rule race_ok_thread [OF assms(1,2) goes_to_threads [OF assms(2) refl]])
    (use assms(3-5) race_okD(3) [OF assms(1)] in simp_all)

lemma masked_position:
  assumes "bits_ok bits" and "bit_position bits h (of_nat i) = Inr (w, m)"
  shows "(bits ! w AND m \<noteq> 0) \<longleftrightarrow> position (length bits) h i \<in> bits_set bits"
    "w = position (length bits) h i div 64" "w < length bits" "m = push_bit (position (length bits) h i mod 64) 1"
  using bit_position_ok [OF assms(1), of h i] assms(2) by (auto simp: masked_bit_simps bits_set_def)

lemma probe_next: "thread_ok bits (h, pc) \<Longrightarrow> probed pc = {0..<i} \<Longrightarrow> position (length bits) h i \<in> bits_set bits
   \<Longrightarrow> position (length bits) h ` {0..<Suc i} \<subseteq> bits_set bits"
  by (auto simp: thread_ok_def less_Suc_eq image_subset_iff)

lemma swap_ok:
  assumes ok: "race_ok st" and pc: "at_pc st t h (AddSwap i new v)"
    and bp: "bit_position (rc_bits st) h (of_nat i) = Inr (w, m)" and eq: "rc_bits st ! w = v"
  shows "race_ok (goes_to (set_word st w (v OR m)) t (AddLoad (Suc i) True))
    \<and> bits_set (rc_bits (set_word st w (v OR m))) = insert (position (length (rc_bits st)) h i) (bits_set (rc_bits st))
    \<and> position (length (rc_bits st)) h i \<notin> bits_set (rc_bits st)"
proof -
  note R = race_okD [OF ok] and mp = masked_position [OF race_okD(1) [OF ok] bp]
  let ?n = "position (length (rc_bits st)) h i"
  have th: "thread_ok (rc_bits st) (h, AddSwap i new v)" by (rule R(4) [OF pc])
  then have clear: "\<not> bit v (?n mod 64)" "i < 4" by (simp_all add: thread_ok_def)
  then have new: "?n \<notin> bits_set (rc_bits st)" using eq mp(2) by (simp add: bits_set_def)
  have set: "bits_set ((rc_bits st)[w := v OR m]) = insert ?n (bits_set (rc_bits st))"
    using bits_set_update [of ?n "rc_bits st"] mp(2-4) eq by simp
  have th': "thread_ok ((rc_bits st)[w := v OR m]) (h, AddLoad (Suc i) True)"
    using th clear(2) unfolding thread_ok_def set by (auto simp: less_Suc_eq image_subset_iff)
  have "race_ok (goes_to (set_word st w (v OR m)) t (AddLoad (Suc i) True))"
    by (rule race_ok_thread [OF ok pc goes_to_threads [OF pc, of "set_word st w (v OR m)"]])
      (use th' R(3) new subset_insertI [of "bits_set (rc_bits st)" ?n] in \<open>simp_all add: set\<close>)
  then show ?thesis using set new by simp
qed

lemma filter_step_ok:
  assumes "filter_step st st'" and "race_ok st"
  shows "race_ok st' \<and> rc_max st' = rc_max st \<and> length (rc_bits st') = length (rc_bits st)
    \<and> bits_set (rc_bits st) \<subseteq> bits_set (rc_bits st') \<and> map fst (rc_threads st') = map fst (rc_threads st)"
  using assms
proof (induction rule: filter_step.induct)
  case (contains_hit st t h i w m)
  note th = race_okD(4) [OF contains_hit(5,1)] and mp = masked_position(1) [OF race_okD(1) [OF contains_hit(5)] contains_hit(3)]
  have "thread_ok (rc_bits st) (h, Contains (Suc i))"
    using th probe_next [OF th, of i] mp contains_hit(2,4) by (simp add: thread_ok_def)
  then show ?case using race_ok_local [OF contains_hit(5,1)] contains_hit(1) by (simp add: goes_to_hashes)
next
  case (contains_miss st t h i w m)
  have "race_ok (goes_to st t CheckSize)" by (rule race_ok_local [OF contains_miss(5,1)]) (simp_all add: thread_ok_def)
  then show ?case using contains_miss(1) by (simp add: goes_to_hashes)
next
  case (contains_all st t h)
  have "race_ok (goes_to st t Known)"
    by (rule race_ok_local [OF contains_all(2,1)]) (use race_okD(4) [OF contains_all(2,1)] in \<open>simp_all add: thread_ok_def\<close>)
  then show ?case using contains_all(1) by (simp add: goes_to_hashes)
next
  case (room st t h)
  have "race_ok (goes_to st t (AddLoad 0 False))" by (rule race_ok_local [OF room(3,1)]) (use room(2) in \<open>simp_all add: thread_ok_def\<close>)
  then show ?case using room(1) by (simp add: goes_to_hashes)
next
  case (full st t h)
  have "race_ok (goes_to st t PassedThrough)" by (rule race_ok_local [OF full(3,1)]) (simp_all add: thread_ok_def)
  then show ?case using full(1) by (simp add: goes_to_hashes)
next
  case (load_set st t h i new w m)
  note th = race_okD(4) [OF load_set(5,1)] and mp = masked_position(1) [OF race_okD(1) [OF load_set(5)] load_set(3)]
  have "thread_ok (rc_bits st) (h, AddLoad (Suc i) new)"
    using th probe_next [OF th, of i] mp load_set(2,4) by (simp add: thread_ok_def)
  then have "race_ok (goes_to st t (AddLoad (Suc i) new))" using race_ok_local [OF load_set(5,1)] by simp
  then show ?case using load_set(1) by (simp add: goes_to_hashes)
next
  case (load_clear st t h i new w m)
  note th = race_okD(4) [OF load_clear(5,1)] and mp = masked_position [OF race_okD(1) [OF load_clear(5)] load_clear(3)]
  have "thread_ok (rc_bits st) (h, AddSwap i new (rc_bits st ! w))"
    using th mp load_clear(2,4) by (auto simp: thread_ok_def bits_set_def)
  then have "race_ok (goes_to st t (AddSwap i new (rc_bits st ! w)))" using race_ok_local [OF load_clear(5,1)] by simp
  then show ?case using load_clear(1) by (simp add: goes_to_hashes)
next
  case (swap st t h i new v w m)
  then show ?case using swap_ok [OF swap(4,1,2,3)] by (auto simp: goes_to_hashes)
next
  case (swap_fails st t h i new v w m)
  note th = race_okD(4) [OF swap_fails(4,1)]
  have "race_ok (goes_to st t (AddLoad i new))"
    by (rule race_ok_local [OF swap_fails(4,1)]) (use th in \<open>auto simp: thread_ok_def\<close>)
  then show ?case using swap_fails(1) by (simp add: goes_to_hashes)
next
  case (added_new st t h)
  note th = race_okD(4) [OF added_new(2,1)]
  have "race_ok (goes_to (grow st) t Added)"
    by (rule race_ok_thread [OF added_new(2,1) goes_to_threads [OF added_new(1), of "grow st"]])
      (use th race_okD(3) [OF added_new(2)] in \<open>simp_all add: thread_ok_def\<close>)
  then show ?case using added_new(1) by (simp add: goes_to_hashes)
next
  case (added_old st t h)
  have "race_ok (goes_to st t Added)"
    by (rule race_ok_local [OF added_old(2,1)]) (use race_okD(4) [OF added_old(2,1)] in \<open>simp_all add: thread_ok_def\<close>)
  then show ?case using added_old(1) by (simp add: goes_to_hashes)
qed

lemma filter_run_ok:
  assumes "filter_step\<^sup>*\<^sup>* st0 st" and "race_ok st0"
  shows "race_ok st \<and> rc_max st = rc_max st0 \<and> length (rc_bits st) = length (rc_bits st0)
    \<and> bits_set (rc_bits st0) \<subseteq> bits_set (rc_bits st) \<and> map fst (rc_threads st) = map fst (rc_threads st0)"
  using assms
proof (induction rule: rtranclp_induct)
  case (step st1 st2)
  then show ?case using filter_step_ok [OF step(2)] by auto
qed simp

subsection \<open>Termination\<close>

text \<open>
  What is left to do for a thread.  A swap whose word was changed has to load again; another thread's
  successful swap can do this to every thread, but it has set a bit for good.
\<close>

fun weight :: "u64 list \<Rightarrow> u64 \<times> filter_pc \<Rightarrow> int" where
  "weight bits (h, Contains i) = 20 - int i"
| "weight bits (h, CheckSize) = 14"
| "weight bits (h, AddLoad i new) = 3 * (4 - int i) + 1"
| "weight bits (h, AddSwap i new v) = 3 * (4 - int i) + (if bits ! (position (length bits) h i div 64) = v then 0 else 2)"
| "weight bits (h, _) = 0"

definition potential :: "race \<Rightarrow> int" where
  "potential st = 2 * int (length (rc_threads st)) * (64 * int (length (rc_bits st)) - int (card (bits_set (rc_bits st))))
     + (\<Sum>th \<leftarrow> rc_threads st. weight (rc_bits st) th)"

lemma bits_set_bound: "bits_set bits \<subseteq> {..<64 * length bits}"
  by (auto simp: bits_set_def less_mult_imp_div_less)

lemma card_bits_bound: "card (bits_set bits) \<le> 64 * length bits"
  using card_mono [OF _ bits_set_bound [of bits]] by simp

lemma weight_bounds:
  assumes "thread_ok bits th"
  shows "0 \<le> weight bits th" "weight bits th \<le> 20" "weight bits' th \<le> weight bits th + 2"
proof -
  obtain h pc where "th = (h, pc)" by force
  then show "0 \<le> weight bits th" "weight bits th \<le> 20" "weight bits' th \<le> weight bits th + 2"
    using assms by (cases pc; simp add: thread_ok_def)+
qed

lemma sum_list_le_add: "(\<And>x. x \<in> set xs \<Longrightarrow> f x \<le> g x + c) \<Longrightarrow> (\<Sum>x \<leftarrow> xs. f x) \<le> (\<Sum>x \<leftarrow> xs. g x) + int (length xs) * c"
  for f g :: "'a \<Rightarrow> int"
proof (induction xs)
  case (Cons x xs)
  then show ?case using Cons.prems [of x] Cons.IH by (force simp: algebra_simps)
qed simp

lemma sum_list_bounds:
  "(\<And>x. x \<in> set xs \<Longrightarrow> 0 \<le> f x \<and> f x \<le> c) \<Longrightarrow> 0 \<le> (\<Sum>x \<leftarrow> xs. f x) \<and> (\<Sum>x \<leftarrow> xs. f x) \<le> int (length xs) * c"
  for f :: "'a \<Rightarrow> int"
proof (induction xs)
  case (Cons x xs)
  then show ?case using Cons.prems [of x] Cons.IH by (force simp: algebra_simps)
qed simp

lemma potential_bounds:
  assumes "race_ok st"
  shows "0 \<le> potential st" "potential st \<le> int (length (rc_threads st)) * (128 * int (length (rc_bits st)) + 20)"
proof -
  let ?T = "int (length (rc_threads st))" and ?L = "int (length (rc_bits st))" and ?C = "int (card (bits_set (rc_bits st)))"
  have w: "0 \<le> (\<Sum>th \<leftarrow> rc_threads st. weight (rc_bits st) th) \<and> (\<Sum>th \<leftarrow> rc_threads st. weight (rc_bits st) th) \<le> ?T * 20"
    by (rule sum_list_bounds) (use assms weight_bounds in \<open>auto simp: race_ok_def\<close>)
  have c: "0 \<le> ?C" "?C \<le> 64 * ?L" using card_bits_bound [of "rc_bits st"] by simp_all
  have "0 \<le> 2 * ?T * (64 * ?L - ?C)" using c by simp
  moreover have "2 * ?T * (64 * ?L - ?C) \<le> 128 * ?T * ?L" by (simp add: algebra_simps)
  moreover have "?T * (128 * ?L + 20) = 128 * ?T * ?L + ?T * 20" by (simp add: algebra_simps)
  ultimately show "0 \<le> potential st" "potential st \<le> ?T * (128 * ?L + 20)"
    using w unfolding potential_def by linarith+
qed

lemma potential_local:
  assumes "at_pc st t h pc" and "weight (rc_bits st) (h, pc') < weight (rc_bits st) (h, pc)"
    and "rc_threads st' = rc_threads st" and "rc_bits st' = rc_bits st"
  shows "potential (goes_to st' t pc') < potential st"
  using assms goes_to_threads [OF assms(1,3), of pc'] by (simp add: potential_def at_pc_def map_update sum_list_update_int)

lemma potential_swap:
  assumes ok: "race_ok st" and pc: "at_pc st t h (AddSwap i new v)"
    and bp: "bit_position (rc_bits st) h (of_nat i) = Inr (w, m)" and eq: "rc_bits st ! w = v"
  shows "potential (goes_to (set_word st w (v OR m)) t (AddLoad (Suc i) True)) < potential st"
proof -
  let ?b = "rc_bits (set_word st w (v OR m))" and ?ths = "rc_threads st"
  note s = swap_ok [OF ok pc bp eq]
  have th: "thread_ok (rc_bits st) (h, AddSwap i new v)" by (rule race_okD(4) [OF ok pc])
  have t: "t < length ?ths" "?ths ! t = (h, AddSwap i new v)" using pc by (simp_all add: at_pc_def)
  have "(\<Sum>th \<leftarrow> ?ths. weight ?b th) \<le> (\<Sum>th \<leftarrow> ?ths. weight (rc_bits st) th) + int (length ?ths) * 2"
    by (rule sum_list_le_add) (use ok weight_bounds(3) in \<open>auto simp: race_ok_def\<close>)
  moreover have "3 * (4 - int i) \<le> weight ?b (h, AddSwap i new v)" by simp
  moreover have "weight ?b (h, AddLoad (Suc i) True) = 3 * (4 - int i) - 2" by simp
  moreover have "(\<Sum>th \<leftarrow> ?ths[t := (h, AddLoad (Suc i) True)]. weight ?b th)
      = (\<Sum>th \<leftarrow> ?ths. weight ?b th) - weight ?b (h, AddSwap i new v) + weight ?b (h, AddLoad (Suc i) True)"
    using t by (simp add: map_update sum_list_update_int)
  moreover have "card (bits_set ?b) = card (bits_set (rc_bits st)) + 1" using s race_okD(3) [OF ok] by simp
  moreover have "length ?b = length (rc_bits st)" by simp
  ultimately show ?thesis
    unfolding potential_def goes_to_threads [OF pc refl] goes_to_threads [OF pc, of "set_word st w (v OR m)", simplified]
    by (simp add: algebra_simps)
qed

lemma filter_step_decreases:
  assumes "filter_step st st'" and "race_ok st"
  shows "potential st' < potential st"
  using assms
proof (induction rule: filter_step.induct)
  case (contains_miss st t h i w m)
  then show ?case by (intro potential_local [OF contains_miss(1)]) simp_all
next
  case (swap st t h i new v w m)
  then show ?case using potential_swap by blast
next
  case (swap_fails st t h i new v w m)
  have "weight (rc_bits st) (h, AddLoad i new) < weight (rc_bits st) (h, AddSwap i new v)"
    using masked_position(2) [OF race_okD(1) [OF swap_fails(4)] swap_fails(2)] swap_fails(3) by auto
  then show ?case by (intro potential_local [OF swap_fails(1)]) simp_all
next
  case (load_clear st t h i new w m)
  have "weight (rc_bits st) (h, AddSwap i new (rc_bits st ! w)) < weight (rc_bits st) (h, AddLoad i new)"
    using masked_position(2) [OF race_okD(1) [OF load_clear(5)] load_clear(3)] by simp
  then show ?case by (intro potential_local [OF load_clear(1)]) simp_all
next
  case (added_new st t h)
  have "potential (goes_to (grow st) t Added) < potential st" by (intro potential_local [OF added_new(1)]) simp_all
  then show ?case .
qed (erule potential_local; simp)+

lemma filter_runs_bounded:
  assumes "(filter_step ^^ n) st0 st" and "race_ok st0"
  shows "race_ok st \<and> potential st + int n \<le> potential st0"
  using assms
proof (induction n arbitrary: st)
  case (Suc n)
  then obtain st1 where "(filter_step ^^ n) st0 st1" "filter_step st1 st" by auto
  then show ?case using Suc filter_step_ok [of st1 st] filter_step_decreases [of st1 st] by fastforce
qed simp

definition finished :: "filter_pc \<Rightarrow> bool" where
  "finished pc \<longleftrightarrow> pc \<in> {Known, Added, PassedThrough}"

lemma thread_progress:
  assumes "race_ok st" and "at_pc st t h pc" and "\<not> finished pc"
  shows "\<exists>st'. filter_step st st'"
proof -
  note th = race_okD(4) [OF assms(1,2)]
  obtain w m where bp: "bit_position (rc_bits st) h (of_nat i) = Inr (w i, m i)" for i
    using that [of "\<lambda>i. position (length (rc_bits st)) h i div 64" "\<lambda>i. push_bit (position (length (rc_bits st)) h i mod 64) 1"]
      bit_position_ok [OF race_okD(1) [OF assms(1)], of h] by blast
  show ?thesis
  proof (cases pc)
    case (Contains i)
    note at = assms(2) [unfolded Contains]
    show ?thesis
    proof (cases "i < hashes_count")
      case True
      show ?thesis using filter_step.contains_hit [OF at True bp] filter_step.contains_miss [OF at True bp] by blast
    next
      case False
      then have "i = hashes_count" using th Contains by (simp add: thread_ok_def)
      then show ?thesis using filter_step.contains_all at by blast
    qed
  next
    case CheckSize
    show ?thesis
      using filter_step.room [OF assms(2) [unfolded CheckSize]] filter_step.full [OF assms(2) [unfolded CheckSize]] linorder_not_less by blast
  next
    case (AddLoad i new)
    note at = assms(2) [unfolded AddLoad]
    show ?thesis
    proof (cases "i < hashes_count")
      case True
      show ?thesis using filter_step.load_set [OF at True bp] filter_step.load_clear [OF at True bp] by blast
    next
      case False
      then have "i = hashes_count" using th AddLoad by (simp add: thread_ok_def)
      then show ?thesis using filter_step.added_new [of st t h] filter_step.added_old [of st t h] at by (cases new) auto
    qed
  next
    case (AddSwap i new v)
    show ?thesis using filter_step.swap [OF assms(2) [unfolded AddSwap] bp] filter_step.swap_fails [OF assms(2) [unfolded AddSwap] bp] by blast
  qed (use assms(3) in \<open>simp_all add: finished_def\<close>)
qed

subsection \<open>What a thread knows\<close>

definition race_start :: "bloom \<Rightarrow> int \<Rightarrow> u64 list \<Rightarrow> race" where
  "race_start f n hs = \<lparr>rc_bloom = f, rc_max = n, rc_threads = map (\<lambda>h. (h, Contains 0)) hs\<rparr>"

lemma race_start_ok:
  assumes "bloom_ok n f" and "bf_size f \<le> n"
  shows "race_ok (race_start f n hs)"
proof -
  have "(\<Sum>h \<leftarrow> hs. 0 :: int) = 0" by simp
  then show ?thesis using assms by (auto simp: race_ok_def race_start_def bloom_ok_def thread_ok_def comp_def)
qed

text \<open>A thread that looks up a fingerprint the filter has will find it.\<close>

lemma known_stays_known:
  assumes "filter_step st st'" and "race_ok st" and "at_pc st t h pc" and "has (rc_bloom st) h" and "pc = Known \<or> (\<exists>i. pc = Contains i)"
  shows "\<exists>pc'. at_pc st' t h pc' \<and> (pc' = Known \<or> (\<exists>i. pc' = Contains i))"
proof -
  have set: "position (length (rc_bits st)) h i \<in> bits_set (rc_bits st)" if "i < hashes_count" for i
    using assms(4) that by (auto simp: has_def positions_def)
  note masked = masked_position(1) [OF race_okD(1) [OF assms(2)]]
  have miss: False if "bit_position (rc_bits st) h (of_nat i) = Inr (w, m)" "rc_bits st ! w AND m = 0" "i < hashes_count" for i w m
    using masked [OF that(1)] that(2) set [OF that(3)] by simp
  show ?thesis
    using assms(1,3,5) miss
    by (cases rule: filter_step.cases) (auto simp: at_pc_def goes_to_def nth_list_update set_word_def grow_def)
qed

lemma known_run:
  assumes "filter_step\<^sup>*\<^sup>* st st'" and "race_ok st" and "at_pc st t h (Contains 0)" and "has (rc_bloom st) h"
  shows "\<exists>pc'. at_pc st' t h pc' \<and> (pc' = Known \<or> (\<exists>i. pc' = Contains i))"
  using assms(1)
proof (induction rule: rtranclp_induct)
  case base
  then show ?case using assms(3) by blast
next
  case (step st1 st2)
  note r = filter_run_ok [OF step(1) assms(2)]
  then have "has (rc_bloom st1) h" using assms(4) by (auto simp: has_def)
  then show ?case using known_stays_known [OF step(2) conjunct1 [OF r]] step(3) by blast
qed

subsection \<open>The atomic operation is a run\<close>

lemma probes_from:
  assumes "Suc k \<le> 4"
  shows "4 - Suc k < 4" "Suc (4 - Suc k) = 4 - k" "[4 - Suc k..<4] = (4 - Suc k) # [4 - k..<4]"
proof -
  show i: "4 - Suc k < 4" "Suc (4 - Suc k) = 4 - k" using assms by simp_all
  show "[4 - Suc k..<4] = (4 - Suc k) # [4 - k..<4]" using upt_conv_Cons [OF i(1)] unfolding i(2) .
qed

lemma contains_is_run:
  assumes "race_ok st" and "at_pc st t h (Contains (4 - k))" and "k \<le> 4"
  shows "\<exists>b. contains_loop (rc_bits st) h (map of_nat [4 - k..<4]) = Inr b
    \<and> filter_step\<^sup>*\<^sup>* st (goes_to st t (if b then Known else CheckSize))"
  using assms
proof (induction k arbitrary: st)
  case 0
  then show ?case using filter_step.contains_all [of st t h] by auto
next
  case (Suc k)
  let ?i = "4 - Suc k"
  have i: "?i < hashes_count" "Suc ?i = 4 - k" "[?i..<4] = ?i # [4 - k..<4]" using probes_from [of k] Suc.prems(3) by simp_all
  obtain w m where bp: "bit_position (rc_bits st) h (of_nat ?i) = Inr (w, m)"
    using bit_position_ok [OF race_okD(1) [OF Suc.prems(1)], of h] by blast
  show ?case
  proof (cases "rc_bits st ! w AND m = 0")
    case True
    then show ?thesis using filter_step.contains_miss [OF Suc.prems(2) i(1) bp True] bp i(3) by (intro exI [of _ False]) auto
  next
    case False
    let ?st = "goes_to st t (Contains (4 - k))"
    have s: "filter_step st ?st" using filter_step.contains_hit [OF Suc.prems(2) i(1) bp False] unfolding i(2) .
    have "at_pc ?st t h (Contains (4 - k))" using Suc.prems(2) by (simp add: at_pc_def goes_to_def)
    from Suc.IH [OF conjunct1 [OF filter_step_ok [OF s Suc.prems(1)]] this] Suc.prems(3) obtain b
      where b: "contains_loop (rc_bits st) h (map of_nat [4 - k..<4]) = Inr b"
        "filter_step\<^sup>*\<^sup>* ?st (goes_to ?st t (if b then Known else CheckSize))" by auto
    have "goes_to ?st t pc = goes_to st t pc" for pc using Suc.prems(2) by (simp add: goes_to_def at_pc_def)
    then show ?thesis using b s bp False i(3) converse_rtranclp_into_rtranclp [OF s b(2)] by (intro exI [of _ b]) auto
  qed
qed

definition with_bits :: "race \<Rightarrow> u64 list \<Rightarrow> race" where
  "with_bits st bits = st\<lparr>rc_bloom := (rc_bloom st)\<lparr>bf_bits := bits\<rparr>\<rparr>"

lemma add_is_run:
  assumes "race_ok st" and "at_pc st t h (AddLoad (4 - k) new)" and "k \<le> 4"
  shows "\<exists>bits new'. fold_err (add_probe h) (rc_bits st, new) (map of_nat [4 - k..<4]) = Inr (bits, new')
    \<and> filter_step\<^sup>*\<^sup>* st (goes_to (with_bits st bits) t (AddLoad 4 new'))"
  using assms
proof (induction k arbitrary: st new)
  case 0
  then have "goes_to (with_bits st (rc_bits st)) t (AddLoad 4 new) = st"
    using list_update_id [of "rc_threads st" t] by (simp add: goes_to_def with_bits_def at_pc_def)
  then show ?case by simp
next
  case (Suc k)
  let ?i = "4 - Suc k"
  have i: "?i < hashes_count" "Suc ?i = 4 - k" "[?i..<4] = ?i # [4 - k..<4]" using probes_from [of k] Suc.prems(3) by simp_all
  obtain w m where bp: "bit_position (rc_bits st) h (of_nat ?i) = Inr (w, m)"
    using bit_position_ok [OF race_okD(1) [OF Suc.prems(1)], of h] by blast
  obtain st1 bits1 new1 where st1: "filter_step\<^sup>*\<^sup>* st st1" "st1 = goes_to (with_bits st bits1) t (AddLoad (4 - k) new1)"
    "add_probe h (rc_bits st, new) (of_nat ?i) = Inr (bits1, new1)"
  proof (cases "rc_bits st ! w AND m = 0")
    case True
    let ?a = "goes_to st t (AddSwap ?i new (rc_bits st ! w))"
    have at: "at_pc ?a t h (AddSwap ?i new (rc_bits st ! w))" using Suc.prems(2) by (simp add: at_pc_def goes_to_def)
    have s1: "filter_step st ?a" by (rule filter_step.load_clear [OF Suc.prems(2) i(1) bp True])
    have "filter_step ?a (goes_to (set_word ?a w (rc_bits st ! w OR m)) t (AddLoad (Suc ?i) True))"
      by (rule filter_step.swap [OF at]) (use bp in simp_all)
    moreover have "goes_to (set_word ?a w (rc_bits st ! w OR m)) t (AddLoad (Suc ?i) True)
        = goes_to (with_bits st ((rc_bits st)[w := rc_bits st ! w OR m])) t (AddLoad (4 - k) True)"
      unfolding i(2) using Suc.prems(2) by (simp add: goes_to_def set_word_def with_bits_def at_pc_def)
    ultimately have "filter_step\<^sup>*\<^sup>* st (goes_to (with_bits st ((rc_bits st)[w := rc_bits st ! w OR m])) t (AddLoad (4 - k) True))"
      using s1 by (metis rtranclp.simps)
    then show ?thesis using that bp True by (simp add: add_probe_def)
  next
    case False
    have "goes_to (with_bits st (rc_bits st)) t (AddLoad (4 - k) new) = goes_to st t (AddLoad (4 - k) new)"
      by (simp add: goes_to_def with_bits_def)
    then show ?thesis
      using that [OF _ refl, of "rc_bits st" new] filter_step.load_set [OF Suc.prems(2) i(1) bp False] bp False
      unfolding i(2) by (auto simp: add_probe_def)
  qed
  have at1: "at_pc st1 t h (AddLoad (4 - k) new1)" using Suc.prems(2) by (simp add: st1(2) at_pc_def goes_to_def with_bits_def)
  have "rc_bits st1 = bits1" by (simp add: st1(2) with_bits_def)
  moreover have "goes_to (with_bits st1 bits) t pc = goes_to (with_bits st bits) t pc" for bits pc
    using Suc.prems(2) by (simp add: st1(2) goes_to_def with_bits_def at_pc_def)
  ultimately obtain bits new' where "fold_err (add_probe h) (bits1, new1) (map of_nat [4 - k..<4]) = Inr (bits, new')"
    "filter_step\<^sup>*\<^sup>* st1 (goes_to (with_bits st bits) t (AddLoad 4 new'))"
    using Suc.IH [OF conjunct1 [OF filter_run_ok [OF st1(1) Suc.prems(1)]] at1] Suc.prems(3) by auto
  then show ?case using st1(1,3) i(3) rtranclp_trans by fastforce
qed

lemma goes_to_twice: "at_pc st t h pc \<Longrightarrow> goes_to (goes_to st t pc1) t pc2 = goes_to st t pc2"
  by (simp add: goes_to_def at_pc_def)

lemma at_pc_goes_to: "at_pc st t h pc \<Longrightarrow> at_pc (goes_to st t pc') t h pc'"
  by (simp add: goes_to_def at_pc_def)

text \<open>A thread that has found its fingerprint missing and sees room.\<close>

lemma check_adds:
  assumes ok: "race_ok st" and at: "at_pc st t h CheckSize" and room: "bf_size (rc_bloom st) < rc_max st"
  shows "\<exists>f' new. bf_add (rc_bloom st) h = Inr (f', new) \<and> filter_step\<^sup>*\<^sup>* st (goes_to (st\<lparr>rc_bloom := f'\<rparr>) t Added)"
proof -
  let ?s1 = "goes_to st t (AddLoad 0 False)"
  have s1: "filter_step st ?s1" by (rule filter_step.room [OF at room])
  obtain bits new' where add: "fold_err (add_probe h) (rc_bits st, False) (map of_nat [0..<4]) = Inr (bits, new')"
    using add_probes_ok [OF race_okD(1) [OF ok], of h False "[0..<4]"] by blast
  let ?f' = "\<lparr>bf_size = bf_size (rc_bloom st) + (if new' then 1 else 0), bf_bits = bits\<rparr>"
  have ba: "bf_add (rc_bloom st) h = Inr (?f', new')" using add by (simp add: bf_add_def)
  let ?s2 = "goes_to (with_bits st bits) t (AddLoad hashes_count new')"
  have s2: "filter_step\<^sup>*\<^sup>* ?s1 ?s2"
    using add_is_run [OF conjunct1 [OF filter_step_ok [OF s1 ok]], of t h 4 False] at_pc_goes_to [OF at, of "AddLoad 0 False"] add at
    by (auto simp: goes_to_def with_bits_def at_pc_def)
  have at2: "at_pc ?s2 t h (AddLoad hashes_count new')" using at by (simp add: at_pc_def goes_to_def with_bits_def)
  have "filter_step ?s2 (goes_to (st\<lparr>rc_bloom := ?f'\<rparr>) t Added)"
    using filter_step.added_new [of ?s2 t h] filter_step.added_old [of ?s2 t h] at2 at
    by (cases new'; cases "rc_bloom st") (simp_all add: goes_to_def grow_def with_bits_def at_pc_def)
  then show ?thesis using s1 s2 ba by (meson converse_rtranclp_into_rtranclp rtranclp.rtrancl_into_rtrancl)
qed

lemma filter_is_run:
  assumes ok: "race_ok st" and at: "at_pc st t h (Contains 0)"
  shows "\<exists>b f' new. bf_contains (rc_bloom st) h = Inr b \<and> bf_add (rc_bloom st) h = Inr (f', new)
    \<and> filter_step\<^sup>*\<^sup>* st (if b then goes_to st t Known
        else if bf_size (rc_bloom st) < rc_max st then goes_to (st\<lparr>rc_bloom := f'\<rparr>) t Added else goes_to st t PassedThrough)"
proof -
  obtain b where b: "bf_contains (rc_bloom st) h = Inr b" "filter_step\<^sup>*\<^sup>* st (goes_to st t (if b then Known else CheckSize))"
    using contains_is_run [OF ok, of t h 4] at by (auto simp: bf_contains_def)
  let ?s0 = "goes_to st t CheckSize"
  have at0: "at_pc ?s0 t h CheckSize" by (rule at_pc_goes_to [OF at])
  have ok0: "race_ok ?s0" by (rule race_ok_local [OF ok at]) (simp_all add: thread_ok_def)
  obtain bits new' where add: "fold_err (add_probe h) (rc_bits st, False) (map of_nat [0..<4]) = Inr (bits, new')"
    using add_probes_ok [OF race_okD(1) [OF ok], of h False "[0..<4]"] by blast
  then obtain f' new where ba: "bf_add (rc_bloom st) h = Inr (f', new)" by (simp add: bf_add_def)
  have "filter_step\<^sup>*\<^sup>* st (if b then goes_to st t Known
      else if bf_size (rc_bloom st) < rc_max st then goes_to (st\<lparr>rc_bloom := f'\<rparr>) t Added else goes_to st t PassedThrough)"
  proof (cases b)
    case False
    then have s0: "filter_step\<^sup>*\<^sup>* st ?s0" using b(2) by simp
    have swap: "goes_to (?s0\<lparr>rc_bloom := f'\<rparr>) t Added = goes_to (st\<lparr>rc_bloom := f'\<rparr>) t Added"
      using at by (simp add: goes_to_def at_pc_def)
    show ?thesis
    proof (cases "bf_size (rc_bloom st) < rc_max st")
      case True
      have "filter_step\<^sup>*\<^sup>* ?s0 (goes_to (?s0\<lparr>rc_bloom := f'\<rparr>) t Added)" using check_adds [OF ok0 at0] True ba by auto
      then show ?thesis using False True rtranclp_trans [OF s0] unfolding swap by simp
    next
      case full: False
      have "filter_step ?s0 (goes_to st t PassedThrough)" using filter_step.full [OF at0] full goes_to_twice [OF at] by simp
      then show ?thesis using False full rtranclp.rtrancl_into_rtrancl [OF s0] by simp
    qed
  qed (use b(2) in simp)
  with b(1) ba show ?thesis by blast
qed

subsection \<open>Properties\<close>

text \<open>C36: However requests interleave in a bloom filter of the deduplicator, no update of a word is lost: what the filter
  knew it knows forever, a series that was found known or was added is known, and one that is looked up after it
  was added never passes.  The number of counted items exceeds the maximum by less than the number of threads,
  and when all are done the filter is valid again, with at most four bits set for every counted item.\<close>

theorem concurrent_filter:
  assumes "bloom_ok n f" and "bf_size f \<le> n" and "filter_step\<^sup>*\<^sup>* (race_start f n hs) st1" and "filter_step\<^sup>*\<^sup>* st1 st"
  shows "(\<forall>h. has f h \<longrightarrow> has (rc_bloom st) h)
    \<and> (\<forall>t h pc. at_pc st t h pc \<and> pc \<in> {Known, Added} \<longrightarrow> has (rc_bloom st) h)
    \<and> (\<forall>t t' h. at_pc st1 t h (Contains 0) \<and> (at_pc st1 t' h Added \<or> has f h)
        \<longrightarrow> (\<exists>pc. at_pc st t h pc \<and> (pc = Known \<or> (\<exists>i. pc = Contains i))))
    \<and> bf_size (rc_bloom st) < n + max 1 (int (length hs))
    \<and> ((\<forall>t h pc. at_pc st t h pc \<longrightarrow> finished pc) \<longrightarrow> bloom_ok n (rc_bloom st))"
proof -
  note ok0 = race_start_ok [OF assms(1,2), of hs]
  note r1 = filter_run_ok [OF assms(3) ok0] and ok1 = conjunct1 [OF filter_run_ok [OF assms(3) ok0]]
  note r = filter_run_ok [OF assms(4) ok1] and ok = conjunct1 [OF filter_run_ok [OF assms(4) ok1]]
  have hashes: "map fst (rc_threads st) = map fst (rc_threads (race_start f n hs))" using r r1 by simp
  have sizes: "rc_max st = n" "length (rc_bits st) = length (bf_bits f)" "length (rc_threads st) = length hs"
    using r r1 map_eq_imp_length_eq [OF hashes] by (simp_all add: race_start_def)
  have h1: "has (rc_bloom st1) h" if "has f h" for h using that r1 by (auto simp: has_def race_start_def)
  have h2: "has (rc_bloom st) h" if "has (rc_bloom st1) h" for h using that r by (auto simp: has_def)
  have fin: "has (rc_bloom s) h" if "race_ok s" "at_pc s t h pc" "pc \<in> {Known, Added}" for s t h pc
    using race_okD(4) [OF that(1,2)] that(3) by (auto simp: thread_ok_def has_def positions_def)
  have "\<exists>pc. at_pc st t h pc \<and> (pc = Known \<or> (\<exists>i. pc = Contains i))"
    if "at_pc st1 t h (Contains 0)" "at_pc st1 t' h Added \<or> has f h" for t t' h
    using known_run [OF assms(4) ok1 that(1)] fin [OF ok1, of t' h Added] h1 [of h] that(2) by blast
  moreover have "bf_size (rc_bloom st) < n + max 1 (int (length hs))"
  proof -
    have "0 \<le> (\<Sum>th \<leftarrow> rc_threads st. adding (snd th))" by (intro sum_list_nonneg) (auto simp: adding_bound)
    then show ?thesis using race_okD(6) [OF ok] sizes by simp
  qed
  moreover have "bloom_ok n (rc_bloom st)" if "\<forall>t h pc. at_pc st t h pc \<longrightarrow> finished pc"
  proof -
    have "uncounted (snd th) = 0" if th: "th \<in> set (rc_threads st)" for th
    proof -
      obtain t where "t < length (rc_threads st)" "rc_threads st ! t = (fst th, snd th)"
        using th unfolding in_set_conv_nth by auto
      then have "finished (snd th)" using \<open>\<forall>t h pc. at_pc st t h pc \<longrightarrow> finished pc\<close> unfolding at_pc_def by blast
      then show ?thesis by (auto simp: finished_def)
    qed
    then have "(\<Sum>th \<leftarrow> rc_threads st. uncounted (snd th)) \<le> (\<Sum>th \<leftarrow> rc_threads st. 0) + int (length (rc_threads st)) * 0"
      by (intro sum_list_le_add) simp
    then show ?thesis using race_okD(1-3,5) [OF ok] sizes(1) by (simp add: bloom_ok_def)
  qed
  moreover have "\<forall>h. has f h \<longrightarrow> has (rc_bloom st) h" using h1 h2 by simp
  moreover have "\<forall>t h pc. at_pc st t h pc \<and> pc \<in> {Known, Added} \<longrightarrow> has (rc_bloom st) h" using fin [OF ok] by blast
  ultimately show ?thesis by (intro conjI allI impI) blast+
qed

text \<open>C37: The retries of the compare-and-swap loop end: whatever the scheduling, requests that work on one filter take a
  bounded number of steps altogether, and as long as one of them is not done it can take a step.\<close>

theorem filter_race_ends:
  assumes "bloom_ok n f" and "bf_size f \<le> n" and "(filter_step ^^ k) (race_start f n hs) st"
  shows "k \<le> length hs * (128 * length (bf_bits f) + 20) \<and> (\<forall>t h pc. at_pc st t h pc \<and> \<not> finished pc \<longrightarrow> (\<exists>st'. filter_step st st'))"
proof -
  let ?s = "race_start f n hs"
  note ok0 = race_start_ok [OF assms(1,2), of hs]
  note r = filter_runs_bounded [OF assms(3) ok0]
  have "int k \<le> potential ?s" using r potential_bounds(1) [of st] by simp
  also have "\<dots> \<le> int (length hs) * (128 * int (length (bf_bits f)) + 20)"
    using potential_bounds(2) [OF ok0] by (simp add: race_start_def)
  also have "\<dots> = int (length hs * (128 * length (bf_bits f) + 20))" by simp
  finally show ?thesis using thread_progress [OF conjunct1 [OF r]] by (simp only: of_nat_le_iff) blast
qed

text \<open>The atomic lookup and insertion of the sequential model are a run of the interleaved one: from every reachable
  state a thread that starts can take consecutive steps to what \<^verbatim>\<open>contains\<close>, the size check and \<^verbatim>\<open>add\<close> compute.\<close>

theorem atomic_filter_is_run:
  assumes "bloom_ok n f" and "bf_size f \<le> n" and "filter_step\<^sup>*\<^sup>* (race_start f n hs) st" and "at_pc st t h (Contains 0)"
  shows "\<exists>b f' new. bf_contains (rc_bloom st) h = Inr b \<and> bf_add (rc_bloom st) h = Inr (f', new)
    \<and> filter_step\<^sup>*\<^sup>* (race_start f n hs) (if b then goes_to st t Known
        else if bf_size (rc_bloom st) < n then goes_to (st\<lparr>rc_bloom := f'\<rparr>) t Added else goes_to st t PassedThrough)"
proof -
  note r = filter_run_ok [OF assms(3) race_start_ok [OF assms(1,2)]]
  then have "rc_max st = n" by (simp add: race_start_def)
  then show ?thesis using filter_is_run [OF conjunct1 [OF r] assms(4)] rtranclp_trans [OF assms(3)] by blast
qed

subsection \<open>Concrete instances\<close>

text \<open>Two threads with the same fingerprint on an empty filter: the first one adds it, then the second one finds it.\<close>

lemma first_adds:
  "\<exists>st. filter_step\<^sup>*\<^sup>* (race_start (new_bloom 10) 10 [5, 5]) st \<and> at_pc st 0 5 Added \<and> at_pc st 1 5 (Contains 0)
    \<and> race_ok st"
proof -
  let ?s = "race_start (new_bloom 10) 10 [5, 5]"
  have ok: "race_ok ?s" by (rule race_start_ok) (use new_bloom_ok [of 10] in simp_all)
  have at: "at_pc ?s 0 5 (Contains 0)" by (simp add: at_pc_def race_start_def)
  have "bf_contains (new_bloom 10) 5 = Inr False"
    using bf_contains_ok [of 10 "new_bloom 10" 5] new_bloom_ok [of 10] empty_bloom_has_nothing [of 10 5] by simp
  then obtain f' where f: "filter_step\<^sup>*\<^sup>* ?s (goes_to (?s\<lparr>rc_bloom := f'\<rparr>) 0 Added)"
    using filter_is_run [OF ok at] new_bloom_ok [of 10] by (auto simp: race_start_def)
  have "at_pc (goes_to (?s\<lparr>rc_bloom := f'\<rparr>) 0 Added) 0 5 Added \<and> at_pc (goes_to (?s\<lparr>rc_bloom := f'\<rparr>) 0 Added) 1 5 (Contains 0)"
    by (simp add: at_pc_def goes_to_def race_start_def)
  then show ?thesis using f conjunct1 [OF filter_run_ok [OF f ok]] by blast
qed

theorem concurrent_filter_witness:
  "\<exists>st. filter_step\<^sup>*\<^sup>* (race_start (new_bloom 10) 10 [5, 5]) st \<and> at_pc st 0 5 Added \<and> has (rc_bloom st) 5
    \<and> (\<exists>pc. at_pc st 1 5 pc \<and> (pc = Known \<or> (\<exists>i. pc = Contains i))) \<and> bf_size (rc_bloom st) < 12"
proof -
  have ok: "bloom_ok 10 (new_bloom 10)" "bf_size (new_bloom 10) \<le> 10" using new_bloom_ok [of 10] by simp_all
  obtain st where st: "filter_step\<^sup>*\<^sup>* (race_start (new_bloom 10) 10 [5, 5]) st" "at_pc st 0 5 Added" "at_pc st 1 5 (Contains 0)"
    using first_adds by blast
  note c = concurrent_filter [OF ok st(1) rtranclp.rtrancl_refl]
  have "has (rc_bloom st) 5" using c st(2) by blast
  moreover have "\<exists>pc. at_pc st 1 5 pc \<and> (pc = Known \<or> (\<exists>i. pc = Contains i))" using st(3) by blast
  moreover have "bf_size (rc_bloom st) < 12" using c by simp
  ultimately show ?thesis using st(1,2) by blast
qed

theorem filter_race_ends_witness:
  "\<exists>k st. (filter_step ^^ k) (race_start (new_bloom 10) 10 [5, 5]) st \<and> at_pc st 0 5 Added \<and> k \<le> 808
    \<and> (\<exists>st'. filter_step st st')"
proof -
  have ok: "bloom_ok 10 (new_bloom 10)" "bf_size (new_bloom 10) \<le> 10" using new_bloom_ok [of 10] by simp_all
  obtain st where st: "filter_step\<^sup>*\<^sup>* (race_start (new_bloom 10) 10 [5, 5]) st" "at_pc st 0 5 Added" "at_pc st 1 5 (Contains 0)"
    using first_adds by blast
  then obtain k where k: "(filter_step ^^ k) (race_start (new_bloom 10) 10 [5, 5]) st" by (auto simp: rtranclp_power)
  have "length (bf_bits (new_bloom 10)) = 3" by (simp add: new_bloom_def new_bits_def bits_words_def bits_per_item_def)
  then have "k \<le> 808" using conjunct1 [OF filter_race_ends [OF ok k]] by simp
  moreover have "\<exists>st'. filter_step st st'"
    using conjunct2 [OF filter_race_ends [OF ok k]] st(3) by (auto simp: finished_def)
  ultimately show ?thesis using k st(2) by blast
qed

theorem atomic_filter_is_run_witness:
  "\<exists>st. filter_step\<^sup>*\<^sup>* (race_start (new_bloom 10) 10 [5, 5]) st \<and> at_pc st 0 5 Added \<and> at_pc st 1 5 Known"
proof -
  have ok: "bloom_ok 10 (new_bloom 10)" "bf_size (new_bloom 10) \<le> 10" using new_bloom_ok [of 10] by simp_all
  obtain st where st: "filter_step\<^sup>*\<^sup>* (race_start (new_bloom 10) 10 [5, 5]) st" "at_pc st 0 5 Added" "at_pc st 1 5 (Contains 0)" "race_ok st"
    using first_adds by blast
  have "has (rc_bloom st) 5" using race_okD(4) [OF st(4,2)] by (simp add: thread_ok_def has_def positions_def)
  then have "bf_contains (rc_bloom st) 5 = Inr True"
    using race_okD(1) [OF st(4)] by (auto simp: bf_contains_def has_def positions_def contains_loop_iff)
  then have run: "filter_step\<^sup>*\<^sup>* (race_start (new_bloom 10) 10 [5, 5]) (goes_to st 1 Known)"
    using atomic_filter_is_run [OF ok st(1,3)] by auto
  then show ?thesis using st(2,3) by (intro exI [of _ "goes_to st 1 Known"]) (simp add: at_pc_def goes_to_def)
qed

subsection \<open>The race of two requests\<close>

text \<open>The deduplicator does not serialise requests: two of them that carry the same new series at the same time can both
  look it up before either adds it, and then it passes twice.\<close>

theorem race_passes_twice:
  assumes "bloom_ok n f" and "bf_size f + 1 < n" and "\<not> has f h"
  shows "\<exists>st. filter_step\<^sup>*\<^sup>* (race_start f n [h, h]) st \<and> at_pc st 0 h Added \<and> at_pc st 1 h Added"
proof -
  let ?s0 = "race_start f n [h, h]"
  let ?s1 = "goes_to ?s0 0 CheckSize"
  let ?s2 = "goes_to ?s1 1 CheckSize"
  have ok0: "race_ok ?s0" by (rule race_start_ok) (use assms in simp_all)
  have miss: "contains_loop (bf_bits f) h (map of_nat [0..<4]) = Inr False"
    using bf_contains_ok [OF assms(1), of h] assms(3) by (simp add: bf_contains_def)
  have s1: "filter_step\<^sup>*\<^sup>* ?s0 ?s1" using contains_is_run [OF ok0, of 0 h 4] miss by (auto simp: at_pc_def race_start_def)
  have ok1: "race_ok ?s1" using filter_run_ok [OF s1 ok0] by simp
  have s2: "filter_step\<^sup>*\<^sup>* ?s1 ?s2" using contains_is_run [OF ok1, of 1 h 4] miss by (auto simp: at_pc_def race_start_def goes_to_def)
  have ok2: "race_ok ?s2" using filter_run_ok [OF s2 ok1] by simp
  have "at_pc ?s2 0 h CheckSize" "bf_size (rc_bloom ?s2) < rc_max ?s2" using assms(2) by (simp_all add: at_pc_def race_start_def goes_to_def)
  from check_adds [OF ok2 this] obtain f1 new where f1: "bf_add f h = Inr (f1, new)"
    "filter_step\<^sup>*\<^sup>* ?s2 (goes_to (?s2\<lparr>rc_bloom := f1\<rparr>) 0 Added)" by (auto simp: race_start_def)
  let ?s3 = "goes_to (?s2\<lparr>rc_bloom := f1\<rparr>) 0 Added"
  have ok3: "race_ok ?s3" using filter_run_ok [OF f1(2) ok2] by simp
  have "bf_size f1 \<le> bf_size f + 1" using bf_add_ok [OF assms(1), of h] f1(1) by (auto split: if_splits)
  then have "at_pc ?s3 1 h CheckSize" "bf_size (rc_bloom ?s3) < rc_max ?s3"
    using assms(2) by (simp_all add: at_pc_def race_start_def goes_to_def)
  from check_adds [OF ok3 this] obtain f2 where s4: "filter_step\<^sup>*\<^sup>* ?s3 (goes_to (?s3\<lparr>rc_bloom := f2\<rparr>) 1 Added)" by blast
  have "filter_step\<^sup>*\<^sup>* ?s0 (goes_to (?s3\<lparr>rc_bloom := f2\<rparr>) 1 Added)" using s1 s2 f1(2) s4 by (meson rtranclp_trans)
  then show ?thesis by (intro exI [of _ "goes_to (?s3\<lparr>rc_bloom := f2\<rparr>) 1 Added"]) (simp add: at_pc_def goes_to_def race_start_def)
qed

theorem race_passes_twice_witness:
  "\<exists>st. filter_step\<^sup>*\<^sup>* (race_start (new_bloom 10) 10 [5, 5]) st \<and> at_pc st 0 5 Added \<and> at_pc st 1 5 Added"
  by (rule race_passes_twice) (use new_bloom_ok [of 10] empty_bloom_has_nothing [of 10 5] in simp_all)

end
