(* ===== verification/Concurrent_Snapshot.thy ===== *)
theory Concurrent_Snapshot
  imports Estimator_Run
begin

section \<open>Snapshots while a bucket changes\<close>

text \<open>
  \<^verbatim>\<open>toSnapshot\<close> gives the lock of a bucket back after it has collected the keys and after every batch.  It keeps
  the two maps it saw first: \<^verbatim>\<open>groups\<close> and \<^verbatim>\<open>prevGroups\<close> are references, an insert changes the map behind
  \<^verbatim>\<open>eb.groups\<close> in place, and a rotation or reset puts new maps into the bucket.  Here the maps are in a store and
  the bucket holds their addresses.  Between two batches any operations of other requests can happen.
\<close>

record shared_bucket =
  sb_bucket :: bucket
  sb_maps :: "(u64, group_sketch) gomap list"
  sb_cur :: nat
  sb_prev :: nat

text \<open>The bucket as it looks through two addresses; its own view uses the ones it holds.\<close>

definition sb_at :: "shared_bucket \<Rightarrow> nat \<Rightarrow> nat \<Rightarrow> bucket" where
  "sb_at st g p = (sb_bucket st)\<lparr>eb_groups := sb_maps st ! g, eb_prev_groups := sb_maps st ! p\<rparr>"

definition sb_view :: "shared_bucket \<Rightarrow> bucket" where
  "sb_view st = sb_at st (sb_cur st) (sb_prev st)"

definition sb_insert ::
  "shared_bucket \<Rightarrow> group_size \<Rightarrow> u64 \<Rightarrow> u64 \<Rightarrow> string list \<Rightarrow> go_panic + shared_bucket \<times> group_size" where
  "sb_insert st gs fp key vals =
     map_sum id (\<lambda>(eb, gs'). (st\<lparr>sb_maps := (sb_maps st)[sb_cur st := eb_groups eb]\<rparr>, gs'))
       (eb_insert (sb_view st) gs fp key vals)"

definition sb_rotate :: "shared_bucket \<Rightarrow> group_size \<Rightarrow> go_panic + shared_bucket \<times> group_size" where
  "sb_rotate st gs =
     map_sum id (\<lambda>gs'. (st\<lparr>sb_prev := sb_cur st, sb_cur := length (sb_maps st), sb_maps := sb_maps st @ [[]]\<rparr>, gs'))
       (rotate_locked gs (eb_idx (sb_bucket st)) (int (length (sb_maps st ! sb_cur st))))"

definition sb_reset :: "shared_bucket \<Rightarrow> group_size \<Rightarrow> go_panic + shared_bucket \<times> group_size" where
  "sb_reset st gs =
     map_sum id (\<lambda>gs'. (st\<lparr>sb_cur := length (sb_maps st), sb_prev := Suc (length (sb_maps st)),
         sb_maps := sb_maps st @ [[], []]\<rparr>, gs'))
       (rotate_locked gs (eb_idx (sb_bucket st)) 0)"

datatype writer = WriteInsert u64 u64 "string list" | WriteRotate | WriteReset

fun sb_step :: "shared_bucket \<times> group_size \<Rightarrow> writer \<Rightarrow> go_panic + shared_bucket \<times> group_size" where
  "sb_step (st, gs) (WriteInsert fp key vals) = sb_insert st gs fp key vals"
| "sb_step (st, gs) WriteRotate = sb_rotate st gs"
| "sb_step (st, gs) WriteReset = sb_reset st gs"

fun eb_write :: "bucket \<times> group_size \<Rightarrow> writer \<Rightarrow> go_panic + bucket \<times> group_size" where
  "eb_write (eb, gs) (WriteInsert fp key vals) = eb_insert eb gs fp key vals"
| "eb_write (eb, gs) WriteRotate = eb_rotate eb gs"
| "eb_write (eb, gs) WriteReset = eb_reset eb gs"

text \<open>
  The loop over the batches of a bucket, with the addresses \<open>g\<close> and \<open>p\<close> of the maps seen at the start and the
  operations that happen before each batch.  The callback gets copies, so only what it is shown matters.
\<close>

fun read_batches ::
  "nat \<Rightarrow> nat \<Rightarrow> u64 list list \<Rightarrow> writer list list \<Rightarrow> sketches_pool \<Rightarrow> shared_bucket \<times> group_size
   \<Rightarrow> go_panic + (u64, snapshot_sketch) gomap list \<times> shared_bucket \<times> group_size" where
  "read_batches g p [] evs pool sg = Inr ([], sg)"
| "read_batches g p (batch # rest) evs pool sg =
     (case fold_err sb_step sg (concat (take 1 evs)) of
        Inl e \<Rightarrow> Inl e
      | Inr sg1 \<Rightarrow>
          (case fold_err (snapshot_key (sb_at (fst sg1) g p)) (pool, []) batch of
             Inl e \<Rightarrow> Inl e
           | Inr (pool1, m) \<Rightarrow>
               map_sum id (\<lambda>(ms, sg2). (m # ms, sg2)) (read_batches g p rest (drop 1 evs) (put_all pool1 m) sg1)))"

definition snapshot_during ::
  "shared_bucket \<times> group_size \<Rightarrow> writer list list \<Rightarrow> sketches_pool
   \<Rightarrow> go_panic + (u64, snapshot_sketch) gomap list \<times> shared_bucket \<times> group_size" where
  "snapshot_during sg evs pool =
     read_batches (sb_cur (fst sg)) (sb_prev (fst sg)) (batches (bucket_keys (sb_view (fst sg)))) evs pool sg"

subsection \<open>The store implements the bucket\<close>

text \<open>A store in a valid state: the two addresses differ, and every map in it holds sketches of one precision.\<close>

definition store_ok :: "shared_bucket \<Rightarrow> bool" where
  "store_ok st \<longleftrightarrow> sb_cur st < length (sb_maps st) \<and> sb_prev st < length (sb_maps st) \<and> sb_cur st \<noteq> sb_prev st
     \<and> (\<forall>m \<in> set (sb_maps st). groups_ok (eb_precision (sb_bucket st)) m) \<and> eb_group_by (sb_bucket st) \<noteq> []"

definition shared_ok :: "shared_bucket \<times> group_size \<Rightarrow> bool" where
  "shared_ok sg \<longleftrightarrow> store_ok (fst sg) \<and> bucket_ok (sb_view (fst sg)) (snd sg) \<and> group_size_ok (snd sg)"

lemma sb_at_simps [simp]:
  "eb_groups (sb_at st g p) = sb_maps st ! g" "eb_prev_groups (sb_at st g p) = sb_maps st ! p"
  "eb_shell (sb_at st g p) = eb_shell (sb_bucket st)" "eb_idx (sb_at st g p) = eb_idx (sb_bucket st)"
  "eb_group_by (sb_at st g p) = eb_group_by (sb_bucket st)" "eb_precision (sb_at st g p) = eb_precision (sb_bucket st)"
  "eb_sketch (sb_at st g p) = eb_sketch (sb_bucket st)" "eb_prev_sketch (sb_at st g p) = eb_prev_sketch (sb_bucket st)"
  by (simp_all add: sb_at_def eb_shell_def)

lemma insert_frame:
  assumes "eb_insert eb gs fp key vals = Inr (eb', gs')" and "eb_group_by eb \<noteq> []"
  shows "eb' = eb\<lparr>eb_groups := eb_groups eb'\<rparr> \<and> map_keys (eb_groups eb) \<subseteq> map_keys (eb_groups eb')"
proof -
  have "eb' = eb \<or> (\<exists>v. eb' = eb\<lparr>eb_groups := AList.update key v (eb_groups eb)\<rparr>)"
    using assms
    by (auto simp: eb_insert_def eb_create_def eb_store_def map_sum_Inr split: option.splits sum.splits bool.splits prod.splits)
  then show ?thesis by (elim disjE exE) (simp_all add: map_keys_update subset_insertI)
qed

lemma insert_grouped:
  assumes "bucket_ok eb gs" and "group_size_ok gs" and "eb_group_by eb \<noteq> []"
  shows "\<exists>eb' gs'. eb_insert eb gs fp key vals = Inr (eb', gs') \<and> bucket_ok eb' gs' \<and> group_size_ok gs' \<and> (eb' = eb \<or> gains eb key fp eb')"
proof -
  consider (known) "key \<in> tracked eb" | (room) "key \<notin> tracked eb" "gs_size gs < gs_limit gs"
    | (full) "key \<notin> tracked eb" "gs_limit gs \<le> gs_size gs" by linarith
  then show ?thesis
  proof cases
    case known
    then show ?thesis using eb_insert_tracked [OF assms(1,3) known, of fp vals] assms(2) by blast
  next
    case room
    then show ?thesis using eb_insert_new_room [OF assms room, of fp vals] by blast
  next
    case full
    then show ?thesis using eb_insert_new_full [OF assms full, of fp vals] by blast
  qed
qed

text \<open>What operations can add to a group, and what a step does to the maps in the store.\<close>

definition written :: "nat \<Rightarrow> u64 \<Rightarrow> writer list \<Rightarrow> (nat \<times> nat) set" where
  "written p k ws = (\<Union>w \<in> set ws. case w of WriteInsert fp key vals \<Rightarrow> if key = k then fp_hits p fp else {} | _ \<Rightarrow> {})"

lemma written_simps [simp]: "written p k [] = {}" "written p k (ws1 @ ws2) = written p k ws1 \<union> written p k ws2"
  by (simp_all add: written_def)

definition store_grows :: "writer list \<Rightarrow> shared_bucket \<Rightarrow> shared_bucket \<Rightarrow> bool" where
  "store_grows ws st st' \<longleftrightarrow> sb_bucket st' = sb_bucket st \<and> length (sb_maps st) \<le> length (sb_maps st')
     \<and> (\<forall>a < length (sb_maps st). map_keys (sb_maps st ! a) \<subseteq> map_keys (sb_maps st' ! a)
        \<and> (\<forall>k. key_group_hits (sb_maps st ! a) k \<subseteq> key_group_hits (sb_maps st' ! a) k
             \<and> key_group_hits (sb_maps st' ! a) k \<subseteq> key_group_hits (sb_maps st ! a) k \<union> written (eb_precision (sb_bucket st)) k ws))"

lemma store_grows_refl: "store_grows [] st st"
  by (simp add: store_grows_def)

lemma store_grows_trans:
  assumes "store_grows ws1 st1 st2" and "store_grows ws2 st2 st3"
  shows "store_grows (ws1 @ ws2) st1 st3"
proof -
  have len: "length (sb_maps st1) \<le> length (sb_maps st3)" and bk: "sb_bucket st3 = sb_bucket st1" "sb_bucket st2 = sb_bucket st1"
    using assms by (simp_all add: store_grows_def)
  have "map_keys (sb_maps st1 ! a) \<subseteq> map_keys (sb_maps st3 ! a) \<and> key_group_hits (sb_maps st1 ! a) k \<subseteq> key_group_hits (sb_maps st3 ! a) k
      \<and> key_group_hits (sb_maps st3 ! a) k \<subseteq> key_group_hits (sb_maps st1 ! a) k \<union> written (eb_precision (sb_bucket st1)) k (ws1 @ ws2)"
    if a: "a < length (sb_maps st1)" for a k
  proof -
    let ?p = "eb_precision (sb_bucket st1)"
    have a2: "a < length (sb_maps st2)" using a assms(1) by (simp add: store_grows_def)
    have s12: "map_keys (sb_maps st1 ! a) \<subseteq> map_keys (sb_maps st2 ! a)" "key_group_hits (sb_maps st1 ! a) k \<subseteq> key_group_hits (sb_maps st2 ! a) k"
      "key_group_hits (sb_maps st2 ! a) k \<subseteq> key_group_hits (sb_maps st1 ! a) k \<union> written ?p k ws1"
      using assms(1) a unfolding store_grows_def by blast+
    have s23: "map_keys (sb_maps st2 ! a) \<subseteq> map_keys (sb_maps st3 ! a)" "key_group_hits (sb_maps st2 ! a) k \<subseteq> key_group_hits (sb_maps st3 ! a) k"
      "key_group_hits (sb_maps st3 ! a) k \<subseteq> key_group_hits (sb_maps st2 ! a) k \<union> written ?p k ws2"
      using assms(2) a2 bk(2) unfolding store_grows_def by simp_all
    show ?thesis
      using order_trans [OF s12(1) s23(1)] order_trans [OF s12(2) s23(2)] order_trans [OF s23(3) Un_mono [OF s12(3) order_refl]]
      by (simp add: Un_assoc)
  qed
  then show ?thesis using len bk(1) by (simp add: store_grows_def)
qed

lemma store_grows_alloc:
  assumes "sb_bucket st' = sb_bucket st" and "sb_maps st' = sb_maps st @ ms"
  shows "store_grows ws st st'"
  using assms by (auto simp: store_grows_def nth_append)

lemma insert_refines:
  assumes "shared_ok (st, gs)"
  shows "\<exists>st' gs'. sb_insert st gs fp key vals = Inr (st', gs') \<and> shared_ok (st', gs')
    \<and> eb_insert (sb_view st) gs fp key vals = Inr (sb_view st', gs') \<and> store_grows [WriteInsert fp key vals] st st'"
proof -
  let ?eb = "sb_view st" and ?p = "eb_precision (sb_bucket st)"
  have ok: "store_ok st" "bucket_ok ?eb gs" "group_size_ok gs" using assms by (simp_all add: shared_ok_def)
  then have gb: "eb_group_by ?eb \<noteq> []" by (simp add: store_ok_def sb_view_def)
  obtain eb' gs' where i: "eb_insert ?eb gs fp key vals = Inr (eb', gs')" "bucket_ok eb' gs'" "group_size_ok gs'"
    "eb' = ?eb \<or> gains ?eb key fp eb'" using insert_grouped [OF ok(2,3) gb, of fp key vals] by blast
  note f = insert_frame [OF i(1) gb]
  let ?st = "st\<lparr>sb_maps := (sb_maps st)[sb_cur st := eb_groups eb']\<rparr>"
  have view: "sb_view ?st = eb'"
  proof -
    have "sb_view ?st = ?eb\<lparr>eb_groups := eb_groups eb'\<rparr>" using ok(1) by (simp add: sb_view_def sb_at_def store_ok_def)
    then show ?thesis using f by simp
  qed
  have "eb_precision eb' = ?p" using arg_cong [OF conjunct1 [OF f], of eb_precision] by (simp add: sb_view_def)
  then have "groups_ok ?p (eb_groups eb')" using bucket_okD(3) [OF i(2)] by simp
  then have "\<forall>m \<in> set ((sb_maps st)[sb_cur st := eb_groups eb']). groups_ok ?p m"
    using ok(1) by (intro ball_list_update) (simp_all add: store_ok_def)
  then have "store_ok ?st" using ok(1) by (simp add: store_ok_def)
  then have sh: "shared_ok (?st, gs')" using i(2,3) view by (simp add: shared_ok_def)
  have "map_keys (sb_maps st ! sb_cur st) \<subseteq> map_keys (eb_groups eb')" using f by (simp add: sb_view_def)
  moreover have "key_group_hits (sb_maps st ! sb_cur st) k \<subseteq> key_group_hits (eb_groups eb') k
      \<and> key_group_hits (eb_groups eb') k \<subseteq> key_group_hits (sb_maps st ! sb_cur st) k \<union> written ?p k [WriteInsert fp key vals]" for k
    using i(4) by (auto simp: gains_def written_def sb_view_def split: if_splits)
  ultimately have "map_keys (sb_maps st ! a) \<subseteq> map_keys (sb_maps ?st ! a) \<and> key_group_hits (sb_maps st ! a) k \<subseteq> key_group_hits (sb_maps ?st ! a) k
      \<and> key_group_hits (sb_maps ?st ! a) k \<subseteq> key_group_hits (sb_maps st ! a) k \<union> written ?p k [WriteInsert fp key vals]"
    if "a < length (sb_maps st)" for a k
    using that by (cases "a = sb_cur st") simp_all
  then have "store_grows [WriteInsert fp key vals] st ?st" by (simp add: store_grows_def)
  then show ?thesis using i(1) sh view by (intro exI [of _ ?st] exI [of _ gs']) (simp add: sb_insert_def)
qed

lemma view_alloc:
  assumes "sb_cur st < length (sb_maps st)"
  shows "sb_view (st\<lparr>sb_prev := sb_cur st, sb_cur := length (sb_maps st), sb_maps := sb_maps st @ [[]]\<rparr>)
      = (sb_view st)\<lparr>eb_prev_groups := eb_groups (sb_view st), eb_groups := []\<rparr>"
    "sb_view (st\<lparr>sb_cur := length (sb_maps st), sb_prev := Suc (length (sb_maps st)), sb_maps := sb_maps st @ [[], []]\<rparr>)
      = (sb_view st)\<lparr>eb_groups := [], eb_prev_groups := []\<rparr>"
  using assms by (simp_all add: sb_view_def sb_at_def nth_append)

lemma rotate_refines:
  assumes "shared_ok (st, gs)"
  shows "\<exists>st' gs'. sb_rotate st gs = Inr (st', gs') \<and> shared_ok (st', gs')
    \<and> eb_rotate (sb_view st) gs = Inr (sb_view st', gs') \<and> store_grows [WriteRotate] st st'"
proof -
  let ?eb = "sb_view st" and ?st = "st\<lparr>sb_prev := sb_cur st, sb_cur := length (sb_maps st), sb_maps := sb_maps st @ [[]]\<rparr>"
  have ok: "store_ok st" "bucket_ok ?eb gs" "group_size_ok gs" using assms by (simp_all add: shared_ok_def)
  have cur: "sb_cur st < length (sb_maps st)" and gb: "eb_group_by ?eb \<noteq> []" using ok(1) by (simp_all add: store_ok_def sb_view_def)
  obtain eb' gs' where r: "eb_rotate ?eb gs = Inr (eb', gs')" "bucket_ok eb' gs'" "group_size_ok gs'"
    using eb_rotate_ok [OF ok(2,3)] by blast
  have v: "eb' = sb_view ?st" "sb_rotate st gs = Inr (?st, gs')"
    using r(1) gb unfolding view_alloc(1) [OF cur] by (auto simp: eb_rotate_def sb_rotate_def sb_view_def split: sum.splits)
  have "store_ok ?st" using ok(1) by (auto simp: store_ok_def)
  then show ?thesis using r v store_grows_alloc [of ?st st "[[]]"] by (auto simp: shared_ok_def)
qed

lemma reset_refines:
  assumes "shared_ok (st, gs)"
  shows "\<exists>st' gs'. sb_reset st gs = Inr (st', gs') \<and> shared_ok (st', gs')
    \<and> eb_reset (sb_view st) gs = Inr (sb_view st', gs') \<and> store_grows [WriteReset] st st'"
proof -
  let ?eb = "sb_view st"
  let ?st = "st\<lparr>sb_cur := length (sb_maps st), sb_prev := Suc (length (sb_maps st)), sb_maps := sb_maps st @ [[], []]\<rparr>"
  have ok: "store_ok st" "bucket_ok ?eb gs" "group_size_ok gs" using assms by (simp_all add: shared_ok_def)
  have cur: "sb_cur st < length (sb_maps st)" and gb: "eb_group_by ?eb \<noteq> []" using ok(1) by (simp_all add: store_ok_def sb_view_def)
  obtain eb' gs' where r: "eb_reset ?eb gs = Inr (eb', gs')" "bucket_ok eb' gs'" "group_size_ok gs'"
    using eb_reset_groups [OF ok(2,3) gb] by blast
  have v: "eb' = sb_view ?st" "sb_reset st gs = Inr (?st, gs')"
    using r(1) gb unfolding view_alloc(2) [OF cur] by (auto simp: eb_reset_def sb_reset_def sb_view_def split: sum.splits)
  have "store_ok ?st" using ok(1) by (auto simp: store_ok_def)
  then show ?thesis using r v store_grows_alloc [of ?st st "[[], []]"] by (auto simp: shared_ok_def)
qed

lemma sb_step_refines:
  assumes "shared_ok sg"
  shows "\<exists>sg'. sb_step sg w = Inr sg' \<and> shared_ok sg' \<and> eb_write (sb_view (fst sg), snd sg) w = Inr (sb_view (fst sg'), snd sg')
    \<and> store_grows [w] (fst sg) (fst sg')"
proof -
  obtain st gs where sg: "sg = (st, gs)" by force
  show ?thesis
    using assms insert_refines [of st gs] rotate_refines [of st gs] reset_refines [of st gs]
    by (cases w) (fastforce simp: sg)+
qed

lemma sb_run_refines:
  assumes "shared_ok sg"
  shows "\<exists>sg'. fold_err sb_step sg ws = Inr sg' \<and> shared_ok sg'
    \<and> fold_err eb_write (sb_view (fst sg), snd sg) ws = Inr (sb_view (fst sg'), snd sg') \<and> store_grows ws (fst sg) (fst sg')"
  using assms
proof (induction ws arbitrary: sg)
  case Nil
  then show ?case by (simp add: store_grows_refl)
next
  case (Cons w ws)
  obtain sg1 where s1: "sb_step sg w = Inr sg1" "shared_ok sg1" "eb_write (sb_view (fst sg), snd sg) w = Inr (sb_view (fst sg1), snd sg1)"
    "store_grows [w] (fst sg) (fst sg1)" using sb_step_refines [OF Cons.prems] by blast
  obtain sg2 where s2: "fold_err sb_step sg1 ws = Inr sg2" "shared_ok sg2"
    "fold_err eb_write (sb_view (fst sg1), snd sg1) ws = Inr (sb_view (fst sg2), snd sg2)" "store_grows ws (fst sg1) (fst sg2)"
    using Cons.IH [OF s1(2)] by blast
  show ?case using s1 s2 store_grows_trans [OF s1(4) s2(4)] by auto
qed

subsection \<open>Reading\<close>

lemma frozen_bucket_ok:
  assumes "store_ok st" and "bucket_ok (sb_view st) gs" and "g < length (sb_maps st)" and "p < length (sb_maps st)"
  shows "\<exists>gs'. bucket_ok (sb_at st g p) gs'"
proof -
  have "groups_ok (eb_precision (sb_bucket st)) (sb_maps st ! g)" "groups_ok (eb_precision (sb_bucket st)) (sb_maps st ! p)"
    using assms(1,3,4) by (simp_all add: store_ok_def)
  then have "bucket_ok (sb_at st g p) (gs\<lparr>gs_bucket_sizes := (gs_bucket_sizes gs)[eb_idx (sb_bucket st) := int (card (tracked (sb_at st g p)))]\<rparr>)"
    using assms(1,2) by (simp add: bucket_ok_def sb_view_def store_ok_def)
  then show ?thesis by blast
qed

text \<open>What a reader of the maps \<open>g\<close> and \<open>p\<close> is entitled to: at least what it saw at the start, at most what was added.\<close>

definition shown_between :: "shared_bucket \<Rightarrow> nat \<Rightarrow> nat \<Rightarrow> writer list \<Rightarrow> u64 \<times> snapshot_sketch \<Rightarrow> bool" where
  "shown_between st g p ws kss \<longleftrightarrow> (case kss of (k, ss) \<Rightarrow>
     sketch_ok (eb_precision (sb_bucket st)) (ss_sketch ss) \<and> group_hits (sb_at st g p) k \<subseteq> sk_hits (ss_sketch ss)
     \<and> sk_hits (ss_sketch ss) \<subseteq> group_hits (sb_at st g p) k \<union> written (eb_precision (sb_bucket st)) k ws)"

lemma shown_between_grows:
  assumes grows: "store_grows ws1 st st1" and a: "g < length (sb_maps st)" "p < length (sb_maps st)"
    and shown: "shown_between st1 g p ws2 kss"
  shows "shown_between st g p (ws1 @ ws2) kss"
proof -
  obtain k ss where kss: "kss = (k, ss)" by force
  let ?p = "eb_precision (sb_bucket st)"
  have bk: "sb_bucket st1 = sb_bucket st" using grows by (simp add: store_grows_def)
  have b: "key_group_hits (sb_maps st ! a) k \<subseteq> key_group_hits (sb_maps st1 ! a) k"
    "key_group_hits (sb_maps st1 ! a) k \<subseteq> key_group_hits (sb_maps st ! a) k \<union> written ?p k ws1" if "a < length (sb_maps st)" for a
    using grows that unfolding store_grows_def by blast+
  have lo: "group_hits (sb_at st g p) k \<subseteq> group_hits (sb_at st1 g p) k"
    unfolding group_hits_def sb_at_simps by (rule Un_mono [OF b(1) [OF a(1)] b(1) [OF a(2)]])
  have hi: "group_hits (sb_at st1 g p) k \<subseteq> group_hits (sb_at st g p) k \<union> written ?p k ws1"
    using Un_mono [OF b(2) [OF a(1)] b(2) [OF a(2)]] unfolding group_hits_def sb_at_simps by blast
  have s: "sketch_ok ?p (ss_sketch ss)" "group_hits (sb_at st1 g p) k \<subseteq> sk_hits (ss_sketch ss)"
    "sk_hits (ss_sketch ss) \<subseteq> group_hits (sb_at st1 g p) k \<union> written ?p k ws2"
    using shown unfolding shown_between_def kss bk by simp_all
  show ?thesis
    unfolding shown_between_def kss using s(1) order_trans [OF lo s(2)] order_trans [OF s(3) Un_mono [OF hi order_refl]]
    by (simp add: Un_assoc)
qed

lemma tracked_grows:
  assumes "store_grows ws st st1" and "g < length (sb_maps st)" and "p < length (sb_maps st)"
  shows "tracked (sb_at st g p) \<subseteq> tracked (sb_at st1 g p)"
  using assms unfolding tracked_def sb_at_simps store_grows_def by (intro Un_mono) blast+

lemma read_batches_ok:
  assumes "shared_ok sg" and "g < length (sb_maps (fst sg))" and "p < length (sb_maps (fst sg))"
    and "set (concat bs) \<subseteq> tracked (sb_at (fst sg) g p)" and "distinct (concat bs)"
    and "pool_ok (eb_precision (sb_bucket (fst sg))) pool"
  shows "\<exists>ms sg'. read_batches g p bs evs pool sg = Inr (ms, sg') \<and> map (map fst) ms = bs
    \<and> (\<forall>kss \<in> set (concat ms). shown_between (fst sg) g p (concat evs) kss)
    \<and> fold_err sb_step sg (concat (take (length bs) evs)) = Inr sg' \<and> shared_ok sg'"
  using assms
proof (induction bs arbitrary: sg evs pool)
  case Nil
  then show ?case by simp
next
  case (Cons b bs)
  let ?st = "fst sg" and ?ws = "concat (take 1 evs)"
  obtain sg1 where s1: "fold_err sb_step sg ?ws = Inr sg1" "shared_ok sg1" "store_grows ?ws ?st (fst sg1)"
    using sb_run_refines [OF Cons.prems(1), of ?ws] by blast
  have bk: "sb_bucket (fst sg1) = sb_bucket ?st" and len: "g < length (sb_maps (fst sg1))" "p < length (sb_maps (fst sg1))"
    using s1(3) Cons.prems(2,3) by (simp_all add: store_grows_def)
  note tr = tracked_grows [OF s1(3) Cons.prems(2,3)]
  obtain gs where fz: "bucket_ok (sb_at (fst sg1) g p) gs"
    using frozen_bucket_ok [OF _ _ len, of "snd sg1"] s1(2) by (auto simp: shared_ok_def)
  have "set b \<subseteq> tracked (sb_at (fst sg1) g p)" using Cons.prems(4) tr by auto
  moreover have "distinct (map fst [] @ b)" using Cons.prems(5) by simp
  moreover have "pool_ok (eb_precision (sb_at (fst sg1) g p)) pool" using Cons.prems(6) bk by simp
  ultimately obtain pool1 m where m: "fold_err (snapshot_key (sb_at (fst sg1) g p)) (pool, []) b = Inr (pool1, m)"
    "pool_ok (eb_precision (sb_bucket ?st)) pool1" "map fst m = b"
    "shows_groups (eb_precision (sb_bucket ?st)) (group_hits (sb_at (fst sg1) g p)) m"
    using snapshot_batch_ok [OF fz, of b "[]" pool] bk by (auto simp: shows_groups_def)
  have pool: "pool_ok (eb_precision (sb_bucket (fst sg1))) (put_all pool1 m)" using put_all_ok [OF m(2,4)] bk by simp
  have keys: "set (concat bs) \<subseteq> tracked (sb_at (fst sg1) g p)" "distinct (concat bs)" using Cons.prems(4,5) tr by auto
  obtain ms sg' where r: "read_batches g p bs (drop 1 evs) (put_all pool1 m) sg1 = Inr (ms, sg')" "map (map fst) ms = bs"
    "\<forall>kss \<in> set (concat ms). shown_between (fst sg1) g p (concat (drop 1 evs)) kss"
    "fold_err sb_step sg1 (concat (take (length bs) (drop 1 evs))) = Inr sg'" "shared_ok sg'"
    using Cons.IH [OF s1(2) len keys pool, of "drop 1 evs"] by blast
  have split: "concat evs = ?ws @ concat (drop 1 evs)" by (simp flip: concat_append)
  have head: "shown_between ?st g p (concat evs) kss" if "kss \<in> set m" for kss
  proof -
    have "shown_between (fst sg1) g p (concat (drop 1 evs)) kss"
      using that m(4) bk unfolding shows_groups_def shown_between_def by auto
    from shown_between_grows [OF s1(3) Cons.prems(2,3) this] show ?thesis unfolding split .
  qed
  have tail: "shown_between ?st g p (concat evs) kss" if "kss \<in> set (concat ms)" for kss
    using shown_between_grows [OF s1(3) Cons.prems(2,3) r(3) [rule_format, OF that]] unfolding split .
  have "concat (take (length (b # bs)) evs) = ?ws @ concat (take (length bs) (drop 1 evs))"
    by (cases evs) simp_all
  then have run: "fold_err sb_step sg (concat (take (length (b # bs)) evs)) = Inr sg'" using s1(1) r(4) by (simp add: fold_err_append)
  have all: "\<forall>kss \<in> set (concat (m # ms)). shown_between ?st g p (concat evs) kss"
  proof
    fix kss assume "kss \<in> set (concat (m # ms))"
    then have "kss \<in> set m \<or> kss \<in> set (concat ms)" by simp
    then show "shown_between ?st g p (concat evs) kss" using head tail by (elim disjE)
  qed
  have "read_batches g p (b # bs) evs pool sg = Inr (m # ms, sg')"
    unfolding read_batches.simps s1(1) sum.case m(1) prod.case r(1) by simp
  moreover have "map (map fst) (m # ms) = b # bs" using m(3) r(2) by simp
  ultimately show ?case using all run r(5) by (intro exI [of _ "m # ms"] exI [of _ sg'] conjI)
qed

text \<open>A bucket that keeps its maps behind references behaves like the bucket of the sequential model, for every
  sequence of inserts, rotations and resets: it never panics, and what its own view shows, and the shared counters,
  are those of the sequential bucket.\<close>

theorem shared_maps_refine:
  assumes "shared_ok sg"
  shows "\<exists>sg'. fold_err sb_step sg ws = Inr sg' \<and> shared_ok sg'
    \<and> fold_err eb_write (sb_view (fst sg), snd sg) ws = Inr (sb_view (fst sg'), snd sg')"
  using sb_run_refines [OF assms] by blast

text \<open>C38: A snapshot of a bucket that is taken batch by batch while other requests insert, rotate and reset between the
  batches never panics: it shows every group that was tracked when it began, exactly once and in batches of at most
  1000; of each group at least what was known then, and nothing but that and what was inserted meanwhile for the
  same key.  The other requests are not disturbed.\<close>

theorem snapshot_during_writes:
  assumes "shared_ok sg" and "pool_ok (eb_precision (sb_bucket (fst sg))) pool"
  shows "\<exists>ms sg'. snapshot_during sg evs pool = Inr (ms, sg') \<and> concat (map (map fst) ms) = bucket_keys (sb_view (fst sg))
    \<and> distinct (concat (map (map fst) ms)) \<and> (\<forall>m \<in> set ms. m \<noteq> [] \<and> length m \<le> 1000)
    \<and> (\<forall>(k, ss) \<in> set (concat ms). group_hits (sb_view (fst sg)) k \<subseteq> sk_hits (ss_sketch ss)
        \<and> sk_hits (ss_sketch ss) \<subseteq> group_hits (sb_view (fst sg)) k \<union> written (eb_precision (sb_bucket (fst sg))) k (concat evs))
    \<and> fold_err sb_step sg (concat (take (length ms) evs)) = Inr sg' \<and> shared_ok sg'"
proof -
  let ?st = "fst sg" and ?bs = "batches (bucket_keys (sb_view (fst sg)))"
  have ok: "store_ok ?st" "bucket_ok (sb_view ?st) (snd sg)" using assms(1) by (simp_all add: shared_ok_def)
  have a: "sb_cur ?st < length (sb_maps ?st)" "sb_prev ?st < length (sb_maps ?st)" using ok(1) by (simp_all add: store_ok_def)
  have keys: "set (concat ?bs) \<subseteq> tracked (sb_at ?st (sb_cur ?st) (sb_prev ?st))" "distinct (concat ?bs)"
    using distinct_bucket_keys [OF ok(2)] by (simp_all add: concat_batches set_bucket_keys sb_view_def)
  from read_batches_ok [OF assms(1) a keys assms(2), of evs] obtain ms sg' where r:
    "snapshot_during sg evs pool = Inr (ms, sg')" "map (map fst) ms = ?bs"
    "\<forall>kss \<in> set (concat ms). shown_between ?st (sb_cur ?st) (sb_prev ?st) (concat evs) kss"
    "fold_err sb_step sg (concat (take (length ?bs) evs)) = Inr sg'" "shared_ok sg'"
    by (auto simp: snapshot_during_def)
  have cm: "concat (map (map fst) ms) = bucket_keys (sb_view ?st)" unfolding r(2) concat_batches ..
  have len: "length ms = length ?bs" using r(2) by (metis length_map)
  have "m \<noteq> [] \<and> length m \<le> 1000" if "m \<in> set ms" for m
  proof -
    have "map fst m \<in> set ?bs" using that r(2) by (metis image_eqI list.set_map)
    from batches_bounds [OF this] show ?thesis by (simp add: batch_size_def)
  qed
  moreover have "case kss of (k, ss) \<Rightarrow> group_hits (sb_view ?st) k \<subseteq> sk_hits (ss_sketch ss)
      \<and> sk_hits (ss_sketch ss) \<subseteq> group_hits (sb_view ?st) k \<union> written (eb_precision (sb_bucket ?st)) k (concat evs)"
    if "kss \<in> set (concat ms)" for kss
    using r(3) [rule_format, OF that] unfolding shown_between_def sb_view_def by (simp add: split_beta)
  ultimately show ?thesis
    using r(1,4,5) len cm distinct_bucket_keys [OF ok(2)] by (intro exI [of _ ms] exI [of _ sg']) simp
qed

subsection \<open>A concrete run\<close>

text \<open>A bucket of the sequential model, with its two maps put into a store of their own.\<close>

definition share_bucket :: "bucket \<Rightarrow> shared_bucket" where
  "share_bucket eb = \<lparr>sb_bucket = eb, sb_maps = [eb_groups eb, eb_prev_groups eb], sb_cur = 0, sb_prev = 1\<rparr>"

lemma share_bucket_ok:
  assumes "bucket_ok eb gs" and "group_size_ok gs" and "eb_group_by eb \<noteq> []"
  shows "shared_ok (share_bucket eb, gs)" and "sb_view (share_bucket eb) = eb"
proof -
  show "sb_view (share_bucket eb) = eb" by (simp add: share_bucket_def sb_view_def sb_at_def)
  then show "shared_ok (share_bucket eb, gs)"
    using assms bucket_okD(3,4) [OF assms(1)] by (simp add: shared_ok_def store_ok_def share_bucket_def)
qed

lemma shared_example:
  "\<exists>eb. new_bucket 0 [''job''] 0 False [] [] 4 True False = Inr eb \<and> shared_ok (share_bucket eb, new_group_size 10 1)
    \<and> sb_view (share_bucket eb) = eb \<and> eb_precision eb = 4 \<and> tracked eb = {}"
proof -
  obtain eb where eb: "new_bucket 0 [''job''] 0 False [] [] 4 True False = Inr eb" "bucket_ok eb (new_group_size 10 1)"
    "eb_shell eb = (0, [''job''], 0, False, [], 4, True, [], False)" "eb_groups eb = []" "eb_prev_groups eb = []"
    using new_bucket_ok [of 4 0 1] by force
  have "eb_group_by eb \<noteq> []" "eb_precision eb = 4" using eb(3) by (simp_all add: eb_shell_def)
  with share_bucket_ok [OF eb(2) new_group_size_ok] eb show ?thesis by (auto simp: tracked_def)
qed

theorem shared_maps_refine_witness:
  "\<exists>eb sg. new_bucket 0 [''job''] 0 False [] [] 4 True False = Inr eb
    \<and> fold_err sb_step (share_bucket eb, new_group_size 10 1) [WriteInsert 1 7 [''a''], WriteRotate, WriteInsert 2 8 [''b''], WriteReset] = Inr sg"
proof -
  obtain eb where eb: "new_bucket 0 [''job''] 0 False [] [] 4 True False = Inr eb" "shared_ok (share_bucket eb, new_group_size 10 1)"
    using shared_example by blast
  from shared_maps_refine [OF eb(2)] eb(1) show ?thesis by blast
qed

text \<open>One group, which the snapshot must show although the bucket is rotated and reset before the batch is read.\<close>

theorem snapshot_during_writes_witness:
  "\<exists>eb sg pool ms sg'. new_bucket 0 [''job''] 0 False [] [] 4 True False = Inr eb
    \<and> fold_err sb_step (share_bucket eb, new_group_size 10 1) [WriteInsert 1 7 [''a'']] = Inr sg
    \<and> new_sketches_pool 4 1 = Inr pool
    \<and> snapshot_during sg [[WriteInsert 2 8 [''b''], WriteRotate, WriteReset]] pool = Inr (ms, sg')
    \<and> concat (map (map fst) ms) = [7]"
proof -
  obtain eb where eb: "new_bucket 0 [''job''] 0 False [] [] 4 True False = Inr eb" "shared_ok (share_bucket eb, new_group_size 10 1)"
    "sb_view (share_bucket eb) = eb" "eb_precision eb = 4" "tracked eb = {}"
    using shared_example by blast
  obtain pool where pool: "new_sketches_pool 4 1 = Inr pool" "pool_ok 4 pool" using new_sketches_pool_ok [of 4 1] by auto
  obtain sg where sg: "fold_err sb_step (share_bucket eb, new_group_size 10 1) [WriteInsert 1 7 [''a'']] = Inr sg" "shared_ok sg"
    "fold_err eb_write (eb, new_group_size 10 1) [WriteInsert 1 7 [''a'']] = Inr (sb_view (fst sg), snd sg)"
    "store_grows [WriteInsert 1 7 [''a'']] (share_bucket eb) (fst sg)"
    using sb_run_refines [OF eb(2), of "[WriteInsert 1 7 [''a'']]"] eb(3) by auto
  have ok: "bucket_ok eb (new_group_size 10 1)" "group_size_ok (new_group_size 10 1)" "eb_group_by eb \<noteq> []"
    using eb(2,3) by (auto simp: shared_ok_def store_ok_def share_bucket_def)
  have t: "tracked (sb_view (fst sg)) = {7}"
    using eb_insert_new_room [OF ok, of 7 1 "[''a'']"] sg(3) eb(5) by (auto simp: new_group_size_def)
  have "set (bucket_keys (sb_view (fst sg))) = {7}" "distinct (bucket_keys (sb_view (fst sg)))"
    using t sg(2) by (auto simp: set_bucket_keys shared_ok_def intro: distinct_bucket_keys)
  then have keys: "bucket_keys (sb_view (fst sg)) = [7]"
    by (cases "bucket_keys (sb_view (fst sg))") (auto simp: subset_singleton_iff)
  have "pool_ok (eb_precision (sb_bucket (fst sg))) pool"
    using pool(2) sg(4) eb(4) by (simp add: store_grows_def share_bucket_def)
  from snapshot_during_writes [OF sg(2) this, of "[[WriteInsert 2 8 [''b''], WriteRotate, WriteReset]]"] eb(1) sg(1) pool(1)
  show ?thesis unfolding keys by blast
qed

end
