(* ===== verification/Concurrent_Reload.thy ===== *)
theory Concurrent_Reload
  imports Dedup_Window
begin

section \<open>Reloading while requests are in flight\<close>

text \<open>
  The comments of \<^verbatim>\<open>loadConfig\<close> say why the deduplicator is reset after the new estimators have been stored: a series
  it knows would otherwise be dropped although the new estimators have never seen it.  A request takes no lock: it
  loads the filter of each series, looks the series up, adds it, then loads the list of estimators once and inserts into
  one after the other.  The goroutine of the reloader stores the new list and replaces the ten filters one by one, and
  the deduplicator's own goroutine replaces filters too.  Here each of these accesses is a step.

  A filter is an object on a heap, since a request keeps the one it has loaded; the ten slots of the deduplicator and
  the requests refer to it by its index.  Looking up in a filter and adding to it are one step each (what happens inside
  is theory \<open>Concurrent_Bloom\<close>).  Estimators are numbered as they are made; of an estimator only matters which series
  it has been given (what it does with them is theory \<open>Estimator\<close>).

  \<open>rr_since\<close> is not a variable of the program: it records how many filters had been made when new estimators were last
  stored, so that the filters from \<open>rr_since\<close> on are those made after that.
\<close>

subsection \<open>The model\<close>

text \<open>A request: with the series still to be filtered and those that passed, or with the estimators still to be visited.\<close>

datatype request_pc =
    Filtering "time_serie list" "time_serie list"
  | Looked nat time_serie "time_serie list" "time_serie list"
  | Unknown nat time_serie "time_serie list" "time_serie list"
  | Inserting "nat list" "time_serie list"
  | Answered

text \<open>A load after its store: the slot it resets next.\<close>

datatype loader_pc = NoLoad | Resetting nat

record reload_race =
  rr_max :: int
  rr_filters :: "bloom list"
  rr_slots :: "nat list"
  rr_active :: "nat list"
  rr_given :: "time_serie set list"
  rr_loader :: loader_pc
  rr_requests :: "request_pc list"
  rr_since :: nat

text \<open>After the start: a new deduplicator and \<open>n\<close> estimators.\<close>

definition start_race :: "deduplicator \<Rightarrow> nat \<Rightarrow> reload_race" where
  "start_race d n =
     \<lparr>rr_max = dd_bucket_max_size d, rr_filters = dd_bfs d, rr_slots = [0..<length (dd_bfs d)], rr_active = [0..<n],
      rr_given = replicate n {}, rr_loader = NoLoad, rr_requests = [], rr_since = 0\<rparr>"

datatype move =
    Arrive "time_serie list"
  | LoadFilter nat
  | LookUp nat
  | AddUnknown nat
  | LoadEstimators nat nat
  | InsertNext nat
  | StoreEstimators "nat list" nat
  | ResetNext
  | RotateSlot nat

definition request_goes :: "nat \<Rightarrow> request_pc \<Rightarrow> reload_race \<Rightarrow> reload_race" where
  "request_goes r pc s = s\<lparr>rr_requests := (rr_requests s)[r := pc]\<rparr>"

definition empty_slot :: "nat \<Rightarrow> reload_race \<Rightarrow> reload_race" where
  "empty_slot i s = s\<lparr>rr_filters := rr_filters s @ [new_bloom (rr_max s)], rr_slots := (rr_slots s)[i := length (rr_filters s)]\<rparr>"

definition load_filter :: "nat \<Rightarrow> time_serie \<Rightarrow> time_serie list \<Rightarrow> time_serie list \<Rightarrow> reload_race \<Rightarrow> go_panic + reload_race" where
  "load_filter r ts todo out s =
     (let j = unat (ts_fingerprint ts mod 10)
      in if length (rr_slots s) \<le> j then Inl IndexOutOfRange else Inr (request_goes r (Looked (rr_slots s ! j) ts todo out) s))"

definition look_up :: "nat \<Rightarrow> nat \<Rightarrow> time_serie \<Rightarrow> time_serie list \<Rightarrow> time_serie list \<Rightarrow> reload_race \<Rightarrow> go_panic + reload_race" where
  "look_up r f ts todo out s =
     map_sum id (\<lambda>known. request_goes r (if known then Filtering todo out else Unknown f ts todo out) s)
       (bf_contains (rr_filters s ! f) (ts_fingerprint ts))"

definition add_unknown :: "nat \<Rightarrow> nat \<Rightarrow> time_serie \<Rightarrow> time_serie list \<Rightarrow> time_serie list \<Rightarrow> reload_race \<Rightarrow> go_panic + reload_race" where
  "add_unknown r f ts todo out s =
     map_sum id (\<lambda>bf. request_goes r (Filtering todo (out @ [ts])) (s\<lparr>rr_filters := (rr_filters s)[f := bf]\<rparr>))
       (if bf_size (rr_filters s ! f) < rr_max s then map_sum id fst (bf_add (rr_filters s ! f) (ts_fingerprint ts))
        else Inr (rr_filters s ! f))"

text \<open>The estimators are visited from a random one on; nothing is inserted when no series passed.\<close>

definition load_estimators :: "nat \<Rightarrow> nat \<Rightarrow> time_serie list \<Rightarrow> reload_race \<Rightarrow> reload_race" where
  "load_estimators r start out s =
     request_goes r (if out = [] then Answered else Inserting (rotate start (rr_active s)) out) s"

definition insert_next :: "nat \<Rightarrow> nat list \<Rightarrow> time_serie list \<Rightarrow> reload_race \<Rightarrow> reload_race" where
  "insert_next r es tss s =
     (case es of
        [] \<Rightarrow> request_goes r Answered s
      | e # rest \<Rightarrow> request_goes r (Inserting rest tss) (s\<lparr>rr_given := (rr_given s)[e := rr_given s ! e \<union> set tss]\<rparr>))"

text \<open>
  \<^verbatim>\<open>loadConfig\<close> stores a list of active and \<open>n\<close> new estimators, and goes on to reset the deduplicator if there
  are new ones.
\<close>

definition store_estimators :: "nat list \<Rightarrow> nat \<Rightarrow> reload_race \<Rightarrow> reload_race" where
  "store_estimators es n s =
     s\<lparr>rr_active := es, rr_given := rr_given s @ replicate n {}, rr_loader := (if 0 < n then Resetting 0 else NoLoad),
       rr_since := (if 0 < n then length (rr_filters s) else rr_since s)\<rparr>"

definition reset_next :: "nat \<Rightarrow> reload_race \<Rightarrow> reload_race" where
  "reset_next i s =
     (if i < length (rr_slots s) then empty_slot i s\<lparr>rr_loader := Resetting (Suc i)\<rparr> else s\<lparr>rr_loader := NoLoad\<rparr>)"

text \<open>\<open>None\<close>: the step is not possible.\<close>

definition request_at :: "reload_race \<Rightarrow> nat \<Rightarrow> request_pc" where
  "request_at s r = (if r < length (rr_requests s) then rr_requests s ! r else Answered)"

fun race_step :: "reload_race \<Rightarrow> move \<Rightarrow> (go_panic + reload_race) option" where
  "race_step s (Arrive tss) = Some (Inr (s\<lparr>rr_requests := rr_requests s @ [Filtering tss []]\<rparr>))"
| "race_step s (LoadFilter r) =
     (case request_at s r of Filtering (ts # todo) out \<Rightarrow> Some (load_filter r ts todo out s) | _ \<Rightarrow> None)"
| "race_step s (LookUp r) =
     (case request_at s r of Looked f ts todo out \<Rightarrow> Some (look_up r f ts todo out s) | _ \<Rightarrow> None)"
| "race_step s (AddUnknown r) =
     (case request_at s r of Unknown f ts todo out \<Rightarrow> Some (add_unknown r f ts todo out s) | _ \<Rightarrow> None)"
| "race_step s (LoadEstimators r start) =
     (case request_at s r of Filtering [] out \<Rightarrow> Some (Inr (load_estimators r start out s)) | _ \<Rightarrow> None)"
| "race_step s (InsertNext r) =
     (case request_at s r of Inserting es tss \<Rightarrow> Some (Inr (insert_next r es tss s)) | _ \<Rightarrow> None)"
| "race_step s (StoreEstimators es n) =
     (if rr_loader s = NoLoad \<and> set es \<subseteq> set (rr_active s) \<union> {length (rr_given s)..<length (rr_given s) + n}
      then Some (Inr (store_estimators es n s)) else None)"
| "race_step s ResetNext = (case rr_loader s of Resetting i \<Rightarrow> Some (Inr (reset_next i s)) | NoLoad \<Rightarrow> None)"
| "race_step s (RotateSlot i) = (if i < length (rr_slots s) then Some (Inr (empty_slot i s)) else None)"

fun race_run :: "reload_race \<Rightarrow> move list \<Rightarrow> (go_panic + reload_race) option" where
  "race_run s [] = Some (Inr s)"
| "race_run s (m # ms) =
     (case race_step s m of
        None \<Rightarrow> None
      | Some (Inl p) \<Rightarrow> Some (Inl p)
      | Some (Inr s') \<Rightarrow> race_run s' ms)"

fun arrived :: "move list \<Rightarrow> time_serie set" where
  "arrived [] = {}"
| "arrived (Arrive tss # ms) = set tss \<union> arrived ms"
| "arrived (_ # ms) = arrived ms"

subsection \<open>What the estimators get\<close>

text \<open>The series a request gives to the estimator \<open>e\<close>, if that is active when it loads the list.\<close>

fun under_way :: "nat \<Rightarrow> request_pc \<Rightarrow> time_serie set" where
  "under_way e (Filtering todo out) = set out"
| "under_way e (Looked f ts todo out) = set out"
| "under_way e (Unknown f ts todo out) = insert ts (set out)"
| "under_way e (Inserting es tss) = (if e \<in> set es then set tss else {})"
| "under_way e Answered = {}"

definition reaches :: "reload_race \<Rightarrow> nat \<Rightarrow> time_serie set" where
  "reaches s e = rr_given s ! e \<union> \<Union> (under_way e ` set (rr_requests s))"

definition delivered :: "reload_race \<Rightarrow> nat \<Rightarrow> u64 set" where
  "delivered s i = {h. unat (h mod 10) = i \<and> (\<exists>ts. ts_fingerprint ts = h \<and> (\<forall>e \<in> set (rr_active s). ts \<in> reaches s e))}"

text \<open>A slot is settled unless a load has stored new estimators and not yet reset it.\<close>

definition settled :: "reload_race \<Rightarrow> nat \<Rightarrow> bool" where
  "settled s i \<longleftrightarrow> (case rr_loader s of NoLoad \<Rightarrow> True | Resetting k \<Rightarrow> i < k)"

text \<open>The series of a request and, while it works on one, the filter it has loaded for it with the slot of the series.\<close>

definition own_slot :: "time_serie \<Rightarrow> nat" where
  "own_slot ts = unat (ts_fingerprint ts mod 10)"

fun series_of :: "request_pc \<Rightarrow> time_serie set" where
  "series_of (Filtering todo out) = set todo \<union> set out"
| "series_of (Looked f ts todo out) = insert ts (set todo \<union> set out)"
| "series_of (Unknown f ts todo out) = insert ts (set todo \<union> set out)"
| "series_of (Inserting es tss) = set tss"
| "series_of Answered = {}"

fun loaded :: "request_pc \<Rightarrow> (nat \<times> nat) set" where
  "loaded (Looked f ts todo out) = {(f, own_slot ts)}"
| "loaded (Unknown f ts todo out) = {(f, own_slot ts)}"
| "loaded _ = {}"

text \<open>The filters in use, each with the slot it is, or was, in.\<close>

definition in_use :: "reload_race \<Rightarrow> (nat \<times> nat) set" where
  "in_use s = (\<lambda>k. (rr_slots s ! k, k)) ` {..<length (rr_slots s)} \<union> \<Union> (loaded ` set (rr_requests s))"

fun visits :: "request_pc \<Rightarrow> nat set" where
  "visits (Inserting es tss) = set es"
| "visits _ = {}"

definition heap_ok :: "nat \<Rightarrow> reload_race \<Rightarrow> bool" where
  "heap_ok len s \<longleftrightarrow> 0 < rr_max s \<and> 10 * rr_max s < 2 ^ 63 \<and> len = length (bf_bits (new_bloom (rr_max s)))
     \<and> (\<forall>f \<in> set (rr_filters s). bloom_ok (rr_max s) f \<and> length (bf_bits f) = len)
     \<and> length (rr_slots s) = 10 \<and> (\<forall>x \<in> in_use s. fst x < length (rr_filters s))
     \<and> rr_since s \<le> length (rr_filters s)"

text \<open>A filter made since new estimators were stored holds only series that reach every active estimator.\<close>

definition filter_ok :: "nat \<Rightarrow> reload_race \<Rightarrow> nat \<Rightarrow> bool" where
  "filter_ok len s f \<longleftrightarrow> (\<exists>i. (\<forall>k. (f, k) \<in> in_use s \<longrightarrow> k = i) \<and> holds len (delivered s i) (rr_filters s ! f))"

definition known_ok :: "nat \<Rightarrow> reload_race \<Rightarrow> bool" where
  "known_ok len s \<longleftrightarrow> (\<forall>f < length (rr_filters s). rr_since s \<le> f \<longrightarrow> filter_ok len s f)
     \<and> (\<forall>i < 10. settled s i \<longrightarrow> rr_since s \<le> rr_slots s ! i)"

definition series_ok :: "time_serie set \<Rightarrow> reload_race \<Rightarrow> bool" where
  "series_ok A s \<longleftrightarrow> (\<forall>q \<in> set (rr_requests s). series_of q \<subseteq> A \<and> visits q \<subseteq> {..<length (rr_given s)})
     \<and> (\<forall>g \<in> set (rr_given s). g \<subseteq> A) \<and> set (rr_active s) \<subseteq> {..<length (rr_given s)}"

definition race_inv :: "nat \<Rightarrow> time_serie set \<Rightarrow> reload_race \<Rightarrow> bool" where
  "race_inv len A s \<longleftrightarrow> heap_ok len s \<and> known_ok len s \<and> series_ok A s"

subsection \<open>Steps of a request\<close>

lemma request_at_in: "request_at s r \<noteq> Answered \<Longrightarrow> r < length (rr_requests s) \<and> rr_requests s ! r = request_at s r \<and> request_at s r \<in> set (rr_requests s)"
  by (auto simp: request_at_def split: if_splits)

lemma delivered_mono:
  assumes "set (rr_active s') \<subseteq> set (rr_active s)" and "\<And>e. e \<in> set (rr_active s') \<Longrightarrow> reaches s e \<subseteq> reaches s' e"
  shows "delivered s i \<subseteq> delivered s' i"
  using assms unfolding delivered_def by blast

text \<open>
  A request that goes on gives what it has already undertaken to give: this suffices for the estimators to get at
  least as much as before.
\<close>

lemma reaches_goes:
  assumes "r < length (rr_requests s)" and "rr_requests s ! r = pc" and "rr_given s ! e \<subseteq> rr_given s' ! e"
    and "rr_requests s' = (rr_requests s)[r := pc']" and "under_way e pc \<subseteq> under_way e pc' \<union> rr_given s' ! e"
  shows "reaches s e \<subseteq> reaches s' e"
proof -
  have "under_way e q \<subseteq> reaches s' e" if q: "q \<in> set (rr_requests s)" for q
  proof -
    obtain k where k: "k < length (rr_requests s)" "rr_requests s ! k = q" using q by (auto simp: in_set_conv_nth)
    have pc': "under_way e pc' \<subseteq> reaches s' e" using assms(1,4) set_update_memI unfolding reaches_def by fastforce
    show ?thesis
    proof (cases "k = r")
      case True
      then show ?thesis using k assms(2,5) pc' by (auto simp: reaches_def)
    next
      case False
      then have "rr_requests s' ! k = q" "k < length (rr_requests s')" using k assms(4) by simp_all
      then have "q \<in> set (rr_requests s')" by (metis nth_mem)
      then show ?thesis by (auto simp: reaches_def)
    qed
  qed
  then show ?thesis using assms(3) by (auto simp: reaches_def)
qed

text \<open>A step that keeps the filters and the load, and takes nothing away from the estimators, keeps the invariant.\<close>

lemma filter_ok_keeps:
  assumes "filter_ok len s f" and "rr_filters s' ! f = rr_filters s ! f" and "\<And>k. (f, k) \<in> in_use s' \<Longrightarrow> (f, k) \<in> in_use s"
    and "\<And>i. delivered s i \<subseteq> delivered s' i"
  shows "filter_ok len s' f"
  using assms(1,3) holds_mono [OF _ assms(4)] unfolding filter_ok_def assms(2) by blast

lemma known_keeps:
  assumes "known_ok len s" and "rr_filters s' = rr_filters s" and "rr_slots s' = rr_slots s" and "rr_since s' = rr_since s"
    and "\<And>i. settled s' i \<Longrightarrow> settled s i" and "\<And>i. delivered s i \<subseteq> delivered s' i" and "in_use s' \<subseteq> in_use s"
  shows "known_ok len s'"
  unfolding known_ok_def assms(2-4)
proof (intro conjI allI impI)
  show "filter_ok len s' f" if "f < length (rr_filters s)" "rr_since s \<le> f" for f
    by (rule filter_ok_keeps [of len s]) (use assms that in \<open>auto simp: known_ok_def\<close>)
  show "rr_since s \<le> rr_slots s ! i" if "i < 10" "settled s' i" for i
    using assms(1,5) that unfolding known_ok_def by blast
qed

lemma goes_simps [simp]:
  "rr_max (request_goes r pc s) = rr_max s" "rr_filters (request_goes r pc s) = rr_filters s"
  "rr_slots (request_goes r pc s) = rr_slots s" "rr_active (request_goes r pc s) = rr_active s"
  "rr_given (request_goes r pc s) = rr_given s" "rr_loader (request_goes r pc s) = rr_loader s"
  "rr_requests (request_goes r pc s) = (rr_requests s)[r := pc]" "rr_since (request_goes r pc s) = rr_since s" "settled (request_goes r pc s) i = settled s i"
  by (simp_all add: request_goes_def settled_def)

lemma request_goes_uses:
  assumes "loaded pc \<subseteq> in_use s"
  shows "in_use (request_goes r pc s) \<subseteq> in_use s"
proof -
  have "set ((rr_requests s)[r := pc]) \<subseteq> insert pc (set (rr_requests s))" by (rule set_update_subset_insert)
  then show ?thesis using assms unfolding in_use_def goes_simps by blast
qed

lemma request_goes_ok:
  assumes "race_inv len A s" and "r < length (rr_requests s)"
    and "\<And>e. e \<in> set (rr_active s) \<Longrightarrow> under_way e (rr_requests s ! r) \<subseteq> under_way e pc"
    and "loaded pc \<subseteq> in_use s" and "series_of pc \<subseteq> A" and "visits pc \<subseteq> {..<length (rr_given s)}"
  shows "race_inv len A (request_goes r pc s)"
proof -
  note inv = assms(1) [unfolded race_inv_def]
  let ?s = "request_goes r pc s"
  have sub: "set ((rr_requests s)[r := pc]) \<subseteq> insert pc (set (rr_requests s))" by (rule set_update_subset_insert)
  have h: "heap_ok len s" and k: "known_ok len s" and a: "series_ok A s" using inv by blast+
  note use = request_goes_uses [OF assms(4), of r]
  have "heap_ok len ?s" using h use unfolding heap_ok_def goes_simps by blast
  moreover have "series_ok A ?s" using a assms(5,6) sub unfolding series_ok_def goes_simps by blast
  moreover have "known_ok len ?s"
  proof (rule known_keeps [of len s])
    show "delivered s i \<subseteq> delivered ?s i" for i
    proof (rule delivered_mono)
      show "reaches s e \<subseteq> reaches ?s e" if "e \<in> set (rr_active ?s)" for e
        by (rule reaches_goes [OF assms(2) refl]) (use assms(3) [of e] that in auto)
    qed simp
  qed (use k use in simp_all)
  ultimately show ?thesis by (simp add: race_inv_def)
qed

lemma race_invD:
  assumes "race_inv len A s"
  shows "heap_ok len s" "known_ok len s" "series_ok A s" "length (rr_slots s) = 10"
    "x \<in> in_use s \<Longrightarrow> fst x < length (rr_filters s)" "k < 10 \<Longrightarrow> (rr_slots s ! k, k) \<in> in_use s"
    "q \<in> set (rr_requests s) \<Longrightarrow> loaded q \<subseteq> in_use s"
    "q \<in> set (rr_requests s) \<Longrightarrow> series_of q \<subseteq> A" "q \<in> set (rr_requests s) \<Longrightarrow> visits q \<subseteq> {..<length (rr_given s)}"
    "f < length (rr_filters s) \<Longrightarrow> bloom_ok (rr_max s) (rr_filters s ! f) \<and> length (bf_bits (rr_filters s ! f)) = len"
    "set (rr_active s) \<subseteq> {..<length (rr_given s)}" "rr_since s \<le> length (rr_filters s)"
proof -
  show h: "heap_ok len s" and "known_ok len s" and a: "series_ok A s" using assms by (simp_all add: race_inv_def)
  show l: "length (rr_slots s) = 10" and "x \<in> in_use s \<Longrightarrow> fst x < length (rr_filters s)" and "rr_since s \<le> length (rr_filters s)"
    using h unfolding heap_ok_def by blast+
  show "k < 10 \<Longrightarrow> (rr_slots s ! k, k) \<in> in_use s" using l by (simp add: in_use_def)
  show "q \<in> set (rr_requests s) \<Longrightarrow> loaded q \<subseteq> in_use s" by (auto simp: in_use_def)
  show "q \<in> set (rr_requests s) \<Longrightarrow> series_of q \<subseteq> A" "q \<in> set (rr_requests s) \<Longrightarrow> visits q \<subseteq> {..<length (rr_given s)}"
    "set (rr_active s) \<subseteq> {..<length (rr_given s)}" using a unfolding series_ok_def by blast+
  have "\<forall>f \<in> set (rr_filters s). bloom_ok (rr_max s) f \<and> length (bf_bits f) = len" using h unfolding heap_ok_def by blast
  then show "f < length (rr_filters s) \<Longrightarrow> bloom_ok (rr_max s) (rr_filters s ! f) \<and> length (bf_bits (rr_filters s ! f)) = len"
    using nth_mem by blast
qed

lemma arrive_ok:
  assumes "race_inv len A s" and "set tss \<subseteq> A"
  shows "race_inv len A (s\<lparr>rr_requests := rr_requests s @ [Filtering tss []]\<rparr>)"
proof -
  let ?s = "s\<lparr>rr_requests := rr_requests s @ [Filtering tss []]\<rparr>"
  note i = race_invD [OF assms(1)]
  have use: "in_use ?s = in_use s" by (simp add: in_use_def)
  have "heap_ok len ?s" using i(1) unfolding heap_ok_def use by simp
  moreover have "series_ok A ?s" using i(3) assms(2) by (auto simp: series_ok_def)
  moreover have "known_ok len ?s"
    by (rule known_keeps [OF i(2)]) (auto simp: settled_def delivered_def reaches_def use)
  ultimately show ?thesis by (simp add: race_inv_def)
qed

lemma load_filter_ok:
  assumes "race_inv len A s" and "request_at s r = Filtering (ts # todo) out"
  shows "\<exists>s'. load_filter r ts todo out s = Inr s' \<and> race_inv len A s'"
proof -
  note i = race_invD [OF assms(1)]
  define j where "j = own_slot ts"
  have r: "r < length (rr_requests s)" "rr_requests s ! r = Filtering (ts # todo) out" "Filtering (ts # todo) out \<in> set (rr_requests s)"
    using request_at_in [of s r] assms(2) by simp_all
  have j: "j < 10" unfolding j_def own_slot_def by (rule own_index_bound)
  have "race_inv len A (request_goes r (Looked (rr_slots s ! j) ts todo out) s)"
    by (rule request_goes_ok [OF assms(1) r(1)]) (use r(2) i(6) [OF j] i(8) [OF r(3)] in \<open>auto simp: j_def\<close>)
  then show ?thesis using j i(4) by (simp add: load_filter_def j_def own_slot_def Let_def)
qed

lemma look_up_ok:
  assumes "race_inv len A s" and "request_at s r = Looked f ts todo out"
  shows "\<exists>s'. look_up r f ts todo out s = Inr s' \<and> race_inv len A s'"
proof -
  note i = race_invD [OF assms(1)]
  have r: "r < length (rr_requests s)" "rr_requests s ! r = Looked f ts todo out" "Looked f ts todo out \<in> set (rr_requests s)"
    using request_at_in [of s r] assms(2) by simp_all
  have f: "(f, own_slot ts) \<in> in_use s" "f < length (rr_filters s)" using i(7) [OF r(3)] i(5) by fastforce+
  have "race_inv len A (request_goes r (if known then Filtering todo out else Unknown f ts todo out) s)" for known
    by (rule request_goes_ok [OF assms(1) r(1)]) (use r(2) i(8) [OF r(3)] f in \<open>auto split: if_splits\<close>)
  then show ?thesis by (simp add: look_up_def bf_contains_ok [OF conjunct1 [OF i(10) [OF f(2)]]])
qed

lemma add_unknown_ok:
  assumes "race_inv len A s" and "request_at s r = Unknown f ts todo out"
  shows "\<exists>s'. add_unknown r f ts todo out s = Inr s' \<and> race_inv len A s'"
proof -
  let ?h = "ts_fingerprint ts" and ?bf = "rr_filters s ! f"
  note i = race_invD [OF assms(1)]
  have r: "r < length (rr_requests s)" "rr_requests s ! r = Unknown f ts todo out" "Unknown f ts todo out \<in> set (rr_requests s)"
    using request_at_in [of s r] assms(2) by simp_all
  have f: "f < length (rr_filters s)" "(f, own_slot ts) \<in> in_use s" using i(7) [OF r(3)] i(5) by fastforce+
  define bf where "bf = (if bf_size ?bf < rr_max s then bf_put ?bf ?h else ?bf)"
  obtain bf' where a: "bf_add ?bf ?h = Inr (bf', \<not> has ?bf ?h)" "bloom_ok (rr_max s) bf'" "length (bf_bits bf') = len"
    using bf_add_ok [of "rr_max s" ?bf ?h] i(10) [OF f(1)] by auto
  let ?s = "s\<lparr>rr_filters := (rr_filters s)[f := bf]\<rparr>"
  have e: "add_unknown r f ts todo out s = Inr (request_goes r (Filtering todo (out @ [ts])) ?s)"
    using a(1) by (simp add: add_unknown_def bf_def bf_put_def)
  have ok: "bloom_ok (rr_max s) bf \<and> length (bf_bits bf) = len" using a i(10) [OF f(1)] by (simp add: bf_def bf_put_def)
  have d: "delivered ?s k = delivered s k" for k by (simp add: delivered_def reaches_def)
  have use: "in_use ?s = in_use s" by (simp add: in_use_def)
  have "filter_ok len ?s g" if g: "g < length (rr_filters s)" "rr_since s \<le> g" for g
  proof -
    have old: "filter_ok len s g" using i(2) g unfolding known_ok_def by blast
    then obtain k where k: "\<forall>l. (g, l) \<in> in_use s \<longrightarrow> l = k" "holds len (delivered s k) (rr_filters s ! g)"
      unfolding filter_ok_def by blast
    show ?thesis
    proof (cases "g = f \<and> bf_size ?bf < rr_max s")
      case True
      have "ts \<in> reaches s e" for e using r(3) by (force simp: reaches_def)
      then have "?h \<in> delivered s k" using True f(2) k(1) by (auto simp: delivered_def own_slot_def)
      then have "holds len (delivered s k) (bf_put ?bf ?h)" using holds_put i(10) [OF f(1)] k(2) True by blast
      moreover have "rr_filters ?s ! g = bf_put ?bf ?h" using True f(1) by (simp add: bf_def)
      ultimately have "holds len (delivered ?s k) (rr_filters ?s ! g)" unfolding d by simp
      then show ?thesis using k(1) unfolding filter_ok_def use by blast
    next
      case False
      then have "rr_filters ?s ! g = rr_filters s ! g" using f(1) by (auto simp: bf_def nth_list_update)
      then show ?thesis by (rule filter_ok_keeps [OF old]) (simp_all add: use d)
    qed
  qed
  moreover have "settled ?s k = settled s k" for k by (simp add: settled_def)
  ultimately have "known_ok len ?s" using i(2) by (simp add: known_ok_def)
  moreover have "heap_ok len ?s"
  proof -
    have "\<forall>g \<in> set ((rr_filters s)[f := bf]). bloom_ok (rr_max s) g \<and> length (bf_bits g) = len"
      using i(1) ok set_update_subset_insert [of "rr_filters s" f bf] unfolding heap_ok_def by blast
    then show ?thesis using i(1) unfolding heap_ok_def use by simp
  qed
  moreover have "series_ok A ?s" using i(3) by (simp add: series_ok_def)
  ultimately have "race_inv len A ?s" by (simp add: race_inv_def)
  then have "race_inv len A (request_goes r (Filtering todo (out @ [ts])) ?s)"
    by (rule request_goes_ok) (use r i(8) [OF r(3)] in auto)
  then show ?thesis using e by blast
qed

lemma load_estimators_ok:
  assumes "race_inv len A s" and "request_at s r = Filtering [] out"
  shows "race_inv len A (load_estimators r start out s)"
proof -
  note i = race_invD [OF assms(1)]
  have r: "r < length (rr_requests s)" "rr_requests s ! r = Filtering [] out" "Filtering [] out \<in> set (rr_requests s)"
    using request_at_in [of s r] assms(2) by simp_all
  show ?thesis unfolding load_estimators_def
    by (rule request_goes_ok [OF assms(1) r(1)]) (use r(2) i(8) [OF r(3)] i(11) in auto)
qed

lemma insert_next_ok:
  assumes "race_inv len A s" and "request_at s r = Inserting es tss"
  shows "race_inv len A (insert_next r es tss s)"
proof -
  note i = race_invD [OF assms(1)]
  have r: "r < length (rr_requests s)" "rr_requests s ! r = Inserting es tss" "Inserting es tss \<in> set (rr_requests s)"
    using request_at_in [of s r] assms(2) by simp_all
  show ?thesis
  proof (cases es)
    case Nil
    then show ?thesis unfolding insert_next_def
      by (simp, intro request_goes_ok [OF assms(1) r(1)]) (use r(2) in simp_all)
  next
    case (Cons e rest)
    let ?given = "(rr_given s)[e := rr_given s ! e \<union> set tss]"
    let ?s = "request_goes r (Inserting rest tss) (s\<lparr>rr_given := ?given\<rparr>)"
    have e: "e < length (rr_given s)" and rest: "set rest \<subseteq> {..<length (rr_given s)}" and tss: "set tss \<subseteq> A"
      using i(8,9) [OF r(3)] Cons by auto
    have req: "set ((rr_requests s)[r := Inserting rest tss]) \<subseteq> insert (Inserting rest tss) (set (rr_requests s))"
      by (rule set_update_subset_insert)
    have use: "in_use ?s \<subseteq> in_use s" using request_goes_uses [of "Inserting rest tss" s r] by (simp add: in_use_def)
    then have "heap_ok len ?s" using i(1) unfolding heap_ok_def by auto
    moreover have "series_ok A ?s"
    proof -
      have "rr_given s ! e \<subseteq> A" using i(3) nth_mem [OF e] unfolding series_ok_def by blast
      then have "\<forall>g \<in> set ?given. g \<subseteq> A"
        using i(3) tss set_update_subset_insert [of "rr_given s" e "rr_given s ! e \<union> set tss"] unfolding series_ok_def by blast
      moreover have "\<forall>q \<in> set (rr_requests ?s). series_of q \<subseteq> A \<and> visits q \<subseteq> {..<length ?given}"

      proof
        fix q assume "q \<in> set (rr_requests ?s)"
        then consider "q = Inserting rest tss" | "q \<in> set (rr_requests s)" using req by auto
        then show "series_of q \<subseteq> A \<and> visits q \<subseteq> {..<length ?given}"
        proof cases
          case 1
          then show ?thesis using tss rest by simp
        next
          case 2
          then show ?thesis using i(8,9) [OF 2] by simp
        qed
      qed
      ultimately show ?thesis using i(11) by (simp add: series_ok_def)
    qed
    moreover have "known_ok len ?s"
    proof (rule known_keeps [OF i(2)])
      show "delivered s k \<subseteq> delivered ?s k" for k
      proof (rule delivered_mono)
        show "reaches s a \<subseteq> reaches ?s a" if "a \<in> set (rr_active ?s)" for a
          by (rule reaches_goes [OF r(1,2)]) (use e Cons in \<open>auto simp: nth_list_update\<close>)
      qed simp
    qed (use use in \<open>simp_all add: settled_def\<close>)
    ultimately show ?thesis by (simp add: race_inv_def insert_next_def Cons)
  qed
qed

subsection \<open>Steps of the goroutines\<close>

lemma store_estimators_ok:
  assumes "race_inv len A s" and "rr_loader s = NoLoad"
    and "set es \<subseteq> set (rr_active s) \<union> {length (rr_given s)..<length (rr_given s) + n}"
  shows "race_inv len A (store_estimators es n s)"
proof -
  let ?s = "store_estimators es n s"
  note i = race_invD [OF assms(1)]
  have use: "in_use ?s = in_use s" by (simp add: in_use_def store_estimators_def)
  have "heap_ok len ?s" using i(1) unfolding heap_ok_def use by (simp add: store_estimators_def)
  moreover have "series_ok A ?s"
    using i(3,8,9,11) assms(3) by (fastforce simp: series_ok_def store_estimators_def)
  moreover have "known_ok len ?s"
  proof (cases "n = 0")
    case True
    have "delivered s k \<subseteq> delivered ?s k" for k
      using assms(3) True by (auto simp: delivered_def reaches_def store_estimators_def)
    then show ?thesis
      by (rule known_keeps [OF i(2), rotated 4]) (use use in \<open>simp_all add: store_estimators_def settled_def assms(2) True\<close>)
  next
    case False
    then show ?thesis by (simp add: known_ok_def settled_def store_estimators_def)
  qed
  ultimately show ?thesis by (simp add: race_inv_def)
qed

text \<open>An empty filter knows nothing, so whatever the loader has still to do, its slot is settled from then on.\<close>

lemma empty_slot_ok:
  assumes "race_inv len A s" and "j < 10" and "\<And>k. k < 10 \<Longrightarrow> k \<noteq> j \<Longrightarrow> settled (s\<lparr>rr_loader := l\<rparr>) k \<Longrightarrow> settled s k"
  shows "race_inv len A (empty_slot j s\<lparr>rr_loader := l\<rparr>)"
proof -
  let ?s = "empty_slot j s\<lparr>rr_loader := l\<rparr>" and ?new = "new_bloom (rr_max s)" and ?n = "length (rr_filters s)"
  note i = race_invD [OF assms(1)]
  have m: "0 < rr_max s" "10 * rr_max s < 2 ^ 63" "len = length (bf_bits ?new)" using i(1) unfolding heap_ok_def by blast+
  have new: "bloom_ok (rr_max s) ?new" "bits_set (bf_bits ?new) = {}" using new_bloom_ok [OF m(1,2)] by simp_all
  have j: "j < length (rr_slots s)" using assms(2) i(4) by simp
  have use: "x \<in> in_use s \<or> x = (?n, j)" if "x \<in> in_use ?s" for x
    using that j by (auto simp: in_use_def empty_slot_def nth_list_update split: if_splits)
  then have "\<forall>x \<in> in_use ?s. fst x < Suc ?n" using i(5) by fastforce
  then have "heap_ok len ?s" using i(1) new(1) m(3) by (simp add: heap_ok_def empty_slot_def ball_Un)
  moreover have "series_ok A ?s" using i(3) by (simp add: series_ok_def empty_slot_def)
  moreover have "known_ok len ?s"
    unfolding known_ok_def
  proof (intro conjI allI impI)
    fix f assume f: "f < length (rr_filters ?s)" "rr_since ?s \<le> f"
    show "filter_ok len ?s f"
    proof (cases "f = ?n")
      case True
      have "holds len (delivered ?s j) (rr_filters ?s ! f)" using True new(2) m(3) by (simp add: empty_slot_def holds_def)
      moreover have "k = j" if "(f, k) \<in> in_use ?s" for k using use [OF that] i(5) True by force
      ultimately show ?thesis unfolding filter_ok_def by blast
    next
      case False
      then have f': "f < ?n" "rr_since s \<le> f" using f by (simp_all add: empty_slot_def)
      then have "filter_ok len s f" using i(2) unfolding known_ok_def by blast
      then show ?thesis
      proof (rule filter_ok_keeps)
        show "rr_filters ?s ! f = rr_filters s ! f" using f'(1) by (simp add: empty_slot_def nth_append)
        show "(f, k) \<in> in_use ?s \<Longrightarrow> (f, k) \<in> in_use s" for k using use f'(1) by force
        show "delivered s k \<subseteq> delivered ?s k" for k by (simp add: delivered_def reaches_def empty_slot_def)
      qed
    qed
  next
    fix k assume k: "k < 10" "settled ?s k"
    show "rr_since ?s \<le> rr_slots ?s ! k"
    proof (cases "k = j")
      case True
      then show ?thesis using j i(12) by (simp add: empty_slot_def)
    next
      case False
      have "settled s k" using assms(3) [OF k(1) False] k(2) by (simp add: settled_def)
      then show ?thesis using i(2) k(1) False unfolding known_ok_def by (simp add: empty_slot_def)
    qed
  qed
  ultimately show ?thesis by (simp add: race_inv_def)
qed

subsection \<open>Every interleaving\<close>

lemma race_step_ok:
  assumes "race_inv len A s" and "arrived [m] \<subseteq> A" and "race_step s m = Some res"
  shows "\<exists>s'. res = Inr s' \<and> race_inv len A s'"
proof (cases m)
  case (Arrive tss)
  then show ?thesis using arrive_ok [OF assms(1), of tss] assms(2,3) by auto
next
  case (LoadFilter r)
  obtain ts todo out where q: "request_at s r = Filtering (ts # todo) out"
    using assms(3) LoadFilter by (auto split: request_pc.splits list.splits)
  then show ?thesis using load_filter_ok [OF assms(1) q] assms(3) LoadFilter by auto
next
  case (LookUp r)
  obtain f ts todo out where q: "request_at s r = Looked f ts todo out"
    using assms(3) LookUp by (auto split: request_pc.splits)
  then show ?thesis using look_up_ok [OF assms(1) q] assms(3) LookUp by auto
next
  case (AddUnknown r)
  obtain f ts todo out where q: "request_at s r = Unknown f ts todo out"
    using assms(3) AddUnknown by (auto split: request_pc.splits)
  then show ?thesis using add_unknown_ok [OF assms(1) q] assms(3) AddUnknown by auto
next
  case (LoadEstimators r start)
  obtain out where q: "request_at s r = Filtering [] out"
    using assms(3) LoadEstimators by (auto split: request_pc.splits list.splits)
  then show ?thesis using load_estimators_ok [OF assms(1) q] assms(3) LoadEstimators by auto
next
  case (InsertNext r)
  obtain es tss where q: "request_at s r = Inserting es tss"
    using assms(3) InsertNext by (auto split: request_pc.splits)
  then show ?thesis using insert_next_ok [OF assms(1) q] assms(3) InsertNext by auto
next
  case (StoreEstimators es n)
  then show ?thesis using store_estimators_ok [OF assms(1), of es n] assms(3) by (auto split: if_splits)
next
  case ResetNext
  obtain i where i: "rr_loader s = Resetting i" using assms(3) ResetNext by (cases "rr_loader s") auto
  have res: "res = Inr (reset_next i s)" using assms(3) ResetNext i by simp
  note inv = race_invD [OF assms(1)]
  show ?thesis
  proof (cases "i < 10")
    case True
    have "race_inv len A (empty_slot i s\<lparr>rr_loader := Resetting (Suc i)\<rparr>)"
      by (rule empty_slot_ok [OF assms(1) True]) (simp add: settled_def i)
    then show ?thesis using res True inv(4) by (simp add: reset_next_def)
  next
    case False
    let ?s = "s\<lparr>rr_loader := NoLoad\<rparr>"
    have set: "settled s k" if "k < 10" for k using that False i by (simp add: settled_def)
    have use: "in_use ?s = in_use s" by (simp add: in_use_def)
    have "filter_ok len ?s f = filter_ok len s f" for f by (simp add: filter_ok_def use delivered_def reaches_def)
    then have "known_ok len ?s" using inv(2) set by (simp add: known_ok_def)
    then have "race_inv len A ?s" using inv(1,3) use by (simp add: race_inv_def heap_ok_def series_ok_def)
    then show ?thesis using res False inv(4) by (simp add: reset_next_def)
  qed
next
  case (RotateSlot i)
  have i: "i < 10" and res: "res = Inr (empty_slot i s)" using assms(3) RotateSlot race_invD(4) [OF assms(1)] by (auto split: if_splits)
  have "rr_loader (empty_slot i s) = rr_loader s" by (simp add: empty_slot_def)
  then have "empty_slot i s\<lparr>rr_loader := rr_loader s\<rparr> = empty_slot i s" by (metis reload_race.surjective reload_race.update_convs(6))
  then show ?thesis using empty_slot_ok [OF assms(1) i, of "rr_loader s"] res by simp
qed

lemma arrived_Cons: "arrived (m # ms) = arrived [m] \<union> arrived ms"
  by (cases m) auto

lemma race_run_ok:
  assumes "race_inv len A s" and "arrived moves \<subseteq> A" and "race_run s moves = Some res"
  shows "\<exists>s'. res = Inr s' \<and> race_inv len A s'"
  using assms
proof (induction moves arbitrary: s)
  case (Cons m moves)
  have A: "arrived [m] \<subseteq> A" "arrived moves \<subseteq> A" using Cons.prems(2) arrived_Cons [of m moves] by auto
  obtain r where r: "race_step s m = Some r" using Cons.prems(3) by (auto split: option.splits)
  obtain s1 where s1: "r = Inr s1" "race_inv len A s1" using race_step_ok [OF Cons.prems(1) A(1) r] by blast
  show ?case using Cons.IH [OF s1(2) A(2)] Cons.prems(3) r s1(1) by simp
qed auto

lemma start_race_ok:
  assumes "new_deduplicator max_size iv = Inr d" and "max_size < 2 ^ 63"
  shows "race_inv (length (bf_bits (new_bloom (max_size div 10)))) A (start_race d n)"
proof -
  note b = new_deduplicator_result(1) [OF assms(1,2)]
  note d = new_deduplicator_result(7,8) [OF assms(1,2)]
  have m: "0 < max_size div 10" "10 * (max_size div 10) < 2 ^ 63" using b assms(2) by (simp_all add: dedup_min_max_size_def)
  note new = new_bloom_ok [OF m]
  let ?s = "start_race d n"
  have use: "in_use ?s = (\<lambda>k. (k, k)) ` {..<10}" by (auto simp: in_use_def start_race_def d)
  then have "heap_ok (length (bf_bits (new_bloom (max_size div 10)))) ?s"
    using m new by (auto simp: heap_ok_def start_race_def d)
  moreover have "filter_ok (length (bf_bits (new_bloom (max_size div 10)))) ?s f" if "f < 10" for f
    using new that unfolding filter_ok_def use by (auto simp: start_race_def d holds_def simp del: replicate.simps)
  then have "known_ok (length (bf_bits (new_bloom (max_size div 10)))) ?s"
    by (simp add: known_ok_def start_race_def d del: replicate.simps)
  moreover have "series_ok A ?s" by (auto simp: series_ok_def start_race_def)
  ultimately show ?thesis by (simp add: race_inv_def)
qed

text \<open>
  The deduplicator may look the series \<open>ts\<close> up in the filter that is present in its slot, or in the filter that a request
  has loaded for it, which may have been replaced since; it drops the series if the filter contains it.
\<close>

definition looks_in :: "reload_race \<Rightarrow> nat \<Rightarrow> time_serie \<Rightarrow> bool" where
  "looks_in s f ts \<longleftrightarrow> f = rr_slots s ! own_slot ts \<or> (\<exists>todo out. Looked f ts todo out \<in> set (rr_requests s))"

definition drops :: "reload_race \<Rightarrow> nat \<Rightarrow> time_serie \<Rightarrow> bool" where
  "drops s f ts \<longleftrightarrow> bf_contains (rr_filters s ! f) (ts_fingerprint ts) = Inr True"

lemma known_reaches:
  assumes "race_inv len A s" and "rr_since s \<le> f" and "looks_in s f ts" and "drops s f ts" and "identified len A ts"
  shows "\<exists>ts'. ts_labels ts' = ts_labels ts \<and> (\<forall>e \<in> set (rr_active s). ts' \<in> reaches s e)"
proof (cases "rr_active s = []")
  case False
  let ?h = "ts_fingerprint ts" and ?j = "own_slot ts"
  note inv = race_invD [OF assms(1)]
  have "?j < 10" unfolding own_slot_def by (rule own_index_bound)
  then have use: "(f, ?j) \<in> in_use s" using assms(3) inv(6,7) unfolding looks_in_def by fastforce
  have f: "f < length (rr_filters s)" using inv(5) [OF use] by simp
  then obtain i where i: "\<forall>k. (f, k) \<in> in_use s \<longrightarrow> k = i" "holds len (delivered s i) (rr_filters s ! f)"
    using inv(2) assms(2) unfolding known_ok_def filter_ok_def by blast
  then have h: "holds len (delivered s ?j) (rr_filters s ! f)" using use by blast
  have "has (rr_filters s ! f) ?h" using assms(4) conjunct1 [OF inv(10) [OF f]] by (simp add: drops_def bf_contains_ok)
  then have c: "covered len (delivered s ?j) ?h" by (rule holds_has [OF h])
  have sub: "reaches s e \<subseteq> A" if "e \<in> set (rr_active s)" for e
  proof -
    have "under_way e q \<subseteq> series_of q" for q by (cases q) auto
    moreover have "rr_given s ! e \<subseteq> A" using inv(3,11) that nth_mem unfolding series_ok_def by blast
    ultimately show ?thesis using inv(8) unfolding reaches_def by blast
  qed
  have "\<exists>ts'. ts_fingerprint ts' = ?h \<and> (\<forall>e \<in> set (rr_active s). ts' \<in> reaches s e)"
  proof (rule ccontr)
    assume none: "\<not> ?thesis"
    obtain e where e: "e \<in> set (rr_active s)" using False by (cases "rr_active s") auto
    have "delivered s ?j \<subseteq> {h \<in> ts_fingerprint ` A. h \<noteq> ?h \<and> unat (h mod 10) = ?j}"
      using none sub [OF e] e unfolding delivered_def by blast
    from covered_mono [OF c this] show False using assms(5) unfolding identified_def own_slot_def by blast
  qed
  then obtain ts' where ts': "ts_fingerprint ts' = ?h" "\<forall>e \<in> set (rr_active s). ts' \<in> reaches s e" by blast
  moreover have "ts' \<in> A" using ts'(2) sub False by (cases "rr_active s") auto
  ultimately show ?thesis using assms(5) unfolding identified_def by blast
qed auto

text \<open>C8: However requests, loads and the deduplicator's goroutine interleave, nothing panics, and a series that is
  looked up in a filter made after new estimators were last stored, and dropped, has been given to every active
  estimator, the new ones included, or is on its way to it in a request in flight; this holds of the filter present in
  the slot of the series and of a filter that a request has loaded for it earlier, and of every series whose probes are
  not covered by those of other fingerprints that have arrived and whose fingerprint no other labels have
  (\<open>identified\<close>: the filter does not confuse it).  The reset provides such filters: once the load has reset a slot (and
  whenever no load is between its store and its reset), the filter in it is one.  Nothing is claimed of a filter made
  before the store, which a request may have loaded before the reset; see \<open>stale_filter_drops\<close>.\<close>

theorem reload_misses_nothing:
  assumes "new_deduplicator max_size iv = Inr d" and "max_size < 2 ^ 63" and "race_run (start_race d n) moves = Some res"
  shows "\<exists>s. res = Inr s
    \<and> (\<forall>f ts. rr_since s \<le> f \<longrightarrow> looks_in s f ts \<longrightarrow> drops s f ts
      \<longrightarrow> identified (length (bf_bits (new_bloom (max_size div 10)))) (arrived moves) ts
      \<longrightarrow> (\<exists>ts'. ts_labels ts' = ts_labels ts
             \<and> (\<forall>e \<in> set (rr_active s). ts' \<in> rr_given s ! e \<or> (\<exists>q \<in> set (rr_requests s). ts' \<in> under_way e q))))
    \<and> (\<forall>i < 10. settled s i \<longrightarrow> rr_since s \<le> rr_slots s ! i)"
proof -
  let ?len = "length (bf_bits (new_bloom (max_size div 10)))" and ?A = "arrived moves"
  obtain s where s: "res = Inr s" "race_inv ?len ?A s"
    using race_run_ok [OF start_race_ok [OF assms(1,2)] order_refl assms(3)] by blast
  have reset: "\<forall>i < 10. settled s i \<longrightarrow> rr_since s \<le> rr_slots s ! i" using race_invD(2) [OF s(2)] unfolding known_ok_def by blast
  have split: "(ts' \<in> rr_given s ! e \<or> (\<exists>q \<in> set (rr_requests s). ts' \<in> under_way e q)) = (ts' \<in> reaches s e)" for ts' e
    by (simp add: reaches_def)
  show ?thesis
    by (intro exI [of _ s] conjI allI impI; (rule s(1) | (rule reset [rule_format]; assumption) | (unfold split, rule known_reaches [OF s(2)])))
qed

subsection \<open>A concrete interleaving\<close>

text \<open>
  A second estimator is stored; a request arrives before the deduplicator is reset, and its series is filtered after.
\<close>

definition demo_moves :: "time_serie \<Rightarrow> move list" where
  "demo_moves ts = [StoreEstimators [0, 1] 1, Arrive [ts], ResetNext, ResetNext, ResetNext, ResetNext, ResetNext, ResetNext, ResetNext,
     ResetNext, ResetNext, ResetNext, ResetNext, LoadFilter 0, LookUp 0, AddUnknown 0, LoadEstimators 0 1, InsertNext 0]"

lemma update_numeral: "(x # xs)[numeral k := y] = x # xs[pred_numeral k := y]"
  by (simp add: numeral_eq_Suc)

lemma demo_filters:
  assumes "new_deduplicator 10000 60000000000 = Inr d"
  obtains nb bf' where "start_race d 1 = \<lparr>rr_max = 1000, rr_filters = [nb, nb, nb, nb, nb, nb, nb, nb, nb, nb],
      rr_slots = [0, 1, 2, 3, 4, 5, 6, 7, 8, 9], rr_active = [0], rr_given = [{}], rr_loader = NoLoad, rr_requests = [], rr_since = 0\<rparr>"
    and "new_bloom 1000 = nb" and "bf_size nb = 0" and "bf_contains nb 5 = Inr False" and "bf_add nb 5 = Inr (bf', True)"
    and "bf_contains bf' 5 = Inr True"
proof -
  define nb where "nb = new_bloom 1000"
  have m: "(10000 :: int) < 2 ^ 63" by simp
  have d: "dd_bucket_max_size d = 1000" "dd_bfs d = replicate 10 nb"
    using new_deduplicator_result(7,8) [OF assms(1) m] by (simp_all add: nb_def)
  have nb: "bloom_ok 1000 nb" "bf_size nb = 0" "bits_set (bf_bits nb) = {}" using new_bloom_ok [of 1000] by (simp_all add: nb_def)
  then have c: "bf_contains nb 5 = Inr False" by (simp add: bf_contains_ok has_def positions_def hashes_count_def)
  then have n: "\<not> has nb 5" using nb(1) by (simp add: bf_contains_ok)
  obtain bf' where b: "bf_add nb 5 = Inr (bf', \<not> has nb 5)" "bloom_ok 1000 bf'" "length (bf_bits bf') = length (bf_bits nb)"
    "bits_set (bf_bits bf') = positions (length (bf_bits nb)) 5 \<union> bits_set (bf_bits nb)" using bf_add_ok [OF nb(1), of 5] by blast
  have a: "bf_add nb 5 = Inr (bf', True)" "bf_contains bf' 5 = Inr True"
    using b n by (simp_all add: bf_contains_ok has_def)
  have start: "start_race d 1 = \<lparr>rr_max = 1000, rr_filters = [nb, nb, nb, nb, nb, nb, nb, nb, nb, nb], rr_slots = [0, 1, 2, 3, 4, 5, 6, 7, 8, 9], rr_active = [0],
      rr_given = [{}], rr_loader = NoLoad, rr_requests = [], rr_since = 0\<rparr>"
    by (simp add: start_race_def d upt_rec) (simp add: numeral_eq_Suc)
  show ?thesis using that [OF start _ nb(2) c a] by (simp add: nb_def)
qed

lemma demo_race:
  assumes "new_deduplicator 10000 60000000000 = Inr d" and "ts_fingerprint ts = 5"
  shows "\<exists>s. race_run (start_race d 1) (demo_moves ts) = Some (Inr s) \<and> rr_active s = [0, 1] \<and> rr_given s = [{}, {ts}]
    \<and> rr_requests s = [Inserting [0] [ts]] \<and> rr_since s = 10 \<and> rr_slots s ! 5 = 15 \<and> drops s 15 ts"
proof -
  obtain nb bf' where f: "start_race d 1 = \<lparr>rr_max = 1000, rr_filters = [nb, nb, nb, nb, nb, nb, nb, nb, nb, nb],
      rr_slots = [0, 1, 2, 3, 4, 5, 6, 7, 8, 9], rr_active = [0], rr_given = [{}], rr_loader = NoLoad, rr_requests = [], rr_since = 0\<rparr>"
    "new_bloom 1000 = nb" "bf_size nb = 0" "bf_contains nb 5 = Inr False" "bf_add nb 5 = Inr (bf', True)"
    "bf_contains bf' 5 = Inr True" by (rule demo_filters [OF assms(1)])
  show ?thesis unfolding demo_moves_def f(1)
    by (simp add: store_estimators_def request_at_def reset_next_def empty_slot_def f(2-) load_filter_def look_up_def add_unknown_def
        load_estimators_def insert_next_def request_goes_def assms(2) update_numeral drops_def)
qed

text \<open>
  Filters from before the store are a different matter.  The first request has been answered; the second one, with the
  same series, loads the filter before the load stores the second estimator and resets the deduplicator, and looks the
  series up after that, in the filter that the reset has replaced: it drops the series, and no estimator but the first
  gets it although the second one has been active all the time since.
\<close>

definition stale_moves :: "time_serie \<Rightarrow> move list" where
  "stale_moves ts = [Arrive [ts], LoadFilter 0, LookUp 0, AddUnknown 0, LoadEstimators 0 0, InsertNext 0, InsertNext 0,
     Arrive [ts], LoadFilter 1, StoreEstimators [0, 1] 1, ResetNext, ResetNext, ResetNext, ResetNext, ResetNext, ResetNext, ResetNext,
     ResetNext, ResetNext, ResetNext, ResetNext, LookUp 1, LoadEstimators 1 0]"

lemma stale_filter_drops:
  assumes "new_deduplicator 10000 60000000000 = Inr d" and "ts_fingerprint ts = 5"
  shows "\<exists>s. race_run (start_race d 1) (stale_moves ts) = Some (Inr s) \<and> rr_active s = [0, 1] \<and> rr_loader s = NoLoad
    \<and> rr_given s = [{ts}, {}] \<and> rr_requests s = [Answered, Answered]"
proof -
  obtain nb bf' where f: "start_race d 1 = \<lparr>rr_max = 1000, rr_filters = [nb, nb, nb, nb, nb, nb, nb, nb, nb, nb],
      rr_slots = [0, 1, 2, 3, 4, 5, 6, 7, 8, 9], rr_active = [0], rr_given = [{}], rr_loader = NoLoad, rr_requests = [], rr_since = 0\<rparr>"
    "new_bloom 1000 = nb" "bf_size nb = 0" "bf_contains nb 5 = Inr False" "bf_add nb 5 = Inr (bf', True)"
    "bf_contains bf' 5 = Inr True" by (rule demo_filters [OF assms(1)])
  show ?thesis unfolding stale_moves_def f(1)
    by (simp add: store_estimators_def request_at_def reset_next_def empty_slot_def f(2-) load_filter_def look_up_def add_unknown_def
        load_estimators_def insert_next_def request_goes_def assms(2) update_numeral)
qed

theorem reload_misses_nothing_witness:
  "\<exists>d s ts'. new_deduplicator 10000 60000000000 = Inr d
    \<and> race_run (start_race d 1) (demo_moves (serie1 ''job'' ''a'' 5)) = Some (Inr s) \<and> rr_since s = 10 \<and> drops s 15 (serie1 ''job'' ''a'' 5)
    \<and> ts_labels ts' = ts_labels (serie1 ''job'' ''a'' 5) \<and> rr_active s = [0, 1] \<and> ts' \<in> rr_given s ! 1 \<and> ts' \<notin> rr_given s ! 0
    \<and> (\<exists>q \<in> set (rr_requests s). ts' \<in> under_way 0 q)"
proof -
  let ?ts = "serie1 ''job'' ''a'' 5"
  obtain d where d: "new_deduplicator 10000 60000000000 = Inr d" using plain_deduplicator by blast
  have fp: "ts_fingerprint ?ts = 5" by (simp add: serie1_def)
  obtain s where s: "race_run (start_race d 1) (demo_moves ?ts) = Some (Inr s)" "rr_active s = [0, 1]" "rr_given s = [{}, {?ts}]"
    "rr_requests s = [Inserting [0] [?ts]]" "rr_since s = 10" "rr_slots s ! 5 = 15" "drops s 15 ?ts" using demo_race [OF d fp] by blast
  have "arrived (demo_moves ?ts) = {?ts}" by (simp add: demo_moves_def)
  then have i: "identified (length (bf_bits (new_bloom (10000 div 10)))) (arrived (demo_moves ?ts)) ?ts" by (simp only: identified_alone)
  have m: "(10000 :: int) < 2 ^ 63" by simp
  have l: "looks_in s 15 ?ts" using s(6) by (simp add: looks_in_def own_slot_def fp)
  have since: "rr_since s \<le> 15" using s(5) by simp
  obtain ts' where ts': "ts_labels ts' = ts_labels ?ts"
    "\<forall>e \<in> set (rr_active s). ts' \<in> rr_given s ! e \<or> (\<exists>q \<in> set (rr_requests s). ts' \<in> under_way e q)"
    using reload_misses_nothing [OF d m s(1)] since l s(7) i by blast
  have "ts' \<in> rr_given s ! 1 \<and> ts' \<notin> rr_given s ! 0 \<and> (\<exists>q \<in> set (rr_requests s). ts' \<in> under_way 0 q)"
    using ts'(2) by (auto simp: s(2-4))
  then show ?thesis using d s(1,2,5,7) ts'(1) by blast
qed

end
