(* ===== verification/Sketch_Bytes.thy ===== *)
theory Sketch_Bytes
  imports Hyperloglog
begin

section \<open>Sketches as bytes\<close>

text \<open>
  A storage node sends its sketches in a gob stream, and gob leaves the bytes of a sketch to the vendored package:
  \<^verbatim>\<open>MarshalBinary\<close> on the node, \<^verbatim>\<open>UnmarshalBinary\<close> on the selector, into a zero \<^verbatim>\<open>Sketch\<close>.  The other theories take
  a sketch to arrive as it was sent; here is why.
\<close>

subsection \<open>Writing\<close>

definition be32 :: "u32 \<Rightarrow> u8 list" where
  "be32 x = [ucast (drop_bit 24 x), ucast (drop_bit 16 x), ucast (drop_bit 8 x), ucast x]"

definition set_bytes :: "u32 list \<Rightarrow> u8 list" where
  "set_bytes s = be32 (of_nat (length s)) @ concat (map be32 s)"

definition vll_bytes :: "u8 list \<Rightarrow> u8 list" where
  "vll_bytes v = be32 (of_nat (length v)) @ v"

definition cl_bytes :: "compressed_list \<Rightarrow> u8 list" where
  "cl_bytes c = be32 (cl_count c) @ be32 (cl_last c) @ vll_bytes (cl_b c)"

definition sketch_bytes :: "sketch \<Rightarrow> u8 list" where
  "sketch_bytes sk =
     [2, of_nat (sk_p sk), 0]
     @ (case sk_list sk of
          Some l \<Rightarrow> [1] @ set_bytes (sk_tmp sk) @ cl_bytes (cl_of l)
        | None \<Rightarrow> [0] @ be32 (of_nat (length (sk_regs sk))) @ map of_nat (sk_regs sk))"

subsection \<open>Reading\<close>

text \<open>
  What arrives can be any bytes, so here the fields are those of the struct: the compressed list with its bytes, and
  registers of eight bits.
\<close>

record raw_sketch =
  rw_p :: u8
  rw_created_sparse :: bool
  rw_tmp :: "u32 list"
  rw_list :: "compressed_list option"
  rw_regs :: "u8 list"

definition raw_of :: "sketch \<Rightarrow> raw_sketch" where
  "raw_of sk = \<lparr>rw_p = of_nat (sk_p sk), rw_created_sparse = sk_created_sparse sk, rw_tmp = sk_tmp sk,
     rw_list = map_option cl_of (sk_list sk), rw_regs = map of_nat (sk_regs sk)\<rparr>"

text \<open>The sketch that such a struct is, if the bytes of its list can be read by the iterator.\<close>

definition sketch_of :: "raw_sketch \<Rightarrow> sketch option" where
  "sketch_of rw =
     (let sk = \<lparr>sk_p = unat (rw_p rw), sk_created_sparse = rw_created_sparse rw, sk_tmp = rw_tmp rw, sk_list = None,
                sk_regs = map unat (rw_regs rw)\<rparr>
      in case rw_list rw of
           None \<Rightarrow> Some sk
         | Some c \<Rightarrow> map_option (\<lambda>l. sk\<lparr>sk_list := Some l\<rparr>) (cl_iter 0 (cl_b c)))"

datatype unmarshal_error = TooShort | BadSketch hll_error

type_synonym 'a unmarshalled = "go_panic + unmarshal_error + 'a"

text \<open>
  A slice \<^verbatim>\<open>data[i:i+4]\<close> may reach beyond the length of \<^verbatim>\<open>data\<close>, up to its capacity; the bytes there are \<open>extra\<close>.
\<close>

definition be32_value :: "u8 list \<Rightarrow> u32" where
  "be32_value bs = foldl (\<lambda>x b. push_bit 8 x OR ucast b) 0 (take 4 bs)"

definition read_be32 :: "u8 list \<Rightarrow> nat \<Rightarrow> go_panic + u32" where
  "read_be32 bs i = (if length bs < i + 4 then Inl IndexOutOfRange else Inr (be32_value (drop i bs)))"

definition read_keys :: "u8 list \<Rightarrow> nat \<Rightarrow> nat \<Rightarrow> go_panic + u32 list" where
  "read_keys bs start n = fold_err (\<lambda>s k. map_sum id (set_add s) (read_be32 bs (start + 4 * k))) [] [0..<n]"

definition cl_unmarshal :: "u8 list \<Rightarrow> unmarshal_error + compressed_list" where
  "cl_unmarshal data =
     (if length data < 12 then Inl TooShort
      else let sz = unat (be32_value (drop 8 data)); rest = drop 12 data
           in if length rest < sz then Inl TooShort
              else Inr \<lparr>cl_count = be32_value data, cl_last = be32_value (drop 4 data), cl_b = take sz rest\<rparr>)"

definition regs_v1 :: "u8 list \<Rightarrow> u8 \<Rightarrow> u8 list" where
  "regs_v1 data b = concat (map (\<lambda>v. [drop_bit 4 v + b, drop_bit 4 (push_bit 4 v) + b]) data)"

text \<open>
  A precision of zero is that of the zero sketch, which is then filled as it is: its sparse list is nil, and
  writing to it is a nil dereference.
\<close>

definition sketch_unmarshal :: "u8 list \<Rightarrow> u8 list \<Rightarrow> raw_sketch unmarshalled" where
  "sketch_unmarshal data extra =
     (if length data < 8 then Inr (Inl TooShort)
      else let v = data ! 0; p = data ! 1; b = data ! 2; sparse = (data ! 3 = 1) in
        case (if p = 0 then Inr \<lparr>rw_p = 0, rw_created_sparse = False, rw_tmp = [], rw_list = None, rw_regs = []\<rparr>
              else map_sum id raw_of (new_sketch (unat p) sparse)) of
          Inl err \<Rightarrow> Inr (Inl (BadSketch err))
        | Inr sk \<Rightarrow>
            if sparse then
              let last = unat (be32_value (drop 4 data) * 4 + 8) in
              (case read_keys (data @ extra) 8 ((last - 8) div 4) of
                 Inl q \<Rightarrow> Inl q
               | Inr tmp \<Rightarrow>
                   if length data < last then Inl IndexOutOfRange
                   else if length data - last < 12 then Inr (Inl TooShort)
                   else (case rw_list sk of
                           None \<Rightarrow> Inl NilDeref
                         | Some _ \<Rightarrow> Inr (map_sum id (\<lambda>c. sk\<lparr>rw_tmp := tmp, rw_list := Some c\<rparr>) (cl_unmarshal (drop last data)))))
            else Inr (Inr (sk\<lparr>rw_tmp := [], rw_list := None, rw_regs := (if v = 1 then regs_v1 (drop 8 data) b else drop 8 data)\<rparr>)))"

subsection \<open>What was written is read\<close>

lemma be32_length [simp]: "length (be32 x) = 4"
  by (simp add: be32_def)

lemma be32_value_be32 [simp]: "be32_value (be32 x @ rest) = x"
proof -
  have "push_bit 8 (push_bit 8 (push_bit 8 (ucast (ucast (drop_bit 24 x) :: u8)) OR ucast (ucast (drop_bit 16 x) :: u8))
      OR ucast (ucast (drop_bit 8 x) :: u8)) OR ucast (ucast x :: u8) = x"
    by (rule bit_word_eqI) (auto simp: bit_simps less_diff_conv2, (metis add_diff_inverse_nat not_less)+)
  then show ?thesis by (simp add: be32_value_def be32_def)
qed

lemma read_be32_at: "length pre = i \<Longrightarrow> read_be32 (pre @ be32 x @ rest) i = Inr x"
  by (simp add: read_be32_def)

lemma foldl_set_add_distinct: "distinct (s @ ks) \<Longrightarrow> foldl set_add s ks = s @ ks"
proof (induction ks arbitrary: s)
  case (Cons k ks)
  then show ?case using Cons.IH [of "s @ [k]"] by (auto simp: set_add_def)
qed simp

lemma read_keys_written:
  assumes "length pre = start" and "distinct ks"
  shows "read_keys (pre @ concat (map be32 ks) @ rest) start (length ks) = Inr ks"
proof -
  let ?bs = "pre @ concat (map be32 ks) @ rest"
  have len: "length (concat (map be32 xs)) = 4 * length xs" for xs by (induction xs) simp_all
  have at: "read_be32 ?bs (start + 4 * k) = Inr (ks ! k)" if k: "k < length ks" for k
  proof -
    have "ks = take k ks @ ks ! k # drop (Suc k) ks" using k by (rule id_take_nth_drop)
    then have "?bs = (pre @ concat (map be32 (take k ks))) @ be32 (ks ! k) @ concat (map be32 (drop (Suc k) ks)) @ rest"
      by (metis append.assoc concat.simps(2) concat_append list.simps(9) map_append)
    moreover have "length (pre @ concat (map be32 (take k ks))) = start + 4 * k" using k assms(1) by (simp add: len)
    ultimately show ?thesis using read_be32_at by metis
  qed
  have "fold_err (\<lambda>s k. map_sum id (set_add s) (read_be32 ?bs (start + 4 * k))) s is
      = Inr (foldl (\<lambda>s k. set_add s (ks ! k)) s is)" if "\<forall>k \<in> set is. k < length ks" for s "is"
    using that by (induction "is" arbitrary: s) (simp_all add: at)
  then have "read_keys ?bs start (length ks) = Inr (foldl (\<lambda>s k. set_add s (ks ! k)) [] [0..<length ks])"
    by (simp add: read_keys_def)
  also have "foldl (\<lambda>s k. set_add s (ks ! k)) [] [0..<length ks] = foldl set_add [] (map ((!) ks) [0..<length ks])"
    by (simp only: foldl_map)
  also have "\<dots> = ks" using foldl_set_add_distinct [of "[]" ks] assms(2) by (simp add: map_nth)
  finally show ?thesis .
qed

lemma cl_unmarshal_bytes:
  assumes "length (cl_b c) < 2 ^ 32"
  shows "cl_unmarshal (cl_bytes c) = Inr c"
proof -
  have "unat (of_nat (length (cl_b c)) :: u32) = length (cl_b c)" using assms by (simp add: unat_of_nat take_bit_nat_eq_self)
  moreover have d: "drop 8 (cl_bytes c) = be32 (of_nat (length (cl_b c))) @ cl_b c" "drop 12 (cl_bytes c) = cl_b c"
    "drop 4 (cl_bytes c) = be32 (cl_last c) @ vll_bytes (cl_b c)"
    by (simp_all add: cl_bytes_def vll_bytes_def)
  moreover have "be32_value (cl_bytes c) = cl_count c" "be32_value (drop 4 (cl_bytes c)) = cl_last c"
    "be32_value (drop 8 (cl_bytes c)) = of_nat (length (cl_b c))"
    unfolding d by (simp_all add: cl_bytes_def)
  ultimately show ?thesis by (simp add: cl_unmarshal_def Let_def) (simp add: cl_bytes_def vll_bytes_def)
qed

text \<open>The sizes fit in the fields that carry them; registers are bytes.\<close>

definition sizes_fit :: "sketch \<Rightarrow> bool" where
  "sizes_fit sk \<longleftrightarrow> 4 * length (sk_tmp sk) + 8 < 2 ^ 32 \<and> (\<forall>v \<in> set (sk_regs sk). v < 2 ^ 8)
     \<and> (case sk_list sk of Some l \<Rightarrow> cl_len l < 2 ^ 32 | None \<Rightarrow> True)"

lemma drop_written: "length pre = n \<Longrightarrow> drop n (pre @ rest) = rest"
  by simp

lemma unmarshal_sparse:
  assumes "sketch_ok p sk" and "sizes_fit sk" and "sk_list sk = Some l"
  shows "sketch_unmarshal (sketch_bytes sk) extra = Inr (Inr (raw_of sk))"
proof -
  let ?data = "sketch_bytes sk" and ?n = "length (sk_tmp sk)" and ?head = "[2, of_nat p, 0, 1] @ be32 (of_nat (length (sk_tmp sk)))"
  have ok: "sk_p sk = p" "4 \<le> p" "p \<le> 18" "distinct (sk_tmp sk)" "sk_regs sk = []" "sk_created_sparse sk"
    using assms(1,3) by (simp_all add: sketch_ok_def)
  have fit: "4 * ?n + 8 < 2 ^ 32" "length (cl_b (cl_of l)) < 2 ^ 32" using assms(2,3) by (simp_all add: sizes_fit_def cl_len_def)
  have p: "(of_nat p :: u8) \<noteq> 0" "unat (of_nat p :: u8) = p" using ok(2,3) by (simp_all add: unat_of_nat take_bit_nat_eq_self word_of_nat_eq_0_iff)
    (use ok(2,3) in \<open>auto dest: dvd_imp_le\<close>)
  have len: "length (concat (map be32 xs)) = 4 * length xs" for xs by (induction xs) simp_all
  have data: "?data = ?head @ concat (map be32 (sk_tmp sk)) @ cl_bytes (cl_of l)"
    using assms(3) ok(1) by (simp add: sketch_bytes_def set_bytes_def)
  have cl: "12 \<le> length (cl_bytes (cl_of l))" by (simp add: cl_bytes_def vll_bytes_def)
  have n: "unat (of_nat ?n * 4 + 8 :: u32) = 4 * ?n + 8"
  proof -
    have "of_nat ?n * 4 + 8 = (of_nat (4 * ?n + 8) :: u32)" by simp
    then show ?thesis using fit(1) by (simp only: unat_of_nat take_bit_nat_eq_self) simp
  qed
  have "be32_value (drop 4 ?data) = of_nat ?n" by (simp add: data)
  then have last: "unat (be32_value (drop 4 ?data) * 4 + 8) = 4 * ?n + 8" using n by simp
  have keys: "read_keys (?data @ extra) 8 ?n = Inr (sk_tmp sk)"
    using read_keys_written [of ?head 8 "sk_tmp sk" "cl_bytes (cl_of l) @ extra"] ok(4) by (simp add: data)
  have rest: "drop (4 * ?n + 8) ?data = cl_bytes (cl_of l)" "length ?data = 4 * ?n + 8 + length (cl_bytes (cl_of l))"
    unfolding data append_assoc [symmetric] by (rule drop_written) (simp_all add: len)
  have nth: "?data ! 0 = 2" "?data ! 1 = of_nat p" "?data ! 2 = 0" "?data ! 3 = 1" by (simp_all add: data)
  obtain s0 where new: "new_sketch p True = Inr s0" "raw_of s0 = \<lparr>rw_p = of_nat p, rw_created_sparse = True, rw_tmp = [],
      rw_list = Some (cl_of []), rw_regs = []\<rparr>" using ok(2,3) by (simp add: new_sketch_def raw_of_def)
  have "raw_of sk = \<lparr>rw_p = of_nat p, rw_created_sparse = True, rw_tmp = sk_tmp sk, rw_list = Some (cl_of l), rw_regs = []\<rparr>"
    using ok assms(3) by (simp add: raw_of_def)
  moreover have "\<not> length ?data < 8" "\<not> length ?data < 4 * ?n + 8" "\<not> length ?data - (4 * ?n + 8) < 12" using rest(2) cl by simp_all
  moreover have "(4 * ?n + 8 - 8) div 4 = ?n" by simp
  ultimately show ?thesis
    unfolding sketch_unmarshal_def nth Let_def last
    using p new keys cl_unmarshal_bytes [OF fit(2)] by (simp add: rest(1))
qed

lemma unmarshal_dense:
  assumes "sketch_ok p sk" and "sk_list sk = None"
  shows "sketch_unmarshal (sketch_bytes sk) extra = Inr (Inr (raw_of (sk\<lparr>sk_created_sparse := False\<rparr>)))"
proof -
  let ?data = "sketch_bytes sk"
  have ok: "sk_p sk = p" "4 \<le> p" "p \<le> 18" "sk_tmp sk = []" using assms by (simp_all add: sketch_ok_def)
  have p: "(of_nat p :: u8) \<noteq> 0" "unat (of_nat p :: u8) = p" using ok(2,3) by (simp_all add: unat_of_nat take_bit_nat_eq_self word_of_nat_eq_0_iff)
    (use ok(2,3) in \<open>auto dest: dvd_imp_le\<close>)
  have data: "?data = [2, of_nat p, 0, 0] @ be32 (of_nat (length (sk_regs sk))) @ map of_nat (sk_regs sk)"
    using assms(2) ok(1) by (simp add: sketch_bytes_def)
  have "drop 8 ?data = map of_nat (sk_regs sk)" "\<not> length ?data < 8" by (simp_all add: data)
  moreover have "?data ! 0 = 2" "?data ! 1 = of_nat p" "?data ! 2 = 0" "?data ! 3 = 0" by (simp_all add: data)
  moreover have "map_sum id raw_of (new_sketch p False) = Inr \<lparr>rw_p = of_nat p, rw_created_sparse = False, rw_tmp = [],
      rw_list = None, rw_regs = replicate (2 ^ p) 0\<rparr>" using ok(2,3) by (simp add: new_sketch_def raw_of_def)
  ultimately show ?thesis using p ok assms(2) by (simp add: sketch_unmarshal_def Let_def raw_of_def)
qed

lemma sketch_of_raw:
  assumes "sketch_ok p sk" and "sizes_fit sk"
  shows "sketch_of (raw_of sk) = Some sk"
proof -
  have p: "unat (of_nat (sk_p sk) :: u8) = sk_p sk" using assms(1) by (simp add: sketch_ok_def unat_of_nat take_bit_nat_eq_self)
  have "map unat (map (of_nat :: nat \<Rightarrow> u8) (sk_regs sk)) = sk_regs sk"
    unfolding map_map by (rule map_idI) (use assms(2) in \<open>simp add: sizes_fit_def unat_of_nat take_bit_nat_eq_self\<close>)
  then show ?thesis
    by (cases sk) (use p in \<open>auto simp: sketch_of_def raw_of_def Let_def compressed_list_roundtrip split: option.splits\<close>)
qed

subsection \<open>The sizes of the sketches that are sent\<close>

text \<open>
  A sketch that was made, filled, merged and reset, but not estimated, turns dense as soon as its list has more bytes
  than it would have registers, and its set is never larger than a hundredth of them.
\<close>

definition compact :: "sketch \<Rightarrow> bool" where
  "compact sk \<longleftrightarrow> (\<forall>v \<in> set (sk_regs sk). v < 2 ^ 8)
     \<and> (case sk_list sk of Some l \<Rightarrow> length (sk_tmp sk) * 100 \<le> 2 ^ sk_p sk \<and> cl_len l \<le> 2 ^ sk_p sk | None \<Rightarrow> sk_tmp sk = [])"

lemma vll_length: "unat x < 2 ^ (7 * Suc k) \<Longrightarrow> length (vll_append [] x) \<le> Suc k \<and> 1 \<le> length (vll_append [] x)"
proof (induction k arbitrary: x)
  case 0
  have mask: "(0xffffff80 :: u32) = push_bit 7 0x1ffffff" by simp
  have "x AND 0xffffff80 = 0"
    unfolding mask
  proof (rule bit_word_eqI)
    fix n assume "n < LENGTH(32)"
    have "\<not> bit x n" if "7 \<le> n"
    proof
      assume "bit x n"
      then have "odd (unat x div 2 ^ n)" by (simp add: bit_iff_odd [symmetric] bit_unsigned_iff)
      moreover have "(2 :: nat) ^ 7 \<le> 2 ^ n" using that by (rule power_increasing) simp
      ultimately show False using 0 by simp
    qed
    then show "bit (x AND push_bit 7 0x1ffffff) n = bit 0 n" unfolding bit_and_iff bit_push_bit_iff by auto
  qed
  then show ?case by (simp add: vll_append.simps)
next
  case (Suc k)
  show ?case
  proof (cases "x AND 0xffffff80 = 0")
    case False
    have "unat (drop_bit 7 x) < 2 ^ (7 * Suc k)" 
      unfolding unat_drop using Suc.prems by (intro less_mult_imp_div_less) (simp add: power_add mult_ac)
    from Suc.IH [OF this] False show ?thesis
      using vll_append_app [of "[ucast ((x AND 0x7f) OR 0x80)]"] by (simp add: vll_append.simps [of "[]" x])
  qed (simp add: vll_append.simps)
qed

lemma cl_len_bounds: "length xs \<le> cl_len xs \<and> cl_len xs \<le> 5 * length xs"
proof (induction xs rule: rev_induct)
  case Nil
  then show ?case by (simp add: cl_len_def cl_of_def new_compressed_list_def)
next
  case (snoc x xs)
  have "cl_b (cl_of (xs @ [x])) = cl_b (cl_of xs) @ vll_append [] (x - cl_last (cl_of xs))"
    by (simp add: cl_of_def cl_append_def vll_append_app [of "cl_b _"])
  then have "cl_len (xs @ [x]) = cl_len xs + length (vll_append [] (x - cl_last (cl_of xs)))" by (simp add: cl_len_def)
  moreover have "length (vll_append [] (x - cl_last (cl_of xs))) \<le> 5 \<and> 1 \<le> length (vll_append [] (x - cl_last (cl_of xs)))"
  proof -
    have "unat (x - cl_last (cl_of xs)) < 2 ^ LENGTH(32)" by (rule unsigned_less)
    then show ?thesis using vll_length [of "x - cl_last (cl_of xs)" 4] by simp
  qed
  moreover have "length (xs @ [x]) = Suc (length xs)" by simp
  ultimately show ?case using snoc.IH by presburger
qed

lemma rank_bounds: "snd (decode_hash k p) < 2 ^ 8 \<or> 25 < p" "snd (get_pos_val x p) < 2 ^ 8"
proof -
  have "unat (bextr32 k 1 6) < 64" by (simp add: unat_bextr32)
  moreover have "leading_zeros64 y - 31 < 256" for y by (simp add: leading_zeros64_def)
  ultimately show "snd (decode_hash k p) < 2 ^ 8 \<or> 25 < p" by (auto simp: decode_hash_def pp_def)
  have "leading_zeros64 y + 1 < 256" for y by (simp add: leading_zeros64_def)
  then show "snd (get_pos_val x p) < 2 ^ 8" by (simp only: get_pos_val_def Let_def snd_conv) simp
qed

lemma reg_insert_bytes:
  assumes "\<forall>v \<in> set regs. v < 2 ^ 8" and "snd ir < 2 ^ 8" and "fst ir < length regs"
  shows "\<forall>v \<in> set (reg_insert ir regs). v < 2 ^ 8"
  using assms set_update_subset_insert [of regs "fst ir" "max (snd ir) (regs ! fst ir)"] nth_mem [of "fst ir" regs]
  unfolding reg_insert_def by fastforce

lemma fold_reg_bytes:
  assumes "p \<le> 18" and "\<forall>v \<in> set regs. v < 2 ^ 8" and "length regs = 2 ^ p"
  shows "\<forall>v \<in> set (fold (\<lambda>k. reg_insert (decode_hash k p)) ks regs). v < 2 ^ 8"
  using assms(2,3)
proof (induction ks arbitrary: regs)
  case (Cons k ks)
  have "fst (decode_hash k p) < length regs" using decode_index_less [of p k] assms(1) Cons.prems(2) by simp
  moreover have "snd (decode_hash k p) < 2 ^ 8" using rank_bounds(1) [of k p] assms(1) by auto
  ultimately have "\<forall>v \<in> set (reg_insert (decode_hash k p) regs). v < 2 ^ 8" using reg_insert_bytes Cons.prems(1) by blast
  then show ?case using Cons.IH [of "reg_insert (decode_hash k p) regs"] Cons.prems(2) by (simp add: reg_insert_def)
qed simp

lemma merge_regs_bytes:
  assumes "\<forall>v \<in> set os. v < 2 ^ 8" and "\<forall>v \<in> set regs. v < 2 ^ 8" and "length os = length regs"
  shows "\<forall>v \<in> set (merge_regs os regs). v < 2 ^ 8"
proof
  fix v assume "v \<in> set (merge_regs os regs)"
  then obtain j where j: "j < length regs" "v = max (os ! j) (regs ! j)"
    using merge_regs_nth [OF assms(3)] by (auto simp: in_set_conv_nth)
  moreover have "os ! j < 2 ^ 8" "regs ! j < 2 ^ 8" using assms j(1) nth_mem by (metis, metis)
  ultimately show "v < 2 ^ 8" by simp
qed

lemma sk_m_value:
  assumes "sk_p sk = p" and "p \<le> 18"
  shows "unat (sk_m sk) = 2 ^ p"
proof -
  have "(2 :: nat) ^ p < 2 ^ 32" using assms(2) by (intro power_strict_increasing) auto
  then show ?thesis using assms(1) unfolding sk_m_def unat_push by simp
qed

lemma to_normal_compact:
  assumes "sk_p sk = p" and "p \<le> 18"
  shows "compact (to_normal sk l)"
proof -
  have "unat (sk_m sk) = 2 ^ p" using sk_m_value assms by blast
  then show ?thesis
    using fold_reg_bytes [OF assms(2), of "replicate (2 ^ p) 0" "merge_sparse (sk_tmp sk) l"] assms(1)
    by (simp add: compact_def to_normal_def Let_def)
qed

lemma maybe_to_normal_compact:
  assumes "sk_p sk = p" and "p \<le> 18" and "sk_regs sk = []" and "cl_len l \<le> 2 ^ p" and "length (sk_tmp sk) \<le> 2 ^ 24"
    and "sorted l" and "distinct l" and "distinct (sk_tmp sk)"
  shows "compact (maybe_to_normal sk l)"
proof -
  let ?l = "merge_sparse (sk_tmp sk) l"
  have p: "(2 :: nat) ^ p \<le> 2 ^ 18" using assms(2) by (intro power_increasing) auto
  have m: "sk_m sk < x \<longleftrightarrow> 2 ^ p < unat x" for x using sk_m_value [OF assms(1,2)] by (simp add: word_less_nat_alt)
  have t: "unat (of_nat (length (sk_tmp sk)) * 100 :: u32) = length (sk_tmp sk) * 100"
  proof -
    have "length (sk_tmp sk) * 100 < 2 ^ 32" using assms(5) by simp
    then have "unat (of_nat (length (sk_tmp sk) * 100) :: u32) = length (sk_tmp sk) * 100"
      unfolding unat_of_nat by (simp add: take_bit_nat_eq_self)
    then show ?thesis by simp
  qed
  have "distinct ?l" using merge_sparse_sorted [OF assms(6-8)] by blast
  then have "length ?l = card (set (sk_tmp sk) \<union> set l)" using distinct_card [of ?l] by simp
  also have "\<dots> \<le> length (sk_tmp sk) + length l" using card_Un_le [of "set (sk_tmp sk)" "set l"] card_length [of "sk_tmp sk"] card_length [of l] by linarith
  finally have "cl_len ?l \<le> 5 * (length (sk_tmp sk) + length l)" using cl_len_bounds [of ?l] by simp
  also have "\<dots> < 2 ^ 32" using assms(4,5) p cl_len_bounds [of l] by simp
  finally have c: "unat (of_nat (cl_len ?l) :: u32) = cl_len ?l" unfolding unat_of_nat by (simp add: take_bit_nat_eq_self)
  show ?thesis
  proof (cases "2 ^ p < length (sk_tmp sk) * 100")
    case True
    then show ?thesis
      using to_normal_compact [of "sk\<lparr>sk_tmp := [], sk_list := Some ?l\<rparr>" p ?l] assms(1-3)
      by (simp add: maybe_to_normal_def Let_def m t c) (auto simp: compact_def)
  next
    case False
    then show ?thesis using assms(1,3,4) by (simp add: maybe_to_normal_def m t compact_def)
  qed
qed

text \<open>The sketches that the estimators and \<^verbatim>\<open>toSnapshot\<close> make.\<close>

inductive built :: "nat \<Rightarrow> sketch \<Rightarrow> bool" where
  new: "new_sketch p sparse = Inr sk \<Longrightarrow> built p sk"
| insert: "built p sk \<Longrightarrow> built p (sk_insert_hash sk x)"
| merge: "built p sk \<Longrightarrow> built p ot \<Longrightarrow> sk_merge sk (Some ot) = Inr sk' \<Longrightarrow> built p sk'"
| reset: "sketch_ok p sk \<Longrightarrow> built p (sk_reset sk)"

lemma new_compact: "new_sketch p sparse = Inr sk \<Longrightarrow> sketch_ok p sk \<and> compact sk"
  using new_sketch_ok [of p sparse] cl_len_bounds [of "[]"]
  by (auto simp: new_sketch_def compact_def split: if_splits)

lemma insert_compact:
  assumes "sketch_ok p sk" and "compact sk"
  shows "compact (sk_insert_hash sk x)"
proof (cases "sk_list sk")
  case None
  have "fst (get_pos_val x p) < length (sk_regs sk)" using assms(1) None pos_index_less [of p x] by (simp add: sketch_ok_def)
  then show ?thesis using reg_insert_bytes [of "sk_regs sk" "get_pos_val x p"] rank_bounds(2) assms None
    by (simp add: sk_insert_hash_def compact_def sketch_ok_def)
next
  case (Some l)
  let ?k = "encode_hash x p" and ?sk = "sk\<lparr>sk_tmp := set_add (sk_tmp sk) (encode_hash x p)\<rparr>"
  have ok: "sk_p sk = p" "p \<le> 18" "sk_regs sk = []" "sorted l" "distinct l" "distinct (sk_tmp sk)"
    using assms(1) Some by (simp_all add: sketch_ok_def)
  have c: "length (sk_tmp sk) * 100 \<le> 2 ^ p" "cl_len l \<le> 2 ^ p" using assms(2) Some ok(1) by (simp_all add: compact_def)
  have "(2 :: nat) ^ p \<le> 2 ^ 18" using ok(2) by (intro power_increasing) auto
  moreover have "length (set_add (sk_tmp sk) ?k) \<le> Suc (length (sk_tmp sk))" by (simp add: set_add_def)
  ultimately have "length (sk_tmp ?sk) \<le> 2 ^ 24" using c(1) by simp
  then have "compact (maybe_to_normal ?sk l)" using maybe_to_normal_compact [of ?sk p l] ok c(2) by simp
  then show ?thesis using assms(2) Some ok(1) by (simp add: sk_insert_hash_def Let_def)
qed

lemma merge_compact:
  assumes "sketch_ok p sk" and "compact sk" and "sketch_ok p ot" and "compact ot" and "sk_merge sk (Some ot) = Inr sk'"
  shows "compact sk'"
proof -
  have p: "sk_p sk = p" "sk_p ot = p" "p \<le> 18" using assms(1,3) by (simp_all add: sketch_ok_def)
  have p18: "(2 :: nat) ^ p \<le> 2 ^ 18" using p(3) by (intro power_increasing) auto
  have dense: "compact (merge_dense_sketch sk ot)" if s: "sk_list sk = None \<or> sk_list ot = None"
  proof -
    define sk1 where "sk1 = (case sk_list sk of Some l \<Rightarrow> to_normal sk l | None \<Rightarrow> sk)"
    have l: "sk_list sk1 = None \<and> sk_tmp sk1 = [] \<and> length (sk_regs sk1) = 2 ^ p"
      using assms(1) sk_m_value [OF p(1,3)] by (cases "sk_list sk") (simp_all add: sk1_def to_normal_def Let_def sketch_ok_def)
    have "compact sk1" using assms(2) to_normal_compact [OF p(1,3)] by (cases "sk_list sk") (simp_all add: sk1_def)
    then have r: "\<forall>v \<in> set (sk_regs sk1). v < 2 ^ 8" by (simp add: compact_def)
    have d: "merge_dense_sketch sk ot = (case sk_list ot of
        Some lo \<Rightarrow> sk1\<lparr>sk_regs := fold (\<lambda>k. reg_insert (decode_hash k p)) (sk_tmp ot @ lo) (sk_regs sk1)\<rparr>
      | None \<Rightarrow> sk1\<lparr>sk_regs := merge_regs (sk_regs ot) (sk_regs sk1)\<rparr>)"
      unfolding merge_dense_sketch_def sk1_def [symmetric] Let_def p(2) ..
    show ?thesis
    proof (cases "sk_list ot")
      case (Some lo)
      show ?thesis using fold_reg_bytes [OF p(3) r, of "sk_tmp ot @ lo"] l unfolding d Some by (simp add: compact_def)
    next
      case None
      have "length (sk_regs ot) = 2 ^ p" "\<forall>v \<in> set (sk_regs ot). v < 2 ^ 8" using assms(3,4) None by (simp_all add: sketch_ok_def compact_def)
      then show ?thesis using merge_regs_bytes [OF _ r, of "sk_regs ot"] l unfolding d None by (simp add: compact_def)
    qed
  qed
  show ?thesis
  proof (cases "sk_list sk = None \<or> sk_list ot = None")
    case True
    then show ?thesis using dense assms(5) p by (auto simp: sk_merge_def split: option.splits)
  next
    case False
    then obtain l lo where s: "sk_list sk = Some l" "sk_list ot = Some lo" by auto
    let ?tmp = "foldl set_add (foldl set_add (sk_tmp sk) (sk_tmp ot)) lo"
    have ok: "sk_regs sk = []" "sorted l" "distinct l" "distinct (sk_tmp sk)" using assms(1) s by (simp_all add: sketch_ok_def)
    have c: "length (sk_tmp sk) * 100 \<le> 2 ^ p" "cl_len l \<le> 2 ^ p" "length (sk_tmp ot) * 100 \<le> 2 ^ p" "cl_len lo \<le> 2 ^ p"
      using assms(2,4) s p by (simp_all add: compact_def)
    have "length (foldl set_add xs ys) \<le> length xs + length ys" for xs ys
    proof (induction ys arbitrary: xs)
      case (Cons y ys)
      have "length (set_add xs y) \<le> Suc (length xs)" by (simp add: set_add_def)
      then show ?case using Cons.IH [of "set_add xs y"] by simp
    qed simp
    then have "length ?tmp \<le> length (sk_tmp sk) + length (sk_tmp ot) + length lo" by (meson add_le_mono1 order_trans)
    then have "length ?tmp \<le> 2 ^ 24" using c p18 cl_len_bounds [of lo] by simp
    then have "compact (maybe_to_normal (sk\<lparr>sk_tmp := ?tmp\<rparr>) l)"
      using maybe_to_normal_compact [of "sk\<lparr>sk_tmp := ?tmp\<rparr>" p l] ok c(2) p by simp
    then show ?thesis using assms(5) p s by (auto simp: sk_merge_def merge_sparse_sketch_def Let_def)
  qed
qed

lemma built_ok: "built p sk \<Longrightarrow> sketch_ok p sk \<and> compact sk"
proof (induction rule: built.induct)
  case (new p sparse sk)
  then show ?case by (rule new_compact)
next
  case (insert p sk x)
  then show ?case using sk_insert_refines [of p sk x] insert_compact [of p sk x] by simp
next
  case (merge p sk ot sk')
  have ok: "sketch_ok p sk" "compact sk" "sketch_ok p ot" "compact ot" using merge.IH by simp_all
  obtain r where "sk_merge sk (Some ot) = Inr r" "sketch_ok p r" using sk_merge_refines [OF ok(1,3)] by blast
  then show ?case using merge.hyps(3) merge_compact [OF ok merge.hyps(3)] by simp
next
  case (reset p sk)
  note r = sk_reset_ok(3,4) [OF reset]
  show ?case using r new_compact [of p "sk_created_sparse sk" "sk_reset sk"] by (cases "sk_created_sparse sk") simp_all
qed

lemma built_fits:
  assumes "built p sk"
  shows "sketch_ok p sk" and "sizes_fit sk"
proof -
  show ok: "sketch_ok p sk" using built_ok [OF assms] by blast
  have c: "compact sk" using built_ok [OF assms] by blast
  have p: "sk_p sk = p" "p \<le> 18" using ok by (simp_all add: sketch_ok_def)
  then have p18: "(2 :: nat) ^ p \<le> 2 ^ 18" by (intro power_increasing) auto
  show "sizes_fit sk"
  proof (cases "sk_list sk")
    case (Some l)
    then have "length (sk_tmp sk) * 100 \<le> 2 ^ p" "cl_len l \<le> 2 ^ p" using c p(1) by (simp_all add: compact_def)
    then show ?thesis using p18 c Some by (simp add: sizes_fit_def compact_def)
  next
    case None
    then show ?thesis using c by (simp add: sizes_fit_def compact_def)
  qed
qed

subsection \<open>From node to selector\<close>

text \<open>C40: A sketch that an estimator has made, filled and merged, in whatever order, arrives at the selector as it was sent: its
  sizes fit the fields that carry them, reading its bytes neither panics nor fails, whatever follows them in the
  stream, and yields a well-formed sketch with the same precision and keys or registers, which therefore shows the same;
  only that a dense sketch was once created sparse is forgotten.\<close>

theorem sketch_bytes_roundtrip:
  assumes "built p sk"
  shows "\<exists>rw. sketch_unmarshal (sketch_bytes sk) extra = Inr (Inr rw)
    \<and> sketch_of rw = Some (sk\<lparr>sk_created_sparse := sk_sparse sk\<rparr>)
    \<and> sketch_ok p (sk\<lparr>sk_created_sparse := sk_sparse sk\<rparr>) \<and> sk_hits (sk\<lparr>sk_created_sparse := sk_sparse sk\<rparr>) = sk_hits sk"
proof (cases "sk_list sk")
  case None
  let ?sk = "sk\<lparr>sk_created_sparse := False\<rparr>"
  note b = built_fits [OF assms]
  have "sketch_ok p ?sk" "sizes_fit ?sk" using b None by (simp_all add: sketch_ok_def sizes_fit_def)
  then show ?thesis using unmarshal_dense [OF b(1) None] sketch_of_raw [of p ?sk] None by (simp add: sk_sparse_def sk_hits_def)
next
  case (Some l)
  note b = built_fits [OF assms]
  then have "sk_created_sparse sk" using Some by (simp add: sketch_ok_def)
  then have "sk\<lparr>sk_created_sparse := sk_sparse sk\<rparr> = sk" using Some by (cases sk) (simp add: sk_sparse_def)
  then show ?thesis using unmarshal_sparse [OF b Some] sketch_of_raw [OF b] b(1) by simp
qed

text \<open>Bytes that no sketch has can make \<^verbatim>\<open>UnmarshalBinary\<close> panic instead of returning its error: a set that is cut off.\<close>

lemma truncated_set_panics: "sketch_unmarshal [2, 14, 0, 1, 0, 0, 0, 1] [] = Inl IndexOutOfRange"
  by (simp add: sketch_unmarshal_def new_sketch_def raw_of_def be32_value_def read_keys_def read_be32_def)

theorem sketch_bytes_roundtrip_witness:
  "\<exists>sk rw. new_sketch 14 True = Inr sk \<and> sketch_unmarshal (sketch_bytes (sk_insert_hash sk 5)) [7] = Inr (Inr rw)
    \<and> map_option sk_hits (sketch_of rw) = Some (fp_hits 14 5)"
proof -
  obtain sk where new: "new_sketch 14 True = Inr sk" by (simp add: new_sketch_def)
  have b: "built 14 (sk_insert_hash sk 5)" by (intro built.insert built.new [OF new])
  have "sketch_ok 14 sk" "sk_hits sk = {}" using new new_compact [OF new] by (auto simp: new_sketch_def sk_hits_def)
  then have "sk_hits (sk_insert_hash sk 5) = fp_hits 14 5" using sk_insert_refines [of 14 sk 5] by simp
  then show ?thesis using sketch_bytes_roundtrip [OF b, of "[7]"] new by auto
qed

end
