(* ===== verification/Spec2Isabelle.thy ===== *)
theory Spec2Isabelle
  imports App_Run Rotation_Window Dedup_Window Lifecycle Unmarshaler_Memory Concurrent_Limit Concurrent_Bloom Concurrent_Snapshot
    Concurrent_Reload Sketch_Bytes
begin

text \<open>
  Verification of vmestimator, a service that estimates the cardinality of Prometheus time series.

  \<^bold>\<open>The program.\<close>  Prometheus and compatible agents send remote write requests.  A request is decompressed and
  parsed (\<^verbatim>\<open>app/vmestimator/protoparser\<close>); every series becomes a list of labels and a fingerprint, the hash of
  its encoded labels.  An optional deduplicator (\<^verbatim>\<open>deduplicator.go\<close>) drops the series it already passed.  The
  rest goes to every estimator (\<^verbatim>\<open>estimator.go\<close>), of which there is one per configured stream (\<^verbatim>\<open>config.go\<close>).
  An estimator filters the series, splits them into groups by label values and keeps one HyperLogLog sketch
  per group and generation (vendored \<^verbatim>\<open>axiomhq/hyperloglog\<close>), sharded into buckets.  Buckets are rotated in
  turn, so that what a bucket shows is the current and the previous generation.  A limit bounds the number of
  groups.  A scrape (\<^verbatim>\<open>cardinality_metrics.go\<close>) writes the estimates as Prometheus text (\<^verbatim>\<open>snapshot.go\<close>), with the
  churn of the streams that ask for it (\<^verbatim>\<open>churn.go\<close>), and caches the result; a selector node also fetches the
  snapshots of storage nodes and merges them by estimator id and group.  The configuration can be reloaded
  while the program runs.  \<^verbatim>\<open>main.go\<close> starts all this and routes the requests.

  \<^bold>\<open>Theories.\<close>  They follow the code from the bottom up; every definition carries the name of the function,
  method or type it models.
    \<^item> \<^verbatim>\<open>Go_Prelude\<close>: words, Go's division, maps as association lists, loops that stop at an error (\<open>fold_err\<close>), the
      locale \<open>accumulator\<close> for operations that add to a set, and shared simp rules.  \<^verbatim>\<open>Go_Float\<close>: \<^verbatim>\<open>float64\<close> as
      rationals with explicit rounding.  \<^verbatim>\<open>Go_Strconv\<close>: numbers, quoting and durations as text.
    \<^item> \<^verbatim>\<open>Hll_Encoding\<close>, \<^verbatim>\<open>Hyperloglog\<close>: the vendored sketch: sparse and dense representation, the encoding of a hash,
      the compressed list, insertion, merging.  A sketch is characterised by the set of (register, rank) pairs it
      has seen (\<open>sk_hits\<close>); both representations refine this set.  \<^verbatim>\<open>Sketch_Bytes\<close>: the bytes a sketch is sent as.
    \<^item> \<^verbatim>\<open>Group_Size\<close>, \<^verbatim>\<open>Bucket\<close>, \<^verbatim>\<open>Filters\<close>, \<^verbatim>\<open>Estimator\<close>, \<^verbatim>\<open>Estimator_Snapshot\<close>, \<^verbatim>\<open>Estimator_Run\<close>: \<^verbatim>\<open>estimator.go\<close> and the
      label filters of \<^verbatim>\<open>config.go\<close>; \<^verbatim>\<open>Snapshot\<close>, \<^verbatim>\<open>Metrics_Text\<close>: \<^verbatim>\<open>snapshot.go\<close>.
    \<^item> \<^verbatim>\<open>Churn\<close>, \<^verbatim>\<open>Cardinality_Metrics\<close>, \<^verbatim>\<open>Deduplicator\<close>, \<^verbatim>\<open>Config\<close>: the files of the same names.  \<^verbatim>\<open>Protoparser\<close>: the parser of
      requests with the field reader of the vendored easyproto.
    \<^item> \<^verbatim>\<open>Http_Main\<close>: the handler of \<^verbatim>\<open>main.go\<close>.  \<^verbatim>\<open>App_Run\<close>: the start of \<^verbatim>\<open>main\<close> and every event after it.
    \<^item> \<^verbatim>\<open>Concurrent_Limit\<close>, \<^verbatim>\<open>Concurrent_Bloom\<close>, \<^verbatim>\<open>Concurrent_Snapshot\<close>: the three places where the locks do not make
      an operation atomic, at the granularity of accesses to shared memory.  \<^verbatim>\<open>Concurrent_Reload\<close>: requests in flight
      while estimators are exchanged and the deduplicator is reset or rotated.
    \<^item> \<^verbatim>\<open>Rotation_Window\<close>: the rotation goroutine of an estimator as a loop in time.  \<^verbatim>\<open>Dedup_Window\<close>: those of all
      estimators, the deduplicator's own and the write handler together.  \<^verbatim>\<open>Lifecycle\<close>: the goroutines and the channels that end
      them, from the start of the process through reloads to the shutdown.  \<^verbatim>\<open>Unmarshaler_Memory\<close>: the parser again, with
      the pooled arrays and slices it writes into.

  \<^bold>\<open>Conventions.\<close>  A struct is a record with one field per field of the code (mutexes and metrics left out; channels are in \<^verbatim>\<open>Lifecycle\<close>),
  an operation a function from the old state to a sum: \<open>Inl\<close> is a panic (\<open>go_panic\<close>: an index out of range, a nil
  dereference, a division by zero, an explicit \<^verbatim>\<open>panic\<close>), \<open>Inr\<close> the result.  A Go error is part of the result, as in
  the code; where an operation ends with either, the sum \<open>failure\<close> tells which.  \<^verbatim>\<open>uint64\<close> and \<^verbatim>\<open>uint32\<close> are machine words
  (fingerprints, keys, registers, bit arrays, visit indices), sizes and counters are integers, since they count
  objects in memory; where a conversion can wrap, the code's conversion is written out.  A map is an association list
  without duplicate keys, and its order stands for an arbitrary iteration order of Go.

  \<^bold>\<open>What is shown.\<close>
    \<^item> Sketches: after any stream of insertions, in either representation, a sketch knows exactly the (register, rank)
      pairs of the stream, and merging is union; so every count below is stated by sets of hits, whatever estimate
      is computed from them.
    \<^item> Buckets and estimators: which fingerprints a group shows after any sequence of inserts and rotations; the
      counters are exact and the limit holds; inserting a request adds exactly the selected series, whatever index
      the visit starts at; two cycles of rotation empty an estimator.
    \<^item> The interval: with timers that are not much late, a global estimator shows every selected series of the last half
      interval and nothing older than the interval; no group shows anything older either.  Behind a deduplicator
      the half interval is shorter by the deduplication interval, except for series that the bloom filters confuse
      with others; so the documented ratio of three to five leaves at least a sixth of the interval.
    \<^item> Snapshots: a stream shows every group once; decoding into one reused snapshot gives what was sent; a selector
      ends, per id and group and in every order of arrival, with the union of the sketches that have the precision of the one
      that arrives first (of all, where the nodes agree on the precision); the bytes of every sketch are read back; what is
      written are single lines, whatever bytes values and filters hold, exactly if no label name that is printed contains a line break.
    \<^item> Deduplicator: a fingerprint passes at most once between two clearings of its filter while there is room, and
      no filter has more than a quarter of its bits set.
    \<^item> Churn: the current sketches are the snapshot's and the baseline is not older than the interval.
    \<^item> Configuration: exactly which configurations are rejected and for which accepted ones the construction of an
      estimator can still fail or panic, that loading keeps unchanged streams with their state, and that a failed reload keeps the last good one.
    \<^item> Requests: reading ends on every input, and a request written by a standard encoder is read back, whether the
      encoder writes empty fields or leaves them out (the flag \<open>om\<close>); the bytes that are hashed for the fingerprint determine the labels.  In memory that is
      reused for one request after the other, the requests in flight never disturb each other.
    \<^item> The whole program: a write request is counted by every estimator, a scrape of a cluster shows the union of its
      nodes (by precision), which starts panic, and that no run of the program without storage nodes panics except through two kinds of
      events (\<open>fatal_event\<close>): a reset before a global estimator has rotated, and a round of the rotation goroutine of an
      estimator with too short an interval.
    \<^item> Start and shutdown: however reloads, requests and the shutdown interleave, no goroutine is stopped twice, none is
      left behind by a load or by the end of the process, and the shutdown never waits forever.
    \<^item> Concurrency: under every interleaving the counters account for all groups and the limit is exceeded by less than
      the number of buckets (which can happen); no update of a bloom filter is lost and all its loops end; a
      snapshot that is interrupted by writers is still complete; no series that is looked up in a filter made after new estimators
      were stored is dropped as known although one of them has not been given it, while a request that has loaded its filter before
      that can do so.  The atomic operations of the other theories are runs of the first three of these models.

  \<^bold>\<open>Bounds and termination.\<close>  There is no fuel.  Loops over data are folds or structural recursions; the others have
  termination proofs: decoding the compressed list and reading a message consume input, batches get shorter, and the
  concurrent bloom filter has a potential that falls with every step.  The theorems about the whole program assume a
  maximal request size of at most \<open>2 ^ 31\<close> bytes and at most \<open>2 ^ 31\<close> streams, since requests and estimators are
  visited with \<^verbatim>\<open>uint32\<close> indices; sizes are below \<open>2 ^ 63\<close>, the range of \<^verbatim>\<open>int\<close>.  Making a slice
  panics above \<open>2 ^ 48\<close> bytes (\<open>slice_fits\<close>, the address space of the 64-bit platforms): that bounds the number of buckets (\<open>max_buckets\<close>)
  and of items of the deduplicator (\<open>max_items\<close>), which the program does not check.  HLL
  precisions are between 4 and 18, which the configuration enforces.

  \<^bold>\<open>Parameters.\<close>  Code that is not part of the repository's own program is an argument: the floating-point formulas of
  the sketch's estimate, xxhash, the decompressors, the YAML decoder, \<^verbatim>\<open>metricsql.Parse\<close>, the regexp compiler, the
  answers of storage nodes, the clock, random numbers, flags and authorization, and the table of printable runes
  above \<^verbatim>\<open>0xFF\<close> for quoting.  The theorems hold for all of them unless a hypothesis says what is relied on.
  Those about runs of the program ask of the configuration files that their names have no line breaks and their intervals are
  positive and below \<open>2 ^ 62\<close> nanoseconds (\<open>decoded_ok\<close>), which neither YAML nor the program checks; those about requests ask of the
  answers of storage nodes that they are what such a node sends (\<open>nodes_ok\<close>).

  \<^bold>\<open>Not modelled.\<close>  Running out of memory; the self-metrics, which only observe; flag parsing, logging and listeners, which are calls into
  libraries (a signal, a tick and the return of the server are steps that can happen at any time); the gob bytes of a snapshot stream, which are abstracted to the fields they carry, except those of the sketches; byte
  buffers and digests that are pooled, unlike the sketches and unmarshalers, whose reuse is modelled.  Memory is sequentially consistent, as Go's memory model
  gives for its atomic operations and mutexes.  The replacement of a whole filter during a request is interleaved in
  \<^verbatim>\<open>Concurrent_Reload\<close> only: a request keeps the filter it has loaded.
\<close>

end
